(* ===== verification/Prelude.thy ===== *)
theory Prelude
  imports Main "HOL-Library.Word" "HOL-Library.Signed_Division"
begin

text \<open>
  What the components share: the error values of the modelled C++, the sequencing of
  fallible steps and of counted loops, checked buffer accesses, the wrap-around of 32-bit
  ints, and the interface of a store of cells with the law of a sweep over its cells.
\<close>

subsection \<open>Errors\<close>

text \<open>
  A C++ function that may fail returns \<open>cerr + 'a\<close>. \<open>OutOfRange\<close> is the
  \<open>std::out_of_range\<close> that \<open>at\<close> and \<open>substr\<close> throw; \<open>OutOfBounds\<close> is an access
  outside an allocated buffer (undefined behaviour in C++, never a value here);
  \<open>DivByZero\<close> an integer division or remainder by zero; \<open>BadAlloc\<close> an allocation of a
  negative size; \<open>Uninit\<close> a read of a variable that was never assigned; \<open>Hang\<close> a loop
  or recursion that does not end; \<open>NullDeref\<close> an access through a null pointer; \<open>Freed\<close> an
  access through a pointer to a freed block, or its second release; \<open>Thrown m\<close> a \<open>throw m\<close> of
  the source.
\<close>

datatype cerr = OutOfRange | OutOfBounds | DivByZero | BadAlloc | Uninit | Hang | NullDeref | Freed
  | Thrown string

type_synonym 'a res = "cerr + 'a"
type_synonym byte = "8 word"

named_theorems res_simps "sequencing of fallible steps"
named_theorems cell_simps "checked buffer accesses"

definition rbind :: "'a res \<Rightarrow> ('a \<Rightarrow> 'b res) \<Rightarrow> 'b res" where
  "rbind m f = (case m of Inl e \<Rightarrow> Inl e | Inr x \<Rightarrow> f x)"

lemma rbind_Inr [simp, res_simps]: "rbind (Inr x) f = f x"
  by (simp add: rbind_def)

lemma rbind_Inl [simp, res_simps]: "rbind (Inl e) f = Inl e"
  by (simp add: rbind_def)

lemma rbind_eq_Inr: "rbind m f = Inr y \<longleftrightarrow> (\<exists>x. m = Inr x \<and> f x = Inr y)"
  by (cases m) auto

lemma rbind_assoc: "rbind (rbind m f) g = rbind m (\<lambda>x. rbind (f x) g)"
  by (cases m) auto

lemma rbind_cong [fundef_cong]:
  "m = m' \<Longrightarrow> (\<And>x. m' = Inr x \<Longrightarrow> f x = f' x) \<Longrightarrow> rbind m f = rbind m' f'"
  by (cases m') auto

text \<open>A counted loop: the body runs once per element and threads the state.\<close>

fun foldM :: "('a \<Rightarrow> 's \<Rightarrow> 's res) \<Rightarrow> 'a list \<Rightarrow> 's \<Rightarrow> 's res" where
  "foldM f [] s = Inr s"
| "foldM f (x # xs) s = rbind (f x s) (foldM f xs)"

lemma foldM_append: "foldM f (xs @ ys) s = rbind (foldM f xs s) (foldM f ys)"
  by (induction xs arbitrary: s) (auto simp: rbind_def split: sum.splits)

lemma foldM_pure: "foldM (\<lambda>x s. Inr (g x s)) xs s = Inr (fold g xs s)"
  by (induction xs arbitrary: s) auto

lemma foldM_cong_set:
  "(\<And>x s. x \<in> set xs \<Longrightarrow> f x s = g x s) \<Longrightarrow> foldM f xs s = foldM g xs s"
  by (induction xs arbitrary: s) (auto intro!: rbind_cong)

text \<open>A loop that skips some of its turns.\<close>

lemma foldM_skip: "foldM (\<lambda>x s. if P x then f x s else Inr s) xs s = foldM f (filter P xs) s"
proof (induction xs arbitrary: s)
  case (Cons x xs)
  show ?case by (cases "P x") (auto simp: rbind_def Cons.IH split: sum.splits)
qed simp

text \<open>A loop that carries a value along it never looks at.\<close>

lemma foldM_carry:
  "foldM (\<lambda>x (c, s). rbind (f x s) (\<lambda>s. Inr (c, s))) xs (c, s) =
     rbind (foldM f xs s) (\<lambda>s. Inr (c, s))"
  by (induction xs arbitrary: s) (simp_all add: rbind_assoc)

text \<open>A loop whose body keeps \<open>P\<close> and never fails under it, never fails.\<close>

lemma foldM_invariant:
  assumes "P s" and "\<And>x s. x \<in> set xs \<Longrightarrow> P s \<Longrightarrow> \<exists>s'. f x s = Inr s' \<and> P s'"
  shows "\<exists>s'. foldM f xs s = Inr s' \<and> P s'"
  using assms
proof (induction xs arbitrary: s)
  case Nil
  then show ?case by simp
next
  case (Cons x xs)
  from Cons.prems obtain s1 where s1: "f x s = Inr s1" "P s1"
    by force
  have "\<exists>s'. foldM f xs s1 = Inr s' \<and> P s'"
    by (rule Cons.IH) (use Cons.prems s1 in auto)
  with s1 show ?case by simp
qed

text \<open>What every successful step keeps holds after a loop that succeeds.\<close>

lemma foldM_keeps:
  "foldM f xs s = Inr t \<Longrightarrow> P s \<Longrightarrow> (\<And>x s t. P s \<Longrightarrow> f x s = Inr t \<Longrightarrow> P t) \<Longrightarrow> P t"
proof (induction xs arbitrary: s)
  case (Cons x xs)
  then show ?case by (cases "f x s") auto
qed simp

text \<open>A loop one of whose steps must fail, and none of whose steps fails otherwise, fails so.\<close>

lemma foldM_error:
  assumes "P s"
    and "\<And>x s. x \<in> set xs \<Longrightarrow> P s \<Longrightarrow> (\<exists>s'. f x s = Inr s' \<and> P s') \<or> f x s = Inl e"
    and "\<exists>x \<in> set xs. \<forall>s. P s \<longrightarrow> f x s = Inl e"
  shows "foldM f xs s = Inl e"
  using assms
proof (induction xs arbitrary: s)
  case Nil
  then show ?case by simp
next
  case (Cons x xs)
  from Cons.prems(1) Cons.prems(2) [of x s] consider s1 where "f x s = Inr s1" "P s1" | "f x s = Inl e"
    by auto
  then show ?case
  proof cases
    case 1
    with Cons.prems(1,3) have "\<exists>x \<in> set xs. \<forall>s. P s \<longrightarrow> f x s = Inl e"
      by auto
    with 1 Cons.prems(2) have "foldM f xs s1 = Inl e"
      by (intro Cons.IH) auto
    with 1 show ?thesis by simp
  qed simp
qed

lemma fold_count: "fold (\<lambda>x n. if P x then n + 1 else n) xs n = n + int (length (filter P xs))"
  by (induction xs arbitrary: n) auto

lemma foldM_count:
  "(\<And>x n. x \<in> set xs \<Longrightarrow> f x n = Inr (if P x then n + 1 else n)) \<Longrightarrow>
     foldM f xs n = Inr (n + int (length (filter P xs)))"
  by (simp only: foldM_cong_set [of xs f "\<lambda>x n. Inr (if P x then n + 1 else n)"]
      foldM_pure [of "\<lambda>x n. if P x then n + 1 else n"] fold_count)

text \<open>A loop that maps each element to a value, left to right.\<close>

fun mapM :: "('a \<Rightarrow> 'b res) \<Rightarrow> 'a list \<Rightarrow> 'b list res" where
  "mapM f [] = Inr []"
| "mapM f (x # xs) = rbind (f x) (\<lambda>y. rbind (mapM f xs) (\<lambda>ys. Inr (y # ys)))"

lemma mapM_total: "(\<And>x. x \<in> set xs \<Longrightarrow> f x = Inr (g x)) \<Longrightarrow> mapM f xs = Inr (map g xs)"
  by (induction xs) auto

lemma mapM_cong_set: "(\<And>x. x \<in> set xs \<Longrightarrow> f x = g x) \<Longrightarrow> mapM f xs = mapM g xs"
  by (induction xs) auto

text \<open>Loops over mapped, concatenated and nested lists.\<close>

lemma foldM_map: "foldM f (map g xs) s = foldM (\<lambda>x. f (g x)) xs s"
  by (induction xs arbitrary: s) (simp_all add: rbind_def split: sum.split)

lemma foldM_nested:
  "foldM (\<lambda>i. foldM (f i) ys) xs s = foldM (\<lambda>(i, y). f i y) (concat (map (\<lambda>i. map (Pair i) ys) xs)) s"
  by (induction xs arbitrary: s) (auto simp: foldM_append foldM_map intro: rbind_cong)

lemma mapM_append: "mapM f (xs @ ys) = rbind (mapM f xs) (\<lambda>a. rbind (mapM f ys) (\<lambda>b. Inr (a @ b)))"
  by (induction xs) (simp_all add: rbind_assoc rbind_def split: sum.split)

lemma mapM_concat: "mapM f (concat xss) = rbind (mapM (mapM f) xss) (\<lambda>yss. Inr (concat yss))"
  by (induction xss) (simp_all add: mapM_append rbind_def split: sum.split)

lemma mapM_map: "mapM f (map g xs) = mapM (\<lambda>x. f (g x)) xs"
  by (induction xs) simp_all

lemma mapM_post: "mapM (\<lambda>x. rbind (f x) (\<lambda>y. Inr (g y))) xs = rbind (mapM f xs) (\<lambda>ys. Inr (map g ys))"
  by (induction xs) (simp_all add: rbind_assoc rbind_def split: sum.split)

lemma mapM_Inr: "mapM f xs = Inr ys \<Longrightarrow> list_all2 (\<lambda>x y. f x = Inr y) xs ys"
  by (induction xs arbitrary: ys) (auto simp: rbind_def split: sum.splits)

lemma mapM_all2: "list_all2 (\<lambda>x y. f x = Inr y) xs ys \<Longrightarrow> mapM f xs = Inr ys"
  by (induction rule: list_all2_induct) simp_all

subsection \<open>Steps that may throw and keep their effects\<close>

type_synonym ('s, 'a) io = "'s \<Rightarrow> 'a res \<times> 's"

definition io_return :: "'a \<Rightarrow> ('s, 'a) io" where
  "io_return x s = (Inr x, s)"

definition io_throw :: "string \<Rightarrow> ('s, 'a) io" where
  "io_throw m s = (Inl (Thrown m), s)"

definition io_bind :: "('s, 'a) io \<Rightarrow> ('a \<Rightarrow> ('s, 'b) io) \<Rightarrow> ('s, 'b) io" where
  "io_bind m f s = (case m s of (Inl e, s') \<Rightarrow> (Inl e, s') | (Inr x, s') \<Rightarrow> f x s')"

lemma io_bind_Inr: "m s = (Inr x, s') \<Longrightarrow> io_bind m f s = f x s'"
  by (simp add: io_bind_def)

lemma io_bind_Inl: "m s = (Inl e, s') \<Longrightarrow> io_bind m f s = (Inl e, s')"
  by (simp add: io_bind_def)

subsection \<open>Buffers\<close>

text \<open>
  \<open>rdbuf m i\<close> is the read \<open>*(m+i)\<close> and \<open>wrbuf m i v\<close> the write \<open>*(m+i) = v\<close> of a buffer
  of \<open>length m\<close> cells, at an int index: outside the buffer they are an error, not a value.
\<close>

definition rdbuf :: "'a list \<Rightarrow> int \<Rightarrow> 'a res" where
  "rdbuf m i = (if 0 \<le> i \<and> i < int (length m) then Inr (m ! nat i) else Inl OutOfBounds)"

definition wrbuf :: "'a list \<Rightarrow> int \<Rightarrow> 'a \<Rightarrow> 'a list res" where
  "wrbuf m i v = (if 0 \<le> i \<and> i < int (length m) then Inr (m[nat i := v]) else Inl OutOfBounds)"

lemma rdbuf_in [simp, cell_simps]:
  "0 \<le> i \<Longrightarrow> i < int (length m) \<Longrightarrow> rdbuf m i = Inr (m ! nat i)"
  by (simp add: rdbuf_def)

lemma wrbuf_in [simp, cell_simps]:
  "0 \<le> i \<Longrightarrow> i < int (length m) \<Longrightarrow> wrbuf m i v = Inr (m[nat i := v])"
  by (simp add: wrbuf_def)

lemma rdbuf_out: "i < 0 \<or> int (length m) \<le> i \<Longrightarrow> rdbuf m i = Inl OutOfBounds"
  by (auto simp: rdbuf_def)

lemma wrbuf_out: "i < 0 \<or> int (length m) \<le> i \<Longrightarrow> wrbuf m i v = Inl OutOfBounds"
  by (auto simp: wrbuf_def)

lemma wrbuf_length: "wrbuf m i v = Inr m' \<Longrightarrow> length m' = length m"
  by (auto simp: wrbuf_def split: if_splits)

subsection \<open>32-bit ints\<close>

text \<open>
  \<open>s32 x\<close> is the value of the mathematical result \<open>x\<close> in a 32-bit two's complement int, as
  the compiled code computes it. \<open>cdiv\<close> and \<open>cmod\<close> are the \<open>/\<close> and \<open>%\<close> of C++: they
  truncate towards zero and trap on a zero divisor.
\<close>

definition s32 :: "int \<Rightarrow> int" where
  "s32 x = signed_take_bit 31 x"

definition int32 :: "int \<Rightarrow> bool" where
  "int32 x \<longleftrightarrow> - (2 ^ 31) \<le> x \<and> x < 2 ^ 31"

lemma s32_id [simp]: "int32 x \<Longrightarrow> s32 x = x"
  by (simp add: s32_def int32_def signed_take_bit_int_eq_self)

lemma int32_s32 [simp]: "int32 (s32 x)"
  using signed_take_bit_int_greater_eq_minus_exp [of 31 x]
    signed_take_bit_int_less_exp [of 31 x]
  by (simp add: int32_def s32_def)

lemma s32_0 [simp]: "s32 0 = 0"
  by (simp add: s32_def)

lemma int32_abs: "\<bar>x\<bar> < 2 ^ 31 \<Longrightarrow> int32 x"
  by (auto simp: int32_def abs_less_iff)

lemma s32_s32 [simp]: "s32 (s32 x) = s32 x"
  by simp

lemma s32_add: "s32 (s32 a + s32 b) = s32 (a + b)"
  by (simp add: s32_def signed_take_bit_add)

lemma s32_diff: "s32 (s32 a - s32 b) = s32 (a - b)"
  by (simp add: s32_def signed_take_bit_diff)

text \<open>Wrapping an operand of a sum or a difference that is wrapped itself changes nothing.\<close>

lemma s32_add_left [simp]: "s32 (s32 a + b) = s32 (a + b)"
  using s32_add [of "s32 a" b] s32_add [of a b] by simp

lemma s32_add_right [simp]: "s32 (a + s32 b) = s32 (a + b)"
  using s32_add [of a "s32 b"] s32_add [of a b] by simp

lemma s32_diff_left [simp]: "s32 (s32 a - b) = s32 (a - b)"
  using s32_diff [of "s32 a" b] s32_diff [of a b] by simp

lemma s32_diff_right [simp]: "s32 (a - s32 b) = s32 (a - b)"
  using s32_diff [of a "s32 b"] s32_diff [of a b] by simp

lemma int32_between: "int32 a \<Longrightarrow> int32 b \<Longrightarrow> a \<le> x \<Longrightarrow> x \<le> b \<Longrightarrow> int32 x"
  by (simp add: int32_def)

definition cdiv :: "int \<Rightarrow> int \<Rightarrow> int res" where
  "cdiv a b = (if b = 0 then Inl DivByZero else Inr (a sdiv b))"

definition cmod :: "int \<Rightarrow> int \<Rightarrow> int res" where
  "cmod a b = (if b = 0 then Inl DivByZero else Inr (a smod b))"

lemma cmod_in: "0 \<le> a \<Longrightarrow> a < b \<Longrightarrow> cmod a b = Inr a"
  by (auto simp: cmod_def signed_modulo_int_def sgn_if)

lemma cmod_nonneg: "0 \<le> a \<Longrightarrow> 0 < b \<Longrightarrow> cmod a b = Inr (a mod b)"
  by (auto simp: cmod_def signed_modulo_int_def sgn_if)

lemma cdiv_nonneg: "0 \<le> a \<Longrightarrow> 0 < b \<Longrightarrow> cdiv a b = Inr (a div b)"
  by (simp add: cdiv_def signed_divide_int_def sgn_if)

subsection \<open>Bytes\<close>

lemma uint_byte_of_int [simp]: "0 \<le> x \<Longrightarrow> x < 256 \<Longrightarrow> uint (word_of_int x :: byte) = x"
  by (simp add: uint_word_of_int)

lemma uint_byte_ge [simp]: "0 \<le> uint (b :: byte)"
  by simp

lemma uint_byte_lt [simp]: "uint (b :: byte) < 256"
  using uint_lt2p [of b] by simp

lemma uint_byte_le [simp]: "uint (b :: byte) \<le> 255"
  using uint_byte_lt [of b] by linarith

lemma unat_byte_lt [simp]: "unat (b :: byte) < 256"
  using uint_byte_lt [of b] by (simp only: unat_eq_nat_uint nat_less_iff uint_byte_ge of_nat_numeral)

subsection \<open>Raster order\<close>

text \<open>The index pairs of \<open>for(j = 0; j < h; j++) for(i = 0; i < w; i++)\<close>, in that order.\<close>

definition raster :: "int \<Rightarrow> int \<Rightarrow> (int \<times> int) list" where
  "raster w h = concat (map (\<lambda>j. map (\<lambda>i. (i, j)) [0..w - 1]) [0..h - 1])"

lemma set_raster: "set (raster w h) = {(i, j). 0 \<le> i \<and> i < w \<and> 0 \<le> j \<and> j < h}"
  by (auto simp: raster_def)

lemma distinct_rows:
  "distinct js \<Longrightarrow> distinct is \<Longrightarrow> distinct (concat (map (\<lambda>j. map (\<lambda>i. (i, j)) is) js))"
  by (induction js) (auto simp: distinct_map inj_on_def)

lemma distinct_raster: "distinct (raster w h)"
  by (simp add: raster_def distinct_rows)

text \<open>The indices of the pixels, row after row, are the numbers up to the size.\<close>

lemma raster_index:
  assumes "0 \<le> w" "0 \<le> h"
  shows "map (\<lambda>(i, j). i + j * w) (raster w h) = [0..w * h - 1]"
proof -
  have "concat (map (\<lambda>j. map (\<lambda>i. i + j * w) [0..w - 1]) [0..int n - 1]) = [0..int n * w - 1]" for n
  proof (induction n)
    case (Suc n)
    have "[0..int (Suc n) - 1] = [0..int n - 1] @ [int n]"
      using upto_rec2 [of 0 "int n"] by simp
    moreover have "map (\<lambda>i. i + int n * w) [0..w - 1] = [int n * w..int n * w + w - 1]"
      by (rule nth_equalityI) (use assms(1) in simp_all)
    moreover have "[0..int (Suc n) * w - 1] = [0..int n * w - 1] @ [int n * w..int n * w + w - 1]"
      using upto_split1 [of 0 "int n * w" "int n * w + w - 1"] assms(1)
      by (cases "w = 0") (simp_all add: algebra_simps)
    ultimately show ?case using Suc.IH by simp
  qed simp
  from this [of "nat h"] show ?thesis
    using assms(2) by (simp add: raster_def map_concat comp_def mult.commute)
qed

subsection \<open>The interface of a store of cells\<close>

text \<open>
  Every image of the program is a store of pixels: a shape (its width and height), a read and
  a write of the cell at an index that is valid for the shape. \<open>sweep\<close> is the law of the
  loops that visit each index once and write that cell from the cell's own old value (and
  from anything the loop does not change): the cells visited hold the new values, the others
  are as before. A provider owes the read-after-write law and that a write keeps the shape.
\<close>

locale cell_store =
  fixes shape :: "'s \<Rightarrow> 'h"
    and ok :: "'h \<Rightarrow> 'i \<Rightarrow> bool"
    and rd :: "'s \<Rightarrow> 'i \<Rightarrow> 'p"
    and wr :: "'s \<Rightarrow> 'i \<Rightarrow> 'p \<Rightarrow> 's"
  assumes shape_wr: "shape (wr s x p) = shape s"
    and rd_wr: "ok (shape s) x \<Longrightarrow> ok (shape s) y \<Longrightarrow>
      rd (wr s x p) y = (if x = y then p else rd s y)"
begin

lemma sweep_acc:
  assumes "distinct xs" and "\<And>x. x \<in> set xs \<Longrightarrow> ok (shape s) x"
    and "\<And>x c t. x \<in> set xs \<Longrightarrow> shape t = shape s \<Longrightarrow> rd t x = rd s x \<Longrightarrow>
      f x (c, t) = Inr (h x c, wr t x (g x))"
  shows "\<exists>t. foldM f xs (c, s) = Inr (fold h xs c, t) \<and> shape t = shape s \<and>
    (\<forall>y. ok (shape s) y \<longrightarrow> rd t y = (if y \<in> set xs then g y else rd s y))"
  using assms
proof (induction xs arbitrary: c s)
  case Nil
  then show ?case by simp
next
  case (Cons x xs)
  let ?s = "wr s x (g x)"
  have fx: "f x (c, s) = Inr (h x c, ?s)"
    by (rule Cons.prems(3)) simp_all
  have okx: "ok (shape s) x"
    by (rule Cons.prems(2)) simp
  have old: "rd ?s y = rd s y" if "y \<in> set xs" for y
    using that Cons.prems(1,2) okx by (auto simp: rd_wr)
  have d: "distinct xs"
    using Cons.prems(1) by simp
  have o: "ok (shape ?s) y" if "y \<in> set xs" for y
    using that Cons.prems(2) by (simp add: shape_wr)
  have step: "f y (e, t) = Inr (h y e, wr t y (g y))"
    if "y \<in> set xs" "shape t = shape ?s" "rd t y = rd ?s y" for y e t
    using that Cons.prems(3) old by (simp add: shape_wr)
  from Cons.IH [OF d o step] obtain t where
    t: "foldM f xs (h x c, ?s) = Inr (fold h xs (h x c), t)" "shape t = shape ?s"
    and rdt: "\<And>y. ok (shape ?s) y \<Longrightarrow> rd t y = (if y \<in> set xs then g y else rd ?s y)"
    by blast
  have "rd t y = (if y \<in> set (x # xs) then g y else rd s y)" if "ok (shape s) y" for y
    using that rdt [of y] okx Cons.prems(1) by (auto simp: shape_wr rd_wr)
  with fx t show ?case
    by (simp add: shape_wr)
qed

text \<open>Without an accumulator.\<close>

lemma sweep:
  assumes "distinct xs" and "\<And>x. x \<in> set xs \<Longrightarrow> ok (shape s) x"
    and "\<And>x t. x \<in> set xs \<Longrightarrow> shape t = shape s \<Longrightarrow> rd t x = rd s x \<Longrightarrow>
      f x t = Inr (wr t x (g x))"
  shows "\<exists>t. foldM f xs s = Inr t \<and> shape t = shape s \<and>
    (\<forall>y. ok (shape s) y \<longrightarrow> rd t y = (if y \<in> set xs then g y else rd s y))"
proof -
  let ?f = "\<lambda>x (c, t). rbind (f x t) (\<lambda>t. Inr (c, t))"
  have body: "?f x (c, t) = Inr (id c, wr t x (g x))"
    if "x \<in> set xs" "shape t = shape s" "rd t x = rd s x" for x t and c :: unit
    using assms(3) [OF that] by simp
  have id: "fold (\<lambda>_. id) xs () = ()" by simp
  have "\<exists>t. foldM ?f xs ((), s) = Inr (fold (\<lambda>_. id) xs (), t) \<and> shape t = shape s \<and>
    (\<forall>y. ok (shape s) y \<longrightarrow> rd t y = (if y \<in> set xs then g y else rd s y))"
    by (rule sweep_acc [OF assms(1,2)]) (assumption, rule body)
  then obtain t where t: "foldM ?f xs ((), s) = Inr ((), t)" "shape t = shape s"
    "\<forall>y. ok (shape s) y \<longrightarrow> rd t y = (if y \<in> set xs then g y else rd s y)"
    unfolding id by blast
  from t(1) have "foldM f xs s = Inr t"
    unfolding foldM_carry by (cases "foldM f xs s") simp_all
  with t(2,3) show ?thesis by blast
qed

text \<open>The state after a sweep that never fails, as a bare fact about reads.\<close>

lemma sweep_rd:
  assumes "distinct xs" and "\<And>x. x \<in> set xs \<Longrightarrow> ok (shape s) x"
    and "\<And>x t. x \<in> set xs \<Longrightarrow> shape t = shape s \<Longrightarrow> rd t x = rd s x \<Longrightarrow>
      f x t = Inr (wr t x (g x))"
    and "foldM f xs s = Inr t" and "ok (shape s) y"
  shows "rd t y = (if y \<in> set xs then g y else rd s y)"
proof -
  obtain u where "foldM f xs s = Inr u"
    and "\<And>y. ok (shape s) y \<Longrightarrow> rd u y = (if y \<in> set xs then g y else rd s y)"
    using sweep [OF assms(1-3)] by blast
  then show ?thesis
    using assms(4,5) by simp
qed

end

end
