(* ===== verification/CDouble.thy ===== *)
theory CDouble
  imports Complex_Main Prelude
begin

text \<open>
  The binary32 and binary64 arithmetic of the code's \<open>float\<close> and \<open>double\<close>
  (round to nearest, ties to even, gradual underflow, overflow to infinity), over exact
  rationals, so that every operation evaluates. The sign of a zero is not kept: nowhere does
  the modelled code divide by a computed zero whose sign matters. The
  conversions to integers are those of the 32-bit Windows build: truncation by
  \<open>cvttsd2si\<close>, which gives \<open>-2^31\<close> for a NaN, an infinity or a value outside the range.
\<close>

subsection \<open>Rounding a rational to an integer, ties to even\<close>

definition rne :: "rat \<Rightarrow> int" where
  "rne x = (let f = \<lfloor>x\<rfloor>; d = x - of_int f in
     if d < 1 / 2 then f else if 1 / 2 < d then f + 1 else if even f then f else f + 1)"

lemma rne_of_int [simp]: "rne (of_int n) = n"
  by (simp add: rne_def)

lemma rne_bounds: "x - 1 / 2 \<le> of_int (rne x) \<and> of_int (rne x) \<le> x + 1 / 2"
proof -
  define f d where "f = \<lfloor>x\<rfloor>" and "d = x - of_int f"
  have "of_int f \<le> x" "x < of_int f + 1"
    unfolding f_def using floor_correct [of x] by (simp_all only: of_int_add of_int_1 simp_thms)
  then have "x = of_int f + d" "0 \<le> d" "d < 1"
    unfolding \<open>d = x - of_int f\<close> by linarith+
  then show ?thesis
    unfolding rne_def Let_def f_def [symmetric] by auto
qed

lemma rne_mono:
  assumes "x \<le> y"
  shows "rne x \<le> rne y"
proof -
  have f: "\<lfloor>x\<rfloor> \<le> \<lfloor>y\<rfloor>"
    using assms by (rule floor_mono)
  have hi: "rne x \<le> \<lfloor>x\<rfloor> + 1" and lo: "\<lfloor>y\<rfloor> \<le> rne y"
    by (simp_all add: rne_def Let_def)
  show ?thesis
  proof (cases "\<lfloor>x\<rfloor> = \<lfloor>y\<rfloor>")
    case True
    with assms show ?thesis
      by (auto simp: rne_def Let_def)
  next
    case False
    with f hi lo show ?thesis by linarith
  qed
qed

lemma rne_minus: "rne (- x) = - rne x"
proof (cases "x = of_int \<lfloor>x\<rfloor>")
  case True
  then have "- x = of_int (- \<lfloor>x\<rfloor>)" by simp
  then have "rne (- x) = - \<lfloor>x\<rfloor>" by (simp only: rne_of_int)
  moreover have "rne x = \<lfloor>x\<rfloor>" using True rne_of_int by metis
  ultimately show ?thesis by simp
next
  case False
  define f where "f = \<lfloor>x\<rfloor>"
  have g: "\<lfloor>- x\<rfloor> = - f - 1"
    using False by (simp add: floor_minus ceiling_altdef f_def)
  show ?thesis
    unfolding rne_def Let_def g f_def [symmetric] by auto
qed

lemma rne_le_int: "x \<le> of_int n \<Longrightarrow> rne x \<le> n"
  using rne_mono [of x "of_int n"] by simp

lemma rne_ge_int: "of_int n \<le> x \<Longrightarrow> n \<le> rne x"
  using rne_mono [of "of_int n" x] by simp

subsection \<open>The binary exponent of a positive rational\<close>

function nlog2 :: "int \<Rightarrow> int" where
  "nlog2 n = (if n \<le> 1 then 0 else 1 + nlog2 (n div 2))"
  by pat_completeness auto
termination
  by (relation "measure nat") auto

declare nlog2.simps [simp del]

lemma nlog2_bounds:
  "0 < n \<Longrightarrow> 0 \<le> nlog2 n \<and> 2 ^ nat (nlog2 n) \<le> n \<and> n < 2 * 2 ^ nat (nlog2 n)"
proof (induction n rule: nlog2.induct)
  case (1 n)
  show ?case
  proof (cases "n \<le> 1")
    case True
    with "1.prems" show ?thesis by (simp add: nlog2.simps [of n])
  next
    case False
    with "1.IH" have ih: "0 \<le> nlog2 (n div 2)" "2 ^ nat (nlog2 (n div 2)) \<le> n div 2"
      "n div 2 < 2 * 2 ^ nat (nlog2 (n div 2))"
      by auto
    then have "2 * 2 ^ nat (nlog2 (n div 2)) \<le> n" "n < 4 * 2 ^ nat (nlog2 (n div 2))"
      by linarith+
    with False ih(1) show ?thesis by (simp add: nlog2.simps [of n] nat_add_distrib)
  qed
qed

definition ilog2 :: "rat \<Rightarrow> int" where
  "ilog2 x = (let (p, q) = quotient_of x; k = nlog2 p - nlog2 q in
     if 2 powi k \<le> x then k else k - 1)"

lemma ilog2_bounds:
  assumes "0 < x"
  shows "2 powi (ilog2 x) \<le> x" "x < 2 powi (ilog2 x + 1)"
proof -
  obtain p q where pq: "quotient_of x = (p, q)" by force
  then have q: "0 < q" and x: "x = of_int p / of_int q"
    by (auto intro: quotient_of_denom_pos quotient_of_div)
  with assms have p: "0 < p" by (simp add: zero_less_divide_iff)
  define a b where "a = nat (nlog2 p)" and "b = nat (nlog2 q)"
  have ab: "nlog2 p = int a" "nlog2 q = int b"
    using nlog2_bounds [of p] nlog2_bounds [of q] p q by (auto simp: a_def b_def)
  have "2 ^ a \<le> p" "p < 2 ^ Suc a" "2 ^ b \<le> q" "q < 2 ^ Suc b"
    using nlog2_bounds [of p] nlog2_bounds [of q] p q by (auto simp: a_def b_def)
  then have *: "2 ^ a \<le> (of_int p :: rat)" "of_int p < (2 ^ Suc a :: rat)"
    "2 ^ b \<le> (of_int q :: rat)" "of_int q < (2 ^ Suc b :: rat)"
    by (metis of_int_le_iff of_int_less_iff of_int_numeral of_int_power)+
  have "x < 2 ^ Suc a / 2 ^ b"
    unfolding x using * q p by (intro frac_less) auto
  also have "\<dots> = 2 powi (int a - int b + 1)"
    by (simp add: power_int_diff power_int_add)
  finally have hi: "x < 2 powi (int a - int b + 1)" .
  have "2 ^ a / 2 ^ Suc b < x"
    unfolding x using * q p by (intro frac_less2) auto
  moreover have "2 ^ a / 2 ^ Suc b = (2 :: rat) powi (int a - int b - 1)"
    by (simp add: power_int_diff power_int_add field_simps)
  ultimately have lo: "2 powi (int a - int b - 1) < x" by simp
  have e: "ilog2 x = (if 2 powi (int a - int b) \<le> x then int a - int b else int a - int b - 1)"
    by (simp add: ilog2_def pq ab)
  show "2 powi (ilog2 x) \<le> x" "x < 2 powi (ilog2 x + 1)"
    using lo hi by (auto simp: e not_le)
qed

lemma ilog2_mono:
  assumes "0 < x" "x \<le> y"
  shows "ilog2 x \<le> ilog2 y"
proof (rule ccontr)
  assume "\<not> ilog2 x \<le> ilog2 y"
  then have "(2 :: rat) powi (ilog2 y + 1) \<le> 2 powi ilog2 x"
    by (intro power_int_increasing) auto
  moreover have "y < 2 powi (ilog2 y + 1)" "2 powi ilog2 x \<le> x"
    using assms by (auto intro: ilog2_bounds)
  ultimately show False using assms by linarith
qed

subsection \<open>Rounding to a binary format\<close>

text \<open>
  \<open>rnd_q p m x\<close> is the nearest number with \<open>p\<close> significant bits and exponent at least
  \<open>m\<close>; overflow is decided after rounding.
\<close>

datatype fmt = F32 | F64

fun fmt_prec :: "fmt \<Rightarrow> int" where
  "fmt_prec F32 = 24"
| "fmt_prec F64 = 53"

fun fmt_emin :: "fmt \<Rightarrow> int" where
  "fmt_emin F32 = -126"
| "fmt_emin F64 = -1022"

fun fmt_emax :: "fmt \<Rightarrow> int" where
  "fmt_emax F32 = 127"
| "fmt_emax F64 = 1023"

definition rnd_q :: "fmt \<Rightarrow> rat \<Rightarrow> rat" where
  "rnd_q F x = (if x = 0 then 0 else
     let u = 2 powi (max (ilog2 \<bar>x\<bar>) (fmt_emin F) - (fmt_prec F - 1))
     in of_int (rne (x / u)) * u)"

lemma rnd_q_0 [simp]: "rnd_q F 0 = 0"
  by (simp add: rnd_q_def)

lemma rnd_q_minus: "rnd_q F (- x) = - rnd_q F x"
  by (simp add: rnd_q_def Let_def rne_minus)

lemma powi_quot:
  assumes "v \<le> k"
  shows "2 powi k / 2 powi v = (of_int (2 ^ nat (k - v)) :: rat)"
proof -
  have "2 powi k / 2 powi v = (2 :: rat) powi (k - v)"
    by (simp add: power_int_diff)
  also have "\<dots> = 2 ^ nat (k - v)"
    unfolding power_int_def using assms by simp
  finally show ?thesis by simp
qed

lemma rnd_q_pow2_le:
  assumes "0 < x" "x \<le> 2 powi k" "max (ilog2 x) (fmt_emin F) - (fmt_prec F - 1) \<le> k"
  shows "rnd_q F x \<le> 2 powi k"
proof -
  define v where "v = max (ilog2 x) (fmt_emin F) - (fmt_prec F - 1)"
  have n: "2 powi k / 2 powi v = (of_int (2 ^ nat (k - v)) :: rat)"
    by (rule powi_quot) (use assms(3) in \<open>simp add: v_def\<close>)
  have "x / 2 powi v \<le> 2 powi k / 2 powi v"
    using assms(2) by (intro divide_right_mono) auto
  then have "rne (x / 2 powi v) \<le> 2 ^ nat (k - v)"
    unfolding n by (rule rne_le_int)
  then have "of_int (rne (x / 2 powi v)) \<le> 2 powi k / (2 powi v :: rat)"
    unfolding n of_int_le_iff .
  then have "of_int (rne (x / 2 powi v)) * 2 powi v \<le> (2 powi k :: rat)"
    by (simp add: field_simps)
  with assms(1) show ?thesis
    by (simp add: rnd_q_def Let_def v_def)
qed

lemma rnd_q_pow2_ge:
  assumes "2 powi k \<le> x" "max (ilog2 x) (fmt_emin F) - (fmt_prec F - 1) \<le> k"
  shows "2 powi k \<le> rnd_q F x"
proof -
  define v where "v = max (ilog2 x) (fmt_emin F) - (fmt_prec F - 1)"
  have pos: "0 < x"
    using assms(1) by (rule less_le_trans [rotated]) simp
  have n: "2 powi k / 2 powi v = (of_int (2 ^ nat (k - v)) :: rat)"
    by (rule powi_quot) (use assms(2) in \<open>simp add: v_def\<close>)
  have "2 powi k / 2 powi v \<le> x / 2 powi v"
    using assms(1) by (intro divide_right_mono) auto
  then have "2 ^ nat (k - v) \<le> rne (x / 2 powi v)"
    unfolding n by (rule rne_ge_int)
  then have "2 powi k / (2 powi v :: rat) \<le> of_int (rne (x / 2 powi v))"
    unfolding n of_int_le_iff .
  then have "(2 powi k :: rat) \<le> of_int (rne (x / 2 powi v)) * 2 powi v"
    by (simp add: field_simps)
  with pos show ?thesis
    by (simp add: rnd_q_def Let_def v_def)
qed

lemma fmt_prec_ge: "24 \<le> fmt_prec F"
  by (cases F) auto

lemma rnd_q_mono_pos:
  assumes "0 < x" "x \<le> y"
  shows "rnd_q F x \<le> rnd_q F y"
proof -
  define a b where "a = max (ilog2 x) (fmt_emin F)" and "b = max (ilog2 y) (fmt_emin F)"
  have pos: "0 < y" using assms by linarith
  have "ilog2 x \<le> ilog2 y" using assms by (rule ilog2_mono)
  then have ab: "a \<le> b" by (auto simp: a_def b_def)
  show ?thesis
  proof (cases "a = b")
    case True
    have "x / 2 powi (b - (fmt_prec F - 1)) \<le> y / 2 powi (b - (fmt_prec F - 1))"
      using assms by (intro divide_right_mono) auto
    then have "rne (x / 2 powi (b - (fmt_prec F - 1))) \<le> rne (y / 2 powi (b - (fmt_prec F - 1)))"
      by (rule rne_mono)
    then have "(of_int (rne (x / 2 powi (b - (fmt_prec F - 1)))) :: rat) \<le>
      of_int (rne (y / 2 powi (b - (fmt_prec F - 1))))"
      by (simp only: of_int_le_iff)
    then have "(of_int (rne (x / 2 powi (b - (fmt_prec F - 1)))) :: rat) * 2 powi (b - (fmt_prec F - 1))
      \<le> of_int (rne (y / 2 powi (b - (fmt_prec F - 1)))) * 2 powi (b - (fmt_prec F - 1))"
      by (rule mult_right_mono) simp
    with True assms pos show ?thesis
      by (simp add: rnd_q_def Let_def a_def b_def)
  next
    case False
    with ab have b: "a + 1 \<le> b" "b = ilog2 y" by (auto simp: a_def b_def)
    have "x < 2 powi (ilog2 x + 1)" by (rule ilog2_bounds) (rule assms)
    also have "\<dots> \<le> (2 :: rat) powi b"
      using b by (intro power_int_increasing) (auto simp: a_def)
    finally have "x \<le> 2 powi b" by simp
    with assms(1) have "rnd_q F x \<le> 2 powi b"
      by (rule rnd_q_pow2_le) (use b fmt_prec_ge [of F] in \<open>auto simp: a_def\<close>)
    also have "2 powi b \<le> rnd_q F y"
      by (rule rnd_q_pow2_ge) (use b fmt_prec_ge [of F] ilog2_bounds(1) [OF pos] in \<open>auto simp: b_def\<close>)
    finally show ?thesis .
  qed
qed

lemma rnd_q_nonneg: "0 \<le> x \<Longrightarrow> 0 \<le> rnd_q F x"
  by (auto simp: rnd_q_def Let_def intro!: mult_nonneg_nonneg rne_ge_int [of 0, simplified])

lemma rnd_q_mono:
  assumes "x \<le> y"
  shows "rnd_q F x \<le> rnd_q F y"
proof (cases "0 < x")
  case True
  then show ?thesis using assms by (rule rnd_q_mono_pos)
next
  case False
  show ?thesis
  proof (cases "0 \<le> y")
    case True
    have "0 \<le> rnd_q F (- x)" using False by (intro rnd_q_nonneg) simp
    with True show ?thesis
      using rnd_q_nonneg [of y F] by (simp add: rnd_q_minus)
  next
    case False
    then have "rnd_q F (- y) \<le> rnd_q F (- x)"
      using assms by (intro rnd_q_mono_pos) auto
    then show ?thesis by (simp add: rnd_q_minus)
  qed
qed

lemma rnd_q_int:
  assumes "\<bar>n\<bar> < 2 ^ nat (fmt_prec F)"
  shows "rnd_q F (of_int n) = of_int n"
proof (cases "n = 0")
  case False
  define e where "e = ilog2 \<bar>of_int n\<bar>"
  have "2 powi e \<le> \<bar>of_int n :: rat\<bar>"
    unfolding e_def using False by (intro ilog2_bounds) simp
  also have "\<dots> = of_int \<bar>n\<bar>" by simp
  also have "\<dots> < of_int (2 ^ nat (fmt_prec F))"
    using assms by (simp only: of_int_less_iff)
  also have "\<dots> = 2 powi (fmt_prec F)"
    using fmt_prec_ge [of F] by (simp add: power_int_def)
  finally have lt: "(2 :: rat) powi e < 2 powi (fmt_prec F)" .
  have "e < fmt_prec F"
  proof (rule ccontr)
    assume "\<not> e < fmt_prec F"
    then have "(2 :: rat) powi (fmt_prec F) \<le> 2 powi e"
      by (intro power_int_increasing) auto
    with lt show False by simp
  qed
  moreover have "fmt_emin F \<le> fmt_prec F - 1" by (cases F) auto
  ultimately have k: "max e (fmt_emin F) - (fmt_prec F - 1) \<le> 0" by simp
  define v where "v = max e (fmt_emin F) - (fmt_prec F - 1)"
  have "(2 :: rat) powi 0 / 2 powi v = of_int (2 ^ nat (0 - v))"
    by (rule powi_quot) (use k in \<open>simp add: v_def\<close>)
  then have w: "1 / (2 powi v :: rat) = of_int (2 ^ nat (- v))" by simp
  then have "of_int n / 2 powi v = (of_int (n * 2 ^ nat (- v)) :: rat)"
    by (metis divide_inverse inverse_eq_divide of_int_mult)
  then have "rne (of_int n / 2 powi v) = n * 2 ^ nat (- v)"
    by (simp only: rne_of_int)
  moreover have "of_int (2 ^ nat (- v)) * (2 powi v :: rat) = 1"
    by (simp only: w [symmetric]) simp
  ultimately show ?thesis
    using False by (simp add: rnd_q_def Let_def e_def [symmetric] v_def [symmetric] mult.assoc)
qed simp

text \<open>
  Rounding as an interface: what the numeric code relies on is that rounding is monotone and
  exact on the integers it counts with, so that bounds survive every operation.
\<close>

locale rounding =
  fixes r :: "rat \<Rightarrow> rat" and lim :: int
  assumes r_mono: "x \<le> y \<Longrightarrow> r x \<le> r y"
    and r_int: "\<bar>n\<bar> < lim \<Longrightarrow> r (of_int n) = of_int n"
begin

lemma r_le_int: "x \<le> of_int n \<Longrightarrow> \<bar>n\<bar> < lim \<Longrightarrow> r x \<le> of_int n"
  using r_mono [of x "of_int n"] r_int [of n] by simp

lemma r_ge_int: "of_int n \<le> x \<Longrightarrow> \<bar>n\<bar> < lim \<Longrightarrow> of_int n \<le> r x"
  using r_mono [of "of_int n" x] r_int [of n] by simp

lemma r_between:
  "of_int a \<le> x \<Longrightarrow> x \<le> of_int b \<Longrightarrow> \<bar>a\<bar> < lim \<Longrightarrow> \<bar>b\<bar> < lim \<Longrightarrow>
    of_int a \<le> r x \<and> r x \<le> of_int b"
  by (simp add: r_le_int r_ge_int)

end

interpretation b32: rounding "rnd_q F32" "2 ^ 24"
  by unfold_locales (use rnd_q_int [of _ F32] in \<open>simp_all add: rnd_q_mono\<close>)

interpretation b64: rounding "rnd_q F64" "2 ^ 53"
  by unfold_locales (use rnd_q_int [of _ F64] in \<open>simp_all add: rnd_q_mono\<close>)

subsection \<open>The values and operations of float and double\<close>

datatype cfloat = Fin rat | Inf bool | NaN

definition fp_round :: "fmt \<Rightarrow> rat \<Rightarrow> cfloat" where
  "fp_round F x = (let r = rnd_q F x in
     if r \<noteq> 0 \<and> fmt_emax F < ilog2 \<bar>r\<bar> then Inf (r < 0) else Fin r)"

definition fp_of_int :: "fmt \<Rightarrow> int \<Rightarrow> cfloat" where
  "fp_of_int F n = fp_round F (of_int n)"

text \<open>A decimal literal of the source is the nearest double.\<close>

definition lit :: "rat \<Rightarrow> cfloat" where
  "lit q = fp_round F64 q"

fun fp_conv :: "fmt \<Rightarrow> cfloat \<Rightarrow> cfloat" where
  "fp_conv F (Fin x) = fp_round F x"
| "fp_conv F v = v"

fun fp_neg :: "cfloat \<Rightarrow> cfloat" where
  "fp_neg (Fin x) = Fin (- x)"
| "fp_neg (Inf s) = Inf (\<not> s)"
| "fp_neg NaN = NaN"

fun fp_add :: "fmt \<Rightarrow> cfloat \<Rightarrow> cfloat \<Rightarrow> cfloat" where
  "fp_add F NaN _ = NaN"
| "fp_add F _ NaN = NaN"
| "fp_add F (Inf s) (Inf t) = (if s = t then Inf s else NaN)"
| "fp_add F (Inf s) (Fin _) = Inf s"
| "fp_add F (Fin _) (Inf t) = Inf t"
| "fp_add F (Fin x) (Fin y) = fp_round F (x + y)"

definition fp_sub :: "fmt \<Rightarrow> cfloat \<Rightarrow> cfloat \<Rightarrow> cfloat" where
  "fp_sub F a b = fp_add F a (fp_neg b)"

fun fp_mul :: "fmt \<Rightarrow> cfloat \<Rightarrow> cfloat \<Rightarrow> cfloat" where
  "fp_mul F NaN _ = NaN"
| "fp_mul F _ NaN = NaN"
| "fp_mul F (Inf s) (Inf t) = Inf (s \<noteq> t)"
| "fp_mul F (Inf s) (Fin y) = (if y = 0 then NaN else Inf (s \<noteq> (y < 0)))"
| "fp_mul F (Fin x) (Inf t) = (if x = 0 then NaN else Inf ((x < 0) \<noteq> t))"
| "fp_mul F (Fin x) (Fin y) = fp_round F (x * y)"

fun fp_div :: "fmt \<Rightarrow> cfloat \<Rightarrow> cfloat \<Rightarrow> cfloat" where
  "fp_div F NaN _ = NaN"
| "fp_div F _ NaN = NaN"
| "fp_div F (Inf s) (Inf t) = NaN"
| "fp_div F (Inf s) (Fin y) = Inf (s \<noteq> (y < 0))"
| "fp_div F (Fin x) (Inf t) = Fin 0"
| "fp_div F (Fin x) (Fin y) =
     (if y = 0 then (if x = 0 then NaN else Inf (x < 0)) else fp_round F (x / y))"

fun fp_lt :: "cfloat \<Rightarrow> cfloat \<Rightarrow> bool" where
  "fp_lt NaN _ = False"
| "fp_lt _ NaN = False"
| "fp_lt (Inf s) (Inf t) = (s \<and> \<not> t)"
| "fp_lt (Inf s) (Fin _) = s"
| "fp_lt (Fin _) (Inf t) = (\<not> t)"
| "fp_lt (Fin x) (Fin y) = (x < y)"

definition fp_eq :: "cfloat \<Rightarrow> cfloat \<Rightarrow> bool" where
  "fp_eq a b \<longleftrightarrow> a = b \<and> a \<noteq> NaN"

definition fp_le :: "cfloat \<Rightarrow> cfloat \<Rightarrow> bool" where
  "fp_le a b \<longleftrightarrow> fp_lt a b \<or> fp_eq a b"

text \<open>The conversions \<open>(int)d\<close>, \<open>(unsigned char)d\<close> and \<open>(char)d\<close> of the compiled code.\<close>

fun rat_trunc :: "rat \<Rightarrow> int" where
  "rat_trunc x = (if 0 \<le> x then \<lfloor>x\<rfloor> else - \<lfloor>- x\<rfloor>)"

fun fp_to_int :: "cfloat \<Rightarrow> int" where
  "fp_to_int (Fin x) = (let n = rat_trunc x in if int32 n then n else - (2 ^ 31))"
| "fp_to_int _ = - (2 ^ 31)"

definition fp_to_byte :: "cfloat \<Rightarrow> byte" where
  "fp_to_byte d = word_of_int (fp_to_int d)"

definition fp_to_schar :: "cfloat \<Rightarrow> int" where
  "fp_to_schar d = signed_take_bit 7 (fp_to_int d)"

lemma fp_round_small:
  assumes "\<bar>rnd_q F64 x\<bar> < 2 ^ 53"
  shows "fp_round F64 x = Fin (rnd_q F64 x)"
proof -
  have "\<not> (rnd_q F64 x \<noteq> 0 \<and> fmt_emax F64 < ilog2 \<bar>rnd_q F64 x\<bar>)"
  proof
    assume *: "rnd_q F64 x \<noteq> 0 \<and> fmt_emax F64 < ilog2 \<bar>rnd_q F64 x\<bar>"
    then have "(2 :: rat) powi 53 \<le> 2 powi (ilog2 \<bar>rnd_q F64 x\<bar>)"
      by (intro power_int_increasing) auto
    also have "\<dots> \<le> \<bar>rnd_q F64 x\<bar>"
      using * by (intro ilog2_bounds) auto
    finally show False using assms by (simp add: power_int_def)
  qed
  then show ?thesis
    unfolding fp_round_def Let_def by (rule if_not_P)
qed

lemma of_int_abs_less:
  assumes "\<bar>n\<bar> < 2 ^ 53"
  shows "\<bar>of_int n :: rat\<bar> < 2 ^ 53"
proof -
  have "(of_int \<bar>n\<bar> :: rat) < of_int (2 ^ 53)"
    using assms by (simp only: of_int_less_iff)
  then show ?thesis by simp
qed

lemma fp_of_int_Fin:
  assumes "\<bar>n\<bar> < 2 ^ 53"
  shows "fp_of_int F64 n = Fin (of_int n)"
  using assms of_int_abs_less [OF assms] b64.r_int [of n]
  by (simp add: fp_of_int_def fp_round_small)

lemma fp_round_int:
  assumes "x = of_int n" "\<bar>n\<bar> < 2 ^ 53"
  shows "fp_round F64 x = Fin (of_int n)"
  using fp_of_int_Fin [OF assms(2)] assms(1) by (simp add: fp_of_int_def)

lemma fp_to_int_of_int [simp]: "int32 n \<Longrightarrow> fp_to_int (Fin (of_int n)) = n"
  by (auto simp: int32_def simp flip: of_int_minus)

text \<open>Rounding a value between two integers the format holds stays between them.\<close>

lemma fp_round_between:
  assumes "of_int a \<le> x" "x \<le> of_int b" "\<bar>a\<bar> < 2 ^ 53" "\<bar>b\<bar> < 2 ^ 53"
  shows "\<exists>y. fp_round F64 x = Fin y \<and> of_int a \<le> y \<and> y \<le> of_int b \<and> y = rnd_q F64 x"
proof -
  have b: "of_int a \<le> rnd_q F64 x" "rnd_q F64 x \<le> of_int b"
    using b64.r_between [OF assms] by simp_all
  with of_int_abs_less [OF assms(3)] of_int_abs_less [OF assms(4)]
  have "\<bar>rnd_q F64 x\<bar> < 2 ^ 53" by linarith
  then show ?thesis
    using b by (simp add: fp_round_small)
qed

subsection \<open>The relative error of a rounding\<close>

lemma rnd_q_error:
  assumes "2 powi (-1022) \<le> x"
  shows "rnd_q F64 x \<le> x * (1 + 1 / 2 ^ 53)"
proof -
  have x: "0 < x" using assms by (rule less_le_trans [rotated]) simp
  have e: "-1022 \<le> ilog2 x"
  proof (rule ccontr)
    assume "\<not> -1022 \<le> ilog2 x"
    then have "(2 :: rat) powi (ilog2 x + 1) \<le> 2 powi (-1022)"
      by (intro power_int_increasing) auto
    with ilog2_bounds(2) [OF x] assms show False by linarith
  qed
  define v where "v = ilog2 x - 52"
  have "of_int (rne (x / 2 powi v)) \<le> x / 2 powi v + 1 / 2"
    using rne_bounds by blast
  then have "of_int (rne (x / 2 powi v)) * 2 powi v \<le> (x / 2 powi v + 1 / 2) * 2 powi v"
    by (rule mult_right_mono) simp
  also have "\<dots> = x + 2 powi v / 2"
    by (simp add: field_simps)
  also have "\<dots> \<le> x * (1 + 1 / 2 ^ 53)"
  proof -
    have "(2 :: rat) powi v = 2 powi (ilog2 x) / 2 ^ 52"
      unfolding v_def by (simp add: power_int_diff)
    then have "(2 :: rat) powi v / 2 \<le> x / 2 ^ 52 / 2"
      using ilog2_bounds(1) [OF x] by (simp add: divide_right_mono)
    then show ?thesis by (simp add: field_simps)
  qed
  finally have "of_int (rne (x / 2 powi v)) * 2 powi v \<le> x * (1 + 1 / 2 ^ 53)" .
  moreover have "rnd_q F64 x = of_int (rne (x / 2 powi v)) * 2 powi v"
    using x e by (simp add: rnd_q_def Let_def v_def)
  ultimately show ?thesis by simp
qed

text \<open>
  The quotient of two ints is far from underflow; and a rounded product with an index below the
  denominator stays below the numerator.
\<close>

lemma quotient_range:
  assumes "(1 :: rat) \<le> of_int w" "of_int w \<le> (2 ^ 31 :: rat)" "(1 :: rat) \<le> of_int W"
  shows "(1 :: rat) / 2 ^ 31 \<le> of_int W / of_int w" "(2 :: rat) powi (-1022) \<le> of_int W / of_int w"
    "(2 :: rat) powi (-1022) \<le> 1 / 2 ^ 31"
proof -
  have "(1 :: rat) / 2 ^ 31 \<le> 1 / of_int w"
    using assms by (intro divide_left_mono) auto
  also have "\<dots> \<le> of_int W / of_int w"
    using assms by (simp add: divide_right_mono)
  finally have "(1 :: rat) / 2 ^ 31 \<le> of_int W / of_int w" .
  moreover have "(2 :: rat) powi (-1022) \<le> 2 powi (-31)"
    by (intro power_int_increasing) auto
  moreover have "(2 :: rat) powi (-31) = 1 / 2 ^ 31"
    by (simp add: power_int_def power_one_over)
  ultimately show "(1 :: rat) / 2 ^ 31 \<le> of_int W / of_int w" "(2 :: rat) powi (-1022) \<le> of_int W / of_int w"
    "(2 :: rat) powi (-1022) \<le> 1 / 2 ^ 31"
    by linarith+
qed

lemma product_below:
  fixes w q W i y :: rat
  assumes "1 \<le> w" "w \<le> 2 ^ 31" "1 \<le> W" "w * q = W" "0 < q" "2 powi (-1022) \<le> (1 / 2 ^ 31 :: rat)"
    and "0 \<le> i" "i \<le> w - 1" "0 \<le> y" "y \<le> q * (1 + 1 / 2 ^ 53)"
  shows "rnd_q F64 (i * y) < W"
proof -
  let ?e = "1 + 1 / 2 ^ 53 :: rat"
  have "(w - 1) * (?e * ?e) < w"
    using assms(1,2) by (simp add: field_simps)
  then have "(w - 1) * (?e * ?e) * q < w * q"
    using assms(5) by (rule mult_strict_right_mono)
  then have lim: "(w - 1) * (?e * ?e) * q < W" by (simp only: assms(4))
  have iy: "i * y \<le> (w - 1) * (q * ?e)"
    by (rule mult_mono [OF assms(8,10)]) (use assms in auto)
  show ?thesis
  proof (cases "2 powi (-1022) \<le> i * y")
    case True
    then have "rnd_q F64 (i * y) \<le> i * y * ?e"
      by (rule rnd_q_error)
    also have "\<dots> \<le> (w - 1) * (q * ?e) * ?e"
      using iy by (rule mult_right_mono) simp
    also have "\<dots> = (w - 1) * (?e * ?e) * q"
      by (simp only: mult.assoc mult.commute mult.left_commute)
    finally show ?thesis using lim by simp
  next
    case False
    then have "i * y \<le> 1 / 2 ^ 31" using assms(6) by linarith
    then have "rnd_q F64 (i * y) \<le> rnd_q F64 (1 / 2 ^ 31)" by (rule rnd_q_mono)
    also have "rnd_q F64 (1 / 2 ^ 31) \<le> 1 / 2 ^ 31 * ?e"
      using assms(6) by (intro rnd_q_error) simp
    also have "\<dots> < 1" by simp
    finally show ?thesis using assms(3) by linarith
  qed
qed

text \<open>
  The index arithmetic of the scaling loops: for \<open>i < w\<close>, the double computation of
  \<open>(int)(i * ((double)W / w))\<close> stays below \<open>W\<close>, whatever the roundings do.
\<close>

lemma scaled_index:
  assumes w: "0 < w" "w < 2 ^ 31" and W: "0 < W" "W < 2 ^ 31" and i: "0 \<le> i" "i < w"
  defines "k \<equiv> fp_to_int (fp_mul F64 (fp_of_int F64 i)
                 (fp_div F64 (fp_of_int F64 W) (fp_of_int F64 w)))"
  shows "0 \<le> k" "k < W"
proof -
  let ?e = "1 + 1 / 2 ^ 53 :: rat"
  define q :: rat where "q = of_int W / of_int w"
  define y where "y = rnd_q F64 q"
  have w': "(1 :: rat) \<le> of_int w" "of_int w \<le> (2 ^ 31 :: rat)"
    using w of_int_le_iff [of 1 w, where 'a = rat] of_int_le_iff [of w "2 ^ 31", where 'a = rat]
    by simp_all
  have W': "(1 :: rat) \<le> of_int W"
    using W of_int_le_iff [of 1 W, where 'a = rat] by simp
  have i': "(0 :: rat) \<le> of_int i" "of_int i \<le> (of_int w - 1 :: rat)"
    using i of_int_le_iff [of i "w - 1", where 'a = rat] by simp_all
  have q0: "0 < q" using w' W' by (simp add: q_def)
  have qW: "q \<le> of_int W" using w' W' by (simp add: q_def divide_le_eq mult_le_cancel_left1)
  have r1: "fp_round F64 q = Fin y" "0 \<le> y"
    using fp_round_between [of 0 q W] q0 qW W by (auto simp: y_def)
  note q1 = quotient_range [OF w' W', folded q_def]
  have yq: "y \<le> q * ?e"
    unfolding y_def using q1(2) by (rule rnd_q_error)
  have fi: "fp_of_int F64 i = Fin (of_int i)" "fp_of_int F64 W = Fin (of_int W)"
    "fp_of_int F64 w = Fin (of_int w)"
    using assms by (auto intro!: fp_of_int_Fin)
  have dv: "fp_div F64 (fp_of_int F64 W) (fp_of_int F64 w) = Fin y"
    using w' r1(1) by (simp add: fi q_def)
  have wq: "of_int w * q = of_int W" using w' by (simp add: q_def)
  have "rnd_q F64 (of_int i * y) < of_int W" by (rule product_below [OF w' W' wq q0 q1(3) i' r1(2) yq])
  moreover have "0 \<le> rnd_q F64 (of_int i * y)"
    using mult_nonneg_nonneg [OF i'(1) r1(2)] by (rule rnd_q_nonneg)
  moreover have "\<bar>rnd_q F64 (of_int i * y)\<bar> < 2 ^ 53"
  proof -
    have "(of_int W :: rat) < of_int (2 ^ 31)" using W by (simp only: of_int_less_iff)
    with calculation show ?thesis by simp
  qed
  ultimately obtain z where z: "fp_round F64 (of_int i * y) = Fin z" "0 \<le> z" "z < of_int W"
    using fp_round_small by blast
  then have "k = (if int32 \<lfloor>z\<rfloor> then \<lfloor>z\<rfloor> else - (2 ^ 31))"
    unfolding k_def dv by (simp add: fi(1))
  moreover have "0 \<le> \<lfloor>z\<rfloor>" "\<lfloor>z\<rfloor> < W"
    using z by (simp_all add: floor_less_iff)
  moreover from this have "int32 \<lfloor>z\<rfloor>"
    using W unfolding int32_def by linarith
  ultimately show "0 \<le> k" "k < W" by simp_all
qed

end
