(* ===== verification/MathClass.thy ===== *)
theory MathClass
  imports CDouble
begin

text \<open>
  \<open>base/MathClass\<close>: the clamp \<open>Math::limit\<close>, the angle conversions and the vector
  measures. The trigonometric functions of the C library are parameters where they are used.
\<close>

text \<open>\<open>Math::limit\<close>: the upper bound is tested first.\<close>

definition limit :: "int \<Rightarrow> int \<Rightarrow> int \<Rightarrow> int" where
  "limit num min' max' = (if num > max' then max' else if num < min' then min' else num)"

lemma limit_in: "a \<le> b \<Longrightarrow> a \<le> limit n a b \<and> limit n a b \<le> b"
  by (auto simp: limit_def)

lemma limit_id: "a \<le> n \<Longrightarrow> n \<le> b \<Longrightarrow> limit n a b = n"
  by (simp add: limit_def)

lemma limit_byte [simp]: "0 \<le> limit n 0 255" "limit n 0 255 < 256" "limit n 0 255 \<le> 255"
  by (auto simp: limit_def)

lemma limit_eq_max_min: "a \<le> b \<Longrightarrow> limit n a b = max a (min b n)"
  by (auto simp: limit_def)

lemma limit_mono: "m \<le> n \<Longrightarrow> a \<le> b \<Longrightarrow> limit m a b \<le> limit n a b"
  by (auto simp: limit_def)

definition Pi :: cfloat where
  "Pi = lit (314159265358979323846264338327950288 / 100000000000000000000000000000000000)"

text \<open>\<open>Math::Angle\<close> and \<open>Math::Radian\<close>.\<close>

definition Angle :: "cfloat \<Rightarrow> cfloat" where
  "Angle radian = fp_div F64 radian (fp_div F64 Pi (fp_of_int F64 180))"

definition Radian :: "cfloat \<Rightarrow> cfloat" where
  "Radian angle = fp_mul F64 angle (fp_div F64 Pi (fp_of_int F64 180))"

text \<open>
  The trigonometric wrappers: the function of the C library they call (\<open>sin\<close>, \<open>cos\<close>, \<open>tan\<close>
  and \<open>asin\<close>, \<open>acos\<close>, \<open>atan\<close>) is a parameter.
\<close>

definition Sin :: "(cfloat \<Rightarrow> cfloat) \<Rightarrow> cfloat \<Rightarrow> cfloat" where
  "Sin sin' angle = sin' (Radian angle)"

definition Cos :: "(cfloat \<Rightarrow> cfloat) \<Rightarrow> cfloat \<Rightarrow> cfloat" where
  "Cos cos' angle = cos' (Radian angle)"

definition Tan :: "(cfloat \<Rightarrow> cfloat) \<Rightarrow> cfloat \<Rightarrow> cfloat" where
  "Tan tan' angle = tan' (Radian angle)"

definition aSin :: "(cfloat \<Rightarrow> cfloat) \<Rightarrow> cfloat \<Rightarrow> cfloat" where
  "aSin asin' num = Angle (asin' num)"

definition aCos :: "(cfloat \<Rightarrow> cfloat) \<Rightarrow> cfloat \<Rightarrow> cfloat" where
  "aCos acos' num = Angle (acos' num)"

definition aTan :: "(cfloat \<Rightarrow> cfloat) \<Rightarrow> cfloat \<Rightarrow> cfloat" where
  "aTan atan' num = Angle (atan' num)"

subsection \<open>Square roots\<close>

text \<open>
  The square root of the C library, correctly rounded: \<open>isqrt\<close> is the integer square root by
  halving the digits in base 4; \<open>fp_sqrt\<close> scales its argument so that the root has the
  precision of a double, and rounds to the nearer of the two neighbours (a tie cannot occur
  for a double).
\<close>

function isqrt :: "int \<Rightarrow> int" where
  "isqrt n = (if n \<le> 0 then 0
     else let r = 2 * isqrt (n div 4) in if (r + 1) * (r + 1) \<le> n then r + 1 else r)"
  by pat_completeness auto

termination
  by (relation "measure nat") auto

declare isqrt.simps [simp del]

lemma isqrt_bounds:
  "0 \<le> n \<Longrightarrow> 0 \<le> isqrt n \<and> isqrt n * isqrt n \<le> n \<and> n < (isqrt n + 1) * (isqrt n + 1)"
proof (induction n rule: isqrt.induct)
  case (1 n)
  show ?case
  proof (cases "n \<le> 0")
    case True
    with 1 show ?thesis by (simp add: isqrt.simps)
  next
    case False
    let ?q = "isqrt (n div 4)"
    have ih: "0 \<le> ?q" "?q * ?q \<le> n div 4" "n div 4 < (?q + 1) * (?q + 1)"
      using "1.IH" [OF False] False by auto
    then have "4 * (?q * ?q) \<le> n" "n < 4 * ((?q + 1) * (?q + 1))" by linarith+
    then have "(2 * ?q) * (2 * ?q) \<le> n" "n < (2 * ?q + 2) * (2 * ?q + 2)"
      by (simp_all add: algebra_simps)
    moreover have "isqrt n = (if (2 * ?q + 1) * (2 * ?q + 1) \<le> n then 2 * ?q + 1 else 2 * ?q)"
      using False by (simp only: isqrt.simps [of n] Let_def if_False)
    ultimately show ?thesis
      using ih(1) by (auto simp: ac_simps)
  qed
qed

lemma isqrt_square: "0 \<le> n \<Longrightarrow> isqrt (n * n) = n"
proof -
  assume n: "0 \<le> n"
  let ?r = "isqrt (n * n)"
  have b: "0 \<le> ?r" "?r * ?r \<le> n * n" "n * n < (?r + 1) * (?r + 1)"
    using isqrt_bounds [of "n * n"] by simp_all
  have "\<not> n < ?r"
    using b(1,2) n mult_strict_mono' [of n ?r n ?r] by fastforce
  moreover have "\<not> ?r + 1 \<le> n"
    using b(1,3) n mult_mono [of "?r + 1" n "?r + 1" n] by fastforce
  ultimately show ?thesis by simp
qed

fun fp_sqrt :: "cfloat \<Rightarrow> cfloat" where
  "fp_sqrt (Fin x) =
     (if x = 0 then Fin 0 else if x < 0 then NaN
      else let e = ilog2 x div 2 - 52; y = x / 4 powi e; n = isqrt \<lfloor>y\<rfloor>
           in Fin (of_int (if (of_int n + 1 / 2) * (of_int n + 1 / 2) < y then n + 1 else n) * 2 powi e))"
| "fp_sqrt (Inf s) = (if s then NaN else Inf False)"
| "fp_sqrt NaN = NaN"

text \<open>\<open>pow(x, 2)\<close> of the C library.\<close>

definition fp_sq :: "cfloat \<Rightarrow> cfloat" where
  "fp_sq x = fp_mul F64 x x"

subsection \<open>Measures of vectors\<close>

text \<open>
  \<open>Math::cosSimilarity\<close> and \<open>Math::eucDistance\<close> at \<open>T = double\<close>: both stop at the end of
  the shorter vector.
\<close>

definition cos_sums :: "cfloat list \<Rightarrow> cfloat list \<Rightarrow> cfloat \<times> cfloat \<times> cfloat" where
  "cos_sums v1 v2 =
     foldl (\<lambda>(p1, p2, p12) (a, b).
       (fp_add F64 p1 (fp_sq a), fp_add F64 p2 (fp_sq b), fp_add F64 p12 (fp_mul F64 a b)))
       (Fin 0, Fin 0, Fin 0) (zip v1 v2)"

definition cosSimilarity :: "cfloat list \<Rightarrow> cfloat list \<Rightarrow> cfloat" where
  "cosSimilarity v1 v2 = (case cos_sums v1 v2 of (p1, p2, p12) \<Rightarrow>
     fp_div F64 p12 (fp_mul F64 (fp_sqrt p1) (fp_sqrt p2)))"

definition eucDistance :: "cfloat list \<Rightarrow> cfloat list \<Rightarrow> cfloat" where
  "eucDistance v1 v2 =
     fp_sqrt (foldl (\<lambda>r (a, b). fp_add F64 r (fp_sq (fp_sub F64 a b))) (Fin 0) (zip v1 v2))"

end
