(* ===== verification/Pixel.thy ===== *)
theory Pixel
  imports MathClass
begin

text \<open>
  \<open>image_util/PixelClass\<close>: a pixel of three unsigned bytes, a label and the \<open>empty\<close> flag
  that tells a pixel never written from a black one. Every setter clears the flag. The
  arithmetic saturates per channel through \<open>Math::limit\<close> and changes the receiver, which
  is also the result.
\<close>

record pixel =
  red :: byte
  green :: byte
  blue :: byte
  plabel :: int
  pempty :: bool

definition initialize :: pixel where
  "initialize = \<lparr>red = 0, green = 0, blue = 0, plabel = 0, pempty = True\<rparr>"

definition setRed :: "byte \<Rightarrow> pixel \<Rightarrow> pixel" where
  "setRed b p = p\<lparr>pempty := False, red := b\<rparr>"

definition setGreen :: "byte \<Rightarrow> pixel \<Rightarrow> pixel" where
  "setGreen b p = p\<lparr>pempty := False, green := b\<rparr>"

definition setBlue :: "byte \<Rightarrow> pixel \<Rightarrow> pixel" where
  "setBlue b p = p\<lparr>pempty := False, blue := b\<rparr>"

definition setLightness :: "byte \<Rightarrow> pixel \<Rightarrow> pixel" where
  "setLightness l p = setBlue l (setGreen l (setRed l (p\<lparr>pempty := False\<rparr>)))"

definition setLabel :: "int \<Rightarrow> pixel \<Rightarrow> pixel" where
  "setLabel l p = p\<lparr>pempty := False, plabel := l\<rparr>"

definition setRGB :: "byte \<Rightarrow> byte \<Rightarrow> byte \<Rightarrow> pixel \<Rightarrow> pixel" where
  "setRGB r g b p = setBlue b (setGreen g (setRed r p))"

definition Lightness :: "pixel \<Rightarrow> byte" where
  "Lightness p = word_of_int ((uint (red p) + uint (green p) + uint (blue p)) div 3)"

text \<open>The constructors \<open>Pixel()\<close>, \<open>Pixel(lightness)\<close> and \<open>Pixel(red, green, blue)\<close>.\<close>

abbreviation Pixel0 :: pixel where
  "Pixel0 \<equiv> initialize"

definition PixelL :: "byte \<Rightarrow> pixel" where
  "PixelL l = setLightness l initialize"

definition PixelRGB :: "byte \<Rightarrow> byte \<Rightarrow> byte \<Rightarrow> pixel" where
  "PixelRGB r g b = setBlue b (setGreen g (setRed r initialize))"

text \<open>An \<open>int\<close> argument of \<open>Pixel(unsigned char)\<close> is reduced modulo 256.\<close>

definition PixelI :: "int \<Rightarrow> pixel" where
  "PixelI n = PixelL (word_of_int n)"

definition byte_limit :: "int \<Rightarrow> byte" where
  "byte_limit n = word_of_int (limit n 0 255)"

definition pix_map2 :: "(int \<Rightarrow> int \<Rightarrow> int) \<Rightarrow> pixel \<Rightarrow> pixel \<Rightarrow> pixel" where
  "pix_map2 f p q =
     setBlue (byte_limit (f (uint (blue p)) (uint (blue q))))
       (setGreen (byte_limit (f (uint (green p)) (uint (green q))))
         (setRed (byte_limit (f (uint (red p)) (uint (red q)))) p))"

text \<open>\<open>operator+\<close>, \<open>operator-\<close>, \<open>operator*\<close> on two pixels.\<close>

definition pix_add :: "pixel \<Rightarrow> pixel \<Rightarrow> pixel" where
  "pix_add p q = pix_map2 (\<lambda>a b. a + b) p q"

definition pix_sub :: "pixel \<Rightarrow> pixel \<Rightarrow> pixel" where
  "pix_sub p q = pix_map2 (\<lambda>a b. a - b) p q"

definition pix_mul :: "pixel \<Rightarrow> pixel \<Rightarrow> pixel" where
  "pix_mul p q = pix_map2 (\<lambda>a b. a * b) p q"

text \<open>\<open>operator/\<close> divides the channels one after the other and traps on a zero channel.\<close>

definition pix_div :: "pixel \<Rightarrow> pixel \<Rightarrow> pixel res" where
  "pix_div p q =
     rbind (cdiv (uint (red p)) (uint (red q))) (\<lambda>r.
     rbind (cdiv (uint (green p)) (uint (green q))) (\<lambda>g.
     rbind (cdiv (uint (blue p)) (uint (blue q))) (\<lambda>b.
       Inr (setBlue (byte_limit b) (setGreen (byte_limit g) (setRed (byte_limit r) p))))))"

text \<open>The operators with an \<open>int\<close> on the right.\<close>

definition pix_addi :: "pixel \<Rightarrow> int \<Rightarrow> pixel" where
  "pix_addi p v =
     setBlue (byte_limit (s32 (uint (blue p) + v)))
       (setGreen (byte_limit (s32 (uint (green p) + v)))
         (setRed (byte_limit (s32 (uint (red p) + v))) p))"

definition pix_subi :: "pixel \<Rightarrow> int \<Rightarrow> pixel" where
  "pix_subi p v =
     setBlue (byte_limit (s32 (uint (blue p) - v)))
       (setGreen (byte_limit (s32 (uint (green p) - v)))
         (setRed (byte_limit (s32 (uint (red p) - v))) p))"

definition pix_muli :: "pixel \<Rightarrow> int \<Rightarrow> pixel" where
  "pix_muli p v =
     setBlue (byte_limit (s32 (uint (blue p) * v)))
       (setGreen (byte_limit (s32 (uint (green p) * v)))
         (setRed (byte_limit (s32 (uint (red p) * v))) p))"

definition pix_divi :: "pixel \<Rightarrow> int \<Rightarrow> pixel res" where
  "pix_divi p v =
     rbind (cdiv (uint (red p)) v) (\<lambda>r.
     rbind (cdiv (uint (green p)) v) (\<lambda>g.
     rbind (cdiv (uint (blue p)) v) (\<lambda>b.
       Inr (setBlue (byte_limit b) (setGreen (byte_limit g) (setRed (byte_limit r) p))))))"

text \<open>\<open>operator==\<close>: the flags and the three channels, not the label.\<close>

definition pix_eq :: "pixel \<Rightarrow> pixel \<Rightarrow> bool" where
  "pix_eq p q \<longleftrightarrow> pempty p = pempty q \<and>
     (red p = red q \<and> green p = green q \<and> blue p = blue q)"

definition pix_neq :: "pixel \<Rightarrow> pixel \<Rightarrow> bool" where
  "pix_neq p q \<longleftrightarrow> \<not> pix_eq p q"

named_theorems pixel_simps "unfolding the setters and constructors of pixels"

lemmas pixel_setters [pixel_simps] =
  setRed_def setGreen_def setBlue_def setLightness_def setLabel_def setRGB_def

lemmas pixel_ctors [pixel_simps] = initialize_def PixelL_def PixelRGB_def PixelI_def

subsection \<open>Channels of the results\<close>

lemma uint_byte_limit [simp]: "uint (byte_limit n) = limit n 0 255"
  by (simp add: byte_limit_def)

lemma pix_map2_channels:
  "uint (red (pix_map2 f p q)) = limit (f (uint (red p)) (uint (red q))) 0 255"
  "uint (green (pix_map2 f p q)) = limit (f (uint (green p)) (uint (green q))) 0 255"
  "uint (blue (pix_map2 f p q)) = limit (f (uint (blue p)) (uint (blue q))) 0 255"
  "plabel (pix_map2 f p q) = plabel p" "\<not> pempty (pix_map2 f p q)"
  by (simp_all add: pix_map2_def pixel_simps)

lemma PixelL_sel [simp]:
  "red (PixelL l) = l" "green (PixelL l) = l" "blue (PixelL l) = l" "plabel (PixelL l) = 0"
  "\<not> pempty (PixelL l)"
  by (simp_all add: pixel_simps)

lemma PixelRGB_sel [simp]:
  "red (PixelRGB r g b) = r" "green (PixelRGB r g b) = g" "blue (PixelRGB r g b) = b"
  "plabel (PixelRGB r g b) = 0" "\<not> pempty (PixelRGB r g b)"
  by (simp_all add: pixel_simps)

lemma pix_eq_refl [simp]: "pix_eq p p"
  by (simp add: pix_eq_def)

lemma pix_eq_sym: "pix_eq p q = pix_eq q p"
  by (auto simp: pix_eq_def)

lemma pix_eq_Pixel0: "pix_eq Pixel0 (PixelL l) = False"
  by (simp add: pix_eq_def pixel_simps)

lemma uint_Lightness:
  "uint (Lightness p) = (uint (red p) + uint (green p) + uint (blue p)) div 3"
proof -
  have "uint (red p) + uint (green p) + uint (blue p) \<le> 255 + 255 + 255"
    by (intro add_mono uint_byte_le)
  then show ?thesis
    unfolding Lightness_def
    by (intro uint_byte_of_int) (simp_all add: pos_imp_zdiv_nonneg_iff)
qed

lemma Lightness_PixelL [simp]: "Lightness (PixelL l) = l"
proof -
  have "uint (Lightness (PixelL l)) = uint l"
    by (simp add: uint_Lightness)
  then show ?thesis by (simp only: word_uint_eq_iff)
qed

lemma Lightness_Pixel0 [simp]: "Lightness Pixel0 = 0"
  by (simp add: Lightness_def initialize_def)

text \<open>White and black by lightness are white and black by channel.\<close>

lemma Lightness_eq_255:
  "Lightness p = 255 \<longleftrightarrow> red p = 255 \<and> green p = 255 \<and> blue p = 255"
proof -
  have "Lightness p = 255 \<longleftrightarrow> (uint (red p) + uint (green p) + uint (blue p)) div 3 = 255"
    by (simp add: word_uint_eq_iff uint_Lightness)
  also have "\<dots> \<longleftrightarrow> uint (red p) = 255 \<and> uint (green p) = 255 \<and> uint (blue p) = 255"
    using uint_byte_le [of "red p"] uint_byte_le [of "green p"] uint_byte_le [of "blue p"]
    by linarith
  finally show ?thesis by (simp add: word_uint_eq_iff)
qed

end
