(* ===== verification/BiImage.thy ===== *)
theory BiImage
  imports Pixel
begin

text \<open>
  \<open>image_util/biImageClass\<close>: an image is a buffer of pixels in raster order, its width and
  height and the transparent colour. A null buffer is the empty list: no cell of either may
  be read. The destructor's \<open>flag\<close> and the sharing of buffers by the copy constructor are
  not part of this value model; \<open>ImageStore\<close> has them.
\<close>

record bi_image =
  mimage :: "pixel list"
  clearColor :: pixel
  width :: int
  height :: int

definition init :: bi_image where
  "init = \<lparr>mimage = [], clearColor = Pixel0, width = 0, height = 0\<rparr>"

definition Create :: "int \<Rightarrow> int \<Rightarrow> bi_image res" where
  "Create w h = (let n = s32 (w * h) in
     if n < 0 then Inl BadAlloc
     else Inr (init\<lparr>width := w, height := h, mimage := replicate (nat n) Pixel0\<rparr>))"

text \<open>\<open>Delete\<close> frees the buffer and initialises the object.\<close>

definition Delete :: "bi_image \<Rightarrow> bi_image" where
  "Delete img = init"

definition setClear :: "pixel \<Rightarrow> bi_image \<Rightarrow> bi_image" where
  "setClear c img = img\<lparr>clearColor := c\<rparr>"

text \<open>
  The coordinate arithmetic of \<open>Put\<close> and \<open>Get\<close>: a negative coordinate is moved up once
  by the extent, then the remainder is taken with C's truncating \<open>%\<close>.
\<close>

definition coord :: "int \<Rightarrow> int \<Rightarrow> int res" where
  "coord x n = cmod (if x < 0 then n + x else x) n"

definition cell_index :: "bi_image \<Rightarrow> int \<Rightarrow> int \<Rightarrow> int res" where
  "cell_index img x y =
     rbind (coord x (width img)) (\<lambda>x'.
     rbind (coord y (height img)) (\<lambda>y'. Inr (x' + y' * width img)))"

definition Put :: "int \<Rightarrow> int \<Rightarrow> pixel \<Rightarrow> bi_image \<Rightarrow> bi_image res" where
  "Put x y p img =
     rbind (cell_index img x y) (\<lambda>n.
     rbind (wrbuf (mimage img) n p) (\<lambda>m. Inr (img\<lparr>mimage := m\<rparr>)))"

definition Get :: "bi_image \<Rightarrow> int \<Rightarrow> int \<Rightarrow> pixel res" where
  "Get img x y =
     rbind (cell_index img x y) (\<lambda>n.
     rbind (rdbuf (mimage img) n) (\<lambda>p.
       Inr (if pix_eq (clearColor img) p then Pixel0 else p)))"

definition for_each :: "bi_image \<Rightarrow> (int \<Rightarrow> int \<Rightarrow> 's \<Rightarrow> 's res) \<Rightarrow> 's \<Rightarrow> 's res" where
  "for_each img func = foldM (\<lambda>(i, j). func i j) (raster (width img) (height img))"

definition around_each ::
  "int \<Rightarrow> int \<Rightarrow> int \<Rightarrow> (int \<Rightarrow> int \<Rightarrow> 's \<Rightarrow> 's res) \<Rightarrow> 's \<Rightarrow> 's res" where
  "around_each px py around func =
     foldM (\<lambda>(i, j). func i j)
       (concat (map (\<lambda>j. map (\<lambda>i. (i, j)) [px - around..px + around])
          [py - around..py + around]))"

text \<open>\<open>operator=(const biImage&)\<close>: a buffer that is large enough both ways is kept.\<close>

definition assign :: "bi_image \<Rightarrow> bi_image \<Rightarrow> bi_image res" where
  "assign this im =
     rbind (if width this < width im \<or> height this < height im \<or> mimage this = []
            then Create (width im) (height im)
            else Inr (this\<lparr>width := width im, height := height im\<rparr>)) (\<lambda>t.
     let t = t\<lparr>clearColor := clearColor im\<rparr> in
     for_each t (\<lambda>i j t.
       rbind (rdbuf (mimage im) (i + j * width im)) (\<lambda>p.
       rbind (wrbuf (mimage t) (i + j * width t) p) (\<lambda>m. Inr (t\<lparr>mimage := m\<rparr>)))) t)"

definition assign_pixel :: "pixel \<Rightarrow> bi_image \<Rightarrow> bi_image res" where
  "assign_pixel p this = for_each this (\<lambda>i j. Put i j p) this"

text \<open>\<open>Paste\<close>: empty pixels and the columns the mix rate leaves out are skipped.\<close>

definition mix_step :: "int \<Rightarrow> int" where
  "mix_step mix_rate =
     fp_to_int (fp_div F64 (lit 1) (fp_div F64 (fp_of_int F64 mix_rate) (lit 100)))"

definition Paste :: "int \<Rightarrow> int \<Rightarrow> bi_image \<Rightarrow> int \<Rightarrow> bi_image \<Rightarrow> bi_image res" where
  "Paste x y im mix_rate this =
     for_each im (\<lambda>i j t.
       rbind (Get im i j) (\<lambda>p.
         if pix_eq p Pixel0 then Inr t
         else rbind (cmod i (mix_step mix_rate)) (\<lambda>m.
           if m \<noteq> 0 then Inr t else Put (x + i) (y + j) p t))) this"

definition Cut :: "bi_image \<Rightarrow> int \<Rightarrow> int \<Rightarrow> int \<Rightarrow> int \<Rightarrow> bi_image res" where
  "Cut this x y w h =
     rbind (Create w h) (\<lambda>ret.
       for_each ret (\<lambda>i j t. rbind (Get this (x + i) (y + j)) (\<lambda>p. Put i j p t)) ret)"

text \<open>\<open>Size\<close>: nearest-neighbour scaling by two double rates; a negative size mirrors.\<close>

definition rate :: "int \<Rightarrow> int \<Rightarrow> cfloat" where
  "rate old new = fp_div F64 (fp_of_int F64 old) (fp_of_int F64 new)"

definition scaled :: "int \<Rightarrow> cfloat \<Rightarrow> int" where
  "scaled i r = fp_to_int (fp_mul F64 (fp_of_int F64 i) r)"

definition Size :: "int \<Rightarrow> int \<Rightarrow> bi_image \<Rightarrow> bi_image res" where
  "Size w h this =
     (let wRate = rate (width this) w; hRate = rate (height this) h in
     rbind (Create \<bar>w\<bar> \<bar>h\<bar>) (\<lambda>im.
     rbind (for_each im (\<lambda>i j t.
       rbind (Get this (scaled i wRate) (scaled j hRate)) (\<lambda>p. Put i j p t)) im) (\<lambda>im.
     assign this (setClear (clearColor this) im))))"

definition setWidth :: "int \<Rightarrow> bi_image \<Rightarrow> bi_image res" where
  "setWidth w this = Size w (height this) this"

definition setHeight :: "int \<Rightarrow> bi_image \<Rightarrow> bi_image res" where
  "setHeight h this = Size (width this) h this"

text \<open>\<open>Rotate\<close>: the library's cosine and sine are parameters.\<close>

definition Rotate ::
  "(cfloat \<Rightarrow> cfloat) \<Rightarrow> (cfloat \<Rightarrow> cfloat) \<Rightarrow> int \<Rightarrow> bi_image \<Rightarrow> bi_image res" where
  "Rotate cos' sin' angle this =
     (let rad = fp_mul F64 (fp_of_int F64 angle)
                  (fp_div F64 (lit (314159265358979323846 / 100000000000000000000)) (lit 180));
          w = width this; h = height this; w2 = w sdiv 2; h2 = h sdiv 2;
          d = fp_of_int F64 in
     rbind (Create w h) (\<lambda>im.
     rbind (assign_pixel (clearColor this) im) (\<lambda>im.
     foldM (\<lambda>(i, j) t.
       let rx = fp_to_int (fp_sub F64 (fp_add F64 (d w2) (fp_mul F64 (d i) (cos' rad)))
                             (fp_mul F64 (d j) (sin' rad)));
           ry = fp_to_int (fp_add F64 (fp_add F64 (d h2) (fp_mul F64 (d i) (sin' rad)))
                             (fp_mul F64 (d j) (cos' rad)))
       in if rx < 0 \<or> w \<le> rx \<or> ry < 0 \<or> h \<le> ry then Inr t
          else rbind (Get this rx ry) (\<lambda>p. Put (i + w2) (j + h2) p t))
       (concat (map (\<lambda>j. map (\<lambda>i. (i, j)) [(- w) sdiv 2..w2]) [(- h) sdiv 2..h2]))
       (setClear (clearColor this) im))))"

text \<open>
  The compound operators with an image: both loops run over the receiver, whatever the size
  of the other image (the smaller extents are computed and not used).
\<close>

definition op_cell ::
  "(pixel \<Rightarrow> pixel \<Rightarrow> pixel res) \<Rightarrow> bi_image \<Rightarrow> int \<Rightarrow> int \<Rightarrow> bi_image \<Rightarrow> bi_image res" where
  "op_cell f im i j t =
     rbind (rdbuf (mimage t) (i + j * width t)) (\<lambda>p.
     rbind (rdbuf (mimage im) (i + j * width im)) (\<lambda>q.
     rbind (f p q) (\<lambda>r.
     rbind (wrbuf (mimage t) (i + j * width t) r) (\<lambda>m. Inr (t\<lparr>mimage := m\<rparr>)))))"

definition op_image ::
  "(pixel \<Rightarrow> pixel \<Rightarrow> pixel res) \<Rightarrow> bi_image \<Rightarrow> bi_image \<Rightarrow> bi_image res" where
  "op_image f im this = for_each this (op_cell f im) this"

definition add_assign :: "bi_image \<Rightarrow> bi_image \<Rightarrow> bi_image res" where
  "add_assign = op_image (\<lambda>p q. Inr (pix_add p q))"

definition sub_assign :: "bi_image \<Rightarrow> bi_image \<Rightarrow> bi_image res" where
  "sub_assign = op_image (\<lambda>p q. Inr (pix_sub p q))"

definition mul_assign :: "bi_image \<Rightarrow> bi_image \<Rightarrow> bi_image res" where
  "mul_assign = op_image (\<lambda>p q. Inr (pix_mul p q))"

definition div_assign :: "bi_image \<Rightarrow> bi_image \<Rightarrow> bi_image res" where
  "div_assign = op_image pix_div"

text \<open>The compound operators with a pixel.\<close>

definition op_pixel :: "(pixel \<Rightarrow> pixel res) \<Rightarrow> bi_image \<Rightarrow> bi_image res" where
  "op_pixel f this =
     for_each this (\<lambda>i j t.
       rbind (rdbuf (mimage t) (i + j * width t)) (\<lambda>p.
       rbind (f p) (\<lambda>r.
       rbind (wrbuf (mimage t) (i + j * width t) r) (\<lambda>m. Inr (t\<lparr>mimage := m\<rparr>))))) this"

definition add_assign_pixel :: "pixel \<Rightarrow> bi_image \<Rightarrow> bi_image res" where
  "add_assign_pixel q = op_pixel (\<lambda>p. Inr (pix_add p q))"

definition sub_assign_pixel :: "pixel \<Rightarrow> bi_image \<Rightarrow> bi_image res" where
  "sub_assign_pixel q = op_pixel (\<lambda>p. Inr (pix_sub p q))"

definition mul_assign_pixel :: "pixel \<Rightarrow> bi_image \<Rightarrow> bi_image res" where
  "mul_assign_pixel q = op_pixel (\<lambda>p. Inr (pix_mul p q))"

definition div_assign_pixel :: "pixel \<Rightarrow> bi_image \<Rightarrow> bi_image res" where
  "div_assign_pixel q = op_pixel (\<lambda>p. pix_div p q)"

text \<open>The binary operators copy the receiver into a fresh image and use the compound ones.\<close>

definition bi_add :: "bi_image \<Rightarrow> bi_image \<Rightarrow> bi_image res" where
  "bi_add this im = rbind (assign init this) (add_assign im)"

definition bi_sub :: "bi_image \<Rightarrow> bi_image \<Rightarrow> bi_image res" where
  "bi_sub this im = rbind (assign init this) (sub_assign im)"

definition bi_mul :: "bi_image \<Rightarrow> bi_image \<Rightarrow> bi_image res" where
  "bi_mul this im = rbind (assign init this) (mul_assign im)"

definition bi_div :: "bi_image \<Rightarrow> bi_image \<Rightarrow> bi_image res" where
  "bi_div this im = rbind (assign init this) (div_assign im)"

definition bi_add_pixel :: "bi_image \<Rightarrow> pixel \<Rightarrow> bi_image res" where
  "bi_add_pixel this p = rbind (assign init this) (add_assign_pixel p)"

definition bi_sub_pixel :: "bi_image \<Rightarrow> pixel \<Rightarrow> bi_image res" where
  "bi_sub_pixel this p = rbind (assign init this) (sub_assign_pixel p)"

definition bi_mul_pixel :: "bi_image \<Rightarrow> pixel \<Rightarrow> bi_image res" where
  "bi_mul_pixel this p = rbind (assign init this) (mul_assign_pixel p)"

definition bi_div_pixel :: "bi_image \<Rightarrow> pixel \<Rightarrow> bi_image res" where
  "bi_div_pixel this p = rbind (assign init this) (div_assign_pixel p)"

subsection \<open>Well-formed images as cell stores\<close>

definition wf_img :: "bi_image \<Rightarrow> bool" where
  "wf_img im \<longleftrightarrow> 0 \<le> width im \<and> 0 \<le> height im \<and>
     width im * height im \<le> int (length (mimage im)) \<and> int32 (width im * height im)"

definition inside :: "bi_image \<Rightarrow> int \<Rightarrow> int \<Rightarrow> bool" where
  "inside im x y \<longleftrightarrow> 0 \<le> x \<and> x < width im \<and> 0 \<le> y \<and> y < height im"

definition cell :: "bi_image \<Rightarrow> int \<times> int \<Rightarrow> pixel" where
  "cell im = (\<lambda>(x, y). mimage im ! nat (x + y * width im))"

definition set_cell :: "bi_image \<Rightarrow> int \<times> int \<Rightarrow> pixel \<Rightarrow> bi_image" where
  "set_cell im = (\<lambda>(x, y) p. im\<lparr>mimage := (mimage im)[nat (x + y * width im) := p]\<rparr>)"

text \<open>What \<open>Get\<close> shows of a cell: the transparent colour reads as the empty pixel.\<close>

definition view :: "pixel \<Rightarrow> pixel \<Rightarrow> pixel" where
  "view c p = (if pix_eq c p then Pixel0 else p)"

type_synonym img_shape = "int \<times> int \<times> nat \<times> pixel"

definition shape_of :: "bi_image \<Rightarrow> img_shape" where
  "shape_of im = (width im, height im, length (mimage im), clearColor im)"

definition ok_shape :: "img_shape \<Rightarrow> int \<times> int \<Rightarrow> bool" where
  "ok_shape = (\<lambda>(w, h, l, c) (x, y).
     0 \<le> x \<and> x < w \<and> 0 \<le> y \<and> y < h \<and> w * h \<le> int l)"

lemma index_less:
  assumes "0 \<le> x" "x < w" "0 \<le> y" "y < (h :: int)"
  shows "0 \<le> x + y * w" "x + y * w < w * h"
proof -
  show "0 \<le> x + y * w" using assms by simp
  have "x + y * w < w + y * w" using assms by simp
  also have "\<dots> = (y + 1) * w" by (simp add: algebra_simps)
  also have "\<dots> \<le> h * w" using assms by (intro mult_right_mono) auto
  finally show "x + y * w < w * h" by (simp add: mult.commute)
qed

lemma index_inj:
  assumes "0 \<le> x" "x < w" "0 \<le> y" "0 \<le> x'" "x' < w" "0 \<le> y'"
  shows "nat (x + y * w) = nat (x' + y' * w) \<longleftrightarrow> x = x' \<and> y = (y' :: int)"
proof
  assume "nat (x + y * w) = nat (x' + y' * w)"
  moreover have "0 \<le> x + y * w" "0 \<le> x' + y' * w" using assms by simp_all
  ultimately have eq: "x + y * w = x' + y' * w" by (simp only: eq_nat_nat_iff)
  then have "(x + y * w) mod w = (x' + y' * w) mod w" by simp
  with assms have "x = x'" by simp
  with eq assms show "x = x' \<and> y = y'" by simp
qed simp

interpretation bi: cell_store shape_of ok_shape cell set_cell
proof
  fix s x and p :: pixel
  show "shape_of (set_cell s x p) = shape_of s"
    by (simp add: shape_of_def set_cell_def split: prod.split)
next
  fix s x y and p :: pixel
  assume *: "ok_shape (shape_of s) x" "ok_shape (shape_of s) y"
  obtain a b c d where xy: "x = (a, b)" "y = (c, d)" by (cases x, cases y) auto
  have "nat (a + b * width s) = nat (c + d * width s) \<longleftrightarrow> a = c \<and> b = d"
    using * by (intro index_inj) (auto simp: ok_shape_def shape_of_def xy)
  moreover have "nat (c + d * width s) < length (mimage s)"
    using * index_less [of c "width s" d "height s"]
    by (simp add: ok_shape_def shape_of_def xy nat_less_iff)
  ultimately show "cell (set_cell s x p) y = (if x = y then p else cell s y)"
    by (auto simp: cell_def set_cell_def xy nth_list_update)
qed

lemma ok_shape_inside: "wf_img im \<Longrightarrow> ok_shape (shape_of im) (x, y) \<longleftrightarrow> inside im x y"
  by (auto simp: ok_shape_def shape_of_def wf_img_def inside_def)

lemma shape_eq:
  "shape_of t = shape_of s \<longleftrightarrow> width t = width s \<and> height t = height s \<and>
     length (mimage t) = length (mimage s) \<and> clearColor t = clearColor s"
  by (simp add: shape_of_def)

lemma wf_shape: "shape_of t = shape_of s \<Longrightarrow> wf_img s \<Longrightarrow> wf_img t"
  by (simp add: shape_eq wf_img_def)

lemma inside_shape: "shape_of t = shape_of s \<Longrightarrow> inside t x y = inside s x y"
  by (simp add: shape_eq inside_def)

lemma inside_length:
  "wf_img im \<Longrightarrow> inside im x y \<Longrightarrow>
     0 \<le> x + y * width im \<and> x + y * width im < int (length (mimage im))"
  using index_less [of x "width im" y "height im"] by (auto simp: wf_img_def inside_def)

lemma set_raster_inside: "(x, y) \<in> set (raster (width im) (height im)) \<longleftrightarrow> inside im x y"
  by (auto simp: set_raster inside_def)

lemma coord_in [simp]: "0 \<le> x \<Longrightarrow> x < n \<Longrightarrow> coord x n = Inr x"
  by (simp add: coord_def cmod_in)

lemma coord_mod: "0 < n \<Longrightarrow> - n \<le> x \<Longrightarrow> coord x n = Inr (x mod n)"
  by (auto simp: coord_def cmod_nonneg)

lemma Get_in:
  "wf_img im \<Longrightarrow> inside im x y \<Longrightarrow> Get im x y = Inr (view (clearColor im) (cell im (x, y)))"
  using inside_length [of im x y]
  by (simp add: Get_def cell_index_def inside_def view_def cell_def)

text \<open>The pixel the image shows at a position.\<close>

definition shown :: "bi_image \<Rightarrow> int \<Rightarrow> int \<Rightarrow> pixel" where
  "shown im x y = view (clearColor im) (cell im (x, y))"

lemma Get_shown: "wf_img im \<Longrightarrow> inside im x y \<Longrightarrow> Get im x y = Inr (shown im x y)"
  by (simp add: Get_in shown_def)

lemma Put_in:
  "wf_img im \<Longrightarrow> inside im x y \<Longrightarrow> Put x y p im = Inr (set_cell im (x, y) p)"
  using inside_length [of im x y]
  by (simp add: Put_def cell_index_def inside_def set_cell_def)

lemma raw_read:
  "wf_img im \<Longrightarrow> inside im x y \<Longrightarrow> rdbuf (mimage im) (x + y * width im) = Inr (cell im (x, y))"
  using inside_length [of im x y] by (simp add: cell_def)

lemma raw_write:
  "wf_img im \<Longrightarrow> inside im x y \<Longrightarrow>
     rbind (wrbuf (mimage im) (x + y * width im) p) (\<lambda>m. Inr (im\<lparr>mimage := m\<rparr>)) =
     Inr (set_cell im (x, y) p)"
  using inside_length [of im x y] by (simp add: set_cell_def)

text \<open>
  The sweep law for \<open>for_each\<close>: a body that, on every image of the same shape whose own cell
  is untouched, writes \<open>g (x, y)\<close> into its own cell gives an image of these cells.
\<close>

lemma for_each_sweep:
  assumes wf: "wf_img s" and dim: "width d = width s" "height d = height s"
    and body: "\<And>x y t. inside s x y \<Longrightarrow> shape_of t = shape_of s \<Longrightarrow> wf_img t \<Longrightarrow>
      cell t (x, y) = cell s (x, y) \<Longrightarrow> f x y t = Inr (set_cell t (x, y) (g x y))"
  shows "\<exists>t. for_each d f s = Inr t \<and> shape_of t = shape_of s \<and> wf_img t \<and>
    (\<forall>x y. inside s x y \<longrightarrow> cell t (x, y) = g x y)"
proof -
  have "\<exists>t. foldM (\<lambda>(i, j). f i j) (raster (width s) (height s)) s = Inr t \<and>
    shape_of t = shape_of s \<and> (\<forall>y. ok_shape (shape_of s) y \<longrightarrow> cell t y =
      (if y \<in> set (raster (width s) (height s)) then (\<lambda>(i, j). g i j) y else cell s y))"
  proof (rule bi.sweep)
    show "distinct (raster (width s) (height s))" by (rule distinct_raster)
  next
    fix x assume *: "x \<in> set (raster (width s) (height s))"
    obtain a b where "x = (a, b)" by force
    with * wf show "ok_shape (shape_of s) x"
      by (simp add: set_raster_inside ok_shape_inside)
  next
    fix x t
    assume *: "x \<in> set (raster (width s) (height s))" "shape_of t = shape_of s"
      "cell t x = cell s x"
    obtain a b where "x = (a, b)" by force
    with * show "(case x of (i, j) \<Rightarrow> f i j) t =
      Inr (set_cell t x ((\<lambda>(i, j). g i j) x))"
      using body wf_shape [OF *(2) wf] by (simp add: set_raster_inside)
  qed
  then show ?thesis
    using wf dim
    by (force simp: for_each_def ok_shape_inside set_raster_inside wf_shape)
qed

subsection \<open>Reads, writes, copies\<close>

lemma Create_ok:
  assumes "0 \<le> w" "0 \<le> h" "int32 (w * h)"
  shows "\<exists>t. Create w h = Inr t \<and> wf_img t \<and> width t = w \<and> height t = h \<and>
    clearColor t = Pixel0 \<and> length (mimage t) = nat (w * h) \<and>
    (\<forall>x y. inside t x y \<longrightarrow> cell t (x, y) = Pixel0)"
proof -
  have "0 \<le> w * h" using assms by simp
  moreover from this have "nat (x + y * w) < nat (w * h)" if "0 \<le> x" "x < w" "0 \<le> y" "y < h" for x y
    using index_less [OF that] by simp
  moreover from calculation have "\<not> w * h < 0" by (simp only: not_less)
  ultimately show ?thesis
    using assms by (simp add: Create_def Let_def init_def wf_img_def cell_def inside_def)
qed

lemma init_sel [simp]:
  "mimage init = []" "clearColor init = Pixel0" "width init = 0" "height init = 0"
  by (simp_all add: init_def)

lemma wf_init [simp]: "wf_img init"
  by (simp add: wf_img_def int32_def)

lemma setClear_sel [simp]:
  "mimage (setClear c im) = mimage im" "clearColor (setClear c im) = c"
  "width (setClear c im) = width im" "height (setClear c im) = height im"
  by (simp_all add: setClear_def)

lemma setClear_wf [simp]: "wf_img (setClear c im) = wf_img im"
  by (simp add: wf_img_def)

lemma setClear_cell [simp]: "cell (setClear c im) = cell im"
  by (simp add: cell_def)

lemma setClear_inside [simp]: "inside (setClear c im) = inside im"
  by (simp add: inside_def fun_eq_iff)

lemma assign_ok:
  assumes wf: "wf_img this" "wf_img im"
  shows "\<exists>t. assign this im = Inr t \<and> wf_img t \<and> width t = width im \<and> height t = height im \<and>
    clearColor t = clearColor im \<and> (\<forall>x y. inside im x y \<longrightarrow> cell t (x, y) = cell im (x, y))"
proof -
  define d where "d = (if width this < width im \<or> height this < height im \<or> mimage this = []
    then Create (width im) (height im)
    else Inr (this\<lparr>width := width im, height := height im\<rparr>))"
  have "\<exists>d0. d = Inr d0 \<and> wf_img d0 \<and> width d0 = width im \<and> height d0 = height im"
  proof (cases "width this < width im \<or> height this < height im \<or> mimage this = []")
    case True
    then show ?thesis
      using Create_ok [of "width im" "height im"] wf(2) by (auto simp: d_def wf_img_def)
  next
    case False
    have "width im * height im \<le> width this * height this"
      using False wf by (intro mult_mono) (auto simp: wf_img_def)
    with False wf show ?thesis
      by (auto simp: d_def wf_img_def)
  qed
  then obtain d0 where d0: "d = Inr d0" "wf_img d0" "width d0 = width im" "height d0 = height im"
    by blast
  let ?s = "d0\<lparr>clearColor := clearColor im\<rparr>"
  have wfs: "wf_img ?s" using d0 by (simp add: wf_img_def)
  have "\<exists>t. for_each ?s (\<lambda>i j t.
      rbind (rdbuf (mimage im) (i + j * width im)) (\<lambda>p.
      rbind (wrbuf (mimage t) (i + j * width t) p) (\<lambda>m. Inr (t\<lparr>mimage := m\<rparr>)))) ?s = Inr t \<and>
    shape_of t = shape_of ?s \<and> wf_img t \<and> (\<forall>x y. inside ?s x y \<longrightarrow> cell t (x, y) = cell im (x, y))"
  proof (rule for_each_sweep [OF wfs refl refl])
    fix x y t
    assume *: "inside ?s x y" "shape_of t = shape_of ?s" "wf_img t"
    have t: "inside t x y"
      using *(1) by (simp only: inside_shape [OF *(2)])
    have "inside im x y"
      using *(1) d0 by (simp add: inside_def)
    with t show "rbind (rdbuf (mimage im) (x + y * width im)) (\<lambda>p.
        rbind (wrbuf (mimage t) (x + y * width t) p) (\<lambda>m. Inr (t\<lparr>mimage := m\<rparr>))) =
      Inr (set_cell t (x, y) (cell im (x, y)))"
      using *(3) wf(2) by (simp only: raw_read rbind_Inr raw_write)
  qed
  then obtain t where t: "for_each ?s (\<lambda>i j t.
      rbind (rdbuf (mimage im) (i + j * width im)) (\<lambda>p.
      rbind (wrbuf (mimage t) (i + j * width t) p) (\<lambda>m. Inr (t\<lparr>mimage := m\<rparr>)))) ?s = Inr t"
    "shape_of t = shape_of ?s" "wf_img t" "\<forall>x y. inside ?s x y \<longrightarrow> cell t (x, y) = cell im (x, y)"
    by blast
  have "assign this im = Inr t"
    using d0(1) t(1) by (simp add: assign_def d_def Let_def)
  with t(2-4) d0 show ?thesis
    by (auto simp: shape_eq inside_def)
qed

lemma op_image_ok:
  assumes wf: "wf_img this" "wf_img im" "width this \<le> width im" "height this \<le> height im"
    and f: "\<And>x y. inside this x y \<Longrightarrow> f (cell this (x, y)) (cell im (x, y)) = Inr (g x y)"
  shows "\<exists>t. op_image f im this = Inr t \<and> shape_of t = shape_of this \<and> wf_img t \<and>
    (\<forall>x y. inside this x y \<longrightarrow> cell t (x, y) = g x y)"
  unfolding op_image_def
proof (rule for_each_sweep [OF wf(1) refl refl])
  fix x y t
  assume *: "inside this x y" "shape_of t = shape_of this" "wf_img t"
    "cell t (x, y) = cell this (x, y)"
  have t: "inside t x y"
    using *(1) by (simp only: inside_shape [OF *(2)])
  have "inside im x y"
    using *(1) wf by (simp add: inside_def)
  with t show "op_cell f im x y t = Inr (set_cell t (x, y) (g x y))"
    using * wf(2) by (simp only: op_cell_def raw_read rbind_Inr raw_write f [OF *(1)])
qed

lemma op_pixel_ok:
  assumes wf: "wf_img this"
    and f: "\<And>x y. inside this x y \<Longrightarrow> f (cell this (x, y)) = Inr (g x y)"
  shows "\<exists>t. op_pixel f this = Inr t \<and> shape_of t = shape_of this \<and> wf_img t \<and>
    (\<forall>x y. inside this x y \<longrightarrow> cell t (x, y) = g x y)"
  unfolding op_pixel_def
proof (rule for_each_sweep [OF wf refl refl])
  fix x y t
  assume *: "inside this x y" "shape_of t = shape_of this" "wf_img t"
    "cell t (x, y) = cell this (x, y)"
  then have "inside t x y"
    by (simp add: inside_shape [OF *(2)])
  then show "rbind (rdbuf (mimage t) (x + y * width t)) (\<lambda>p. rbind (f p) (\<lambda>r.
      rbind (wrbuf (mimage t) (x + y * width t) r) (\<lambda>m. Inr (t\<lparr>mimage := m\<rparr>)))) =
    Inr (set_cell t (x, y) (g x y))"
    using * by (simp only: raw_read rbind_Inr raw_write f [OF *(1)])
qed

lemma assign_pixel_ok:
  assumes wf: "wf_img this"
  shows "\<exists>t. assign_pixel p this = Inr t \<and> shape_of t = shape_of this \<and> wf_img t \<and>
    (\<forall>x y. inside this x y \<longrightarrow> cell t (x, y) = p)"
  unfolding assign_pixel_def
proof (rule for_each_sweep [OF wf refl refl])
  fix x y t
  assume *: "inside this x y" "shape_of t = shape_of this" "wf_img t"
  show "Put x y p t = Inr (set_cell t (x, y) p)"
    by (rule Put_in [OF *(3)]) (simp only: inside_shape [OF *(2)] *(1))
qed

subsection \<open>Scaling\<close>

lemma Size_cells:
  assumes wf: "wf_img this" and small: "int32 (\<bar>w\<bar> * \<bar>h\<bar>)"
    and get: "\<And>i j. 0 \<le> i \<Longrightarrow> i < \<bar>w\<bar> \<Longrightarrow> 0 \<le> j \<Longrightarrow> j < \<bar>h\<bar> \<Longrightarrow>
      Get this (scaled i (rate (width this) w)) (scaled j (rate (height this) h)) = Inr (g i j)"
  shows "\<exists>t. Size w h this = Inr t \<and> wf_img t \<and> width t = \<bar>w\<bar> \<and> height t = \<bar>h\<bar> \<and>
    clearColor t = clearColor this \<and> (\<forall>x y. inside t x y \<longrightarrow> cell t (x, y) = g x y)"
proof -
  obtain c where c: "Create \<bar>w\<bar> \<bar>h\<bar> = Inr c" "wf_img c" "width c = \<bar>w\<bar>" "height c = \<bar>h\<bar>"
    using Create_ok [of "\<bar>w\<bar>" "\<bar>h\<bar>"] small by auto
  let ?body = "\<lambda>i j t. rbind (Get this (scaled i (rate (width this) w))
    (scaled j (rate (height this) h))) (\<lambda>p. Put i j p t)"
  have "\<exists>t. for_each c ?body c = Inr t \<and> shape_of t = shape_of c \<and> wf_img t \<and>
    (\<forall>x y. inside c x y \<longrightarrow> cell t (x, y) = g x y)"
  proof (rule for_each_sweep [OF c(2) refl refl])
    fix x y t
    assume *: "inside c x y" "shape_of t = shape_of c" "wf_img t"
    then have "?body x y t = Put x y (g x y) t"
      using get [of x y] c by (simp add: inside_def)
    also have "\<dots> = Inr (set_cell t (x, y) (g x y))"
      by (rule Put_in [OF *(3)]) (simp only: inside_shape [OF *(2)] *(1))
    finally show "?body x y t = Inr (set_cell t (x, y) (g x y))" .
  qed
  then obtain t where t: "for_each c ?body c = Inr t" "shape_of t = shape_of c" "wf_img t"
    "\<forall>x y. inside c x y \<longrightarrow> cell t (x, y) = g x y" by blast
  obtain u where u: "assign this (setClear (clearColor this) t) = Inr u" "wf_img u"
    "width u = width t" "height u = height t" "clearColor u = clearColor this"
    "\<forall>x y. inside t x y \<longrightarrow> cell u (x, y) = cell t (x, y)"
    using assign_ok [of this "setClear (clearColor this) t"] wf t(3) by auto
  have "Size w h this = Inr u"
    using c(1) t(1) u(1) by (simp add: Size_def Let_def)
  with u t c show ?thesis
    by (auto simp: shape_eq inside_def)
qed

lemma rate_same: "0 < w \<Longrightarrow> w < 2 ^ 31 \<Longrightarrow> rate w w = Fin 1"
  using fp_round_int [of 1 1] by (simp add: rate_def fp_of_int_Fin)

lemma rate_mirror: "0 < h \<Longrightarrow> h < 2 ^ 31 \<Longrightarrow> rate h (- h) = Fin (- 1)"
  using fp_round_int [of "- 1" "- 1"] by (simp add: rate_def fp_of_int_Fin)

lemma scaled_1: "int32 i \<Longrightarrow> scaled i (Fin 1) = i"
proof -
  assume i: "int32 i"
  then have "\<bar>i\<bar> < 2 ^ 53" by (auto simp: int32_def)
  then show ?thesis
    using i fp_round_int [of "of_int i" i] by (simp add: scaled_def fp_of_int_Fin del: fp_to_int.simps)
qed

lemma scaled_m1: "int32 i \<Longrightarrow> int32 (- i) \<Longrightarrow> scaled i (Fin (- 1)) = - i"
proof -
  assume i: "int32 i" "int32 (- i)"
  then have "\<bar>i\<bar> < 2 ^ 53" by (auto simp: int32_def)
  then show ?thesis
    using fp_to_int_of_int [OF i(2)] fp_round_int [of "of_int (- i)" "- i"]
    by (simp add: scaled_def fp_of_int_Fin del: fp_to_int.simps)
qed

lemma int32_extent:
  assumes "wf_img im" "0 < width im" "0 < height im"
  shows "width im < 2 ^ 31" "height im < 2 ^ 31"
proof -
  have "width im * 1 \<le> width im * height im" "1 * height im \<le> width im * height im"
    using assms by (intro mult_mono; simp)+
  with assms(1) show "width im < 2 ^ 31" "height im < 2 ^ 31"
    by (auto simp: wf_img_def int32_def)
qed

text \<open>Flipping by a negative height: row 0 stays, row \<open>y\<close> and row \<open>h - y\<close> change places.\<close>

lemma setHeight_flip:
  assumes "wf_img im" and "0 < width im" and "0 < height im"
  shows "\<exists>t. setHeight (- height im) im = Inr t \<and> wf_img t \<and> width t = width im \<and>
    height t = height im \<and> clearColor t = clearColor im \<and>
    (\<forall>x y. inside im x y \<longrightarrow>
       cell t (x, y) = view (clearColor im) (cell im (x, (height im - y) mod height im)))"
proof -
  let ?W = "width im" and ?H = "height im"
  let ?g = "\<lambda>x y. view (clearColor im) (cell im (x, (?H - y) mod ?H))"
  note lt = int32_extent [OF assms]
  have "\<exists>t. Size ?W (- ?H) im = Inr t \<and> wf_img t \<and> width t = \<bar>?W\<bar> \<and> height t = \<bar>- ?H\<bar> \<and>
    clearColor t = clearColor im \<and> (\<forall>x y. inside t x y \<longrightarrow> cell t (x, y) = ?g x y)"
  proof (rule Size_cells [OF assms(1)])
    show "int32 (\<bar>?W\<bar> * \<bar>- ?H\<bar>)" using assms by (simp add: wf_img_def)
  next
    fix i j assume ij: "0 \<le> i" "i < \<bar>?W\<bar>" "0 \<le> j" "j < \<bar>- ?H\<bar>"
    have i: "scaled i (rate ?W ?W) = i"
      using ij assms lt by (simp add: rate_same scaled_1 int32_def)
    have j: "scaled j (rate ?H (- ?H)) = - j"
      using ij assms lt by (simp add: rate_mirror scaled_m1 int32_def)
    have "Get im i (- j) = Get im i ((?H - j) mod ?H)"
      using ij assms by (simp add: Get_def cell_index_def coord_mod)
    also have "\<dots> = Inr (?g i j)"
      using ij assms by (intro Get_in) (auto simp: inside_def)
    finally show "Get im (scaled i (rate ?W ?W)) (scaled j (rate ?H (- ?H))) = Inr (?g i j)"
      by (simp only: i j)
  qed
  then show ?thesis
    using assms by (auto simp: setHeight_def inside_def)
qed

text \<open>
  The idiom \<open>image.Height(-image.Height())\<close> that \<open>Save\<close> and \<open>Load\<close> use to turn an
  image upside down keeps the size and the transparent colour and moves row \<open>y\<close> to row
  \<open>(H - y) mod H\<close>: row 0 stays where it is and the rows from 1 on are reversed, so it is
  not the reversal of all rows that the comment announces.
\<close>

theorem flip_rows:
  assumes "wf_img im" and "0 < width im" and "0 < height im"
  shows "\<exists>t. setHeight (- height im) im = Inr t \<and> wf_img t \<and> width t = width im \<and>
    height t = height im \<and> clearColor t = clearColor im \<and>
    (\<forall>x y. inside im x y \<longrightarrow>
       cell t (x, y) = view (clearColor im) (cell im (x, (height im - y) mod height im)))"
  by (rule setHeight_flip [OF assms])

text \<open>A small image for the witnesses: two columns, three rows, white below black.\<close>

definition sample_img :: bi_image where
  "sample_img = \<lparr>mimage = [PixelL 0, PixelL 0, PixelL 9, PixelL 9, PixelL 255, PixelL 255],
     clearColor = Pixel0, width = 2, height = 3\<rparr>"

lemma sample_img_sel [simp]:
  "width sample_img = 2" "height sample_img = 3" "clearColor sample_img = Pixel0"
  by (simp_all add: sample_img_def)

lemma wf_sample_img [simp]: "wf_img sample_img"
  by (simp add: sample_img_def wf_img_def int32_def)

lemma sample_img_cell:
  "cell sample_img (x, y) =
     [PixelL 0, PixelL 0, PixelL 9, PixelL 9, PixelL 255, PixelL 255] ! nat (x + y * 2)"
  by (simp add: cell_def sample_img_def)

theorem flip_rows_witness:
  "\<exists>t. setHeight (- 3) sample_img = Inr t \<and> cell t (0, 0) = PixelL 0 \<and>
     cell t (0, 1) = PixelL 255 \<and> cell t (0, 2) = PixelL 9"
proof -
  obtain t where t: "setHeight (- 3) sample_img = Inr t"
    and c: "\<And>x y. inside sample_img x y \<Longrightarrow>
      cell t (x, y) = view Pixel0 (cell sample_img (x, (3 - y) mod 3))"
    using flip_rows [of sample_img] by auto
  show ?thesis
    using t c [of 0 0] c [of 0 1] c [of 0 2]
    by (simp add: sample_img_cell view_def pix_eq_Pixel0 inside_def)
qed

lemma Size_ok:
  assumes "wf_img im" and "0 < width im" and "0 < height im"
    and "0 < w" and "0 < h" and "w * h < 2 ^ 31"
  shows "\<exists>t. Size w h im = Inr t \<and> wf_img t \<and> width t = w \<and> height t = h \<and>
    (\<forall>x y. inside t x y \<longrightarrow>
       (\<exists>u v. inside im u v \<and> cell t (x, y) = view (clearColor im) (cell im (u, v))))"
proof -
  let ?u = "\<lambda>x. scaled x (rate (width im) w)" and ?v = "\<lambda>y. scaled y (rate (height im) h)"
  let ?g = "\<lambda>x y. view (clearColor im) (cell im (?u x, ?v y))"
  note lt = int32_extent [OF assms(1-3)]
  have "w * 1 \<le> w * h" "1 * h \<le> w * h" using assms by (intro mult_mono; simp)+
  then have wh: "w < 2 ^ 31" "h < 2 ^ 31" using assms(6) by linarith+
  have ins: "inside im (?u x) (?v y)" if "0 \<le> x" "x < w" "0 \<le> y" "y < h" for x y
    using scaled_index [of w "width im" x] scaled_index [of h "height im" y] that assms lt wh
    by (simp add: inside_def scaled_def rate_def)
  have "\<exists>t. Size w h im = Inr t \<and> wf_img t \<and> width t = \<bar>w\<bar> \<and> height t = \<bar>h\<bar> \<and>
    clearColor t = clearColor im \<and> (\<forall>x y. inside t x y \<longrightarrow> cell t (x, y) = ?g x y)"
  proof (rule Size_cells [OF assms(1)])
    have "0 \<le> w * h" using assms by simp
    with assms(6) have "int32 (w * h)" unfolding int32_def by linarith
    then show "int32 (\<bar>w\<bar> * \<bar>h\<bar>)" using assms by simp
  next
    fix i j assume "0 \<le> i" "i < \<bar>w\<bar>" "0 \<le> j" "j < \<bar>h\<bar>"
    then show "Get im (?u i) (?v j) = Inr (?g i j)"
      using assms by (intro Get_in ins) auto
  qed
  then obtain t where t: "Size w h im = Inr t" "wf_img t" "width t = w" "height t = h"
    "\<forall>x y. inside t x y \<longrightarrow> cell t (x, y) = ?g x y"
    using assms by auto
  have "\<exists>u v. inside im u v \<and> cell t (x, y) = view (clearColor im) (cell im (u, v))"
    if "inside t x y" for x y
    using that t ins [of x y] by (auto simp: inside_def [of t])
  with t show ?thesis by blast
qed

text \<open>
  Scaling a well-formed image to any positive size never reads outside it: the result has
  the size asked for and every pixel is one the original shows.
\<close>

theorem size_safe:
  assumes "wf_img im" and "0 < width im" and "0 < height im"
    and "0 < w" and "0 < h" and "w * h < 2 ^ 31"
  shows "\<exists>t. Size w h im = Inr t \<and> wf_img t \<and> width t = w \<and> height t = h \<and>
    (\<forall>x y. inside t x y \<longrightarrow>
       (\<exists>u v. inside im u v \<and> cell t (x, y) = view (clearColor im) (cell im (u, v))))"
  using assms by (rule Size_ok)

theorem size_safe_witness:
  "\<exists>t. Size 5 1 sample_img = Inr t \<and> wf_img t \<and> width t = 5 \<and> height t = 1"
  using size_safe [of sample_img 5 1] by auto

subsection \<open>Pixel access\<close>

lemma cell_index_mod:
  "0 < width im \<Longrightarrow> 0 < height im \<Longrightarrow> - width im \<le> x \<Longrightarrow> - height im \<le> y \<Longrightarrow>
     cell_index im x y = Inr (x mod width im + y mod height im * width im)"
  by (simp add: cell_index_def coord_mod)

lemma cell_index_reduced:
  "0 < width im \<Longrightarrow> 0 < height im \<Longrightarrow>
     cell_index im (x mod width im) (y mod height im) =
     Inr (x mod width im + y mod height im * width im)"
  by (simp add: cell_index_def)

lemma Get_torus:
  assumes "wf_img im" and "0 < width im" and "0 < height im" and "- width im \<le> x" and "- height im \<le> y"
  shows "Get im x y = Inr (shown im (x mod width im) (y mod height im))"
proof -
  have "Get im x y = Get im (x mod width im) (y mod height im)"
    unfolding Get_def using assms by (simp only: cell_index_mod cell_index_reduced)
  then show ?thesis using assms by (simp add: Get_shown inside_def)
qed

lemma Put_torus:
  assumes "wf_img im" and "0 < width im" and "0 < height im" and "- width im \<le> x" and "- height im \<le> y"
  shows "Put x y p im = Inr (set_cell im (x mod width im, y mod height im) p)"
proof -
  have "Put x y p im = Put (x mod width im) (y mod height im) p im"
    unfolding Put_def using assms by (simp only: cell_index_mod cell_index_reduced)
  then show ?thesis using assms by (simp add: Put_in inside_def)
qed

text \<open>
  C20: \<open>Put\<close> then \<open>Get\<close>. Coordinates wrap around the edges of the image like a torus, down
  to minus the extent: after writing a pixel at \<open>(x, y)\<close>, reading \<open>(u, v)\<close> gives that pixel
  when both name the same cell modulo the extents (the empty pixel if it is the transparent
  colour), and what was there before otherwise.
\<close>

theorem put_get_torus:
  assumes "wf_img im" and "0 < width im" and "0 < height im"
    and "- width im \<le> x" and "- height im \<le> y" and "- width im \<le> u" and "- height im \<le> v"
  shows "\<exists>t. Put x y p im = Inr t \<and> wf_img t \<and>
    Get t u v = (if u mod width im = x mod width im \<and> v mod height im = y mod height im
                 then Inr (view (clearColor im) p) else Get im u v)"
proof -
  let ?x = "x mod width im" and ?y = "y mod height im"
  let ?u = "u mod width im" and ?v = "v mod height im"
  let ?t = "set_cell im (?x, ?y) p"
  have in1: "inside im ?x ?y" and in2: "inside im ?u ?v"
    using assms by (simp_all add: inside_def)
  have sh: "shape_of ?t = shape_of im" by (rule bi.shape_wr)
  have wft: "wf_img ?t" by (rule wf_shape [OF sh assms(1)])
  have dims: "width ?t = width im" "height ?t = height im" "clearColor ?t = clearColor im"
    using sh by (simp_all add: shape_eq)
  have put: "Put x y p im = Inr ?t" using assms by (intro Put_torus)
  have new: "Get ?t u v = Inr (shown ?t ?u ?v)" and old: "Get im u v = Inr (shown im ?u ?v)"
    using Get_torus [OF wft, of u v] Get_torus [OF assms(1), of u v] assms dims by simp_all
  have "cell ?t (?u, ?v) = (if (?x, ?y) = (?u, ?v) then p else cell im (?u, ?v))"
    using assms(1) in1 in2 by (intro bi.rd_wr) (simp_all add: ok_shape_inside)
  then show ?thesis
    using put wft new old dims by (auto simp: shown_def eq_commute)
qed

theorem put_get_torus_witness:
  "\<exists>t. Put (-1) 2 (PixelL 7) \<lparr>mimage = replicate 4 Pixel0, clearColor = Pixel0, width = 2, height = 2\<rparr>
     = Inr t \<and> wf_img t \<and> Get t 3 (-2) = Inr (PixelL 7)"
  using put_get_torus [of "\<lparr>mimage = replicate 4 Pixel0, clearColor = Pixel0, width = 2, height = 2\<rparr>"
      "-1" 2 3 "-2" "PixelL 7"]
  by (simp add: wf_img_def int32_def view_def pix_eq_Pixel0)

text \<open>A coordinate further out than one extent is not wrapped: C's remainder of a negative
  number is negative, so on the top row the access lands before the buffer.
\<close>

theorem get_below_extent:
  assumes "0 < height im" and "0 < width im" and "x < - width im" and "\<not> width im dvd x"
  shows "Get im x 0 = Inl OutOfBounds"
proof -
  let ?r = "(width im + x) smod width im"
  have "?r = - ((- (width im + x)) mod width im)"
    using assms by (simp add: signed_modulo_int_def sgn_if)
  moreover have "\<not> width im dvd - (width im + x)"
    using assms(4) by (simp add: dvd_add_right_iff del: minus_add_distrib)
  then have "0 < (- (width im + x)) mod width im"
    using assms(2) by (simp add: dvd_eq_mod_eq_0 order.not_eq_order_implies_strict del: minus_add_distrib)
  ultimately have "?r < 0" by simp
  then have "cell_index im x 0 = Inr ?r" "rdbuf (mimage im) ?r = Inl OutOfBounds"
    using assms by (simp_all add: cell_index_def coord_def cmod_def rdbuf_out)
  then show ?thesis by (simp add: Get_def)
qed

theorem get_below_extent_witness:
  "Get \<lparr>mimage = replicate 4 Pixel0, clearColor = Pixel0, width = 2, height = 2\<rparr> (-3) 0 = Inl OutOfBounds"
  by (rule get_below_extent) simp_all

subsection \<open>Arithmetic on images\<close>

text \<open>
  The difference of two images of which the second covers the first. The result has the
  size of the first image, and every channel is the difference of the channels, cut off at 0;
  labels are those of the first image.
\<close>

theorem bi_sub_saturates:
  assumes "wf_img this" and "wf_img im"
    and "width this \<le> width im" and "height this \<le> height im"
  shows "\<exists>t. bi_sub this im = Inr t \<and> wf_img t \<and>
    width t = width this \<and> height t = height this \<and>
    (\<forall>x y. inside this x y \<longrightarrow>
       uint (red (cell t (x, y))) = max 0 (uint (red (cell this (x, y))) - uint (red (cell im (x, y)))) \<and>
       uint (green (cell t (x, y))) =
         max 0 (uint (green (cell this (x, y))) - uint (green (cell im (x, y)))) \<and>
       uint (blue (cell t (x, y))) = max 0 (uint (blue (cell this (x, y))) - uint (blue (cell im (x, y)))) \<and>
       plabel (cell t (x, y)) = plabel (cell this (x, y)))"
proof -
  obtain s where s: "assign init this = Inr s" "wf_img s" "width s = width this"
    "height s = height this" "\<forall>x y. inside this x y \<longrightarrow> cell s (x, y) = cell this (x, y)"
    using assign_ok [OF wf_init assms(1)] by blast
  obtain t where t: "op_image (\<lambda>p q. Inr (pix_sub p q)) im s = Inr t" "shape_of t = shape_of s"
    "wf_img t" "\<forall>x y. inside s x y \<longrightarrow> cell t (x, y) = pix_sub (cell s (x, y)) (cell im (x, y))"
    using op_image_ok [of s im "\<lambda>p q. Inr (pix_sub p q)" "\<lambda>x y. pix_sub (cell s (x, y)) (cell im (x, y))"]
      s assms by auto
  have lim: "limit (uint a - uint b) 0 255 = max 0 (uint a - uint b)" for a b :: byte
  proof -
    have "uint a - uint b \<le> 255"
      by (rule order_trans [OF _ uint_byte_le [of a]]) simp
    then show ?thesis by (simp add: limit_eq_max_min)
  qed
  have "bi_sub this im = Inr t"
    using s(1) t(1) by (simp add: bi_sub_def sub_assign_def)
  moreover have "cell t (x, y) = pix_sub (cell this (x, y)) (cell im (x, y))" if "inside this x y" for x y
    using that t(4) s by (simp add: inside_def)
  ultimately show ?thesis
    using t(2,3) s(3,4) by (simp add: shape_eq pix_sub_def pix_map2_channels lim)
qed

theorem bi_sub_saturates_witness:
  "\<exists>t. bi_sub sample_img sample_img = Inr t \<and> wf_img t \<and> width t = 2 \<and> height t = 3"
  using bi_sub_saturates [of sample_img sample_img] by auto

text \<open>
  The compound operators do not cut the loops to the smaller image although they compute
  its extents: with a right operand of the same width and fewer rows, in a buffer of exactly
  its size, the loop reads past the end of that buffer.
\<close>

theorem sub_assign_overrun:
  assumes "wf_img this" and "wf_img im" and "0 < width this" and "width im = width this"
    and "height im < height this" and "int (length (mimage im)) = width im * height im"
  shows "sub_assign im this = Inl OutOfBounds"
proof -
  let ?f = "\<lambda>(i, j). op_cell (\<lambda>p q. Inr (pix_sub p q)) im i j"
  have rd: "inside t i j" "wf_img t" "rdbuf (mimage t) (i + j * width t) = Inr (cell t (i, j))"
    if t: "shape_of t = shape_of this" and x: "inside this i j" for t i j
  proof -
    show ins: "inside t i j" using x by (simp only: inside_shape [OF t])
    show wft: "wf_img t" by (rule wf_shape [OF t assms(1)])
    show "rdbuf (mimage t) (i + j * width t) = Inr (cell t (i, j))"
      using wft ins by (rule raw_read)
  qed
  have "foldM ?f (raster (width this) (height this)) this = Inl OutOfBounds"
  proof (rule foldM_error [where P = "\<lambda>t. shape_of t = shape_of this"])
    fix x t
    assume x: "x \<in> set (raster (width this) (height this))" and t: "shape_of t = shape_of this"
    obtain i j where ij: "x = (i, j)" by force
    have ins: "inside this i j" using x by (simp only: ij set_raster_inside)
    note r = rd [OF t ins]
    consider q where "rdbuf (mimage im) (i + j * width im) = Inr q"
      | "rdbuf (mimage im) (i + j * width im) = Inl OutOfBounds"
      by (cases "0 \<le> i + j * width im \<and> i + j * width im < int (length (mimage im))")
        (simp_all add: rdbuf_def)
    then show "(\<exists>s'. ?f x t = Inr s' \<and> shape_of s' = shape_of this) \<or> ?f x t = Inl OutOfBounds"
      using r(3) raw_write [OF r(2,1)] t by cases (simp_all add: ij op_cell_def bi.shape_wr)
  next
    have low: "inside this 0 (height im)"
      using assms by (simp add: inside_def wf_img_def)
    then have mem: "(0, height im) \<in> set (raster (width this) (height this))"
      by (simp only: set_raster_inside)
    have out: "rdbuf (mimage im) (0 + height im * width im) = Inl OutOfBounds"
      using assms by (intro rdbuf_out) (simp add: mult.commute)
    have "?f (0, height im) t = Inl OutOfBounds" if "shape_of t = shape_of this" for t
      using rd(3) [OF that low] out by (simp add: op_cell_def)
    with mem show "\<exists>x\<in>set (raster (width this) (height this)).
        \<forall>t. shape_of t = shape_of this \<longrightarrow> ?f x t = Inl OutOfBounds"
      by blast
  qed (rule refl)
  then show ?thesis by (simp add: sub_assign_def op_image_def for_each_def)
qed

theorem sub_assign_overrun_witness:
  "sub_assign \<lparr>mimage = [PixelL 1, PixelL 2], clearColor = Pixel0, width = 2, height = 1\<rparr> sample_img
     = Inl OutOfBounds"
  by (rule sub_assign_overrun) (simp_all add: wf_img_def int32_def sample_img_def)

end
