(* ===== verification/Morphology.thy ===== *)
theory Morphology
  imports BiImage
begin

text \<open>
  The morphology of \<open>image_util/ImageUtilClass.cpp\<close>: shrinking and expanding of white
  regions, their compositions, and thinning by eight masks until no pixel matches.
\<close>

subsection \<open>Shrink and Expand\<close>

text \<open>The offsets \<open>(k, l)\<close> of a window, rows outside and columns inside.\<close>

definition win :: "int \<Rightarrow> (int \<times> int) list" where
  "win r = concat (map (\<lambda>k. map (\<lambda>l. (k, l)) [- r..r]) [- r..r])"

text \<open>
  The number of pixels of a lightness around \<open>(i, j)\<close>, inside the image; the offset
  \<open>(1, 1)\<close> is left out and the pixel itself is not.
\<close>

definition count_win :: "byte \<Rightarrow> bi_image \<Rightarrow> int \<Rightarrow> int \<Rightarrow> int res" where
  "count_win level im i j =
     foldM (\<lambda>(k, l) cnt.
       if i + l < 0 \<or> j + k < 0 \<or> width im \<le> i + l \<or> height im \<le> j + k then Inr cnt
       else if k \<noteq> 1 \<or> l \<noteq> 1
       then rbind (Get im (i + l) (j + k)) (\<lambda>p. Inr (if Lightness p = level then cnt + 1 else cnt))
       else Inr cnt) (win 1) 0"

definition Shrink :: "bi_image \<Rightarrow> bi_image res" where
  "Shrink im =
     rbind (Create (width im) (height im)) (\<lambda>out.
     rbind (for_each im (\<lambda>i j out.
       rbind (Get im i j) (\<lambda>p.
         if Lightness p = 0 then Put i j p out
         else rbind (count_win 0 im i j) (\<lambda>cnt.
           if cnt \<noteq> 0 then Put i j (PixelI 0) out else Put i j p out))) out) (\<lambda>out.
     assign im out))"

definition Expand :: "bi_image \<Rightarrow> bi_image res" where
  "Expand im =
     rbind (Create (width im) (height im)) (\<lambda>out.
     rbind (for_each im (\<lambda>i j out.
       rbind (Get im i j) (\<lambda>p.
         if Lightness p = 255 then Put i j p out
         else rbind (count_win 255 im i j) (\<lambda>cnt.
           if cnt \<noteq> 0 then Put i j (PixelI 255) out else Put i j p out))) out) (\<lambda>out.
     assign im out))"

definition times :: "int \<Rightarrow> (bi_image \<Rightarrow> bi_image res) \<Rightarrow> bi_image \<Rightarrow> bi_image res" where
  "times n f = foldM (\<lambda>_. f) [0..n - 1]"

definition Opening :: "int \<Rightarrow> bi_image \<Rightarrow> bi_image res" where
  "Opening level im = rbind (times level Shrink im) (times level Expand)"

definition Closing :: "int \<Rightarrow> bi_image \<Rightarrow> bi_image res" where
  "Closing level im = rbind (times level Expand im) (times level Shrink)"

definition TopHat :: "int \<Rightarrow> bi_image \<Rightarrow> bi_image res" where
  "TopHat level im =
     rbind (assign init im) (\<lambda>temp. rbind (Opening level temp) (\<lambda>temp.
     rbind (bi_sub im temp) (assign im)))"

definition BlackHat :: "int \<Rightarrow> bi_image \<Rightarrow> bi_image res" where
  "BlackHat level im =
     rbind (assign init im) (\<lambda>temp. rbind (Closing level temp) (\<lambda>temp.
     rbind (bi_sub im temp) (assign im)))"

definition AntiNoise :: "int \<Rightarrow> bi_image \<Rightarrow> bi_image res" where
  "AntiNoise level im = Opening (s32 level) im"

subsection \<open>Thinning\<close>

text \<open>The masks: 1 is a white pixel, 0 a black one, -1 anything.\<close>

definition thin_masks :: "int list list" where
  "thin_masks =
    [[ 0,  0, -1,   0, 1,  1,  -1,  1, -1],
     [ 0,  0,  0,  -1, 1, -1,   1,  1, -1],
     [-1,  0,  0,   1, 1,  0,  -1,  1, -1],
     [ 1, -1,  0,   1, 1,  0,  -1, -1,  0],
     [-1,  1, -1,   1, 1,  0,  -1,  0,  0],
     [-1,  1,  1,  -1, 1, -1,   0,  0,  0],
     [-1,  1, -1,   0, 1,  1,   0,  0, -1],
     [ 0, -1, -1,   0, 1,  1,   0, -1,  1]]"

text \<open>The loop over the nine cells of a mask stops at the first mismatch.\<close>

fun thin_match :: "bi_image \<Rightarrow> int \<Rightarrow> int \<Rightarrow> int \<Rightarrow> int list \<Rightarrow> bool res" where
  "thin_match im i j k [] = Inr True"
| "thin_match im i j k (v # vs) =
     (if v \<noteq> - 1
      then rbind (Get im (i + k mod 3 - 1) (j + k div 3 - 1)) (\<lambda>p.
        if pix_neq p (PixelI (v * 255)) then Inr False else thin_match im i j (k + 1) vs)
      else thin_match im i j (k + 1) vs)"

text \<open>The pixels that are not on the border, in raster order.\<close>

definition interior :: "bi_image \<Rightarrow> (int \<times> int) list" where
  "interior im = concat (map (\<lambda>j. map (\<lambda>i. (i, j)) [1..width im - 2]) [1..height im - 2])"

text \<open>One mask: the matching pixels of the image are blackened in the copy.\<close>

definition thin_mask ::
  "bi_image \<Rightarrow> int list \<Rightarrow> bi_image \<times> int \<times> bool \<Rightarrow> (bi_image \<times> int \<times> bool) res" where
  "thin_mask im msk =
     foldM (\<lambda>(i, j) (temp, count, flag).
       rbind (Get im i j) (\<lambda>p.
         if pix_eq p (PixelI 0) then Inr (temp, count, flag)
         else rbind (thin_match im i j 0 msk) (\<lambda>hit.
           if hit then rbind (Put i j (PixelI 0) temp) (\<lambda>temp. Inr (temp, count + 1, True))
           else Inr (temp, count, flag)))) (interior im)"

type_synonym thin_state = "bi_image \<times> bi_image \<times> int \<times> bool"

definition thin_one :: "int list \<Rightarrow> thin_state \<Rightarrow> thin_state res" where
  "thin_one msk = (\<lambda>(im, temp, count, flag).
     rbind (thin_mask im msk (temp, count, flag)) (\<lambda>(temp, count, flag).
     rbind (assign im temp) (\<lambda>im. Inr (im, temp, count, flag))))"

definition thin_pass :: "thin_state \<Rightarrow> thin_state res" where
  "thin_pass = foldM thin_one thin_masks"

text \<open>The outer loop repeats while a pass has removed a pixel; the fuel bounds the passes.\<close>

fun thin_loop :: "nat \<Rightarrow> bi_image \<Rightarrow> bi_image \<Rightarrow> int \<Rightarrow> (int \<times> bi_image) res" where
  "thin_loop 0 im temp count = Inl Hang"
| "thin_loop (Suc n) im temp count =
     rbind (thin_pass (im, temp, count, False)) (\<lambda>(im, temp, count, flag).
       if flag then thin_loop n im temp count else Inr (count, im))"

definition Thinning :: "bi_image \<Rightarrow> (int \<times> bi_image) res" where
  "Thinning im =
     rbind (assign init im) (\<lambda>temp.
       thin_loop (Suc (nat (width im * height im))) im temp 0)"

subsection \<open>What Shrink and Expand compute\<close>

lemma filter_out:
  assumes wf: "wf_img im"
    and body: "\<And>x y t. inside im x y \<Longrightarrow> f x y t = Put x y (g x y) t"
  shows "\<exists>t. rbind (Create (width im) (height im)) (\<lambda>out. rbind (for_each im f out) (assign im)) = Inr t \<and>
    wf_img t \<and> width t = width im \<and> height t = height im \<and> clearColor t = Pixel0 \<and>
    (\<forall>x y. inside im x y \<longrightarrow> cell t (x, y) = g x y)"
proof -
  obtain s where s: "Create (width im) (height im) = Inr s" "wf_img s" "width s = width im"
    "height s = height im" "clearColor s = Pixel0"
    using Create_ok [of "width im" "height im"] wf by (auto simp: wf_img_def)
  have ins: "inside s x y = inside im x y" for x y
    using s by (simp add: inside_def)
  have "\<exists>t. for_each im f s = Inr t \<and> shape_of t = shape_of s \<and> wf_img t \<and>
    (\<forall>x y. inside s x y \<longrightarrow> cell t (x, y) = g x y)"
  proof (rule for_each_sweep [OF s(2)])
    fix x y t assume *: "inside s x y" "shape_of t = shape_of s" "wf_img t"
    have "inside t x y" using *(1) by (simp only: inside_shape [OF *(2)])
    with * show "f x y t = Inr (set_cell t (x, y) (g x y))"
      by (simp add: ins body Put_in)
  qed (simp_all add: s)
  then obtain t where t: "for_each im f s = Inr t" "shape_of t = shape_of s" "wf_img t"
    "\<forall>x y. inside s x y \<longrightarrow> cell t (x, y) = g x y"
    by blast
  obtain u where u: "assign im t = Inr u" "wf_img u" "width u = width t" "height u = height t"
    "clearColor u = clearColor t" "\<forall>x y. inside t x y \<longrightarrow> cell u (x, y) = cell t (x, y)"
    using assign_ok [OF wf t(3)] by blast
  show ?thesis
    using s t(1,2,4) u by (auto simp: shape_eq inside_def)
qed

text \<open>The neighbourhood the two filters look at: the square without its last corner.\<close>

definition near :: "int \<Rightarrow> int \<Rightarrow> int \<Rightarrow> int \<Rightarrow> bool" where
  "near i j x y \<longleftrightarrow> \<bar>x - i\<bar> \<le> 1 \<and> \<bar>y - j\<bar> \<le> 1 \<and> \<not> (x = i + 1 \<and> y = j + 1)"

lemma set_win: "(k, l) \<in> set (win r) \<longleftrightarrow> \<bar>k\<bar> \<le> r \<and> \<bar>l\<bar> \<le> r"
proof -
  have "(k, l) \<in> set (win r) \<longleftrightarrow> k \<in> {- r..r} \<and> l \<in> {- r..r}"
    unfolding win_def by (auto simp: image_iff)
  then show ?thesis by auto
qed

lemma count_win_near:
  assumes "wf_img im"
  shows "\<exists>n. count_win level im i j = Inr n \<and>
    (n \<noteq> 0 \<longleftrightarrow> (\<exists>x y. inside im x y \<and> near i j x y \<and> Lightness (shown im x y) = level))"
proof -
  let ?P = "\<lambda>(k, l). inside im (i + l) (j + k) \<and> (k \<noteq> 1 \<or> l \<noteq> 1) \<and>
    Lightness (shown im (i + l) (j + k)) = level"
  have "count_win level im i j = Inr (0 + int (length (filter ?P (win 1))))"
    unfolding count_win_def
  proof (rule foldM_count)
    fix x :: "int \<times> int" and n :: int
    obtain k l where x: "x = (k, l)" by force
    consider "\<not> inside im (i + l) (j + k)" | "inside im (i + l) (j + k)" by blast
    then show "(case x of (k, l) \<Rightarrow> \<lambda>cnt. if i + l < 0 \<or> j + k < 0 \<or> width im \<le> i + l \<or> height im \<le> j + k
        then Inr cnt else if k \<noteq> 1 \<or> l \<noteq> 1
        then rbind (Get im (i + l) (j + k)) (\<lambda>p. Inr (if Lightness p = level then cnt + 1 else cnt))
        else Inr cnt) n = Inr (if ?P x then n + 1 else n)"
    proof cases
      case 1
      then show ?thesis by (auto simp: x inside_def)
    next
      case 2
      then have "\<not> (i + l < 0 \<or> j + k < 0 \<or> width im \<le> i + l \<or> height im \<le> j + k)"
        by (auto simp: inside_def)
      with 2 show ?thesis
        by (simp only: x prod.case if_False Get_shown [OF assms 2] rbind_Inr) simp
    qed
  qed
  moreover have "(\<exists>k l. (k, l) \<in> set (win 1) \<and> ?P (k, l)) \<longleftrightarrow>
    (\<exists>x y. inside im x y \<and> near i j x y \<and> Lightness (shown im x y) = level)"
    (is "?L \<longleftrightarrow> ?R")
  proof
    assume ?L
    then obtain k l where "(k, l) \<in> set (win 1)" "?P (k, l)" by blast
    then show ?R
      by (intro exI [of _ "i + l"] exI [of _ "j + k"]) (auto simp: near_def set_win)
  next
    assume ?R
    then obtain x y where "inside im x y" "near i j x y" "Lightness (shown im x y) = level" by blast
    then show ?L
      by (intro exI [of _ "y - j"] exI [of _ "x - i"]) (auto simp: near_def set_win)
  qed
  ultimately show ?thesis
    by (auto simp: filter_empty_conv)
qed

text \<open>One filter: pixels of lightness \<open>keep\<close> stay, pixels near one of lightness \<open>level\<close> get it.\<close>

definition spread :: "byte \<Rightarrow> byte \<Rightarrow> bi_image \<Rightarrow> int \<Rightarrow> int \<Rightarrow> pixel" where
  "spread keep level im x y =
     (if Lightness (shown im x y) \<noteq> keep \<and>
         (\<exists>u v. inside im u v \<and> near x y u v \<and> Lightness (shown im u v) = level)
      then PixelL level else shown im x y)"

lemma PixelI_byte: "PixelI 0 = PixelL 0" "PixelI 255 = PixelL 255"
  by (simp_all add: PixelI_def)

lemma morph_ok:
  assumes wf: "wf_img im"
  shows "\<exists>t. rbind (Create (width im) (height im)) (\<lambda>out.
      rbind (for_each im (\<lambda>i j out. rbind (Get im i j) (\<lambda>p.
        if Lightness p = level then Put i j p out
        else rbind (count_win level im i j) (\<lambda>cnt.
          if cnt \<noteq> 0 then Put i j (PixelL level) out else Put i j p out))) out) (assign im)) = Inr t \<and>
    wf_img t \<and> width t = width im \<and> height t = height im \<and> clearColor t = Pixel0 \<and>
    (\<forall>x y. inside im x y \<longrightarrow> cell t (x, y) = spread level level im x y)"
proof (rule filter_out [OF wf])
  fix x y t assume ins: "inside im x y"
  obtain n where "count_win level im x y = Inr n"
    "n \<noteq> 0 \<longleftrightarrow> (\<exists>u v. inside im u v \<and> near x y u v \<and> Lightness (shown im u v) = level)"
    using count_win_near [OF wf] by blast
  then show "rbind (Get im x y) (\<lambda>p. if Lightness p = level then Put x y p t
      else rbind (count_win level im x y) (\<lambda>cnt.
        if cnt \<noteq> 0 then Put x y (PixelL level) t else Put x y p t)) =
    Put x y (spread level level im x y) t"
    using ins by (cases "n = 0") (auto simp: Get_shown [OF wf] spread_def)
qed

lemma Shrink_cells:
  "wf_img im \<Longrightarrow> \<exists>t. Shrink im = Inr t \<and> wf_img t \<and> width t = width im \<and> height t = height im \<and>
    clearColor t = Pixel0 \<and> (\<forall>x y. inside im x y \<longrightarrow> cell t (x, y) = spread 0 0 im x y)"
  unfolding Shrink_def PixelI_byte by (rule morph_ok)

lemma Expand_cells:
  "wf_img im \<Longrightarrow> \<exists>t. Expand im = Inr t \<and> wf_img t \<and> width t = width im \<and> height t = height im \<and>
    clearColor t = Pixel0 \<and> (\<forall>x y. inside im x y \<longrightarrow> cell t (x, y) = spread 255 255 im x y)"
  unfolding Expand_def PixelI_byte by (rule morph_ok)

lemma shown_clear0: "clearColor t = Pixel0 \<Longrightarrow> Lightness (shown t x y) = Lightness (cell t (x, y))"
  by (auto simp: shown_def view_def pix_eq_def Lightness_def initialize_def)

text \<open>
  C29: on black and white images the two filters are dual: shrinking an image and expanding
  its negative give negative results again.
\<close>

theorem Shrink_Expand_dual:
  assumes "wf_img im" and "wf_img neg" and "width neg = width im" and "height neg = height im"
    and "\<forall>x y. inside im x y \<longrightarrow> Lightness (shown im x y) \<in> {0, 255} \<and>
      Lightness (shown neg x y) = 255 - Lightness (shown im x y)"
  shows "\<exists>s e. Shrink im = Inr s \<and> Expand neg = Inr e \<and>
    (\<forall>x y. inside im x y \<longrightarrow> Lightness (shown s x y) \<in> {0, 255} \<and>
       Lightness (shown e x y) = 255 - Lightness (shown s x y))"
proof -
  obtain s where s: "Shrink im = Inr s" "clearColor s = Pixel0"
    "\<forall>x y. inside im x y \<longrightarrow> cell s (x, y) = spread 0 0 im x y"
    using Shrink_cells [OF assms(1)] by blast
  obtain e where e: "Expand neg = Inr e" "clearColor e = Pixel0"
    "\<forall>x y. inside neg x y \<longrightarrow> cell e (x, y) = spread 255 255 neg x y"
    using Expand_cells [OF assms(2)] by blast
  have ins: "inside neg x y = inside im x y" for x y
    using assms(3,4) by (simp add: inside_def)
  have flip: "Lightness (shown neg x y) = 255 \<longleftrightarrow> Lightness (shown im x y) = 0"
    if "inside im x y" for x y
    using that assms(5) by auto
  have near: "(\<exists>u v. inside neg u v \<and> near x y u v \<and> Lightness (shown neg u v) = 255) \<longleftrightarrow>
    (\<exists>u v. inside im u v \<and> near x y u v \<and> Lightness (shown im u v) = 0)" for x y
    using flip ins by auto
  have "Lightness (shown s x y) \<in> {0, 255} \<and> Lightness (shown e x y) = 255 - Lightness (shown s x y)"
    if "inside im x y" for x y
  proof -
    have "cell s (x, y) = spread 0 0 im x y" "cell e (x, y) = spread 255 255 neg x y"
      using that s(3) e(3) ins by simp_all
    moreover have "Lightness (shown im x y) \<in> {0, 255}"
      "Lightness (shown neg x y) = 255 - Lightness (shown im x y)"
      using that assms(5) by simp_all
    ultimately show ?thesis
      using s(2) e(2) near [of x y] flip [OF that]
      by (auto simp: shown_clear0 spread_def)
  qed
  with s(1) e(1) show ?thesis by blast
qed

theorem Shrink_Expand_dual_witness:
  "\<exists>s e. Shrink \<lparr>mimage = [PixelL 255, PixelL 0], clearColor = Pixel0, width = 2, height = 1\<rparr> = Inr s \<and>
     Expand \<lparr>mimage = [PixelL 0, PixelL 255], clearColor = Pixel0, width = 2, height = 1\<rparr> = Inr e \<and>
     Lightness (shown e 0 0) = 255 - Lightness (shown s 0 0)"
proof -
  let ?im = "\<lparr>mimage = [PixelL 255, PixelL 0], clearColor = Pixel0, width = 2, height = 1\<rparr>"
  let ?neg = "\<lparr>mimage = [PixelL 0, PixelL 255], clearColor = Pixel0, width = 2, height = 1\<rparr>"
  have cases: "x = 0 \<and> y = 0 \<or> x = 1 \<and> y = 0" if "inside ?im x y" for x y
    using that by (auto simp: inside_def)
  have "Lightness (shown ?im x y) \<in> {0, 255} \<and> Lightness (shown ?neg x y) = 255 - Lightness (shown ?im x y)"
    if "inside ?im x y" for x y
    using cases [OF that] by (elim disjE) (simp_all add: shown_def cell_def view_def pix_eq_Pixel0)
  then have "\<exists>s e. Shrink ?im = Inr s \<and> Expand ?neg = Inr e \<and>
    (\<forall>x y. inside ?im x y \<longrightarrow> Lightness (shown s x y) \<in> {0, 255} \<and>
       Lightness (shown e x y) = 255 - Lightness (shown s x y))"
    by (intro Shrink_Expand_dual) (simp_all add: wf_img_def int32_def)
  moreover have "inside ?im 0 0" by (simp add: inside_def)
  ultimately show ?thesis by blast
qed

text \<open>Opening is documented to remove white noise, but the corner both filters leave out is
  the same one, not the mirrored one, so it can also add white: here the black pixel of a
  white square is white afterwards.
\<close>

theorem Opening_adds_white:
  "\<exists>t. Opening 1 \<lparr>mimage = replicate 8 (PixelL 255) @ [PixelL 0],
      clearColor = Pixel0, width = 3, height = 3\<rparr> = Inr t \<and>
     Get t 2 2 = Inr (PixelL 255)"
  by (rule exI [of _ "\<lparr>mimage = replicate 9 (PixelL 255), clearColor = Pixel0, width = 3, height = 3\<rparr>"])
    code_simp

subsection \<open>Thinning ends\<close>

text \<open>Two images of the same size and transparent colour with the same cells.\<close>

definition same_img :: "bi_image \<Rightarrow> bi_image \<Rightarrow> bool" where
  "same_img im t \<longleftrightarrow> width t = width im \<and> height t = height im \<and> clearColor t = clearColor im \<and>
     (\<forall>x y. inside im x y \<longrightarrow> cell t (x, y) = cell im (x, y))"

lemma same_img_inside: "same_img im t \<Longrightarrow> inside t x y = inside im x y"
  by (simp add: same_img_def inside_def)

lemma same_img_shown: "same_img im t \<Longrightarrow> inside im x y \<Longrightarrow> shown t x y = shown im x y"
  by (simp add: same_img_def shown_def)

definition is_white :: "pixel \<Rightarrow> bool" where
  "is_white p \<longleftrightarrow> pix_eq p (PixelL 255)"

definition whites :: "bi_image \<Rightarrow> (int \<times> int) set" where
  "whites im = {(x, y). inside im x y \<and> is_white (cell im (x, y))}"

lemma finite_whites [simp]: "finite (whites im)"
proof (rule finite_subset)
  show "whites im \<subseteq> {0..<width im} \<times> {0..<height im}"
    by (auto simp: whites_def inside_def)
qed simp

lemma whites_le: "wf_img im \<Longrightarrow> card (whites im) \<le> nat (width im * height im)"
proof -
  assume "wf_img im"
  moreover have "card (whites im) \<le> card ({0..<width im} \<times> {0..<height im})"
    by (rule card_mono) (auto simp: whites_def inside_def)
  ultimately show ?thesis
    by (simp add: card_cartesian_product nat_mult_distrib wf_img_def)
qed

lemma set_interior: "(i, j) \<in> set (interior im) \<longleftrightarrow> 1 \<le> i \<and> i \<le> width im - 2 \<and> 1 \<le> j \<and> j \<le> height im - 2"
  by (auto simp: interior_def image_iff)

lemma distinct_interior: "distinct (interior im)"
  by (simp add: interior_def distinct_rows)

lemma interior_inside: "(i, j) \<in> set (interior im) \<Longrightarrow> inside im i j"
  by (simp add: set_interior inside_def)

lemma thin_match_total:
  assumes "wf_img im" and "(i, j) \<in> set (interior im)" and "0 \<le> k" and "k + int (length vs) \<le> 9"
  shows "\<exists>b. thin_match im i j k vs = Inr b"
  using assms(3,4)
proof (induction vs arbitrary: k)
  case (Cons v vs)
  have "0 \<le> k mod 3" "k mod 3 \<le> 2" "0 \<le> k div 3" "k div 3 \<le> 2"
    using Cons.prems by simp_all
  then have "inside im (i + k mod 3 - 1) (j + k div 3 - 1)"
    using assms(2) by (auto simp: set_interior inside_def)
  moreover obtain b where "thin_match im i j (k + 1) vs = Inr b"
    using Cons.IH [of "k + 1"] Cons.prems by auto
  ultimately show ?case
    by (simp add: Get_shown [OF assms(1)] ex_bool_eq)
qed auto

text \<open>The centre of every mask asks for white.\<close>

lemma thin_match_white:
  assumes "wf_img im" and "inside im i j" and "msk \<in> set thin_masks"
    and "thin_match im i j 0 msk = Inr True"
  shows "is_white (cell im (i, j))"
proof -
  have len: "length msk = 9" and mid: "msk ! 4 = 1"
    using assms(3) by (auto simp: thin_masks_def)
  have suffix: "thin_match im i j (int n) (drop n msk) = Inr True" if "n \<le> 4" for n
    using that
  proof (induction n)
    case 0
    then show ?case using assms(4) by simp
  next
    case (Suc n)
    then have "thin_match im i j (int n) (msk ! n # drop (Suc n) msk) = Inr True"
      using len by (simp add: Cons_nth_drop_Suc)
    then show ?case
      by (auto simp: rbind_eq_Inr algebra_simps split: if_splits)
  qed
  have "thin_match im i j 4 (1 # drop 5 msk) = Inr True"
    using suffix [of 4] len mid by (simp add: Cons_nth_drop_Suc [of 4, symmetric])
  then have "pix_eq (shown im i j) (PixelL 255)"
    using Get_shown [OF assms(1,2)] by (auto simp: PixelI_byte pix_neq_def split: if_splits)
  then show ?thesis
    by (auto simp: shown_def view_def is_white_def pix_eq_Pixel0 split: if_splits)
qed

definition hits :: "bi_image \<Rightarrow> int list \<Rightarrow> (int \<times> int) set" where
  "hits im msk = {(i, j). (i, j) \<in> set (interior im) \<and> thin_match im i j 0 msk = Inr True}"

lemma hits_whites:
  "wf_img im \<Longrightarrow> msk \<in> set thin_masks \<Longrightarrow> hits im msk \<subseteq> whites im"
  by (auto simp: hits_def whites_def interior_inside intro: thin_match_white)

lemma thin_blacken:
  assumes "wf_img im" "msk \<in> set thin_masks" "(i, j) \<in> set (interior im)" "thin_match im i j 0 msk = Inr True"
    and "wf_img temp" "width temp = width im" "height temp = height im"
  defines "t \<equiv> set_cell temp (i, j) (PixelL 0)"
  shows "\<not> pix_eq (shown im i j) (PixelI 0)" "Put i j (PixelI 0) temp = Inr t" "shape_of t = shape_of temp" "wf_img t"
    and "\<And>u v. inside im u v \<Longrightarrow> cell t (u, v) = (if (i, j) = (u, v) then PixelL 0 else cell temp (u, v))"
proof -
  note ins = interior_inside [OF assms(3)]
  have "is_white (cell im (i, j))" using thin_match_white [OF assms(1) ins assms(2)] assms(4) by simp
  then show "\<not> pix_eq (shown im i j) (PixelI 0)"
    by (auto simp: is_white_def shown_def view_def pix_eq_def PixelI_byte initialize_def)
  have tin: "inside temp i j" using ins assms(6,7) by (simp add: inside_def)
  show "Put i j (PixelI 0) temp = Inr t" using assms(5) tin by (simp add: t_def Put_in PixelI_byte)
  show sh: "shape_of t = shape_of temp" unfolding t_def by (rule bi.shape_wr)
  show "wf_img t" by (rule wf_shape [OF sh assms(5)])
  show "cell t (u, v) = (if (i, j) = (u, v) then PixelL 0 else cell temp (u, v))" if "inside im u v" for u v
    unfolding t_def
  proof (rule bi.rd_wr)
    have "inside temp u v" using that assms(6,7) by (simp add: inside_def)
    then show "ok_shape (shape_of temp) (u, v)" "ok_shape (shape_of temp) (i, j)"
      using tin assms(5) by (simp_all add: ok_shape_inside)
  qed
qed

lemma thin_mask_list:
  assumes "wf_img im" and "msk \<in> set thin_masks" and "set xs \<subseteq> set (interior im)"
    and "wf_img temp" and "shape_of temp = sh" and "width temp = width im" and "height temp = height im"
  shows "\<exists>t. foldM (\<lambda>(i, j) (temp, count, flag).
       rbind (Get im i j) (\<lambda>p.
         if pix_eq p (PixelI 0) then Inr (temp, count, flag)
         else rbind (thin_match im i j 0 msk) (\<lambda>hit.
           if hit then rbind (Put i j (PixelI 0) temp) (\<lambda>temp. Inr (temp, count + 1, True))
           else Inr (temp, count, flag)))) xs (temp, count, flag) =
      Inr (t, count + int (length (filter (\<lambda>x. x \<in> hits im msk) xs)),
        flag \<or> (\<exists>x \<in> set xs. x \<in> hits im msk)) \<and>
    wf_img t \<and> shape_of t = sh \<and>
    (\<forall>x y. inside im x y \<longrightarrow> cell t (x, y) =
       (if (x, y) \<in> hits im msk \<and> (x, y) \<in> set xs then PixelL 0 else cell temp (x, y)))"
  using assms(3-7)
proof (induction xs arbitrary: temp count flag)
  case Nil
  then show ?case by simp
next
  case (Cons x xs)
  obtain i j where x: "x = (i, j)" by force
  have int: "(i, j) \<in> set (interior im)" using Cons.prems(1) x by simp
  note ins = interior_inside [OF int]
  have len: "length msk = 9" using assms(2) by (auto simp: thin_masks_def)
  obtain b where b: "thin_match im i j 0 msk = Inr b"
    using thin_match_total [OF assms(1) int, of 0 msk] len by auto
  have hit: "(i, j) \<in> hits im msk \<longleftrightarrow> b" using int b by (simp add: hits_def)
  show ?case
  proof (cases b)
    case False
    then show ?thesis
      using Cons.IH [of temp count flag] Cons.prems b hit
      by (auto simp: x Get_shown [OF assms(1) ins])
  next
    case True
    let ?t = "set_cell temp (i, j) (PixelL 0)"
    note bl = thin_blacken [OF assms(1,2) int b [unfolded eqTrueI [OF True]] Cons.prems(2,4,5)]
    note nz = bl(1) and put = bl(2) and sh = bl(3) and wft = bl(4) and cellt = bl(5)
    obtain t where t: "foldM (\<lambda>(i, j) (temp, count, flag).
       rbind (Get im i j) (\<lambda>p.
         if pix_eq p (PixelI 0) then Inr (temp, count, flag)
         else rbind (thin_match im i j 0 msk) (\<lambda>hit.
           if hit then rbind (Put i j (PixelI 0) temp) (\<lambda>temp. Inr (temp, count + 1, True))
           else Inr (temp, count, flag)))) xs (?t, count + 1, True) =
      Inr (t, count + 1 + int (length (filter (\<lambda>x. x \<in> hits im msk) xs)), True)"
      "wf_img t" "shape_of t = sh"
      "\<forall>x y. inside im x y \<longrightarrow> cell t (x, y) =
       (if (x, y) \<in> hits im msk \<and> (x, y) \<in> set xs then PixelL 0 else cell ?t (x, y))"
      using Cons.IH [of ?t "count + 1" True] Cons.prems wft sh by (auto simp: shape_eq)
    have "cell t (u, v) = (if (u, v) \<in> hits im msk \<and> (u, v) \<in> set (x # xs)
        then PixelL 0 else cell temp (u, v))" if "inside im u v" for u v
      using t(4) cellt [OF that] that hit True by (auto simp: x)
    with t(1-3) show ?thesis
      using b True put nz hit by (simp add: x Get_shown [OF assms(1) ins])
  qed
qed

lemma thin_mask_ok:
  assumes "wf_img im" and "msk \<in> set thin_masks" and "wf_img temp" and "same_img im temp"
  shows "\<exists>t. thin_mask im msk (temp, count, flag) =
      Inr (t, count + int (card (hits im msk)), flag \<or> hits im msk \<noteq> {}) \<and>
    wf_img t \<and> width t = width im \<and> height t = height im \<and> clearColor t = clearColor im \<and>
    (\<forall>x y. inside im x y \<longrightarrow> cell t (x, y) =
       (if (x, y) \<in> hits im msk then PixelL 0 else cell im (x, y)))"
proof -
  have sub: "hits im msk \<subseteq> set (interior im)" by (auto simp: hits_def)
  have "set (filter (\<lambda>x. x \<in> hits im msk) (interior im)) = hits im msk"
    using sub by auto
  then have n: "length (filter (\<lambda>x. x \<in> hits im msk) (interior im)) = card (hits im msk)"
    by (metis distinct_card distinct_filter distinct_interior)
  have ex: "(\<exists>x \<in> set (interior im). x \<in> hits im msk) \<longleftrightarrow> hits im msk \<noteq> {}"
    using sub by blast
  show ?thesis
    using thin_mask_list [OF assms(1,2) order_refl assms(3) refl, of count flag] assms(4) sub
    unfolding thin_mask_def n ex
    by (auto simp: same_img_def shape_eq)
qed

lemma whites_thinned:
  assumes "wf_img im" and "msk \<in> set thin_masks"
    and "width t = width im" "height t = height im"
    and "\<forall>x y. inside im x y \<longrightarrow> cell t (x, y) = (if (x, y) \<in> hits im msk then PixelL 0 else cell im (x, y))"
  shows "whites t = whites im - hits im msk"
proof -
  have "\<not> is_white (PixelL 0)" by (simp add: is_white_def pix_eq_def)
  then have "is_white (cell t (x, y)) \<longleftrightarrow> is_white (cell im (x, y)) \<and> (x, y) \<notin> hits im msk"
    if "inside im x y" for x y
    using assms(5) that by simp
  moreover have "inside t x y = inside im x y" for x y
    using assms(3,4) by (simp add: inside_def)
  ultimately show ?thesis by (auto simp: whites_def)
qed

lemma card_whites_thinned:
  assumes "wf_img im" and "msk \<in> set thin_masks"
    and "width t = width im" "height t = height im"
    and "\<forall>x y. inside im x y \<longrightarrow> cell t (x, y) = (if (x, y) \<in> hits im msk then PixelL 0 else cell im (x, y))"
  shows "int (card (whites t)) + int (card (hits im msk)) = int (card (whites im))"
proof -
  have "whites im = whites t \<union> hits im msk" "whites t \<inter> hits im msk = {}"
    using whites_thinned [OF assms] hits_whites [OF assms(1,2)] by auto
  then have "card (whites im) = card (whites t) + card (hits im msk)"
    by (metis card_Un_disjoint finite_Un finite_whites)
  then show ?thesis by simp
qed

text \<open>The masks only look at what the image shows.\<close>

lemma thin_match_same:
  assumes "wf_img im" "wf_img t" "same_img im t" "(i, j) \<in> set (interior im)"
    and "0 \<le> k" "k + int (length vs) \<le> 9"
  shows "thin_match t i j k vs = thin_match im i j k vs"
  using assms(5,6)
proof (induction vs arbitrary: k)
  case (Cons v vs)
  have "0 \<le> k mod 3" "k mod 3 \<le> 2" "0 \<le> k div 3" "k div 3 \<le> 2"
    using Cons.prems by simp_all
  then have "inside im (i + k mod 3 - 1) (j + k div 3 - 1)"
    using assms(4) by (auto simp: set_interior inside_def)
  then have "Get t (i + k mod 3 - 1) (j + k div 3 - 1) = Get im (i + k mod 3 - 1) (j + k div 3 - 1)"
    using assms(1-3) by (simp add: Get_shown same_img_inside same_img_shown)
  moreover have "thin_match t i j (k + 1) vs = thin_match im i j (k + 1) vs"
    using Cons.IH [of "k + 1"] Cons.prems by simp
  ultimately show ?case by (simp only: thin_match.simps)
qed simp

lemma hits_same:
  assumes "wf_img im" "wf_img t" "same_img im t" "msk \<in> set thin_masks"
  shows "hits t msk = hits im msk"
proof -
  have "length msk = 9" using assms(4) by (auto simp: thin_masks_def)
  then have "thin_match t i j 0 msk = thin_match im i j 0 msk" if "(i, j) \<in> set (interior im)" for i j
    using thin_match_same [OF assms(1-3) that, of 0 msk] by simp
  moreover have "interior t = interior im"
    using assms(3) by (simp add: interior_def same_img_def)
  ultimately show ?thesis by (auto simp: hits_def)
qed

text \<open>
  The state between two masks, against the image the pass began with: the image and the copy
  agree, cells only went from white to black, the count has grown by the cells that did, and
  the flag tells whether there were any; if there were none, the masks used so far match
  nowhere.
\<close>

definition thin_inv ::
  "bi_image \<Rightarrow> int \<Rightarrow> int list list \<Rightarrow> bi_image \<times> bi_image \<times> int \<times> bool \<Rightarrow> bool" where
  "thin_inv im0 c0 used = (\<lambda>(im, temp, count, flag).
     wf_img im \<and> wf_img temp \<and> same_img im temp \<and>
     width im = width im0 \<and> height im = height im0 \<and> clearColor im = clearColor im0 \<and>
     (\<forall>x y. inside im0 x y \<longrightarrow> cell im (x, y) = cell im0 (x, y) \<or>
        is_white (cell im0 (x, y)) \<and> cell im (x, y) = PixelL 0) \<and>
     count + int (card (whites im)) = c0 + int (card (whites im0)) \<and>
     (flag \<longrightarrow> c0 < count) \<and>
     (\<not> flag \<longrightarrow> same_img im0 im \<and> (\<forall>msk \<in> set used. hits im0 msk = {})))"

lemma not_white_0 [simp]: "\<not> is_white (PixelL 0)"
  by (simp add: is_white_def pix_eq_def)

lemma thin_only_blackens:
  assumes "wf_img im" "msk \<in> set thin_masks" "inside im x y"
    and "\<And>x y. inside im x y \<Longrightarrow> cell u (x, y) = (if (x, y) \<in> hits im msk then PixelL 0 else cell im (x, y))"
    and "cell im (x, y) = c \<or> is_white c \<and> cell im (x, y) = PixelL 0"
  shows "cell u (x, y) = c \<or> is_white c \<and> cell u (x, y) = PixelL 0"
proof (cases "(x, y) \<in> hits im msk")
  case True
  then have "is_white (cell im (x, y))"
    using hits_whites [OF assms(1,2)] by (auto simp: whites_def)
  then show ?thesis using True assms(3-5) by auto
qed (use assms(3-5) in auto)

lemma thin_step:
  assumes "wf_img im0" and "thin_inv im0 c0 used s" and "msk \<in> set thin_masks" and "c0 \<le> fst (snd (snd s))"
  shows "\<exists>s'. thin_one msk s = Inr s' \<and> thin_inv im0 c0 (used @ [msk]) s' \<and> c0 \<le> fst (snd (snd s'))"
proof -
  obtain im temp count flag where s: "s = (im, temp, count, flag)" by (cases s)
  note inv = assms(2) [unfolded s thin_inv_def prod.case]
  have wf: "wf_img im" "wf_img temp" and sm: "same_img im temp" using inv by auto
  obtain t where t: "thin_mask im msk (temp, count, flag) =
      Inr (t, count + int (card (hits im msk)), flag \<or> hits im msk \<noteq> {})" "wf_img t"
    "width t = width im" "height t = height im" "clearColor t = clearColor im"
    "\<forall>x y. inside im x y \<longrightarrow> cell t (x, y) = (if (x, y) \<in> hits im msk then PixelL 0 else cell im (x, y))"
    using thin_mask_ok [OF wf(1) assms(3) wf(2) sm] by blast
  obtain u where u: "assign im t = Inr u" "wf_img u" "width u = width t" "height u = height t"
    "clearColor u = clearColor t" "\<forall>x y. inside t x y \<longrightarrow> cell u (x, y) = cell t (x, y)"
    using assign_ok [OF wf(1) t(2)] by blast
  let ?n = "int (card (hits im msk))" and ?f = "flag \<or> hits im msk \<noteq> {}"
  have cu: "cell u (x, y) = (if (x, y) \<in> hits im msk then PixelL 0 else cell im (x, y))"
    if "inside im x y" for x y
    using that t u by (simp add: inside_def)
  have du: "width u = width im" "height u = height im" "clearColor u = clearColor im"
    using t u by simp_all
  have ut: "same_img u t" using t u by (simp add: same_img_def inside_def)
  have cnt: "int (card (whites u)) + ?n = int (card (whites im))"
    using cu by (intro card_whites_thinned [OF wf(1) assms(3) du(1,2)]) simp
  have fin: "finite (hits im msk)"
    by (rule finite_subset [OF hits_whites [OF wf(1) assms(3)]]) simp
  have ins: "inside im0 x y = inside im x y" for x y
    using inv by (simp add: inside_def)
  have old: "cell u (x, y) = cell im0 (x, y) \<or> is_white (cell im0 (x, y)) \<and> cell u (x, y) = PixelL 0"
    if "inside im0 x y" for x y
    by (rule thin_only_blackens [OF wf(1) assms(3) _ cu]) (use inv that in \<open>auto simp: ins\<close>)
  have pos: "0 < ?n" if "hits im msk \<noteq> {}"
    using that fin by (simp add: card_gt_0_iff)
  have grow: "c0 < count + ?n" if ?f
  proof (cases flag)
    case True
    then show ?thesis using inv by simp
  next
    case False
    then show ?thesis using that pos assms(4) s by simp
  qed
  have keep: "same_img im0 u \<and> (\<forall>m \<in> set (used @ [msk]). hits im0 m = {})" if "\<not> ?f"
  proof -
    have sm0: "same_img im0 im" using inv that by simp
    then have "same_img im0 u"
      using that cu du inv by (simp add: same_img_def ins)
    moreover have "hits im0 msk = {}"
      using hits_same [OF assms(1) wf(1) sm0 assms(3)] that by simp
    ultimately show ?thesis using inv that by auto
  qed
  have "thin_inv im0 c0 (used @ [msk]) (u, t, count + ?n, ?f)"
    unfolding thin_inv_def prod.case
    using inv u(2) t(2) ut du old cnt grow keep by (auto simp del: set_append)
  with t(1) u(1) assms(4) s show ?thesis by (auto simp: thin_one_def)
qed

lemma thin_pass_ok:
  assumes "wf_img im" and "wf_img temp" and "same_img im temp"
  shows "\<exists>s'. thin_pass (im, temp, count, False) = Inr s' \<and> thin_inv im count thin_masks s'"
proof -
  have "\<exists>s'. foldM thin_one ms s = Inr s' \<and> thin_inv im count (used @ ms) s'"
    if "set ms \<subseteq> set thin_masks" "thin_inv im count used s" "count \<le> fst (snd (snd s))" for ms used s
    using that
  proof (induction ms arbitrary: used s)
    case (Cons m ms)
    then have m: "m \<in> set thin_masks" by simp
    obtain s1 where s1: "thin_one m s = Inr s1" "thin_inv im count (used @ [m]) s1"
      "count \<le> fst (snd (snd s1))"
      using thin_step [OF assms(1) Cons.prems(2) m Cons.prems(3)] by blast
    then show ?case
      using Cons.IH [OF _ s1(2,3)] Cons.prems(1) by simp
  qed simp
  moreover have "thin_inv im count [] (im, temp, count, False)"
    using assms by (simp add: thin_inv_def same_img_def)
  ultimately show ?thesis
    unfolding thin_pass_def by (metis append_Nil fst_conv order_refl snd_conv)
qed

lemma thin_loop_ok:
  assumes "wf_img im" and "wf_img temp" and "same_img im temp" and "card (whites im) < n"
  shows "\<exists>c t. thin_loop n im temp count = Inr (c, t) \<and> wf_img t \<and>
    width t = width im \<and> height t = height im \<and> clearColor t = clearColor im \<and>
    c + int (card (whites t)) = count + int (card (whites im)) \<and>
    (\<forall>x y. inside im x y \<longrightarrow> cell t (x, y) = cell im (x, y) \<or>
       is_white (cell im (x, y)) \<and> cell t (x, y) = PixelL 0) \<and>
    (\<forall>msk \<in> set thin_masks. hits t msk = {})"
  using assms
proof (induction n arbitrary: im temp count)
  case (Suc n)
  obtain im1 temp1 c1 f where s: "thin_pass (im, temp, count, False) = Inr (im1, temp1, c1, f)"
    "thin_inv im count thin_masks (im1, temp1, c1, f)"
    using thin_pass_ok [OF Suc.prems(1-3), of count] by (metis prod_cases4)
  note inv = s(2) [unfolded thin_inv_def prod.case]
  have ins: "inside im1 x y = inside im x y" for x y
    using inv by (simp add: inside_def)
  show ?case
  proof (cases f)
    case True
    have "card (whites im1) < n"
      using inv True Suc.prems(4) by linarith
    then obtain c t where ct: "thin_loop n im1 temp1 c1 = Inr (c, t)" "wf_img t"
      "width t = width im1" "height t = height im1" "clearColor t = clearColor im1"
      "c + int (card (whites t)) = c1 + int (card (whites im1))"
      "\<forall>x y. inside im1 x y \<longrightarrow> cell t (x, y) = cell im1 (x, y) \<or>
         is_white (cell im1 (x, y)) \<and> cell t (x, y) = PixelL 0"
      "\<forall>msk \<in> set thin_masks. hits t msk = {}"
      using Suc.IH [of im1 temp1 c1] inv by auto
    have "cell t (x, y) = cell im (x, y) \<or> is_white (cell im (x, y)) \<and> cell t (x, y) = PixelL 0"
      if "inside im x y" for x y
      using ct(7) inv that ins by metis
    with ct s(1) True inv show ?thesis by auto
  next
    case False
    have "hits im1 msk = {}" if "msk \<in> set thin_masks" for msk
      using inv False hits_same [OF Suc.prems(1) _ _ that, of im1] that by auto
    with False s(1) inv show ?thesis by auto
  qed
qed simp

lemma Thinning_ok:
  assumes "wf_img im"
  shows "\<exists>n t. Thinning im = Inr (n, t) \<and> wf_img t \<and> width t = width im \<and> height t = height im \<and>
    n = int (card (whites im)) - int (card (whites t)) \<and>
    (\<forall>x y. inside im x y \<longrightarrow> cell t (x, y) = cell im (x, y) \<or>
       is_white (cell im (x, y)) \<and> cell t (x, y) = PixelL 0) \<and>
    (\<forall>i j. \<forall>msk \<in> set thin_masks. (i, j) \<in> set (interior t) \<longrightarrow>
       thin_match t i j 0 msk \<noteq> Inr True)"
proof -
  obtain temp where temp: "assign init im = Inr temp" "wf_img temp" "same_img im temp"
    using assign_ok [OF wf_init assms] by (auto simp: same_img_def)
  have "card (whites im) < Suc (nat (width im * height im))"
    using whites_le [OF assms] by simp
  from thin_loop_ok [OF assms temp(2,3) this, of 0] temp(1) show ?thesis
    by (fastforce simp: Thinning_def hits_def)
qed

text \<open>
  C7: thinning always ends: every pass but the last blackens at least one white pixel, so the
  passes are at most one more than the pixels. The result is the number of pixels blackened;
  only white pixels changed, to black; and none of the eight masks matches the result.
\<close>

theorem Thinning_ends:
  assumes "wf_img im"
  shows "\<exists>n t. Thinning im = Inr (n, t) \<and> wf_img t \<and> width t = width im \<and> height t = height im \<and>
    n = int (card (whites im)) - int (card (whites t)) \<and>
    (\<forall>x y. inside im x y \<longrightarrow> cell t (x, y) = cell im (x, y) \<or>
       is_white (cell im (x, y)) \<and> cell t (x, y) = PixelL 0) \<and>
    (\<forall>i j. \<forall>msk \<in> set thin_masks. (i, j) \<in> set (interior t) \<longrightarrow>
       thin_match t i j 0 msk \<noteq> Inr True)"
  using assms by (rule Thinning_ok)

theorem Thinning_ends_witness:
  "\<exists>n t. Thinning sample_img = Inr (n, t) \<and> width t = 2"
  using Thinning_ends [OF wf_sample_img] by auto

end
