(* ===== verification/PixelColor.thy ===== *)
theory PixelColor
  imports Pixel
begin

text \<open>
  The colour spaces of \<open>image_util/PixelClass.h\<close>: YIQ and HSV of a pixel, in the double and
  float arithmetic of the source.
\<close>

definition mixed :: "rat \<Rightarrow> rat \<Rightarrow> rat \<Rightarrow> pixel \<Rightarrow> cfloat" where
  "mixed a b c p =
     fp_add F64 (fp_add F64 (fp_mul F64 (fp_of_int F64 (uint (red p))) (lit a))
                            (fp_mul F64 (fp_of_int F64 (uint (green p))) (lit b)))
                (fp_mul F64 (fp_of_int F64 (uint (blue p))) (lit c))"

definition mixed_minus :: "rat \<Rightarrow> rat \<Rightarrow> rat \<Rightarrow> pixel \<Rightarrow> cfloat" where
  "mixed_minus a b c p =
     fp_sub F64 (fp_sub F64 (fp_mul F64 (fp_of_int F64 (uint (red p))) (lit a))
                            (fp_mul F64 (fp_of_int F64 (uint (green p))) (lit b)))
                (fp_mul F64 (fp_of_int F64 (uint (blue p))) (lit c))"

text \<open>\<open>Y\<close> is an unsigned char, \<open>I\<close> and \<open>Q\<close> are signed chars.\<close>

definition Pixel_Y :: "pixel \<Rightarrow> byte" where
  "Pixel_Y p = fp_to_byte (mixed (299 / 1000) (587 / 1000) (114 / 1000) p)"

definition Pixel_I :: "pixel \<Rightarrow> int" where
  "Pixel_I p = fp_to_schar (mixed_minus (596 / 1000) (274 / 1000) (322 / 1000) p)"

definition Pixel_Q :: "pixel \<Rightarrow> int" where
  "Pixel_Q p = fp_to_schar (mixed_minus (211 / 1000) (522 / 1000) (311 / 1000) p)"

text \<open>The running maximum and minimum over the three channels.\<close>

definition max_channel :: "pixel \<Rightarrow> int" where
  "max_channel p = foldl (\<lambda>m c. if m < c then c else m) 0 [uint (red p), uint (green p), uint (blue p)]"

definition min_channel :: "pixel \<Rightarrow> int" where
  "min_channel p = foldl (\<lambda>m c. if c < m then c else m) 255 [uint (red p), uint (green p), uint (blue p)]"

text \<open>One sector of the hue, in float arithmetic, stored in a double.\<close>

definition hue_sector :: "int \<Rightarrow> int \<Rightarrow> int \<Rightarrow> cfloat" where
  "hue_sector diff den offset =
     fp_conv F64 (fp_mul F32 (fp_of_int F32 60)
       (fp_add F32 (fp_div F32 (fp_of_int F32 diff) (fp_of_int F32 den)) (fp_of_int F32 offset)))"

definition Pixel_H :: "pixel \<Rightarrow> int" where
  "Pixel_H p =
     (let r = uint (red p); g = uint (green p); b = uint (blue p);
          mx = max_channel p; mn = min_channel p;
          h = fp_of_int F64 0;
          h = (if mx = r then hue_sector (g - b) (mx - mn) 0 else h);
          h = (if mx = g then hue_sector (b - r) (mx - mn) 2 else h);
          h = (if mx = b then hue_sector (r - g) (mx - mn) 4 else h);
          h = (if mx = 0 then fp_of_int F64 0 else h);
          h = (if fp_lt h (fp_of_int F64 0) then fp_add F64 h (fp_of_int F64 360) else h)
      in fp_to_int h)"

definition unit_channel :: "byte \<Rightarrow> cfloat" where
  "unit_channel c = fp_div F64 (fp_of_int F64 (uint c)) (fp_of_int F64 255)"

definition max_unit :: "pixel \<Rightarrow> cfloat" where
  "max_unit p = foldl (\<lambda>m c. if fp_lt m (unit_channel c) then unit_channel c else m) (Fin 0)
     [red p, green p, blue p]"

definition min_unit :: "pixel \<Rightarrow> cfloat" where
  "min_unit p = foldl (\<lambda>m c. if fp_lt (unit_channel c) m then unit_channel c else m) (Fin 1)
     [red p, green p, blue p]"

definition Pixel_S :: "pixel \<Rightarrow> byte" where
  "Pixel_S p = (let mx = max_unit p; mn = min_unit p;
              s = fp_to_byte (fp_mul F64 (fp_div F64 (fp_sub F64 mx mn) mx) (fp_of_int F64 100))
          in if fp_eq mx (Fin 0) then 0 else s)"

definition Pixel_V :: "pixel \<Rightarrow> byte" where
  "Pixel_V p = fp_to_byte (fp_mul F64 (max_unit p) (fp_of_int F64 100))"

subsection \<open>The extremes of the channels\<close>

lemma max_channel_eq: "max_channel p = max (uint (red p)) (max (uint (green p)) (uint (blue p)))"
proof -
  have "foldl (\<lambda>m c. if m < c then c else m) 0 [a, b, c] = max a (max b c)"
    if "0 \<le> a" "0 \<le> b" "0 \<le> c" for a b c :: int
    using that by (simp add: max_def)
  then show ?thesis by (simp add: max_channel_def)
qed

lemma min_channel_eq: "min_channel p = min (uint (red p)) (min (uint (green p)) (uint (blue p)))"
proof -
  have "foldl (\<lambda>m c. if c < m then c else m) 255 [a, b, c] = min a (min b c)"
    if "a \<le> 255" "b \<le> 255" "c \<le> 255" for a b c :: int
    using that by (simp add: min_def)
  then show ?thesis by (simp add: min_channel_def)
qed

lemma fp_of_int_0 [simp]: "fp_of_int F 0 = Fin 0"
  by (simp add: fp_of_int_def fp_round_def rnd_q_0)

text \<open>The hue of a gray pixel is the division of zero by zero, unless the pixel is black:
  the result is not an angle but the least int, so no range of hues contains it.
\<close>

theorem hue_of_gray:
  assumes "red p = g" and "green p = g" and "blue p = g"
  shows "Pixel_H p = (if g = 0 then 0 else - (2 ^ 31))"
proof -
  have "hue_sector 0 0 k = NaN" for k
    by (cases "fp_of_int F32 60") (simp_all add: hue_sector_def)
  then show ?thesis
    using assms by (simp add: Pixel_H_def max_channel_eq min_channel_eq Let_def word_uint_eq_iff int32_def)
qed

theorem hue_of_gray_witness: "Pixel_H (PixelL 128) = - (2 ^ 31)"
  using hue_of_gray [of "PixelL 128" 128] by simp

end
