(* ===== verification/Geometry.thy ===== *)
theory Geometry
  imports BiImage
begin

text \<open>
  \<open>base/PointClass\<close>, \<open>base/AreaClass\<close>, \<open>gui/LineClass\<close> and \<open>gui/SquareClass\<close>: points and
  rectangles of ints, the line drawn into an image, and the four lines of a quadrangle. All
  coordinates are 32-bit ints (\<open>LONG\<close> for the \<open>POINT\<close> of a line).
\<close>

subsection \<open>Points\<close>

record point =
  px :: int
  py :: int

definition Pos :: "int \<Rightarrow> int \<Rightarrow> point" where
  "Pos x y = \<lparr>px = x, py = y\<rparr>"

definition Point0 :: point where
  "Point0 = Pos 0 0"

definition pt_add :: "point \<Rightarrow> point \<Rightarrow> point" where
  "pt_add p q = Pos (s32 (px p + px q)) (s32 (py p + py q))"

definition pt_sub :: "point \<Rightarrow> point \<Rightarrow> point" where
  "pt_sub p q = Pos (s32 (px p - px q)) (s32 (py p - py q))"

definition pt_mul :: "point \<Rightarrow> point \<Rightarrow> point" where
  "pt_mul p q = Pos (s32 (px p * px q)) (s32 (py p * py q))"

definition pt_div :: "point \<Rightarrow> point \<Rightarrow> point res" where
  "pt_div p q = rbind (cdiv (px p) (px q)) (\<lambda>x. rbind (cdiv (py p) (py q)) (\<lambda>y. Inr (Pos x y)))"

text \<open>\<open>operator=(int)\<close> sets a copy: the pair is the receiver afterwards and the value returned.\<close>

definition pt_assign_int :: "int \<Rightarrow> point \<Rightarrow> point \<times> point" where
  "pt_assign_int v p = (p, Pos v v)"

definition pt_addi :: "point \<Rightarrow> int \<Rightarrow> point" where
  "pt_addi p v = Pos (s32 (px p + v)) (s32 (py p + v))"

definition pt_subi :: "point \<Rightarrow> int \<Rightarrow> point" where
  "pt_subi p v = Pos (s32 (px p - v)) (s32 (py p - v))"

definition pt_muli :: "point \<Rightarrow> int \<Rightarrow> point" where
  "pt_muli p v = Pos (s32 (px p * v)) (s32 (py p * v))"

definition pt_divi :: "point \<Rightarrow> int \<Rightarrow> point res" where
  "pt_divi p v = rbind (cdiv (px p) v) (\<lambda>x. rbind (cdiv (py p) v) (\<lambda>y. Inr (Pos x y)))"

text \<open>The compound operators assign the result to the receiver and return it.\<close>

definition pt_add_assign :: "int \<Rightarrow> point \<Rightarrow> point" where
  "pt_add_assign v p = pt_addi p v"

definition pt_sub_assign :: "int \<Rightarrow> point \<Rightarrow> point" where
  "pt_sub_assign v p = pt_subi p v"

definition pt_mul_assign :: "int \<Rightarrow> point \<Rightarrow> point" where
  "pt_mul_assign v p = pt_muli p v"

definition pt_div_assign :: "int \<Rightarrow> point \<Rightarrow> point res" where
  "pt_div_assign v p = pt_divi p v"

subsection \<open>Areas\<close>

record area =
  mx :: int
  my :: int
  mwidth :: int
  mheight :: int

definition Area4 :: "int \<Rightarrow> int \<Rightarrow> int \<Rightarrow> int \<Rightarrow> area" where
  "Area4 x y w h = \<lparr>mx = x, my = y, mwidth = w, mheight = h\<rparr>"

definition Area0 :: area where
  "Area0 = \<lparr>mx = 0, my = 0, mwidth = 0, mheight = 0\<rparr>"

definition area_Pos :: "int \<Rightarrow> int \<Rightarrow> area \<Rightarrow> area" where
  "area_Pos x y a = a\<lparr>mx := x, my := y\<rparr>"

definition area_Size :: "int \<Rightarrow> int \<Rightarrow> area \<Rightarrow> area" where
  "area_Size w h a = a\<lparr>mwidth := w, mheight := h\<rparr>"

definition HitCheck :: "area \<Rightarrow> int \<Rightarrow> int \<Rightarrow> bool" where
  "HitCheck a x y \<longleftrightarrow>
     mx a \<le> x \<and> x \<le> s32 (mx a + mwidth a) \<and> my a \<le> y \<and> y \<le> s32 (my a + mheight a)"

text \<open>The test of two rectangles takes three of the receiver's corners from \<open>my\<close>.\<close>

definition HitCheck_area :: "area \<Rightarrow> area \<Rightarrow> bool" where
  "HitCheck_area this a \<longleftrightarrow>
     HitCheck a (mx this) (my this) \<or>
     HitCheck a (s32 (my this + mwidth this)) (my this) \<or>
     HitCheck a (my this) (s32 (my this + mheight this)) \<or>
     HitCheck a (s32 (my this + mwidth this)) (s32 (my this + mheight this))"

subsection \<open>Lines\<close>

record line =
  pt0 :: point
  pt1 :: point
  mcolor :: pixel

definition Line0 :: line where
  "Line0 = \<lparr>pt0 = Pos 0 0, pt1 = Pos 0 0, mcolor = PixelI 0\<rparr>"

definition line_Color :: "pixel \<Rightarrow> line \<Rightarrow> line" where
  "line_Color c l = l\<lparr>mcolor := c\<rparr>"

definition line_Start :: "int \<Rightarrow> int \<Rightarrow> line \<Rightarrow> line" where
  "line_Start x y l = l\<lparr>pt0 := Pos x y\<rparr>"

definition line_End :: "int \<Rightarrow> int \<Rightarrow> line \<Rightarrow> line" where
  "line_End x y l = l\<lparr>pt1 := Pos x y\<rparr>"

definition line_getMiddle :: "line \<Rightarrow> point" where
  "line_getMiddle l =
     Pos (s32 (px (pt0 l) + px (pt1 l)) sdiv 2) (s32 (py (pt0 l) + py (pt1 l)) sdiv 2)"

definition line_Move :: "int \<Rightarrow> int \<Rightarrow> line \<Rightarrow> line" where
  "line_Move x y l = (let cx = s32 (x - px (line_getMiddle l)); cy = s32 (y - py (line_getMiddle l)) in
     l\<lparr>pt0 := Pos (s32 (px (pt0 l) + cx)) (s32 (py (pt0 l) + cy)),
       pt1 := Pos (s32 (px (pt1 l) + cx)) (s32 (py (pt1 l) + cy))\<rparr>)"

definition line_getDistance :: "line \<Rightarrow> int" where
  "line_getDistance l =
     fp_to_int (fp_sqrt (fp_add F64
       (fp_sq (fp_of_int F64 (s32 (px (pt0 l) - px (pt1 l)))))
       (fp_sq (fp_of_int F64 (s32 (py (pt0 l) - py (pt1 l)))))))"

text \<open>
  \<open>Draw\<close> steps along the longer axis. \<open>minor_step\<close> is the error update of one step: the
  accumulated extents of both axes, and the offset on the shorter one. \<open>major_loop\<close> is the
  loop over the offsets of the longer axis; each turn plots the point at the two offsets.
\<close>

definition minor_step :: "int \<Rightarrow> int \<Rightarrow> int \<times> int \<times> int \<Rightarrow> int \<times> int \<times> int" where
  "minor_step major minor = (\<lambda>(acc_major, acc_minor, d).
     let acc_minor = s32 (acc_minor + minor) in
     if \<bar>acc_major\<bar> < \<bar>acc_minor\<bar> then (s32 (acc_major + major), acc_minor, d + 1)
     else (acc_major, acc_minor, d))"

definition major_loop ::
  "int \<Rightarrow> int \<Rightarrow> (int \<Rightarrow> int \<Rightarrow> bi_image \<Rightarrow> bi_image res) \<Rightarrow> bi_image \<Rightarrow> bi_image res" where
  "major_loop major minor plot im =
     rbind (foldM (\<lambda>k (st, im). rbind (plot k (snd (snd st)) im) (\<lambda>im.
              Inr (minor_step major minor st, im)))
        [0..\<bar>major\<bar>] ((0, 0, 0), im)) (\<lambda>(_, im). Inr im)"

definition line_Draw :: "line \<Rightarrow> bi_image \<Rightarrow> bi_image res" where
  "line_Draw l im =
     (let x0 = px (pt0 l); y0 = py (pt0 l);
          W = s32 (px (pt1 l) - x0); H = s32 (py (pt1 l) - y0);
          plot = (\<lambda>dx dy. Put (if 0 \<le> W then s32 (x0 + dx) else s32 (x0 - dx))
                              (if 0 \<le> H then s32 (y0 + dy) else s32 (y0 - dy)) (mcolor l)) in
     if \<bar>H\<bar> \<le> \<bar>W\<bar> then major_loop W H (\<lambda>dx dy. plot dx dy) im
     else major_loop H W (\<lambda>dy dx. plot dx dy) im)"

definition line_isClossing :: "line \<Rightarrow> line \<Rightarrow> bool" where
  "line_isClossing this l = False"

subsection \<open>Quadrangles\<close>

text \<open>A square is the list of its four lines; \<open>upd_line\<close> is the access \<open>line[i]\<close> for writing.\<close>

type_synonym square = "line list"

definition upd_line :: "int \<Rightarrow> (line \<Rightarrow> line) \<Rightarrow> square \<Rightarrow> square res" where
  "upd_line i f sq = rbind (rdbuf sq i) (\<lambda>l. wrbuf sq i (f l))"

definition set_edge :: "int \<Rightarrow> point \<Rightarrow> point \<Rightarrow> square \<Rightarrow> square res" where
  "set_edge i p q = upd_line i (\<lambda>l. line_End (px q) (py q) (line_Start (px p) (py p) l))"

definition Apex4 :: "point \<Rightarrow> point \<Rightarrow> point \<Rightarrow> point \<Rightarrow> square \<Rightarrow> square res" where
  "Apex4 p0 p1 p2 p3 sq =
     rbind (set_edge 0 p0 p1 sq) (\<lambda>sq. rbind (set_edge 1 p1 p2 sq) (\<lambda>sq.
     rbind (set_edge 2 p2 p3 sq) (\<lambda>sq. set_edge 3 p3 p0 sq)))"

definition Apex_rect :: "int \<Rightarrow> int \<Rightarrow> int \<Rightarrow> int \<Rightarrow> square \<Rightarrow> square res" where
  "Apex_rect x y w h sq = (let x' = s32 (x + w); y' = s32 (y + h) in
     rbind (set_edge 0 (Pos x y) (Pos x' y) sq) (\<lambda>sq.
     rbind (set_edge 1 (Pos x' y) (Pos x' y') sq) (\<lambda>sq.
     rbind (set_edge 2 (Pos x' y') (Pos x y') sq) (\<lambda>sq.
     set_edge 3 (Pos x y') (Pos x y) sq))))"

definition Apex_one :: "int \<Rightarrow> int \<Rightarrow> int \<Rightarrow> square \<Rightarrow> square res" where
  "Apex_one num x y sq =
     rbind (upd_line num (line_Start x y) sq) (\<lambda>sq.
     upd_line (if num = 0 then 3 else num - 1) (line_End x y) sq)"

definition getApex :: "int \<Rightarrow> square \<Rightarrow> point res" where
  "getApex num sq = rbind (rdbuf sq num) (\<lambda>l. Inr (pt0 l))"

definition square_getMiddle :: "square \<Rightarrow> point" where
  "square_getMiddle sq =
     (case foldl (\<lambda>(x, y) l. (s32 (x + s32 (px (pt0 l) + px (pt1 l))),
                              s32 (y + s32 (py (pt0 l) + py (pt1 l))))) (0, 0) sq of
        (x, y) \<Rightarrow> Pos (x sdiv 8) (y sdiv 8))"

definition square_Move :: "int \<Rightarrow> int \<Rightarrow> square \<Rightarrow> square" where
  "square_Move x y sq =
     (let cx = s32 (x - px (square_getMiddle sq)); cy = s32 (y - py (square_getMiddle sq)) in
      map (\<lambda>l. line_Move (s32 (px (line_getMiddle l) + cx)) (s32 (py (line_getMiddle l) + cy)) l) sq)"

definition middle_line :: "line \<Rightarrow> line \<Rightarrow> line \<Rightarrow> line" where
  "middle_line a b dis =
     line_End (px (line_getMiddle b)) (py (line_getMiddle b))
       (line_Start (px (line_getMiddle a)) (py (line_getMiddle a)) dis)"

definition getArea :: "square \<Rightarrow> int res" where
  "getArea sq =
     rbind (rdbuf sq 0) (\<lambda>l0. rbind (rdbuf sq 2) (\<lambda>l2.
     rbind (rdbuf sq 1) (\<lambda>l1. rbind (rdbuf sq 3) (\<lambda>l3.
       let dis = middle_line l0 l2 Line0; ab = line_getDistance dis;
           dis = middle_line l1 l3 dis; cd = line_getDistance dis
       in Inr (s32 (ab * cd))))))"

definition getArea_draw :: "square \<Rightarrow> bi_image \<Rightarrow> (int \<times> bi_image) res" where
  "getArea_draw sq im =
     rbind (rdbuf sq 0) (\<lambda>l0. rbind (rdbuf sq 2) (\<lambda>l2.
     rbind (rdbuf sq 1) (\<lambda>l1. rbind (rdbuf sq 3) (\<lambda>l3.
       let dis = middle_line l0 l2 Line0; ab = line_getDistance dis in
       rbind (line_Draw dis im) (\<lambda>im.
       let dis = middle_line l1 l3 dis; cd = line_getDistance dis in
       rbind (line_Draw dis im) (\<lambda>im. Inr (s32 (ab * cd), im)))))))"

definition getPerimeter :: "square \<Rightarrow> int" where
  "getPerimeter sq = foldl (\<lambda>n l. s32 (n + line_getDistance l)) 0 sq"

definition square_Color :: "pixel \<Rightarrow> square \<Rightarrow> square" where
  "square_Color c sq = map (line_Color c) sq"

definition square_Draw :: "square \<Rightarrow> bi_image \<Rightarrow> bi_image res" where
  "square_Draw sq im = foldM line_Draw sq im"

subsection \<open>The cells of a line\<close>

text \<open>
  The reference: at offset \<open>k\<close> of the longer axis the offset of the shorter one is
  \<open>k * minor / major\<close> rounded up.
\<close>

definition ideal :: "int \<Rightarrow> int \<Rightarrow> int \<Rightarrow> int" where
  "ideal major minor k = (if major = 0 then 0 else (k * \<bar>minor\<bar> + \<bar>major\<bar> - 1) div \<bar>major\<bar>)"

definition line_cells :: "line \<Rightarrow> (int \<times> int) list" where
  "line_cells l =
     (let x0 = px (pt0 l); y0 = py (pt0 l); W = px (pt1 l) - x0; H = py (pt1 l) - y0;
          pos = (\<lambda>dx dy. (if 0 \<le> W then x0 + dx else x0 - dx, if 0 \<le> H then y0 + dy else y0 - dy)) in
     if \<bar>H\<bar> \<le> \<bar>W\<bar> then map (\<lambda>k. pos k (ideal W H k)) [0..\<bar>W\<bar>]
     else map (\<lambda>k. pos (ideal H W k) k) [0..\<bar>H\<bar>])"

lemma ceil_bounds:
  assumes "0 < (M :: int)"
  shows "n \<le> (n + M - 1) div M * M" and "((n + M - 1) div M - 1) * M < n"
proof -
  have "n + M - 1 = (n + M - 1) div M * M + (n + M - 1) mod M" by simp
  moreover have "0 \<le> (n + M - 1) mod M" "(n + M - 1) mod M < M"
    using assms by simp_all
  moreover have "((n + M - 1) div M - 1) * M = (n + M - 1) div M * M - M"
    by (simp only: left_diff_distrib mult_1)
  ultimately show "n \<le> (n + M - 1) div M * M" "((n + M - 1) div M - 1) * M < n"
    by linarith+
qed

lemma ideal_bounds:
  assumes "M \<noteq> 0" and "0 \<le> k"
  shows "k * \<bar>m\<bar> \<le> ideal M m k * \<bar>M\<bar>" and "(ideal M m k - 1) * \<bar>M\<bar> < k * \<bar>m\<bar>"
  using assms ceil_bounds [of "\<bar>M\<bar>" "k * \<bar>m\<bar>"] by (simp_all add: ideal_def)

lemma ideal_unique:
  assumes "M \<noteq> 0" and "0 \<le> k" and "k * \<bar>m\<bar> \<le> d * \<bar>M\<bar>" and "(d - 1) * \<bar>M\<bar> < k * \<bar>m\<bar>"
  shows "ideal M m k = d"
proof -
  note b = ideal_bounds [OF assms(1,2), of m]
  have "(d - 1) * \<bar>M\<bar> < ideal M m k * \<bar>M\<bar>" "(ideal M m k - 1) * \<bar>M\<bar> < d * \<bar>M\<bar>"
    using b assms(3,4) by linarith+
  then have "d - 1 < ideal M m k" "ideal M m k - 1 < d"
    using assms(1) by (simp_all add: mult_less_cancel_right)
  then show ?thesis by simp
qed

lemma ideal_0 [simp]: "ideal M m 0 = 0"
  by (auto simp: ideal_def)

lemma ideal_nonneg: "0 \<le> k \<Longrightarrow> 0 \<le> ideal M m k"
proof (cases "M = 0")
  case False
  assume "0 \<le> k"
  then have "0 \<le> k * \<bar>m\<bar>" by simp
  with False have "0 \<le> k * \<bar>m\<bar> + \<bar>M\<bar> - 1" by linarith
  with False show ?thesis by (simp add: ideal_def pos_imp_zdiv_nonneg_iff)
qed (simp add: ideal_def)

lemma ideal_le:
  assumes "0 \<le> k" "k \<le> \<bar>M\<bar>"
  shows "ideal M m k \<le> \<bar>m\<bar>"
proof (cases "M = 0")
  case False
  have "(ideal M m k - 1) * \<bar>M\<bar> < k * \<bar>m\<bar>" by (rule ideal_bounds [OF False assms(1)])
  also have "\<dots> \<le> \<bar>m\<bar> * \<bar>M\<bar>" 
    using mult_right_mono [OF assms(2), of "\<bar>m\<bar>"] by (simp add: mult.commute)
  finally show ?thesis using False by (simp add: mult_less_cancel_right)
qed (simp add: ideal_def)

lemma ideal_last: "\<bar>m\<bar> \<le> \<bar>M\<bar> \<Longrightarrow> ideal M m \<bar>M\<bar> = \<bar>m\<bar>"
  by (cases "M = 0") (auto simp: ideal_def [of 0] algebra_simps intro!: ideal_unique)

text \<open>The error update keeps the state at the ideal offset.\<close>

lemma minor_step_ideal:
  assumes "0 \<le> k" "k \<le> \<bar>M\<bar>" "\<bar>m\<bar> \<le> \<bar>M\<bar>" "(\<bar>M\<bar> + 1) * (\<bar>m\<bar> + 1) < 2 ^ 31"
  shows "minor_step M m (ideal M m k * M, k * m, ideal M m k) =
    (ideal M m (k + 1) * M, (k + 1) * m, ideal M m (k + 1))"
proof (cases "M = 0")
  case True
  with assms show ?thesis by (simp add: minor_step_def ideal_def Let_def)
next
  case False
  let ?d = "ideal M m k"
  have d: "0 \<le> ?d" "?d \<le> \<bar>m\<bar>" using assms ideal_nonneg ideal_le by simp_all
  note b = ideal_bounds [OF False assms(1), of m]
  have "\<bar>(k + 1) * m\<bar> \<le> (\<bar>M\<bar> + 1) * (\<bar>m\<bar> + 1)"
    unfolding abs_mult using assms by (intro mult_mono) auto
  with assms(4) have "int32 ((k + 1) * m)"
    by (intro int32_abs) linarith
  then have i1: "int32 (k * m + m)"
    by (simp add: algebra_simps)
  have "\<bar>(?d + 1) * M\<bar> \<le> (\<bar>m\<bar> + 1) * (\<bar>M\<bar> + 1)"
    unfolding abs_mult using d by (intro mult_mono) auto
  then have "\<bar>(?d + 1) * M\<bar> < 2 ^ 31"
    using assms(4) by (simp only: mult.commute [of "\<bar>m\<bar> + 1"] order_le_less_trans)
  then have "int32 ((?d + 1) * M)"
    by (rule int32_abs)
  then have i2: "int32 (?d * M + M)"
    by (simp add: algebra_simps)
  have "k * m + m = (k + 1) * m" by (simp add: algebra_simps)
  then have abs_eq: "\<bar>k * m + m\<bar> = (k + 1) * \<bar>m\<bar>" "\<bar>?d * M\<bar> = ?d * \<bar>M\<bar>"
    using assms(1) d(1) by (simp_all add: abs_mult del: distrib_right)
  show ?thesis
  proof (cases "?d * \<bar>M\<bar> < (k + 1) * \<bar>m\<bar>")
    case True
    have "ideal M m (k + 1) = ?d + 1"
      using True b assms by (intro ideal_unique [OF False]) (auto simp: algebra_simps)
    then show ?thesis
      by (simp only: minor_step_def prod.case Let_def s32_id [OF i1] s32_id [OF i2] abs_eq True if_True)
        (simp add: algebra_simps)
  next
    case nle: False
    have "k * \<bar>m\<bar> \<le> (k + 1) * \<bar>m\<bar>" by (intro mult_right_mono) simp_all
    with nle b assms(1) have "ideal M m (k + 1) = ?d"
      by (intro ideal_unique [OF False]) linarith+
    then show ?thesis
      by (simp only: minor_step_def prod.case Let_def s32_id [OF i1] abs_eq nle if_False)
        (simp add: algebra_simps)
  qed
qed

lemma upto_loop:
  assumes "k \<le> n + 1" and "P k s"
    and "\<And>i s. k \<le> i \<Longrightarrow> i \<le> n \<Longrightarrow> P i s \<Longrightarrow> \<exists>s'. f i s = Inr s' \<and> P (i + 1) s'"
  shows "\<exists>s'. foldM f [k..n] s = Inr s' \<and> P (n + 1) s'"
  using assms
proof (induction k n arbitrary: s rule: upto.induct)
  case (1 k n)
  show ?case
  proof (cases "k \<le> n")
    case True
    then obtain s1 where s1: "f k s = Inr s1" "P (k + 1) s1"
      using "1.prems" by fastforce
    have "\<exists>s'. foldM f [k + 1..n] s1 = Inr s' \<and> P (n + 1) s'"
      using True s1(2) "1.prems"(3) by (intro "1.IH") auto
    then show ?thesis
      using True s1(1) by (simp add: upto_rec1)
  next
    case False
    with "1.prems"(1) have "k = n + 1" by simp
    with "1.prems"(2) show ?thesis by simp
  qed
qed

lemma ex_less_Suc:
  "0 \<le> (k :: int) \<Longrightarrow> (\<exists>i. 0 \<le> i \<and> i \<le> k \<and> Q i) \<longleftrightarrow> Q k \<or> (\<exists>i. 0 \<le> i \<and> i < k \<and> Q i)"
  by (auto simp: less_le)

lemma major_loop_cells:
  assumes wf: "wf_img im" and m: "\<bar>m\<bar> \<le> \<bar>M\<bar>" and small: "(\<bar>M\<bar> + 1) * (\<bar>m\<bar> + 1) < 2 ^ 31"
    and plot: "\<And>k d t. 0 \<le> k \<Longrightarrow> k \<le> \<bar>M\<bar> \<Longrightarrow> 0 \<le> d \<Longrightarrow> d \<le> \<bar>m\<bar> \<Longrightarrow> shape_of t = shape_of im \<Longrightarrow>
      inside im (fst (pos k d)) (snd (pos k d)) \<and> plot k d t = Inr (set_cell t (pos k d) c)"
  shows "\<exists>t. major_loop M m plot im = Inr t \<and> shape_of t = shape_of im \<and>
    (\<forall>x y. inside im x y \<longrightarrow> cell t (x, y) =
       (if (x, y) \<in> set (map (\<lambda>k. pos k (ideal M m k)) [0..\<bar>M\<bar>]) then c else cell im (x, y)))"
proof -
  let ?st = "\<lambda>k. (ideal M m k * M, k * m, ideal M m k)"
  let ?P = "\<lambda>k (st, t). st = ?st k \<and> shape_of t = shape_of im \<and>
    (\<forall>x y. inside im x y \<longrightarrow> cell t (x, y) =
       (if \<exists>i. 0 \<le> i \<and> i < k \<and> (x, y) = pos i (ideal M m i) then c else cell im (x, y)))"
  let ?f = "\<lambda>k (st, im). rbind (plot k (snd (snd st)) im) (\<lambda>im. Inr (minor_step M m st, im))"
  have "\<exists>s. foldM ?f [0..\<bar>M\<bar>] (?st 0, im) = Inr s \<and> ?P (\<bar>M\<bar> + 1) s"
  proof (rule upto_loop)
    fix k s assume k: "0 \<le> k" "k \<le> \<bar>M\<bar>" and P: "?P k s"
    obtain t where s: "s = (?st k, t)" using P by (cases s) auto
    let ?d = "ideal M m k"
    have d: "0 \<le> ?d" "?d \<le> \<bar>m\<bar>" using k ideal_nonneg ideal_le by simp_all
    have sh: "shape_of t = shape_of im" using P s by simp
    have pl: "inside im (fst (pos k ?d)) (snd (pos k ?d))" "plot k ?d t = Inr (set_cell t (pos k ?d) c)"
      using plot [OF k d sh] by simp_all
    have cell: "cell (set_cell t (pos k ?d) c) (x, y) = (if pos k ?d = (x, y) then c else cell t (x, y))"
      if "inside im x y" for x y
    proof (rule bi.rd_wr)
      show "ok_shape (shape_of t) (x, y)" "ok_shape (shape_of t) (pos k ?d)"
        using that pl(1) wf by (simp_all only: sh ok_shape_inside prod.collapse
          ok_shape_inside [of im "fst (pos k ?d)" "snd (pos k ?d)", simplified])
    qed
    have "?f k s = Inr (?st (k + 1), set_cell t (pos k ?d) c)"
      using pl(2) minor_step_ideal [OF k m small] s by simp
    moreover have "?P (k + 1) (?st (k + 1), set_cell t (pos k ?d) c)"
      using P s cell by (auto simp: bi.shape_wr ex_less_Suc [OF k(1)])
    ultimately show "\<exists>s'. ?f k s = Inr s' \<and> ?P (k + 1) s'" by blast
  qed auto
  then obtain st t where "foldM ?f [0..\<bar>M\<bar>] (?st 0, im) = Inr (st, t)" "?P (\<bar>M\<bar> + 1) (st, t)"
    by auto
  moreover have "(x, y) \<in> set (map (\<lambda>k. pos k (ideal M m k)) [0..\<bar>M\<bar>]) \<longleftrightarrow>
    (\<exists>i. 0 \<le> i \<and> i < \<bar>M\<bar> + 1 \<and> (x, y) = pos i (ideal M m i))" for x y
    by auto
  ultimately show ?thesis
    by (simp add: major_loop_def)
qed

text \<open>A dot of a line between two cells of the image.\<close>

lemma line_plot:
  assumes "wf_img im" "inside im x0 y0" "inside im (x0 + w) (y0 + h)" "shape_of t = shape_of im"
    and "0 \<le> dx" "dx \<le> \<bar>w\<bar>" "0 \<le> dy" "dy \<le> \<bar>h\<bar>"
  defines "p \<equiv> (if 0 \<le> w then x0 + dx else x0 - dx, if 0 \<le> h then y0 + dy else y0 - dy)"
  shows "inside im (fst p) (snd p) \<and> Put (if 0 \<le> w then s32 (x0 + dx) else s32 (x0 - dx))
    (if 0 \<le> h then s32 (y0 + dy) else s32 (y0 - dy)) c t = Inr (set_cell t p c)"
proof -
  have ins: "inside im (fst p) (snd p)" using assms(2,3,5-8) by (auto simp: inside_def p_def)
  have "0 < width im" "0 < height im" using assms(2) by (auto simp: inside_def)
  note lt = int32_extent [OF assms(1) this]
  have "s32 (fst p) = fst p" "s32 (snd p) = snd p"
    using ins lt by (auto simp: inside_def int32_def)
  moreover have "wf_img t" by (rule wf_shape [OF assms(4,1)])
  moreover have "inside t (fst p) (snd p)"
    using ins by (simp only: inside_shape [OF assms(4)])
  ultimately show ?thesis
    using ins Put_in [of t "fst p" "snd p"] by (auto simp: p_def split: if_splits)
qed

lemma line_Draw_ok:
  assumes "wf_img im" and "inside im (px (pt0 l)) (py (pt0 l))" and "inside im (px (pt1 l)) (py (pt1 l))"
  shows "\<exists>t. line_Draw l im = Inr t \<and> shape_of t = shape_of im \<and>
    (px (pt0 l), py (pt0 l)) \<in> set (line_cells l) \<and> (px (pt1 l), py (pt1 l)) \<in> set (line_cells l) \<and>
    (\<forall>x y. inside im x y \<longrightarrow>
       cell t (x, y) = (if (x, y) \<in> set (line_cells l) then mcolor l else cell im (x, y)))"
proof -
  let ?x0 = "px (pt0 l)" and ?y0 = "py (pt0 l)"
  let ?W = "px (pt1 l) - ?x0" and ?H = "py (pt1 l) - ?y0"
  let ?pos = "\<lambda>dx dy. (if 0 \<le> ?W then ?x0 + dx else ?x0 - dx, if 0 \<le> ?H then ?y0 + dy else ?y0 - dy)"
  let ?plot = "\<lambda>dx dy. Put (if 0 \<le> ?W then s32 (?x0 + dx) else s32 (?x0 - dx))
    (if 0 \<le> ?H then s32 (?y0 + dy) else s32 (?y0 - dy)) (mcolor l)"
  have pos: "0 < width im" "0 < height im" using assms(2) by (auto simp: inside_def)
  note lt = int32_extent [OF assms(1) pos]
  have WH: "\<bar>?W\<bar> + 1 \<le> width im" "\<bar>?H\<bar> + 1 \<le> height im"
    using assms(2,3) by (auto simp: inside_def)
  have "(\<bar>?W\<bar> + 1) * (\<bar>?H\<bar> + 1) \<le> width im * height im"
    using WH pos by (intro mult_mono) auto
  then have small: "(\<bar>?W\<bar> + 1) * (\<bar>?H\<bar> + 1) < 2 ^ 31" "(\<bar>?H\<bar> + 1) * (\<bar>?W\<bar> + 1) < 2 ^ 31"
    using assms(1) by (simp_all add: wf_img_def int32_def mult.commute)
  have ext: "s32 ?W = ?W" "s32 ?H = ?H"
    using WH lt by (intro s32_id int32_abs; linarith)+
  have plot: "inside im (fst (?pos dx dy)) (snd (?pos dx dy)) \<and>
    ?plot dx dy t = Inr (set_cell t (?pos dx dy) (mcolor l))"
    if "0 \<le> dx" "dx \<le> \<bar>?W\<bar>" "0 \<le> dy" "dy \<le> \<bar>?H\<bar>" "shape_of t = shape_of im" for dx dy t
    using line_plot [OF assms(1,2) _ that(5,1-4)] assms(3) by simp
  let ?Q = "\<lambda>r ps. \<exists>t. r = Inr t \<and> shape_of t = shape_of im \<and>
    (\<forall>x y. inside im x y \<longrightarrow> cell t (x, y) = (if (x, y) \<in> set ps then mcolor l else cell im (x, y)))"
  have draw: "line_Draw l im = (if \<bar>?H\<bar> \<le> \<bar>?W\<bar> then major_loop ?W ?H ?plot im
    else major_loop ?H ?W (\<lambda>dy dx. ?plot dx dy) im)"
    by (simp only: line_Draw_def Let_def ext)
  have main: "?Q (line_Draw l im) (line_cells l)"
  proof (cases "\<bar>?H\<bar> \<le> \<bar>?W\<bar>")
    case True
    have "?Q (major_loop ?W ?H ?plot im) (map (\<lambda>k. ?pos k (ideal ?W ?H k)) [0..\<bar>?W\<bar>])"
      by (rule major_loop_cells [OF assms(1) True small(1)]) (rule plot)
    with True show ?thesis by (simp only: draw line_cells_def Let_def if_True)
  next
    case False
    have "?Q (major_loop ?H ?W (\<lambda>dy dx. ?plot dx dy) im) (map (\<lambda>k. ?pos (ideal ?H ?W k) k) [0..\<bar>?H\<bar>])"
      using False by (intro major_loop_cells [OF assms(1) _ small(2), where pos = "\<lambda>k d. ?pos d k"] plot) auto
    with False show ?thesis by (simp only: draw line_cells_def Let_def if_False)
  qed
  have first: "(?x0, ?y0) \<in> set (line_cells l)"
    by (auto simp: line_cells_def Let_def intro!: image_eqI [where x = 0])
  have last: "(px (pt1 l), py (pt1 l)) \<in> set (line_cells l)"
    by (cases "\<bar>?H\<bar> \<le> \<bar>?W\<bar>")
      (auto simp: line_cells_def Let_def ideal_last intro: image_eqI [where x = "\<bar>?W\<bar>"]
        image_eqI [where x = "\<bar>?H\<bar>"])
  from main first last show ?thesis by blast
qed

text \<open>
  C19: a line whose end points are inside the image is drawn without leaving the image, and
  without wrap-around of the error terms: the cells it colours are exactly those of the
  reference (the minor offset is the exact ratio rounded up), both end points among them.
\<close>

theorem line_Draw_cells:
  assumes "wf_img im" and "inside im (px (pt0 l)) (py (pt0 l))" and "inside im (px (pt1 l)) (py (pt1 l))"
  shows "\<exists>t. line_Draw l im = Inr t \<and> shape_of t = shape_of im \<and>
    (px (pt0 l), py (pt0 l)) \<in> set (line_cells l) \<and> (px (pt1 l), py (pt1 l)) \<in> set (line_cells l) \<and>
    (\<forall>x y. inside im x y \<longrightarrow>
       cell t (x, y) = (if (x, y) \<in> set (line_cells l) then mcolor l else cell im (x, y)))"
  using assms by (rule line_Draw_ok)

theorem line_Draw_cells_witness:
  "\<exists>t. line_Draw \<lparr>pt0 = Pos 1 0, pt1 = Pos 0 2, mcolor = PixelL 7\<rparr> sample_img = Inr t \<and>
     cell t (1, 0) = PixelL 7 \<and> cell t (0, 1) = PixelL 7 \<and> cell t (0, 2) = PixelL 7 \<and>
     cell t (1, 1) = PixelL 9"
proof -
  let ?l = "\<lparr>pt0 = Pos 1 0, pt1 = Pos 0 2, mcolor = PixelL 7\<rparr>"
  have c: "line_cells ?l = [(1, 0), (0, 1), (0, 2)]" by code_simp
  have "\<exists>t. line_Draw ?l sample_img = Inr t \<and> (\<forall>x y. inside sample_img x y \<longrightarrow>
       cell t (x, y) = (if (x, y) \<in> set (line_cells ?l) then PixelL 7 else cell sample_img (x, y)))"
    using line_Draw_cells [of sample_img ?l] by (auto simp: inside_def Pos_def)
  then obtain t where t: "line_Draw ?l sample_img = Inr t" and
    d: "\<And>x y. inside sample_img x y \<Longrightarrow>
       cell t (x, y) = (if (x, y) \<in> set (line_cells ?l) then PixelL 7 else cell sample_img (x, y))"
    by blast
  show ?thesis
    using t d [of 1 0] d [of 0 1] d [of 0 2] d [of 1 1]
    unfolding c by (simp add: inside_def sample_img_cell)
qed

subsection \<open>Moving a quadrangle\<close>

text \<open>Every end point moves by the same vector: the middle of a line cancels out.\<close>

definition shifted :: "int \<Rightarrow> int \<Rightarrow> line \<Rightarrow> line" where
  "shifted cx cy l =
     l\<lparr>pt0 := Pos (s32 (px (pt0 l) + cx)) (s32 (py (pt0 l) + cy)),
       pt1 := Pos (s32 (px (pt1 l) + cx)) (s32 (py (pt1 l) + cy))\<rparr>"

lemma line_Move_shifted:
  "line_Move (s32 (px (line_getMiddle l) + cx)) (s32 (py (line_getMiddle l) + cy)) l = shifted cx cy l"
  by (simp add: line_Move_def shifted_def)

text \<open>Moving a square moves all its corners by one vector, the vector from its middle to the
  target, so that its shape is kept and lines that met still meet.
\<close>

theorem square_Move_shifts:
  "square_Move x y sq =
     map (shifted (s32 (x - px (square_getMiddle sq))) (s32 (y - py (square_getMiddle sq)))) sq"
  by (simp add: square_Move_def Let_def line_Move_shifted)

end
