(* ===== verification/Filters.thy ===== *)
theory Filters
  imports Morphology PixelColor Geometry
begin

text \<open>
  The per-pixel and neighbourhood filters of \<open>image_util/ImageUtilClass.cpp\<close>: blur and
  sharpening, histograms, the threshold by discriminant analysis, binarisation, the Sobel and
  Laplacian filters, contrast, brightness, gamma and the colour ranges.
\<close>

subsection \<open>Blur\<close>

definition getBulr :: "bi_image \<Rightarrow> cfloat res" where
  "getBulr im =
     rbind (for_each im (\<lambda>i j num. rbind (Get im i j) (\<lambda>p.
       Inr (fp_add F64 num (fp_of_int F64 (uint (red p) + uint (blue p) + uint (green p)))))) (Fin 0)) (\<lambda>num.
     let num = fp_div F64 num (fp_of_int F64 (s32 (width im * height im))) in
     Inr (fp_mul F64 (fp_div F64 (lit 1) num) (fp_of_int F64 100)))"

text \<open>The sums of the channels over the window of \<open>LowResolution\<close>, in 32-bit longs.\<close>

definition win_sums :: "int \<Rightarrow> bi_image \<Rightarrow> int \<Rightarrow> int \<Rightarrow> (int \<times> int \<times> int) res" where
  "win_sums level im i j =
     foldM (\<lambda>(k, l) (r, g, b).
       rbind (Get im (i + l) (j + k)) (\<lambda>p.
         Inr (s32 (r + uint (red p)), s32 (g + uint (green p)), s32 (b + uint (blue p)))))
       (win level) (0, 0, 0)"

definition win_mean :: "int \<Rightarrow> int \<Rightarrow> byte" where
  "win_mean level tot =
     fp_to_byte (fp_div F64 (fp_of_int F64 tot) (fp_sq (fp_of_int F64 (s32 (level * 2 + 1)))))"

text \<open>The means are written into the image that the next windows read.\<close>

definition LowResolution :: "int \<Rightarrow> bi_image \<Rightarrow> bi_image res" where
  "LowResolution level im =
     for_each im (\<lambda>i j im.
       rbind (win_sums level im i j) (\<lambda>(r, g, b).
         Put i j (PixelRGB (win_mean level r) (win_mean level g) (win_mean level b)) im)) im"

definition UnSharpMasking :: "int \<Rightarrow> bi_image \<Rightarrow> bi_image res" where
  "UnSharpMasking level im =
     rbind (assign init im) (\<lambda>temp. rbind (LowResolution level temp) (\<lambda>temp.
     rbind (bi_sub im temp) (\<lambda>d. rbind (bi_mul_pixel d (PixelI 2)) (\<lambda>d2.
     rbind (bi_add im d2) (assign im)))))"

subsection \<open>Histogram and threshold\<close>

definition getHistogram :: "bi_image \<Rightarrow> int list res" where
  "getHistogram im =
     for_each im (\<lambda>i j hist.
       rbind (Get im i j) (\<lambda>p.
         let l = unat (Lightness p) in Inr (hist[l := hist ! l + 1]))) (replicate 256 0)"

text \<open>The first index, upwards or downwards, of a non-empty class; none leaves it unset.\<close>

definition first_class :: "int list \<Rightarrow> int list \<Rightarrow> int option" where
  "first_class hist is = List.find (\<lambda>i. hist ! nat i \<noteq> 0) is"

definition class_sum :: "int list \<Rightarrow> int list \<Rightarrow> int" where
  "class_sum hist is = foldl (\<lambda>n i. s32 (n + i * hist ! nat i)) 0 is"

definition class_count :: "int list \<Rightarrow> int list \<Rightarrow> int" where
  "class_count hist is = foldl (\<lambda>n i. s32 (n + hist ! nat i)) 0 is"

text \<open>The sum of squares adds the square of a class once per pixel of the class.\<close>

definition class_squares :: "int list \<Rightarrow> cfloat \<Rightarrow> int list \<Rightarrow> cfloat" where
  "class_squares hist u0 is =
     foldl (\<lambda>v i. foldl (\<lambda>v _. fp_add F64 v (fp_sq (fp_sub F64 (fp_of_int F64 i) u0))) v
       [0..hist ! nat i - 1]) (Fin 0) is"

text \<open>One turn of the loop over candidate thresholds: the ratio of the variances.\<close>

definition variance_ratio :: "int list \<Rightarrow> cfloat \<Rightarrow> int \<Rightarrow> int \<Rightarrow> int \<Rightarrow> cfloat res" where
  "variance_ratio hist u0 a b t =
     (let n1 = class_count hist [a..t]; n2 = class_count hist [t..b]; d = fp_of_int F64 in
      rbind (cdiv (class_sum hist [a..t]) n1) (\<lambda>u1.
      rbind (cdiv (class_sum hist [t..b]) n2) (\<lambda>u2.
      let o1 = fp_div F64 (class_squares hist u0 [a..t]) (d n1);
          o2 = fp_div F64 (class_squares hist u0 [t..b]) (d n2);
          n = d (s32 (n1 + n2));
          ow = fp_div F64 (fp_add F64 (fp_mul F64 (d n1) o1) (fp_mul F64 (d n2) o2)) n;
          ob = fp_div F64 (fp_add F64 (fp_mul F64 (d n1) (fp_sq (fp_sub F64 (d u1) u0)))
                                      (fp_mul F64 (d n2) (fp_sq (fp_sub F64 (d u2) u0)))) n
      in Inr (fp_div F64 ob ow))))"

text \<open>The search over a histogram of \<open>n\<close> pixels, whose text the older library shares.\<close>

definition otsu :: "int list \<Rightarrow> int \<Rightarrow> int res" where
  "otsu hist n =
     rbind (cdiv (class_sum hist [0..255]) n) (\<lambda>u0.
     case (first_class hist [0..255], first_class hist (rev [0..255])) of
       (Some a, Some b) \<Rightarrow>
         rbind (foldM (\<lambda>t (proportion, threshold).
           rbind (variance_ratio hist (fp_of_int F64 u0) a b t) (\<lambda>q.
             Inr (if fp_lt proportion q then (q, t) else (proportion, threshold))))
           [a..b] (Fin (- 1), 0)) (\<lambda>(_, threshold). Inr threshold)
     | _ \<Rightarrow> Inl Uninit)"

definition getThreshold :: "bi_image \<Rightarrow> int res" where
  "getThreshold im = rbind (getHistogram im) (\<lambda>hist. otsu hist (s32 (width im * height im)))"

text \<open>\<open>Binarize\<close> returns the threshold it found, or 0 when it was given one.\<close>

definition Binarize :: "int \<Rightarrow> bi_image \<Rightarrow> (int \<times> bi_image) res" where
  "Binarize threshold im =
     rbind (if threshold = - 1 then rbind (getThreshold im) (\<lambda>t. Inr (t, t)) else Inr (0, threshold))
       (\<lambda>(ret, threshold).
     rbind (for_each im (\<lambda>i j im.
       rbind (Get im i j) (\<lambda>p.
         if threshold \<le> uint (Lightness p) then Put i j (PixelI 255) im else Put i j (PixelI 0) im)) im) (\<lambda>im.
     Inr (ret, im)))"

text \<open>An int argument of \<open>Pixel(unsigned char, unsigned char, unsigned char)\<close>.\<close>

definition scaled_channel :: "cfloat \<Rightarrow> byte \<Rightarrow> byte" where
  "scaled_channel r c = word_of_int (fp_to_int (fp_mul F64 r (fp_of_int F64 (uint c))))"

definition Incline :: "cfloat \<Rightarrow> cfloat \<Rightarrow> cfloat \<Rightarrow> bi_image \<Rightarrow> bi_image res" where
  "Incline r g b im =
     for_each im (\<lambda>i j im.
       rbind (Get im i j) (\<lambda>p.
         Put i j (PixelRGB (scaled_channel r (red p)) (scaled_channel g (green p))
                           (scaled_channel b (blue p))) im)) im"

subsection \<open>Edges\<close>

text \<open>
  One of the nine values of \<open>Sobel\<close>: the tests are on the position \<open>pos = i + (j + l) * width\<close>,
  and the pixel read is \<open>(i, j + l)\<close> whatever \<open>k\<close> is.
\<close>

definition sobel_num :: "bi_image \<Rightarrow> int \<Rightarrow> int \<Rightarrow> int \<times> int \<Rightarrow> int res" where
  "sobel_num out i j = (\<lambda>(l, k).
     let w = width out; h = height out; pos = i + (j + l) * w in
     if pos sdiv w = 0 \<or> h - 1 \<le> pos sdiv w \<or> pos smod w = 0 \<or> (pos - (w - 1)) smod w = 0
     then Inr 0
     else rbind (Get out i (j + l)) (\<lambda>p. Inr (uint (Lightness p))))"

definition sobel_gray :: "int list \<Rightarrow> int" where
  "sobel_gray num =
     (let dx = num ! 0 + 2 * num ! 3 + num ! 6;
          dx = dx - num ! 2 - 2 * num ! 5 - num ! 8;
          dy = num ! 0 + 2 * num ! 1 + num ! 2;
          dy = dy - num ! 6 - 2 * num ! 7 - num ! 8;
          gray = \<bar>dx\<bar> + \<bar>dy\<bar>
      in if 255 < gray then 255 else gray)"

definition Sobel :: "bi_image \<Rightarrow> bi_image res" where
  "Sobel im =
     rbind (assign init im) (\<lambda>out.
     for_each im (\<lambda>i j im.
       rbind (mapM (sobel_num out i j) (win 1)) (\<lambda>num. Put i j (PixelI (sobel_gray num)) im)) im)"

definition laplacian_mask :: "int list" where
  "laplacian_mask = [0, 1, 0, 1, - 4, 1, 0, 1, 0]"

definition laplacian_at :: "bi_image \<Rightarrow> int \<Rightarrow> int \<Rightarrow> pixel res" where
  "laplacian_at im i j =
     foldM (\<lambda>k pixel. rbind (Get im (i + (k mod 3 - 1)) (j + (k div 3 - 1))) (\<lambda>p.
         Inr (pix_add pixel (pix_muli p (laplacian_mask ! nat k)))))
       [0..8] (setRGB 0 0 0 Pixel0)"

definition Laplacian :: "bi_image \<Rightarrow> bi_image res" where
  "Laplacian im =
     rbind (assign init im) (\<lambda>temp.
     rbind (foldM (\<lambda>(i, j) temp. rbind (laplacian_at im i j) (\<lambda>p. Put i j p temp))
       (interior im) temp) (assign im))"

subsection \<open>Contrast, brightness, gamma\<close>

definition stretched :: "int \<Rightarrow> int \<Rightarrow> int \<Rightarrow> int" where
  "stretched a b l =
     fp_to_int (fp_mul F64 (fp_of_int F64 255)
       (fp_div F64 (fp_of_int F64 (l - a)) (fp_of_int F64 (b - a))))"

definition Contrast :: "bi_image \<Rightarrow> bi_image res" where
  "Contrast im =
     rbind (getHistogram im) (\<lambda>hist.
     let a = (case first_class hist [0..255] of Some a \<Rightarrow> a | None \<Rightarrow> 0);
         b = (case first_class hist (rev [0..255]) of Some b \<Rightarrow> b | None \<Rightarrow> 255) in
     for_each im (\<lambda>i j im.
       rbind (Get im i j) (\<lambda>p. let l = uint (Lightness p) in
         if 0 \<le> l \<and> l < a then Put i j (PixelI 0) im
         else if a \<le> l \<and> l \<le> b then Put i j (PixelI (stretched a b l)) im
         else if b < l \<and> l \<le> 255 then Put i j (PixelI 255) im
         else Inr im)) im)"

text \<open>
  \<open>Brightness\<close>: the mean lightness of the pixels that are not white, then the whole image is
  added \<open>threshold - average\<close>, which becomes a \<open>Pixel(unsigned char)\<close>.
\<close>

definition Brightness :: "int \<Rightarrow> bi_image \<Rightarrow> bi_image res" where
  "Brightness threshold im =
     rbind (for_each im (\<lambda>i j (average, count).
       rbind (Get im i j) (\<lambda>p.
         if Lightness p \<noteq> 255 then Inr (s32 (average + uint (Lightness p)), s32 (count + 1))
         else Inr (average, count))) (0, 0)) (\<lambda>(average, count).
     rbind (cdiv average count) (\<lambda>average.
       add_assign_pixel (PixelI (s32 (threshold - average))) im))"

text \<open>\<open>GammaCorrection\<close>: \<open>pow\<close> of the C library is a parameter.\<close>

definition gamma_channel :: "(cfloat \<Rightarrow> cfloat \<Rightarrow> cfloat) \<Rightarrow> cfloat \<Rightarrow> byte \<Rightarrow> byte" where
  "gamma_channel pow' gamma c =
     fp_to_byte (fp_mul F64 (fp_of_int F64 255)
       (pow' (fp_div F64 (fp_of_int F64 (uint c)) (fp_of_int F64 255))
             (fp_div F64 (fp_of_int F64 1) gamma)))"

definition GammaCorrection ::
  "(cfloat \<Rightarrow> cfloat \<Rightarrow> cfloat) \<Rightarrow> cfloat \<Rightarrow> bi_image \<Rightarrow> bi_image res" where
  "GammaCorrection pow' gamma im =
     for_each im (\<lambda>i j im.
       rbind (Get im i j) (\<lambda>p.
         Put i j (PixelRGB (gamma_channel pow' gamma (red p)) (gamma_channel pow' gamma (green p))
                           (gamma_channel pow' gamma (blue p))) im)) im"

subsection \<open>Colour ranges\<close>

definition YIQRange :: "int \<Rightarrow> int \<Rightarrow> int \<Rightarrow> int \<Rightarrow> int \<Rightarrow> int \<Rightarrow> bi_image \<Rightarrow> bi_image res" where
  "YIQRange ylow yhigh ilow ihigh qlow qhigh im =
     for_each im (\<lambda>i j im.
       rbind (Get im i j) (\<lambda>p.
         let y = uint (Pixel_Y p); ii = Pixel_I p; q = Pixel_Q p in
         if (ylow \<le> y \<and> y \<le> yhigh) \<and>
            ((ilow \<le> ii \<and> ii \<le> ihigh) \<or> ilow = ihigh) \<and>
            ((qlow \<le> q \<and> q \<le> qhigh) \<or> qlow = qhigh)
         then Put i j (PixelI 255) im else Put i j (PixelI 0) im)) im"

text \<open>The loop of the three range filters: a pixel on the wrong side is blackened.\<close>

definition keep_range :: "(pixel \<Rightarrow> int) \<Rightarrow> int \<Rightarrow> int \<Rightarrow> bool \<Rightarrow> bi_image \<Rightarrow> bi_image res" where
  "keep_range f low high in_range im =
     for_each im (\<lambda>i j im.
       rbind (Get im i j) (\<lambda>p.
         if \<not> ((low \<le> f p \<and> f p \<le> high) = in_range) then Put i j (PixelI 0) im else Inr im)) im"

definition HRange :: "int \<Rightarrow> int \<Rightarrow> bool \<Rightarrow> bi_image \<Rightarrow> bi_image res" where
  "HRange low high in_range = keep_range Pixel_H (limit low 0 360) (limit high 0 360) in_range"

definition SRange :: "int \<Rightarrow> int \<Rightarrow> bool \<Rightarrow> bi_image \<Rightarrow> bi_image res" where
  "SRange low high in_range =
     keep_range (\<lambda>p. uint (Pixel_S p)) (limit low 0 100) (limit high 0 100) in_range"

definition VRange :: "int \<Rightarrow> int \<Rightarrow> bool \<Rightarrow> bi_image \<Rightarrow> bi_image res" where
  "VRange low high in_range =
     keep_range (\<lambda>p. uint (Pixel_V p)) (limit low 0 100) (limit high 0 100) in_range"

definition HSVRange :: "int \<Rightarrow> int \<Rightarrow> int \<Rightarrow> int \<Rightarrow> int \<Rightarrow> int \<Rightarrow> bi_image \<Rightarrow> bi_image res" where
  "HSVRange hlow hhigh slow shigh vlow vhigh im =
     rbind (HRange hlow hhigh True im) (\<lambda>im.
     rbind (SRange slow shigh True im) (VRange vlow vhigh True))"

subsection \<open>Loops over an image\<close>

text \<open>A loop whose body rewrites each pixel from itself.\<close>

lemma for_each_own:
  assumes wf: "wf_img im"
    and body: "\<And>x y t p. inside im x y \<Longrightarrow> Get t x y = Inr p \<Longrightarrow> f x y t = Put x y (g x y p) t"
  shows "\<exists>t. for_each im f im = Inr t \<and> shape_of t = shape_of im \<and> wf_img t \<and>
    (\<forall>x y. inside im x y \<longrightarrow> cell t (x, y) = g x y (shown im x y))"
proof (rule for_each_sweep [OF wf refl refl])
  fix x y t
  assume *: "inside im x y" "shape_of t = shape_of im" "wf_img t" "cell t (x, y) = cell im (x, y)"
  have ins: "inside t x y" using *(1) by (simp only: inside_shape [OF *(2)])
  have "shown t x y = shown im x y"
    using *(2,4) by (simp add: shown_def shape_eq)
  then have "Get t x y = Inr (shown im x y)"
    using *(3) ins by (simp add: Get_shown)
  then show "f x y t = Inr (set_cell t (x, y) (g x y (shown im x y)))"
    using body [OF *(1)] *(3) ins by (simp add: Put_in)
qed

text \<open>A loop whose body only reads the image.\<close>

lemma for_each_read:
  assumes "\<And>x y s. inside im x y \<Longrightarrow> f x y s = Inr (g x y s)"
  shows "for_each im f s = Inr (fold (\<lambda>(x, y). g x y) (raster (width im) (height im)) s)"
  unfolding for_each_def foldM_pure [symmetric]
  by (rule foldM_cong_set) (use assms in \<open>auto simp: set_raster_inside\<close>)

subsection \<open>Binarisation\<close>

definition binary_at :: "int \<Rightarrow> pixel \<Rightarrow> pixel" where
  "binary_at threshold p = (if threshold \<le> uint (Lightness p) then PixelL 255 else PixelL 0)"

lemma Binarize_cells:
  assumes "wf_img im" and "threshold \<noteq> - 1"
  shows "\<exists>t. Binarize threshold im = Inr (0, t) \<and> shape_of t = shape_of im \<and> wf_img t \<and>
    (\<forall>x y. inside im x y \<longrightarrow> cell t (x, y) = binary_at threshold (shown im x y))"
proof -
  have "\<exists>t. for_each im (\<lambda>i j im. rbind (Get im i j) (\<lambda>p.
      if threshold \<le> uint (Lightness p) then Put i j (PixelI 255) im else Put i j (PixelI 0) im)) im = Inr t \<and>
    shape_of t = shape_of im \<and> wf_img t \<and>
    (\<forall>x y. inside im x y \<longrightarrow> cell t (x, y) = binary_at threshold (shown im x y))"
    by (rule for_each_own [OF assms(1)]) (simp add: binary_at_def PixelI_byte)
  then show ?thesis
    using assms(2) by (auto simp: Binarize_def)
qed

text \<open>
  Binarising with a threshold makes exactly the pixels at least that light white and all
  others black, and doing it again with any threshold from 1 to 255 changes nothing, unless
  white is the transparent colour.
\<close>

theorem Binarize_binary:
  assumes "wf_img im" and "1 \<le> threshold" and "\<not> is_white (clearColor im)"
    and "1 \<le> again" and "again \<le> 255"
  shows "\<exists>t u. Binarize threshold im = Inr (0, t) \<and> Binarize again t = Inr (0, u) \<and>
    (\<forall>x y. inside im x y \<longrightarrow>
       cell t (x, y) = (if threshold \<le> uint (Lightness (shown im x y)) then PixelL 255 else PixelL 0) \<and>
       cell u (x, y) = cell t (x, y))"
proof -
  obtain t where t: "Binarize threshold im = Inr (0, t)" "shape_of t = shape_of im" "wf_img t"
    "\<forall>x y. inside im x y \<longrightarrow> cell t (x, y) = binary_at threshold (shown im x y)"
    using Binarize_cells [OF assms(1), of threshold] assms(2) by auto
  obtain u where u: "Binarize again t = Inr (0, u)"
    "\<forall>x y. inside t x y \<longrightarrow> cell u (x, y) = binary_at again (shown t x y)"
    using Binarize_cells [OF t(3), of again] assms(4) by auto
  have "cell u (x, y) = cell t (x, y)" if "inside im x y" for x y
  proof -
    have "cell t (x, y) = PixelL 255 \<or> cell t (x, y) = PixelL 0"
      using t(4) that by (simp add: binary_at_def)
    moreover have "\<not> pix_eq (clearColor t) (PixelL 255)"
      using assms(3) t(2) by (simp add: is_white_def shape_eq)
    ultimately have "binary_at again (shown t x y) = cell t (x, y)"
      using assms(4,5) by (auto simp: shown_def view_def binary_at_def)
    moreover have "inside t x y" using that by (simp only: inside_shape [OF t(2)])
    ultimately show ?thesis using u(2) by simp
  qed
  with t u show ?thesis by (auto simp: binary_at_def)
qed

theorem Binarize_binary_witness:
  "\<exists>t u. Binarize 100 sample_img = Inr (0, t) \<and> Binarize 1 t = Inr (0, u) \<and>
     cell u (0, 2) = PixelL 255 \<and> cell u (0, 1) = PixelL 0"
proof -
  have "\<exists>t u. Binarize 100 sample_img = Inr (0, t) \<and> Binarize 1 t = Inr (0, u) \<and>
    (\<forall>x y. inside sample_img x y \<longrightarrow>
       cell t (x, y) = (if 100 \<le> uint (Lightness (shown sample_img x y)) then PixelL 255 else PixelL 0) \<and>
       cell u (x, y) = cell t (x, y))"
    by (rule Binarize_binary) (simp_all add: is_white_def pix_eq_Pixel0)
  moreover have "inside sample_img 0 2" "inside sample_img 0 1" by (simp_all add: inside_def)
  moreover have "Lightness (shown sample_img 0 2) = 255" "Lightness (shown sample_img 0 1) = 9"
    by (simp_all add: shown_def sample_img_cell view_def pix_eq_Pixel0)
  ultimately show ?thesis by force
qed

subsection \<open>The histogram\<close>

definition lightness_at :: "bi_image \<Rightarrow> int \<times> int \<Rightarrow> nat" where
  "lightness_at im x = unat (Lightness (shown im (fst x) (snd x)))"

lemma lightness_at_less [simp]: "lightness_at im x < 256"
  by (simp add: lightness_at_def)

lemma lightness_at_eq:
  "l < 256 \<Longrightarrow> lightness_at im (x, y) = l \<longleftrightarrow> Lightness (shown im x y) = of_nat l"
  by (auto simp: lightness_at_def word_unat_eq_iff unat_of_nat)

lemma fold_hist:
  "(\<And>x. f x < length h) \<Longrightarrow>
    length (fold (\<lambda>x h. h[f x := h ! f x + 1]) xs h) = length h \<and>
    (\<forall>l < length h. fold (\<lambda>x h. h[f x := h ! f x + 1]) xs h ! l =
       h ! l + int (length (filter (\<lambda>x. f x = l) xs)))"
  by (induction xs arbitrary: h) (auto simp: nth_list_update)

lemma getHistogram_fold:
  assumes "wf_img im"
  shows "\<exists>hist. getHistogram im = Inr hist \<and> length hist = 256 \<and>
    (\<forall>l < 256. hist ! l =
       int (length (filter (\<lambda>x. lightness_at im x = l) (raster (width im) (height im)))))"
proof -
  let ?f = "lightness_at im"
  have "getHistogram im = Inr (fold (\<lambda>(x, y). (\<lambda>h. h[?f (x, y) := h ! ?f (x, y) + 1]))
      (raster (width im) (height im)) (replicate 256 0))"
    unfolding getHistogram_def
    by (rule for_each_read) (simp add: Get_shown [OF assms] lightness_at_def Let_def)
  moreover have "(\<lambda>(x, y). (\<lambda>h. h[?f (x, y) := h ! ?f (x, y) + (1 :: int)])) =
      (\<lambda>x h. h[?f x := h ! ?f x + 1])"
    by (rule ext) (simp split: prod.split)
  ultimately show ?thesis
    using fold_hist [of ?f "replicate 256 0" "raster (width im) (height im)"] by simp
qed

lemma hist_total:
  assumes "wf_img im" and "length hist = 256" and "\<forall>l < 256. hist ! l =
     int (length (filter (\<lambda>x. lightness_at im x = l) (raster (width im) (height im))))"
  shows "sum_list hist = width im * height im"
proof -
  let ?r = "raster (width im) (height im)"
  have "sum_list hist = (\<Sum>l<256. int (length (filter (\<lambda>x. lightness_at im x = l) ?r)))"
    using assms(2,3) by (simp add: sum_list_sum_nth atLeast0LessThan)
  also have "\<dots> = int (length ?r)"
  proof -
    have "(\<Sum>l<256. int (length (filter (\<lambda>x. lightness_at im x = l) xs))) = int (length xs)" for xs
    proof (induction xs)
      case (Cons a xs)
      have "(\<Sum>l<256. int (length (filter (\<lambda>x. lightness_at im x = l) (a # xs)))) =
        (\<Sum>l<256. int (length (filter (\<lambda>x. lightness_at im x = l) xs)) +
           (if lightness_at im a = l then 1 else 0))"
        by (rule sum.cong) simp_all
      also have "\<dots> = int (length (a # xs))"
        using Cons.IH by (simp add: sum.distrib)
      finally show ?case .
    qed simp
    then show ?thesis .
  qed
  also have "length ?r = nat (width im * height im)"
    using assms(1) by (simp add: raster_def length_concat o_def wf_img_def sum_list_triv
        nat_mult_distrib mult.commute)
  finally show ?thesis using assms(1) by (simp add: wf_img_def)
qed

text \<open>
  Each of the 256 entries of the histogram is the number of pixels of that lightness, so
  that together they count every pixel of the image once.
\<close>

theorem getHistogram_counts:
  assumes "wf_img im"
  shows "\<exists>hist. getHistogram im = Inr hist \<and> length hist = 256 \<and>
    (\<forall>l < 256. hist ! l = int (card {(x, y). inside im x y \<and> Lightness (shown im x y) = of_nat l})) \<and>
    sum_list hist = width im * height im"
proof -
  obtain hist where h: "getHistogram im = Inr hist" "length hist = 256"
    "\<forall>l < 256. hist ! l =
       int (length (filter (\<lambda>x. lightness_at im x = l) (raster (width im) (height im))))"
    using getHistogram_fold [OF assms] by blast
  let ?r = "raster (width im) (height im)"
  have card: "length (filter P ?r) = card {x \<in> set ?r. P x}" for P
    by (metis distinct_card distinct_filter distinct_raster set_filter)
  have "hist ! l = int (card {(x, y). inside im x y \<and> Lightness (shown im x y) = of_nat l})"
    if "l < 256" for l
  proof -
    have "{x \<in> set ?r. lightness_at im x = l} =
      {(x, y). inside im x y \<and> Lightness (shown im x y) = of_nat l}"
      using lightness_at_eq [OF that] by (auto simp: set_raster inside_def)
    then show ?thesis using h(3) that by (simp add: card)
  qed
  moreover have "sum_list hist = width im * height im"
    by (rule hist_total [OF assms h(2,3)])
  ultimately show ?thesis using h(1,2) by blast
qed

theorem getHistogram_counts_witness:
  "\<exists>hist. getHistogram sample_img = Inr hist \<and> sum_list hist = 6"
  using getHistogram_counts [OF wf_sample_img] by auto

subsection \<open>The threshold\<close>

lemma foldl_s32_sum:
  "0 \<le> n \<Longrightarrow> (\<forall>i \<in> set is. 0 \<le> f i) \<Longrightarrow> n + sum_list (map f is) < 2 ^ 31 \<Longrightarrow>
     foldl (\<lambda>n i. s32 (n + f i)) n is = n + sum_list (map f is)"
proof (induction "is" arbitrary: n)
  case (Cons i "is")
  have "0 \<le> sum_list (map f is)" using Cons.prems(2) by (intro sum_list_nonneg) auto
  then have "0 \<le> n + f i" "n + f i < 2 ^ 31" using Cons.prems by auto
  moreover from this have "s32 (n + f i) = n + f i" by (intro s32_id int32_abs) simp
  ultimately show ?case using Cons by simp
qed simp

lemma hist_part:
  assumes len: "length hist = 256" and nn: "\<forall>l < 256. 0 \<le> hist ! l"
    and "0 \<le> a" "b \<le> 255"
  shows "sum_list (map (\<lambda>i. hist ! nat i) [a..b]) \<le> sum_list (hist :: int list)"
proof -
  have "sum_list (map (\<lambda>i. hist ! nat i) [a..b]) = (\<Sum>i\<in>{a..b}. hist ! nat i)"
    by (simp add: sum_list_distinct_conv_sum_set)
  also have "\<dots> \<le> (\<Sum>i\<in>{0..255}. hist ! nat i)"
    using assms by (intro sum_mono2) auto
  also have "\<dots> = (\<Sum>l<256. hist ! l)"
    by (rule sum.reindex_bij_witness [of _ int nat]) auto
  also have "\<dots> = sum_list hist"
    using len by (simp add: sum_list_sum_nth atLeast0LessThan)
  finally show ?thesis .
qed

lemma class_count_pos:
  assumes len: "length hist = 256" and nn: "\<forall>l < 256. 0 \<le> hist ! l" and tot: "sum_list hist < 2 ^ 31"
    and ab: "0 \<le> a" "b \<le> 255" and i: "a \<le> i" "i \<le> b" "hist ! nat i \<noteq> 0"
  shows "class_count hist [a..b] \<noteq> 0"
proof -
  have nn': "\<forall>j \<in> set [a..b]. 0 \<le> hist ! nat j"
    using nn ab by (auto simp: nat_less_iff)
  have "class_count hist [a..b] = 0 + sum_list (map (\<lambda>i. hist ! nat i) [a..b])"
    unfolding class_count_def
    using hist_part [OF len nn ab] tot nn' by (intro foldl_s32_sum) simp_all
  moreover have "hist ! nat i \<le> sum_list (map (\<lambda>i. hist ! nat i) [a..b])"
    using i nn' by (intro member_le_sum_list) auto
  moreover have "0 < hist ! nat i" using i nn' by (simp add: less_le)
  ultimately show ?thesis by simp
qed

lemma first_class_in: "first_class hist is = Some a \<Longrightarrow> a \<in> set is \<and> hist ! nat a \<noteq> 0"
  by (auto simp: first_class_def find_Some_iff)

lemma first_class_some:
  assumes len: "length hist = 256" and tot: "sum_list hist \<noteq> 0" and all: "set is = set [0..255]"
  shows "\<exists>a. first_class hist is = Some a \<and> 0 \<le> a \<and> a \<le> 255 \<and> hist ! nat a \<noteq> 0"
proof -
  have "\<exists>i \<in> set [0..255]. hist ! nat i \<noteq> 0"
  proof (rule ccontr)
    assume "\<not> ?thesis"
    then have "hist ! l = 0" if "l < 256" for l
      using that by (auto dest!: bspec [of _ _ "int l"])
    then have "sum_list hist = 0" using len by (simp add: sum_list_sum_nth)
    with tot show False by simp
  qed
  then obtain a where a: "first_class hist is = Some a"
    using all by (cases "first_class hist is") (auto simp: first_class_def find_None_iff)
  then show ?thesis using first_class_in [OF a] all by simp
qed

lemma variance_ratio_ok:
  assumes "length hist = 256" "\<forall>l < 256. 0 \<le> hist ! l" "sum_list hist < 2 ^ 31"
    and "0 \<le> a" "a \<le> t" "t \<le> b" "b \<le> 255" "hist ! nat a \<noteq> 0" "hist ! nat b \<noteq> 0"
  shows "\<exists>q. variance_ratio hist u0 a b t = Inr q"
proof -
  have "class_count hist [a..t] \<noteq> 0" "class_count hist [t..b] \<noteq> 0"
    using class_count_pos [OF assms(1-3), of a t a] class_count_pos [OF assms(1-3), of t b b] assms(4-)
    by simp_all
  then show ?thesis by (simp add: variance_ratio_def cdiv_def Let_def)
qed

lemma threshold_fold_ok:
  assumes "\<forall>t \<in> set [a..b]. \<exists>q. variance_ratio hist u0 a b t = Inr q" "0 \<le> a" "b \<le> 255"
  shows "\<exists>s. foldM (\<lambda>t (proportion, threshold). rbind (variance_ratio hist u0 a b t) (\<lambda>q.
      Inr (if fp_lt proportion q then (q, t) else (proportion, threshold)))) [a..b] (Fin (- 1), 0) =
    Inr s \<and> 0 \<le> snd s \<and> snd s \<le> 255"
proof (rule foldM_invariant)
  fix t and s :: "cfloat \<times> int"
  assume t: "t \<in> set [a..b]" and s: "0 \<le> snd s \<and> snd s \<le> 255"
  obtain q where "variance_ratio hist u0 a b t = Inr q" using assms(1) t by blast
  then show "\<exists>s'. (\<lambda>(proportion, threshold). rbind (variance_ratio hist u0 a b t) (\<lambda>q.
      Inr (if fp_lt proportion q then (q, t) else (proportion, threshold)))) s = Inr s' \<and>
      0 \<le> snd s' \<and> snd s' \<le> 255"
    using s t assms(2,3) by (cases s) auto
qed simp

lemma otsu_ok:
  assumes "length hist = 256" "\<forall>l < 256. 0 \<le> hist ! l" "0 < sum_list hist" "sum_list hist < 2 ^ 31" "n \<noteq> 0"
  shows "\<exists>t. otsu hist n = Inr t \<and> 0 \<le> t \<and> t \<le> 255"
proof -
  have ne: "sum_list hist \<noteq> 0" using assms(3) by simp
  obtain a where a: "first_class hist [0..255] = Some a" "0 \<le> a" "a \<le> 255" "hist ! nat a \<noteq> 0"
    using first_class_some [OF assms(1) ne refl] by blast
  obtain b where b: "first_class hist (rev [0..255]) = Some b" "0 \<le> b" "b \<le> 255" "hist ! nat b \<noteq> 0"
    using first_class_some [OF assms(1) ne set_rev] by blast
  have ratio: "\<forall>t \<in> set [a..b]. \<exists>q. variance_ratio hist u0 a b t = Inr q" for u0
    using variance_ratio_ok [OF assms(1,2,4)] a b by simp
  show ?thesis
    using threshold_fold_ok [OF ratio a(2) b(3), of "fp_of_int F64 (class_sum hist [0..255] sdiv n)"]
      assms(5) a(1) b(1)
    by (force simp: otsu_def cdiv_def simp del: upto.simps)
qed

text \<open>
  On an image with pixels the threshold search never divides by zero and never uses an
  unset bound: every class it averages has pixels. The threshold is a lightness.
\<close>

theorem getThreshold_safe:
  assumes "wf_img im" and "0 < width im" and "0 < height im"
  shows "\<exists>t. getThreshold im = Inr t \<and> 0 \<le> t \<and> t \<le> 255"
proof -
  obtain hist where h: "getHistogram im = Inr hist" "length hist = 256"
    "\<forall>l < 256. hist ! l =
       int (length (filter (\<lambda>x. lightness_at im x = l) (raster (width im) (height im))))"
    using getHistogram_fold [OF assms(1)] by blast
  have "sum_list hist = width im * height im" by (rule hist_total [OF assms(1) h(2,3)])
  moreover have "0 < width im * height im" "int32 (width im * height im)"
    using assms by (simp_all add: wf_img_def)
  ultimately show ?thesis
    using otsu_ok [OF h(2), of "s32 (width im * height im)"] h(1,3) assms(2,3)
    by (simp add: getThreshold_def int32_def)
qed

theorem getThreshold_safe_witness: "\<exists>t. getThreshold sample_img = Inr t \<and> 0 \<le> t \<and> t \<le> 255"
  by (rule getThreshold_safe) simp_all

subsection \<open>The Laplacian\<close>

lemma raster_3: "[0..8] = [0, 1, 2, 3, 4, 5, 6, 7, 8 :: int]"
  by (simp add: upto_rec1)

text \<open>A product with a number up to zero is cut off at zero.\<close>

lemma pix_muli_nonpos:
  "v \<le> 0 \<Longrightarrow> int32 (255 * v) \<Longrightarrow> uint (red (pix_muli p v)) = 0 \<and> uint (green (pix_muli p v)) = 0 \<and>
     uint (blue (pix_muli p v)) = 0"
proof -
  assume v: "v \<le> 0" "int32 (255 * v)"
  have le: "s32 (uint (b :: byte) * v) \<le> 0" for b
  proof -
    have "255 * v \<le> uint b * v" "uint b * v \<le> 0"
      using v(1) by (simp_all add: mult_right_mono_neg mult_nonneg_nonpos)
    then have "int32 (uint b * v)"
      using v(2) by (auto intro: int32_between [OF v(2), of 0] simp: int32_def)
    with \<open>uint b * v \<le> 0\<close> show ?thesis by simp
  qed
  have "limit (s32 (uint (b :: byte) * v)) 0 255 = 0" for b
    using le [of b] by (auto simp: limit_def)
  then show ?thesis by (simp add: pix_muli_def pixel_simps)
qed

lemma pix_muli_1: "red (pix_muli p 1) = red p \<and> green (pix_muli p 1) = green p \<and> blue (pix_muli p 1) = blue p"
proof -
  have "byte_limit (s32 (uint b)) = b" for b :: byte
  proof -
    have "int32 (uint b)"
      by (rule int32_between [of 0 255]) (simp_all add: int32_def)
    then show ?thesis by (simp add: byte_limit_def limit_id)
  qed
  then show ?thesis by (simp add: pix_muli_def pixel_simps)
qed

lemma min_add_chain: "0 \<le> b \<Longrightarrow> min 255 (min 255 a + b) = min 255 (a + b :: int)"
  by (auto simp: min_def)

text \<open>The centre never counts in the Laplacian filter: its weight of minus four is cut off at
  zero by the saturating product, so that the result is the saturated sum of the four
  neighbours, an image brightened and blurred rather than its edges.
\<close>

theorem Laplacian_no_centre:
  assumes "wf_img im" and "(i, j) \<in> set (interior im)"
  shows "\<exists>p. laplacian_at im i j = Inr p \<and>
    uint (red p) = min 255 (uint (red (shown im i (j - 1))) + uint (red (shown im (i - 1) j)) +
      uint (red (shown im (i + 1) j)) + uint (red (shown im i (j + 1)))) \<and>
    uint (green p) = min 255 (uint (green (shown im i (j - 1))) + uint (green (shown im (i - 1) j)) +
      uint (green (shown im (i + 1) j)) + uint (green (shown im i (j + 1)))) \<and>
    uint (blue p) = min 255 (uint (blue (shown im i (j - 1))) + uint (blue (shown im (i - 1) j)) +
      uint (blue (shown im (i + 1) j)) + uint (blue (shown im i (j + 1))))"
proof -
  have ins: "inside im x y" if "\<bar>x - i\<bar> \<le> 1" "\<bar>y - j\<bar> \<le> 1" for x y
    using assms(2) that by (auto simp: set_interior inside_def)
  have get: "Get im x y = Inr (shown im x y)" if "\<bar>x - i\<bar> \<le> 1" "\<bar>y - j\<bar> \<le> 1" for x y
    using Get_shown [OF assms(1) ins [OF that]] .
  have nn: "limit n 0 255 = min 255 n" if "0 \<le> n" for n
    using that by (simp add: limit_eq_max_min min.commute)
  have zero: "uint (red (pix_muli p 0)) = 0 \<and> uint (green (pix_muli p 0)) = 0 \<and> uint (blue (pix_muli p 0)) = 0"
    "uint (red (pix_muli p (- 4))) = 0 \<and> uint (green (pix_muli p (- 4))) = 0 \<and>
     uint (blue (pix_muli p (- 4))) = 0" for p
    using pix_muli_nonpos [of 0 p] pix_muli_nonpos [of "- 4" p] by (simp_all add: int32_def)
  show ?thesis
    unfolding laplacian_at_def raster_3
    by (simp add: get laplacian_mask_def pix_add_def pix_map2_channels zero pix_muli_1 nn
        min_add_chain pixel_simps add.assoc [symmetric])
qed

theorem Laplacian_no_centre_witness:
  "\<exists>p. laplacian_at \<lparr>mimage = replicate 4 (PixelL 10) @ [PixelL 200] @ replicate 4 (PixelL 10),
      clearColor = Pixel0, width = 3, height = 3\<rparr> 1 1 = Inr p \<and> uint (red p) = 40"
proof -
  let ?im = "\<lparr>mimage = replicate 4 (PixelL 10) @ [PixelL 200] @ replicate 4 (PixelL 10),
    clearColor = Pixel0, width = 3, height = 3\<rparr>"
  have "wf_img ?im" "(1, 1) \<in> set (interior ?im)"
    by (simp_all add: wf_img_def int32_def set_interior)
  from Laplacian_no_centre [OF this] show ?thesis
    by (auto simp: shown_def cell_def view_def pix_eq_Pixel0 nth_append)
qed

subsection \<open>Brightness\<close>

lemma pix_add_mono:
  "uint (red p) \<le> uint (red (pix_add p q))" "uint (green p) \<le> uint (green (pix_add p q))"
  "uint (blue p) \<le> uint (blue (pix_add p q))"
  by (simp_all add: pix_add_def pix_map2_channels limit_eq_max_min)

text \<open>The brightness adjustment never darkens. The difference to the wanted lightness is
  converted to an unsigned char, so a negative one is added as 256 less its size; and an image
  without a pixel that is not white divides by zero.
\<close>

theorem Brightness_never_darkens:
  assumes "wf_img im"
  shows "Brightness threshold im = Inl DivByZero \<or>
    (\<exists>t. Brightness threshold im = Inr t \<and> (\<forall>x y. inside im x y \<longrightarrow>
       uint (red (cell im (x, y))) \<le> uint (red (cell t (x, y))) \<and>
       uint (green (cell im (x, y))) \<le> uint (green (cell t (x, y))) \<and>
       uint (blue (cell im (x, y))) \<le> uint (blue (cell t (x, y)))))"
proof -
  let ?g = "\<lambda>x y (average, count).
    if Lightness (shown im x y) \<noteq> 255 then (s32 (average + uint (Lightness (shown im x y))), s32 (count + 1))
    else (average, count)"
  have "\<exists>s. for_each im (\<lambda>i j (average, count). rbind (Get im i j) (\<lambda>p.
      if Lightness p \<noteq> 255 then Inr (s32 (average + uint (Lightness p)), s32 (count + 1))
      else Inr (average, count))) (0, 0) = Inr s"
    by (rule exI, rule for_each_read [where g = ?g]) (auto simp: Get_shown [OF assms])
  then obtain average count where loop: "for_each im (\<lambda>i j (average, count). rbind (Get im i j) (\<lambda>p.
      if Lightness p \<noteq> 255 then Inr (s32 (average + uint (Lightness p)), s32 (count + 1))
      else Inr (average, count))) (0, 0) = Inr (average, count)"
    by auto
  show ?thesis
  proof (cases "count = 0")
    case True
    with loop show ?thesis by (simp add: Brightness_def cdiv_def)
  next
    case False
    let ?q = "PixelI (s32 (threshold - average sdiv count))"
    obtain t where "op_pixel (\<lambda>p. Inr (pix_add p ?q)) im = Inr t"
      "\<forall>x y. inside im x y \<longrightarrow> cell t (x, y) = pix_add (cell im (x, y)) ?q"
      using op_pixel_ok [OF assms, of "\<lambda>p. Inr (pix_add p ?q)" "\<lambda>x y. pix_add (cell im (x, y)) ?q"]
      by auto
    with loop False show ?thesis
      by (simp add: Brightness_def cdiv_def add_assign_pixel_def pix_add_mono)
  qed
qed

theorem Brightness_never_darkens_witness:
  "Brightness 0 sample_img = Inl DivByZero \<or> (\<exists>t. Brightness 0 sample_img = Inr t \<and>
     uint (red (cell sample_img (0, 1))) \<le> uint (red (cell t (0, 1))))"
  using Brightness_never_darkens [OF wf_sample_img, of 0] by (fastforce simp: inside_def)

end
