(* ===== verification/Bmp.thy ===== *)
theory Bmp
  imports Filters
begin

text \<open>
  \<open>ImageUtil::Save\<close> and \<open>ImageUtil::Load\<close>: bitmaps of 8, 24 and 32 bits. A file is the list
  of its bytes; whether \<open>fopen\<close> succeeds is a parameter, and so are the bytes of the
  uninitialised part of the header buffer.
\<close>

subsection \<open>Little-endian numbers\<close>

definition le :: "nat \<Rightarrow> int \<Rightarrow> byte list" where
  "le n x = map (\<lambda>k. word_of_int (x div 256 ^ k)) [0..<n]"

definition un_le :: "byte list \<Rightarrow> int" where
  "un_le bs = foldr (\<lambda>b n. uint b + 256 * n) bs 0"

definition s16 :: "int \<Rightarrow> int" where
  "s16 x = signed_take_bit 15 x"

subsection \<open>Save\<close>

text \<open>The fields of the two headers in the order of their structures, 14 and 40 bytes.\<close>

definition file_header :: "int \<Rightarrow> byte list" where
  "file_header off = [66, 77] @ le 4 0 @ le 2 0 @ le 2 0 @ le 4 off"

definition info_header :: "int \<Rightarrow> int \<Rightarrow> int \<Rightarrow> byte list" where
  "info_header w h bits =
     le 4 40 @ le 4 w @ le 4 h @ le 2 1 @ le 2 bits @ le 4 0 @ le 4 0 @ le 4 0 @ le 4 0 @ le 4 0 @ le 4 0"

definition off_bits :: "int \<Rightarrow> int \<Rightarrow> int" where
  "off_bits bits off = (if bits \<le> 8 then 1024 + off else off)"

text \<open>The header buffer has \<open>bfOffBits\<close> bytes; the copies of the headers must fit into it.\<close>

definition head_data :: "(nat \<Rightarrow> byte) \<Rightarrow> int \<Rightarrow> int \<Rightarrow> int \<Rightarrow> int \<Rightarrow> byte list res" where
  "head_data junk w h bits off =
     (let n = off_bits bits off; hd = file_header n @ info_header w h bits in
      if n < int (length hd) then Inl OutOfBounds
      else Inr (hd @ map junk [length hd..<nat n]))"

definition enc :: "int \<Rightarrow> pixel \<Rightarrow> byte list" where
  "enc bits p =
     (if bits = 8 then [Lightness p]
      else [blue p, green p, red p] @ (if bits = 32 then [0] else []))"

text \<open>One row, and the filler after a row of 24-bit pixels.\<close>

definition padding :: "int \<Rightarrow> int \<Rightarrow> nat" where
  "padding bits w = (if bits = 24 then nat (w smod 4) else 0)"

definition row_bytes :: "int \<Rightarrow> bi_image \<Rightarrow> int \<Rightarrow> byte list res" where
  "row_bytes bits im j =
     rbind (mapM (\<lambda>i. rbind (Get im i j) (\<lambda>p. Inr (enc bits p))) [0..width im - 1]) (\<lambda>bss.
     Inr (concat bss @ replicate (padding bits (width im)) 0))"

definition Save ::
  "bool \<Rightarrow> (nat \<Rightarrow> byte) \<Rightarrow> int \<Rightarrow> int \<Rightarrow> bi_image \<Rightarrow> (bool \<times> byte list \<times> bi_image) res" where
  "Save opened junk bits off im =
     (if \<not> opened then Inr (False, [], im)
      else rbind (head_data junk (width im) (height im) bits off) (\<lambda>head.
        rbind (setHeight (- height im) im) (\<lambda>im.
        rbind (mapM (row_bytes bits im) [0..height im - 1]) (\<lambda>rows.
        rbind (setHeight (- height im) im) (\<lambda>im.
        Inr (True, head @ concat rows, im))))))"

subsection \<open>Load\<close>

text \<open>
  \<open>fread\<close> of one byte: at the end of the file the variable keeps its value, which may be unset.
\<close>

type_synonym channel = "byte option"

definition fread1 :: "channel \<Rightarrow> byte list \<Rightarrow> channel \<times> byte list" where
  "fread1 old bs = (case bs of [] \<Rightarrow> (old, []) | b # rest \<Rightarrow> (Some b, rest))"

definition value_of :: "channel \<Rightarrow> byte res" where
  "value_of c = (case c of None \<Rightarrow> Inl Uninit | Some b \<Rightarrow> Inr b)"

type_synonym load_state = "bi_image \<times> byte list \<times> channel \<times> channel \<times> channel"

definition load_pixel :: "int \<Rightarrow> int \<Rightarrow> int \<Rightarrow> load_state \<Rightarrow> load_state res" where
  "load_pixel bits j i = (\<lambda>(im, bs, r, g, b).
     if bits = 8
     then let (g, bs) = fread1 g bs in
       rbind (value_of g) (\<lambda>gv. rbind (Put i j (PixelL gv) im) (\<lambda>im. Inr (im, bs, r, g, b)))
     else let (b, bs) = fread1 b bs; (g, bs) = fread1 g bs; (r, bs) = fread1 r bs in
       rbind (value_of r) (\<lambda>rv. rbind (value_of g) (\<lambda>gv. rbind (value_of b) (\<lambda>bv.
       rbind (Put i j (PixelRGB rv gv bv) im) (\<lambda>im.
       let (g, bs) = (if bits = 32 then fread1 g bs else (g, bs)) in Inr (im, bs, r, g, b))))))"

definition load_row :: "int \<Rightarrow> int \<Rightarrow> load_state \<Rightarrow> load_state res" where
  "load_row bits j s =
     rbind (foldM (load_pixel bits j) [0..width (fst s) - 1] s) (\<lambda>(im, bs, r, g, b).
     let n = padding bits (width im); skipped = take n bs in
     Inr (im, drop n bs, r, (if skipped = [] then g else Some (last skipped)), b))"

definition read_le :: "byte list \<Rightarrow> nat \<Rightarrow> nat \<Rightarrow> int res" where
  "read_le bs pos n = (if length bs < pos + n then Inl Uninit else Inr (un_le (take n (drop pos bs))))"

definition Load :: "byte list option \<Rightarrow> bi_image \<Rightarrow> bi_image res" where
  "Load file im =
     (case file of None \<Rightarrow> Inl (Thrown ''cannot open the image (biLoadImage)'')
      | Some bs \<Rightarrow>
        let im = Delete im in
        rbind (read_le bs 10 4) (\<lambda>off. rbind (read_le bs 18 4) (\<lambda>w. rbind (read_le bs 22 4) (\<lambda>h.
        rbind (read_le bs 28 2) (\<lambda>bits.
        let off = s32 off; w = s32 w; h = s32 h; bits = s16 bits in
        rbind (Create w h) (\<lambda>im.
        rbind (foldM (load_row bits) [0..height im - 1]
                (im, drop (if off < 0 then 30 else nat off) bs, None, None, None)) (\<lambda>(im, _).
        setHeight (- height im) im)))))))"

subsection \<open>Numbers and positions\<close>

lemma length_le [simp]: "length (le n x) = n"
  by (simp add: le_def)

lemma le_Suc: "le (Suc n) x = word_of_int x # le n (x div 256)"
  by (simp add: le_def map_upt_Suc zdiv_zmult2_eq del: upt_Suc)

lemma un_le_le: "un_le (le n x) = x mod 256 ^ n"
proof (induction n arbitrary: x)
  case 0
  then show ?case by (simp add: le_def un_le_def)
next
  case (Suc n)
  have "un_le (le (Suc n) x) = uint (word_of_int x :: byte) + 256 * un_le (le n (x div 256))"
    by (simp add: le_Suc un_le_def)
  also have "\<dots> = x mod 256 + 256 * (x div 256 mod 256 ^ n)"
    using Suc by (simp add: uint_word_of_int)
  also have "\<dots> = x mod (256 * 256 ^ n)"
    by (simp only: zmod_zmult2_eq [of "256 ^ n" x 256] zero_le_power zero_le_numeral add.commute)
  finally show ?case by simp
qed

lemma s32_le4 [simp]: "int32 x \<Longrightarrow> s32 (x mod 256 ^ 4) = x"
proof -
  assume x: "int32 x"
  have "x mod 256 ^ 4 = take_bit 32 x" by (simp add: take_bit_eq_mod)
  then have "s32 (x mod 256 ^ 4) = s32 x" by (simp add: s32_def signed_take_bit_take_bit)
  with x show ?thesis by simp
qed

lemma s16_le2: "0 \<le> x \<Longrightarrow> x < 2 ^ 15 \<Longrightarrow> s16 (x mod 256 ^ 2) = x"
  by (simp add: s16_def signed_take_bit_int_eq_self)

lemma read_le_at:
  "length a = pos \<Longrightarrow> read_le (a @ le n x @ c) pos n = Inr (x mod 256 ^ n)"
  by (simp add: read_le_def un_le_le)

lemma header_length: "length (file_header n @ info_header w h bits) = 54"
  by (simp add: file_header_def info_header_def)

lemma header_reads:
  "read_le (file_header off @ info_header w h bits @ c) 10 4 = Inr (off mod 256 ^ 4)"
  "read_le (file_header off @ info_header w h bits @ c) 18 4 = Inr (w mod 256 ^ 4)"
  "read_le (file_header off @ info_header w h bits @ c) 22 4 = Inr (h mod 256 ^ 4)"
  "read_le (file_header off @ info_header w h bits @ c) 28 2 = Inr (bits mod 256 ^ 2)"
proof -
  let ?a = "[66, 77] @ le 4 0 @ le 2 0 @ le 2 0"
  let ?z = "le 4 0 @ le 4 0 @ le 4 0 @ le 4 0 @ le 4 0 @ le 4 0 @ c"
  have "read_le (?a @ le 4 off @ info_header w h bits @ c) 10 4 = Inr (off mod 256 ^ 4)"
    by (rule read_le_at) simp
  moreover have "read_le ((?a @ le 4 off @ le 4 40) @ le 4 w @ le 4 h @ le 2 1 @ le 2 bits @ ?z) 18 4 =
    Inr (w mod 256 ^ 4)" by (rule read_le_at) simp
  moreover have "read_le ((?a @ le 4 off @ le 4 40 @ le 4 w) @ le 4 h @ le 2 1 @ le 2 bits @ ?z) 22 4 =
    Inr (h mod 256 ^ 4)" by (rule read_le_at) simp
  moreover have "read_le ((?a @ le 4 off @ le 4 40 @ le 4 w @ le 4 h @ le 2 1) @ le 2 bits @ ?z) 28 2 =
    Inr (bits mod 256 ^ 2)" by (rule read_le_at) simp
  ultimately show "read_le (file_header off @ info_header w h bits @ c) 10 4 = Inr (off mod 256 ^ 4)"
    "read_le (file_header off @ info_header w h bits @ c) 18 4 = Inr (w mod 256 ^ 4)"
    "read_le (file_header off @ info_header w h bits @ c) 22 4 = Inr (h mod 256 ^ 4)"
    "read_le (file_header off @ info_header w h bits @ c) 28 2 = Inr (bits mod 256 ^ 2)"
    by (simp_all only: file_header_def info_header_def append_assoc)
qed

subsection \<open>Rows\<close>

text \<open>What a pixel is after it has been written and read.\<close>

definition dec :: "int \<Rightarrow> pixel \<Rightarrow> pixel" where
  "dec bits p = (if bits = 8 then PixelL (Lightness p) else PixelRGB (red p) (green p) (blue p))"

definition row_of :: "int \<Rightarrow> bi_image \<Rightarrow> int \<Rightarrow> byte list" where
  "row_of bits im j = concat (map (\<lambda>i. enc bits (shown im i j)) [0..width im - 1]) @
     replicate (padding bits (width im)) 0"

lemma row_bytes_ok:
  assumes "wf_img im" and "0 \<le> j" and "j < height im"
  shows "row_bytes bits im j = Inr (row_of bits im j)"
proof -
  have "mapM (\<lambda>i. rbind (Get im i j) (\<lambda>p. Inr (enc bits p))) [0..width im - 1] =
    Inr (map (\<lambda>i. enc bits (shown im i j)) [0..width im - 1])"
    by (rule mapM_total) (use assms in \<open>simp add: Get_shown inside_def\<close>)
  then show ?thesis by (simp add: row_bytes_def row_of_def)
qed

lemma load_pixel_enc:
  "\<exists>r' g' b'. load_pixel bits j i (im, enc bits p @ rest, r, g, b) =
     rbind (Put i j (dec bits p) im) (\<lambda>im. Inr (im, rest, r', g', b'))"
  by (auto simp: load_pixel_def enc_def dec_def fread1_def value_of_def Let_def split: prod.splits)

definition chunks :: "int \<Rightarrow> (int \<Rightarrow> pixel) \<Rightarrow> int \<Rightarrow> int \<Rightarrow> byte list" where
  "chunks bits f k n = concat (map (\<lambda>i. enc bits (f i)) [k..n])"

lemma chunks_step: "k \<le> n \<Longrightarrow> chunks bits f k n = enc bits (f k) @ chunks bits f (k + 1) n"
  by (simp add: chunks_def upto_rec1)

text \<open>One pixel of a row.\<close>

lemma load_pixel_row:
  assumes "wf_img im" "inside im i j" "shape_of t = shape_of im"
    and "\<And>x y. inside im x y \<Longrightarrow> cell t (x, y) = (if y = j \<and> x < i then dec bits (f x) else cell im (x, y))"
  shows "\<exists>r' g' b'. load_pixel bits j i (t, enc bits (f i) @ rest, r, g, b) =
      Inr (set_cell t (i, j) (dec bits (f i)), rest, r', g', b') \<and>
    (\<forall>x y. inside im x y \<longrightarrow> cell (set_cell t (i, j) (dec bits (f i))) (x, y) =
      (if y = j \<and> x < i + 1 then dec bits (f x) else cell im (x, y)))"
proof -
  have wft: "wf_img t" by (rule wf_shape [OF assms(3,1)])
  have "inside t i j" using assms(2) by (simp only: inside_shape [OF assms(3)])
  then have put: "Put i j (dec bits (f i)) t = Inr (set_cell t (i, j) (dec bits (f i)))"
    by (rule Put_in [OF wft])
  have "cell (set_cell t (i, j) (dec bits (f i))) (x, y) =
      (if (i, j) = (x, y) then dec bits (f i) else cell t (x, y))" if "inside im x y" for x y
    using that assms(1,2) by (intro bi.rd_wr) (simp_all only: assms(3) ok_shape_inside)
  then have "cell (set_cell t (i, j) (dec bits (f i))) (x, y) =
      (if y = j \<and> x < i + 1 then dec bits (f x) else cell im (x, y))" if "inside im x y" for x y
    using that assms(4) [OF that] by auto
  then show ?thesis
    using load_pixel_enc [of bits j i t "f i" rest r g b] put by auto
qed

lemma load_row_ok:
  assumes wf: "wf_img im" and j: "0 \<le> j" "j < height im"
  shows "\<exists>t r' g' b'. load_row bits j (im, chunks bits f 0 (width im - 1) @
      replicate (padding bits (width im)) 0 @ rest, r, g, b) = Inr (t, rest, r', g', b') \<and>
    shape_of t = shape_of im \<and>
    (\<forall>x y. inside im x y \<longrightarrow> cell t (x, y) = (if y = j then dec bits (f x) else cell im (x, y)))"
proof -
  let ?W = "width im" and ?pad = "replicate (padding bits (width im)) 0 @ rest"
  let ?P = "\<lambda>k (t, bs, _ :: channel \<times> channel \<times> channel). bs = chunks bits f k (?W - 1) @ ?pad \<and>
    shape_of t = shape_of im \<and>
    (\<forall>x y. inside im x y \<longrightarrow> cell t (x, y) = (if y = j \<and> x < k then dec bits (f x) else cell im (x, y)))"
  have "\<exists>s. foldM (load_pixel bits j) [0..?W - 1] (im, chunks bits f 0 (?W - 1) @ ?pad, r, g, b) = Inr s \<and>
    ?P ((?W - 1) + 1) s"
  proof (rule upto_loop)
    fix i s assume i: "0 \<le> i" "i \<le> ?W - 1" and P: "?P i s"
    obtain t bs r1 g1 b1 where s: "s = (t, bs, r1, g1, b1)" by (cases s)
    note p = P [unfolded s prod.case]
    have bs: "bs = enc bits (f i) @ (chunks bits f (i + 1) (?W - 1) @ ?pad)"
      using p chunks_step [OF i(2)] by simp
    have ins: "inside im i j" using i j by (simp add: inside_def)
    have sh: "shape_of t = shape_of im" using p by simp
    obtain r2 g2 b2 where "load_pixel bits j i s =
      Inr (set_cell t (i, j) (dec bits (f i)), chunks bits f (i + 1) (?W - 1) @ ?pad, r2, g2, b2)"
      "\<forall>x y. inside im x y \<longrightarrow> cell (set_cell t (i, j) (dec bits (f i))) (x, y) =
        (if y = j \<and> x < i + 1 then dec bits (f x) else cell im (x, y))"
      using load_pixel_row [OF wf ins sh, of bits f "chunks bits f (i + 1) (?W - 1) @ ?pad" r1 g1 b1] p
      unfolding s bs by blast
    moreover have "shape_of (set_cell t (i, j) (dec bits (f i))) = shape_of im"
      using sh by (simp only: bi.shape_wr)
    ultimately have "?P (i + 1) (set_cell t (i, j) (dec bits (f i)),
        chunks bits f (i + 1) (?W - 1) @ ?pad, r2, g2, b2)"
      "load_pixel bits j i s =
        Inr (set_cell t (i, j) (dec bits (f i)), chunks bits f (i + 1) (?W - 1) @ ?pad, r2, g2, b2)"
      by simp_all
    then show "\<exists>s'. load_pixel bits j i s = Inr s' \<and> ?P (i + 1) s'" by blast
  qed (use wf in \<open>auto simp: wf_img_def inside_def\<close>)
  then obtain s where s: "foldM (load_pixel bits j) [0..?W - 1]
      (im, chunks bits f 0 (?W - 1) @ ?pad, r, g, b) = Inr s" "?P ((?W - 1) + 1) s"
    by blast
  obtain t bs r1 g1 b1 where st: "s = (t, bs, r1, g1, b1)" by (cases s)
  note l = s [unfolded st]
  then have "bs = ?pad" "shape_of t = shape_of im"
    "\<forall>x y. inside im x y \<longrightarrow> cell t (x, y) = (if y = j then dec bits (f x) else cell im (x, y))"
    by (auto simp: chunks_def inside_def)
  with l(1) show ?thesis by (auto simp: load_row_def Let_def shape_eq)
qed

lemma load_rows_ok:
  assumes wf: "wf_img im"
  shows "\<exists>t s. foldM (load_row bits) [0..height im - 1]
      (im, concat (map (\<lambda>j. chunks bits (f j) 0 (width im - 1) @ replicate (padding bits (width im)) 0)
        [0..height im - 1]), None, None, None) = Inr (t, s) \<and>
    shape_of t = shape_of im \<and> (\<forall>x y. inside im x y \<longrightarrow> cell t (x, y) = dec bits (f y x))"
proof -
  let ?row = "\<lambda>j. chunks bits (f j) 0 (width im - 1) @ replicate (padding bits (width im)) 0"
  let ?P = "\<lambda>k (t, bs, _ :: channel \<times> channel \<times> channel). bs = concat (map ?row [k..height im - 1]) \<and>
    shape_of t = shape_of im \<and> (\<forall>x y. inside im x y \<longrightarrow> y < k \<longrightarrow> cell t (x, y) = dec bits (f y x))"
  have "\<exists>s. foldM (load_row bits) [0..height im - 1]
      (im, concat (map ?row [0..height im - 1]), None, None, None) = Inr s \<and> ?P ((height im - 1) + 1) s"
  proof (rule upto_loop)
    fix j s assume j: "0 \<le> j" "j \<le> height im - 1" and P: "?P j s"
    obtain t bs r1 g1 b1 where s: "s = (t, bs, r1, g1, b1)" by (cases s)
    note p = P [unfolded s prod.case]
    have sh: "shape_of t = shape_of im" using p by simp
    have wft: "wf_img t" by (rule wf_shape [OF sh wf])
    have d: "width t = width im" "height t = height im" using sh by (simp_all add: shape_eq)
    have bs: "bs = chunks bits (f j) 0 (width t - 1) @ replicate (padding bits (width t)) 0 @
        concat (map ?row [j + 1..height im - 1])"
      using p j(2) by (simp add: upto_rec1 d)
    obtain u r2 g2 b2 where u: "load_row bits j s = Inr (u, concat (map ?row [j + 1..height im - 1]), r2, g2, b2)"
      "shape_of u = shape_of t"
      "\<forall>x y. inside t x y \<longrightarrow> cell u (x, y) = (if y = j then dec bits (f j x) else cell t (x, y))"
      using load_row_ok [OF wft j(1), of bits "f j" "concat (map ?row [j + 1..height im - 1])" r1 g1 b1] j(2)
      unfolding s bs d by auto
    have "inside t x y = inside im x y" for x y by (rule inside_shape [OF sh])
    then have "?P (j + 1) (u, concat (map ?row [j + 1..height im - 1]), r2, g2, b2)"
      using p u(2,3) by (auto simp: zless_add1_eq)
    with u(1) show "\<exists>s'. load_row bits j s = Inr s' \<and> ?P (j + 1) s'" by blast
  qed (use wf in \<open>auto simp: wf_img_def inside_def\<close>)
  then show ?thesis by (fastforce simp: inside_def)
qed

subsection \<open>Round trip\<close>

lemma view_view [simp]: "view c (view c p) = view c p"
  by (simp add: view_def)

lemma view_dec [simp]: "view Pixel0 (dec bits p) = dec bits p"
  by (simp add: view_def pix_eq_def dec_def initialize_def)

lemma Load_parsed:
  assumes "read_le bs 10 4 = Inr a" "read_le bs 18 4 = Inr b" "read_le bs 22 4 = Inr c" "read_le bs 28 2 = Inr d"
    and "s32 a = n" "0 \<le> n" "s32 b = w" "s32 c = h" "s16 d = bits" "drop (nat n) bs = rest"
  shows "Load (Some bs) dest = rbind (Create w h) (\<lambda>im.
    rbind (foldM (load_row bits) [0..height im - 1] (im, rest, None, None, None)) (\<lambda>(im, _).
    setHeight (- height im) im))"
  using assms by (simp add: Load_def Let_def not_less del: upto.simps)

lemma flip_twice: "0 \<le> y \<Longrightarrow> y < h \<Longrightarrow> (h - (h - y) mod h) mod h = (y :: int)"
  by (simp only: mod_diff_right_eq) simp

lemma Save_ok:
  assumes "wf_img im" and "0 < width im" and "0 < height im" and "54 \<le> off_bits bits off"
  shows "\<exists>im1 im2. wf_img im1 \<and> width im1 = width im \<and> height im1 = height im \<and>
    (\<forall>x y. inside im x y \<longrightarrow> shown im1 x y = shown im x ((height im - y) mod height im)) \<and>
    Save True junk bits off im = Inr (True, (file_header (off_bits bits off) @
      info_header (width im) (height im) bits) @ map junk [54..<nat (off_bits bits off)] @
      concat (map (row_of bits im1) [0..height im - 1]), im2)"
proof -
  let ?W = "width im" and ?H = "height im" and ?n = "off_bits bits off"
  let ?hd = "file_header ?n @ info_header ?W ?H bits"
  obtain im1 where f1: "setHeight (- ?H) im = Inr im1" "wf_img im1" "width im1 = ?W" "height im1 = ?H"
    "clearColor im1 = clearColor im" "\<forall>x y. inside im x y \<longrightarrow>
      cell im1 (x, y) = view (clearColor im) (cell im (x, (?H - y) mod ?H))"
    using setHeight_flip [OF assms(1-3)] by blast
  obtain im2 where f2: "setHeight (- height im1) im1 = Inr im2"
    using setHeight_flip [OF f1(2)] f1(3,4) assms(2,3) by auto
  have rows: "mapM (row_bytes bits im1) [0..height im1 - 1] = Inr (map (row_of bits im1) [0..?H - 1])"
    unfolding f1(4) by (rule mapM_total) (simp add: row_bytes_ok f1)
  have head: "head_data junk ?W ?H bits off = Inr (?hd @ map junk [54..<nat ?n])"
    using assms(4) by (simp only: head_data_def Let_def header_length) simp
  have "Save True junk bits off im =
      Inr (True, ?hd @ map junk [54..<nat ?n] @ concat (map (row_of bits im1) [0..?H - 1]), im2)"
    using f1(1) f2 rows by (simp add: Save_def head del: upto.simps)
  moreover have "\<forall>x y. inside im x y \<longrightarrow> shown im1 x y = shown im x ((?H - y) mod ?H)"
    using f1(5,6) by (simp add: shown_def)
  ultimately show ?thesis using f1(2-4) by blast
qed

lemma Load_rows_ok:
  assumes wf: "wf_img im" "0 < width im" "0 < height im"
    and dims: "wf_img im1" "width im1 = width im" "height im1 = height im"
  shows "\<exists>t. rbind (Create (width im) (height im)) (\<lambda>s.
      rbind (foldM (load_row bits) [0..height s - 1]
        (s, concat (map (row_of bits im1) [0..height im - 1]), None, None, None)) (\<lambda>(s, _).
      setHeight (- height s) s)) = Inr t \<and> width t = width im \<and> height t = height im \<and>
    (\<forall>x y. inside im x y \<longrightarrow> cell t (x, y) = dec bits (shown im1 x ((height im - y) mod height im)))"
proof -
  let ?W = "width im" and ?H = "height im"
  obtain s where s: "Create ?W ?H = Inr s" "wf_img s" "width s = ?W" "height s = ?H" "clearColor s = Pixel0"
    using Create_ok [of ?W ?H] wf by (auto simp: wf_img_def)
  have "concat (map (row_of bits im1) [0..?H - 1]) =
      concat (map (\<lambda>j. chunks bits (\<lambda>i. shown im1 i j) 0 (width s - 1) @
      replicate (padding bits (width s)) 0) [0..height s - 1])"
    by (intro arg_cong [where f = concat] map_cong) (simp_all add: row_of_def chunks_def s dims)
  then obtain u st where u: "foldM (load_row bits) [0..height s - 1]
      (s, concat (map (row_of bits im1) [0..?H - 1]), None, None, None) = Inr (u, st)"
    "shape_of u = shape_of s" "\<forall>x y. inside s x y \<longrightarrow> cell u (x, y) = dec bits (shown im1 x y)"
    using load_rows_ok [OF s(2), of bits "\<lambda>j i. shown im1 i j"] by auto
  have wfu: "wf_img u" by (rule wf_shape [OF u(2) s(2)])
  have du: "width u = ?W" "height u = ?H" "clearColor u = Pixel0" using u(2) s by (simp_all add: shape_eq)
  obtain t where t: "setHeight (- height u) u = Inr t" "width t = ?W" "height t = ?H"
    "\<forall>x y. inside u x y \<longrightarrow> cell t (x, y) = view Pixel0 (cell u (x, (?H - y) mod ?H))"
    using setHeight_flip [OF wfu] du wf(2,3) by auto
  have "cell t (x, y) = dec bits (shown im1 x ((?H - y) mod ?H))" if xy: "inside im x y" for x y
  proof -
    have "inside u x y" "inside s x ((?H - y) mod ?H)" using xy by (simp_all add: inside_def du s)
    then show ?thesis using t(4) u(3) by simp
  qed
  then show ?thesis using t(2,3) by (simp only: s(1) u(1) t(1) rbind_Inr prod.case) blast
qed

text \<open>
  C2: an image that is saved and loaded again comes back as it was shown, with 8 bits by its
  lightness, with 24 and 32 bits by its three channels. The two flips of the rows, which leave
  row 0 where it is, undo each other; the header, its junk and the row fillers are skipped.
\<close>

theorem bmp_roundtrip:
  assumes "wf_img im" and "0 < width im" and "0 < height im"
    and "bits \<in> {8, 24, 32}" and "54 \<le> off_bits bits off" and "off_bits bits off < 2 ^ 31"
  shows "\<exists>bs im' t. Save True junk bits off im = Inr (True, bs, im') \<and> Load (Some bs) dest = Inr t \<and>
    width t = width im \<and> height t = height im \<and>
    (\<forall>x y. inside im x y \<longrightarrow> cell t (x, y) =
       (if bits = 8 then PixelL (Lightness (shown im x y))
        else PixelRGB (red (shown im x y)) (green (shown im x y)) (blue (shown im x y))))"
proof -
  let ?W = "width im" and ?H = "height im" and ?n = "off_bits bits off"
  obtain im1 im2 where f: "wf_img im1" "width im1 = ?W" "height im1 = ?H"
    "\<And>x y. inside im x y \<Longrightarrow> shown im1 x y = shown im x ((?H - y) mod ?H)"
    "Save True junk bits off im = Inr (True, (file_header ?n @ info_header ?W ?H bits) @
      map junk [54..<nat ?n] @ concat (map (row_of bits im1) [0..?H - 1]), im2)"
    using Save_ok [OF assms(1-3,5)] by blast
  let ?rows = "concat (map (row_of bits im1) [0..?H - 1])"
  let ?bs = "(file_header ?n @ info_header ?W ?H bits) @ map junk [54..<nat ?n] @ ?rows"
  obtain t where t: "rbind (Create ?W ?H) (\<lambda>s. rbind (foldM (load_row bits) [0..height s - 1]
      (s, ?rows, None, None, None)) (\<lambda>(s, _). setHeight (- height s) s)) = Inr t"
    "width t = ?W" "height t = ?H"
    "\<And>x y. inside im x y \<Longrightarrow> cell t (x, y) = dec bits (shown im1 x ((?H - y) mod ?H))"
    using Load_rows_ok [OF assms(1-3) f(1-3)] by blast
  have small: "int32 ?n" "int32 ?W" "int32 ?H" "0 \<le> bits" "bits < 2 ^ 15"
    using assms int32_extent [OF assms(1-3)] by (auto simp: int32_def)
  have hdr: "read_le ?bs 10 4 = Inr (?n mod 256 ^ 4)" "read_le ?bs 18 4 = Inr (?W mod 256 ^ 4)"
    "read_le ?bs 22 4 = Inr (?H mod 256 ^ 4)" "read_le ?bs 28 2 = Inr (bits mod 256 ^ 2)"
    using header_reads [of ?n ?W ?H bits "map junk [54..<nat ?n] @ ?rows"] by (simp_all only: append_assoc)
  have "length ((file_header ?n @ info_header ?W ?H bits) @ map junk [54..<nat ?n]) = nat ?n"
    using assms(5) header_length [of ?n ?W ?H bits] by simp
  then have skip: "drop (nat ?n) ?bs = ?rows" by (metis append_assoc append_eq_conv_conj)
  have "Load (Some ?bs) dest = Inr t"
    unfolding t(1) [symmetric]
    using assms(5) by (intro Load_parsed [OF hdr, where n = ?n] s32_le4 small s16_le2 skip) simp
  moreover have "cell t (x, y) = dec bits (shown im x y)" if xy: "inside im x y" for x y
  proof -
    have "inside im x ((?H - y) mod ?H)" using xy by (simp add: inside_def)
    moreover have "(?H - (?H - y) mod ?H) mod ?H = y"
      using xy by (intro flip_twice) (simp_all add: inside_def)
    ultimately show ?thesis using t(4) [OF xy] f(4) by simp
  qed
  ultimately show ?thesis
    using f(5) t(2,3) unfolding dec_def by blast
qed

theorem bmp_roundtrip_witness:
  "\<exists>bs im' t. Save True (\<lambda>_. 0) 24 54 sample_img = Inr (True, bs, im') \<and> Load (Some bs) init = Inr t \<and>
     cell t (1, 2) = PixelL 255"
proof -
  have "inside sample_img 1 2" "shown sample_img 1 2 = PixelL 255"
    by (simp_all add: inside_def shown_def sample_img_cell view_def pix_eq_Pixel0)
  moreover have "PixelRGB 255 255 255 = PixelL 255" by (simp add: pixel_simps)
  ultimately show ?thesis
    using bmp_roundtrip [of sample_img 24 54 "\<lambda>_. 0" init] by (fastforce simp: off_bits_def)
qed

end
