(* ===== verification/Number.thy ===== *)
theory Number
  imports CDouble
begin

text \<open>
  The dynamically typed numbers of the base library (\<open>NumberOperatorClass.h\<close>,
  \<open>NumberOperatorClass.cpp\<close>, \<open>NumberClass.cpp\<close>): a double with the tag of the C++ type it was
  stored from. The tag is the \<open>hash_code\<close> of a \<open>typeid\<close>, or 0; it is modelled by the type it
  stands for (\<open>None\<close> for 0), which assumes only that the six hashes differ and are not 0.
\<close>

subsection \<open>The values and arithmetic of the six C++ types\<close>

datatype ctype = CChar | CShort | CInt | CLong | CFloat | CDouble

datatype cval = VChar int | VShort int | VInt int | VLong int | VFloat cfloat | VDouble cfloat

fun ctype_of :: "cval \<Rightarrow> ctype" where
  "ctype_of (VChar _) = CChar"
| "ctype_of (VShort _) = CShort"
| "ctype_of (VInt _) = CInt"
| "ctype_of (VLong _) = CLong"
| "ctype_of (VFloat _) = CFloat"
| "ctype_of (VDouble _) = CDouble"

text \<open>The conversions \<open>(double)v\<close> and, for operands that are not doubles, \<open>(float)v\<close> and \<open>(long)v\<close>.\<close>

fun to_double :: "cval \<Rightarrow> cfloat" where
  "to_double (VChar n) = fp_of_int F64 n"
| "to_double (VShort n) = fp_of_int F64 n"
| "to_double (VInt n) = fp_of_int F64 n"
| "to_double (VLong n) = fp_of_int F64 n"
| "to_double (VFloat x) = fp_conv F64 x"
| "to_double (VDouble x) = x"

fun to_float :: "cval \<Rightarrow> cfloat" where
  "to_float (VChar n) = fp_of_int F32 n"
| "to_float (VShort n) = fp_of_int F32 n"
| "to_float (VInt n) = fp_of_int F32 n"
| "to_float (VLong n) = fp_of_int F32 n"
| "to_float (VFloat x) = x"
| "to_float (VDouble x) = fp_conv F32 x"

fun to_long :: "cval \<Rightarrow> int" where
  "to_long (VChar n) = n"
| "to_long (VShort n) = n"
| "to_long (VInt n) = n"
| "to_long (VLong n) = n"
| "to_long (VFloat x) = fp_to_int x"
| "to_long (VDouble x) = fp_to_int x"

text \<open>A value the type can hold: an int in range, a float that rounding to the format keeps.\<close>

fun wf_cval :: "cval \<Rightarrow> bool" where
  "wf_cval (VChar n) = (- 128 \<le> n \<and> n < 128)"
| "wf_cval (VShort n) = (- 32768 \<le> n \<and> n < 32768)"
| "wf_cval (VInt n) = int32 n"
| "wf_cval (VLong n) = int32 n"
| "wf_cval (VFloat x) = (fp_conv F32 x = x \<and> fp_conv F64 x = x)"
| "wf_cval (VDouble x) = (fp_conv F64 x = x)"

text \<open>
  The built-in operators after the usual arithmetic conversions. \<open>int\<close> and \<open>long\<close> are both
  32 bits wide on the target; their division traps on a zero divisor and on
  \<open>INT_MIN / -1\<close>, the two cases of the processor's divide error.
\<close>

datatype aop = Add | Sub | Mul | Div

fun float_op :: "fmt \<Rightarrow> aop \<Rightarrow> cfloat \<Rightarrow> cfloat \<Rightarrow> cfloat" where
  "float_op F Add = fp_add F"
| "float_op F Sub = fp_sub F"
| "float_op F Mul = fp_mul F"
| "float_op F Div = fp_div F"

fun int_op :: "aop \<Rightarrow> int \<Rightarrow> int \<Rightarrow> int res" where
  "int_op Add a b = Inr (s32 (a + b))"
| "int_op Sub a b = Inr (s32 (a - b))"
| "int_op Mul a b = Inr (s32 (a * b))"
| "int_op Div a b = (if a = - (2 ^ 31) \<and> b = -1 then Inl DivByZero else cdiv a b)"

definition arith :: "aop \<Rightarrow> cval \<Rightarrow> cval \<Rightarrow> cval res" where
  "arith op a b = (
     if ctype_of a = CDouble \<or> ctype_of b = CDouble
     then Inr (VDouble (float_op F64 op (to_double a) (to_double b)))
     else if ctype_of a = CFloat \<or> ctype_of b = CFloat
     then Inr (VFloat (float_op F32 op (to_float a) (to_float b)))
     else rbind (int_op op (to_long a) (to_long b)) (\<lambda>n.
       Inr (if ctype_of a = CLong \<or> ctype_of b = CLong then VLong n else VInt n)))"

subsection \<open>The state and its constructors\<close>

record number =
  nvalue :: cfloat
  ntype :: "ctype option"

definition NumberOperator :: number where
  "NumberOperator = \<lparr>nvalue = Fin 0, ntype = None\<rparr>"

text \<open>\<open>num << v\<close>, which the six converting constructors run on a fresh object.\<close>

definition store_num :: "cval \<Rightarrow> number" where
  "store_num v = \<lparr>nvalue = to_double v, ntype = Some (ctype_of v)\<rparr>"

definition NumberOperator_val :: "cval \<Rightarrow> number" where
  "NumberOperator_val v = store_num v"

definition NumberOperator_copy :: "number \<Rightarrow> number" where
  "NumberOperator_copy num = \<lparr>nvalue = nvalue num, ntype = ntype num\<rparr>"

text \<open>\<open>Num << num\<close> for a variable \<open>Num\<close> of the given type: the cast \<open>(T)num.value\<close>.\<close>

fun load_num :: "ctype \<Rightarrow> number \<Rightarrow> cval" where
  "load_num CChar num = VChar (fp_to_schar (nvalue num))"
| "load_num CShort num = VShort (signed_take_bit 15 (fp_to_int (nvalue num)))"
| "load_num CInt num = VInt (fp_to_int (nvalue num))"
| "load_num CLong num = VLong (fp_to_int (nvalue num))"
| "load_num CFloat num = VFloat (fp_conv F32 (nvalue num))"
| "load_num CDouble num = VDouble (nvalue num)"

definition isChar :: "number \<Rightarrow> bool" where
  "isChar num \<longleftrightarrow> ntype num = Some CChar"

definition isShort :: "number \<Rightarrow> bool" where
  "isShort num \<longleftrightarrow> ntype num = Some CShort"

definition isInt :: "number \<Rightarrow> bool" where
  "isInt num \<longleftrightarrow> ntype num = Some CInt"

definition isLong :: "number \<Rightarrow> bool" where
  "isLong num \<longleftrightarrow> ntype num = Some CLong"

definition isFloat :: "number \<Rightarrow> bool" where
  "isFloat num \<longleftrightarrow> ntype num = Some CFloat"

definition isDouble :: "number \<Rightarrow> bool" where
  "isDouble num \<longleftrightarrow> ntype num = Some CDouble"

definition getType :: "number \<Rightarrow> string option" where
  "getType num = (
     if isChar num then Some ''char''
     else if isShort num then Some ''short''
     else if isInt num then Some ''int''
     else if isLong num then Some ''long''
     else if isFloat num then Some ''float''
     else if isDouble num then Some ''double''
     else None)"

lemmas isType_defs = isChar_def isShort_def isInt_def isLong_def isFloat_def isDouble_def

subsection \<open>The operator templates\<close>

text \<open>
  Each template loads the number into a variable of its own type and applies the built-in
  operator, the result being stored as the type the operator gives. The last branch, for a
  number that was never stored to, adds in all eight templates.
\<close>

definition store_res :: "cval res \<Rightarrow> number res" where
  "store_res r = rbind r (\<lambda>v. Inr (store_num v))"

definition num_plus :: "number \<Rightarrow> cval \<Rightarrow> number res" where
  "num_plus num v = (
     if isDouble num then store_res (arith Add (load_num CDouble num) v)
     else if isFloat num then store_res (arith Add (load_num CFloat num) v)
     else if isLong num then store_res (arith Add (load_num CLong num) v)
     else if isInt num then store_res (arith Add (load_num CInt num) v)
     else if isShort num then store_res (arith Add (load_num CShort num) v)
     else if isChar num then store_res (arith Add (load_num CChar num) v)
     else store_res (arith Add (load_num CDouble num) v))"

definition plus_num :: "cval \<Rightarrow> number \<Rightarrow> number res" where
  "plus_num v num = (
     if isDouble num then store_res (arith Add v (load_num CDouble num))
     else if isFloat num then store_res (arith Add v (load_num CFloat num))
     else if isLong num then store_res (arith Add v (load_num CLong num))
     else if isInt num then store_res (arith Add v (load_num CInt num))
     else if isShort num then store_res (arith Add v (load_num CShort num))
     else if isChar num then store_res (arith Add v (load_num CChar num))
     else store_res (arith Add (load_num CDouble num) v))"

definition num_minus :: "number \<Rightarrow> cval \<Rightarrow> number res" where
  "num_minus num v = (
     if isDouble num then store_res (arith Sub (load_num CDouble num) v)
     else if isFloat num then store_res (arith Sub (load_num CFloat num) v)
     else if isLong num then store_res (arith Sub (load_num CLong num) v)
     else if isInt num then store_res (arith Sub (load_num CInt num) v)
     else if isShort num then store_res (arith Sub (load_num CShort num) v)
     else if isChar num then store_res (arith Sub (load_num CChar num) v)
     else store_res (arith Add (load_num CDouble num) v))"

definition minus_num :: "cval \<Rightarrow> number \<Rightarrow> number res" where
  "minus_num v num = (
     if isDouble num then store_res (arith Sub v (load_num CDouble num))
     else if isFloat num then store_res (arith Sub v (load_num CFloat num))
     else if isLong num then store_res (arith Sub v (load_num CLong num))
     else if isInt num then store_res (arith Sub v (load_num CInt num))
     else if isShort num then store_res (arith Sub v (load_num CShort num))
     else if isChar num then store_res (arith Sub v (load_num CChar num))
     else store_res (arith Add (load_num CDouble num) v))"

definition num_times :: "number \<Rightarrow> cval \<Rightarrow> number res" where
  "num_times num v = (
     if isDouble num then store_res (arith Mul (load_num CDouble num) v)
     else if isFloat num then store_res (arith Mul (load_num CFloat num) v)
     else if isLong num then store_res (arith Mul (load_num CLong num) v)
     else if isInt num then store_res (arith Mul (load_num CInt num) v)
     else if isShort num then store_res (arith Mul (load_num CShort num) v)
     else if isChar num then store_res (arith Mul (load_num CChar num) v)
     else store_res (arith Add (load_num CDouble num) v))"

definition times_num :: "cval \<Rightarrow> number \<Rightarrow> number res" where
  "times_num v num = (
     if isDouble num then store_res (arith Mul v (load_num CDouble num))
     else if isFloat num then store_res (arith Mul v (load_num CFloat num))
     else if isLong num then store_res (arith Mul v (load_num CLong num))
     else if isInt num then store_res (arith Mul v (load_num CInt num))
     else if isShort num then store_res (arith Mul v (load_num CShort num))
     else if isChar num then store_res (arith Mul v (load_num CChar num))
     else store_res (arith Add (load_num CDouble num) v))"

definition num_divide :: "number \<Rightarrow> cval \<Rightarrow> number res" where
  "num_divide num v = (
     if isDouble num then store_res (arith Div (load_num CDouble num) v)
     else if isFloat num then store_res (arith Div (load_num CFloat num) v)
     else if isLong num then store_res (arith Div (load_num CLong num) v)
     else if isInt num then store_res (arith Div (load_num CInt num) v)
     else if isShort num then store_res (arith Div (load_num CShort num) v)
     else if isChar num then store_res (arith Div (load_num CChar num) v)
     else store_res (arith Add (load_num CDouble num) v))"

definition divide_num :: "cval \<Rightarrow> number \<Rightarrow> number res" where
  "divide_num v num = (
     if isDouble num then store_res (arith Div v (load_num CDouble num))
     else if isFloat num then store_res (arith Div v (load_num CFloat num))
     else if isLong num then store_res (arith Div v (load_num CLong num))
     else if isInt num then store_res (arith Div v (load_num CInt num))
     else if isShort num then store_res (arith Div v (load_num CShort num))
     else if isChar num then store_res (arith Div v (load_num CChar num))
     else store_res (arith Add (load_num CDouble num) v))"

text \<open>
  The compound templates. \<open>num op= v\<close> replaces the number; \<open>v op= num\<close> leaves the value on its
  left as it was and replaces the number on its right. The result is the pair of the
  operands after the call; what is returned is the number of that pair.
\<close>

definition num_plus_assign :: "number \<Rightarrow> cval \<Rightarrow> (number \<times> cval) res" where
  "num_plus_assign num v = rbind (num_plus num v) (\<lambda>r. Inr (r, v))"

definition plus_assign_num :: "cval \<Rightarrow> number \<Rightarrow> (cval \<times> number) res" where
  "plus_assign_num v num = rbind (plus_num v num) (\<lambda>r. Inr (v, r))"

definition num_minus_assign :: "number \<Rightarrow> cval \<Rightarrow> (number \<times> cval) res" where
  "num_minus_assign num v = rbind (num_minus num v) (\<lambda>r. Inr (r, v))"

definition minus_assign_num :: "cval \<Rightarrow> number \<Rightarrow> (cval \<times> number) res" where
  "minus_assign_num v num = rbind (minus_num v num) (\<lambda>r. Inr (v, r))"

definition num_times_assign :: "number \<Rightarrow> cval \<Rightarrow> (number \<times> cval) res" where
  "num_times_assign num v = rbind (num_times num v) (\<lambda>r. Inr (r, v))"

definition times_assign_num :: "cval \<Rightarrow> number \<Rightarrow> (cval \<times> number) res" where
  "times_assign_num v num = rbind (times_num v num) (\<lambda>r. Inr (v, r))"

definition num_divide_assign :: "number \<Rightarrow> cval \<Rightarrow> (number \<times> cval) res" where
  "num_divide_assign num v = rbind (num_divide num v) (\<lambda>r. Inr (r, v))"

definition divide_assign_num :: "cval \<Rightarrow> number \<Rightarrow> (cval \<times> number) res" where
  "divide_assign_num v num = rbind (divide_num v num) (\<lambda>r. Inr (v, r))"

text \<open>The templates by their operator, to state what they share.\<close>

fun num_op :: "aop \<Rightarrow> number \<Rightarrow> cval \<Rightarrow> number res" where
  "num_op Add = num_plus"
| "num_op Sub = num_minus"
| "num_op Mul = num_times"
| "num_op Div = num_divide"

fun op_num :: "aop \<Rightarrow> cval \<Rightarrow> number \<Rightarrow> number res" where
  "op_num Add = plus_num"
| "op_num Sub = minus_num"
| "op_num Mul = times_num"
| "op_num Div = divide_num"

subsection \<open>Number\<close>

text \<open>
  \<open>Number\<close> adds operators between two numbers: the left operand takes part as the double it
  holds, the right one is loaded as its own type, so the result is always a double.
\<close>

definition Number :: number where
  "Number = NumberOperator"

definition Number_copy :: "number \<Rightarrow> number" where
  "Number_copy num = \<lparr>nvalue = nvalue num, ntype = ntype num\<rparr>"

definition Number_of_operator :: "number \<Rightarrow> number" where
  "Number_of_operator num = num"

definition Number_val :: "cval \<Rightarrow> number" where
  "Number_val v = store_num v"

definition Number_plus :: "number \<Rightarrow> number \<Rightarrow> number res" where
  "Number_plus this num = (
     if isDouble num then store_res (arith Add (VDouble (nvalue this)) (load_num CDouble num))
     else if isFloat num then store_res (arith Add (VDouble (nvalue this)) (load_num CFloat num))
     else if isLong num then store_res (arith Add (VDouble (nvalue this)) (load_num CLong num))
     else if isInt num then store_res (arith Add (VDouble (nvalue this)) (load_num CInt num))
     else if isShort num then store_res (arith Add (VDouble (nvalue this)) (load_num CShort num))
     else if isChar num then store_res (arith Add (VDouble (nvalue this)) (load_num CChar num))
     else store_res (arith Add (VDouble (nvalue this)) (VDouble (nvalue num))))"

definition Number_minus :: "number \<Rightarrow> number \<Rightarrow> number res" where
  "Number_minus this num = (
     if isDouble num then store_res (arith Sub (VDouble (nvalue this)) (load_num CDouble num))
     else if isFloat num then store_res (arith Sub (VDouble (nvalue this)) (load_num CFloat num))
     else if isLong num then store_res (arith Sub (VDouble (nvalue this)) (load_num CLong num))
     else if isInt num then store_res (arith Sub (VDouble (nvalue this)) (load_num CInt num))
     else if isShort num then store_res (arith Sub (VDouble (nvalue this)) (load_num CShort num))
     else if isChar num then store_res (arith Sub (VDouble (nvalue this)) (load_num CChar num))
     else store_res (arith Sub (VDouble (nvalue this)) (VDouble (nvalue num))))"

definition Number_times :: "number \<Rightarrow> number \<Rightarrow> number res" where
  "Number_times this num = (
     if isDouble num then store_res (arith Mul (VDouble (nvalue this)) (load_num CDouble num))
     else if isFloat num then store_res (arith Mul (VDouble (nvalue this)) (load_num CFloat num))
     else if isLong num then store_res (arith Mul (VDouble (nvalue this)) (load_num CLong num))
     else if isInt num then store_res (arith Mul (VDouble (nvalue this)) (load_num CInt num))
     else if isShort num then store_res (arith Mul (VDouble (nvalue this)) (load_num CShort num))
     else if isChar num then store_res (arith Mul (VDouble (nvalue this)) (load_num CChar num))
     else store_res (arith Mul (VDouble (nvalue this)) (VDouble (nvalue num))))"

definition Number_divide :: "number \<Rightarrow> number \<Rightarrow> number res" where
  "Number_divide this num = (
     if isDouble num then store_res (arith Div (VDouble (nvalue this)) (load_num CDouble num))
     else if isFloat num then store_res (arith Div (VDouble (nvalue this)) (load_num CFloat num))
     else if isLong num then store_res (arith Div (VDouble (nvalue this)) (load_num CLong num))
     else if isInt num then store_res (arith Div (VDouble (nvalue this)) (load_num CInt num))
     else if isShort num then store_res (arith Div (VDouble (nvalue this)) (load_num CShort num))
     else if isChar num then store_res (arith Div (VDouble (nvalue this)) (load_num CChar num))
     else store_res (arith Div (VDouble (nvalue this)) (VDouble (nvalue num))))"

definition Number_plus_assign :: "number \<Rightarrow> number \<Rightarrow> number res" where
  "Number_plus_assign this num = Number_plus this num"

definition Number_minus_assign :: "number \<Rightarrow> number \<Rightarrow> number res" where
  "Number_minus_assign this num = Number_minus this num"

definition Number_times_assign :: "number \<Rightarrow> number \<Rightarrow> number res" where
  "Number_times_assign this num = Number_times this num"

definition Number_divide_assign :: "number \<Rightarrow> number \<Rightarrow> number res" where
  "Number_divide_assign this num = Number_divide this num"

fun Number_op :: "aop \<Rightarrow> number \<Rightarrow> number \<Rightarrow> number res" where
  "Number_op Add = Number_plus"
| "Number_op Sub = Number_minus"
| "Number_op Mul = Number_times"
| "Number_op Div = Number_divide"

subsection \<open>What a number keeps\<close>

lemma int32_53: "int32 n \<Longrightarrow> \<bar>n\<bar> < 2 ^ 53"
  by (auto simp: int32_def)

lemma to_double_int: "int32 n \<Longrightarrow> fp_of_int F64 n = Fin (of_int n)"
  by (rule fp_of_int_Fin) (rule int32_53)

lemma small_int32: "- 32768 \<le> n \<Longrightarrow> n < 32768 \<Longrightarrow> int32 (n :: int)"
  by (simp add: int32_def)

lemma load_store: "wf_cval a \<Longrightarrow> load_num (ctype_of a) (store_num a) = a"
  by (cases a)
    (auto simp: store_num_def to_double_int small_int32 fp_to_schar_def signed_take_bit_int_eq_self)

lemma ntype_store [simp]: "ntype (store_num a) = Some (ctype_of a)"
  by (simp add: store_num_def)

lemmas num_op_defs = num_plus_def num_minus_def num_times_def num_divide_def
lemmas op_num_defs = plus_num_def minus_num_def times_num_def divide_num_def
lemmas Number_op_defs = Number_plus_def Number_minus_def Number_times_def Number_divide_def

lemma num_op_typed: "ntype num = Some t \<Longrightarrow> num_op op num v = store_res (arith op (load_num t num) v)"
  by (cases op; cases t) (simp_all add: num_op_defs isType_defs)

lemma op_num_typed: "ntype num = Some t \<Longrightarrow> op_num op v num = store_res (arith op v (load_num t num))"
  by (cases op; cases t) (simp_all add: op_num_defs isType_defs)

lemma Number_op_typed:
  "ntype num = Some t \<Longrightarrow>
    Number_op op this num = store_res (arith op (VDouble (nvalue this)) (load_num t num))"
  by (cases op; cases t) (simp_all add: Number_op_defs isType_defs)

lemma Number_op_untyped:
  "ntype num = None \<Longrightarrow>
    Number_op op this num = store_res (arith op (VDouble (nvalue this)) (VDouble (nvalue num)))"
  by (cases op) (simp_all add: Number_op_defs isType_defs)

text \<open>A number that holds a value of one of the six types computes with any second operand,
  on either side, exactly as the built-in operator of C++ does on the value itself, the result
  being stored as the type the built-in operator gives (its failures included).\<close>

theorem typed_ops_builtin:
  assumes "wf_cval a"
  shows "num_op op (store_num a) v = store_res (arith op a v) \<and>
    op_num op v (store_num a) = store_res (arith op v a)"
  using assms by (simp add: num_op_typed op_num_typed load_store)

theorem typed_ops_builtin_witness:
  "num_op Div (store_num (VInt 7)) (VInt 2) = store_res (arith Div (VInt 7) (VInt 2)) \<and>
    op_num Div (VInt 2) (store_num (VInt 7)) = store_res (arith Div (VInt 2) (VInt 7))"
  by (rule typed_ops_builtin [of "VInt 7" Div "VInt 2"]) (simp add: int32_def)

text \<open>On a number that was never stored to, all eight operators add: its subtraction,
  multiplication and division, whichever side it is on, give the sum of the two values.\<close>

theorem untyped_ops_add:
  assumes "ntype num = None"
  shows "num_op op num v = Inr (store_num (VDouble (fp_add F64 (nvalue num) (to_double v)))) \<and>
    op_num op v num = Inr (store_num (VDouble (fp_add F64 (nvalue num) (to_double v))))"
  using assms
  by (cases op) (simp_all add: num_op_defs op_num_defs isType_defs store_res_def arith_def)

theorem untyped_ops_add_witness:
  "num_op Mul NumberOperator (VInt 3) = Inr (store_num (VDouble (fp_add F64 (Fin 0) (Fin 3)))) \<and>
    op_num Mul (VInt 3) NumberOperator = Inr (store_num (VDouble (fp_add F64 (Fin 0) (Fin 3))))"
  using untyped_ops_add [of NumberOperator Mul "VInt 3"]
  by (simp add: NumberOperator_def to_double_int int32_def)

text \<open>The double operators are exact on ints.\<close>

lemma fp_add_ints:
  "\<bar>a + b\<bar> < 2 ^ 53 \<Longrightarrow> fp_add F64 (Fin (of_int a)) (Fin (of_int b)) = Fin (of_int (a + b))"
  by (simp add: fp_round_int [of _ "a + b"])

lemma int32_sum53: "int32 a \<Longrightarrow> int32 b \<Longrightarrow> \<bar>a + b\<bar> < 2 ^ 53"
  by (auto simp: int32_def)

text \<open>Adding two ints as \<open>Number\<close>s gives their exact sum as a double, while the template
  adds them as 32-bit ints and wraps; so the two classes agree exactly when the sum fits.\<close>

theorem int_sums:
  assumes "int32 a" "int32 b"
  shows "Number_plus (Number_val (VInt a)) (Number_val (VInt b)) =
      Inr \<lparr>nvalue = Fin (of_int (a + b)), ntype = Some CDouble\<rparr> \<and>
    num_plus (NumberOperator_val (VInt a)) (VInt b) =
      Inr \<lparr>nvalue = Fin (of_int (s32 (a + b))), ntype = Some CInt\<rparr>"
proof -
  have "Number_op Add (store_num (VInt a)) (store_num (VInt b)) =
      Inr \<lparr>nvalue = Fin (of_int (a + b)), ntype = Some CDouble\<rparr>"
    using assms fp_add_ints [OF int32_sum53 [OF assms]]
    by (simp add: Number_op_typed store_res_def arith_def store_num_def to_double_int
        del: Number_op.simps fp_add.simps fp_to_int.simps of_int_add)
  moreover have "num_op Add (store_num (VInt a)) (VInt b) =
      Inr \<lparr>nvalue = Fin (of_int (s32 (a + b))), ntype = Some CInt\<rparr>"
    using assms
    by (simp add: num_op_typed store_res_def arith_def store_num_def to_double_int
        del: num_op.simps fp_to_int.simps)
  ultimately show ?thesis
    by (simp add: Number_val_def NumberOperator_val_def)
qed

theorem int_sums_witness:
  "Number_plus (Number_val (VInt 2147483647)) (Number_val (VInt 1)) =
      Inr \<lparr>nvalue = Fin 2147483648, ntype = Some CDouble\<rparr> \<and>
    num_plus (NumberOperator_val (VInt 2147483647)) (VInt 1) =
      Inr \<lparr>nvalue = Fin (- 2147483648), ntype = Some CInt\<rparr>"
proof -
  have "s32 2147483648 = - 2147483648"
    by (simp add: s32_def signed_take_bit_eq_take_bit_shift take_bit_eq_mod)
  then show ?thesis
    using int_sums [of 2147483647 1] by (simp add: int32_def)
qed

end
