(* ===== verification/Strings.thy ===== *)
theory Strings
  imports Number
begin

text \<open>
  The string class of the base library (\<open>StringClass.cpp\<close>): conversion from numbers,
  splitting, replacing and stripping, character tests and URL encoding. A string is the list
  of its bytes; strings are shorter than \<open>2^31\<close>, so the int loop counters do not wrap.
  \<open>str_at\<close>, \<open>find_char\<close>, \<open>rfind_char\<close> and \<open>find_str\<close> are \<open>at\<close>, \<open>find\<close> and \<open>rfind\<close> of
  \<open>std::string\<close>, with \<open>None\<close> for \<open>npos\<close>.
\<close>

subsection \<open>What the code uses of std::string\<close>

definition str_at :: "string \<Rightarrow> int \<Rightarrow> char res" where
  "str_at s i = (if 0 \<le> i \<and> i < int (length s) then Inr (s ! nat i) else Inl OutOfRange)"

definition find_char :: "string \<Rightarrow> char \<Rightarrow> nat option" where
  "find_char s c = List.find (\<lambda>k. s ! k = c) [0..<length s]"

definition rfind_char :: "string \<Rightarrow> char \<Rightarrow> nat option" where
  "rfind_char s c = List.find (\<lambda>k. s ! k = c) (rev [0..<length s])"

definition find_str :: "string \<Rightarrow> string \<Rightarrow> nat \<Rightarrow> nat option" where
  "find_str s p i = List.find (\<lambda>k. take (length p) (drop k s) = p) [i..<Suc (length s - length p)]"

text \<open>\<open>replace(i, n, to)\<close>.\<close>

definition replace_at :: "string \<Rightarrow> nat \<Rightarrow> nat \<Rightarrow> string \<Rightarrow> string" where
  "replace_at s i n to = take i s @ to @ drop (i + n) s"

subsection \<open>Numbers as text\<close>

text \<open>
  \<open>ss << Num\<close> of the Visual C++ 2010 library: an int type in decimal, a char as itself, a
  float or double as \<open>%.6g\<close>: six significant digits (ties away from zero), trailing zeros
  dropped, an exponent of three digits, and the library's names of the special values.
\<close>

definition digit :: "nat \<Rightarrow> char" where
  "digit n = char_of (if n < 10 then 48 + n else 87 + n)"

fun digits :: "nat \<Rightarrow> nat \<Rightarrow> string" where
  "digits b n = (if b < 2 \<or> n < b then [digit n] else digits b (n div b) @ [digit (n mod b)])"

declare digits.simps [simp del]

definition dec_str :: "int \<Rightarrow> string" where
  "dec_str n = (if n < 0 then CHR ''-'' # digits 10 (nat (- n)) else digits 10 (nat n))"

definition ilog10 :: "rat \<Rightarrow> int" where
  "ilog10 x = (let (p, q) = quotient_of x;
       k = int (length (digits 10 (nat p))) - int (length (digits 10 (nat q)))
     in if 10 powi k \<le> x then k else k - 1)"

definition six_digits :: "rat \<Rightarrow> int \<times> int" where
  "six_digits x = (let e = ilog10 x; m = \<lfloor>x / 10 powi (e - 5) + 1 / 2\<rfloor>
     in if m = 1000000 then (100000, e + 1) else (m, e))"

definition no_zeros :: "string \<Rightarrow> string" where
  "no_zeros s = rev (dropWhile (\<lambda>c. c = CHR ''0'') (rev s))"

definition fraction :: "string \<Rightarrow> string" where
  "fraction s = (if no_zeros s = [] then [] else CHR ''.'' # no_zeros s)"

definition g_pos :: "rat \<Rightarrow> string" where
  "g_pos x = (let (m, e) = six_digits x; d = digits 10 (nat m) in
     if 0 \<le> e \<and> e < 6 then take (nat (e + 1)) d @ fraction (drop (nat (e + 1)) d)
     else if -4 \<le> e \<and> e < 0 then CHR ''0'' # fraction (replicate (nat (- e - 1)) (CHR ''0'') @ d)
     else take 1 d @ fraction (drop 1 d) @ [CHR ''e'', if e < 0 then CHR ''-'' else CHR ''+''] @
       (let x = digits 10 (nat \<bar>e\<bar>) in replicate (3 - length x) (CHR ''0'') @ x))"

fun g_str :: "cfloat \<Rightarrow> string" where
  "g_str (Fin x) = (if x = 0 then ''0'' else if x < 0 then CHR ''-'' # g_pos (- x) else g_pos x)"
| "g_str (Inf neg) = (if neg then ''-1.#INF'' else ''1.#INF'')"
| "g_str NaN = ''-1.#IND''"

text \<open>\<open>put_val\<close> is \<open>ss << Num\<close>; the value of a char is the signed one of its byte.\<close>

definition schar :: "char \<Rightarrow> int" where
  "schar c = (let n = int (of_char c) in if n < 128 then n else n - 256)"

definition char_byte :: "int \<Rightarrow> char" where
  "char_byte n = char_of (nat (n mod 256))"

fun put_val :: "cval \<Rightarrow> string" where
  "put_val (VChar n) = [char_byte n]"
| "put_val (VShort n) = dec_str n"
| "put_val (VInt n) = dec_str n"
| "put_val (VLong n) = dec_str n"
| "put_val (VFloat x) = g_str x"
| "put_val (VDouble x) = g_str x"

definition set_num :: "number \<Rightarrow> string" where
  "set_num num = (
     if isDouble num then put_val (load_num CDouble num)
     else if isFloat num then put_val (load_num CFloat num)
     else if isLong num then put_val (load_num CLong num)
     else if isInt num then put_val (load_num CInt num)
     else if isShort num then put_val (load_num CShort num)
     else if isChar num then put_val (load_num CChar num)
     else put_val (load_num CDouble num))"

definition String_num :: "number \<Rightarrow> string" where
  "String_num num = set_num num"

definition String_assign_num :: "string \<Rightarrow> number \<Rightarrow> string" where
  "String_assign_num s num = set_num num"

definition String_plus_num :: "string \<Rightarrow> number \<Rightarrow> string" where
  "String_plus_num s num = s @ String_num num"

definition String_add_num :: "string \<Rightarrow> number \<Rightarrow> string" where
  "String_add_num s num = s @ String_num num"

definition String_add_str :: "string \<Rightarrow> string \<Rightarrow> string" where
  "String_add_str s str = s @ str"

definition num_plus_String :: "number \<Rightarrow> string \<Rightarrow> string" where
  "num_plus_String num str = String_num num @ str"

text \<open>
  A char in a string expression converts through \<open>Number\<close>: \<open>s += c\<close> selects
  \<open>operator+=(Number)\<close> and \<open>(String)c\<close> the constructor from a \<open>Number\<close>.
\<close>

definition String_char :: "char \<Rightarrow> string" where
  "String_char c = String_num (Number_val (VChar (schar c)))"

definition add_char :: "string \<Rightarrow> char \<Rightarrow> string" where
  "add_char s c = String_add_num s (Number_val (VChar (schar c)))"

subsection \<open>Splitting\<close>

definition split_step :: "string \<Rightarrow> char \<Rightarrow> nat \<Rightarrow> nat \<times> string list \<Rightarrow> nat \<times> string list" where
  "split_step s d i st = (case st of (num, list) \<Rightarrow>
     if s ! i = d
     then (if i \<noteq> num then (i + 1, list @ [take (i - num) (drop num s)]) else (num + 1, list))
     else (num, list))"

definition Split :: "string \<Rightarrow> char \<Rightarrow> string list" where
  "Split s d = (case fold (split_step s d) [0..<length s] (0, []) of (num, list) \<Rightarrow>
     if length s \<noteq> num then list @ [take (length s - num) (drop num s)] else list)"

definition FrontSplit :: "string \<Rightarrow> char \<Rightarrow> string list" where
  "FrontSplit s c = (let index = (case find_char s c of None \<Rightarrow> length s | Some k \<Rightarrow> k)
     in [take index s, drop index s])"

definition EndSplit :: "string \<Rightarrow> char \<Rightarrow> string list" where
  "EndSplit s c = (let index = (case rfind_char s c of None \<Rightarrow> 0 | Some k \<Rightarrow> k)
     in [take index s, drop index s])"

subsection \<open>Replacing and stripping\<close>

text \<open>
  The replacement loop, by fuel: a run that uses it up is \<open>Hang\<close>. One round more than the
  characters left is enough when \<open>from\<close> is not empty.
\<close>

fun Replace_loop :: "nat \<Rightarrow> string \<Rightarrow> string \<Rightarrow> string \<Rightarrow> nat \<Rightarrow> string res" where
  "Replace_loop 0 from to s index = Inl Hang"
| "Replace_loop (Suc n) from to s index = (case find_str s from index of
     None \<Rightarrow> Inr s
   | Some k \<Rightarrow> Replace_loop n from to (replace_at s k (length from) to) (k + length to))"

definition Replace :: "string \<Rightarrow> string \<Rightarrow> string \<Rightarrow> string res" where
  "Replace s from to = Replace_loop (length s + 1) from to s 0"

definition FrontStrip :: "string \<Rightarrow> char \<Rightarrow> string" where
  "FrontStrip s c = (if s = [] then s else drop (length (takeWhile (\<lambda>x. x = c) s)) s)"

text \<open>
  The downward loop of \<open>EndStrip\<close>: its index is unsigned, so \<open>index >= 0\<close> always holds and the
  step below 0 wraps to an index at which \<open>at\<close> throws.
\<close>

fun end_index :: "string \<Rightarrow> char \<Rightarrow> nat \<Rightarrow> nat res" where
  "end_index s c 0 = (if s ! 0 \<noteq> c then Inr 0 else Inl OutOfRange)"
| "end_index s c (Suc n) = (if s ! Suc n \<noteq> c then Inr (Suc n) else end_index s c n)"

definition EndStrip :: "string \<Rightarrow> char \<Rightarrow> string res" where
  "EndStrip s c = (if s = [] then Inr s
     else rbind (end_index s c (length s - 1)) (\<lambda>index. Inr (take (index + 1) s)))"

subsection \<open>Character tests\<close>

definition is_small_alphabet :: "string \<Rightarrow> int \<Rightarrow> bool res" where
  "is_small_alphabet s i = rbind (str_at s i) (\<lambda>c. Inr (97 \<le> schar c \<and> schar c \<le> 122))"

definition is_large_alphabet :: "string \<Rightarrow> int \<Rightarrow> bool res" where
  "is_large_alphabet s i = rbind (str_at s i) (\<lambda>c. Inr (65 \<le> schar c \<and> schar c \<le> 90))"

definition is_alphabet :: "string \<Rightarrow> int \<Rightarrow> bool res" where
  "is_alphabet s i = rbind (is_small_alphabet s i) (\<lambda>b.
     if b then Inr True else is_large_alphabet s i)"

definition is_number :: "string \<Rightarrow> int \<Rightarrow> bool res" where
  "is_number s i = rbind (str_at s i) (\<lambda>c. Inr (48 \<le> schar c \<and> schar c \<le> 57))"

text \<open>
  \<open>is_meta\<close> searches the metacharacters for the truth value of \<open>at(index) != npos\<close> (as a
  char, 0 only for the byte \<open>0xFF\<close>, which sign-extends to \<open>npos\<close>), and tests the position
  it gets for not being 0.
\<close>

definition is_meta :: "string \<Rightarrow> int \<Rightarrow> bool res" where
  "is_meta s i = rbind (str_at s i) (\<lambda>c.
     let b = (if schar c \<noteq> -1 then CHR 0x01 else CHR 0x00)
     in Inr (case find_char ''[(.^$*+?|)]'' b of None \<Rightarrow> True | Some k \<Rightarrow> k \<noteq> 0))"

definition url_safe :: string where
  "url_safe = CHR 0x27 # ''.-*)(_''"

definition is_ascii :: "string \<Rightarrow> int \<Rightarrow> bool res" where
  "is_ascii s i = rbind (is_alphabet s i) (\<lambda>a. if a then Inr True else
     rbind (is_number s i) (\<lambda>n. if n then Inr True else
     rbind (str_at s i) (\<lambda>c. Inr (find_char url_safe c \<noteq> None))))"

definition is_space :: "string \<Rightarrow> int \<Rightarrow> bool res" where
  "is_space s i = rbind (str_at s i) (\<lambda>c. Inr (c = CHR '' ''))"

subsection \<open>URL encoding, first and last character\<close>

definition url_step :: "string \<Rightarrow> int \<Rightarrow> string \<Rightarrow> string res" where
  "url_step s i result = rbind (is_ascii s i) (\<lambda>b. rbind (str_at s i) (\<lambda>c.
     if b then Inr (add_char result c)
     else Inr (String_add_str (add_char result (CHR ''%'')) (digits 16 (of_char c)))))"

definition URLencode :: "string \<Rightarrow> string res" where
  "URLencode s = foldM (url_step s) [0..int (length s) - 1] []"

definition Front :: "string \<Rightarrow> string res" where
  "Front s = (if s = [] then Inr [] else rbind (str_at s 0) (\<lambda>c. Inr (String_char c)))"

definition End :: "string \<Rightarrow> string res" where
  "End s = (let size = int (length s) - 1 in
     if size < 0 then Inr [] else rbind (str_at s size) (\<lambda>c. Inr (String_char c)))"

text \<open>\<open>Find\<close> has an empty body.\<close>

definition Find :: "string \<Rightarrow> string \<Rightarrow> int \<Rightarrow> string" where
  "Find s str index = s"

subsection \<open>Finding and cutting\<close>

lemma find_upt_Suc: "List.find P (map Suc xs) = map_option Suc (List.find (\<lambda>k. P (Suc k)) xs)"
  by (induction xs) auto

lemma upt_Cons: "[0..<Suc n] = 0 # map Suc [0..<n]"
  by (simp add: upt_conv_Cons map_Suc_upt del: upt_Suc)

lemma find_char_Nil [simp]: "find_char [] c = None"
  by (simp add: find_char_def)

lemma find_char_Cons [simp]:
  "find_char (x # s) c = (if x = c then Some 0 else map_option Suc (find_char s c))"
  unfolding find_char_def list.size add_0_right add_Suc_right upt_Cons by (simp add: find_upt_Suc)

lemma find_char_None [simp]: "find_char s c = None \<longleftrightarrow> c \<notin> set s"
  by (induction s) auto

lemma find_char_index:
  "(case find_char s c of None \<Rightarrow> length s | Some k \<Rightarrow> k) = length (takeWhile (\<lambda>x. x \<noteq> c) s)"
  by (induction s) (auto simp del: find_char_None split: option.splits)

lemma FrontSplit_eq: "FrontSplit s c = [takeWhile (\<lambda>x. x \<noteq> c) s, dropWhile (\<lambda>x. x \<noteq> c) s]"
  by (simp add: FrontSplit_def find_char_index dropWhile_eq_drop flip: takeWhile_eq_take)

lemma FrontStrip_eq: "FrontStrip s c = dropWhile (\<lambda>x. x = c) s"
  by (simp add: FrontStrip_def dropWhile_eq_drop)

lemma takeWhile_ne_append [simp]:
  "c \<notin> set s \<Longrightarrow> takeWhile (\<lambda>x. x \<noteq> c) (s @ c # t) = s" "c \<notin> set s \<Longrightarrow> takeWhile (\<lambda>x. x \<noteq> c) s = s"
  by (induction s) auto

lemma dropWhile_ne_append [simp]:
  "c \<notin> set s \<Longrightarrow> dropWhile (\<lambda>x. x \<noteq> c) (s @ c # t) = c # t" "c \<notin> set s \<Longrightarrow> dropWhile (\<lambda>x. x \<noteq> c) s = []"
  by (induction s) auto

lemma rfind_char_snoc [simp]:
  "rfind_char (s @ [x]) c = (if x = c then Some (length s) else rfind_char s c)"
proof -
  have "List.find (\<lambda>k. (s @ [x]) ! k = c) (rev [0..<length s]) = rfind_char s c"
    unfolding rfind_char_def by (rule find_cong) (auto simp: nth_append)
  then show ?thesis by (simp add: rfind_char_def)
qed

lemma rfind_char_Nil [simp]: "rfind_char [] c = None"
  by (simp add: rfind_char_def)

text \<open>The prefix that \<open>EndSplit\<close> keeps: everything before the last delimiter.\<close>

definition before_last :: "string \<Rightarrow> char \<Rightarrow> string" where
  "before_last s c = (case rfind_char s c of None \<Rightarrow> [] | Some k \<Rightarrow> take k s)"

lemma EndSplit_0: "EndSplit s c ! 0 = before_last s c"
  by (simp add: EndSplit_def before_last_def split: option.splits)

lemma rfind_char_lt: "rfind_char s c = Some k \<Longrightarrow> k < length s"
  by (induction s rule: rev_induct) (auto split: if_splits)

lemma before_last_snoc:
  "before_last (s @ [x]) c = (if x = c then s else before_last s c)"
  by (auto simp: before_last_def split: option.splits dest: rfind_char_lt)

lemma before_last_Nil [simp]: "before_last [] c = []"
  by (simp add: before_last_def)

lemma before_last_append:
  "c \<notin> set t \<Longrightarrow> before_last (s @ c # t) c = s"
proof (induction t rule: rev_induct)
  case Nil
  then show ?case using before_last_snoc [of s c c] by simp
next
  case (snoc x t)
  then show ?case using before_last_snoc [of "s @ c # t" x c] by auto
qed

subsection \<open>Splitting into words\<close>

text \<open>The segments between delimiters, empty ones included.\<close>

fun segments :: "char \<Rightarrow> string \<Rightarrow> string list" where
  "segments d [] = [[]]"
| "segments d (c # s) = (if c = d then [] # segments d s
     else (c # hd (segments d s)) # tl (segments d s))"

lemma segments_ne [simp]: "segments d s \<noteq> []"
  by (cases s) auto

lemma segments_snoc:
  "segments d (s @ [c]) = (if c = d then segments d s @ [[]]
     else butlast (segments d s) @ [last (segments d s) @ [c]])"
proof (induction s)
  case (Cons x s)
  show ?case
  proof (cases "tl (segments d s)")
    case Nil
    then obtain a where "segments d s = [a]"
      by (metis hd_Cons_tl segments_ne)
    with Cons show ?thesis by auto
  next
    case (Cons b bs)
    then obtain a where "segments d s = a # b # bs"
      by (metis hd_Cons_tl segments_ne)
    with Cons.IH show ?thesis by auto
  qed
qed simp

definition words_inv :: "string \<Rightarrow> char \<Rightarrow> nat \<Rightarrow> nat \<times> string list \<Rightarrow> bool" where
  "words_inv s d i st \<longleftrightarrow> fst st \<le> i \<and>
     last (segments d (take i s)) = drop (fst st) (take i s) \<and>
     snd st = filter (\<lambda>w. w \<noteq> []) (butlast (segments d (take i s)))"

lemma words_inv_step:
  assumes "words_inv s d i st" "i < length s"
  shows "words_inv s d (Suc i) (split_step s d i st)"
proof -
  obtain num l where st: "st = (num, l)" by force
  let ?g = "segments d (take i s)"
  have sn: "segments d (take (Suc i) s) = (if s ! i = d then ?g @ [[]]
     else butlast ?g @ [last ?g @ [s ! i]])"
    using assms(2) by (simp add: take_Suc_conv_app_nth segments_snoc)
  from assms(1) have num: "num \<le> i" and la: "last ?g = drop num (take i s)"
    and l: "l = filter (\<lambda>w. w \<noteq> []) (butlast ?g)"
    by (auto simp: words_inv_def st)
  have "filter (\<lambda>w. w \<noteq> []) ?g = filter (\<lambda>w. w \<noteq> []) (butlast ?g @ [last ?g])"
    by simp
  also have "\<dots> = l @ (if last ?g = [] then [] else [last ?g])"
    using l by (simp del: append_butlast_last_id)
  finally have fg: "filter (\<lambda>w. w \<noteq> []) ?g = l @ (if last ?g = [] then [] else [last ?g])" .
  have e: "last ?g = [] \<longleftrightarrow> i = num"
    using la num assms(2) by auto
  have w: "take (i - num) (drop num s) = last ?g"
    by (simp add: la drop_take)
  have ext: "drop num (take (Suc i) s) = last ?g @ [s ! i]"
    using num assms(2) by (simp add: la take_Suc_conv_app_nth)
  show ?thesis
  proof (cases "s ! i = d")
    case True
    then show ?thesis
      using num fg e w assms(2) by (simp add: words_inv_def st split_step_def sn)
  next
    case False
    then show ?thesis
      using num l ext by (simp add: words_inv_def st split_step_def sn)
  qed
qed

lemma words_inv_fold:
  "n \<le> length s \<Longrightarrow> words_inv s d n (fold (split_step s d) [0..<n] (0, []))"
proof (induction n)
  case 0
  then show ?case by (simp add: words_inv_def)
next
  case (Suc n)
  then show ?case by (simp add: words_inv_step)
qed

text \<open>\<open>Split\<close> returns the non-empty segments between the delimiters, in order: runs of
  delimiters and delimiters at either end yield no word.\<close>

theorem Split_words: "Split s d = filter (\<lambda>w. w \<noteq> []) (segments d s)"
proof -
  obtain num l where st: "fold (split_step s d) [0..<length s] (0, []) = (num, l)" by force
  have inv: "num \<le> length s" "last (segments d s) = drop num s"
    "l = filter (\<lambda>w. w \<noteq> []) (butlast (segments d s))"
    using words_inv_fold [of "length s" s d] by (auto simp: words_inv_def st)
  have "filter (\<lambda>w. w \<noteq> []) (segments d s) =
      filter (\<lambda>w. w \<noteq> []) (butlast (segments d s) @ [last (segments d s)])"
    by simp
  also have "\<dots> = l @ (if drop num s = [] then [] else [drop num s])"
    using inv by (simp del: append_butlast_last_id)
  finally show ?thesis
    using inv(1) by (auto simp: Split_def st)
qed

subsection \<open>Replacing\<close>

text \<open>The leftmost, non-overlapping substitution.\<close>

fun subst_str :: "string \<Rightarrow> string \<Rightarrow> string \<Rightarrow> string" where
  "subst_str from to [] = []"
| "subst_str from to (c # s) = (if from \<noteq> [] \<and> take (length from) (c # s) = from
     then to @ subst_str from to (drop (length from - 1) s)
     else c # subst_str from to s)"

text \<open>Characters at which no match starts are kept.\<close>

lemma subst_skip:
  "(\<And>j. j < n \<Longrightarrow> take (length from) (drop j t) \<noteq> from) \<Longrightarrow> n \<le> length t \<Longrightarrow>
    subst_str from to t = take n t @ subst_str from to (drop n t)"
proof (induction n arbitrary: t)
  case (Suc n)
  then obtain c u where t: "t = c # u" by (cases t) auto
  have "subst_str from to u = take n u @ subst_str from to (drop n u)"
    by (rule Suc.IH) (use Suc.prems t in \<open>force+\<close>)
  with Suc.prems(1) [of 0] show ?case by (simp add: t)
qed simp

lemma subst_match:
  "from \<noteq> [] \<Longrightarrow> take (length from) t = from \<Longrightarrow>
    subst_str from to t = to @ subst_str from to (drop (length from) t)"
  by (cases t; cases "from") auto

lemma subst_none:
  assumes "\<And>j. j < length t \<Longrightarrow> take (length from) (drop j t) \<noteq> from"
  shows "subst_str from to t = t"
  using subst_skip [of "length t" "from" t to] assms by simp

lemma find_Some_first:
  "List.find P [i..<n] = Some k \<Longrightarrow> i \<le> k \<and> k < n \<and> P k \<and> (\<forall>j. i \<le> j \<longrightarrow> j < k \<longrightarrow> \<not> P j)"
  by (auto simp: find_Some_iff) (metis le_add_diff_inverse nat_add_left_cancel_less)

lemma find_str_Some:
  assumes "find_str s p i = Some k"
  shows "i \<le> k" "take (length p) (drop k s) = p"
    "\<And>j. i \<le> j \<Longrightarrow> j < k \<Longrightarrow> take (length p) (drop j s) \<noteq> p" "k \<le> length s"
  using find_Some_first [OF assms [unfolded find_str_def]] by auto

lemma find_str_None:
  assumes "find_str s p i = None" "i \<le> j" "p \<noteq> []"
  shows "take (length p) (drop j s) \<noteq> p"
proof
  assume m: "take (length p) (drop j s) = p"
  then have "length p \<le> length s - j"
    by (metis length_drop length_take min.absorb_iff2 min.commute)
  with assms(3) have "j < Suc (length s - length p)"
    by (cases p) auto
  with assms m show False
    by (auto simp: find_str_def find_None_iff)
qed

lemma Replace_loop_subst:
  assumes "from \<noteq> []" "i \<le> length s" "length s - i < n"
  shows "Replace_loop n from to s i = Inr (take i s @ subst_str from to (drop i s))"
  using assms(2,3)
proof (induction n arbitrary: s i)
  case (Suc n)
  show ?case
  proof (cases "find_str s from i")
    case None
    have "subst_str from to (drop i s) = drop i s"
      by (rule subst_none) (use find_str_None [OF None _ assms(1)] in auto)
    with None show ?thesis by simp
  next
    case (Some k)
    note k = find_str_Some [OF Some]
    have len: "length from \<le> length s - k"
      using k(2) by (metis length_drop length_take min.absorb_iff2 min.commute)
    have pos: "0 < length from" using assms(1) by simp
    let ?s = "replace_at s k (length from) to"
    have tk: "take (k + length to) ?s = take k s @ to"
      and dr: "drop (k + length to) ?s = drop (k + length from) s"
      using k(4) by (simp_all add: replace_at_def)
    have ls: "length ?s = k + length to + (length s - (k + length from))"
      using k(4) by (simp add: replace_at_def)
    have "Replace_loop n from to ?s (k + length to) =
        Inr (take (k + length to) ?s @ subst_str from to (drop (k + length to) ?s))"
    proof (rule Suc.IH)
      show "k + length to \<le> length ?s" using ls by simp
      have "length s - (k + length from) < n"
        using Suc.prems k(1) len pos by linarith
      then show "length ?s - (k + length to) < n" using ls by simp
    qed
    moreover have "subst_str from to (drop i s) =
        take (k - i) (drop i s) @ subst_str from to (drop k s)"
      using subst_skip [of "k - i" "from" "drop i s" to] k by (auto simp: add.commute)
    moreover have "subst_str from to (drop k s) = to @ subst_str from to (drop (k + length from) s)"
      using subst_match [OF assms(1) k(2)] by (simp add: add.commute)
    moreover have "take k s = take i s @ take (k - i) (drop i s)"
      using k(1) by (metis le_add_diff_inverse take_add)
    ultimately show ?thesis by (simp add: Some tk dr)
  qed
qed simp

lemma Replace_subst: "from \<noteq> [] \<Longrightarrow> Replace s from to = Inr (subst_str from to s)"
  using Replace_loop_subst [of "from" 0 s "length s + 1" to] by (simp add: Replace_def)

lemma Replace_loop_empty: "i \<le> length s \<Longrightarrow> Replace_loop n [] to s i = Inl Hang"
proof (induction n arbitrary: s i)
  case (Suc n)
  have "find_str s [] i = Some i"
    using Suc.prems by (simp add: find_str_def upt_rec)
  moreover have "i + length to \<le> length (replace_at s i 0 to)"
    using Suc.prems by (simp add: replace_at_def)
  ultimately show ?case using Suc.IH by simp
qed simp

text \<open>C9: \<open>Replace\<close> with a non-empty search string ends, within one round more than the
  string's length, with the leftmost non-overlapping substitution, even where the replacement
  contains the search string; with an empty search string it never ends, whatever the fuel.\<close>

theorem Replace_correct:
  "(from \<noteq> [] \<longrightarrow> Replace s from to = Inr (subst_str from to s)) \<and>
    Replace_loop n [] to s 0 = Inl Hang"
  by (simp add: Replace_subst Replace_loop_empty)

theorem Replace_correct_witness:
  "Replace ''aXbX'' ''X'' ''XX'' = Inr ''aXXbXX'' \<and> Replace_loop 7 [] ''-'' ''aXbX'' 0 = Inl Hang"
  using Replace_correct [of "''X''" "''aXbX''" "''XX''" 7]
    Replace_correct [of "''X''" "''aXbX''" "''-''" 7] by simp

subsection \<open>Stripping the end\<close>

lemma end_index_ok:
  "n < length s \<Longrightarrow> \<exists>x \<in> set (take (n + 1) s). x \<noteq> c \<Longrightarrow>
    \<exists>k. end_index s c n = Inr k \<and> take (k + 1) s = rev (dropWhile (\<lambda>x. x = c) (rev (take (n + 1) s)))"
proof (induction n)
  case 0
  then show ?case by (cases s) auto
next
  case (Suc n)
  have t: "take (Suc n + 1) s = take (n + 1) s @ [s ! Suc n]"
    using Suc.prems(1) by (simp add: take_Suc_conv_app_nth)
  show ?case
    using Suc t by (cases "s ! Suc n = c") auto
qed

lemma end_index_all: "n < length s \<Longrightarrow> \<forall>x \<in> set s. x = c \<Longrightarrow> end_index s c n = Inl OutOfRange"
  by (induction n) auto

lemma EndStrip_ok:
  assumes "s = [] \<or> (\<exists>x \<in> set s. x \<noteq> c)"
  shows "EndStrip s c = Inr (rev (dropWhile (\<lambda>x. x = c) (rev s)))"
proof (cases "s = []")
  case False
  then have "length s - 1 < length s" "take (length s - 1 + 1) s = s" by auto
  with end_index_ok [of "length s - 1" s c] False assms show ?thesis
    by (auto simp: EndStrip_def)
qed (simp add: EndStrip_def)

lemma EndStrip_throws: "s \<noteq> [] \<Longrightarrow> \<forall>x \<in> set s. x = c \<Longrightarrow> EndStrip s c = Inl OutOfRange"
  by (simp add: EndStrip_def end_index_all)

text \<open>\<open>EndStrip\<close> drops the trailing run of its character and fails exactly on a non-empty
  string made of that character alone, where the unsigned index wraps below zero and \<open>at\<close>
  throws; \<open>FrontStrip\<close> has no such case.\<close>

theorem EndStrip_correct:
  "EndStrip s c = (if s \<noteq> [] \<and> set s \<subseteq> {c} then Inl OutOfRange
     else Inr (rev (FrontStrip (rev s) c)))"
proof (cases "s \<noteq> [] \<and> set s \<subseteq> {c}")
  case True
  then show ?thesis using EndStrip_throws [of s c] by auto
next
  case False
  then have "s = [] \<or> (\<exists>x \<in> set s. x \<noteq> c)" by auto
  from EndStrip_ok [OF this] False show ?thesis by (auto simp: FrontStrip_eq)
qed

subsection \<open>Characters through numbers\<close>

lemma of_char_256: "of_char c < (256 :: nat)"
  by (metis mod_less_divisor of_char_mod_256 zero_less_numeral)

lemma schar_bounds: "- 128 \<le> schar c" "schar c < 128"
proof -
  have "int (of_char c) < int 256" using of_char_256 [of c] by (simp only: of_nat_less_iff)
  moreover have "0 \<le> int (of_char c)" by simp
  moreover have "schar c = int (of_char c) \<and> int (of_char c) < 128 \<or>
      schar c = int (of_char c) - 256 \<and> 128 \<le> int (of_char c)"
    by (simp add: schar_def Let_def not_less del: of_nat_of_char)
  ultimately show "- 128 \<le> schar c" and "schar c < 128"
    by linarith+
qed

lemma char_byte_schar [simp]: "char_byte (schar c) = c"
proof -
  have "schar c mod 256 = int (of_char c)"
  proof (cases "int (of_char c) < 128")
    case True
    then show ?thesis by (simp add: schar_def Let_def del: of_nat_of_char)
  next
    case False
    then have "schar c mod 256 = (int (of_char c) - 256) mod 256"
      by (simp add: schar_def Let_def del: of_nat_of_char)
    also have "\<dots> = int (of_char c) mod 256" by (rule minus_mod_self2)
    finally show ?thesis using of_char_256 [of c] by (simp del: of_nat_of_char)
  qed
  then have "nat (schar c mod 256) = of_char c" by (simp only: nat_int)
  then show ?thesis by (simp add: char_byte_def)
qed

lemma set_num_store: "wf_cval v \<Longrightarrow> set_num (store_num v) = put_val v"
  using load_store [of v] by (cases v) (simp_all add: set_num_def isType_defs del: put_val.simps load_num.simps)

lemma String_char [simp]: "String_char c = [c]"
  using schar_bounds [of c] by (simp add: String_char_def String_num_def Number_val_def set_num_store)

lemma add_char [simp]: "add_char s c = s @ [c]"
  using schar_bounds [of c]
  by (simp add: add_char_def String_add_num_def String_num_def Number_val_def set_num_store)

lemma Front_eq: "Front s = Inr (take 1 s)"
  by (cases s) (auto simp: Front_def str_at_def)

lemma End_eq: "End s = Inr (if s = [] then [] else [last s])"
  by (cases s rule: rev_cases) (auto simp: End_def str_at_def)

subsection \<open>URL encoding\<close>

text \<open>The bytes that are kept, and the encoding of one byte.\<close>

definition url_kept :: "char \<Rightarrow> bool" where
  "url_kept c \<longleftrightarrow> (97 \<le> schar c \<and> schar c \<le> 122) \<or> (65 \<le> schar c \<and> schar c \<le> 90) \<or>
     (48 \<le> schar c \<and> schar c \<le> 57) \<or> c \<in> set url_safe"

definition url_char :: "char \<Rightarrow> string" where
  "url_char c = (if url_kept c then [c] else CHR ''%'' # digits 16 (of_char c))"

lemma str_at_in: "0 \<le> i \<Longrightarrow> i < int (length s) \<Longrightarrow> str_at s i = Inr (s ! nat i)"
  by (simp add: str_at_def)

lemma is_ascii_in:
  assumes "0 \<le> i" "i < int (length s)"
  shows "is_ascii s i = Inr (url_kept (s ! nat i))"
  using assms
  by (auto simp: is_ascii_def is_alphabet_def is_small_alphabet_def is_large_alphabet_def
      is_number_def str_at_in url_kept_def)

lemma url_step_in:
  assumes "0 \<le> i" "i < int (length s)"
  shows "url_step s i r = Inr (r @ url_char (s ! nat i))"
  using assms by (simp add: url_step_def is_ascii_in str_at_in url_char_def String_add_str_def)

lemma fold_append: "fold (\<lambda>x r. r @ f x) xs r = r @ concat (map f xs)"
  by (induction xs arbitrary: r) auto

lemma map_nth_upto: "map (\<lambda>i. s ! nat i) [0..int (length s) - 1] = s"
  by (rule nth_equalityI) auto

lemma URLencode_eq: "URLencode s = Inr (concat (map url_char s))"
proof -
  have "URLencode s = foldM (\<lambda>i r. Inr (r @ url_char (s ! nat i))) [0..int (length s) - 1] []"
    unfolding URLencode_def by (rule foldM_cong_set) (auto simp: url_step_in)
  also have "\<dots> = Inr (concat (map (\<lambda>i. url_char (s ! nat i)) [0..int (length s) - 1]))"
    by (simp only: foldM_pure [of "\<lambda>i r. r @ url_char (s ! nat i)"] fold_append append_Nil)
  also have "map (\<lambda>i. url_char (s ! nat i)) [0..int (length s) - 1] = map url_char s"
    by (metis (no_types, lifting) map_nth_upto map_map comp_def map_cong)
  finally show ?thesis .
qed

text \<open>The decoder of the standard: a percent sign and two hexadecimal digits are a byte.\<close>

definition hex_val :: "char \<Rightarrow> nat" where
  "hex_val c = (if of_char c < (58 :: nat) then of_char c - 48 else of_char c - 87)"

fun url_decode :: "string \<Rightarrow> string" where
  "url_decode [] = []"
| "url_decode (c # s) = (if c = CHR ''%'' then
     (case s of a # b # t \<Rightarrow> char_of (16 * hex_val a + hex_val b) # url_decode t | _ \<Rightarrow> c # s)
     else c # url_decode s)"

lemma hex_digit [simp]: "n < 16 \<Longrightarrow> hex_val (digit n) = n"
  by (auto simp: hex_val_def digit_def)

lemma digits_byte:
  assumes "16 \<le> n" "n < 256"
  shows "digits 16 n = [digit (n div 16), digit (n mod 16)]"
proof -
  have "n div 16 < 16" using assms(2) by simp
  then have "digits 16 (n div 16) = [digit (n div 16)]" by (subst digits.simps) simp
  then show ?thesis using assms by (subst digits.simps) simp
qed

lemma percent_not_kept: "\<not> url_kept (CHR ''%'')"
  by (simp add: url_kept_def schar_def url_safe_def Let_def)

lemma decode_url_char:
  assumes "16 \<le> (of_char c :: nat)"
  shows "url_decode (url_char c @ t) = c # url_decode t"
proof (cases "url_kept c")
  case True
  then have "c \<noteq> CHR ''%''" using percent_not_kept by blast
  with True show ?thesis by (simp add: url_char_def)
next
  case False
  have lt: "of_char c < (256 :: nat)" by (rule of_char_256)
  have d: "digits 16 (of_char c) = [digit (of_char c div 16), digit (of_char c mod 16)]"
    using assms lt by (rule digits_byte)
  have "of_char c div 16 < (16 :: nat)" using lt by (simp only: less_mult_imp_div_less)
  then have "16 * hex_val (digit (of_char c div 16)) + hex_val (digit (of_char c mod 16)) = of_char c"
    by simp
  with False show ?thesis by (simp add: url_char_def d)
qed

text \<open>URL encoding never fails, and percent-decoding its result gives the string back
  when every byte is at least 16; a byte below 16 is written with one digit only.\<close>

theorem URLencode_decode:
  assumes "\<forall>c \<in> set s. 16 \<le> (of_char c :: nat)"
  shows "\<exists>t. URLencode s = Inr t \<and> url_decode t = s"
proof -
  have "url_decode (concat (map url_char s)) = s"
    using assms by (induction s) (simp_all add: decode_url_char)
  then show ?thesis by (simp add: URLencode_eq)
qed

theorem URLencode_decode_witness: "\<exists>t. URLencode ''a b%'' = Inr t \<and> url_decode t = ''a b%''"
  by (rule URLencode_decode) simp

text \<open>The missing zero makes the encoding ambiguous: a line feed followed by the letter a,
  and the single byte 0xAA, have the same encoding.\<close>

theorem URLencode_collision:
  "URLencode [CHR 0x0A, CHR ''a''] = Inr ''%aa'' \<and> URLencode [CHR 0xAA] = Inr ''%aa''"
proof -
  have "\<not> url_kept (CHR 0x0A)" "\<not> url_kept (CHR 0xAA)" "url_kept (CHR ''a'')"
    by (simp_all add: url_kept_def schar_def url_safe_def Let_def)
  moreover have "digits 16 10 = ''a''" "digits 16 170 = ''aa''"
    by (simp_all add: digits.simps digit_def char_of_def bit_Suc_0_iff)
  ultimately show ?thesis by (simp add: URLencode_eq url_char_def)
qed

text \<open>\<open>is_meta\<close> holds for every character of a string, so it singles out no metacharacter.\<close>

theorem is_meta_always:
  assumes "0 \<le> i" "i < int (length s)"
  shows "is_meta s i = Inr True"
  using assms by (simp add: is_meta_def str_at_in Let_def)

theorem is_meta_always_witness: "is_meta ''a'' 0 = Inr True"
  by (rule is_meta_always) simp_all

subsection \<open>Reading a decimal\<close>

text \<open>
  \<open>atoi\<close>, which the program applies to port numbers: blanks, a sign, then digits, the rest
  ignored; the value is cut at the bounds of a 32-bit int.
\<close>

fun atoi_digits :: "int \<Rightarrow> string \<Rightarrow> int" where
  "atoi_digits n [] = n"
| "atoi_digits n (c # s) = (if (48 :: nat) \<le> of_char c \<and> (of_char c :: nat) \<le> 57
     then atoi_digits (10 * n + (int (of_char c) - 48)) s else n)"

definition clamp32 :: "int \<Rightarrow> int" where
  "clamp32 n = max (- (2 ^ 31)) (min (2 ^ 31 - 1) n)"

definition atoi :: "string \<Rightarrow> int" where
  "atoi s = (case dropWhile (\<lambda>c. (of_char c :: nat) \<in> {9, 10, 11, 12, 13, 32}) s of
     [] \<Rightarrow> 0
   | c # t \<Rightarrow> clamp32 (if c = CHR ''-'' then - atoi_digits 0 t
       else if c = CHR ''+'' then atoi_digits 0 t else atoi_digits 0 (c # t)))"

lemma atoi_digit: "k < 10 \<Longrightarrow> atoi_digits m (digit k # t) = atoi_digits (10 * m + int k) t"
  by (simp add: digit_def)

lemma atoi_digits_digits: "atoi_digits m (digits 10 n @ t) =
    atoi_digits (m * 10 ^ length (digits 10 n) + int n) t"
proof (induction n arbitrary: m t rule: less_induct)
  case (less n)
  show ?case
  proof (cases "n < 10")
    case True
    then show ?thesis by (subst (1 2) digits.simps) (simp add: digit_def mult.commute)
  next
    case False
    let ?r = "n mod 10"
    have d: "digits 10 n = digits 10 (n div 10) @ [digit ?r]"
      using False by (subst digits.simps) simp
    have r: "?r < 10" by simp
    have "atoi_digits m (digits 10 n @ t) = atoi_digits (m * 10 ^ length (digits 10 (n div 10)) +
        int (n div 10)) (digit ?r # t)"
      using less.IH [of "n div 10" m "digit ?r # t"] False by (simp add: d)
    also have "\<dots> = atoi_digits (10 * (m * 10 ^ length (digits 10 (n div 10)) + int (n div 10)) + int ?r) t"
      using r by (rule atoi_digit)
    also have "10 * (m * 10 ^ length (digits 10 (n div 10)) + int (n div 10)) + int ?r =
        m * 10 ^ length (digits 10 n) + int n"
      using d by (simp add: algebra_simps) (use mod_mult_div_eq [of n 10] in linarith)
    finally show ?thesis .
  qed
qed

lemma atoi_digits_nat: "atoi_digits 0 (digits 10 n) = int n"
  using atoi_digits_digits [of 0 n "[]"] by simp

lemma digits_hd: "\<exists>k t. k < 10 \<and> digits 10 n = digit k # t"
proof (induction n rule: less_induct)
  case (less n)
  show ?case
  proof (cases "n < 10")
    case True
    then show ?thesis by (subst digits.simps) auto
  next
    case False
    with less [of "n div 10"] show ?thesis by (subst digits.simps) auto
  qed
qed

lemma digit_plain:
  assumes "k < 10"
  shows "(of_char (digit k) :: nat) \<notin> {9, 10, 11, 12, 13, 32}" "digit k \<noteq> CHR ''-''" "digit k \<noteq> CHR ''+''"
proof -
  have o: "(of_char (digit k) :: nat) = 48 + k" using assms by (simp add: digit_def)
  then show "(of_char (digit k) :: nat) \<notin> {9, 10, 11, 12, 13, 32}" by simp
  have "(of_char (CHR ''-'') :: nat) = 45" "(of_char (CHR ''+'') :: nat) = 43" by simp_all
  with o show "digit k \<noteq> CHR ''-''" "digit k \<noteq> CHR ''+''" by (metis add_le_same_cancel1 le_add1 less_eq_nat.simps(1) numeral_le_iff semiring_norm)+
qed

lemma atoi_dec:
  assumes "int32 n"
  shows "atoi (dec_str n) = n"
proof -
  have c: "clamp32 n = n" using assms by (auto simp: clamp32_def int32_def)
  obtain k t where k: "k < 10" "digits 10 (nat \<bar>n\<bar>) = digit k # t" using digits_hd by blast
  show ?thesis
  proof (cases "n < 0")
    case True
    then have "atoi (dec_str n) = clamp32 (- atoi_digits 0 (digits 10 (nat (- n))))"
      by (simp add: atoi_def dec_str_def)
    with True c show ?thesis by (simp add: atoi_digits_nat)
  next
    case False
    then have d: "dec_str n = digit k # t" using k by (simp add: dec_str_def)
    have "atoi (dec_str n) = clamp32 (atoi_digits 0 (digit k # t))"
      unfolding d atoi_def using digit_plain [OF k(1)] by simp
    also have "digit k # t = digits 10 (nat n)" using k False by simp
    finally show ?thesis using False c by (simp add: atoi_digits_nat)
  qed
qed

text \<open>An int stored in a number, converted to a string and read back by \<open>atoi\<close> is the
  same int.\<close>

theorem int_string_roundtrip:
  assumes "int32 n"
  shows "atoi (String_num (Number_val (VInt n))) = n"
  using assms by (simp add: String_num_def Number_val_def set_num_store atoi_dec)

theorem int_string_roundtrip_witness: "atoi (String_num (Number_val (VInt (- 2147483648)))) = - 2147483648"
  by (rule int_string_roundtrip) (simp add: int32_def)

end
