(* ===== verification/OrderedMap.thy ===== *)
theory OrderedMap
  imports Prelude
begin

text \<open>
  The \<open>std::map\<close> of the code: with string keys an association list in the order of the keys
  (iteration visits it in that order), with int keys a partial function. Both are stores with
  a lookup and an insertion; the interface \<open>keyed_store\<close> proves once what the loops of the
  clients compute that insert or count.
\<close>

subsection \<open>The order of strings\<close>

text \<open>\<open>std::string\<close> compares its chars as unsigned bytes, then the lengths.\<close>

fun str_lt :: "string \<Rightarrow> string \<Rightarrow> bool" where
  "str_lt _ [] = False"
| "str_lt [] (y # ys) = True"
| "str_lt (x # xs) (y # ys) =
     ((of_char x :: nat) < of_char y \<or> x = y \<and> str_lt xs ys)"

lemma str_lt_irrefl [simp]: "\<not> str_lt s s"
  by (induction s) auto

lemma str_lt_trans: "str_lt a b \<Longrightarrow> str_lt b c \<Longrightarrow> str_lt a c"
  by (induction a b arbitrary: c rule: str_lt.induct; case_tac c) auto

lemma str_lt_asym: "str_lt a b \<Longrightarrow> \<not> str_lt b a"
  using str_lt_trans [of a b a] by auto

lemma str_lt_total: "str_lt a b \<or> a = b \<or> str_lt b a"
proof (induction a b rule: str_lt.induct)
  case (1 a)
  then show ?case by (cases a) auto
next
  case (3 x xs y ys)
  have "x = y" if "(of_char x :: nat) = of_char y" using that by simp
  with 3 show ?case by (metis linorder_neqE_nat str_lt.simps(3))
qed simp

subsection \<open>Maps with string keys\<close>

fun map_put :: "string \<Rightarrow> 'v \<Rightarrow> (string \<times> 'v) list \<Rightarrow> (string \<times> 'v) list" where
  "map_put k v [] = [(k, v)]"
| "map_put k v (p # m) = (if str_lt k (fst p) then (k, v) # p # m
     else if k = fst p then (k, v) # m else p # map_put k v m)"

text \<open>\<open>operator[]\<close> read: a missing key is inserted with the default value.\<close>

definition map_get :: "'v \<Rightarrow> string \<Rightarrow> (string \<times> 'v) list \<Rightarrow> 'v \<times> (string \<times> 'v) list" where
  "map_get dflt k m = (case map_of m k of Some v \<Rightarrow> (v, m) | None \<Rightarrow> (dflt, map_put k dflt m))"

fun sorted_keys :: "(string \<times> 'v) list \<Rightarrow> bool" where
  "sorted_keys (p # q # m) = (str_lt (fst p) (fst q) \<and> sorted_keys (q # m))"
| "sorted_keys m = True"

lemma sorted_keys_Cons:
  "sorted_keys (p # m) \<longleftrightarrow> (\<forall>q \<in> set m. str_lt (fst p) (fst q)) \<and> sorted_keys m"
proof (induction m arbitrary: p)
  case (Cons q m)
  then show ?case using str_lt_trans [of "fst p" "fst q"] by auto
qed simp

lemma sorted_keys_mid:
  "sorted_keys (m @ p # ps) \<Longrightarrow> q \<in> set m \<Longrightarrow> str_lt (fst q) (fst p)"
  by (induction m) (auto simp: sorted_keys_Cons)

lemma sorted_keys_names: "sorted_keys m \<longleftrightarrow> sorted_wrt str_lt (map fst m)"
proof (induction m)
  case (Cons p m)
  then show ?case by (simp only: sorted_keys_Cons list.map sorted_wrt.simps list.set_map) auto
qed simp

lemma sorted_keys_distinct: "sorted_keys m \<Longrightarrow> distinct (map fst m)"
proof (induction m)
  case (Cons p m)
  then show ?case by (auto simp: sorted_keys_Cons)
qed simp

lemma map_put_snoc:
  "(\<And>q. q \<in> set m \<Longrightarrow> str_lt (fst q) k) \<Longrightarrow> map_put k v m = m @ [(k, v)]"
proof (induction m)
  case (Cons x m)
  then have "str_lt (fst x) k" by simp
  then have "\<not> str_lt k (fst x)" "k \<noteq> fst x" using str_lt_asym by auto
  with Cons show ?case by simp
qed simp

lemma set_map_put: "set (map_put k v m) \<subseteq> insert (k, v) (set m)"
  by (induction m) auto

lemma sorted_map_put: "sorted_keys m \<Longrightarrow> sorted_keys (map_put k v m)"
proof (induction m)
  case (Cons p m)
  then have IH: "sorted_keys (map_put k v m)" "\<forall>q \<in> set m. str_lt (fst p) (fst q)" "sorted_keys m"
    by (simp_all add: sorted_keys_Cons)
  consider "str_lt k (fst p)" | "k = fst p" | "str_lt (fst p) k" using str_lt_total by blast
  then show ?case
  proof cases
    case 1
    then show ?thesis using IH by (auto simp: sorted_keys_Cons intro: str_lt_trans)
  next
    case 2
    then show ?thesis using IH by (simp add: sorted_keys_Cons)
  next
    case 3
    then have "\<not> str_lt k (fst p)" "k \<noteq> fst p" using str_lt_asym by auto
    with 3 IH set_map_put [of k v m] show ?thesis by (auto simp: sorted_keys_Cons)
  qed
qed simp

lemma map_of_map_put:
  "sorted_keys m \<Longrightarrow> map_of (map_put k v m) x = (if x = k then Some v else map_of m x)"
proof (induction m)
  case (Cons p m)
  then have p: "\<forall>q \<in> set m. str_lt (fst p) (fst q)" "sorted_keys m"
    by (simp_all add: sorted_keys_Cons)
  then have "map_of m k = None" if "k = fst p" using that by (force simp: map_of_eq_None_iff)
  with Cons p show ?case by (cases p) auto
qed simp

subsection \<open>The interface\<close>

text \<open>A provider owes the lookup-after-insert law and that an insertion keeps its invariant.\<close>

locale keyed_store =
  fixes look :: "'m \<Rightarrow> 'k \<Rightarrow> 'v option"
    and put :: "'k \<Rightarrow> 'v \<Rightarrow> 'm \<Rightarrow> 'm"
    and ok :: "'m \<Rightarrow> bool"
  assumes look_put: "ok m \<Longrightarrow> look (put k v m) x = (if x = k then Some v else look m x)"
    and ok_put: "ok m \<Longrightarrow> ok (put k v m)"
begin

lemma ok_puts: "ok m \<Longrightarrow> ok (fold (\<lambda>k. put k (f k)) ks m)"
  by (induction ks arbitrary: m) (simp_all add: ok_put)

lemma look_puts:
  "ok m \<Longrightarrow> look (fold (\<lambda>k. put k (f k)) ks m) x = (if x \<in> set ks then Some (f x) else look m x)"
  by (induction ks arbitrary: m) (simp_all add: ok_put look_put)

text \<open>A loop that updates each key from its own old value.\<close>

lemma look_updates:
  assumes "ok m" "distinct ks"
  shows "ok (fold (\<lambda>k m. put k (f k (look m k)) m) ks m) \<and>
    look (fold (\<lambda>k m. put k (f k (look m k)) m) ks m) x =
      (if x \<in> set ks then Some (f x (look m x)) else look m x)"
  using assms by (induction ks arbitrary: m) (auto simp: ok_put look_put)

end

text \<open>Stores of ints as counters.\<close>

locale counter_store = keyed_store look put ok
  for look :: "'m \<Rightarrow> 'k \<Rightarrow> int option" and put and ok
begin

lemma ok_counts:
  "ok m \<Longrightarrow> ok (fold (\<lambda>k m. put k ((case look m k of None \<Rightarrow> 0 | Some n \<Rightarrow> n) + 1) m) ks m)"
  by (induction ks arbitrary: m) (simp_all add: ok_put)

lemma look_counts:
  assumes "ok m" "\<And>x. look m x = None"
  shows "look (fold (\<lambda>k m. put k ((case look m k of None \<Rightarrow> 0 | Some n \<Rightarrow> n) + 1) m) ks m) x =
    (if x \<in> set ks then Some (int (count_list ks x)) else None)"
proof (induction ks arbitrary: x rule: rev_induct)
  case (snoc k ks)
  let ?m = "fold (\<lambda>k m. put k ((case look m k of None \<Rightarrow> 0 | Some n \<Rightarrow> n) + 1) m) ks m"
  have "ok ?m" using assms(1) by (rule ok_counts)
  moreover have "(case look ?m k of None \<Rightarrow> 0 | Some n \<Rightarrow> n) = int (count_list ks k)"
    unfolding snoc.IH by (simp add: count_list_0_iff)
  ultimately show ?case using snoc.IH [of x] by (auto simp: look_put count_list_0_iff)
qed (simp add: assms)

end

interpretation sm: keyed_store map_of map_put sorted_keys
  by unfold_locales (simp_all add: map_of_map_put sorted_map_put)

interpretation sc: counter_store map_of map_put sorted_keys ..

interpretation fc: counter_store "\<lambda>m. m" "\<lambda>k v m. m(k \<mapsto> v)" "\<lambda>_. True"
  by unfold_locales simp_all

end
