(* ===== verification/BrainWaves.thy ===== *)
theory BrainWaves
  imports Strings Filters Geometry OrderedMap
begin

text \<open>
  The brain wave monitor: the headset (\<open>ThinkGearClass.cpp\<close>) over the calls of the ThinkGear
  driver, which are a parameter; the readings by name; and the monitor that draws them as
  gauges (\<open>BrainMonitor/main.cpp\<close>) with the squares and lines of the image library.
\<close>

subsection \<open>The driver\<close>

text \<open>Each call takes the connection and the state of the outside world.\<close>

record 'w driver =
  TG_GetNewConnectionId :: "'w \<Rightarrow> int \<times> 'w"
  TG_EnableAutoRead :: "int \<Rightarrow> bool \<Rightarrow> 'w \<Rightarrow> int \<times> 'w"
  TG_Connect :: "int \<Rightarrow> string \<Rightarrow> int \<Rightarrow> int \<Rightarrow> 'w \<Rightarrow> int \<times> 'w"
  TG_FreeConnection :: "int \<Rightarrow> 'w \<Rightarrow> 'w"
  TG_Disconnect :: "int \<Rightarrow> 'w \<Rightarrow> 'w"
  TG_SetStreamLog :: "int \<Rightarrow> string \<Rightarrow> 'w \<Rightarrow> int \<times> 'w"
  TG_SetDataLog :: "int \<Rightarrow> string \<Rightarrow> 'w \<Rightarrow> int \<times> 'w"
  TG_ReadPackets :: "int \<Rightarrow> int \<Rightarrow> 'w \<Rightarrow> int \<times> 'w"
  TG_GetValueStatus :: "int \<Rightarrow> int \<Rightarrow> 'w \<Rightarrow> int \<times> 'w"
  TG_GetValue :: "int \<Rightarrow> int \<Rightarrow> 'w \<Rightarrow> cfloat \<times> 'w"

definition TG_BAUD_9600 :: int where "TG_BAUD_9600 = 9600"
definition TG_STREAM_PACKETS :: int where "TG_STREAM_PACKETS = 0"

subsection \<open>The headset\<close>

record thinkgear =
  waves_map :: "(string \<times> int) list"
  connection_id :: int
  is_start_capture :: bool

type_synonym 'w tg = "thinkgear \<times> 'w"

definition bad_connection :: string where
  "bad_connection = ''connectionId does not refer to a valid ThinkGear Connection ID handle''"

text \<open>The code of an error to its message; the first codes are -1, -2, and so on.\<close>

definition throw_code :: "string list \<Rightarrow> int \<Rightarrow> ('s, int) io" where
  "throw_code msgs code =
     (if code < 0 \<and> - code \<le> int (length msgs) then io_throw (msgs ! nat (- code - 1)) else io_return code)"

definition with_world :: "('w \<Rightarrow> 'a \<times> 'w) \<Rightarrow> ('w tg, 'a) io" where
  "with_world call c = (case c of (t, w) \<Rightarrow> (case call w of (r, w) \<Rightarrow> (Inr r, t, w)))"

definition EnableAutoRead :: "'w driver \<Rightarrow> bool \<Rightarrow> ('w tg, int) io" where
  "EnableAutoRead api enabled c =
     io_bind (with_world (TG_EnableAutoRead api (connection_id (fst c)) enabled)) (throw_code
       [bad_connection, ''unable to enable background auto-reading'',
        ''an error occurs while attempting to disable background auto-reading'']) c"

definition isStartCapture :: "thinkgear \<Rightarrow> bool" where
  "isStartCapture t = is_start_capture t"

definition Create_id :: "'w driver \<Rightarrow> ('w tg, int) io" where
  "Create_id api c = (case c of (t, w) \<Rightarrow> (case TG_GetNewConnectionId api w of (cid, w) \<Rightarrow>
     throw_code
       [''too many Connections have been created without being freed by TG_FreeConnection()'',
        ''there is not enough free memory to allocate to a new ThinkGear Connection'']
       cid (t\<lparr>connection_id := cid\<rparr>, w)))"

definition wave_codes :: "(string \<times> int) list" where
  "wave_codes =
     [(''alpha1'', 7), (''alpha2'', 8), (''beta1'', 9), (''beta2'', 10), (''gamma1'', 11), (''gamma2'', 12),
      (''delta'', 5), (''theta'', 6), (''raw'', 4), (''blink_strength'', 37), (''attention'', 2),
      (''meditation'', 3), (''poor_signal'', 1), (''battery'', 0)]"

text \<open>The constructor; when it throws there is no object.\<close>

definition ThinkGear :: "'w driver \<Rightarrow> 'w \<Rightarrow> thinkgear res \<times> 'w" where
  "ThinkGear api w =
     (case Create_id api (\<lparr>waves_map = [], connection_id = -1, is_start_capture = False\<rparr>, w) of
       (Inl e, t, w) \<Rightarrow> (Inl e, w)
     | (Inr _, t, w) \<Rightarrow> (Inr (t\<lparr>waves_map := fold (\<lambda>(k, v). map_put k v) wave_codes []\<rparr>), w))"

text \<open>The bit rate and the data type given are not used.\<close>

definition Connect_tg :: "'w driver \<Rightarrow> string \<Rightarrow> int \<Rightarrow> int \<Rightarrow> ('w tg, int) io" where
  "Connect_tg api port_name bit_rate data_type c =
     io_bind (with_world (TG_Connect api (connection_id (fst c)) ([CHR 0x5C, CHR 0x5C, CHR ''.'', CHR 0x5C] @ port_name)
         TG_BAUD_9600 TG_STREAM_PACKETS)) (throw_code
       [bad_connection,
        ''serialPortName could not be opened as a serial communication port for any reason. Check that the name is a valid COM port on your system'',
        ''serialBaudrate is not a valid TG_BAUD_* value'',
        ''serialDataFormat is not a valid TG_STREAM_* type'']) c"

definition DisConnect_tg :: "'w driver \<Rightarrow> 'w tg \<Rightarrow> 'w tg" where
  "DisConnect_tg api c = (case c of (t, w) \<Rightarrow>
     (t, TG_Disconnect api (connection_id t) (TG_FreeConnection api (connection_id t) w)))"

definition log_errors :: "string list" where
  "log_errors = [bad_connection,
     ''filename could not be opened for writing. You may check errno for the reason'']"

definition StreamLog :: "'w driver \<Rightarrow> string \<Rightarrow> ('w tg, int) io" where
  "StreamLog api filename c =
     io_bind (with_world (TG_SetStreamLog api (connection_id (fst c)) filename)) (throw_code log_errors) c"

definition DataLog :: "'w driver \<Rightarrow> string \<Rightarrow> ('w tg, int) io" where
  "DataLog api filename c =
     io_bind (with_world (TG_SetDataLog api (connection_id (fst c)) filename)) (throw_code log_errors) c"

definition ReadPackets :: "'w driver \<Rightarrow> int \<Rightarrow> ('w tg, int) io" where
  "ReadPackets api packet_num c =
     io_bind (with_world (TG_ReadPackets api (connection_id (fst c)) packet_num)) (throw_code
       [bad_connection,
        ''there were not even any bytes available to be read from the Connection's serial communication stream'',
        ''an I/O error occurs attempting to read from the Connection's serial communication stream'']) c"

text \<open>The flag is set before the call that may throw.\<close>

definition StartCapture :: "'w driver \<Rightarrow> ('w tg, unit) io" where
  "StartCapture api c = (case c of (t, w) \<Rightarrow>
     io_bind (EnableAutoRead api True) (\<lambda>_. io_return ()) (t\<lparr>is_start_capture := True\<rparr>, w))"

definition StopCapture :: "'w driver \<Rightarrow> ('w tg, unit) io" where
  "StopCapture api c = (case c of (t, w) \<Rightarrow>
     io_bind (EnableAutoRead api False) (\<lambda>_. io_return ()) (t\<lparr>is_start_capture := False\<rparr>, w))"

text \<open>These two read only; they cannot throw.\<close>

definition getValue_tg :: "'w driver \<Rightarrow> thinkgear \<Rightarrow> int \<Rightarrow> 'w \<Rightarrow> cfloat \<times> 'w" where
  "getValue_tg api t data_type w =
     (case TG_ReadPackets api (connection_id t) 1 w of (code, w) \<Rightarrow>
       if code = 1
       then (case TG_GetValueStatus api (connection_id t) data_type w of (s, w) \<Rightarrow>
         if s \<noteq> 0 then TG_GetValue api (connection_id t) data_type w else (Fin 0, w))
       else (Fin 0, w))"

definition getCaptureData :: "'w driver \<Rightarrow> thinkgear \<Rightarrow> int \<Rightarrow> 'w \<Rightarrow> cfloat \<times> 'w" where
  "getCaptureData api t data_type w =
     (if isStartCapture t then TG_GetValue api (connection_id t) data_type w
      else getValue_tg api t data_type w)"

subsection \<open>The readings\<close>

record brain_waves =
  waves :: "(string \<times> cfloat) list"
  parameters :: "string list"

definition BrainWaves0 :: brain_waves where
  "BrainWaves0 = \<lparr>waves = [], parameters = []\<rparr>"

definition BrainWaves :: "(string \<times> cfloat) list \<Rightarrow> brain_waves" where
  "BrainWaves m = \<lparr>waves = m, parameters = map fst m\<rparr>"

definition getWaves :: "'w driver \<Rightarrow> 'w tg \<Rightarrow> brain_waves \<times> 'w" where
  "getWaves api c = (case c of (t, w) \<Rightarrow>
     (case fold (\<lambda>(k, code) (m, w). case getCaptureData api t code w of (v, w) \<Rightarrow> (map_put k v m, w))
        (waves_map t) ([], w) of (m, w) \<Rightarrow> (BrainWaves m, w)))"

definition getParameters :: "brain_waves \<Rightarrow> string list" where
  "getParameters b = parameters b"

definition getValue :: "string \<Rightarrow> brain_waves \<Rightarrow> cfloat \<times> brain_waves" where
  "getValue name b = (case map_get (Fin 0) name (waves b) of (v, m) \<Rightarrow> (v, b\<lparr>waves := m\<rparr>))"

definition toMap :: "brain_waves \<Rightarrow> (string \<times> cfloat) list" where
  "toMap b = waves b"

definition getBattery :: "brain_waves \<Rightarrow> cfloat \<times> brain_waves" where
  "getBattery = getValue ''battery''"

definition getPoorSignal :: "brain_waves \<Rightarrow> cfloat \<times> brain_waves" where
  "getPoorSignal = getValue ''poor_signal''"

definition getAttention :: "brain_waves \<Rightarrow> cfloat \<times> brain_waves" where
  "getAttention = getValue ''attention''"

definition getMeditation :: "brain_waves \<Rightarrow> cfloat \<times> brain_waves" where
  "getMeditation = getValue ''meditation''"

definition getRaw :: "brain_waves \<Rightarrow> cfloat \<times> brain_waves" where
  "getRaw = getValue ''raw''"

definition getDelta :: "brain_waves \<Rightarrow> cfloat \<times> brain_waves" where
  "getDelta = getValue ''delta''"

definition getTheta :: "brain_waves \<Rightarrow> cfloat \<times> brain_waves" where
  "getTheta = getValue ''theta''"

definition getAlpha1 :: "brain_waves \<Rightarrow> cfloat \<times> brain_waves" where
  "getAlpha1 = getValue ''alpha1''"

definition getAlpha2 :: "brain_waves \<Rightarrow> cfloat \<times> brain_waves" where
  "getAlpha2 = getValue ''alpha2''"

definition getBeta1 :: "brain_waves \<Rightarrow> cfloat \<times> brain_waves" where
  "getBeta1 = getValue ''beta1''"

definition getBeta2 :: "brain_waves \<Rightarrow> cfloat \<times> brain_waves" where
  "getBeta2 = getValue ''beta2''"

definition getGamma1 :: "brain_waves \<Rightarrow> cfloat \<times> brain_waves" where
  "getGamma1 = getValue ''gamma1''"

definition getGamma2 :: "brain_waves \<Rightarrow> cfloat \<times> brain_waves" where
  "getGamma2 = getValue ''gamma2''"

definition getBlinkStrength :: "brain_waves \<Rightarrow> cfloat \<times> brain_waves" where
  "getBlinkStrength = getValue ''blink_strength''"

text \<open>
  The operators compute into the argument, a copy, and return the member \<open>waves\<close>: the value
  returned and the object afterwards.
\<close>

definition bw_key :: "(cfloat \<Rightarrow> cfloat \<Rightarrow> cfloat) \<Rightarrow> string \<Rightarrow>
    (string \<times> cfloat) list \<times> (string \<times> cfloat) list \<Rightarrow> (string \<times> cfloat) list \<times> (string \<times> cfloat) list" where
  "bw_key f key = (\<lambda>(arg, this).
     case map_get (Fin 0) key arg of (a, arg) \<Rightarrow>
     case map_get (Fin 0) key this of (b, this) \<Rightarrow> (map_put key (f a b) arg, this))"

definition bw_op :: "(cfloat \<Rightarrow> cfloat \<Rightarrow> cfloat) \<Rightarrow> brain_waves \<Rightarrow> brain_waves \<Rightarrow> brain_waves \<times> brain_waves" where
  "bw_op f this arg =
     (case fold (bw_key f) (parameters this) (waves arg, waves this) of (_, m) \<Rightarrow>
       (BrainWaves m, this\<lparr>waves := m\<rparr>))"

definition bw_plus :: "brain_waves \<Rightarrow> brain_waves \<Rightarrow> brain_waves \<times> brain_waves" where
  "bw_plus = bw_op (fp_add F64)"

definition bw_minus :: "brain_waves \<Rightarrow> brain_waves \<Rightarrow> brain_waves \<times> brain_waves" where
  "bw_minus = bw_op (fp_sub F64)"

definition bw_times :: "brain_waves \<Rightarrow> brain_waves \<Rightarrow> brain_waves \<times> brain_waves" where
  "bw_times = bw_op (fp_mul F64)"

definition bw_divide :: "brain_waves \<Rightarrow> brain_waves \<Rightarrow> brain_waves \<times> brain_waves" where
  "bw_divide = bw_op (fp_div F64)"

text \<open>The compound operators assign the result to the object.\<close>

definition bw_add_assign :: "brain_waves \<Rightarrow> brain_waves \<Rightarrow> brain_waves" where
  "bw_add_assign this arg = fst (bw_plus this arg)"

definition bw_sub_assign :: "brain_waves \<Rightarrow> brain_waves \<Rightarrow> brain_waves" where
  "bw_sub_assign this arg = fst (bw_minus this arg)"

definition bw_mul_assign :: "brain_waves \<Rightarrow> brain_waves \<Rightarrow> brain_waves" where
  "bw_mul_assign this arg = fst (bw_times this arg)"

definition bw_div_assign :: "brain_waves \<Rightarrow> brain_waves \<Rightarrow> brain_waves" where
  "bw_div_assign this arg = fst (bw_divide this arg)"

subsection \<open>A gauge\<close>

fun fp_abs :: "cfloat \<Rightarrow> cfloat" where
  "fp_abs (Fin x) = Fin \<bar>x\<bar>"
| "fp_abs (Inf _) = Inf False"
| "fp_abs NaN = NaN"

record gauge =
  g_threshold :: cfloat
  g_value :: cfloat
  gage_max :: int
  gage :: area
  g_color :: pixel

definition BrainWaveGage :: "int \<Rightarrow> int \<Rightarrow> gauge" where
  "BrainWaveGage w h = \<lparr>g_threshold = Fin 0, g_value = Fin 0, gage_max = 10,
     gage = area_Size w (h sdiv 10) Area0, g_color = Pixel0\<rparr>"

definition setColor_g :: "pixel \<Rightarrow> gauge \<Rightarrow> gauge" where
  "setColor_g c g = g\<lparr>g_color := c\<rparr>"

definition setPos_g :: "int \<Rightarrow> int \<Rightarrow> gauge \<Rightarrow> gauge" where
  "setPos_g x y g = g\<lparr>gage := area_Pos x y (gage g)\<rparr>"

definition setThreshold :: "cfloat \<Rightarrow> gauge \<Rightarrow> gauge" where
  "setThreshold t g = g\<lparr>g_threshold := t\<rparr>"

definition setValue :: "cfloat \<Rightarrow> gauge \<Rightarrow> gauge" where
  "setValue v g =
     (let t = if fp_lt (g_threshold g) (fp_abs v) then fp_abs v else g_threshold g in
      g\<lparr>g_threshold := t, g_value := fp_mul F64 (fp_div F64 v t) (fp_of_int F64 100)\<rparr>)"

definition gauge_num :: "gauge \<Rightarrow> int" where
  "gauge_num g = fp_to_int (fp_div F64 (g_value g) (fp_of_int F64 (gage_max g)))"

definition gauge_square :: "gauge \<Rightarrow> int \<Rightarrow> int \<Rightarrow> square \<Rightarrow> square res" where
  "gauge_square g num i sq = (let x = mx (gage g); y = my (gage g); w = mwidth (gage g); h = mheight (gage g) in
     if 0 < num then Apex_rect x (s32 (y - (i + 1) - i * h)) w h sq
     else if num < 0 then Apex_rect x (s32 (y + (i + 1) + (i + 1) * h)) w h sq
     else Inr sq)"

definition Draw_g :: "gauge \<Rightarrow> bi_image \<Rightarrow> bi_image res" where
  "Draw_g g im = (let num = gauge_num g in
     rbind (foldM (\<lambda>i (sq, im).
       rbind (gauge_square g num i sq) (\<lambda>sq. rbind (square_Draw sq im) (\<lambda>im. Inr (sq, im))))
       [0..s32 \<bar>num\<bar> - 1] (square_Color (g_color g) (replicate 4 Line0), im)) (\<lambda>(_, im). Inr im))"

subsection \<open>The monitor\<close>

text \<open>Of the text objects of the window the monitor changes the strings.\<close>

record monitor =
  m_area :: area
  gage_width :: int
  gage_height :: int
  param_num :: int
  wave_gage :: "gauge list"
  wave_text :: "string list"

definition setPos_m :: "int \<Rightarrow> int \<Rightarrow> monitor \<Rightarrow> monitor" where
  "setPos_m x y m = m\<lparr>m_area := area_Pos x y (m_area m)\<rparr>"

definition BrainMonitor :: "int \<Rightarrow> int \<Rightarrow> monitor" where
  "BrainMonitor x y =
     (let m = setPos_m x y \<lparr>m_area = Area0, gage_width = 15, gage_height = 100, param_num = 14,
            wave_gage = [], wave_text = []\<rparr>;
          m = m\<lparr>m_area := area_Size (param_num m * gage_width m + 1 + 200) (15 * param_num m) (m_area m)\<rparr>
      in m\<lparr>wave_text := replicate (nat (param_num m)) []\<rparr>)"

definition add_gauge :: "string \<times> cfloat \<Rightarrow> monitor \<Rightarrow> monitor res" where
  "add_gauge = (\<lambda>(k, v) m.
     let n = int (length (wave_gage m));
         g = setValue v (setColor_g (PixelRGB 255 0 0) (setThreshold (fp_of_int F64 10000)
               (setPos_g (s32 (mx (m_area m) + n * gage_width m)) (s32 (my (m_area m) + gage_height m))
                 (BrainWaveGage (gage_width m) (gage_height m))))) in
     if n < int (length (wave_text m))
     then Inr (m\<lparr>wave_text := (wave_text m)[nat n := String_plus_num (k @ '' : '') (Number_val (VDouble v))],
                wave_gage := wave_gage m @ [g]\<rparr>)
     else Inl OutOfRange)"

definition Update_m :: "'w driver \<Rightarrow> 'w tg \<Rightarrow> monitor \<Rightarrow> monitor res \<times> 'w" where
  "Update_m api c m = (case getWaves api c of (b, w) \<Rightarrow>
     (foldM add_gauge (toMap b) (m\<lparr>wave_gage := []\<rparr>), w))"

definition Draw_m :: "monitor \<Rightarrow> bi_image \<Rightarrow> bi_image res" where
  "Draw_m m im =
     rbind (Apex_rect (mx (m_area m)) (my (m_area m)) (mwidth (m_area m)) (mheight (m_area m))
       (square_Color (PixelRGB 0 0 255) (replicate 4 Line0))) (\<lambda>sq.
     rbind (square_Draw sq im) (foldM Draw_g (wave_gage m)))"

text \<open>One round of the application: readings, a black background, the drawing, the display.\<close>

definition main_monitor ::
  "'w driver \<Rightarrow> 'w tg \<Rightarrow> monitor \<Rightarrow> bi_image \<Rightarrow> bi_image \<Rightarrow> (monitor \<times> bi_image \<times> bi_image) res \<times> 'w" where
  "main_monitor api c m background display = (case Update_m api c m of (r, w) \<Rightarrow>
     (rbind r (\<lambda>m. rbind (assign_pixel (PixelI 0) background) (\<lambda>background.
      rbind (Draw_m m background) (\<lambda>background.
      rbind (Paste 0 0 background 100 display) (\<lambda>display. Inr (m, background, display))))), w))"

text \<open>The rounds, one after the other; the first error ends the program.\<close>

fun monitor_rounds :: "nat \<Rightarrow> 'w driver \<Rightarrow> 'w tg \<Rightarrow> monitor \<Rightarrow> bi_image \<Rightarrow> bi_image \<Rightarrow>
    (monitor \<times> bi_image \<times> bi_image) res \<times> 'w" where
  "monitor_rounds 0 api c m background display = (Inr (m, background, display), snd c)"
| "monitor_rounds (Suc n) api c m background display = (case main_monitor api c m background display of
     (Inl e, w) \<Rightarrow> (Inl e, w)
   | (Inr (m, background, display), w) \<Rightarrow> monitor_rounds n api (fst c, w) m background display)"

subsection \<open>Readings\<close>

lemma wave_names: "map fst (fold (\<lambda>(k, v). map_put k v) wave_codes []) =
    [''alpha1'', ''alpha2'', ''attention'', ''battery'', ''beta1'', ''beta2'', ''blink_strength'', ''delta'',
     ''gamma1'', ''gamma2'', ''meditation'', ''poor_signal'', ''raw'', ''theta'']"
  by code_simp

text \<open>A headset as the constructor leaves its table.\<close>

definition built :: "thinkgear \<Rightarrow> bool" where
  "built t \<longleftrightarrow> waves_map t = fold (\<lambda>(k, v). map_put k v) wave_codes []"

lemma ThinkGear_built: "ThinkGear api w = (Inr t, w') \<Longrightarrow> built t \<and> \<not> is_start_capture t"
  by (auto simp: ThinkGear_def Create_id_def throw_code_def io_throw_def io_return_def built_def
      split: prod.splits sum.splits if_splits)

text \<open>Reading keys in their order appends them.\<close>

lemma readings_fold:
  assumes "sorted_keys (m @ map (\<lambda>(k, c). (k, f k c)) ks)"
    and "\<And>k c w. g (k, c) w = (f k c, w)"
  shows "fold (\<lambda>(k, c) (m, w). case g (k, c) w of (v, w) \<Rightarrow> (map_put k v m, w)) ks (m, w) =
    (m @ map (\<lambda>(k, c). (k, f k c)) ks, w)"
  using assms(1)
proof (induction ks arbitrary: m)
  case (Cons q ks)
  obtain k c where q: "q = (k, c)" by (cases q)
  have "map_put k (f k c) m = m @ [(k, f k c)]"
    using sorted_keys_mid [of m "(k, f k c)" "map (\<lambda>(k, c). (k, f k c)) ks"] Cons.prems q
    by (intro map_put_snoc) simp
  with Cons.IH [of "m @ [(k, f k c)]"] Cons.prems q assms(2) show ?case by simp
qed simp

text \<open>Without that: whatever the driver does, the names are those of the table.\<close>

lemma readings_names:
  assumes "sorted_wrt str_lt (map fst n @ map fst ks)"
  shows "\<exists>m' w'.
    fold (\<lambda>(k, c) (m, w). case g (k, c) w of (v, w) \<Rightarrow> (map_put k v m, w)) ks (n, w) = (m', w') \<and>
    map fst m' = map fst n @ map fst ks"
  using assms
proof (induction ks arbitrary: n w)
  case (Cons q ks)
  obtain k c where q: "q = (k, c)" by (cases q)
  obtain v w1 where v: "g (k, c) w = (v, w1)" by (cases "g (k, c) w")
  have "str_lt (fst p) k" if "p \<in> set n" for p
    using Cons.prems that q by (auto simp: sorted_wrt_append)
  then have n: "map_put k v n = n @ [(k, v)]" by (rule map_put_snoc)
  have "sorted_wrt str_lt (map fst (n @ [(k, v)]) @ map fst ks)" using Cons.prems q by simp
  from Cons.IH [OF this, of w1] show ?case using q v n by simp
qed simp

lemma sorted_wave_table: "sorted_keys (fold (\<lambda>(k, v). map_put k v) wave_codes [])"
  by code_simp

lemma getWaves_names:
  assumes "built t"
  shows "\<exists>m w'. getWaves api (t, w) = (BrainWaves m, w') \<and>
    map fst m = map fst (fold (\<lambda>(k, v). map_put k v) wave_codes [])"
proof -
  let ?T = "fold (\<lambda>(k, v). map_put k v) wave_codes []"
  have s: "sorted_wrt str_lt (map fst ([] :: (string \<times> cfloat) list) @ map fst ?T)"
    using sorted_wave_table by (simp add: sorted_keys_names)
  obtain m w' where "fold (\<lambda>(k, c) (m, w). case getCaptureData api t c w of (v, w) \<Rightarrow> (map_put k v m, w))
      ?T ([], w) = (m, w')" "map fst m = map fst ?T"
    using readings_names [OF s, of "\<lambda>(k, c). getCaptureData api t c" w] by auto
  then show ?thesis using assms by (auto simp: getWaves_def built_def)
qed

text \<open>While capturing, one call of \<open>getWaves\<close> is a snapshot: it reads no packet, leaves the
  outside world as it is, and gives for each of the fourteen names the value the driver
  holds for its code (the driver's query of a value is documented to change nothing).\<close>

theorem getWaves_snapshot:
  assumes "fst (ThinkGear api w0) = Inr t0" "StartCapture api (t0, w1) = (Inr (), t, w)"
    and "\<And>c k w. TG_GetValue api c k w = (val c k w, w)"
  shows "\<exists>m. getWaves api (t, w) = (BrainWaves m, w) \<and> length m = 14 \<and>
    list_all (\<lambda>(k, c). map_of m k = Some (val (connection_id t) c w)) wave_codes"
proof -
  have b: "built t0" using assms(1) ThinkGear_built [of api w0 t0 "snd (ThinkGear api w0)"] by (cases "ThinkGear api w0") simp
  have t: "t = t0\<lparr>is_start_capture := True\<rparr>"
    using assms(2) by (auto simp: StartCapture_def EnableAutoRead_def with_world_def io_bind_def throw_code_def
        io_throw_def io_return_def split: prod.splits sum.splits if_splits)
  let ?T = "fold (\<lambda>(k, v). map_put k v) wave_codes []"
  let ?f = "\<lambda>(k :: string) c. val (connection_id t) c w"
  let ?m = "map (\<lambda>(k, c). (k, ?f k c)) ?T"
  have s: "sorted_keys ([] @ ?m)"
    using sorted_wave_table by (simp add: sorted_keys_names comp_def case_prod_unfold)
  have step: "(\<lambda>(k, c) u. if u = w then getCaptureData api t c u else (?f k c, u)) (k, c) u = (?f k c, u)" for k c u
    using t assms(3) by (simp add: getCaptureData_def isStartCapture_def)
  have "fold (\<lambda>(k, c) (m, w). case getCaptureData api t c w of (v, w) \<Rightarrow> (map_put k v m, w)) ks (m, w) =
      fold (\<lambda>(k, c) (m, u). case (\<lambda>(k, c) u. if u = w then getCaptureData api t c u else (?f k c, u)) (k, c) u of
        (v, u) \<Rightarrow> (map_put k v m, u)) ks (m, w)" for ks m
    by (induction ks arbitrary: m) (auto simp: getCaptureData_def isStartCapture_def t assms(3))
  then have "getWaves api (t, w) = (BrainWaves ?m, w)"
    using readings_fold [OF s step] b t by (simp add: getWaves_def built_def)
  moreover have "length ?T = 14" by code_simp
  moreover have "list_all (\<lambda>(k, c). map_of ?m k = Some (val (connection_id t) c w)) wave_codes"
  proof -
    have "list_all (\<lambda>(k, c). map_of ?T k = Some c) wave_codes" by code_simp
    moreover have "map_of ?m k = map_option (?f k) (map_of ?T k)" for k
      by (simp add: map_of_map)
    ultimately show ?thesis by (simp add: list_all_iff case_prod_unfold)
  qed
  ultimately show ?thesis by auto
qed

text \<open>A driver whose values are their codes; the world is the answer to \<open>TG_EnableAutoRead\<close>.\<close>

definition demo_driver :: "int driver" where
  "demo_driver = \<lparr>TG_GetNewConnectionId = \<lambda>w. (5, w), TG_EnableAutoRead = \<lambda>c b w. (w, w),
     TG_Connect = \<lambda>c p b d w. (0, w), TG_FreeConnection = \<lambda>c w. w, TG_Disconnect = \<lambda>c w. w,
     TG_SetStreamLog = \<lambda>c f w. (0, w), TG_SetDataLog = \<lambda>c f w. (0, w), TG_ReadPackets = \<lambda>c n w. (n, w),
     TG_GetValueStatus = \<lambda>c k w. (1, w), TG_GetValue = \<lambda>c k w. (Fin (of_int k), w)\<rparr>"

theorem getWaves_snapshot_witness:
  "\<exists>t m. fst (StartCapture demo_driver (t, 0)) = Inr () \<and> getWaves demo_driver (t\<lparr>is_start_capture := True\<rparr>, 0) = (BrainWaves m, 0) \<and>
    length m = 14 \<and> map_of m ''theta'' = Some (Fin 6)"
proof -
  obtain t where t: "fst (ThinkGear demo_driver 0) = Inr t"
    by (simp add: ThinkGear_def Create_id_def demo_driver_def throw_code_def io_return_def)
  have s: "StartCapture demo_driver (t, 0) = (Inr (), t\<lparr>is_start_capture := True\<rparr>, 0)"
    by (simp add: StartCapture_def EnableAutoRead_def with_world_def io_bind_def throw_code_def io_return_def
        demo_driver_def)
  have "\<exists>m. getWaves demo_driver (t\<lparr>is_start_capture := True\<rparr>, 0) = (BrainWaves m, 0) \<and> length m = 14 \<and>
      list_all (\<lambda>(k, c). map_of m k = Some (Fin (of_int c))) wave_codes"
    by (rule getWaves_snapshot [OF t s]) (simp add: demo_driver_def)
  then obtain m where m: "getWaves demo_driver (t\<lparr>is_start_capture := True\<rparr>, 0) = (BrainWaves m, 0)"
    "length m = 14" "list_all (\<lambda>(k, c). map_of m k = Some (Fin (of_int c))) wave_codes" by blast
  have "map_of m ''theta'' = Some (Fin 6)" using m(3) by (simp add: wave_codes_def)
  then show ?thesis using s m(1,2) by (intro exI [of _ t] exI [of _ m]) simp
qed

text \<open>A capture that fails to start is on: the flag is set before the driver is asked, so the
  object goes on as if it captured and reads whatever values the driver holds.\<close>

theorem failed_capture_is_on:
  assumes "TG_EnableAutoRead api (connection_id t) True w = (code, w')" "- 3 \<le> code" "code \<le> - 1"
  shows "\<exists>msg t'. StartCapture api (t, w) = (Inl (Thrown msg), t', w') \<and> isStartCapture t' \<and>
    getCaptureData api t' k w' = TG_GetValue api (connection_id t) k w'"
proof -
  have "code = -1 \<or> code = -2 \<or> code = -3" using assms(2,3) by auto
  then show ?thesis
    using assms(1) by (auto simp: StartCapture_def EnableAutoRead_def with_world_def io_bind_def throw_code_def
        io_throw_def isStartCapture_def getCaptureData_def)
qed

theorem failed_capture_is_on_witness:
  "\<exists>msg t'. StartCapture demo_driver (\<lparr>waves_map = [], connection_id = 5, is_start_capture = False\<rparr>, -2) =
      (Inl (Thrown msg), t', -2) \<and> isStartCapture t'"
proof -
  have "TG_EnableAutoRead demo_driver (connection_id \<lparr>waves_map = [], connection_id = 5, is_start_capture = False\<rparr>)
      True (-2) = (-2, -2)"
    by (simp add: demo_driver_def)
  from failed_capture_is_on [OF this, of 0] show ?thesis by auto
qed

text \<open>The arithmetic operators give the left operand back, whatever the right one is.\<close>

lemma fold_bw_key:
  "list_all (\<lambda>k. k \<in> fst ` set m) ks \<Longrightarrow> \<exists>arg'. fold (bw_key f) ks (arg, m) = (arg', m)"
proof (induction ks arbitrary: arg)
  case (Cons k ks)
  then obtain v where "map_of m k = Some v"
    by (metis list.pred_inject(2) map_of_eq_None_iff not_Some_eq)
  then have "map_get (Fin 0) k m = (v, m)" by (simp add: map_get_def)
  with Cons show ?case by (simp add: bw_key_def split: prod.split)
qed simp

lemma bw_op_left: "fst (bw_op f (BrainWaves m) arg) = BrainWaves m"
proof -
  obtain arg' where "fold (bw_key f) (map fst m) (waves arg, m) = (arg', m)"
    using fold_bw_key [of m "map fst m" f "waves arg"] by (auto simp: list_all_iff)
  then show ?thesis by (simp add: bw_op_def BrainWaves_def)
qed

subsection \<open>A gauge never shows more than ten squares\<close>

lemma trunc_between: "of_int a \<le> x \<Longrightarrow> x \<le> of_int b \<Longrightarrow> a \<le> 0 \<Longrightarrow> 0 \<le> b \<Longrightarrow> a \<le> rat_trunc x \<and> rat_trunc x \<le> b"
  by (auto simp: floor_le_iff le_floor_iff) linarith+

lemma scaled_between:
  assumes "0 < n" "n < 2 ^ 31" "0 < y" "\<bar>x\<bar> \<le> of_int n * y"
  shows "\<exists>z. fp_div F64 (Fin x) (Fin y) = Fin z \<and> \<bar>z\<bar> \<le> of_int n"
proof -
  have "x / y \<le> of_int n" "of_int (- n) \<le> x / y"
    using assms by (auto simp: divide_le_eq le_divide_eq abs_le_iff)
  then have "\<exists>z. fp_round F64 (x / y) = Fin z \<and> of_int (- n) \<le> z \<and> z \<le> of_int n \<and> z = rnd_q F64 (x / y)"
    using assms(1,2) by (intro fp_round_between) auto
  then show ?thesis using assms(3) by (auto simp: abs_le_iff)
qed

lemma gauge_num_small:
  assumes "g_threshold g = Fin t" "1 \<le> t" "gage_max g = 10"
  shows "\<bar>gauge_num (setValue v g)\<bar> \<le> 10 \<or> gauge_num (setValue v g) = - (2 ^ 31)"
proof (cases v)
  case (Fin x)
  define T where "T = (if t < \<bar>x\<bar> then \<bar>x\<bar> else t)"
  have T: "0 < T" "\<bar>x\<bar> \<le> of_int 1 * T" using assms(2) by (auto simp: T_def)
  have hundred: "fp_of_int F64 100 = Fin 100" "fp_of_int F64 10 = Fin 10"
    using fp_of_int_Fin [of 100] fp_of_int_Fin [of 10] by simp_all
  obtain y where y: "fp_div F64 (Fin x) (Fin T) = Fin y" "\<bar>y\<bar> \<le> 1"
    using scaled_between [OF _ _ T] by auto
  have "\<exists>z. fp_round F64 (y * 100) = Fin z \<and> of_int (- 100) \<le> z \<and> z \<le> of_int 100 \<and> z = rnd_q F64 (y * 100)"
    using y(2) by (intro fp_round_between) (auto simp: abs_le_iff)
  then obtain z where z: "fp_mul F64 (Fin y) (Fin 100) = Fin z" "\<bar>z\<bar> \<le> of_int 10 * 10" by auto
  obtain u where u: "fp_div F64 (Fin z) (Fin 10) = Fin u" "\<bar>u\<bar> \<le> of_int 10"
    using scaled_between [OF _ _ _ z(2)] by auto
  have thr: "(if fp_lt (g_threshold g) (fp_abs v) then fp_abs v else g_threshold g) = Fin T"
    using assms(1) Fin by (simp add: T_def)
  have "gauge_num (setValue v g) = fp_to_int (Fin u)"
    unfolding setValue_def Let_def thr gauge_num_def
    using assms(3) Fin y(1) z(1) u(1) by (simp add: hundred del: fp_div.simps fp_mul.simps fp_to_int.simps)
  moreover have "\<bar>rat_trunc u\<bar> \<le> 10"
    using trunc_between [of "-10" u 10] u(2) by (auto simp: abs_le_iff)
  ultimately show ?thesis
    using int32_abs [of "rat_trunc u"] by (auto simp: Let_def simp del: rat_trunc.simps)
next
  case (Inf s)
  then show ?thesis using assms by (simp add: gauge_num_def setValue_def)
next
  case NaN
  then show ?thesis using assms by (simp add: gauge_num_def setValue_def)
qed

subsection \<open>The drawing stays inside the image\<close>

definition edges_in :: "bi_image \<Rightarrow> square \<Rightarrow> bool" where
  "edges_in im sq \<longleftrightarrow> length sq = 4 \<and>
     list_all (\<lambda>l. inside im (px (pt0 l)) (py (pt0 l)) \<and> inside im (px (pt1 l)) (py (pt1 l))) sq"

lemma edges_in_shape: "shape_of t = shape_of im \<Longrightarrow> edges_in t sq = edges_in im sq"
  by (simp add: edges_in_def inside_def shape_eq)

lemma square_Draw_ok:
  assumes "wf_img im" "edges_in im sq"
  shows "\<exists>t. square_Draw sq im = Inr t \<and> shape_of t = shape_of im"
  unfolding square_Draw_def
proof (rule foldM_invariant)
  fix l t assume *: "l \<in> set sq" "shape_of t = shape_of im"
  have "inside t (px (pt0 l)) (py (pt0 l))" "inside t (px (pt1 l)) (py (pt1 l))"
    using assms(2) *(1) by (auto simp: edges_in_def list_all_iff inside_shape [OF *(2)])
  from line_Draw_ok [OF wf_shape [OF *(2) assms(1)] this]
  show "\<exists>s'. line_Draw l t = Inr s' \<and> shape_of s' = shape_of im" using *(2) by auto
qed simp

lemma Apex_rect_ok:
  assumes "length sq = 4" "int32 (x + w)" "int32 (y + h)"
    and "inside im x y" "inside im (x + w) (y + h)"
  shows "\<exists>sq'. Apex_rect x y w h sq = Inr sq' \<and> edges_in im sq'"
proof -
  obtain a b c d where sq: "sq = [a, b, c, d]"
    using assms(1) by (auto simp: numeral_eq_Suc length_Suc_conv)
  have "inside im (x + w) y" "inside im x (y + h)" using assms(4,5) by (auto simp: inside_def)
  then show ?thesis
    using assms(2-5) by (simp add: sq Apex_rect_def Let_def set_edge_def upd_line_def line_Start_def line_End_def
        edges_in_def Pos_def)
qed

text \<open>The place of a gauge: room for ten squares above it and ten below.\<close>

definition gauge_fits :: "bi_image \<Rightarrow> gauge \<Rightarrow> bool" where
  "gauge_fits im g \<longleftrightarrow> mwidth (gage g) = 15 \<and> mheight (gage g) = 10 \<and>
     0 \<le> mx (gage g) \<and> mx (gage g) + 15 < width im \<and>
     100 \<le> my (gage g) \<and> my (gage g) + 120 < height im \<and>
     (\<bar>gauge_num g\<bar> \<le> 10 \<or> gauge_num g = - (2 ^ 31))"

lemma gauge_square_ok:
  assumes "gauge_fits im g" "wf_img im" "length sq = 4" "0 \<le> i" "i < 10" "num \<noteq> 0"
  shows "\<exists>sq'. gauge_square g num i sq = Inr sq' \<and> edges_in im sq'"
proof -
  note g = assms(1) [unfolded gauge_fits_def]
  have "0 < width im" "0 < height im" using g by linarith+
  note lt = int32_extent [OF assms(2) this]
  let ?x = "mx (gage g)" and ?y = "my (gage g)"
  have up: "s32 (?y - (i + 1) - i * 10) = ?y - (i + 1) - i * 10"
    and dn: "s32 (?y + (i + 1) + (i + 1) * 10) = ?y + (i + 1) + (i + 1) * 10"
    using g lt assms(4,5) by (intro s32_id; auto simp: int32_def)+
  have "\<exists>sq'. Apex_rect ?x (?y - (i + 1) - i * 10) 15 10 sq = Inr sq' \<and> edges_in im sq'"
    "\<exists>sq'. Apex_rect ?x (?y + (i + 1) + (i + 1) * 10) 15 10 sq = Inr sq' \<and> edges_in im sq'"
    using g lt assms(3-5) by (intro Apex_rect_ok; auto simp: int32_def inside_def)+
  then show ?thesis using g assms(6) up dn by (auto simp: gauge_square_def Let_def)
qed

lemma Draw_g_ok:
  assumes "gauge_fits im g" "wf_img im"
  shows "\<exists>t. Draw_g g im = Inr t \<and> shape_of t = shape_of im"
proof -
  let ?num = "gauge_num g"
  have least: "s32 \<bar>- (2 ^ 31)\<bar> = - (2 ^ 31)" by (simp add: s32_def)
  have small: "s32 \<bar>?num\<bar> = \<bar>?num\<bar>" if "\<bar>?num\<bar> \<le> 10"
    using that by (intro s32_id int32_abs) simp
  let ?f = "\<lambda>i (sq, im). rbind (gauge_square g ?num i sq) (\<lambda>sq. rbind (square_Draw sq im) (\<lambda>im. Inr (sq, im)))"
  let ?P = "\<lambda>(sq :: square, t :: bi_image). length sq = 4 \<and> shape_of t = shape_of im"
  have "\<exists>s. foldM ?f [0..s32 \<bar>?num\<bar> - 1] (square_Color (g_color g) (replicate 4 Line0), im) = Inr s \<and> ?P s"
  proof (rule foldM_invariant)
    show "?P (square_Color (g_color g) (replicate 4 Line0), im)" by (simp add: square_Color_def)
  next
    fix i s assume *: "i \<in> set [0..s32 \<bar>?num\<bar> - 1]" "?P s"
    obtain sq t where s: "s = (sq, t)" by (cases s)
    have P: "length sq = 4" "shape_of t = shape_of im" using *(2) s by simp_all
    have "\<bar>?num\<bar> \<le> 10" using *(1) least assms(1) by (auto simp: gauge_fits_def)
    with *(1) small have i: "0 \<le> i" "i < 10" "?num \<noteq> 0" by auto
    obtain sq' where sq': "gauge_square g ?num i sq = Inr sq'" "edges_in im sq'"
      using gauge_square_ok [OF assms P(1) i] by blast
    have "edges_in t sq'" using sq'(2) edges_in_shape [OF P(2)] by simp
    from square_Draw_ok [OF wf_shape [OF P(2) assms(2)] this] obtain u where
      "square_Draw sq' t = Inr u" "shape_of u = shape_of t" by blast
    then show "\<exists>s'. ?f i s = Inr s' \<and> ?P s'"
      using s sq' P(2) by (auto simp: edges_in_def)
  qed
  then obtain sq t where "foldM ?f [0..s32 \<bar>?num\<bar> - 1] (square_Color (g_color g) (replicate 4 Line0), im) = Inr (sq, t)"
    "shape_of t = shape_of im" by auto
  then show ?thesis by (simp add: Draw_g_def Let_def)
qed

text \<open>The monitor at its place in the window, after some of the readings.\<close>

definition placed :: "bi_image \<Rightarrow> monitor \<Rightarrow> bool" where
  "placed im m \<longleftrightarrow> m_area m = Area4 0 50 411 210 \<and> gage_width m = 15 \<and> gage_height m = 100 \<and>
     length (wave_text m) = 14 \<and> list_all (gauge_fits im) (wave_gage m)"

lemma placed_start: "placed im (BrainMonitor 0 50)"
  by (simp add: placed_def BrainMonitor_def Let_def setPos_m_def area_Pos_def area_Size_def Area0_def Area4_def)

text \<open>The gauge of the \<open>n\<close>th reading and the text beside it.\<close>

definition gauge_at :: "int \<Rightarrow> cfloat \<Rightarrow> gauge" where
  "gauge_at n v = setValue v (setColor_g (PixelRGB 255 0 0) (setThreshold (fp_of_int F64 10000)
     (setPos_g (n * 15) 150 (BrainWaveGage 15 100))))"

definition reading_text :: "string \<times> cfloat \<Rightarrow> string" where
  "reading_text = (\<lambda>(k, v). String_plus_num (k @ '' : '') (Number_val (VDouble v)))"

lemma gauge_at_num: "\<bar>gauge_num (gauge_at n v)\<bar> \<le> 10 \<or> gauge_num (gauge_at n v) = - (2 ^ 31)"
  unfolding gauge_at_def using fp_of_int_Fin [of 10000]
  by (intro gauge_num_small [where t = 10000])
    (simp_all add: setColor_g_def setThreshold_def setPos_g_def BrainWaveGage_def)

lemma gauge_at_squares: "s32 \<bar>gauge_num (gauge_at n v)\<bar> \<le> 10"
proof (cases "\<bar>gauge_num (gauge_at n v)\<bar> \<le> 10")
  case True
  then have "s32 \<bar>gauge_num (gauge_at n v)\<bar> = \<bar>gauge_num (gauge_at n v)\<bar>" by (intro s32_id int32_abs) simp
  then show ?thesis using True by simp
next
  case False
  then have "gauge_num (gauge_at n v) = - (2 ^ 31)" using gauge_at_num [of n v] by blast
  then show ?thesis by (simp add: s32_def)
qed

lemma gauge_at_NaN: "s32 \<bar>gauge_num (gauge_at n NaN)\<bar> \<le> 0"
proof -
  have "gauge_num (gauge_at n NaN) = - (2 ^ 31)"
    using fp_of_int_Fin [of 10000] by (simp add: gauge_num_def gauge_at_def setValue_def setColor_g_def setThreshold_def)
  then show ?thesis by (simp add: s32_def)
qed

lemma gauge_at_fits:
  assumes "0 \<le> n" "n < 14" "width im = 500" "height im = 300"
  shows "gauge_fits im (gauge_at n v)"
proof -
  have "gage (gauge_at n v) = Area4 (n * 15) 150 15 10"
    by (simp add: gauge_at_def setValue_def Let_def setColor_g_def setThreshold_def setPos_g_def BrainWaveGage_def
        area_Pos_def area_Size_def Area0_def Area4_def signed_divide_int_def)
  then show ?thesis using assms gauge_at_num [of n v] by (simp add: gauge_fits_def Area4_def)
qed

lemma add_gauge_ok:
  assumes "placed im m" "width im = 500" "height im = 300" "length (wave_gage m) < 14"
  shows "\<exists>m'. add_gauge r m = Inr m' \<and> placed im m' \<and>
    wave_gage m' = wave_gage m @ [gauge_at (int (length (wave_gage m))) (snd r)] \<and>
    wave_text m' = (wave_text m)[length (wave_gage m) := reading_text r]"
proof -
  obtain k v where r: "r = (k, v)" by (cases r)
  define n where "n = int (length (wave_gage m))"
  have n: "0 \<le> n" "n < 14" using assms(4) by (simp_all add: n_def)
  have x: "s32 (n * 15) = n * 15" "s32 150 = 150" using n by (simp_all add: int32_def)
  have "add_gauge r m = Inr (m\<lparr>wave_text := (wave_text m)[nat n := reading_text r],
      wave_gage := wave_gage m @ [gauge_at n v]\<rparr>)"
    using assms(1,4) n x
    by (simp add: add_gauge_def r Let_def placed_def n_def [symmetric] gauge_at_def reading_text_def Area4_def)
  then show ?thesis using assms(1) gauge_at_fits [OF n assms(2,3)] by (simp add: placed_def n_def r)
qed

text \<open>Every reading of a list gets its gauge and its text.\<close>

lemma gauges_ok:
  "placed im m \<Longrightarrow> width im = 500 \<Longrightarrow> height im = 300 \<Longrightarrow> length (wave_gage m) + length rs \<le> 14 \<Longrightarrow>
    \<exists>m'. foldM add_gauge rs m = Inr m' \<and> placed im m' \<and>
      wave_gage m' = wave_gage m @ map (\<lambda>(i, r). gauge_at (int (length (wave_gage m) + i)) (snd r)) (enumerate 0 rs) \<and>
      wave_text m' = take (length (wave_gage m)) (wave_text m) @ map reading_text rs @
        drop (length (wave_gage m) + length rs) (wave_text m)"
proof (induction rs arbitrary: m)
  case (Cons r rs)
  let ?k = "length (wave_gage m)"
  obtain m1 where m1: "add_gauge r m = Inr m1" "placed im m1" "wave_gage m1 = wave_gage m @ [gauge_at (int ?k) (snd r)]"
    "wave_text m1 = (wave_text m)[?k := reading_text r]"
    using add_gauge_ok [OF Cons.prems(1-3), of r] Cons.prems(4) by auto
  have "length (wave_gage m1) + length rs \<le> 14" using m1(3) Cons.prems(4) by simp
  from Cons.IH [OF m1(2) Cons.prems(2,3) this] obtain m' where m': "foldM add_gauge rs m1 = Inr m'" "placed im m'"
    "wave_gage m' = wave_gage m1 @ map (\<lambda>(i, r). gauge_at (int (length (wave_gage m1) + i)) (snd r)) (enumerate 0 rs)"
    "wave_text m' = take (length (wave_gage m1)) (wave_text m1) @ map reading_text rs @
        drop (length (wave_gage m1) + length rs) (wave_text m1)" by blast
  have len: "?k < length (wave_text m)" using Cons.prems(1,4) by (simp add: placed_def)
  have "map (\<lambda>(i, r). gauge_at (int (Suc ?k + i)) (snd r)) (enumerate 0 rs) =
      map (\<lambda>(i, r). gauge_at (int (?k + i)) (snd r)) (enumerate (Suc 0) rs)"
    by (rule nth_equalityI) (simp_all add: nth_enumerate_eq algebra_simps)
  then have "wave_gage m' = wave_gage m @
      map (\<lambda>(i, r). gauge_at (int (?k + i)) (snd r)) (enumerate 0 (r # rs))"
    by (simp add: m'(3) m1(3))
  moreover have "take (Suc ?k) (wave_text m1) = take ?k (wave_text m) @ [reading_text r]"
    using len by (simp add: m1(4) take_Suc_conv_app_nth take_update_cancel)
  then have "wave_text m' = take ?k (wave_text m) @ map reading_text (r # rs) @ drop (?k + length (r # rs)) (wave_text m)"
    using m'(4) by (simp add: m1(3,4) drop_update_cancel)
  ultimately show ?case using m1(1) m'(1,2) by simp
qed auto

text \<open>What the monitor shows for a list of readings.\<close>

definition shows_readings :: "(string \<times> cfloat) list \<Rightarrow> monitor \<Rightarrow> bool" where
  "shows_readings r m \<longleftrightarrow> wave_text m = map reading_text r \<and>
     wave_gage m = map (\<lambda>(i, k, v). gauge_at (int i) v) (enumerate 0 r)"

lemma Update_m_ok:
  assumes "built t" "placed im m" "width im = 500" "height im = 300"
  shows "\<exists>m' r w'. Update_m api (t, w) m = (Inr m', w') \<and> placed im m' \<and> getWaves api (t, w) = (BrainWaves r, w') \<and>
    map fst r = map fst (fold (\<lambda>(k, v). map_put k v) wave_codes []) \<and> shows_readings r m'"
proof -
  obtain r w' where g: "getWaves api (t, w) = (BrainWaves r, w')"
    "map fst r = map fst (fold (\<lambda>(k, v). map_put k v) wave_codes [])"
    using getWaves_names [OF assms(1), of api w] by (elim exE conjE) (rule that)
  have "length (map fst r) = 14" unfolding g(2) wave_names by simp
  moreover have "placed im (m\<lparr>wave_gage := []\<rparr>)" using assms(2) by (simp add: placed_def)
  moreover have "length (wave_text m) = 14" using assms(2) by (simp add: placed_def)
  ultimately obtain m' where m': "foldM add_gauge r (m\<lparr>wave_gage := []\<rparr>) = Inr m'" "placed im m'"
    "wave_gage m' = map (\<lambda>(i, r). gauge_at (int i) (snd r)) (enumerate 0 r)" "wave_text m' = map reading_text r"
    using gauges_ok [of im "m\<lparr>wave_gage := []\<rparr>" r] assms(3,4) by auto
  moreover have "map (\<lambda>(i, r). gauge_at (int i) (snd r)) (enumerate 0 r) = map (\<lambda>(i, k, v). gauge_at (int i) v) (enumerate 0 r)"
    by (rule map_cong) auto
  ultimately show ?thesis using g by (simp add: Update_m_def BrainWaves_def toMap_def shows_readings_def)
qed

lemma Draw_m_ok:
  assumes "placed im m" "wf_img im" "width im = 500" "height im = 300"
  shows "\<exists>t. Draw_m m im = Inr t \<and> shape_of t = shape_of im"
proof -
  have a: "mx (m_area m) = 0" "my (m_area m) = 50" "mwidth (m_area m) = 411" "mheight (m_area m) = 210"
    using assms(1) by (simp_all add: placed_def Area4_def)
  have "length (square_Color (PixelRGB 0 0 255) (replicate 4 Line0)) = 4" by (simp add: square_Color_def)
  then have "\<exists>sq. Apex_rect 0 50 411 210 (square_Color (PixelRGB 0 0 255) (replicate 4 Line0)) = Inr sq \<and> edges_in im sq"
    using assms(3,4) by (intro Apex_rect_ok) (simp_all add: int32_def inside_def)
  then obtain sq where sq: "Apex_rect 0 50 411 210 (square_Color (PixelRGB 0 0 255) (replicate 4 Line0)) = Inr sq"
    "edges_in im sq" by blast
  obtain t where t: "square_Draw sq im = Inr t" "shape_of t = shape_of im"
    using square_Draw_ok [OF assms(2) sq(2)] by blast
  have "\<exists>u. foldM Draw_g (wave_gage m) t = Inr u \<and> shape_of u = shape_of im"
  proof (rule foldM_invariant [where P = "\<lambda>s. shape_of s = shape_of im", OF t(2)])
    fix g s assume *: "g \<in> set (wave_gage m)" "shape_of s = shape_of im"
    have "gauge_fits im g" using assms(1) *(1) by (simp add: placed_def list_all_iff)
    then have "gauge_fits s g" using *(2) by (simp add: gauge_fits_def shape_eq)
    from Draw_g_ok [OF this wf_shape [OF *(2) assms(2)]] show "\<exists>s'. Draw_g g s = Inr s' \<and> shape_of s' = shape_of im"
      using *(2) by auto
  qed
  then show ?thesis using sq(1) t(1) by (simp add: Draw_m_def a)
qed

text \<open>Pasting an image of the same size or smaller at the origin.\<close>

lemma Paste_ok:
  assumes "wf_img im" "wf_img this" "width im \<le> width this" "height im \<le> height this"
  shows "\<exists>t. Paste 0 0 im 100 this = Inr t \<and> shape_of t = shape_of this"
  unfolding Paste_def for_each_def
proof (rule foldM_invariant)
  fix q t assume *: "q \<in> set (raster (width im) (height im))" "shape_of t = shape_of this"
  obtain i j where q: "q = (i, j)" by (cases q)
  have ij: "inside im i j" using *(1) q by (simp add: set_raster_inside)
  then have "inside this i j" using assms(3,4) by (auto simp: inside_def)
  then have "inside t i j" by (simp only: inside_shape [OF *(2)])
  then have put: "Put i j p t = Inr (set_cell t (i, j) p)" for p
    using wf_shape [OF *(2) assms(2)] by (intro Put_in)
  have "mix_step 100 = 1" by code_simp
  then have "cmod i (mix_step 100) = Inr 0" using ij by (simp add: cmod_nonneg inside_def)
  then show "\<exists>s'. (case q of (i, j) \<Rightarrow> \<lambda>t. rbind (Get im i j) (\<lambda>p. if pix_eq p Pixel0 then Inr t
      else rbind (cmod i (mix_step 100)) (\<lambda>m. if m \<noteq> 0 then Inr t else Put (0 + i) (0 + j) p t))) t = Inr s' \<and>
    shape_of s' = shape_of this"
    using q put *(2) by (simp add: Get_shown [OF assms(1) ij] bi.shape_wr)
qed simp

text \<open>One round on a monitor at its place, then any number of them.\<close>

definition screen_ok :: "bi_image \<Rightarrow> bool" where
  "screen_ok im \<longleftrightarrow> wf_img im \<and> width im = 500 \<and> height im = 300"

lemma main_monitor_ok:
  assumes "built t" "placed background m" "screen_ok background" "screen_ok display"
  shows "\<exists>m' out d w' r. main_monitor api (t, w) m background display = (Inr (m', out, d), w') \<and>
    placed out m' \<and> shape_of out = shape_of background \<and> shape_of d = shape_of display \<and>
    getWaves api (t, w) = (BrainWaves r, w') \<and>
    map fst r = map fst (fold (\<lambda>(k, v). map_put k v) wave_codes []) \<and> shows_readings r m'"
proof -
  note b = assms(3) [unfolded screen_ok_def] and d = assms(4) [unfolded screen_ok_def]
  obtain m' r w' where u: "Update_m api (t, w) m = (Inr m', w')" "placed background m'"
    "getWaves api (t, w) = (BrainWaves r, w')" "shows_readings r m'"
    "map fst r = map fst (fold (\<lambda>(k, v). map_put k v) wave_codes [])"
    using Update_m_ok [OF assms(1,2), of api w] b by blast
  obtain bg where bg: "assign_pixel (PixelI 0) background = Inr bg" "shape_of bg = shape_of background" "wf_img bg"
    using assign_pixel_ok [of background] b by blast
  have keep: "placed im m' \<longleftrightarrow> placed background m'" if "shape_of im = shape_of background" for im
    using that by (simp add: placed_def gauge_fits_def [abs_def] shape_eq)
  obtain out where out: "Draw_m m' bg = Inr out" "shape_of out = shape_of bg"
    using Draw_m_ok [OF keep [OF bg(2), THEN iffD2, OF u(2)] bg(3)] bg(2) b by (auto simp: shape_eq)
  have "wf_img out" using wf_shape [OF out(2) bg(3)] .
  then obtain d' where "Paste 0 0 out 100 display = Inr d'" "shape_of d' = shape_of display"
    using Paste_ok [of out display] out(2) bg(2) b d by (auto simp: shape_eq)
  then have "main_monitor api (t, w) m background display = (Inr (m', out, d'), w')"
    using u(1) bg(1) out(1) by (simp add: main_monitor_def)
  moreover have so: "shape_of out = shape_of background" using out(2) bg(2) by simp
  moreover have "placed out m'" using keep [OF so] u(2) by blast
  ultimately show ?thesis using u(3-5) \<open>shape_of d' = shape_of display\<close> by blast
qed

lemma monitor_rounds_ok:
  assumes "built t" "placed background m" "screen_ok background" "screen_ok display"
  shows "\<exists>m' out d w' w1 r. monitor_rounds (Suc n) api (t, w) m background display = (Inr (m', out, d), w') \<and>
    shape_of out = shape_of background \<and> shape_of d = shape_of display \<and>
    getWaves api (t, w1) = (BrainWaves r, w') \<and>
    map fst r = map fst (fold (\<lambda>(k, v). map_put k v) wave_codes []) \<and> shows_readings r m'"
  using assms(2-4)
proof (induction n arbitrary: m background display w)
  case 0
  from main_monitor_ok [OF assms(1) 0, of api w] show ?case by fastforce
next
  case (Suc n)
  obtain m1 out d w' where r: "main_monitor api (t, w) m background display = (Inr (m1, out, d), w')" "placed out m1"
    "shape_of out = shape_of background" "shape_of d = shape_of display"
    using main_monitor_ok [OF assms(1) Suc.prems, of api w] by blast
  have ok: "screen_ok out" "screen_ok d"
    using Suc.prems(2,3) r(3,4) wf_shape [OF r(3)] wf_shape [OF r(4)] by (simp_all add: screen_ok_def shape_eq)
  have "monitor_rounds (Suc (Suc n)) api (t, w) m background display = monitor_rounds (Suc n) api (t, w') m1 out d"
    using r(1) by simp
  with Suc.IH [OF r(2) ok, of w'] r(3,4) show ?case by simp
qed

text \<open>
  C11: after any number of rounds of the brain monitor, whatever the driver does and whatever
  values it reads, infinities and NaN among them, the program is still running and has drawn
  nothing outside its 500 by 300 images. The monitor shows what the last round has read: each
  of the fourteen readings, in the order of their names, has its text, made of the name and
  the value, and its gauge, 15 further right than the one before. No gauge has more than ten
  squares, and one of a NaN has none (its number of squares is the absolute value of the least
  int, which is negative).
\<close>

theorem monitor_round_safe:
  assumes "fst (ThinkGear api w0) = Inr t0" "t = t0\<lparr>is_start_capture := b\<rparr>"
    and "wf_img background" "width background = 500" "height background = 300"
    and "wf_img display" "width display = 500" "height display = 300"
  shows "\<exists>m out d w' w1 r.
    monitor_rounds (Suc n) api (t, w) (BrainMonitor 0 50) background display = (Inr (m, out, d), w') \<and>
    shape_of out = shape_of background \<and> shape_of d = shape_of display \<and>
    getWaves api (t, w1) = (BrainWaves r, w') \<and>
    map fst r = [''alpha1'', ''alpha2'', ''attention'', ''battery'', ''beta1'', ''beta2'', ''blink_strength'',
      ''delta'', ''gamma1'', ''gamma2'', ''meditation'', ''poor_signal'', ''raw'', ''theta''] \<and>
    wave_text m = map (\<lambda>(k, v). String_plus_num (k @ '' : '') (Number_val (VDouble v))) r \<and>
    length (wave_gage m) = 14 \<and>
    (\<forall>i<14. wave_gage m ! i = setValue (snd (r ! i)) (setColor_g (PixelRGB 255 0 0) (setThreshold (fp_of_int F64 10000)
       (setPos_g (int i * 15) 150 (BrainWaveGage 15 100)))) \<and>
      s32 \<bar>gauge_num (wave_gage m ! i)\<bar> \<le> (if snd (r ! i) = NaN then 0 else 10))"
proof -
  have "built t0"
    using assms(1) ThinkGear_built [of api w0 t0 "snd (ThinkGear api w0)"] by (cases "ThinkGear api w0") simp
  then have "built t" by (simp add: assms(2) built_def)
  moreover have "screen_ok background" "screen_ok display" using assms(3-8) by (simp_all add: screen_ok_def)
  ultimately obtain m out d w' w1 r where
    run: "monitor_rounds (Suc n) api (t, w) (BrainMonitor 0 50) background display = (Inr (m, out, d), w')"
      "shape_of out = shape_of background" "shape_of d = shape_of display"
      "getWaves api (t, w1) = (BrainWaves r, w')"
    and names: "map fst r = map fst (fold (\<lambda>(k, v). map_put k v) wave_codes [])" and sh: "shows_readings r m"
    using monitor_rounds_ok [OF _ placed_start, of t background display n api w] by blast
  have "length (map fst r) = 14" unfolding names wave_names by simp
  then have len: "length r = 14" by simp
  have at: "wave_gage m ! i = gauge_at (int i) (snd (r ! i))" if "i < 14" for i
    using that sh len by (simp add: shows_readings_def nth_enumerate_eq split: prod.split)
  have squares: "s32 \<bar>gauge_num (gauge_at k v)\<bar> \<le> (if v = NaN then 0 else 10)" for k v
    using gauge_at_squares [of k v] gauge_at_NaN [of k] by simp
  have gauges: "\<forall>i<14. wave_gage m ! i = setValue (snd (r ! i)) (setColor_g (PixelRGB 255 0 0)
      (setThreshold (fp_of_int F64 10000) (setPos_g (int i * 15) 150 (BrainWaveGage 15 100)))) \<and>
      s32 \<bar>gauge_num (wave_gage m ! i)\<bar> \<le> (if snd (r ! i) = NaN then 0 else 10)"
  proof (intro allI impI)
    fix i :: nat
    assume "i < 14"
    from at [OF this] squares [of "int i" "snd (r ! i)"]
    show "wave_gage m ! i = setValue (snd (r ! i)) (setColor_g (PixelRGB 255 0 0)
        (setThreshold (fp_of_int F64 10000) (setPos_g (int i * 15) 150 (BrainWaveGage 15 100)))) \<and>
      s32 \<bar>gauge_num (wave_gage m ! i)\<bar> \<le> (if snd (r ! i) = NaN then 0 else 10)"
      by (simp only: gauge_at_def simp_thms)
  qed
  have "wave_text m = map (\<lambda>(k, v). String_plus_num (k @ '' : '') (Number_val (VDouble v))) r"
    "length (wave_gage m) = 14"
    using sh len by (simp_all add: shows_readings_def reading_text_def)
  with run names [unfolded wave_names] gauges show ?thesis by (intro exI conjI) assumption+
qed

theorem monitor_round_safe_witness:
  "\<exists>t m out d w'. monitor_rounds 3 demo_driver (t, 0) (BrainMonitor 0 50)
      (init\<lparr>width := 500, height := 300, mimage := replicate 150000 Pixel0\<rparr>)
      (init\<lparr>width := 500, height := 300, mimage := replicate 150000 Pixel0\<rparr>) = (Inr (m, out, d), w') \<and>
    length (wave_gage m) = 14"
proof -
  obtain t where t: "fst (ThinkGear demo_driver 0) = Inr t"
    by (simp add: ThinkGear_def Create_id_def demo_driver_def throw_code_def io_return_def)
  let ?im = "init\<lparr>width := 500, height := 300, mimage := replicate 150000 Pixel0\<rparr>"
  have im: "wf_img ?im" "width ?im = 500" "height ?im = 300" by (simp_all add: wf_img_def int32_def)
  have three: "Suc 2 = 3" by simp
  from monitor_round_safe [OF t refl im im, where n = 2 and w = 0 and b = True, unfolded three] show ?thesis by blast
qed

end
