(* ===== verification/Matching.thy ===== *)
theory Matching
  imports Filters
begin

text \<open>
  The searches of \<open>image_util/ImageUtilClass.cpp\<close>: the extent of the white pixels, template
  matching, end points and connection numbers, the split into colour regions, and the copies
  to and from an OpenCV image.
\<close>

subsection \<open>Scope\<close>

definition Scope :: "bi_image \<Rightarrow> area res" where
  "Scope im =
     rbind (for_each im (\<lambda>i j (top, bottom, left, right).
       rbind (Get im i j) (\<lambda>p.
         if pix_eq p (PixelI 255)
         then Inr (if j < top then j else top, if bottom < j then j else bottom,
                   if i < left then i else left, if right < i then i else right)
         else Inr (top, bottom, left, right))) (height im, 0, width im, 0)) (\<lambda>(top, bottom, left, right).
     Inr (area_Size (s32 (right - left)) (s32 (bottom - top)) (area_Pos left top Area0)))"

subsection \<open>Template matching\<close>

text \<open>The difference of two pixels, added channel by channel to the running count.\<close>

definition add_diff :: "pixel \<Rightarrow> pixel \<Rightarrow> int \<Rightarrow> int" where
  "add_diff p q count =
     (let count = s32 (count + \<bar>uint (blue p) - uint (blue q)\<bar>);
          count = s32 (count + \<bar>uint (green p) - uint (green q)\<bar>)
      in s32 (count + \<bar>uint (red p) - uint (red q)\<bar>))"

definition out_of :: "bi_image \<Rightarrow> int \<Rightarrow> int \<Rightarrow> bool" where
  "out_of im x y \<longleftrightarrow> width im \<le> x \<or> height im \<le> y \<or> x < 0 \<or> y < 0"

text \<open>
  The comparison of the template at one place. \<open>skip\<close> is what a transparent pixel of the
  template adds: a full difference in \<open>TemplateMatching\<close>, nothing in \<open>Matching\<close>.
\<close>

definition compare_at :: "int \<Rightarrow> bi_image \<Rightarrow> int \<Rightarrow> int \<Rightarrow> bi_image \<Rightarrow> (int \<times> int) res" where
  "compare_at skip im x y temp =
     for_each temp (\<lambda>k l (count, valid).
       rbind (Get temp k l) (\<lambda>q.
         if pix_eq q (clearColor temp) then Inr (s32 (count + skip), valid)
         else if out_of im (s32 (x + k)) (s32 (y + l)) then Inr (s32 (count + 255 * 3), valid)
         else rbind (Get im (s32 (x + k)) (s32 (y + l))) (\<lambda>p.
           Inr (add_diff p q count, s32 (valid + 1))))) (0, 0)"

definition similarity :: "int \<Rightarrow> int \<Rightarrow> cfloat" where
  "similarity max' count =
     fp_mul F64 (fp_div F64 (fp_of_int F64 (s32 (max' - count))) (fp_of_int F64 max')) (fp_of_int F64 100)"

definition TemplateMatching :: "bi_image \<Rightarrow> bi_image \<Rightarrow> int \<Rightarrow> point res" where
  "TemplateMatching im temp threshold =
     (if width im < width temp \<or> height im < height temp then Inr (Pos 0 0)
      else rbind (foldM (\<lambda>(i, j) (min', pt).
          rbind (compare_at (255 * 3) im i j temp) (\<lambda>(count, valid).
            let max' = s32 (255 * 3 * valid) in
            if count < min' \<and>
               (fp_le (fp_of_int F64 threshold) (similarity max' count) \<or> threshold = - 1)
            then Inr (count, Pos i j) else Inr (min', pt)))
        (concat (map (\<lambda>j. map (\<lambda>i. (i, j)) [- width temp..width im - 1]) [- height temp..height im - 1]))
        (s32 (255 * 3 * width temp * height temp), Pos 0 0)) (\<lambda>(_, pt). Inr pt))"

definition Matching :: "bi_image \<Rightarrow> int \<Rightarrow> int \<Rightarrow> bi_image \<Rightarrow> int res" where
  "Matching im x y temp =
     (if width im < width temp \<or> height im < height temp then Inr 0
      else rbind (compare_at 0 im x y temp) (\<lambda>(count, valid).
        Inr (fp_to_int (similarity (s32 (255 * 3 * valid)) count))))"

text \<open>The search around a point, with the middle of the template there.\<close>

definition TemplateMatching_around ::
  "bi_image \<Rightarrow> int \<Rightarrow> int \<Rightarrow> int \<Rightarrow> int \<Rightarrow> bi_image \<Rightarrow> int \<Rightarrow> point res" where
  "TemplateMatching_around im x y w h temp threshold =
     (if width im < width temp \<or> height im < height temp then Inr (Pos x y)
      else rbind (foldM (\<lambda>(i, j) (max', pt).
          if out_of im i j then Inr (max', pt)
          else rbind (Matching im (i - width temp sdiv 2) (j - height temp sdiv 2) temp) (\<lambda>count.
            if max' < count \<and> (threshold \<le> count \<or> threshold = - 1)
            then Inr (count, Pos i j) else Inr (max', pt)))
        (concat (map (\<lambda>j. map (\<lambda>i. (i, j)) [x - w sdiv 2..x + w sdiv 2]) [y - h sdiv 2..y + h sdiv 2]))
        (0, Pos x y)) (\<lambda>(_, pt). Inr pt))"

subsection \<open>End points\<close>

definition getConnectedNum :: "bi_image \<Rightarrow> int \<Rightarrow> int \<Rightarrow> int res" where
  "getConnectedNum im x y =
     foldM (\<lambda>(j, i) count.
       if i = 0 \<and> j = 0 then Inr count
       else rbind (Get im (x + i) (y + j)) (\<lambda>p.
         if pix_eq p (PixelI 0) then Inr count else Inr (count + 1))) (win 1) 0"

definition getNodeList :: "bi_image \<Rightarrow> int \<Rightarrow> point list res" where
  "getNodeList im connected_num =
     for_each im (\<lambda>i j pts.
       rbind (Get im i j) (\<lambda>p.
         if pix_eq p (PixelI 0) then Inr pts
         else rbind (getConnectedNum im i j) (\<lambda>n.
           if n = connected_num then Inr (pts @ [Pos i j]) else Inr pts))) []"

subsection \<open>Colour regions\<close>

text \<open>
  \<open>label_disp\<close> and \<open>tab\<close> are the source's maps, with \<open>std::map\<close>'s default for a missing key.
  The two maps of the coordinates still to visit are a stack of pairs, top first.
\<close>

type_synonym disp = "int \<Rightarrow> int"

definition colour_diff :: "pixel \<Rightarrow> pixel \<Rightarrow> int" where
  "colour_diff p q =
     \<bar>uint (red p) - uint (red q)\<bar> + \<bar>uint (green p) - uint (green q)\<bar> + \<bar>uint (blue p) - uint (blue q)\<bar>"

text \<open>One of the nine neighbours of the pixel taken from the stack.\<close>

definition grow_step ::
  "bi_image \<Rightarrow> int \<Rightarrow> int \<Rightarrow> pixel \<Rightarrow> int \<Rightarrow> int \<Rightarrow> int \<Rightarrow> disp \<times> (int \<times> int) list \<Rightarrow>
     (disp \<times> (int \<times> int) list) res" where
  "grow_step im threshold label c x y = (\<lambda>i (d, stack).
     let cx = x + (i mod 3 - 1); cy = y + (i div 3 - 1) in
     if 0 \<le> cx \<and> cx < width im \<and> 0 \<le> cy \<and> cy < height im \<and> d (cx + cy * width im) = 0
     then rbind (Get im cx cy) (\<lambda>p.
       if threshold < colour_diff c p then Inr (d, stack)
       else Inr (d(cx + cy * width im := label), (cx, cy) # stack))
     else Inr (d, stack))"

text \<open>The loop over the stack; the fuel bounds the pixels that can ever be on it.\<close>

fun grow ::
  "nat \<Rightarrow> bi_image \<Rightarrow> int \<Rightarrow> int \<Rightarrow> pixel \<Rightarrow> disp \<times> (int \<times> int) list \<Rightarrow> disp res" where
  "grow n im threshold label c (d, []) = Inr d"
| "grow 0 im threshold label c (d, s # stack) = Inl Hang"
| "grow (Suc n) im threshold label c (d, (x, y) # stack) =
     rbind (foldM (grow_step im threshold label c x y) [0..8] (d, stack))
       (grow n im threshold label c)"

definition region_step ::
  "bi_image \<Rightarrow> int \<Rightarrow> int \<Rightarrow> int \<Rightarrow> disp \<times> (int \<Rightarrow> pixel) \<times> int \<Rightarrow> (disp \<times> (int \<Rightarrow> pixel) \<times> int) res" where
  "region_step im threshold x y = (\<lambda>(d, tab, label).
     if 0 < d (x + y * width im) then Inr (d, tab, label)
     else rbind (Get im x y) (\<lambda>p.
       let label = label + 1 in
       rbind (grow (Suc (nat (width im * height im))) im threshold label p
                (d(x + y * width im := label), [(x, y)])) (\<lambda>d.
       Inr (d, tab(label := p), label))))"

definition colorRegionSplit :: "int \<Rightarrow> bi_image \<Rightarrow> bi_image res" where
  "colorRegionSplit threshold im =
     rbind (for_each im (region_step im threshold) (\<lambda>_. 0, \<lambda>_. Pixel0, 0)) (\<lambda>(d, tab, _).
     for_each im (\<lambda>x y im. Put x y (tab (d (x + y * width im))) im) im)"

subsection \<open>OpenCV images\<close>

text \<open>
  The fields of \<open>IplImage\<close> the program uses. \<open>cvCreateImage\<close> of the OpenCV library is the
  parameter \<open>create\<close>: it maps a width and a height to an image of three 8-bit channels.
\<close>

record ipl_image =
  depth :: int
  nChannels :: int
  iwidth :: int
  iheight :: int
  widthStep :: int
  imageData :: "byte list"

definition put_bgr :: "int \<Rightarrow> pixel \<Rightarrow> byte list \<Rightarrow> byte list res" where
  "put_bgr n p bs =
     rbind (wrbuf bs n (blue p)) (\<lambda>bs. rbind (wrbuf bs (n + 1) (green p)) (\<lambda>bs. wrbuf bs (n + 2) (red p)))"

definition toCvImage :: "(int \<Rightarrow> int \<Rightarrow> ipl_image) \<Rightarrow> bi_image \<Rightarrow> ipl_image res" where
  "toCvImage create im =
     for_each im (\<lambda>x y cv.
       rbind (Get im x y) (\<lambda>p.
       rbind (put_bgr (x * 3 + y * widthStep cv) p (imageData cv)) (\<lambda>bs.
       Inr (cv\<lparr>imageData := bs\<rparr>)))) (create (width im) (height im))"

definition fromCvImage :: "int \<Rightarrow> ipl_image \<Rightarrow> bi_image \<Rightarrow> bi_image res" where
  "fromCvImage depth_8u cv im =
     (if depth cv = depth_8u \<and> nChannels cv = 3 \<and> imageData cv \<noteq> []
      then foldM (\<lambda>(x, y) im.
        rbind (rdbuf (imageData cv) (x * 3 + 2 + y * widthStep cv)) (\<lambda>r.
        rbind (rdbuf (imageData cv) (x * 3 + 1 + y * widthStep cv)) (\<lambda>g.
        rbind (rdbuf (imageData cv) (x * 3 + 0 + y * widthStep cv)) (\<lambda>b.
        Put x y (PixelRGB r g b) im)))) (raster (iwidth cv) (iheight cv)) im
      else Inl (Thrown ''can't to biImage''))"

subsection \<open>Transparent templates\<close>

text \<open>The test for transparent pixels of a template never holds once a transparent colour has
  been set. \<open>Get\<close> shows a transparent pixel as an empty one, and a colour that was set is not
  empty; so the pixels documented as always matching are compared like any other.
\<close>

theorem transparent_never_skipped:
  assumes "Get temp k l = Inr q" and "\<not> pempty (clearColor temp)"
  shows "\<not> pix_eq q (clearColor temp)"
proof -
  obtain p where "q = (if pix_eq (clearColor temp) p then Pixel0 else p)"
    using assms(1) by (auto simp: Get_def rbind_eq_Inr)
  moreover have "\<not> pix_eq Pixel0 (clearColor temp)"
    using assms(2) by (simp add: pix_eq_def initialize_def)
  ultimately show ?thesis
    by (auto simp: pix_eq_sym [of _ "clearColor temp"])
qed

theorem transparent_never_skipped_witness: "\<not> pix_eq Pixel0 (PixelL 9)"
  using transparent_never_skipped [of "setClear (PixelL 9) sample_img" 0 1 Pixel0]
  by (simp add: Get_shown inside_def shown_def sample_img_cell view_def)

subsection \<open>The split into regions\<close>

lemma inside_index_eq:
  "inside im x y \<Longrightarrow> inside im u v \<Longrightarrow> x + y * width im = u + v * width im \<longleftrightarrow> x = u \<and> y = v"
  using index_inj [of x "width im" y u v] by (auto simp: inside_def)

definition free :: "bi_image \<Rightarrow> disp \<Rightarrow> (int \<times> int) set" where
  "free im d = {(x, y). inside im x y \<and> d (x + y * width im) = 0}"

lemma finite_free [simp]: "finite (free im d)"
  by (rule finite_subset [of _ "{0..<width im} \<times> {0..<height im}"])
    (auto simp: free_def inside_def)

lemma free_le: "wf_img im \<Longrightarrow> card (free im d) \<le> nat (width im * height im)"
proof -
  assume "wf_img im"
  moreover have "card (free im d) \<le> card ({0..<width im} \<times> {0..<height im})"
    by (rule card_mono) (auto simp: free_def inside_def)
  ultimately show ?thesis
    by (simp add: card_cartesian_product nat_mult_distrib wf_img_def)
qed

lemma free_label:
  assumes "inside im x y" "d (x + y * width im) = 0" "label \<noteq> 0"
  shows "free im (d(x + y * width im := label)) = free im d - {(x, y)}"
    and "(x, y) \<in> free im d"
  using assms by (auto simp: free_def inside_index_eq)

lemma card_free_label:
  assumes "inside im x y" "d (x + y * width im) = 0" "label \<noteq> 0"
  shows "Suc (card (free im (d(x + y * width im := label)))) = card (free im d)"
  unfolding free_label(1) [of im x y d label, OF assms]
  by (rule card_Suc_Diff1 [OF finite_free free_label(2) [of im x y d label, OF assms]])

text \<open>Labels are only given to free pixels, and only to those close to the region's colour.\<close>

definition label_ext :: "bi_image \<Rightarrow> int \<Rightarrow> int \<Rightarrow> pixel \<Rightarrow> disp \<Rightarrow> disp \<Rightarrow> bool" where
  "label_ext im threshold label c d d' \<longleftrightarrow> (\<forall>x y. inside im x y \<longrightarrow>
     d' (x + y * width im) = d (x + y * width im) \<or>
     d (x + y * width im) = 0 \<and> d' (x + y * width im) = label \<and> colour_diff c (shown im x y) \<le> threshold)"

lemma label_ext_refl [simp]: "label_ext im threshold label c d d"
  by (simp add: label_ext_def)

lemma label_ext_trans:
  "label_ext im threshold label c d d' \<Longrightarrow> label_ext im threshold label c d' d'' \<Longrightarrow>
     label_ext im threshold label c d d''"
  unfolding label_ext_def by metis

lemma grow_fold:
  assumes wf: "wf_img im" and label: "label \<noteq> 0"
  shows "\<exists>s'. foldM (grow_step im threshold label c x y) ks (d, stack) = Inr s' \<and>
    card (free im (fst s')) + length (snd s') = card (free im d) + length stack \<and>
    label_ext im threshold label c d (fst s')"
proof (rule foldM_invariant)
  fix i and s :: "disp \<times> (int \<times> int) list"
  assume s: "card (free im (fst s)) + length (snd s) = card (free im d) + length stack \<and>
    label_ext im threshold label c d (fst s)"
  obtain d1 st where s1: "s = (d1, st)" by force
  let ?x = "x + (i mod 3 - 1)" and ?y = "y + (i div 3 - 1)"
  show "\<exists>s'. grow_step im threshold label c x y i s = Inr s' \<and>
    card (free im (fst s')) + length (snd s') = card (free im d) + length stack \<and>
    label_ext im threshold label c d (fst s')"
  proof (cases "inside im ?x ?y \<and> d1 (?x + ?y * width im) = 0 \<and> colour_diff c (shown im ?x ?y) \<le> threshold")
    case True
    then have "grow_step im threshold label c x y i s = Inr (d1(?x + ?y * width im := label), (?x, ?y) # st)"
      by (simp add: grow_step_def s1 Let_def Get_shown [OF wf]) (simp add: inside_def)
    moreover have "label_ext im threshold label c d1 (d1(?x + ?y * width im := label))"
      using True by (auto simp: label_ext_def inside_index_eq)
    ultimately show ?thesis
      using s s1 card_free_label [of im ?x ?y d1 label] True label by (auto intro: label_ext_trans)
  next
    case False
    have "grow_step im threshold label c x y i s = Inr s"
    proof (cases "inside im ?x ?y")
      case True
      with False show ?thesis by (auto simp: grow_step_def s1 Let_def Get_shown [OF wf])
    next
      case False
      then show ?thesis by (auto simp: grow_step_def s1 Let_def inside_def)
    qed
    with s show ?thesis by simp
  qed
qed simp

lemma grow_ok:
  assumes wf: "wf_img im" and label: "label \<noteq> 0"
  shows "card (free im d) + length stack \<le> n \<Longrightarrow>
    \<exists>d'. grow n im threshold label c (d, stack) = Inr d' \<and> label_ext im threshold label c d d'"
proof (induction n arbitrary: d stack)
  case 0
  then show ?case by simp
next
  case (Suc n)
  show ?case
  proof (cases stack)
    case (Cons s rest)
    obtain x y where s: "s = (x, y)" by force
    obtain d1 st where 1: "foldM (grow_step im threshold label c x y) [0..8] (d, rest) = Inr (d1, st)"
      "card (free im d1) + length st = card (free im d) + length rest" "label_ext im threshold label c d d1"
      using grow_fold [OF wf label, of threshold c x y "[0..8]" d rest] by auto
    then have "card (free im d1) + length st \<le> n" using Suc.prems Cons by simp
    from Suc.IH [OF this] 1 show ?thesis
      by (auto simp: Cons s intro: label_ext_trans simp del: upto.simps)
  qed simp
qed

text \<open>
  The state of the outer loop: every label in use is the colour of some pixel, and is close to
  every pixel that bears it.
\<close>

definition region_inv :: "bi_image \<Rightarrow> int \<Rightarrow> disp \<times> (int \<Rightarrow> pixel) \<times> int \<Rightarrow> bool" where
  "region_inv im threshold = (\<lambda>(d, tab, label). 0 \<le> label \<and> (\<forall>x y. inside im x y \<longrightarrow>
     0 \<le> d (x + y * width im) \<and> d (x + y * width im) \<le> label \<and>
     (0 < d (x + y * width im) \<longrightarrow>
       colour_diff (tab (d (x + y * width im))) (shown im x y) \<le> threshold \<and>
       (\<exists>u v. inside im u v \<and> tab (d (x + y * width im)) = shown im u v))))"

lemma colour_diff_self [simp]: "colour_diff p p = 0"
  by (simp add: colour_diff_def)

text \<open>A pixel keeps its label or gets the new one, and the pixels with the new one are close to its colour.\<close>

lemma label_ext_new:
  assumes "label_ext im threshold l (shown im x y) (d(x + y * width im := l)) d'" "d (x + y * width im) = 0"
    and "0 \<le> threshold" "l \<noteq> 0" "inside im x y" "inside im u v"
  shows "d' (u + v * width im) = d (u + v * width im) \<or>
    d (u + v * width im) = 0 \<and> d' (u + v * width im) = l \<and> colour_diff (shown im x y) (shown im u v) \<le> threshold"
proof -
  let ?d = "d(x + y * width im := l)"
  have ext: "d' (u + v * width im) = ?d (u + v * width im) \<or>
    ?d (u + v * width im) = 0 \<and> d' (u + v * width im) = l \<and> colour_diff (shown im x y) (shown im u v) \<le> threshold"
    using assms(1,6) unfolding label_ext_def by blast
  show ?thesis
  proof (cases "x = u \<and> y = v")
    case True
    with ext assms(2-4) show ?thesis by auto
  next
    case False
    then have "u + v * width im \<noteq> x + y * width im"
      using inside_index_eq [OF assms(6,5)] by auto
    with ext show ?thesis by auto
  qed
qed

lemma region_step_ok:
  assumes wf: "wf_img im" and th: "0 \<le> threshold" and xy: "inside im x y"
    and inv: "region_inv im threshold (d, tab, label)"
  shows "\<exists>d' tab' label'. region_step im threshold x y (d, tab, label) = Inr (d', tab', label') \<and>
    region_inv im threshold (d', tab', label') \<and> 0 < d' (x + y * width im) \<and>
    (\<forall>u v. inside im u v \<longrightarrow> 0 < d (u + v * width im) \<longrightarrow> 0 < d' (u + v * width im))"
proof (cases "0 < d (x + y * width im)")
  case True
  then show ?thesis using inv by (simp add: region_step_def)
next
  case False
  then have z: "d (x + y * width im) = 0"
    using inv xy by (force simp: region_inv_def)
  let ?l = "label + 1" and ?c = "shown im x y"
  let ?d = "d(x + y * width im := ?l)"
  have l: "?l \<noteq> 0" "0 < ?l" using inv by (auto simp: region_inv_def)
  have "card (free im ?d) + length [(x, y)] \<le> Suc (nat (width im * height im))"
    using free_le [OF wf, of ?d] by simp
  then obtain d' where d': "grow (Suc (nat (width im * height im))) im threshold ?l ?c (?d, [(x, y)]) = Inr d'"
    "label_ext im threshold ?l ?c ?d d'"
    using grow_ok [OF wf l(1), of ?d "[(x, y)]"] by blast
  have step: "region_step im threshold x y (d, tab, label) = Inr (d', tab(?l := ?c), ?l)"
    using False d'(1) by (simp add: region_step_def Get_shown [OF wf xy] Let_def del: grow.simps)
  note new = label_ext_new [OF d'(2) z th l(1) xy]
  have "d' (x + y * width im) = ?d (x + y * width im) \<or> ?d (x + y * width im) = 0"
    using d'(2) xy unfolding label_ext_def by blast
  then have "d' (x + y * width im) = ?l" using l by simp
  moreover have "region_inv im threshold (d', tab(?l := ?c), ?l)"
    unfolding region_inv_def prod.case
  proof (intro conjI allI impI)
    show "0 \<le> ?l" using l by simp
  next
    fix u v assume uv: "inside im u v"
    note old = inv [unfolded region_inv_def prod.case]
    show "0 \<le> d' (u + v * width im)" "d' (u + v * width im) \<le> ?l"
      using new [OF uv] old uv by force+
    assume pos: "0 < d' (u + v * width im)"
    show "colour_diff ((tab(?l := ?c)) (d' (u + v * width im))) (shown im u v) \<le> threshold"
      using new [OF uv] old uv pos by force
    show "\<exists>a b. inside im a b \<and> (tab(?l := ?c)) (d' (u + v * width im)) = shown im a b"
      using new [OF uv] old uv pos xy by force
  qed
  moreover have "0 < d' (u + v * width im)" if "inside im u v" "0 < d (u + v * width im)" for u v
    using new [OF that(1)] that(2) by auto
  ultimately show ?thesis using step l by auto
qed

lemma region_loop:
  assumes wf: "wf_img im" and th: "0 \<le> threshold" and xs: "\<forall>(x, y) \<in> set xs. inside im x y"
    and inv: "region_inv im threshold (d, tab, label)"
  shows "\<exists>d' tab' label'. foldM (\<lambda>(x, y). region_step im threshold x y) xs (d, tab, label) =
      Inr (d', tab', label') \<and> region_inv im threshold (d', tab', label') \<and>
    (\<forall>(x, y) \<in> set xs. 0 < d' (x + y * width im)) \<and>
    (\<forall>u v. inside im u v \<longrightarrow> 0 < d (u + v * width im) \<longrightarrow> 0 < d' (u + v * width im))"
  using xs inv
proof (induction xs arbitrary: d tab label)
  case (Cons a xs)
  obtain x y where a: "a = (x, y)" by force
  have xy: "inside im x y" using Cons.prems(1) a by simp
  obtain d1 tab1 l1 where 1: "region_step im threshold x y (d, tab, label) = Inr (d1, tab1, l1)"
    "region_inv im threshold (d1, tab1, l1)" "0 < d1 (x + y * width im)"
    "\<forall>u v. inside im u v \<longrightarrow> 0 < d (u + v * width im) \<longrightarrow> 0 < d1 (u + v * width im)"
    using region_step_ok [OF wf th xy Cons.prems(2)] by blast
  then show ?case
    using Cons.IH [OF _ 1(2)] Cons.prems(1) xy by (fastforce simp: a)
qed simp

text \<open>
  C3: the split into colour regions ends for every image: no pixel is put on the stack of
  pixels to visit twice. Every pixel of the result has the colour some pixel of the image
  shows, and that colour differs from its own by at most the threshold.
\<close>

theorem colorRegionSplit_close:
  assumes "wf_img im" and "0 \<le> threshold"
  shows "\<exists>t. colorRegionSplit threshold im = Inr t \<and> shape_of t = shape_of im \<and>
    (\<forall>x y. inside im x y \<longrightarrow> colour_diff (cell t (x, y)) (shown im x y) \<le> threshold \<and>
       (\<exists>u v. inside im u v \<and> cell t (x, y) = shown im u v))"
proof -
  let ?r = "raster (width im) (height im)"
  have "\<forall>(x, y) \<in> set ?r. inside im x y" by (auto simp: set_raster_inside)
  moreover have "region_inv im threshold (\<lambda>_. 0, \<lambda>_. Pixel0, 0)" by (simp add: region_inv_def)
  ultimately obtain d tab label where d: "for_each im (region_step im threshold) (\<lambda>_. 0, \<lambda>_. Pixel0, 0) =
      Inr (d, tab, label)" "region_inv im threshold (d, tab, label)"
    "\<forall>(x, y) \<in> set ?r. 0 < d (x + y * width im)"
    unfolding for_each_def using region_loop [OF assms] by blast
  have "\<exists>t. for_each im (\<lambda>x y im. Put x y (tab (d (x + y * width im))) im) im = Inr t \<and>
    shape_of t = shape_of im \<and> wf_img t \<and>
    (\<forall>x y. inside im x y \<longrightarrow> cell t (x, y) = tab (d (x + y * width im)))"
  proof (rule for_each_sweep [OF assms(1) refl refl])
    fix x y t assume *: "inside im x y" "shape_of t = shape_of im" "wf_img t"
    have "inside t x y" using *(1) by (simp only: inside_shape [OF *(2)])
    with * show "Put x y (tab (d (x + y * width t))) t =
      Inr (set_cell t (x, y) (tab (d (x + y * width im))))"
      by (simp add: Put_in shape_eq)
  qed
  then obtain t where t: "for_each im (\<lambda>x y im. Put x y (tab (d (x + y * width im))) im) im = Inr t"
    "shape_of t = shape_of im" "\<forall>x y. inside im x y \<longrightarrow> cell t (x, y) = tab (d (x + y * width im))"
    by blast
  have "0 < d (x + y * width im)" if "inside im x y" for x y
    using d(3) that by (auto simp: set_raster_inside [symmetric])
  with d t show ?thesis by (simp add: colorRegionSplit_def region_inv_def)
qed

theorem colorRegionSplit_close_witness:
  "\<exists>t. colorRegionSplit 20 sample_img = Inr t \<and> colour_diff (cell t (0, 1)) (shown sample_img 0 1) \<le> 20"
  using colorRegionSplit_close [OF wf_sample_img, of 20] by (fastforce simp: inside_def)

subsection \<open>OpenCV images as cell stores\<close>

text \<open>The second provider of the store interface: three bytes per cell, rows padded to a step.\<close>

type_synonym rgb = "byte \<times> byte \<times> byte"

definition cv_index :: "ipl_image \<Rightarrow> int \<Rightarrow> int \<Rightarrow> int \<Rightarrow> nat" where
  "cv_index cv c x y = nat (x * 3 + c + y * widthStep cv)"

definition cv_shape :: "ipl_image \<Rightarrow> int \<times> int \<times> int \<times> int \<times> int \<times> nat" where
  "cv_shape cv = (depth cv, nChannels cv, iwidth cv, iheight cv, widthStep cv, length (imageData cv))"

definition cv_ok :: "int \<times> int \<times> int \<times> int \<times> int \<times> nat \<Rightarrow> int \<times> int \<Rightarrow> bool" where
  "cv_ok = (\<lambda>(dp, nc, w, h, ws, l) (x, y).
     0 \<le> x \<and> x < w \<and> 0 \<le> y \<and> y < h \<and> 3 * w \<le> ws \<and> ws * h \<le> int l)"

definition cv_cell :: "ipl_image \<Rightarrow> int \<times> int \<Rightarrow> rgb" where
  "cv_cell cv = (\<lambda>(x, y). (imageData cv ! cv_index cv 2 x y, imageData cv ! cv_index cv 1 x y,
     imageData cv ! cv_index cv 0 x y))"

definition cv_set :: "ipl_image \<Rightarrow> int \<times> int \<Rightarrow> rgb \<Rightarrow> ipl_image" where
  "cv_set cv = (\<lambda>(x, y) (r, g, b). cv\<lparr>imageData :=
     (imageData cv)[cv_index cv 0 x y := b, cv_index cv 1 x y := g, cv_index cv 2 x y := r]\<rparr>)"

lemma cv_range:
  assumes "0 \<le> x" "x < w" "0 \<le> y" "y < h" "3 * w \<le> ws" "ws * h \<le> int l" "0 \<le> c" "c \<le> 2"
  shows "0 \<le> x * 3 + c + y * ws \<and> x * 3 + c + y * ws < int l"
  using index_less [of "x * 3 + c" ws y h] assms by auto

lemma cv_index_less:
  "cv_ok (cv_shape cv) (x, y) \<Longrightarrow> 0 \<le> c \<Longrightarrow> c \<le> 2 \<Longrightarrow> cv_index cv c x y < length (imageData cv)"
  using cv_range [of x "iwidth cv" y "iheight cv" "widthStep cv" "length (imageData cv)" c]
  by (simp add: cv_ok_def cv_shape_def cv_index_def nat_less_iff)

lemma cv_index_eq:
  assumes "cv_ok (cv_shape cv) (x, y)" "cv_ok (cv_shape cv) (u, v)"
    and "0 \<le> c" "c \<le> 2" "0 \<le> d" "d \<le> 2"
  shows "cv_index cv c x y = cv_index cv d u v \<longleftrightarrow> x = u \<and> y = v \<and> c = d"
proof -
  have "cv_index cv c x y = cv_index cv d u v \<longleftrightarrow> x * 3 + c = u * 3 + d \<and> y = v"
    unfolding cv_index_def using assms
    by (intro index_inj) (auto simp: cv_ok_def cv_shape_def)
  then show ?thesis using assms(3-6) by presburger
qed

lemma cv_index_upd [simp]: "cv_index (cv\<lparr>imageData := m\<rparr>) = cv_index cv"
  by (simp add: cv_index_def fun_eq_iff)

interpretation cv: cell_store cv_shape cv_ok cv_cell cv_set
proof
  fix s x and p :: rgb
  show "cv_shape (cv_set s x p) = cv_shape s"
    by (simp add: cv_shape_def cv_set_def split: prod.split)
next
  fix s x y and p :: rgb
  assume *: "cv_ok (cv_shape s) x" "cv_ok (cv_shape s) y"
  obtain a b c d where xy: "x = (a, b)" "y = (c, d)" by (cases x, cases y) auto
  obtain r g bl where p: "p = (r, g, bl)" by (cases p)
  note ok = * [unfolded xy]
  show "cv_cell (cv_set s x p) y = (if x = y then p else cv_cell s y)"
    using cv_index_eq [OF ok] cv_index_less [OF ok(1)]
    by (simp add: cv_cell_def cv_set_def xy p nth_list_update)
qed

text \<open>What the program relies on of \<open>cvCreateImage\<close>: the format asked for, with room for the rows.\<close>

definition cv_created :: "int \<Rightarrow> (int \<Rightarrow> int \<Rightarrow> ipl_image) \<Rightarrow> bool" where
  "cv_created depth_8u create \<longleftrightarrow> (\<forall>w h. 0 \<le> w \<longrightarrow> 0 \<le> h \<longrightarrow>
     depth (create w h) = depth_8u \<and> nChannels (create w h) = 3 \<and> iwidth (create w h) = w \<and>
     iheight (create w h) = h \<and> 3 * w \<le> widthStep (create w h) \<and>
     widthStep (create w h) * h \<le> int (length (imageData (create w h))))"

definition rgb_of :: "pixel \<Rightarrow> rgb" where
  "rgb_of p = (red p, green p, blue p)"

lemma put_bgr_set:
  assumes "cv_ok (cv_shape cv) (x, y)"
  shows "rbind (put_bgr (x * 3 + y * widthStep cv) p (imageData cv)) (\<lambda>bs. Inr (cv\<lparr>imageData := bs\<rparr>)) =
    Inr (cv_set cv (x, y) (rgb_of p))"
proof -
  have r: "0 \<le> x * 3 + c + y * widthStep cv \<and> x * 3 + c + y * widthStep cv < int (length (imageData cv))"
    if "0 \<le> c" "c \<le> 2" for c
    using assms that cv_range [of x "iwidth cv" y "iheight cv" "widthStep cv" "length (imageData cv)" c]
    by (simp add: cv_ok_def cv_shape_def)
  from r [of 0] r [of 1] r [of 2] show ?thesis
    by (simp add: put_bgr_def cv_set_def rgb_of_def cv_index_def algebra_simps)
qed

lemma get_bgr:
  assumes "cv_ok (cv_shape cv) (x, y)" and "cv_cell cv (x, y) = (r, g, b)"
  shows "rdbuf (imageData cv) (x * 3 + 2 + y * widthStep cv) = Inr r"
    "rdbuf (imageData cv) (x * 3 + 1 + y * widthStep cv) = Inr g"
    "rdbuf (imageData cv) (x * 3 + 0 + y * widthStep cv) = Inr b"
proof -
  have range: "0 \<le> x * 3 + c + y * widthStep cv \<and> x * 3 + c + y * widthStep cv < int (length (imageData cv))"
    if "0 \<le> c" "c \<le> 2" for c
    using assms(1) that cv_range [of x "iwidth cv" y "iheight cv" "widthStep cv" "length (imageData cv)" c]
    by (simp add: cv_ok_def cv_shape_def)
  from range [of 0] range [of 1] range [of 2] assms(2)
  show "rdbuf (imageData cv) (x * 3 + 2 + y * widthStep cv) = Inr r"
    "rdbuf (imageData cv) (x * 3 + 1 + y * widthStep cv) = Inr g"
    "rdbuf (imageData cv) (x * 3 + 0 + y * widthStep cv) = Inr b"
    by (auto simp: cv_cell_def cv_index_def rdbuf_def)
qed

lemma toCvImage_ok:
  assumes "cv_created depth_8u create" and "wf_img im" and "0 < width im" and "0 < height im"
  shows "\<exists>cv. toCvImage create im = Inr cv \<and> depth cv = depth_8u \<and> nChannels cv = 3 \<and>
    iwidth cv = width im \<and> iheight cv = height im \<and>
    (\<forall>x y. inside im x y \<longrightarrow> cv_ok (cv_shape cv) (x, y) \<and> cv_cell cv (x, y) = rgb_of (shown im x y))"
proof -
  let ?cv = "create (width im) (height im)" and ?r = "raster (width im) (height im)"
  have cr: "depth ?cv = depth_8u" "nChannels ?cv = 3" "iwidth ?cv = width im" "iheight ?cv = height im"
    "3 * width im \<le> widthStep ?cv" "widthStep ?cv * height im \<le> int (length (imageData ?cv))"
    using assms(1,3,4) by (simp_all add: cv_created_def)
  have ok: "cv_ok (cv_shape ?cv) (x, y) \<longleftrightarrow> inside im x y" for x y
    using cr by (auto simp: cv_ok_def cv_shape_def inside_def)
  have "\<exists>cv. foldM (\<lambda>(x, y) cv. rbind (Get im x y) (\<lambda>p.
      rbind (put_bgr (x * 3 + y * widthStep cv) p (imageData cv)) (\<lambda>bs.
      Inr (cv\<lparr>imageData := bs\<rparr>)))) ?r ?cv = Inr cv \<and> cv_shape cv = cv_shape ?cv \<and>
    (\<forall>x. cv_ok (cv_shape ?cv) x \<longrightarrow> cv_cell cv x =
       (if x \<in> set ?r then (\<lambda>(x, y). rgb_of (shown im x y)) x else cv_cell ?cv x))"
  proof (rule cv.sweep)
    show "distinct ?r" by (rule distinct_raster)
  next
    fix x assume x: "x \<in> set ?r"
    obtain a b where "x = (a, b)" by force
    with x show "cv_ok (cv_shape ?cv) x" by (simp only: ok set_raster_inside)
  next
    fix x t assume *: "x \<in> set ?r" "cv_shape t = cv_shape ?cv"
    obtain a b where x: "x = (a, b)" by force
    have ins: "inside im a b" using *(1) by (simp only: x set_raster_inside)
    then have "cv_ok (cv_shape t) (a, b)" by (simp only: *(2) ok)
    then show "(case x of (x, y) \<Rightarrow> \<lambda>cv. rbind (Get im x y) (\<lambda>p.
        rbind (put_bgr (x * 3 + y * widthStep cv) p (imageData cv)) (\<lambda>bs.
        Inr (cv\<lparr>imageData := bs\<rparr>)))) t = Inr (cv_set t x ((\<lambda>(x, y). rgb_of (shown im x y)) x))"
      by (simp add: x Get_shown [OF assms(2) ins] put_bgr_set)
  qed
  then obtain cv where to: "toCvImage create im = Inr cv" "cv_shape cv = cv_shape ?cv"
    "\<And>x y. inside im x y \<Longrightarrow> cv_cell cv (x, y) = rgb_of (shown im x y)"
    by (auto simp: toCvImage_def for_each_def ok set_raster_inside split: prod.splits)
  have "depth cv = depth_8u" "nChannels cv = 3" "iwidth cv = width im" "iheight cv = height im"
    using to(2) cr by (simp_all add: cv_shape_def)
  with to show ?thesis by (simp add: ok)
qed

lemma fromCvImage_ok:
  assumes "depth cv = depth_8u" "nChannels cv = 3" "iwidth cv = width dest" "iheight cv = height dest"
    and "wf_img dest" "0 < width dest" "0 < height dest"
    and cells: "\<forall>x y. inside dest x y \<longrightarrow> cv_ok (cv_shape cv) (x, y) \<and> cv_cell cv (x, y) = (r x y, g x y, b x y)"
  shows "\<exists>t. fromCvImage depth_8u cv dest = Inr t \<and> shape_of t = shape_of dest \<and>
    (\<forall>x y. inside dest x y \<longrightarrow> cell t (x, y) = PixelRGB (r x y) (g x y) (b x y))"
proof -
  have "inside dest 0 0" using assms(6,7) by (simp add: inside_def)
  then have "cv_ok (cv_shape cv) (0, 0)" using cells by simp
  then have data: "imageData cv \<noteq> []" using cv_index_less [of cv 0 0 0] by auto
  let ?body = "\<lambda>x y im. rbind (rdbuf (imageData cv) (x * 3 + 2 + y * widthStep cv)) (\<lambda>r.
    rbind (rdbuf (imageData cv) (x * 3 + 1 + y * widthStep cv)) (\<lambda>g.
    rbind (rdbuf (imageData cv) (x * 3 + 0 + y * widthStep cv)) (\<lambda>b.
    Put x y (PixelRGB r g b) im)))"
  have "\<exists>t. for_each dest ?body dest = Inr t \<and> shape_of t = shape_of dest \<and> wf_img t \<and>
    (\<forall>x y. inside dest x y \<longrightarrow> cell t (x, y) = PixelRGB (r x y) (g x y) (b x y))"
  proof (rule for_each_sweep [OF assms(5) refl refl])
    fix x y t assume *: "inside dest x y" "shape_of t = shape_of dest" "wf_img t"
    have int: "inside t x y" using *(1) by (simp only: inside_shape [OF *(2)])
    have ok: "cv_ok (cv_shape cv) (x, y)" "cv_cell cv (x, y) = (r x y, g x y, b x y)" using cells *(1) by simp_all
    from get_bgr [OF this] *(3) int
    show "?body x y t = Inr (set_cell t (x, y) (PixelRGB (r x y) (g x y) (b x y)))"
      by (simp add: Put_in)
  qed
  then show ?thesis
    using assms(1-4) data by (auto simp: fromCvImage_def for_each_def)
qed

text \<open>
  Copying an image to OpenCV and back keeps the colours: with any row padding the library
  chooses, the copies stay inside both buffers and every pixel comes back with the three
  channels the image shows, in the right order. Labels and emptiness are lost.
\<close>

theorem cv_roundtrip:
  assumes "cv_created depth_8u create" and "wf_img im" and "0 < width im" and "0 < height im"
    and "wf_img dest" and "width dest = width im" and "height dest = height im"
  shows "\<exists>cv t. toCvImage create im = Inr cv \<and> fromCvImage depth_8u cv dest = Inr t \<and>
    shape_of t = shape_of dest \<and>
    (\<forall>x y. inside im x y \<longrightarrow> cell t (x, y) =
       PixelRGB (red (shown im x y)) (green (shown im x y)) (blue (shown im x y)))"
proof -
  have ins: "inside dest x y = inside im x y" for x y
    using assms(6,7) by (simp add: inside_def)
  obtain cv where cv: "toCvImage create im = Inr cv" "depth cv = depth_8u" "nChannels cv = 3"
    "iwidth cv = width dest" "iheight cv = height dest"
    "\<forall>x y. inside dest x y \<longrightarrow> cv_ok (cv_shape cv) (x, y) \<and> cv_cell cv (x, y) =
       (red (shown im x y), green (shown im x y), blue (shown im x y))"
    using toCvImage_ok [OF assms(1-4)] assms(6,7) by (auto simp: ins rgb_of_def)
  show ?thesis
    using fromCvImage_ok [OF cv(2-5) assms(5) _ _ cv(6)] assms cv(1) by (simp add: ins)
qed

theorem cv_roundtrip_witness:
  "\<exists>cv t. toCvImage (\<lambda>w h. \<lparr>depth = 8, nChannels = 3, iwidth = w, iheight = h, widthStep = 3 * w + 2,
      imageData = replicate (nat ((3 * w + 2) * h)) 0\<rparr>) sample_img = Inr cv \<and>
     fromCvImage 8 cv sample_img = Inr t \<and> cell t (1, 2) = PixelL 255"
proof -
  let ?create = "\<lambda>w h. \<lparr>depth = 8, nChannels = 3, iwidth = w, iheight = h, widthStep = 3 * w + 2,
    imageData = replicate (nat ((3 * w + 2) * h)) (0 :: byte)\<rparr>"
  have "cv_created 8 ?create" by (auto simp: cv_created_def)
  moreover have "inside sample_img 1 2" by (simp add: inside_def)
  moreover have "shown sample_img 1 2 = PixelL 255"
    by (simp add: shown_def sample_img_cell view_def pix_eq_Pixel0)
  moreover have "PixelRGB 255 255 255 = PixelL 255" by (simp add: pixel_simps)
  ultimately show ?thesis
    using cv_roundtrip [of 8 ?create sample_img sample_img] by force
qed

end
