(* ===== verification/CHeap.thy ===== *)
theory CHeap
  imports Prelude
begin

text \<open>
  The C heap of the older sources, which allocate with \<open>malloc\<close> and release with \<open>free\<close>. A
  heap holds the blocks of one element type; a pointer is the address of a block, 0 is
  \<open>NULL\<close>, and an access gives the address and the index of the element. Addresses are never
  used twice, so an access through a pointer to a released block is seen as one. The
  elements of a new block are the \<open>junk\<close> element given to \<open>malloc\<close>, whose fields are unset;
  to read an unset field is an error, to copy it is not. An allocation never fails: the code
  does not test the result of \<open>malloc\<close>.
\<close>

subsection \<open>Blocks\<close>

type_synonym ptr = nat

definition NULL :: ptr where
  "NULL = 0"

type_synonym 'a cheap = "'a list option list"

definition block :: "'a cheap \<Rightarrow> ptr \<Rightarrow> 'a list option" where
  "block h p = (if p = NULL \<or> length h < p then None else h ! (p - 1))"

definition set_block :: "ptr \<Rightarrow> 'a list option \<Rightarrow> 'a cheap \<Rightarrow> 'a cheap" where
  "set_block p b h = h[p - 1 := b]"

definition malloc :: "nat \<Rightarrow> 'a \<Rightarrow> 'a cheap \<Rightarrow> ptr \<times> 'a cheap" where
  "malloc n junk h = (length h + 1, h @ [Some (replicate n junk)])"

definition mem_free :: "ptr \<Rightarrow> 'a cheap \<Rightarrow> 'a cheap res" where
  "mem_free p h =
     (if p = NULL then Inr h
      else case block h p of None \<Rightarrow> Inl Freed | Some _ \<Rightarrow> Inr (set_block p None h))"

definition cells_of :: "ptr \<Rightarrow> 'a cheap \<Rightarrow> 'a list res" where
  "cells_of p h =
     (if p = NULL then Inl NullDeref
      else case block h p of None \<Rightarrow> Inl Freed | Some xs \<Rightarrow> Inr xs)"

text \<open>\<open>*(p+i)\<close>, \<open>*(p+i) = v\<close>, and \<open>memset\<close> of the first \<open>n\<close> elements.\<close>

definition peek :: "ptr \<Rightarrow> int \<Rightarrow> 'a cheap \<Rightarrow> 'a res" where
  "peek p i h = rbind (cells_of p h) (\<lambda>xs. rdbuf xs i)"

definition poke :: "ptr \<Rightarrow> int \<Rightarrow> 'a \<Rightarrow> 'a cheap \<Rightarrow> 'a cheap res" where
  "poke p i v h =
     rbind (cells_of p h) (\<lambda>xs. rbind (wrbuf xs i v) (\<lambda>ys. Inr (set_block p (Some ys) h)))"

definition fill :: "ptr \<Rightarrow> nat \<Rightarrow> 'a \<Rightarrow> 'a cheap \<Rightarrow> 'a cheap res" where
  "fill p n v h =
     rbind (cells_of p h) (\<lambda>xs.
     if length xs < n then Inl OutOfBounds
     else Inr (set_block p (Some (replicate n v @ drop n xs)) h))"

text \<open>The read of a field that may be unset.\<close>

definition fld :: "'a option \<Rightarrow> 'a res" where
  "fld v = (case v of None \<Rightarrow> Inl Uninit | Some x \<Rightarrow> Inr x)"

lemma fld_Some [simp, cell_simps]: "fld (Some x) = Inr x"
  by (simp add: fld_def)

lemma fld_None [simp, cell_simps]: "fld None = Inl Uninit"
  by (simp add: fld_def)

subsection \<open>The interface of a heap of blocks\<close>

text \<open>
  A heap is a partial map from addresses to blocks: \<open>new\<close> adds a block at a fresh address,
  \<open>wr\<close> replaces one element of a block, \<open>rel\<close> removes a block, and each leaves every other
  block alone. \<open>sweep\<close> is the law of the loops that write every element of one block once,
  from the other blocks and from the element's own old value.
\<close>

locale block_memory =
  fixes blk :: "'h \<Rightarrow> ptr \<Rightarrow> 'a list option"
    and rd :: "ptr \<Rightarrow> int \<Rightarrow> 'h \<Rightarrow> 'a res"
    and wr :: "ptr \<Rightarrow> int \<Rightarrow> 'a \<Rightarrow> 'h \<Rightarrow> 'h res"
    and new :: "nat \<Rightarrow> 'a \<Rightarrow> 'h \<Rightarrow> ptr \<times> 'h"
    and rel :: "ptr \<Rightarrow> 'h \<Rightarrow> 'h res"
  assumes null: "blk h NULL = None"
    and rd_live: "blk h p = Some xs \<Longrightarrow> rd p i h = rdbuf xs i"
    and rd_dead: "blk h p = None \<Longrightarrow> rd p i h = Inl (if p = NULL then NullDeref else Freed)"
    and wr_live: "blk h p = Some xs \<Longrightarrow> 0 \<le> i \<Longrightarrow> i < int (length xs) \<Longrightarrow>
      \<exists>h'. wr p i v h = Inr h' \<and> blk h' = (blk h)(p \<mapsto> xs[nat i := v])"
    and wr_out: "blk h p = Some xs \<Longrightarrow> i < 0 \<or> int (length xs) \<le> i \<Longrightarrow> wr p i v h = Inl OutOfBounds"
    and wr_dead: "blk h p = None \<Longrightarrow> wr p i v h = Inl (if p = NULL then NullDeref else Freed)"
    and new_fresh: "fst (new n u h) \<noteq> NULL \<and> blk h (fst (new n u h)) = None"
    and new_blk: "blk (snd (new n u h)) = (blk h)(fst (new n u h) \<mapsto> replicate n u)"
    and rel_live: "blk h p = Some xs \<Longrightarrow> \<exists>h'. rel p h = Inr h' \<and> blk h' = (blk h)(p := None)"
    and rel_dead: "blk h p = None \<Longrightarrow> rel p h = (if p = NULL then Inr h else Inl Freed)"
begin

lemma newE:
  obtains p h' where "new n u h = (p, h')" "p \<noteq> NULL" "blk h p = None" "blk h' = (blk h)(p \<mapsto> replicate n u)"
  using new_fresh [of n u h] new_blk [of n u h] by (cases "new n u h") auto

lemma live_not_null: "blk h p = Some xs \<Longrightarrow> p \<noteq> NULL"
  using null by auto

text \<open>A released block can neither be read nor written nor released again.\<close>

lemma released_dead:
  assumes "rel p h = Inr h'" "p \<noteq> NULL"
  shows "rd p i h' = Inl Freed \<and> wr p i v h' = Inl Freed \<and> rel p h' = Inl Freed"
proof -
  have "blk h' p = None"
    using assms rel_live [of h p] rel_dead [of h p] by (cases "blk h p") auto
  with assms(2) show ?thesis by (simp add: rd_dead wr_dead rel_dead)
qed

lemma sweep:
  assumes "blk h q = Some ys" "distinct (map ix xs)"
    and "\<And>x. x \<in> set xs \<Longrightarrow> 0 \<le> ix x \<and> ix x < int (length ys)"
    and "\<And>x t zs. x \<in> set xs \<Longrightarrow> blk t = (blk h)(q \<mapsto> zs) \<Longrightarrow> length zs = length ys \<Longrightarrow>
      zs ! nat (ix x) = ys ! nat (ix x) \<Longrightarrow> f x t = wr q (ix x) (g x) t"
  shows "\<exists>t zs. foldM f xs h = Inr t \<and> blk t = (blk h)(q \<mapsto> zs) \<and> length zs = length ys \<and>
    (\<forall>x \<in> set xs. zs ! nat (ix x) = g x) \<and>
    (\<forall>k < length ys. int k \<notin> ix ` set xs \<longrightarrow> zs ! k = ys ! k)"
  using assms
proof (induction xs arbitrary: h ys)
  case Nil
  have "blk h = (blk h)(q \<mapsto> ys)" using Nil.prems(1) by auto
  then show ?case by (intro exI [of _ h] exI [of _ ys]) simp
next
  case (Cons x xs)
  let ?ys = "ys[nat (ix x) := g x]"
  have ix: "0 \<le> ix x" "ix x < int (length ys)" using Cons.prems(3) by simp_all
  have "blk h = (blk h)(q \<mapsto> ys)" using Cons.prems(1) by auto
  then have "f x h = wr q (ix x) (g x) h" by (intro Cons.prems(4) [of x h ys]) simp_all
  then obtain h1 where h1: "f x h = Inr h1" "blk h1 = (blk h)(q \<mapsto> ?ys)"
    using wr_live [OF Cons.prems(1) ix, of "g x"] by auto
  have far: "nat (ix y) \<noteq> nat (ix x)" if "y \<in> set xs" for y
  proof -
    have "ix y \<in> ix ` set xs" using that by simp
    then have "ix y \<noteq> ix x" using Cons.prems(2) by auto
    then show ?thesis using Cons.prems(3) [of y] that ix by auto
  qed
  have "\<exists>t zs. foldM f xs h1 = Inr t \<and> blk t = (blk h1)(q \<mapsto> zs) \<and> length zs = length ?ys \<and>
      (\<forall>y \<in> set xs. zs ! nat (ix y) = g y) \<and>
      (\<forall>k < length ?ys. int k \<notin> ix ` set xs \<longrightarrow> zs ! k = ?ys ! k)"
  proof (rule Cons.IH)
    fix y t zs
    assume "y \<in> set xs" "blk t = (blk h1)(q \<mapsto> zs)" "length zs = length ?ys"
      "zs ! nat (ix y) = ?ys ! nat (ix y)"
    then show "f y t = wr q (ix y) (g y) t"
      using far [of y] by (intro Cons.prems(4) [of y t zs]) (simp_all add: h1)
  qed (use Cons.prems h1 in simp_all)
  then obtain t zs where t: "foldM f xs h1 = Inr t" "blk t = (blk h1)(q \<mapsto> zs)" "length zs = length ys"
    "\<And>y. y \<in> set xs \<Longrightarrow> zs ! nat (ix y) = g y"
    "\<And>k. k < length ys \<Longrightarrow> int k \<notin> ix ` set xs \<Longrightarrow> zs ! k = ?ys ! k" by auto
  have "ix x \<notin> ix ` set xs" using Cons.prems(2) by auto
  then have "zs ! nat (ix x) = g x" using t(5) [of "nat (ix x)"] ix by simp
  moreover have "zs ! k = ys ! k" if "k < length ys" "int k \<notin> ix ` set (x # xs)" for k
    using t(5) [of k] that ix by (auto simp: nth_list_update)
  ultimately show ?case
    using h1 t by (intro exI [of _ t] exI [of _ zs]) auto
qed

text \<open>The loop that copies the first \<open>k\<close> elements of one block into another.\<close>

lemma copy_loop:
  assumes "blk h a = Some vs" "blk h b = Some ys" "a \<noteq> b" "0 \<le> k" "k \<le> int (length vs)" "k \<le> int (length ys)"
  shows "\<exists>t. foldM (\<lambda>i h. rbind (rd a i h) (\<lambda>v. wr b i v h)) [0..k - 1] h = Inr t \<and>
    blk t = (blk h)(b \<mapsto> take (nat k) vs @ drop (nat k) ys)"
proof -
  have "\<exists>t zs. foldM (\<lambda>i h. rbind (rd a i h) (\<lambda>v. wr b i v h)) [0..k - 1] h = Inr t \<and>
      blk t = (blk h)(b \<mapsto> zs) \<and> length zs = length ys \<and>
      (\<forall>i \<in> set [0..k - 1]. zs ! nat i = vs ! nat i) \<and>
      (\<forall>j < length ys. int j \<notin> (\<lambda>i. i) ` set [0..k - 1] \<longrightarrow> zs ! j = ys ! j)"
    by (rule sweep [OF assms(2), where ix = "\<lambda>i. i"]) (use assms in \<open>auto simp: rd_live\<close>)
  then obtain t zs where t: "foldM (\<lambda>i h. rbind (rd a i h) (\<lambda>v. wr b i v h)) [0..k - 1] h = Inr t"
    "blk t = (blk h)(b \<mapsto> zs)" "length zs = length ys" "\<forall>i \<in> set [0..k - 1]. zs ! nat i = vs ! nat i"
    "\<forall>j < length ys. int j \<notin> (\<lambda>i. i) ` set [0..k - 1] \<longrightarrow> zs ! j = ys ! j" by blast
  have "zs = take (nat k) vs @ drop (nat k) ys"
  proof (rule nth_equalityI)
    show "length zs = length (take (nat k) vs @ drop (nat k) ys)" using t(3) assms(4-) by simp
    have len: "min (length vs) (nat k) = nat k" using assms(5) by simp
    fix j assume j: "j < length zs"
    show "zs ! j = (take (nat k) vs @ drop (nat k) ys) ! j"
    proof (cases "int j < k")
      case True
      then show ?thesis using bspec [OF t(4), of "int j"] assms(4-) len by (simp add: nth_append zless_nat_eq_int_zless)
    next
      case False
      then have "zs ! j = ys ! j" using t(3,5) j by simp
      then show ?thesis using False assms(4-) j t(3) len by (simp add: nth_append zless_nat_eq_int_zless)
    qed
  qed
  with t(1,2) show ?thesis by blast
qed

end

lemma block_NULL: "block h NULL = None"
  by (simp add: block_def)

lemma block_set: "block h p = Some xs \<Longrightarrow> block (set_block p b h) = (block h)(p := b)"
  by (auto simp: block_def set_block_def NULL_def fun_eq_iff nth_list_update split: if_splits)

interpretation hp: block_memory block peek poke malloc mem_free
proof
  fix h :: "'a cheap" and p n :: ptr and u :: 'a
  show "block h NULL = None" by (rule block_NULL)
  show "fst (malloc n u h) \<noteq> NULL \<and> block h (fst (malloc n u h)) = None"
    by (simp add: malloc_def NULL_def block_def)
  show "block (snd (malloc n u h)) = (block h)(fst (malloc n u h) \<mapsto> replicate n u)"
    by (auto simp: malloc_def block_def NULL_def fun_eq_iff nth_append)
  show "block h p = None \<Longrightarrow> mem_free p h = (if p = NULL then Inr h else Inl Freed)"
    by (simp add: mem_free_def)
next
  fix h :: "'a cheap" and p :: ptr and xs :: "'a list" and i :: int and v :: 'a
  assume b: "block h p = Some xs"
  then have p: "p \<noteq> NULL" by (auto simp: block_NULL)
  show "peek p i h = rdbuf xs i" by (simp add: peek_def cells_of_def b p)
  show "0 \<le> i \<Longrightarrow> i < int (length xs) \<Longrightarrow>
      \<exists>h'. poke p i v h = Inr h' \<and> block h' = (block h)(p \<mapsto> xs[nat i := v])"
    by (simp add: poke_def cells_of_def b p block_set)
  show "i < 0 \<or> int (length xs) \<le> i \<Longrightarrow> poke p i v h = Inl OutOfBounds"
    by (auto simp: poke_def cells_of_def b p wrbuf_out)
  show "\<exists>h'. mem_free p h = Inr h' \<and> block h' = (block h)(p := None)"
    by (simp add: mem_free_def b p block_set)
next
  fix h :: "'a cheap" and p :: ptr and i :: int and v :: 'a
  assume "block h p = None"
  then show "peek p i h = Inl (if p = NULL then NullDeref else Freed)"
    and "poke p i v h = Inl (if p = NULL then NullDeref else Freed)"
    by (simp_all add: peek_def poke_def cells_of_def)
qed

lemma fill_live:
  "block h p = Some xs \<Longrightarrow> n \<le> length xs \<Longrightarrow>
     \<exists>h'. fill p n v h = Inr h' \<and> block h' = (block h)(p \<mapsto> replicate n v @ drop n xs)"
  using hp.live_not_null [of h p xs] by (simp add: fill_def cells_of_def block_set)

lemma free_ok: "p = NULL \<or> block h p \<noteq> None \<Longrightarrow> \<exists>t. mem_free p h = Inr t \<and> block t = (block h)(p := None)"
  using hp.rel_live [of h p] hp.rel_dead [of h p]
  by (cases "block h p") (auto simp: block_NULL fun_eq_iff)

lemma malloc_block: "malloc n u h = (p, h') \<Longrightarrow>
    p \<noteq> NULL \<and> block h p = None \<and> block h' = (block h)(p \<mapsto> replicate n u)"
  using hp.new_fresh [of n u h] hp.new_blk [of n u h] by simp

end
