(* ===== verification/Camera.thy ===== *)
theory Camera
  imports Matching CHeap
begin

text \<open>
  The camera (\<open>src/CameraClass.cpp\<close>): a thread of its own copies the frames of the camera into
  an image that the program reads, and the program's thread starts and stops it without any
  lock. The two threads are a step relation: the program's thread executes the statements of
  \<open>StartCapture\<close> and \<open>StopCapture\<close> one by one, a capture thread moves from the test of
  \<open>status\<close> to the read of the capture handle, the query of a frame and then writes one pixel
  per step. A step is not divided further, so the model has fewer interleavings than the
  machine. Which cameras can be opened and the frames they deliver are parameters. Images and
  captures are blocks of heaps, so that a write into a deleted image and a query of a released
  capture are errors. \<open>cvQueryFrame\<close> of a null capture gives no frame, as OpenCV documents.
\<close>

subsection \<open>The data the threads share\<close>

type_synonym images = "bi_image cheap"
type_synonym captures = "unit cheap"

record capture_data =
  cimage :: "ptr option"
  flag :: int
  cd_width :: int
  cd_height :: int
  status :: bool
  capture :: "ptr option"

definition Camera :: capture_data where
  "Camera = \<lparr>cimage = None, flag = 1, cd_width = 640, cd_height = 480, status = True, capture = None\<rparr>"

definition SetCaptureSize :: "int \<Rightarrow> int \<Rightarrow> capture_data \<Rightarrow> capture_data" where
  "SetCaptureSize w h d = d\<lparr>cd_width := w, cd_height := h\<rparr>"

subsection \<open>A frame into an image\<close>

definition usable :: "int \<Rightarrow> ipl_image \<Rightarrow> bool" where
  "usable depth_8u f \<longleftrightarrow> depth f = depth_8u \<and> nChannels f = 3 \<and> imageData f \<noteq> []"

definition put_frame :: "ipl_image \<Rightarrow> int \<times> int \<Rightarrow> bi_image \<Rightarrow> bi_image res" where
  "put_frame f = (\<lambda>(x, y) out.
     rbind (rdbuf (imageData f) (x * 3 + 2 + y * widthStep f)) (\<lambda>r.
     rbind (rdbuf (imageData f) (x * 3 + 1 + y * widthStep f)) (\<lambda>g.
     rbind (rdbuf (imageData f) (x * 3 + 0 + y * widthStep f)) (\<lambda>b.
     Put x y (PixelRGB r g b) out))))"

definition getCvImage :: "int \<Rightarrow> ipl_image \<Rightarrow> bi_image \<Rightarrow> bi_image res" where
  "getCvImage depth_8u f out =
     (if usable depth_8u f then foldM (put_frame f) (raster (iwidth f) (iheight f)) out
      else Inr out)"

text \<open>The same write through the pointer the thread holds.\<close>

definition put_shared :: "ptr \<Rightarrow> ipl_image \<Rightarrow> int \<times> int \<Rightarrow> images \<Rightarrow> images res" where
  "put_shared p f c h = rbind (peek p 0 h) (\<lambda>im. rbind (put_frame f c im) (\<lambda>im. poke p 0 im h))"

subsection \<open>The capture thread\<close>

datatype tpc = Test | Query | Ask ptr | Got ipl_image | Copy ptr ipl_image "(int \<times> int) list" | Ended | Fault cerr

text \<open>\<open>cvQueryFrame\<close> of a capture; \<open>fr\<close> is what the camera has to deliver.\<close>

definition query :: "captures \<Rightarrow> ptr \<Rightarrow> ipl_image option \<Rightarrow> ipl_image option res" where
  "query k c fr = (if c = NULL then Inr None else rbind (cells_of c k) (\<lambda>_. Inr fr))"

fun thread_step ::
  "int \<Rightarrow> capture_data \<Rightarrow> captures \<Rightarrow> ipl_image option \<Rightarrow> images \<times> tpc \<Rightarrow> images \<times> tpc" where
  "thread_step u d k fr (h, Test) = (h, if status d then Query else Ended)"
| "thread_step u d k fr (h, Query) = (h, case capture d of None \<Rightarrow> Fault Uninit | Some c \<Rightarrow> Ask c)"
| "thread_step u d k fr (h, Ask c) = (h, case query k c fr of Inl e \<Rightarrow> Fault e
     | Inr None \<Rightarrow> Test | Inr (Some f) \<Rightarrow> Got f)"
| "thread_step u d k fr (h, Got f) = (h, case cimage d of None \<Rightarrow> Fault Uninit
     | Some p \<Rightarrow> Copy p f (if usable u f then raster (iwidth f) (iheight f) else []))"
| "thread_step u d k fr (h, Copy p f []) = (h, Test)"
| "thread_step u d k fr (h, Copy p f (c # cs)) = (case put_shared p f c h of
     Inr h \<Rightarrow> (h, Copy p f cs) | Inl e \<Rightarrow> (h, Fault e))"
| "thread_step u d k fr (h, Ended) = (h, Ended)"
| "thread_step u d k fr (h, Fault e) = (h, Fault e)"

fun ended :: "tpc \<Rightarrow> bool" where
  "ended Ended = True"
| "ended (Fault e) = True"
| "ended pc = False"

subsection \<open>The program's thread\<close>

text \<open>
  The statements of the methods. \<open>CaptureSize\<close> stands for the two \<open>cvSetCaptureProperty\<close>,
  which like \<open>CloseHandle\<close> touch nothing the threads share.
\<close>

datatype stmt = SetSizes int int | OpenCam int | NewImage | StatusOn | CaptureSize | Spawn
  | StatusOff | DeleteImage | CloseThread | ReleaseCam

datatype ccall = CSetCaptureSize int int | CStartCapture int | CStopCapture

definition StartCapture :: "int \<Rightarrow> stmt list" where
  "StartCapture num = [OpenCam num, NewImage, StatusOn, CaptureSize, Spawn]"

definition StopCapture :: "stmt list" where
  "StopCapture = [StatusOff, DeleteImage, CloseThread, ReleaseCam]"

fun method_body :: "ccall \<Rightarrow> stmt list" where
  "method_body (CSetCaptureSize w h) = [SetSizes w h]"
| "method_body (CStartCapture num) = StartCapture num"
| "method_body CStopCapture = StopCapture"

record sys =
  pics :: images
  caps :: captures
  data :: capture_data
  threads :: "tpc list"
  todo :: "stmt list"
  mfault :: "cerr option"

definition boot :: sys where
  "boot = \<lparr>pics = [], caps = [], data = Camera, threads = [], todo = [], mfault = None\<rparr>"

fun exec :: "(int \<Rightarrow> bool) \<Rightarrow> stmt \<Rightarrow> sys \<Rightarrow> sys res" where
  "exec cam (SetSizes w h) s = Inr (s\<lparr>data := SetCaptureSize w h (data s)\<rparr>)"
| "exec cam (OpenCam i) s =
     (let (c, k) = (if cam i then malloc 1 () (caps s) else (NULL, caps s))
      in Inr (s\<lparr>caps := k, data := (data s)\<lparr>capture := Some c\<rparr>\<rparr>))"
| "exec cam NewImage s = rbind (Create (cd_width (data s)) (cd_height (data s))) (\<lambda>im.
     let (p, h) = malloc 1 im (pics s) in Inr (s\<lparr>pics := h, data := (data s)\<lparr>cimage := Some p\<rparr>\<rparr>))"
| "exec cam StatusOn s = Inr (s\<lparr>data := (data s)\<lparr>status := True\<rparr>\<rparr>)"
| "exec cam CaptureSize s = Inr s"
| "exec cam Spawn s = Inr (s\<lparr>threads := threads s @ [Test]\<rparr>)"
| "exec cam StatusOff s = Inr (s\<lparr>data := (data s)\<lparr>status := False\<rparr>\<rparr>)"
| "exec cam DeleteImage s = rbind (fld (cimage (data s))) (\<lambda>p.
     rbind (mem_free p (pics s)) (\<lambda>h. Inr (s\<lparr>pics := h\<rparr>)))"
| "exec cam CloseThread s = Inr s"
| "exec cam ReleaseCam s = rbind (fld (capture (data s))) (\<lambda>c.
     rbind (mem_free c (caps s)) (\<lambda>k. Inr (s\<lparr>caps := k, data := (data s)\<lparr>capture := Some NULL\<rparr>\<rparr>)))"

text \<open>\<open>Camera::Image\<close> copies the image the thread writes into.\<close>

definition Image :: "sys \<Rightarrow> bi_image res" where
  "Image s = rbind (fld (cimage (data s))) (\<lambda>p. rbind (peek p 0 (pics s)) (assign init))"

subsection \<open>Steps and reachable states\<close>

text \<open>
  \<open>cam\<close> says which cameras can be opened, \<open>calls\<close> are the methods the program may call, \<open>frames\<close>
  what the camera may deliver, \<open>u\<close> is OpenCV's constant for eight bits per channel. After an error the program's thread stops.
\<close>

datatype actor = Main | Thread nat

inductive cam_step ::
  "int \<Rightarrow> (int \<Rightarrow> bool) \<Rightarrow> ccall set \<Rightarrow> ipl_image set \<Rightarrow> actor \<Rightarrow> sys \<Rightarrow> sys \<Rightarrow> bool"
  for u :: int and cam :: "int \<Rightarrow> bool" and calls :: "ccall set" and frames :: "ipl_image set" where
  call: "todo s = [] \<Longrightarrow> mfault s = None \<Longrightarrow> c \<in> calls \<Longrightarrow>
    cam_step u cam calls frames Main s (s\<lparr>todo := method_body c\<rparr>)"
| exec: "todo s = st # sts \<Longrightarrow> exec cam st (s\<lparr>todo := sts\<rparr>) = Inr t \<Longrightarrow>
    cam_step u cam calls frames Main s t"
| fail: "todo s = st # sts \<Longrightarrow> exec cam st (s\<lparr>todo := sts\<rparr>) = Inl e \<Longrightarrow>
    cam_step u cam calls frames Main s (s\<lparr>todo := [], mfault := Some e\<rparr>)"
| capture: "i < length (threads s) \<Longrightarrow> set_option fr \<subseteq> frames \<Longrightarrow>
    thread_step u (data s) (caps s) fr (pics s, threads s ! i) = (h, pc) \<Longrightarrow>
    cam_step u cam calls frames (Thread i) s (s\<lparr>pics := h, threads := (threads s)[i := pc]\<rparr>)"

inductive_cases main_stepE: "cam_step u cam calls frames Main s t"
inductive_cases thread_stepE: "cam_step u cam calls frames (Thread i) s t"

inductive cam_reach ::
  "int \<Rightarrow> (int \<Rightarrow> bool) \<Rightarrow> ccall set \<Rightarrow> ipl_image set \<Rightarrow> sys \<Rightarrow> bool"
  for u :: int and cam :: "int \<Rightarrow> bool" and calls :: "ccall set" and frames :: "ipl_image set" where
  boot: "cam_reach u cam calls frames boot"
| step: "cam_reach u cam calls frames s \<Longrightarrow> cam_step u cam calls frames a s t \<Longrightarrow>
    cam_reach u cam calls frames t"

subsection \<open>A frame stays in the image\<close>

definition frame_ok :: "int \<Rightarrow> ipl_image \<Rightarrow> bool" where
  "frame_ok u f \<longleftrightarrow> (usable u f \<longrightarrow>
     iwidth f * 3 \<le> widthStep f \<and> widthStep f * iheight f \<le> int (length (imageData f)))"

definition canvas :: "bi_image \<Rightarrow> bool" where
  "canvas im \<longleftrightarrow> wf_img im \<and> 0 < width im \<and> 0 < height im"

lemma frame_index:
  assumes "0 \<le> x" "x < w" "0 \<le> y" "y < h" "w * 3 \<le> st" "st * h \<le> n" "0 \<le> k" "k < 3"
  shows "0 \<le> x * 3 + k + y * st \<and> x * 3 + k + y * st < (n :: int)"
proof -
  have "x * 3 + k < st" using assms by linarith
  moreover have "0 \<le> st" using assms by linarith
  moreover have "(y + 1) * st \<le> h * st" using assms \<open>0 \<le> st\<close> by (intro mult_right_mono) auto
  ultimately show ?thesis using assms by (auto simp: algebra_simps)
qed

text \<open>
  \<open>Put\<close> wraps around, so a frame of any size stays inside an image of any size.
\<close>

lemma put_frame_ok:
  assumes "frame_ok u f" "usable u f" "c \<in> set (raster (iwidth f) (iheight f))" "canvas im"
  shows "\<exists>im'. put_frame f c im = Inr im' \<and> shape_of im' = shape_of im \<and> canvas im'"
proof -
  obtain x y where c: "c = (x, y)" by (cases c)
  have xy: "0 \<le> x" "x < iwidth f" "0 \<le> y" "y < iheight f" using assms(3) by (auto simp: c set_raster)
  have bytes: "\<exists>b. rdbuf (imageData f) (x * 3 + k + y * widthStep f) = Inr b" if "0 \<le> k" "k < 3" for k
    using frame_index [OF xy _ _ that, of "widthStep f" "int (length (imageData f))"] assms(1,2)
    by (auto simp: frame_ok_def)
  obtain r g b where "rdbuf (imageData f) (x * 3 + 2 + y * widthStep f) = Inr r"
    "rdbuf (imageData f) (x * 3 + 1 + y * widthStep f) = Inr g"
    "rdbuf (imageData f) (x * 3 + 0 + y * widthStep f) = Inr b"
    using bytes [of 2] bytes [of 1] bytes [of 0] by auto
  moreover have "Put x y (PixelRGB r g b) im =
      Inr (set_cell im (x mod width im, y mod height im) (PixelRGB r g b))"
    using assms(4) xy by (intro Put_torus) (auto simp: canvas_def)
  moreover have sh: "shape_of (set_cell im d p) = shape_of im" for d p by (rule bi.shape_wr)
  moreover have "canvas (set_cell im d p)" for d p
    using assms(4) wf_shape [OF sh] sh by (auto simp: canvas_def shape_eq)
  ultimately show ?thesis by (simp add: put_frame_def c)
qed

lemma put_shared_ok:
  assumes "frame_ok u f" "usable u f" "c \<in> set (raster (iwidth f) (iheight f))"
    and "block h p = Some [im]" "canvas im"
  shows "\<exists>h' im'. put_shared p f c h = Inr h' \<and> put_frame f c im = Inr im' \<and> canvas im' \<and>
    block h' = (block h)(p \<mapsto> [im'])"
proof -
  obtain im' where im': "put_frame f c im = Inr im'" "canvas im'"
    using put_frame_ok [OF assms(1-3,5)] by blast
  obtain h' where "poke p 0 im' h = Inr h'" "block h' = (block h)(p \<mapsto> [im'])"
    using hp.wr_live [OF assms(4), of 0 im'] by auto
  then show ?thesis using assms(4) im' by (simp add: put_shared_def hp.rd_live)
qed

lemma put_shared_dead: "block h p = None \<Longrightarrow> p \<noteq> NULL \<Longrightarrow> put_shared p f c h = Inl Freed"
  by (simp add: put_shared_def hp.rd_dead)

subsection \<open>The invariant of the reachable states\<close>

text \<open>
  \<open>live\<close> says that the program never calls \<open>StopCapture\<close>. Every image is one the program
  could draw on; the pointers of the threads name images and captures, which stay alive when
  \<open>live\<close>; the capture of the camera is a live one or null; a thread is only started when a
  camera has been asked for and an image has been made.
\<close>

definition size_ok :: "int \<Rightarrow> int \<Rightarrow> bool" where
  "size_ok w h \<longleftrightarrow> 0 < w \<and> 0 < h \<and> int32 (w * h)"

fun call_ok :: "ccall \<Rightarrow> bool" where
  "call_ok (CSetCaptureSize w h) = size_ok w h"
| "call_ok c = True"

definition capture_live :: "captures \<Rightarrow> ptr \<Rightarrow> bool" where
  "capture_live k c \<longleftrightarrow> c = NULL \<or> block k c \<noteq> None"

fun pc_ok :: "bool \<Rightarrow> int \<Rightarrow> ipl_image set \<Rightarrow> images \<Rightarrow> captures \<Rightarrow> tpc \<Rightarrow> bool" where
  "pc_ok live u frames h k (Ask c) = (live \<longrightarrow> capture_live k c)"
| "pc_ok live u frames h k (Got f) = (f \<in> frames)"
| "pc_ok live u frames h k (Copy p f cs) = (f \<in> frames \<and> p \<noteq> NULL \<and> (live \<longrightarrow> block h p \<noteq> None) \<and>
     (cs \<noteq> [] \<longrightarrow> usable u f \<and> set cs \<subseteq> set (raster (iwidth f) (iheight f))))"
| "pc_ok live u frames h k (Fault e) = (\<not> live \<and> e = Freed)"
| "pc_ok live u frames h k pc = True"

definition image_live :: "images \<Rightarrow> capture_data \<Rightarrow> bool" where
  "image_live h d \<longleftrightarrow> (case cimage d of None \<Rightarrow> False | Some p \<Rightarrow> block h p \<noteq> None)"

fun todo_ok :: "bool \<Rightarrow> bool \<Rightarrow> bool \<Rightarrow> stmt list \<Rightarrow> bool" where
  "todo_ok live img cap [] = True"
| "todo_ok live img cap (OpenCam i # sts) = todo_ok live img True sts"
| "todo_ok live img cap (NewImage # sts) = todo_ok live True cap sts"
| "todo_ok live img cap (Spawn # sts) = (img \<and> cap \<and> todo_ok live img cap sts)"
| "todo_ok live img cap (SetSizes w h # sts) = (size_ok w h \<and> todo_ok live img cap sts)"
| "todo_ok live img cap (DeleteImage # sts) = (\<not> live \<and> todo_ok live False cap sts)"
| "todo_ok live img cap (ReleaseCam # sts) = (\<not> live \<and> todo_ok live img cap sts)"
| "todo_ok live img cap (st # sts) = todo_ok live img cap sts"

definition pics_ok :: "images \<Rightarrow> bool" where
  "pics_ok h \<longleftrightarrow> (\<forall>p xs. block h p = Some xs \<longrightarrow> (\<exists>im. xs = [im] \<and> canvas im))"

definition data_ok :: "bool \<Rightarrow> images \<Rightarrow> captures \<Rightarrow> capture_data \<Rightarrow> bool" where
  "data_ok live h k d \<longleftrightarrow> size_ok (cd_width d) (cd_height d) \<and>
     (\<forall>p. cimage d = Some p \<longrightarrow> p \<noteq> NULL \<and> (live \<longrightarrow> block h p \<noteq> None)) \<and>
     (\<forall>c. capture d = Some c \<longrightarrow> capture_live k c)"

definition cam_inv :: "bool \<Rightarrow> int \<Rightarrow> ipl_image set \<Rightarrow> sys \<Rightarrow> bool" where
  "cam_inv live u frames s \<longleftrightarrow> pics_ok (pics s) \<and> data_ok live (pics s) (caps s) (data s) \<and>
     (threads s \<noteq> [] \<longrightarrow> cimage (data s) \<noteq> None \<and> capture (data s) \<noteq> None) \<and>
     list_all (pc_ok live u frames (pics s) (caps s)) (threads s) \<and>
     todo_ok live (image_live (pics s) (data s)) (capture (data s) \<noteq> None) (todo s) \<and>
     (live \<longrightarrow> mfault s = None)"

lemma method_todo_ok:
  "call_ok c \<Longrightarrow> (live \<longrightarrow> c \<noteq> CStopCapture) \<Longrightarrow> todo_ok live img cap (method_body c)"
  by (cases c) (auto simp: StartCapture_def StopCapture_def)

lemma todo_ok_mono:
  "todo_ok live img cap sts \<Longrightarrow> (img \<Longrightarrow> img') \<Longrightarrow> (cap \<Longrightarrow> cap') \<Longrightarrow> todo_ok live img' cap' sts"
  by (induction live img cap sts arbitrary: img' cap' rule: todo_ok.induct) auto

text \<open>Heaps in which no block has gone keep what the pointers name.\<close>

definition grows :: "'a cheap \<Rightarrow> 'a cheap \<Rightarrow> bool" where
  "grows h h' \<longleftrightarrow> (\<forall>p. block h p \<noteq> None \<longrightarrow> block h' p \<noteq> None)"

lemma grows_refl [simp]: "grows h h"
  by (simp add: grows_def)

lemma grows_upd: "block h' = (block h)(p \<mapsto> xs) \<Longrightarrow> grows h h'"
  by (simp add: grows_def)

lemma capture_live_grow: "capture_live k c \<Longrightarrow> grows k k' \<Longrightarrow> capture_live k' c"
  by (auto simp: capture_live_def grows_def)

lemma image_live_grow: "image_live h d \<Longrightarrow> grows h h' \<Longrightarrow> image_live h' d"
  by (auto simp: image_live_def grows_def split: option.splits)

lemma pc_ok_grow:
  "pc_ok live u frames h k pc \<Longrightarrow> (live \<Longrightarrow> grows h h') \<Longrightarrow> (live \<Longrightarrow> grows k k') \<Longrightarrow>
     pc_ok live u frames h' k' pc"
  by (cases pc) (auto simp: grows_def capture_live_def)

lemma list_pc_ok_grow:
  "list_all (pc_ok live u frames h k) pcs \<Longrightarrow> (live \<Longrightarrow> grows h h') \<Longrightarrow> (live \<Longrightarrow> grows k k') \<Longrightarrow>
     list_all (pc_ok live u frames h' k') pcs"
  by (auto simp: list_all_iff intro: pc_ok_grow)

lemma data_ok_grow:
  "data_ok live h k d \<Longrightarrow> (live \<Longrightarrow> grows h h') \<Longrightarrow> grows k k' \<Longrightarrow> data_ok live h' k' d"
  by (auto simp: data_ok_def grows_def capture_live_def)

text \<open>What the statements that change a heap do.\<close>

lemma exec_OpenCam:
  assumes "exec cam (OpenCam i) s = Inr t"
  obtains c k where "t = s\<lparr>caps := k, data := (data s)\<lparr>capture := Some c\<rparr>\<rparr>" "grows (caps s) k" "capture_live k c"
proof (cases "cam i")
  case True
  obtain c k where k: "malloc 1 () (caps s) = (c, k)" "c \<noteq> NULL" "block k = (block (caps s))(c \<mapsto> [()])"
    by (rule hp.newE [of 1 "()" "caps s"]) simp
  show thesis using assms True k by (intro that [of c k]) (auto simp: grows_upd capture_live_def)
qed (use assms that [of NULL "caps s"] in \<open>simp add: capture_live_def\<close>)

lemma exec_NewImage:
  assumes "size_ok (cd_width (data s)) (cd_height (data s))"
  obtains p h im where "exec cam NewImage s = Inr (s\<lparr>pics := h, data := (data s)\<lparr>cimage := Some p\<rparr>\<rparr>)"
    "p \<noteq> NULL" "block h = (block (pics s))(p \<mapsto> [im])" "canvas im"
proof -
  obtain im where im: "Create (cd_width (data s)) (cd_height (data s)) = Inr im" "canvas im"
    using Create_ok [of "cd_width (data s)" "cd_height (data s)"] assms by (auto simp: canvas_def size_ok_def)
  obtain p h where "malloc 1 im (pics s) = (p, h)" "p \<noteq> NULL" "block h = (block (pics s))(p \<mapsto> [im])"
    by (rule hp.newE [of 1 im "pics s"]) simp
  with im show thesis by (intro that [of p h im]) simp_all
qed

lemma exec_DeleteImage:
  assumes "exec cam DeleteImage s = Inr t" "data_ok live (pics s) (caps s) (data s)"
  obtains p h where "t = s\<lparr>pics := h\<rparr>" "block h = (block (pics s))(p := None)"
proof -
  obtain p h where p: "cimage (data s) = Some p" "mem_free p (pics s) = Inr h" "t = s\<lparr>pics := h\<rparr>"
    using assms(1) by (auto simp: rbind_eq_Inr fld_def split: option.splits)
  then have "p \<noteq> NULL" using assms(2) by (auto simp: data_ok_def)
  then have "block h = (block (pics s))(p := None)"
    using p(2) hp.rel_live [of "pics s" p] hp.rel_dead [of "pics s" p] by (cases "block (pics s) p") auto
  with p(3) show thesis by (rule that)
qed

lemma step_NewImage:
  assumes "cam_inv live u frames s" "exec cam NewImage (s\<lparr>todo := sts\<rparr>) = Inr t"
  obtains p h im where "t = s\<lparr>todo := sts, pics := h, data := (data s)\<lparr>cimage := Some p\<rparr>\<rparr>"
    "p \<noteq> NULL" "block h = (block (pics s))(p \<mapsto> [im])" "canvas im"
proof -
  have "size_ok (cd_width (data (s\<lparr>todo := sts\<rparr>))) (cd_height (data (s\<lparr>todo := sts\<rparr>)))"
    using assms(1) by (simp add: cam_inv_def data_ok_def)
  from exec_NewImage [OF this, of cam] show thesis
    using assms(2) that by (auto simp del: exec.simps)
qed

lemma cam_inv_keep:
  assumes "cam_inv live u frames s" "todo s = st # sts" "st \<in> {StatusOn, CaptureSize, StatusOff, CloseThread}"
    and "pics t = pics s" "caps t = caps s" "threads t = threads s" "mfault t = mfault s" "todo t = sts"
    and "cimage (data t) = cimage (data s)" "capture (data t) = capture (data s)"
    and "cd_width (data t) = cd_width (data s)" "cd_height (data t) = cd_height (data s)"
  shows "cam_inv live u frames t"
proof -
  have "todo_ok live img cap (st # sts) = todo_ok live img cap sts" for img cap using assms(3) by auto
  with assms(1) show ?thesis unfolding cam_inv_def data_ok_def image_live_def assms(2,4-) by simp
qed

lemma exec_inv:
  assumes "cam_inv live u frames s" "todo s = st # sts" "exec cam st (s\<lparr>todo := sts\<rparr>) = Inr t"
  shows "cam_inv live u frames t"
proof (cases st)
  case (OpenCam i)
  obtain c k where "t = s\<lparr>todo := sts\<rparr>\<lparr>caps := k, data := (data (s\<lparr>todo := sts\<rparr>))\<lparr>capture := Some c\<rparr>\<rparr>"
    "grows (caps (s\<lparr>todo := sts\<rparr>)) k" "capture_live k c"
    by (rule exec_OpenCam [OF assms(3) [unfolded OpenCam]])
  then have t: "t = s\<lparr>todo := sts, caps := k, data := (data s)\<lparr>capture := Some c\<rparr>\<rparr>"
    "grows (caps s) k" "capture_live k c" by simp_all
  have "list_all (pc_ok live u frames (pics s) k) (threads s)"
    using assms(1) t(2) by (auto simp: cam_inv_def intro: list_pc_ok_grow)
  then show ?thesis
    using assms(1,2) t(3) by (simp add: t(1) cam_inv_def OpenCam data_ok_def image_live_def)
next
  case NewImage
  obtain p h im where t: "t = s\<lparr>todo := sts, pics := h, data := (data s)\<lparr>cimage := Some p\<rparr>\<rparr>"
    and p: "p \<noteq> NULL" "block h = (block (pics s))(p \<mapsto> [im])" "canvas im"
    by (rule step_NewImage [OF assms(1) assms(3) [unfolded NewImage]])
  have "list_all (pc_ok live u frames h (caps s)) (threads s)"
    using assms(1) p(2) by (auto simp: cam_inv_def intro: list_pc_ok_grow grows_upd)
  then show ?thesis
    using assms(1,2) p
    by (auto simp: cam_inv_def t NewImage pics_ok_def data_ok_def image_live_def)
next
  case DeleteImage
  have d: "data_ok live (pics (s\<lparr>todo := sts\<rparr>)) (caps (s\<lparr>todo := sts\<rparr>)) (data (s\<lparr>todo := sts\<rparr>))"
    using assms(1) by (simp add: cam_inv_def)
  have dead: "\<not> live" using assms(1,2) by (simp add: cam_inv_def DeleteImage)
  obtain p h where "t = s\<lparr>todo := sts\<rparr>\<lparr>pics := h\<rparr>" "block h = (block (pics (s\<lparr>todo := sts\<rparr>)))(p := None)"
    by (rule exec_DeleteImage [OF assms(3) [unfolded DeleteImage] d])
  then have t: "t = s\<lparr>todo := sts, pics := h\<rparr>" "block h = (block (pics s))(p := None)" by simp_all
  have "pics_ok h" using assms(1) t(2) by (auto simp: cam_inv_def pics_ok_def)
  moreover have "list_all (pc_ok live u frames h (caps s)) (threads s)"
    using assms(1) dead by (auto simp: cam_inv_def intro: list_pc_ok_grow)
  ultimately show ?thesis
    using assms(1,2) dead by (auto simp: cam_inv_def t DeleteImage data_ok_def intro: todo_ok_mono)
next
  case ReleaseCam
  then have dead: "\<not> live" using assms(1,2) by (simp add: cam_inv_def)
  obtain c k where t: "t = s\<lparr>todo := sts, caps := k, data := (data s)\<lparr>capture := Some NULL\<rparr>\<rparr>"
    using assms(3) ReleaseCam by (auto simp: rbind_eq_Inr)
  have "list_all (pc_ok live u frames (pics s) k) (threads s)"
    using assms(1) dead by (auto simp: cam_inv_def intro: list_pc_ok_grow)
  then show ?thesis
    using assms(1,2) dead
    by (auto simp: cam_inv_def t ReleaseCam data_ok_def capture_live_def image_live_def intro: todo_ok_mono)
next
  case Spawn
  then have t: "t = s\<lparr>todo := sts, threads := threads s @ [Test]\<rparr>" using assms(3) by simp
  have "image_live (pics s) (data s)" "capture (data s) \<noteq> None" using assms(1,2) Spawn by (simp_all add: cam_inv_def)
  moreover from this(1) have "cimage (data s) \<noteq> None" by (cases "cimage (data s)") (simp_all add: image_live_def)
  ultimately show ?thesis using assms(1,2) Spawn by (simp add: cam_inv_def t)
next
  case (SetSizes w h)
  then have "t = s\<lparr>todo := sts, data := (data s)\<lparr>cd_width := w, cd_height := h\<rparr>\<rparr>"
    using assms(3) by (simp add: SetCaptureSize_def)
  then show ?thesis using assms(1,2) SetSizes by (simp add: cam_inv_def data_ok_def image_live_def)
qed (use assms in \<open>auto intro!: cam_inv_keep [OF assms(1,2)]\<close>)

text \<open>Without \<open>StopCapture\<close> the program's thread meets no error.\<close>

lemma exec_live:
  assumes "cam_inv True u frames s" "todo s = st # sts"
  shows "\<exists>t. exec cam st (s\<lparr>todo := sts\<rparr>) = Inr t"
proof (cases st)
  case NewImage
  have "size_ok (cd_width (data (s\<lparr>todo := sts\<rparr>))) (cd_height (data (s\<lparr>todo := sts\<rparr>)))"
    using assms(1) by (simp add: cam_inv_def data_ok_def)
  from exec_NewImage [OF this, of cam] show ?thesis using NewImage by blast
qed (use assms in \<open>auto simp: cam_inv_def split: prod.split\<close>)

lemma query_live: "capture_live k c \<Longrightarrow> \<exists>r. query k c fr = Inr r \<and> set_option r \<subseteq> set_option fr"
  by (auto simp: query_def capture_live_def cells_of_def)

lemma query_dead: "\<not> capture_live k c \<Longrightarrow> query k c fr = Inl Freed"
  by (auto simp: query_def capture_live_def cells_of_def)

lemma thread_step_ok:
  assumes "\<forall>f \<in> frames. frame_ok u f" "pics_ok h" "data_ok live h k d" "cimage d \<noteq> None" "capture d \<noteq> None"
    and "pc_ok live u frames h k pc" "set_option fr \<subseteq> frames"
    and "thread_step u d k fr (h, pc) = (h', pc')"
  shows "pics_ok h' \<and> pc_ok live u frames h' k pc' \<and> grows h h'"
proof (cases pc)
  case (Ask c)
  then show ?thesis
    using assms query_live [of k c fr] query_dead [of k c fr]
    by (cases "capture_live k c") (auto split: option.splits)
next
  case (Copy p f cs)
  show ?thesis
  proof (cases cs)
    case Nil
    then show ?thesis using assms Copy by auto
  next
    case (Cons c cs')
    have f: "frame_ok u f" "usable u f" "c \<in> set (raster (iwidth f) (iheight f))"
      using assms(1,6) Copy Cons by auto
    show ?thesis
    proof (cases "block h p")
      case None
      then show ?thesis
        using assms(2,6,8) Copy Cons put_shared_dead [OF None, of f c] by auto
    next
      case (Some xs)
      then obtain im where im: "block h p = Some [im]" "canvas im"
        using assms(2) by (auto simp: pics_ok_def)
      obtain h2 im2 where h2: "put_shared p f c h = Inr h2" "canvas im2" "block h2 = (block h)(p \<mapsto> [im2])"
        using put_shared_ok [OF f im] by blast
      then show ?thesis using assms(2,6,8) Copy Cons by (auto simp: pics_ok_def grows_def)
    qed
  qed
qed (use assms in \<open>auto simp: data_ok_def split: option.splits if_splits\<close>)

lemma cam_step_inv:
  assumes "cam_step u cam calls frames a s t" "cam_inv live u frames s"
    and "\<forall>f \<in> frames. frame_ok u f" "\<forall>c \<in> calls. call_ok c" "live \<longrightarrow> CStopCapture \<notin> calls"
  shows "cam_inv live u frames t"
  using assms(1)
proof cases
  case (call c)
  then show ?thesis using assms(2,4,5) method_todo_ok [of c live] by (auto simp: cam_inv_def)
next
  case (exec st sts)
  show ?thesis by (rule exec_inv [OF assms(2) exec(2,3)])
next
  case (fail st sts e)
  have "\<not> live" using exec_live [of u frames s st sts cam] fail assms(2) by (cases live) auto
  then show ?thesis using assms(2) fail by (simp add: cam_inv_def)
next
  case (capture i fr h pc)
  have ti: "pc_ok live u frames (pics s) (caps s) (threads s ! i)" "cimage (data s) \<noteq> None" "capture (data s) \<noteq> None"
    using assms(2) capture(3) by (auto simp: cam_inv_def list_all_length)
  have inv: "pics_ok (pics s)" "data_ok live (pics s) (caps s) (data s)" using assms(2) by (simp_all add: cam_inv_def)
  note st = thread_step_ok [OF assms(3) inv ti(2,3,1) capture(4,5)]
  have "list_all (pc_ok live u frames h (caps s)) (threads s)"
    using assms(2) st by (auto simp: cam_inv_def intro: list_pc_ok_grow)
  then have "list_all (pc_ok live u frames h (caps s)) ((threads s)[i := pc])"
    using st capture(3) by (auto simp: list_all_length nth_list_update)
  moreover have "data_ok live h (caps s) (data s)" using inv(2) st by (auto intro: data_ok_grow)
  moreover have "todo_ok live (image_live h (data s)) (capture (data s) \<noteq> None) (todo s)"
    by (rule todo_ok_mono [of live "image_live (pics s) (data s)" "capture (data s) \<noteq> None"])
      (use assms(2) st in \<open>auto simp: cam_inv_def intro: image_live_grow\<close>)
  ultimately show ?thesis using assms(2) capture st by (simp add: cam_inv_def)
qed

lemma cam_inv_boot: "cam_inv live u frames boot"
  by (simp add: cam_inv_def boot_def pics_ok_def data_ok_def Camera_def size_ok_def int32_def block_def NULL_def)

lemma cam_reach_inv:
  assumes "cam_reach u cam calls frames s"
    and "\<forall>f \<in> frames. frame_ok u f" "\<forall>c \<in> calls. call_ok c" "live \<longrightarrow> CStopCapture \<notin> calls"
  shows "cam_inv live u frames s"
  using assms(1)
  by induction (auto intro: cam_inv_boot cam_step_inv [OF _ _ assms(2-4)])

text \<open>
  C4: The capture threads and the program share the image without a lock. When every size that
  the program sets is positive with a number of pixels that fits an int, and every frame that
  \<open>getCvImage\<close> uses has the bytes that its header says, then in every interleaving no thread
  leaves its image, whatever the sizes of the frames and of the capture: the only error a
  capture thread can run into is that its image or the capture has been freed, and that needs a
  call of \<open>StopCapture\<close>. A program that never calls it meets no error in either thread, however
  often it starts captures and sets such sizes.
\<close>

theorem capture_safe:
  assumes "cam_reach u cam calls frames s"
    and "\<forall>f \<in> frames. frame_ok u f" and "\<forall>c \<in> calls. call_ok c"
  shows "list_all (\<lambda>pc. \<forall>e. pc = Fault e \<longrightarrow> e = Freed \<and> CStopCapture \<in> calls) (threads s) \<and>
    (CStopCapture \<notin> calls \<longrightarrow> mfault s = None)"
proof -
  have "cam_inv (CStopCapture \<notin> calls) u frames s" by (rule cam_reach_inv [OF assms]) simp
  then show ?thesis by (auto simp: cam_inv_def list_all_iff)
qed

subsection \<open>Schedules\<close>

text \<open>
  A schedule names the thread that moves, the call the program makes and the frame the camera
  delivers; running it gives a reachable state.
\<close>

datatype move = MCall ccall | MNext | MThread nat "ipl_image option"

fun do_move :: "int \<Rightarrow> (int \<Rightarrow> bool) \<Rightarrow> move \<Rightarrow> sys \<Rightarrow> sys option" where
  "do_move u cam (MCall c) s =
     (if todo s = [] \<and> mfault s = None then Some (s\<lparr>todo := method_body c\<rparr>) else None)"
| "do_move u cam MNext s = (case todo s of [] \<Rightarrow> None | st # sts \<Rightarrow>
     (case exec cam st (s\<lparr>todo := sts\<rparr>) of Inr t \<Rightarrow> Some t
      | Inl e \<Rightarrow> Some (s\<lparr>todo := [], mfault := Some e\<rparr>)))"
| "do_move u cam (MThread i fr) s = (if i < length (threads s)
     then let (h, pc) = thread_step u (data s) (caps s) fr (pics s, threads s ! i)
          in Some (s\<lparr>pics := h, threads := (threads s)[i := pc]\<rparr>)
     else None)"

fun do_moves :: "int \<Rightarrow> (int \<Rightarrow> bool) \<Rightarrow> move list \<Rightarrow> sys \<Rightarrow> sys option" where
  "do_moves u cam [] s = Some s"
| "do_moves u cam (m # ms) s = (case do_move u cam m s of None \<Rightarrow> None | Some t \<Rightarrow> do_moves u cam ms t)"

fun move_ok :: "ccall set \<Rightarrow> ipl_image set \<Rightarrow> move \<Rightarrow> bool" where
  "move_ok calls frames (MCall c) = (c \<in> calls)"
| "move_ok calls frames MNext = True"
| "move_ok calls frames (MThread i fr) = (set_option fr \<subseteq> frames)"

fun mover :: "move \<Rightarrow> actor" where
  "mover (MThread i fr) = Thread i"
| "mover m = Main"

lemma do_move_step:
  "do_move u cam m s = Some t \<Longrightarrow> move_ok calls frames m \<Longrightarrow> cam_step u cam calls frames (mover m) s t"
proof (cases m)
  case (MCall c)
  moreover assume "do_move u cam m s = Some t" "move_ok calls frames m"
  ultimately have "todo s = []" "mfault s = None" "c \<in> calls" "t = s\<lparr>todo := method_body c\<rparr>"
    by (auto split: if_splits)
  then show ?thesis using MCall cam_step.call by simp
next
  case MNext
  moreover assume "do_move u cam m s = Some t"
  ultimately obtain st sts where "todo s = st # sts" "exec cam st (s\<lparr>todo := sts\<rparr>) = Inr t \<or>
      (\<exists>e. exec cam st (s\<lparr>todo := sts\<rparr>) = Inl e \<and> t = s\<lparr>todo := [], mfault := Some e\<rparr>)"
    by (auto split: list.splits sum.splits)
  then show ?thesis using MNext cam_step.exec cam_step.fail by auto
next
  case (MThread i fr)
  moreover assume "do_move u cam m s = Some t" "move_ok calls frames m"
  moreover obtain h pc where "thread_step u (data s) (caps s) fr (pics s, threads s ! i) = (h, pc)"
    by (cases "thread_step u (data s) (caps s) fr (pics s, threads s ! i)") auto
  ultimately show ?thesis using MThread cam_step.capture [of i s fr frames u h pc] by (auto split: if_splits)
qed

lemma reach_moves:
  "do_moves u cam ms s = Some t \<Longrightarrow> list_all (move_ok calls frames) ms \<Longrightarrow>
     cam_reach u cam calls frames s \<Longrightarrow> cam_reach u cam calls frames t"
proof (induction ms arbitrary: s)
  case (Cons m ms)
  obtain s' where s': "do_move u cam m s = Some s'" "do_moves u cam ms s' = Some t"
    using Cons.prems(1) by (auto split: option.splits)
  with do_move_step [OF s'(1), of calls frames] Cons.prems(2,3) have "cam_reach u cam calls frames s'"
    by (auto intro: cam_reach.step)
  with s'(2) Cons.prems(2) show ?case by (intro Cons.IH) simp_all
qed simp

definition capturing :: "bi_image \<Rightarrow> sys" where
  "capturing im = \<lparr>pics = [Some [im]], caps = [Some [()]], data = \<lparr>cimage = Some 1, flag = 1, cd_width = 640,
     cd_height = 480, status = True, capture = Some 1\<rparr>, threads = [Test], todo = [], mfault = None\<rparr>"

definition start_moves :: "int \<Rightarrow> move list" where
  "start_moves n = MCall (CStartCapture n) # [MNext, MNext, MNext, MNext, MNext]"

lemma start_run:
  assumes "Create 640 480 = Inr im" "cam n"
  shows "do_moves u cam (start_moves n) boot = Some (capturing im)"
  using assms
  by (simp add: start_moves_def capturing_def boot_def Camera_def StartCapture_def malloc_def)

lemma reach_capturing:
  assumes "CStartCapture n \<in> calls" "cam n"
  obtains im where "canvas im" "cam_reach u cam calls frames (capturing im)"
proof -
  obtain im where im: "Create 640 480 = Inr im" "canvas im"
    using Create_ok [of 640 480] by (auto simp: canvas_def int32_def)
  have "list_all (move_ok calls frames) (start_moves n)"
    using assms by (simp add: start_moves_def list_all_iff)
  from reach_moves [OF start_run [of im cam n, OF im(1) assms(2)] this cam_reach.boot] im(2) show thesis
    by (rule that [rotated])
qed

theorem capture_safe_witness:
  "\<exists>s. cam_reach 8 (\<lambda>_. True) {CStartCapture 0} {} s \<and> threads s = [Test] \<and> mfault s = None"
proof -
  obtain im where r: "cam_reach 8 (\<lambda>_. True) {CStartCapture 0} {} (capturing im)"
    by (rule reach_capturing [where n = 0 and calls = "{CStartCapture 0}" and u = 8 and cam = "\<lambda>_. True" and
        frames = "{}"]) simp_all
  from capture_safe [OF r] have "mfault (capturing im) = None" by simp
  with r show ?thesis by (intro exI [of _ "capturing im"]) (simp add: capturing_def)
qed

subsection \<open>Stopping\<close>

text \<open>
  The schedules of the races: the thread has taken a frame, or has read the handle of the
  capture, when the program clears \<open>status\<close> and frees the image and the capture; the thread
  tests \<open>status\<close> only after the frame.
\<close>

definition race_moves :: "ipl_image \<Rightarrow> move list" where
  "race_moves f = [MThread 0 None, MThread 0 None, MThread 0 (Some f), MThread 0 None, MCall CStopCapture,
     MNext, MNext, MThread 0 None]"

definition query_moves :: "move list" where
  "query_moves = [MThread 0 None, MThread 0 None, MCall CStopCapture, MNext, MNext, MNext, MNext, MThread 0 None]"

lemma reach_after:
  assumes "cam n" "list_all (move_ok {CStartCapture n, CStopCapture} frames) ms"
    and "\<And>im. \<exists>s. do_moves u cam ms (capturing im) = Some s \<and> P s"
  shows "\<exists>s. cam_reach u cam {CStartCapture n, CStopCapture} frames s \<and> P s"
proof -
  obtain im where im: "cam_reach u cam {CStartCapture n, CStopCapture} frames (capturing im)"
    by (rule reach_capturing [of n "{CStartCapture n, CStopCapture}" cam]) (simp_all add: assms(1))
  obtain s where s: "do_moves u cam ms (capturing im) = Some s" "P s" using assms(3) by blast
  from reach_moves [OF s(1) assms(2) im] s(2) show ?thesis by blast
qed

text \<open>
  C35: \<open>StopCapture\<close> clears \<open>status\<close> and deletes the image at once, without waiting for the
  thread. Whatever camera can be opened and whatever frame it delivers, as long as
  \<open>getCvImage\<close> uses the frame (eight bits, three channels, data that is not null) and it has a
  pixel, there is an interleaving in which the capture thread writes into the deleted image.
\<close>

theorem stop_race:
  assumes "cam n" and "usable u f" and "0 < iwidth f" and "0 < iheight f"
  shows "\<exists>s. cam_reach u cam {CStartCapture n, CStopCapture} {f} s \<and> threads s = [Fault Freed]"
proof (rule reach_after [where ms = "race_moves f"])
  have "raster (iwidth f) (iheight f) \<noteq> []"
    using assms set_raster [of "iwidth f" "iheight f"] by (force simp flip: set_empty)
  then obtain c cs where cs: "raster (iwidth f) (iheight f) = c # cs" by (cases "raster (iwidth f) (iheight f)") auto
  show "\<exists>s. do_moves u cam (race_moves f) (capturing im) = Some s \<and> threads s = [Fault Freed]" for im
    using assms(2) cs put_shared_dead [of "[None]" 1 f c]
    by (simp add: race_moves_def capturing_def StopCapture_def mem_free_def block_def set_block_def NULL_def
        query_def cells_of_def)
qed (use assms(1) in \<open>simp_all add: race_moves_def\<close>)

theorem stop_race_witness:
  "\<exists>s. cam_reach 8 (\<lambda>_. True) {CStartCapture 0, CStopCapture}
     {\<lparr>depth = 8, nChannels = 3, iwidth = 1, iheight = 1, widthStep = 4, imageData = replicate 4 0\<rparr>} s \<and>
   threads s = [Fault Freed]"
  by (rule stop_race) (simp_all add: usable_def)

text \<open>The capture is released as early: a thread that has read the handle queries a freed capture.\<close>

lemma query_race:
  assumes "cam n"
  shows "\<exists>s. cam_reach u cam {CStartCapture n, CStopCapture} {} s \<and> threads s = [Fault Freed]"
  by (rule reach_after [where ms = query_moves])
    (simp_all add: assms query_moves_def capturing_def StopCapture_def mem_free_def block_def set_block_def NULL_def
      query_def cells_of_def)

text \<open>
  A capture that is started again before the old thread has tested \<open>status\<close> leaves the old
  thread running beside the new one, both writing into the new image.
\<close>

lemma restart_keeps_thread:
  assumes "cam n"
  shows "\<exists>s. cam_reach u cam {CStartCapture n, CStopCapture} {} s \<and> threads s = [Query, Query]"
proof -
  let ?ms = "MCall CStopCapture # [MNext, MNext, MNext, MNext] @ start_moves n @ [MThread 0 None, MThread 1 None]"
  obtain jm where jm: "Create 640 480 = Inr jm"
    using Create_ok [of 640 480] by (auto simp: int32_def)
  have run: "\<exists>s. do_moves u cam ?ms (capturing im) = Some s \<and> threads s = [Query, Query]" for im
    using jm assms
    by (simp add: capturing_def StopCapture_def StartCapture_def start_moves_def mem_free_def block_def
        set_block_def NULL_def malloc_def)
  show ?thesis by (rule reach_after [where ms = ?ms, OF _ _ run]) (simp_all add: assms start_moves_def)
qed

subsection \<open>The thread ends\<close>

text \<open>
  How far a thread is from its next test of \<open>status\<close>: the place in the loop, then the pixels
  it has still to write.
\<close>

fun remaining :: "tpc \<Rightarrow> nat \<times> nat" where
  "remaining Query = (5, 0)"
| "remaining (Ask c) = (4, 0)"
| "remaining (Got f) = (3, 0)"
| "remaining (Copy p f cs) = (2, length cs)"
| "remaining Test = (1, 0)"
| "remaining pc = (0, 0)"

abbreviation nearer :: "((nat \<times> nat) \<times> nat \<times> nat) set" where
  "nearer \<equiv> less_than <*lex*> less_than"

lemma wf_nearer: "wf nearer"
  by (simp add: wf_lex_prod)

lemma thread_step_nearer:
  assumes "\<not> status d" "\<not> ended pc" "thread_step u d k fr (h, pc) = (h', pc')"
  shows "(remaining pc', remaining pc) \<in> nearer"
proof (cases pc)
  case (Copy p f cs)
  then show ?thesis using assms by (cases cs) (auto split: sum.splits)
qed (use assms in \<open>auto split: option.splits sum.splits\<close>)

lemma exec_threads: "exec cam st s = Inr t \<Longrightarrow> \<exists>ts. threads t = threads s @ ts"
  by (cases st) (auto simp: rbind_eq_Inr malloc_def split: prod.splits)

text \<open>A step of another thread leaves a thread where it is, its own step when it has ended too.\<close>

lemma step_other:
  assumes "cam_step u cam calls frames a s t" "i < length (threads s)"
    and "a \<noteq> Thread i \<or> ended (threads s ! i)"
  shows "i < length (threads t) \<and> threads t ! i = threads s ! i"
  using assms(1)
proof cases
  case (exec st sts)
  obtain ts where "threads t = threads s @ ts" using exec_threads [OF exec(3)] by auto
  then show ?thesis using assms(2) by (simp add: nth_append)
next
  case (capture j fr h pc)
  have "pc = threads s ! i" if "j = i"
    using that assms(3) capture by (cases "threads s ! i") auto
  then show ?thesis using assms(2) capture by (auto simp: nth_list_update)
qed (use assms in auto)

lemma step_own:
  assumes "cam_step u cam calls frames (Thread i) s t" "\<not> status (data s)" "\<not> ended (threads s ! i)"
  shows "(remaining (threads t ! i), remaining (threads s ! i)) \<in> nearer"
  using assms(1)
proof (rule thread_stepE)
  fix fr h pc
  assume *: "t = s\<lparr>pics := h, threads := (threads s)[i := pc]\<rparr>" "i < length (threads s)"
    "thread_step u (data s) (caps s) fr (pics s, threads s ! i) = (h, pc)"
  show ?thesis using thread_step_nearer [OF assms(2,3) *(3)] *(1,2) by simp
qed

text \<open>An infinite run and the pieces of it in which a thread does not move.\<close>

definition cam_run ::
  "int \<Rightarrow> (int \<Rightarrow> bool) \<Rightarrow> ccall set \<Rightarrow> ipl_image set \<Rightarrow> (nat \<Rightarrow> actor) \<Rightarrow> (nat \<Rightarrow> sys) \<Rightarrow> bool" where
  "cam_run u cam calls frames who run \<longleftrightarrow>
     (\<forall>n. cam_step u cam calls frames (who n) (run n) (run (Suc n)))"

lemma run_still:
  assumes "cam_run u cam calls frames who run" "i < length (threads (run n))" "n \<le> m"
    and "(\<forall>j. n \<le> j \<longrightarrow> j < m \<longrightarrow> who j \<noteq> Thread i) \<or> ended (threads (run n) ! i)"
  shows "i < length (threads (run m)) \<and> threads (run m) ! i = threads (run n) ! i"
  using assms(3,4)
proof (induction m rule: dec_induct)
  case (step j)
  have "i < length (threads (run j)) \<and> threads (run j) ! i = threads (run n) ! i"
    using step by auto
  moreover have "cam_step u cam calls frames (who j) (run j) (run (Suc j))"
    using assms(1) by (simp add: cam_run_def)
  ultimately show ?case using step_other [of u cam calls frames "who j" "run j" "run (Suc j)" i] step
    by auto
qed (use assms(2) in simp)

lemma run_ends:
  assumes "cam_run u cam calls frames who run" "\<forall>n\<ge>k. \<not> status (data (run n))"
    and "\<forall>n\<ge>k. \<not> ended (threads (run n) ! i) \<longrightarrow> (\<exists>m\<ge>n. who m = Thread i)"
    and "k \<le> n" "i < length (threads (run n))"
  shows "\<exists>m\<ge>n. i < length (threads (run m)) \<and> ended (threads (run m) ! i)"
  using assms(4,5)
proof (induction "remaining (threads (run n) ! i)" arbitrary: n rule: wf_induct_rule [OF wf_nearer])
  case (1 n)
  show ?case
  proof (cases "ended (threads (run n) ! i)")
    case False
    define m where "m = (LEAST m. n \<le> m \<and> who m = Thread i)"
    have ex: "\<exists>m. n \<le> m \<and> who m = Thread i" using assms(3) 1(2) False by blast
    have m: "n \<le> m" "who m = Thread i" using LeastI_ex [OF ex] by (simp_all add: m_def)
    have "who j \<noteq> Thread i" if "n \<le> j" "j < m" for j using not_less_Least [of j] that by (auto simp: m_def)
    then have at_m: "i < length (threads (run m))" "threads (run m) ! i = threads (run n) ! i"
      using run_still [OF assms(1) 1(3) m(1)] by auto
    have st: "cam_step u cam calls frames (Thread i) (run m) (run (Suc m))"
      using assms(1) m(2) by (metis cam_run_def)
    have "(remaining (threads (run (Suc m)) ! i), remaining (threads (run n) ! i)) \<in> nearer"
      using step_own [OF st] at_m False assms(2) m(1) 1(2) by auto
    moreover have "i < length (threads (run (Suc m)))" using st at_m by (auto elim: thread_stepE)
    moreover have "k \<le> Suc m" using m(1) 1(2) by simp
    ultimately obtain m' where "m' \<ge> Suc m" "i < length (threads (run m'))" "ended (threads (run m') ! i)"
      using 1(1) by blast
    then show ?thesis using m(1) by (intro exI [of _ m']) auto
  qed (use 1 in auto)
qed

text \<open>
  What a thread needs as long as it runs: the image, and the image and the capture it holds
  itself. Only a deletion or a release takes that from it.
\<close>

fun holds :: "images \<Rightarrow> captures \<Rightarrow> tpc \<Rightarrow> bool" where
  "holds h k (Ask c) = capture_live k c"
| "holds h k (Copy p f cs) = (block h p \<noteq> None)"
| "holds h k pc = True"

lemma holds_grow: "holds h k pc \<Longrightarrow> grows h h' \<Longrightarrow> grows k k' \<Longrightarrow> holds h' k' pc"
  by (cases pc) (auto simp: grows_def capture_live_def)

definition own_ok :: "nat \<Rightarrow> sys \<Rightarrow> bool" where
  "own_ok i s \<longleftrightarrow> (i < length (threads s) \<longrightarrow> (\<forall>e. threads s ! i \<noteq> Fault e) \<and>
     (\<not> ended (threads s ! i) \<longrightarrow> image_live (pics s) (data s) \<and> holds (pics s) (caps s) (threads s ! i)))"

definition hasty :: "nat \<Rightarrow> actor \<Rightarrow> sys \<Rightarrow> bool" where
  "hasty i a s \<longleftrightarrow> a = Main \<and> i < length (threads s) \<and> \<not> ended (threads s ! i) \<and>
     todo s \<noteq> [] \<and> hd (todo s) \<in> {DeleteImage, ReleaseCam}"

lemma own_ok_grow:
  assumes "own_ok i s" "threads t = threads s" "grows (pics s) (pics t)" "grows (caps s) (caps t)"
    and "image_live (pics s) (data s) \<Longrightarrow> image_live (pics t) (data t)"
  shows "own_ok i t"
  using assms holds_grow by (auto simp: own_ok_def)

lemma exec_own:
  assumes "cam_inv live u frames s" "todo s = st # sts" "exec cam st (s\<lparr>todo := sts\<rparr>) = Inr t"
    and "own_ok i s" "\<not> hasty i Main s"
  shows "own_ok i t"
proof (cases st)
  case (OpenCam n)
  obtain c k where "t = s\<lparr>todo := sts\<rparr>\<lparr>caps := k, data := (data (s\<lparr>todo := sts\<rparr>))\<lparr>capture := Some c\<rparr>\<rparr>"
    "grows (caps (s\<lparr>todo := sts\<rparr>)) k" by (rule exec_OpenCam [OF assms(3) [unfolded OpenCam]])
  then show ?thesis using assms(4) by (intro own_ok_grow [OF assms(4)]) (simp_all add: image_live_def)
next
  case NewImage
  obtain p h im where "t = s\<lparr>todo := sts, pics := h, data := (data s)\<lparr>cimage := Some p\<rparr>\<rparr>"
    and p: "p \<noteq> NULL" "block h = (block (pics s))(p \<mapsto> [im])" "canvas im"
    by (rule step_NewImage [OF assms(1) assms(3) [unfolded NewImage]])
  then show ?thesis using p by (intro own_ok_grow [OF assms(4)]) (simp_all add: image_live_def grows_upd [OF p(2)])
next
  case Spawn
  then have "t = s\<lparr>todo := sts, threads := threads s @ [Test]\<rparr>" using assms(3) by simp
  moreover have "image_live (pics s) (data s)" using assms(1,2) Spawn by (simp add: cam_inv_def)
  ultimately show ?thesis
    using assms(4) by (cases "i < length (threads s)") (auto simp: own_ok_def nth_append less_Suc_eq)
next
  case DeleteImage
  then have "threads t = threads s" "i < length (threads s) \<Longrightarrow> ended (threads s ! i)"
    using assms(2,3,5) by (auto simp: rbind_eq_Inr hasty_def)
  then show ?thesis using assms(4) by (simp add: own_ok_def)
next
  case ReleaseCam
  then have "threads t = threads s" "i < length (threads s) \<Longrightarrow> ended (threads s ! i)"
    using assms(2,3,5) by (auto simp: rbind_eq_Inr hasty_def)
  then show ?thesis using assms(4) by (simp add: own_ok_def)
qed (use assms(3) in \<open>auto intro!: own_ok_grow [OF assms(4)] simp: image_live_def SetCaptureSize_def\<close>)

lemma thread_own:
  assumes "\<forall>f \<in> frames. frame_ok u f" "pics_ok h" "data_ok live h k d" "capture d \<noteq> None"
    and "pc_ok False u frames h k pc" "\<forall>e. pc \<noteq> Fault e" "image_live h d" "holds h k pc"
    and "thread_step u d k fr (h, pc) = (h', pc')"
  shows "(\<forall>e. pc' \<noteq> Fault e) \<and> holds h' k pc'"
proof (cases pc)
  case (Ask c)
  then show ?thesis using assms(8,9) query_live [of k c fr] by (auto split: option.splits)
next
  case (Copy p f cs)
  show ?thesis
  proof (cases cs)
    case (Cons c cs')
    have f: "frame_ok u f" "usable u f" "c \<in> set (raster (iwidth f) (iheight f))"
      using assms(1,5) Copy Cons by auto
    obtain im where im: "block h p = Some [im]" "canvas im"
      using assms(2,8) Copy by (auto simp: pics_ok_def)
    obtain h2 im2 where "put_shared p f c h = Inr h2" "block h2 = (block h)(p \<mapsto> [im2])"
      using put_shared_ok [OF f im] by blast
    then show ?thesis using assms(9) Copy Cons by auto
  qed (use assms(9) Copy in auto)
qed (use assms in \<open>auto simp: data_ok_def image_live_def split: option.splits if_splits\<close>)

lemma step_keeps_own:
  assumes "cam_step u cam calls frames a s t" "cam_inv False u frames s" "\<forall>f \<in> frames. frame_ok u f"
    and "own_ok i s" "\<not> hasty i a s"
  shows "own_ok i t"
  using assms(1)
proof cases
  case (exec st sts)
  then show ?thesis using exec_own [OF assms(2) exec(2,3) assms(4)] assms(5) by simp
next
  case (capture j fr h pc)
  have ti: "pc_ok False u frames (pics s) (caps s) (threads s ! j)" "cimage (data s) \<noteq> None" "capture (data s) \<noteq> None"
    using assms(2) capture(3) by (auto simp: cam_inv_def list_all_length)
  have inv: "pics_ok (pics s)" "data_ok False (pics s) (caps s) (data s)" using assms(2) by (simp_all add: cam_inv_def)
  have gr: "grows (pics s) h" using thread_step_ok [OF assms(3) inv ti(2,3,1) capture(4,5)] by blast
  show ?thesis
  proof (cases "j = i \<and> \<not> ended (threads s ! i)")
    case True
    then have "(\<forall>e. pc \<noteq> Fault e) \<and> holds h (caps s) pc \<and> image_live h (data s)"
      using thread_own [OF assms(3) inv ti(3,1) _ _ _ capture(5)] assms(4) capture(3) gr
      by (auto simp: own_ok_def intro: image_live_grow)
    then show ?thesis using True capture by (simp add: own_ok_def)
  next
    case False
    have "threads t ! i = threads s ! i"
    proof (cases "j = i")
      case True
      then show ?thesis using False capture by (cases "threads s ! i") auto
    qed (use capture in simp)
    then show ?thesis using assms(4) capture(2) gr by (auto simp: own_ok_def intro: image_live_grow holds_grow)
  qed
qed (use assms(4) in \<open>auto simp: own_ok_def\<close>)

lemma run_inv:
  assumes "cam_run u cam calls frames who run" "run 0 = boot"
    and "\<forall>f \<in> frames. frame_ok u f" "\<forall>c \<in> calls. call_ok c"
  shows "cam_inv False u frames (run n)"
proof (rule cam_reach_inv [OF _ assms(3,4)])
  show "cam_reach u cam calls frames (run n)"
  proof (induction n)
    case (Suc n)
    then show ?case using assms(1) by (auto simp: cam_run_def intro: cam_reach.step)
  qed (simp add: assms(2) cam_reach.boot)
qed simp

lemma run_own:
  assumes "cam_run u cam calls frames who run" "run 0 = boot"
    and "\<forall>f \<in> frames. frame_ok u f" "\<forall>c \<in> calls. call_ok c"
    and "\<forall>n<m. \<not> hasty i (who n) (run n)"
  shows "own_ok i (run m)"
  using assms(5)
proof (induction m)
  case (Suc m)
  have "cam_step u cam calls frames (who m) (run m) (run (Suc m))" using assms(1) by (simp add: cam_run_def)
  from step_keeps_own [OF this run_inv [OF assms(1-4)] assms(3)] Suc show ?case by simp
qed (simp add: assms(2) own_ok_def boot_def)

text \<open>
  C5: A capture thread leaves its loop when it is told to. Take any infinite run from the start
  of the program in which the sizes set and the frames are as in the safety of the capture, and
  in which \<open>status\<close> stays false from some point on: a thread that is then scheduled again and
  again as long as it runs comes to an end and stays there, wherever in its loop it was and
  whatever the camera delivers and the other threads do. It returns from its loop, unless the
  program has deleted an image or released the capture while that very thread was still
  running; only then can it end in an access to freed memory instead.
\<close>

theorem capture_ends:
  assumes "cam_run u cam calls frames who run" and "run 0 = boot"
    and "\<forall>f \<in> frames. frame_ok u f" and "\<forall>c \<in> calls. call_ok c"
    and "i < length (threads (run k))" and "\<forall>n\<ge>k. \<not> status (data (run n))"
    and "\<forall>n\<ge>k. \<not> ended (threads (run n) ! i) \<longrightarrow> (\<exists>m\<ge>n. who m = Thread i)"
  shows "\<exists>m\<ge>k. (\<forall>n\<ge>m. threads (run n) ! i = threads (run m) ! i) \<and>
    (threads (run m) ! i = Ended \<or>
     threads (run m) ! i = Fault Freed \<and> (\<exists>n<m. hasty i (who n) (run n)))"
proof -
  obtain m where m: "k \<le> m" "i < length (threads (run m))" "ended (threads (run m) ! i)"
    using run_ends [OF assms(1,6,7) order_refl assms(5)] by blast
  have "threads (run m) ! i = Ended \<or> threads (run m) ! i = Fault Freed"
    using run_inv [OF assms(1-4), of m] m(2,3)
    by (cases "threads (run m) ! i") (auto simp: cam_inv_def list_all_length)
  moreover have "\<exists>n<m. hasty i (who n) (run n)" if "threads (run m) ! i = Fault Freed"
    using run_own [OF assms(1-4), of m i] m(2) that by (auto simp: own_ok_def)
  ultimately show ?thesis using m(1) run_still [OF assms(1) m(2)] m(3) by blast
qed

text \<open>
  A run that takes the thread through its loop: a camera of one pixel is started, the thread
  has taken a frame when the program clears \<open>status\<close>, writes its pixel, tests \<open>status\<close> and returns;
  then the image is deleted and the camera released, and the program sets sizes for ever.
\<close>

definition pixel_frame :: ipl_image where
  "pixel_frame = \<lparr>depth = 8, nChannels = 3, iwidth = 1, iheight = 1, widthStep = 4, imageData = [1, 2, 3, 0]\<rparr>"

definition demo_moves :: "move list" where
  "demo_moves = [MCall (CSetCaptureSize 1 1), MNext, MCall (CStartCapture 0), MNext, MNext, MNext, MNext, MNext,
     MThread 0 None, MThread 0 None, MThread 0 (Some pixel_frame), MThread 0 None, MCall CStopCapture, MNext,
     MThread 0 None, MThread 0 None, MThread 0 None, MNext, MNext, MNext]"

fun states :: "move list \<Rightarrow> sys \<Rightarrow> sys list" where
  "states [] s = [s]"
| "states (m # ms) s = s # states ms (the (do_move 8 (\<lambda>_. True) m s))"

abbreviation demo_calls :: "ccall set" where
  "demo_calls \<equiv> {CSetCaptureSize 1 1, CStartCapture 0, CStopCapture}"

definition demo_end :: sys where
  "demo_end = states demo_moves boot ! 20"

definition demo_run :: "nat \<Rightarrow> sys" where
  "demo_run n = (if n < 20 then states demo_moves boot ! n
     else if even n then demo_end else demo_end\<lparr>todo := [SetSizes 1 1]\<rparr>)"

definition demo_who :: "nat \<Rightarrow> actor" where
  "demo_who n = (if n < 20 then mover (demo_moves ! n) else Main)"

lemma states_0: "states ms s ! 0 = s"
  by (cases ms) simp_all

lemma states_step:
  assumes "do_moves 8 (\<lambda>_. True) ms s = Some t" "list_all (move_ok calls frames) ms" "n < length ms"
  shows "cam_step 8 (\<lambda>_. True) calls frames (mover (ms ! n)) (states ms s ! n) (states ms s ! Suc n)"
  using assms
proof (induction ms arbitrary: s n)
  case (Cons m ms)
  obtain s' where s': "do_move 8 (\<lambda>_. True) m s = Some s'" "do_moves 8 (\<lambda>_. True) ms s' = Some t"
    using Cons.prems(1) by (auto split: option.splits)
  show ?case
  proof (cases n)
    case 0
    then show ?thesis using do_move_step [OF s'(1)] Cons.prems(2) s'(1) by (cases ms) simp_all
  next
    case (Suc k)
    then show ?thesis using Cons.IH [OF s'(2)] Cons.prems(2,3) s'(1) by simp
  qed
qed simp

definition glance :: "sys \<Rightarrow> tpc list \<times> stmt list \<times> bool \<times> cerr option" where
  "glance s = (threads s, todo s, status (data s), mfault s)"

abbreviation demo_rest :: "nat \<Rightarrow> stmt list" where
  "demo_rest n \<equiv> drop n [OpenCam 0, NewImage, StatusOn, CaptureSize, Spawn]"

lemma demo_glances:
  "map glance (states demo_moves boot) =
    [([], [], True, None), ([], [SetSizes 1 1], True, None), ([], [], True, None)] @
    map (\<lambda>n. ([], demo_rest n, True, None)) [0, 1, 2, 3, 4] @
    map (\<lambda>pc. ([pc], [], True, None)) [Test, Query, Ask 1, Got pixel_frame, Copy 1 pixel_frame [(0, 0)]] @
    [([Copy 1 pixel_frame [(0, 0)]], StopCapture, True, None)] @
    map (\<lambda>pc. ([pc], tl StopCapture, False, None)) [Copy 1 pixel_frame [(0, 0)], Copy 1 pixel_frame [], Test, Ended] @
    [([Ended], [CloseThread, ReleaseCam], False, None), ([Ended], [ReleaseCam], False, None), ([Ended], [], False, None)]"
  by code_simp

lemma demo_total: "do_moves 8 (\<lambda>_. True) demo_moves boot \<noteq> None"
  by code_simp

lemma demo_length: "length demo_moves = 20" "length (states demo_moves boot) = 21"
  by code_simp+

lemma demo_end_sel:
  "threads demo_end = [Ended]" "todo demo_end = []" "mfault demo_end = None" "\<not> status (data demo_end)"
  "cd_width (data demo_end) = 1" "cd_height (data demo_end) = 1"
  by code_simp+

lemma demo_run_early: "n \<le> 20 \<Longrightarrow> demo_run n = states demo_moves boot ! n"
  by (cases "n = 20") (simp_all add: demo_run_def demo_end_def)

lemma demo_glance: "n < 21 \<Longrightarrow> glance (demo_run n) = map glance (states demo_moves boot) ! n"
  by (simp add: demo_length demo_run_early)

lemma demo_run_ok: "cam_run 8 (\<lambda>_. True) demo_calls {pixel_frame} demo_who demo_run"
  unfolding cam_run_def
proof
  fix n :: nat
  let ?step = "cam_step 8 (\<lambda>_. True) demo_calls {pixel_frame}"
  consider "n < 20" | "20 \<le> n" "even n" | "20 \<le> n" "odd n" by linarith
  then show "?step (demo_who n) (demo_run n) (demo_run (Suc n))"
  proof cases
    case 1
    obtain s where s: "do_moves 8 (\<lambda>_. True) demo_moves boot = Some s" using demo_total by auto
    have "list_all (move_ok demo_calls {pixel_frame}) demo_moves" by (simp add: demo_moves_def)
    from states_step [OF s this] 1 show ?thesis by (simp add: demo_run_early demo_who_def demo_length)
  next
    case 2
    then have "demo_run (Suc n) = (demo_run n)\<lparr>todo := method_body (CSetCaptureSize 1 1)\<rparr>"
      by (simp add: demo_run_def)
    then show ?thesis
      using cam_step.call [of "demo_run n" "CSetCaptureSize 1 1" demo_calls 8 "\<lambda>_. True" "{pixel_frame}"] 2
      by (simp add: demo_run_def demo_who_def demo_end_sel)
  next
    case 3
    have "(data demo_end)\<lparr>cd_width := 1, cd_height := 1\<rparr> = data demo_end" using demo_end_sel(5,6) by simp
    moreover have "demo_end\<lparr>todo := []\<rparr> = demo_end" using demo_end_sel(2) by simp
    ultimately have "exec (\<lambda>_. True) (SetSizes 1 1) ((demo_run n)\<lparr>todo := []\<rparr>) = Inr (demo_run (Suc n))"
      using 3 by (simp add: demo_run_def SetCaptureSize_def)
    then show ?thesis
      using cam_step.exec [of "demo_run n" "SetSizes 1 1" "[]" "\<lambda>_. True" "demo_run (Suc n)"] 3
      by (simp add: demo_run_def demo_who_def)
  qed
qed

text \<open>From 14 on \<open>status\<close> is false, from 17 on the thread has returned.\<close>

lemma demo_run_late: "20 < n \<Longrightarrow> threads (demo_run n) = [Ended] \<and> \<not> status (data (demo_run n))"
  by (auto simp: demo_run_def demo_end_sel)

lemma demo_index: "14 \<le> n \<Longrightarrow> n < 21 \<Longrightarrow> n \<in> {14, 15, 16, 17, 18, 19, 20 :: nat}"
  by auto

lemma demo_run_view:
  assumes "14 \<le> n"
  shows "length (threads (demo_run n)) = 1 \<and> \<not> status (data (demo_run n)) \<and> (17 \<le> n \<longrightarrow> threads (demo_run n) = [Ended])"
proof (cases "n < 21")
  case True
  with assms demo_index [of n] have "n \<in> {14, 15, 16, 17, 18, 19, 20}" by blast
  then show ?thesis using demo_glance [OF True] unfolding demo_glances by (auto simp: glance_def)
qed (use demo_run_late [of n] in simp)

lemma demo_run_14: "threads (demo_run 14) = [Copy 1 pixel_frame [(0, 0)]]"
  using demo_glance [of 14] unfolding demo_glances by (simp add: glance_def)

lemma demo_not_hasty: "\<not> hasty 0 (demo_who n) (demo_run n)"
proof (cases "17 \<le> n")
  case True
  then show ?thesis using demo_run_view [of n] by (auto simp: hasty_def)
next
  case False
  have "list_all (\<lambda>n. \<not> hasty 0 (demo_who n) (demo_run n)) [0..<17]" by code_simp
  then show ?thesis using False by (simp add: list_all_iff)
qed

theorem capture_ends_witness:
  "cam_run 8 (\<lambda>_. True) demo_calls {pixel_frame} demo_who demo_run \<and> demo_run 0 = boot \<and>
   threads (demo_run 14) = [Copy 1 pixel_frame [(0, 0)]] \<and> (\<exists>m\<ge>14. threads (demo_run m) ! 0 = Ended)"
proof (intro conjI)
  show boot: "demo_run 0 = boot" by (simp add: demo_run_early states_0)
  have "\<exists>m\<ge>14. (\<forall>n\<ge>m. threads (demo_run n) ! 0 = threads (demo_run m) ! 0) \<and>
    (threads (demo_run m) ! 0 = Ended \<or>
     threads (demo_run m) ! 0 = Fault Freed \<and> (\<exists>n<m. hasty 0 (demo_who n) (demo_run n)))"
  proof (rule capture_ends [OF demo_run_ok boot])
    show "\<forall>f \<in> {pixel_frame}. frame_ok 8 f" by (simp add: frame_ok_def pixel_frame_def)
    show "\<forall>c \<in> demo_calls. call_ok c" by (simp add: size_ok_def int32_def)
    show "0 < length (threads (demo_run 14))" by (simp add: demo_run_14)
    show "\<forall>n\<ge>14. \<not> status (data (demo_run n))" using demo_run_view by blast
    show "\<forall>n\<ge>14. \<not> ended (threads (demo_run n) ! 0) \<longrightarrow> (\<exists>m\<ge>n. demo_who m = Thread 0)"
    proof (intro allI impI)
      fix n :: nat
      assume "14 \<le> n" "\<not> ended (threads (demo_run n) ! 0)"
      then have "n \<le> 16" using demo_run_view [of n] by (cases "17 \<le> n") auto
      moreover have "demo_who 16 = Thread 0" by (simp add: demo_who_def demo_moves_def)
      ultimately show "\<exists>m\<ge>n. demo_who m = Thread 0" by blast
    qed
  qed
  then show "\<exists>m\<ge>14. threads (demo_run m) ! 0 = Ended" using demo_not_hasty by blast
qed (rule demo_run_ok, rule demo_run_14)

subsection \<open>One round of an undisturbed thread\<close>

definition thread_moves ::
  "int \<Rightarrow> capture_data \<Rightarrow> captures \<Rightarrow> ipl_image \<Rightarrow> nat \<Rightarrow> images \<times> tpc \<Rightarrow> images \<times> tpc" where
  "thread_moves u d k f n = (thread_step u d k (Some f) ^^ n)"

lemma thread_copies:
  assumes "foldM (put_frame f) cs im = Inr im'" "block h p = Some [im]"
  shows "\<exists>h'. thread_moves u d k f (length cs) (h, Copy p f cs) = (h', Copy p f []) \<and>
    block h' = (block h)(p \<mapsto> [im'])"
  using assms
proof (induction cs arbitrary: h im)
  case Nil
  then show ?case by (auto simp: thread_moves_def)
next
  case (Cons c cs)
  obtain im1 where im1: "put_frame f c im = Inr im1" "foldM (put_frame f) cs im1 = Inr im'"
    using Cons.prems(1) by (auto simp: rbind_eq_Inr)
  obtain h1 where h1: "poke p 0 im1 h = Inr h1" "block h1 = (block h)(p \<mapsto> [im1])"
    using hp.wr_live [OF Cons.prems(2), of 0 im1] by auto
  have "thread_step u d k (Some f) (h, Copy p f (c # cs)) = (h1, Copy p f cs)"
    using Cons.prems(2) im1(1) h1(1) by (simp add: put_shared_def hp.rd_live)
  moreover have "block h1 p = Some [im1]" using h1(2) by simp
  from Cons.IH [OF im1(2) this] obtain h' where
    "thread_moves u d k f (length cs) (h1, Copy p f cs) = (h', Copy p f [])" "block h' = (block h)(p \<mapsto> [im'])"
    by (metis fun_upd_upd h1(2))
  ultimately show ?case
    by (auto simp: thread_moves_def funpow_Suc_right fun_eq_iff simp del: funpow.simps)
qed

text \<open>The bytes of a pixel of a frame, which come in the order blue, green, red.\<close>

definition frame_byte :: "ipl_image \<Rightarrow> int \<Rightarrow> int \<Rightarrow> int \<Rightarrow> byte" where
  "frame_byte f x y n = imageData f ! nat (y * widthStep f + 3 * x + n)"

definition frame_pixel :: "ipl_image \<Rightarrow> int \<Rightarrow> int \<Rightarrow> pixel" where
  "frame_pixel f x y = PixelRGB (frame_byte f x y 2) (frame_byte f x y 1) (frame_byte f x y 0)"

lemma put_frame_pixel:
  assumes "frame_ok u f" "usable u f" "0 \<le> x" "x < iwidth f" "0 \<le> y" "y < iheight f"
  shows "put_frame f (x, y) im = Put x y (frame_pixel f x y) im"
proof -
  have byte: "rdbuf (imageData f) (x * 3 + k + y * widthStep f) = Inr (frame_byte f x y k)" if "0 \<le> k" "k < 3" for k
    using frame_index [OF assms(3-6) _ _ that, of "widthStep f" "int (length (imageData f))"] assms(1,2)
    by (auto simp: frame_ok_def frame_byte_def algebra_simps)
  show ?thesis using byte [of 2] byte [of 1] byte [of 0] by (simp add: put_frame_def frame_pixel_def)
qed

lemma getCvImage_cells:
  assumes "frame_ok u f" "usable u f" "wf_img im" "iwidth f \<le> width im" "iheight f \<le> height im"
  shows "\<exists>im'. getCvImage u f im = Inr im' \<and> shape_of im' = shape_of im \<and>
    (\<forall>x y. inside im x y \<longrightarrow> cell im' (x, y) =
       (if x < iwidth f \<and> y < iheight f then frame_pixel f x y else cell im (x, y)))"
proof -
  have inn: "inside im x y" if "(x, y) \<in> set (raster (iwidth f) (iheight f))" for x y
    using that assms(4,5) by (auto simp: set_raster inside_def)
  have "\<exists>t. foldM (put_frame f) (raster (iwidth f) (iheight f)) im = Inr t \<and> shape_of t = shape_of im \<and>
    (\<forall>c. ok_shape (shape_of im) c \<longrightarrow> cell t c =
      (if c \<in> set (raster (iwidth f) (iheight f)) then (case c of (x, y) \<Rightarrow> frame_pixel f x y) else cell im c))"
  proof (rule bi.sweep [OF distinct_raster])
    show "ok_shape (shape_of im) c" if "c \<in> set (raster (iwidth f) (iheight f))" for c
    proof -
      obtain x y where c: "c = (x, y)" by (cases c)
      then show ?thesis using inn that assms(3) by (simp add: ok_shape_inside)
    qed
    show "put_frame f c t = Inr (set_cell t c (case c of (x, y) \<Rightarrow> frame_pixel f x y))"
      if "c \<in> set (raster (iwidth f) (iheight f))" "shape_of t = shape_of im" for c t
    proof -
      obtain x y where c: "c = (x, y)" by (cases c)
      have "inside t x y" using inn that(1) by (simp add: c inside_shape [OF that(2)])
      moreover have "wf_img t" by (rule wf_shape [OF that(2) assms(3)])
      ultimately show ?thesis
        using that(1) put_frame_pixel [OF assms(1,2), of x y t] by (simp add: c set_raster Put_in)
    qed
  qed
  then obtain t where t: "foldM (put_frame f) (raster (iwidth f) (iheight f)) im = Inr t \<and> shape_of t = shape_of im \<and>
    (\<forall>c. ok_shape (shape_of im) c \<longrightarrow> cell t c =
      (if c \<in> set (raster (iwidth f) (iheight f)) then (case c of (x, y) \<Rightarrow> frame_pixel f x y) else cell im c))"
    by (rule exE)
  have "cell t (x, y) = (if x < iwidth f \<and> y < iheight f then frame_pixel f x y else cell im (x, y))"
    if "inside im x y" for x y
    using t [THEN conjunct2, THEN conjunct2, rule_format, of "(x, y)"] that assms(3)
    by (simp add: ok_shape_inside set_raster inside_def)
  then show ?thesis using t assms(2) by (intro exI [of _ t]) (simp add: getCvImage_def)
qed

text \<open>
  C24: What one round puts into the image. A thread that finds \<open>status\<close> set and a capture that
  is open, and gets a frame of eight bits and three channels with the bytes its header says and
  no larger than the image, is back at its test after five steps and one for each pixel. When
  nobody else has moved in between, the image has its old size and pixel \<open>(x, y)\<close> of the frame is
  in cell \<open>(x, y)\<close>: its red is the third, its green the second and its blue the first of the
  three bytes at \<open>3 * x\<close> in row \<open>y\<close> of the frame's data. Cells the frame does not reach and every
  other image are as they were.
\<close>

theorem capture_round_copies:
  assumes "status d" and "cimage d = Some p" and "capture d = Some c" and "c \<noteq> NULL" and "block k c \<noteq> None"
    and "usable u f" and "frame_ok u f" and "block h p = Some [im]" and "wf_img im"
    and "iwidth f \<le> width im" and "iheight f \<le> height im"
  shows "\<exists>h' im'. thread_moves u d k f (length (raster (iwidth f) (iheight f)) + 5) (h, Test) = (h', Test) \<and>
    block h' = (block h)(p \<mapsto> [im']) \<and> width im' = width im \<and> height im' = height im \<and> wf_img im' \<and>
    (\<forall>x y. inside im x y \<longrightarrow> cell im' (x, y) =
       (if x < iwidth f \<and> y < iheight f
        then PixelRGB (imageData f ! nat (y * widthStep f + 3 * x + 2))
          (imageData f ! nat (y * widthStep f + 3 * x + 1)) (imageData f ! nat (y * widthStep f + 3 * x))
        else cell im (x, y)))"
proof -
  let ?cs = "raster (iwidth f) (iheight f)"
  obtain im' where im': "getCvImage u f im = Inr im'" "shape_of im' = shape_of im"
    "\<forall>x y. inside im x y \<longrightarrow> cell im' (x, y) = (if x < iwidth f \<and> y < iheight f then frame_pixel f x y else cell im (x, y))"
    using getCvImage_cells [OF assms(7,6,9,10,11)] by blast
  obtain h' where h': "thread_moves u d k f (length ?cs) (h, Copy p f ?cs) = (h', Copy p f [])"
    "block h' = (block h)(p \<mapsto> [im'])"
    using thread_copies [of f ?cs im im' h p u d k] im'(1) assms(6,8) by (auto simp: getCvImage_def)
  obtain v where v: "block k c = Some v" using assms(5) by blast
  have "thread_moves u d k f 4 (h, Test) = (h, Copy p f ?cs)"
    using assms(1-4,6) v by (simp add: thread_moves_def eval_nat_numeral query_def cells_of_def)
  moreover have "thread_moves u d k f (length ?cs + 5) (h, Test) =
      thread_moves u d k f 1 (thread_moves u d k f (length ?cs) (thread_moves u d k f 4 (h, Test)))"
  proof -
    have "length ?cs + 5 = 1 + (length ?cs + 4)" by simp
    then show ?thesis unfolding thread_moves_def by (simp only: funpow_add o_apply)
  qed
  ultimately have "thread_moves u d k f (length ?cs + 5) (h, Test) = (h', Test)" using h' by (simp add: thread_moves_def)
  moreover have "width im' = width im" "height im' = height im" "wf_img im'"
    using im'(2) wf_shape [OF im'(2) assms(9)] by (simp_all add: shape_eq)
  ultimately show ?thesis using h'(2) im'(3) by (auto simp: frame_pixel_def frame_byte_def)
qed

definition small_frame :: ipl_image where
  "small_frame = \<lparr>depth = 8, nChannels = 3, iwidth = 2, iheight = 1, widthStep = 8, imageData = [1, 2, 3, 4, 5, 6, 0, 0]\<rparr>"

theorem capture_round_copies_witness:
  "\<exists>h' im'. thread_moves 8 (Camera\<lparr>cimage := Some 1, capture := Some 1\<rparr>) [Some [()]] small_frame 7
      ([Some [init\<lparr>width := 2, height := 1, mimage := [Pixel0, Pixel0]\<rparr>]], Test) = (h', Test) \<and>
    block h' 1 = Some [im'] \<and> cell im' (1, 0) = PixelRGB 6 5 4"
proof -
  let ?im = "init\<lparr>width := 2, height := 1, mimage := [Pixel0, Pixel0]\<rparr>"
  have "\<exists>h' im'. thread_moves 8 (Camera\<lparr>cimage := Some 1, capture := Some 1\<rparr>) [Some [()]] small_frame
      (length (raster (iwidth small_frame) (iheight small_frame)) + 5) ([Some [?im]], Test) = (h', Test) \<and>
    block h' = (block [Some [?im]])(1 \<mapsto> [im']) \<and> width im' = width ?im \<and> height im' = height ?im \<and> wf_img im' \<and>
    (\<forall>x y. inside ?im x y \<longrightarrow> cell im' (x, y) =
       (if x < iwidth small_frame \<and> y < iheight small_frame
        then PixelRGB (imageData small_frame ! nat (y * widthStep small_frame + 3 * x + 2))
          (imageData small_frame ! nat (y * widthStep small_frame + 3 * x + 1))
          (imageData small_frame ! nat (y * widthStep small_frame + 3 * x))
        else cell ?im (x, y)))"
    by (rule capture_round_copies [of _ 1 1])
      (simp_all add: Camera_def block_def NULL_def usable_def small_frame_def frame_ok_def wf_img_def int32_def)
  then obtain h' im' where r: "thread_moves 8 (Camera\<lparr>cimage := Some 1, capture := Some 1\<rparr>) [Some [()]] small_frame
      (length (raster (iwidth small_frame) (iheight small_frame)) + 5) ([Some [?im]], Test) = (h', Test)"
    "block h' = (block [Some [?im]])(1 \<mapsto> [im'])" "inside ?im 1 0 \<longrightarrow> cell im' (1, 0) = PixelRGB 6 5 4"
    by (fastforce simp: small_frame_def)
  moreover have "length (raster (iwidth small_frame) (iheight small_frame)) + 5 = 7"
    by (simp add: small_frame_def raster_def upto.simps)
  moreover have "inside ?im 1 0" by (simp add: inside_def)
  ultimately show ?thesis by auto
qed

text \<open>A picture asked for after \<open>StopCapture\<close> is read from the deleted image.\<close>

lemma Image_after_stop:
  assumes "cimage (data s) = Some p" "p \<noteq> NULL" "mem_free p (pics s) = Inr h"
  shows "Image (s\<lparr>pics := h\<rparr>) = Inl Freed"
  using hp.released_dead [OF assms(3,2)] assms(1) by (simp add: Image_def)

end
