(* ===== verification/Xml.thy ===== *)
theory Xml
  imports OrderedMap Strings
begin

text \<open>
  The tags and the reader of the base library (\<open>TagClass.cpp\<close>, \<open>XMLClass.cpp\<close>). A tag's
  properties are a \<open>std::map\<close>: an association list kept in the order of the keys, which is
  the order \<open>Create\<close> writes them in.
\<close>

subsection \<open>Tags\<close>

record tag =
  tag_name :: string
  tag_text :: string
  propertys :: "(string \<times> string) list"

definition Tag :: tag where
  "Tag = \<lparr>tag_name = [], tag_text = [], propertys = []\<rparr>"

definition setName :: "tag \<Rightarrow> string \<Rightarrow> tag" where
  "setName t s = t\<lparr>tag_name := s\<rparr>"

definition setProperty :: "tag \<Rightarrow> string \<Rightarrow> string \<Rightarrow> tag" where
  "setProperty t p v = t\<lparr>propertys := map_put p v (propertys t)\<rparr>"

text \<open>\<open>setText\<close> sets the text of a local tag; the object is not changed.\<close>

definition setText :: "tag \<Rightarrow> string \<Rightarrow> tag" where
  "setText t s = (let tag = Tag\<lparr>tag_text := s\<rparr> in t)"

definition getName :: "tag \<Rightarrow> string" where
  "getName t = tag_name t"

text \<open>\<open>operator[]\<close> of the map inserts an empty value for a missing key.\<close>

definition getProperty :: "tag \<Rightarrow> string \<Rightarrow> string \<times> tag" where
  "getProperty t p = (case map_get [] p (propertys t) of (v, m) \<Rightarrow> (v, t\<lparr>propertys := m\<rparr>))"

definition getText :: "tag \<Rightarrow> string" where
  "getText t = tag_text t"

definition clear_tag :: "tag \<Rightarrow> tag" where
  "clear_tag t = t\<lparr>tag_name := [], tag_text := [], propertys := []\<rparr>"

definition isStartTag :: "tag \<Rightarrow> bool" where
  "isStartTag t \<longleftrightarrow> tag_name t \<noteq> []"

definition isEndTag :: "tag \<Rightarrow> bool" where
  "isEndTag t = (case find_char (tag_name t) (CHR ''/'') of
     None \<Rightarrow> False
   | Some index \<Rightarrow> drop index (tag_name t) \<noteq> [])"

definition isText :: "tag \<Rightarrow> bool" where
  "isText t \<longleftrightarrow> \<not> isStartTag t \<and> \<not> isEndTag t \<and> tag_text t \<noteq> []"

definition quote :: char where
  "quote = CHR 0x22"

definition apostrophe :: char where
  "apostrophe = CHR 0x27"

definition put_property :: "string \<times> string \<Rightarrow> string" where
  "put_property p = '' '' @ fst p @ ''='' @ [quote] @ snd p @ [quote]"

definition Create :: "tag \<Rightarrow> string" where
  "Create t = (
     if tag_name t \<noteq> [] then ''<'' @ tag_name t @ concat (map put_property (propertys t)) @ ''>''
     else if tag_text t \<noteq> [] then tag_text t
     else [])"

subsection \<open>Reading the properties of a tag\<close>

text \<open>The value between two quotes \<open>c\<close>: what \<open>result\<close> holds after the quoted branches.\<close>

definition quoted :: "char \<Rightarrow> string list \<Rightarrow> string list" where
  "quoted c result = (let result = FrontSplit (FrontStrip (result ! 1) c) c
     in [result ! 0, FrontStrip (result ! 1) c])"

definition read_value :: "string \<Rightarrow> string list" where
  "read_value source = (let result = FrontSplit source quote in
     if result ! 1 = []
     then (let result = FrontSplit source apostrophe in
       if result ! 1 \<noteq> [] then quoted apostrophe result else result)
     else quoted quote result)"

text \<open>One round of the loop of \<open>setProperty\<close>, and the loop, by fuel; one round more than the
  characters of the source is enough.\<close>

definition prop_round :: "tag \<times> string \<Rightarrow> (tag \<times> string) res" where
  "prop_round st = (case st of (tag, source) \<Rightarrow>
     let result = FrontSplit (FrontStrip source (CHR '' '')) (CHR ''=''); source = result ! 1 in
     rbind (EndStrip (result ! 0) (CHR '' '')) (\<lambda>r0.
       let result = FrontSplit r0 (CHR '' '') in
       if result ! 1 \<noteq> [] then Inr (setProperty tag (result ! 0) [], result ! 1 @ source)
       else if source \<noteq> [] then
         (let val = read_value (FrontStrip (FrontStrip source (CHR ''='')) (CHR '' ''))
          in Inr (setProperty tag (result ! 0) (val ! 0), val ! 1))
       else Inr (setProperty tag (result ! 0) [], source)))"

fun prop_loop :: "nat \<Rightarrow> tag \<Rightarrow> string \<Rightarrow> tag res" where
  "prop_loop 0 tag source = Inl Hang"
| "prop_loop (Suc n) tag source = (if source = [] then Inr tag
     else rbind (prop_round (tag, source)) (\<lambda>st. prop_loop n (fst st) (snd st)))"

definition set_properties :: "tag \<Rightarrow> string \<Rightarrow> tag res" where
  "set_properties tag source = prop_loop (length source + 1) tag source"

definition setTag :: "tag \<Rightarrow> string \<Rightarrow> tag res" where
  "setTag tag source = (let source_list = FrontSplit (FrontStrip source (CHR '' '')) (CHR '' '')
     in set_properties (setName tag (source_list ! 0)) (source_list ! 1))"

text \<open>Two helpers that nothing calls; the split in the first is discarded.\<close>

definition setPropertyName :: "tag \<Rightarrow> string \<Rightarrow> (string \<times> string) res" where
  "setPropertyName tag source = (let result = FrontSplit (FrontStrip source (CHR '' '')) (CHR ''='') in
     rbind (EndStrip (result ! 0) (CHR '' '')) (\<lambda>r0. Inr (r0, result ! 1)))"

definition setPropertyValue :: "tag \<Rightarrow> string \<Rightarrow> string" where
  "setPropertyValue tag source = []"

subsection \<open>Reading a document\<close>

text \<open>The state of the loop of \<open>Create\<close>: the tag being built, the characters since the last
  bracket, and the tags so far.\<close>

type_synonym xml_state = "tag \<times> string \<times> tag list"

definition xml_step :: "char \<Rightarrow> xml_state \<Rightarrow> xml_state res" where
  "xml_step c st = (case st of (tag, data, tag_list) \<Rightarrow>
     if c = CHR ''<'' then
       (if data \<noteq> [] then (let tag = setText tag data
          in Inr (clear_tag tag, [], tag_list @ [tag])) else Inr st)
     else if c = CHR ''>'' then
       (if data \<noteq> [] then rbind (setTag tag data) (\<lambda>tag.
          Inr (clear_tag tag, [], tag_list @ [tag])) else Inr st)
     else Inr (tag, add_char data c, tag_list))"

definition XML_Create :: "string \<Rightarrow> tag list res" where
  "XML_Create source = rbind (Replace source [CHR 0x09] '' '') (\<lambda>source.
     rbind (foldM xml_step (FrontStrip source (CHR '' '')) (Tag, [], [])) (\<lambda>st.
       Inr (snd (snd st))))"

definition XML :: "string \<Rightarrow> tag list res" where
  "XML source = XML_Create source"

definition find_step :: "string \<Rightarrow> tag \<Rightarrow> tag list \<Rightarrow> tag list" where
  "find_step name t found = (if getName t = name then found @ [t] else found)"

definition getElementsByTagName :: "tag list \<Rightarrow> string \<Rightarrow> tag list" where
  "getElementsByTagName tag_list name = fold (find_step name) tag_list []"

lemma getElements_filter: "getElementsByTagName ts name = filter (\<lambda>t. tag_name t = name) ts"
proof -
  have "fold (find_step name) ts found = found @ filter (\<lambda>t. tag_name t = name) ts" for found
    by (induction ts arbitrary: found) (auto simp: find_step_def getName_def)
  then show ?thesis by (simp add: getElementsByTagName_def)
qed

subsection \<open>Every document is read to its end\<close>

lemmas cut_simps = FrontSplit_eq FrontStrip_eq

lemma length_drops [simp]: "length (dropWhile P s) \<le> length s"
  by (induction s) auto

lemma dropWhile_shorter: "s \<noteq> [] \<Longrightarrow> P (hd s) \<Longrightarrow> length (dropWhile P s) < length s"
  by (cases s) (auto simp: le_imp_less_Suc)

lemma length_two_drops: "length (dropWhile P (dropWhile Q s)) \<le> length s"
  by (meson length_drops order_trans)

lemma length_quoted: "length (quoted c result ! 1) \<le> length (result ! 1)"
  by (simp add: quoted_def cut_simps Let_def) (meson length_drops order_trans)

lemma length_read_value: "length (read_value s ! 1) \<le> length s"
  using length_quoted [of quote "FrontSplit s quote"]
    length_quoted [of apostrophe "FrontSplit s apostrophe"]
    length_drops [of "\<lambda>x. x \<noteq> quote" s] length_drops [of "\<lambda>x. x \<noteq> apostrophe" s]
  by (auto simp: read_value_def cut_simps Let_def intro: order_trans simp del: length_drops)

text \<open>A string whose first character is not \<open>c\<close> keeps it when the end is stripped of \<open>c\<close>.\<close>

lemma EndStrip_hd:
  assumes "s \<noteq> []" "hd s \<noteq> c"
  shows "\<exists>t. EndStrip s c = Inr t \<and> t \<noteq> [] \<and> hd t = hd s \<and> length t \<le> length s"
proof -
  obtain x u where s: "s = x # u" "x \<noteq> c" using assms by (cases s) auto
  have "rev (dropWhile (\<lambda>x. x = c) (rev (x # u))) = x # rev (dropWhile (\<lambda>x. x = c) (rev u))"
    using s(2) by (simp add: dropWhile_append3)
  moreover have "length (dropWhile (\<lambda>x. x = c) (rev u)) \<le> length u"
    using length_drops [of _ "rev u"] by simp
  ultimately show ?thesis
    using EndStrip_ok [of s c] s by auto
qed

lemma prop_round_eq:
  assumes "s1 = dropWhile (\<lambda>x. x = CHR '' '') source"
    and "s2 = dropWhile (\<lambda>x. x \<noteq> CHR ''='') s1"
    and "EndStrip (takeWhile (\<lambda>x. x \<noteq> CHR ''='') s1) (CHR '' '') = Inr t"
  shows "prop_round (tag, source) = Inr (
    if dropWhile (\<lambda>x. x \<noteq> CHR '' '') t \<noteq> []
    then (setProperty tag (takeWhile (\<lambda>x. x \<noteq> CHR '' '') t) [], dropWhile (\<lambda>x. x \<noteq> CHR '' '') t @ s2)
    else if s2 \<noteq> []
    then (let val = read_value (dropWhile (\<lambda>x. x = CHR '' '') (dropWhile (\<lambda>x. x = CHR ''='') s2))
      in (setProperty tag (takeWhile (\<lambda>x. x \<noteq> CHR '' '') t) (val ! 0), val ! 1))
    else (setProperty tag (takeWhile (\<lambda>x. x \<noteq> CHR '' '') t) [], s2))"
  unfolding prop_round_def cut_simps Let_def prod.case nth_Cons_0 One_nat_def nth_Cons_Suc
    assms(1) [symmetric] assms(2) [symmetric] assms(3) rbind_Inr
  by (simp del: dropWhile_eq_Nil_conv)

lemma stripped_name:
  assumes "s1 = dropWhile (\<lambda>x. x = CHR '' '') source" "r = takeWhile P s1"
  shows "\<exists>t. EndStrip r (CHR '' '') = Inr t \<and> length t \<le> length r \<and>
    (r \<noteq> [] \<longrightarrow> length (dropWhile (\<lambda>x. x \<noteq> CHR '' '') t) < length r)"
proof (cases "r = []")
  case True
  then show ?thesis by (simp add: EndStrip_def)
next
  case False
  then have "s1 \<noteq> []" "hd r = hd s1" using assms(2) by (cases s1; auto split: if_splits)+
  then have "hd r \<noteq> CHR '' ''"
    using hd_dropWhile [of "\<lambda>x. x = CHR '' ''" source] assms(1) by simp
  with False obtain t where t: "EndStrip r (CHR '' '') = Inr t" "t \<noteq> []" "hd t \<noteq> CHR '' ''"
    "length t \<le> length r"
    using EndStrip_hd [of r "CHR '' ''"] by auto
  moreover from t(2,3) have "length (dropWhile (\<lambda>x. x \<noteq> CHR '' '') t) < length t"
    by (intro dropWhile_shorter) auto
  ultimately show ?thesis by auto
qed

lemma prop_round_total:
  assumes "source \<noteq> []"
  shows "\<exists>t s. prop_round (tag, source) = Inr (t, s) \<and> length s < length source \<and>
    tag_text t = tag_text tag \<and> tag_name t = tag_name tag"
proof -
  define s1 where "s1 = dropWhile (\<lambda>x. x = CHR '' '') source"
  define r where "r = takeWhile (\<lambda>x. x \<noteq> CHR ''='') s1"
  define s2 where "s2 = dropWhile (\<lambda>x. x \<noteq> CHR ''='') s1"
  obtain t where t: "EndStrip r (CHR '' '') = Inr t" "length t \<le> length r"
    "r \<noteq> [] \<longrightarrow> length (dropWhile (\<lambda>x. x \<noteq> CHR '' '') t) < length r"
    using stripped_name [OF s1_def r_def] by blast
  note eq = prop_round_eq [OF s1_def s2_def t(1) [unfolded r_def], of tag]
  have "length s1 \<le> length source" unfolding s1_def by simp
  moreover have "length s1 = length r + length s2"
    unfolding r_def s2_def by (metis length_append takeWhile_dropWhile_id)
  ultimately have len: "length r + length s2 \<le> length source" by simp
  consider "dropWhile (\<lambda>x. x \<noteq> CHR '' '') t \<noteq> []" | "dropWhile (\<lambda>x. x \<noteq> CHR '' '') t = []" "s2 \<noteq> []"
    | "dropWhile (\<lambda>x. x \<noteq> CHR '' '') t = []" "s2 = []" by blast
  then show ?thesis
  proof cases
    case 1
    then have "r \<noteq> []" using t(2) by auto
    with t(3) len have "length (dropWhile (\<lambda>x. x \<noteq> CHR '' '') t @ s2) < length source" by simp
    with 1 eq show ?thesis by (simp add: setProperty_def del: dropWhile_eq_Nil_conv)
  next
    case 2
    define u where "u = dropWhile (\<lambda>x. x = CHR ''='') s2"
    define val where "val = read_value (dropWhile (\<lambda>x. x = CHR '' '') u)"
    have "hd s2 = CHR ''=''"
      using 2(2) hd_dropWhile [of "\<lambda>x. x \<noteq> CHR ''=''" s1] unfolding s2_def by simp
    with 2(2) have "length u < length s2" unfolding u_def by (intro dropWhile_shorter) auto
    moreover have "length (val ! 1) \<le> length u"
      unfolding val_def using length_read_value length_drops by (rule order_trans)
    ultimately have "length (val ! 1) < length source" using len by linarith
    with 2 eq show ?thesis
      by (simp add: setProperty_def Let_def u_def [symmetric] val_def [symmetric] del: dropWhile_eq_Nil_conv)
  next
    case 3
    with eq assms show ?thesis by (simp add: setProperty_def del: dropWhile_eq_Nil_conv)
  qed
qed

lemma prop_loop_total:
  "length source < n \<Longrightarrow> \<exists>t. prop_loop n tag source = Inr t \<and> tag_text t = tag_text tag"
proof (induction n arbitrary: tag source)
  case (Suc n)
  show ?case
  proof (cases "source = []")
    case False
    then obtain t s where r: "prop_round (tag, source) = Inr (t, s)" "length s < length source"
      "tag_text t = tag_text tag"
      using prop_round_total by blast
    from r(2) Suc.prems have "length s < n" by linarith
    from Suc.IH [OF this, of t] r False show ?thesis by simp
  qed simp
qed simp

lemma setTag_total: "\<exists>t. setTag tag source = Inr t \<and> tag_text t = tag_text tag"
proof -
  define sl where "sl = FrontSplit (FrontStrip source (CHR '' '')) (CHR '' '')"
  have "\<exists>t. prop_loop (length (sl ! 1) + 1) (setName tag (sl ! 0)) (sl ! 1) = Inr t \<and>
      tag_text t = tag_text (setName tag (sl ! 0))"
    by (rule prop_loop_total) simp
  then show ?thesis
    by (simp add: setTag_def set_properties_def setName_def Let_def sl_def [symmetric] del: prop_loop.simps)
qed

definition no_text :: "xml_state \<Rightarrow> bool" where
  "no_text st \<longleftrightarrow> tag_text (fst st) = [] \<and> (\<forall>t \<in> set (snd (snd st)). tag_text t = [])"

lemma xml_step_total: "no_text st \<Longrightarrow> \<exists>st'. xml_step c st = Inr st' \<and> no_text st'"
  using setTag_total [of "fst st" "fst (snd st)"]
  by (cases st) (auto simp: no_text_def xml_step_def setText_def clear_tag_def Let_def)

text \<open>The property maps stay in the order of their keys.\<close>

lemma prop_round_keys:
  "prop_round (tag, source) = Inr (t, s) \<Longrightarrow> sorted_keys (propertys tag) \<Longrightarrow> sorted_keys (propertys t)"
  by (cases "EndStrip (FrontSplit (FrontStrip source (CHR '' '')) (CHR ''='') ! 0) (CHR '' '')")
    (auto simp: prop_round_def Let_def setProperty_def sm.ok_put split: if_splits)

lemma prop_loop_keys:
  "prop_loop n tag source = Inr t \<Longrightarrow> sorted_keys (propertys tag) \<Longrightarrow> sorted_keys (propertys t)"
proof (induction n arbitrary: tag source)
  case (Suc n)
  show ?case
  proof (cases "source = []")
    case False
    with Suc.prems(1) obtain t1 s1 where "prop_round (tag, source) = Inr (t1, s1)" "prop_loop n t1 s1 = Inr t"
      by (auto simp: rbind_eq_Inr)
    with prop_round_keys Suc show ?thesis by blast
  qed (use Suc.prems in simp)
qed simp

lemma setTag_keys: "setTag tag source = Inr t \<Longrightarrow> sorted_keys (propertys tag) \<Longrightarrow> sorted_keys (propertys t)"
  unfolding setTag_def set_properties_def Let_def by (drule prop_loop_keys) (simp_all add: setName_def)

definition keys_ok :: "xml_state \<Rightarrow> bool" where
  "keys_ok st \<longleftrightarrow> no_text st \<and> sorted_keys (propertys (fst st)) \<and>
     (\<forall>t \<in> set (snd (snd st)). sorted_keys (propertys t))"

lemma xml_step_keys: "keys_ok st \<Longrightarrow> \<exists>st'. xml_step c st = Inr st' \<and> keys_ok st'"
  using xml_step_total [of st c] setTag_total [of "fst st" "fst (snd st)"] setTag_keys [of "fst st" "fst (snd st)"]
  by (cases st) (auto simp: keys_ok_def xml_step_def setText_def clear_tag_def Let_def)

lemma XML_ok: "\<exists>ts. XML source = Inr ts \<and>
    list_all (\<lambda>t. getText t = [] \<and> \<not> isText t \<and> sorted_keys (propertys t)) ts"
proof -
  obtain s where s: "Replace source [CHR 0x09] '' '' = Inr s"
    by (simp add: Replace_subst)
  have "keys_ok (Tag, [], [])" by (simp add: keys_ok_def no_text_def Tag_def)
  then obtain st where "foldM xml_step (FrontStrip s (CHR '' '')) (Tag, [], []) = Inr st" "keys_ok st"
    using foldM_invariant [of keys_ok "(Tag, [], [])" "FrontStrip s (CHR '' '')" xml_step]
      xml_step_keys by blast
  with s show ?thesis
    by (auto simp: XML_def XML_Create_def getText_def isText_def keys_ok_def no_text_def list_all_iff)
qed

text \<open>C39: reading a document always ends with a list of tags, whatever the document: the
  property loop is never stuck and no strip throws. And none of the tags has a text or is a
  text: what stands between tags is lost, because \<open>setText\<close> sets a local tag.\<close>

theorem XML_total: "\<exists>ts. XML source = Inr ts \<and> list_all (\<lambda>t. getText t = [] \<and> \<not> isText t) ts"
  using XML_ok [of source] by (auto simp: list_all_iff)

subsection \<open>Writing and reading back\<close>

text \<open>A tag that its textual form determines: no brackets or tabs, a name without blanks,
  properties in the order of the map whose names have no blank or equals sign and whose values
  are not empty and have no double quote.\<close>

definition plain :: "string \<Rightarrow> bool" where
  "plain s \<longleftrightarrow> CHR ''<'' \<notin> set s \<and> CHR ''>'' \<notin> set s \<and> CHR 0x09 \<notin> set s"

definition wf_property :: "string \<times> string \<Rightarrow> bool" where
  "wf_property p \<longleftrightarrow> fst p \<noteq> [] \<and> plain (fst p) \<and> CHR '' '' \<notin> set (fst p) \<and> CHR ''='' \<notin> set (fst p) \<and>
     snd p \<noteq> [] \<and> plain (snd p) \<and> quote \<notin> set (snd p)"

definition wf_tag :: "tag \<Rightarrow> bool" where
  "wf_tag t \<longleftrightarrow> tag_name t \<noteq> [] \<and> plain (tag_name t) \<and> CHR '' '' \<notin> set (tag_name t) \<and>
     tag_text t = [] \<and> list_all wf_property (propertys t) \<and> sorted_keys (propertys t)"

text \<open>One round reads one written property.\<close>

lemma dropWhile_eq_append:
  "c \<notin> set s \<Longrightarrow> s \<noteq> [] \<Longrightarrow> dropWhile (\<lambda>x. x = c) (s @ t) = s @ t"
  by (cases s) auto

lemma EndStrip_none:
  assumes "c \<notin> set s"
  shows "EndStrip s c = Inr s"
proof -
  have "dropWhile (\<lambda>x. x = c) (rev s) = rev s"
    using assms dropWhile_eq_append [of c "rev s" "[]"] by (cases "s = []") auto
  moreover have "s = [] \<or> (\<exists>x \<in> set s. x \<noteq> c)" using assms by (cases s) auto
  ultimately show ?thesis using EndStrip_ok [of s c] by simp
qed

lemma rest_starts:
  "dropWhile (\<lambda>x. x = quote) (quote # concat (map put_property ps)) = concat (map put_property ps)"
  by (cases ps) (auto simp: put_property_def quote_def)

lemma read_value_put:
  assumes "v \<noteq> []" "quote \<notin> set v"
  shows "read_value (quote # v @ quote # concat (map put_property ps)) =
    [v, concat (map put_property ps)]"
proof -
  have "dropWhile (\<lambda>x. x = quote) (quote # v @ quote # concat (map put_property ps)) =
      v @ quote # concat (map put_property ps)"
    using assms dropWhile_eq_append [of quote v] by simp
  then show ?thesis
    using assms rest_starts [of ps] by (simp add: read_value_def quoted_def cut_simps Let_def)
qed

lemma prop_round_put:
  assumes "wf_property p"
  shows "prop_round (tag, put_property p @ concat (map put_property ps)) =
    Inr (setProperty tag (fst p) (snd p), concat (map put_property ps))"
proof -
  let ?q = "quote # snd p @ quote # concat (map put_property ps)"
  let ?s1 = "fst p @ CHR ''='' # ?q"
  from assms have p: "fst p \<noteq> []" "CHR '' '' \<notin> set (fst p)" "CHR ''='' \<notin> set (fst p)"
    "snd p \<noteq> []" "quote \<notin> set (snd p)" by (simp_all add: wf_property_def)
  have s1: "?s1 = dropWhile (\<lambda>x. x = CHR '' '') (put_property p @ concat (map put_property ps))"
    using p(1,2) dropWhile_eq_append [of "CHR '' ''" "fst p"] by (simp add: put_property_def)
  have s2: "CHR ''='' # ?q = dropWhile (\<lambda>x. x \<noteq> CHR ''='') ?s1" using p(3) by simp
  have r: "EndStrip (takeWhile (\<lambda>x. x \<noteq> CHR ''='') ?s1) (CHR '' '') = Inr (fst p)"
    using p(2,3) by (simp add: EndStrip_none)
  have "dropWhile (\<lambda>x. x = CHR '' '') (dropWhile (\<lambda>x. x = CHR ''='') (CHR ''='' # ?q)) = ?q"
    by (simp add: quote_def)
  then show ?thesis
    using prop_round_eq [OF s1 s2 r, of tag] p read_value_put [OF p(4,5), of ps] by simp
qed

lemma prop_loop_put:
  "list_all wf_property ps \<Longrightarrow> sorted_keys (propertys tag @ ps) \<Longrightarrow> length ps < n \<Longrightarrow>
    prop_loop n tag (concat (map put_property ps)) = Inr (tag\<lparr>propertys := propertys tag @ ps\<rparr>)"
proof (induction ps arbitrary: n tag)
  case Nil
  then show ?case by (cases n) auto
next
  case (Cons p ps)
  then obtain m where n: "n = Suc m" "length ps < m" by (cases n) auto
  have ins: "map_put (fst p) (snd p) (propertys tag) = propertys tag @ [p]"
    using map_put_snoc [of "propertys tag" "fst p" "snd p"] sorted_keys_mid [OF Cons.prems(2)] by simp
  have ne: "put_property p \<noteq> []" by (simp add: put_property_def)
  have "prop_loop n tag (concat (map put_property (p # ps))) =
      prop_loop m (setProperty tag (fst p) (snd p)) (concat (map put_property ps))"
    using ne prop_round_put [of p tag ps] Cons.prems(1) n(1) by simp
  also have "setProperty tag (fst p) (snd p) = tag\<lparr>propertys := propertys tag @ [p]\<rparr>"
    by (simp add: setProperty_def ins)
  also have "prop_loop m \<dots> (concat (map put_property ps)) = Inr (tag\<lparr>propertys := propertys tag @ p # ps\<rparr>)"
    using Cons.IH [of "tag\<lparr>propertys := propertys tag @ [p]\<rparr>" m] Cons.prems n(2) by simp
  finally show ?case .
qed

lemma put_property_length: "length ps \<le> length (concat (map put_property ps))"
  by (induction ps) (auto simp: put_property_def)

lemma subst_absent: "c \<notin> set s \<Longrightarrow> subst_str [c] to s = s"
  by (induction s) auto

lemma foldM_plain:
  "\<forall>c \<in> set s. c \<noteq> CHR ''<'' \<and> c \<noteq> CHR ''>'' \<Longrightarrow>
    foldM xml_step s (tag, data, l) = Inr (tag, data @ s, l)"
  by (induction s arbitrary: data) (auto simp: xml_step_def)

lemma plain_put_property: "wf_property p \<Longrightarrow> plain (put_property p)"
  by (auto simp: wf_property_def plain_def put_property_def quote_def)

lemma plain_body: "list_all wf_property ps \<Longrightarrow> plain (concat (map put_property ps))"
proof (induction ps)
  case (Cons p ps)
  then have "plain (put_property p)" "plain (concat (map put_property ps))"
    by (simp_all add: plain_put_property)
  then show ?case by (simp add: plain_def)
qed (simp add: plain_def)

lemma split_name:
  assumes "CHR '' '' \<notin> set s"
  shows "takeWhile (\<lambda>x. x \<noteq> CHR '' '') (s @ concat (map put_property ps)) = s"
    and "dropWhile (\<lambda>x. x \<noteq> CHR '' '') (s @ concat (map put_property ps)) = concat (map put_property ps)"
  using assms by (cases ps; simp add: put_property_def)+

lemma setTag_body:
  assumes "wf_tag t"
  shows "setTag Tag (tag_name t @ concat (map put_property (propertys t))) = Inr t"
proof -
  let ?b = "concat (map put_property (propertys t))"
  from assms have t: "tag_name t \<noteq> []" "CHR '' '' \<notin> set (tag_name t)" "tag_text t = []"
    "list_all wf_property (propertys t)" "sorted_keys (propertys t)"
    by (simp_all add: wf_tag_def)
  have "dropWhile (\<lambda>x. x = CHR '' '') (tag_name t @ ?b) = tag_name t @ ?b"
    using t(1,2) by (rule dropWhile_eq_append [rotated])
  then have "setTag Tag (tag_name t @ ?b) =
      prop_loop (length ?b + 1) (setName Tag (tag_name t)) ?b"
    using split_name [OF t(2), of "propertys t"]
    by (simp add: setTag_def set_properties_def cut_simps Let_def del: prop_loop.simps)
  also have "\<dots> = Inr (setName Tag (tag_name t)\<lparr>propertys := propertys (setName Tag (tag_name t)) @ propertys t\<rparr>)"
    using t put_property_length [of "propertys t"]
    by (intro prop_loop_put) (simp_all add: setName_def Tag_def)
  also have "\<dots> = Inr t"
    using t(3) by (cases t) (simp add: setName_def Tag_def)
  finally show ?thesis .
qed

lemma XML_tag:
  assumes "wf_tag t"
  shows "XML (Create t) = Inr [t]"
proof -
  define b where "b = tag_name t @ concat (map put_property (propertys t))"
  have b: "plain b" "b \<noteq> []"
    using assms plain_body [of "propertys t"] by (auto simp: b_def wf_tag_def plain_def)
  have c: "Create t = CHR ''<'' # b @ [CHR ''>'']"
    using assms by (simp add: Create_def wf_tag_def b_def)
  have "Replace (Create t) [CHR 0x09] '' '' = Inr (Create t)"
    using b(1) subst_absent [of "CHR 0x09" "Create t" "'' ''"]
    unfolding c by (simp add: Replace_subst plain_def)
  moreover have "foldM xml_step b (Tag, [], []) = Inr (Tag, b, [])"
    using foldM_plain [of b Tag "[]" "[]"] b(1) by (auto simp: plain_def)
  ultimately show ?thesis
    using b(2) setTag_body [OF assms]
    by (simp add: XML_def XML_Create_def c FrontStrip_eq foldM_append xml_step_def Let_def
        b_def [symmetric])
qed

text \<open>C8: what \<open>Create\<close> writes for a well-formed tag, the reader reads back as that one tag,
  with its name and all its properties in order.\<close>

theorem tag_roundtrip:
  assumes "wf_tag t"
  shows "XML (Create t) = Inr [t]"
  using assms by (rule XML_tag)

definition sample_tag :: tag where
  "sample_tag = \<lparr>tag_name = ''a'', tag_text = [],
     propertys = [(''href'', ''/index.html''), (''title'', ''a = b'')]\<rparr>"

theorem tag_roundtrip_witness: "XML (Create sample_tag) = Inr [sample_tag]"
  by (rule tag_roundtrip)
    (simp add: sample_tag_def wf_tag_def wf_property_def plain_def quote_def)

subsection \<open>Whole documents\<close>

text \<open>A piece of a document: text, then a tag with its properties in any order, names repeated or
  not. It is read as an empty tag for the text, when there is any, and the tag, whose properties
  are in the order of their names, each with the last value the piece gives it.\<close>

type_synonym piece = "string \<times> string \<times> (string \<times> string) list"

definition wf_piece :: "piece \<Rightarrow> bool" where
  "wf_piece = (\<lambda>(tx, nm, ps). plain tx \<and> nm \<noteq> [] \<and> plain nm \<and> CHR '' '' \<notin> set nm \<and> list_all wf_property ps)"

definition put_piece :: "piece \<Rightarrow> string" where
  "put_piece = (\<lambda>(tx, nm, ps). tx @ ''<'' @ nm @ concat (map put_property ps) @ ''>'')"

definition read_piece :: "piece \<Rightarrow> tag list" where
  "read_piece = (\<lambda>(tx, nm, ps). (if tx = [] then [] else [Tag]) @
     [\<lparr>tag_name = nm, tag_text = [], propertys = fold (\<lambda>p. map_put (fst p) (snd p)) ps []\<rparr>])"

definition last_values :: "(string \<times> string) list \<Rightarrow> (string \<times> string) list \<Rightarrow> bool" where
  "last_values ps m \<longleftrightarrow> sorted_keys m \<and> map_of m = map_of (rev ps)"

lemma fold_map_put:
  "sorted_keys m \<Longrightarrow> sorted_keys (fold (\<lambda>p. map_put (fst p) (snd p)) ps m) \<and>
    map_of (fold (\<lambda>p. map_put (fst p) (snd p)) ps m) = map_of m ++ map_of (rev ps)"
proof (induction ps arbitrary: m)
  case (Cons p ps)
  have "map_of (map_put (fst p) (snd p) m) = (map_of m)(fst p \<mapsto> snd p)"
    using map_of_map_put [OF Cons.prems] by auto
  then show ?case
    using Cons.IH [OF sorted_map_put [OF Cons.prems, of "fst p" "snd p"]]
    by (cases p) (auto simp: fun_eq_iff map_add_def split: option.split)
qed simp

lemma prop_loop_puts:
  "list_all wf_property ps \<Longrightarrow> length ps < n \<Longrightarrow>
    prop_loop n tag (concat (map put_property ps)) =
      Inr (tag\<lparr>propertys := fold (\<lambda>p. map_put (fst p) (snd p)) ps (propertys tag)\<rparr>)"
proof (induction ps arbitrary: n tag)
  case Nil
  then show ?case by (cases n) auto
next
  case (Cons p ps)
  then obtain m where n: "n = Suc m" "length ps < m" by (cases n) auto
  have "prop_loop n tag (concat (map put_property (p # ps))) =
      prop_loop m (setProperty tag (fst p) (snd p)) (concat (map put_property ps))"
    using prop_round_put [of p tag ps] Cons.prems(1) n(1) by (simp add: put_property_def)
  then show ?case
    using Cons.IH [of m "setProperty tag (fst p) (snd p)"] Cons.prems n(2) by (simp add: setProperty_def)
qed

lemma setTag_piece:
  assumes "wf_piece (tx, nm, ps)"
  shows "setTag Tag (nm @ concat (map put_property ps)) =
    Inr \<lparr>tag_name = nm, tag_text = [], propertys = fold (\<lambda>p. map_put (fst p) (snd p)) ps []\<rparr>"
proof -
  let ?b = "concat (map put_property ps)"
  from assms have t: "nm \<noteq> []" "CHR '' '' \<notin> set nm" "list_all wf_property ps" by (simp_all add: wf_piece_def)
  have "dropWhile (\<lambda>x. x = CHR '' '') (nm @ ?b) = nm @ ?b"
    using t(1,2) by (rule dropWhile_eq_append [rotated])
  then have "setTag Tag (nm @ ?b) = prop_loop (length ?b + 1) (setName Tag nm) ?b"
    using split_name [OF t(2), of ps]
    by (simp add: setTag_def set_properties_def cut_simps Let_def del: prop_loop.simps)
  also have "\<dots> = Inr (setName Tag nm\<lparr>propertys := fold (\<lambda>p. map_put (fst p) (snd p)) ps (propertys (setName Tag nm))\<rparr>)"
    using t(3) put_property_length [of ps] by (intro prop_loop_puts) simp_all
  finally show ?thesis by (simp add: setName_def Tag_def)
qed

lemma foldM_piece:
  assumes "wf_piece d"
  shows "foldM xml_step (put_piece d) (Tag, [], l) = Inr (Tag, [], l @ read_piece d)"
proof -
  obtain tx nm ps where d: "d = (tx, nm, ps)" by (cases d) auto
  let ?b = "nm @ concat (map put_property ps)"
  have plains: "plain tx" "plain ?b" "?b \<noteq> []"
    using assms plain_body [of ps] by (auto simp: d wf_piece_def plain_def)
  have front: "foldM xml_step tx (Tag, [], l) = Inr (Tag, tx, l)"
    using foldM_plain [of tx Tag "[]" l] plains(1) by (auto simp: plain_def)
  have body: "foldM xml_step ?b (Tag, [], l') = Inr (Tag, ?b, l')" for l'
    using foldM_plain [of ?b Tag "[]" l'] plains(2) by (auto simp: plain_def)
  have clear: "clear_tag t = Tag" for t by (simp add: clear_tag_def Tag_def)
  have "foldM xml_step (''<'' @ ?b @ ''>'') (Tag, tx, l) = Inr (Tag, [], l @ read_piece d)"
    using plains(3) body setTag_piece [OF assms [unfolded d]]
    by (simp add: xml_step_def Let_def setText_def clear foldM_append d read_piece_def del: append_assoc)
  then show ?thesis
    by (simp add: d put_piece_def foldM_append [of _ tx] front)
qed

lemma foldM_pieces:
  "list_all wf_piece ds \<Longrightarrow>
    foldM xml_step (concat (map put_piece ds)) (Tag, [], l) = Inr (Tag, [], l @ concat (map read_piece ds))"
  by (induction ds arbitrary: l) (simp_all add: foldM_append foldM_piece)

text \<open>C40: a document of any number of tags is read tag by tag. Each tag has a name without blanks and
  properties whose names have no blank or equals sign and whose values are not empty and have
  no double quote, written as \<open>Create\<close> writes them but in any order, and a name may be repeated;
  between the tags and after the last stands any text; nowhere are further brackets or tabs, and
  the document does not begin with a blank. The list of the reader has, for each tag, an empty
  tag when there is text before it, and then the tag with its name, its properties in the order
  of their names, each name once with the last value the document gives it. What stands after the
  last tag is dropped.\<close>

theorem XML_document:
  assumes "list_all wf_piece ds" "plain rest" "take 1 (concat (map put_piece ds) @ rest) \<noteq> '' ''"
  shows "\<exists>tss. XML (concat (map put_piece ds) @ rest) = Inr (concat tss) \<and>
    list_all2 (\<lambda>(tx, nm, ps) ts. \<exists>t. ts = (if tx = [] then [] else [Tag]) @ [t] \<and>
      tag_name t = nm \<and> tag_text t = [] \<and> last_values ps (propertys t)) ds tss"
proof -
  let ?doc = "concat (map put_piece ds) @ rest"
  have "CHR 0x09 \<notin> set (put_piece d)" if "wf_piece d" for d
    using that plain_body by (auto simp: wf_piece_def put_piece_def plain_def split: prod.splits)
  then have "CHR 0x09 \<notin> set ?doc" using assms(1,2) by (auto simp: list_all_iff plain_def)
  then have tabs: "Replace ?doc [CHR 0x09] '' '' = Inr ?doc"
    using subst_absent [of "CHR 0x09" ?doc "'' ''"] by (simp add: Replace_subst)
  have strip: "FrontStrip ?doc (CHR '' '') = ?doc"
  proof -
    have "take 1 s \<noteq> '' '' \<Longrightarrow> dropWhile (\<lambda>x. x = CHR '' '') s = s" for s by (cases s) auto
    from this [OF assms(3)] show ?thesis by (simp only: FrontStrip_eq)
  qed
  have "foldM xml_step ?doc (Tag, [], []) = Inr (Tag, rest, concat (map read_piece ds))"
    using foldM_pieces [OF assms(1), of "[]"] foldM_plain [of rest Tag "[]"] assms(2)
    by (auto simp: foldM_append plain_def)
  then have "XML ?doc = Inr (concat (map read_piece ds))"
    by (simp add: XML_def XML_Create_def tabs strip)
  moreover have "list_all2 (\<lambda>(tx, nm, ps) ts. \<exists>t. ts = (if tx = [] then [] else [Tag]) @ [t] \<and>
      tag_name t = nm \<and> tag_text t = [] \<and> last_values ps (propertys t)) ds (map read_piece ds)"
    using fold_map_put [of "[]"]
    by (auto simp: list_all2_conv_all_nth read_piece_def last_values_def split: prod.splits)
  ultimately show ?thesis by blast
qed

text \<open>The document \<open>a<p y="1" x="2" y="3">b<q>c\<close>.\<close>

theorem XML_document_witness:
  "\<exists>t u. XML (''a<p y='' @ [quote] @ ''1'' @ [quote] @ '' x='' @ [quote] @ ''2'' @ [quote] @
      '' y='' @ [quote] @ ''3'' @ [quote] @ ''>b<q>c'') = Inr [Tag, t, Tag, u] \<and>
    tag_name t = ''p'' \<and> map_of (propertys t) ''y'' = Some ''3'' \<and> tag_name u = ''q''"
proof -
  let ?ds = "[(''a'', ''p'', [(''y'', ''1''), (''x'', ''2''), (''y'', ''3'')]), (''b'', ''q'', [])]"
  have "list_all wf_piece ?ds" by (simp add: wf_piece_def wf_property_def plain_def quote_def)
  moreover have "plain ''c''" by (simp add: plain_def)
  moreover have "concat (map put_piece ?ds) @ ''c'' = ''a<p y='' @ [quote] @ ''1'' @ [quote] @ '' x='' @ [quote] @
      ''2'' @ [quote] @ '' y='' @ [quote] @ ''3'' @ [quote] @ ''>b<q>c''"
    by (simp add: put_piece_def put_property_def)
  ultimately show ?thesis
    using XML_document [of ?ds "''c''"] by (auto simp: list_all2_Cons1 last_values_def)
qed

text \<open>Outside that form properties are misread: an empty value swallows the text up to the
  next quote, a single-quoted value followed by a double-quoted one takes the latter's value,
  and a blank before the closing bracket adds a property with an empty name.\<close>

theorem property_misread:
  "set_properties Tag ('' x='' @ [quote, quote] @ '' y='' @ [quote] @ ''1'' @ [quote]) =
     Inr (Tag\<lparr>propertys := [(''1'' @ [quote], []), (''x'', '' y='')]\<rparr>) \<and>
   set_properties Tag ('' x='' @ [apostrophe] @ ''1'' @ [apostrophe] @ '' y='' @ [quote] @ ''2'' @ [quote]) =
     Inr (Tag\<lparr>propertys := [(''x'', ''2'')]\<rparr>) \<and>
   set_properties Tag '' '' = Inr (Tag\<lparr>propertys := [([], [])]\<rparr>)"
  by (simp add: set_properties_def prop_round_def cut_simps read_value_def quoted_def Let_def
      quote_def apostrophe_def EndStrip_def setProperty_def Tag_def)

end
