(* ===== verification/Clusters.thy ===== *)
theory Clusters
  imports MathClass Xml
begin

text \<open>
  The clustering program: the classifiers (\<open>ClassifierClass.cpp\<close>, \<open>KMeansClassifierClass.cpp\<close>,
  \<open>fuzzyCMeansClassifierClass.cpp\<close>), the queue of patterns (\<open>PatternRepository.cpp\<close>), the
  clusters in the database (\<open>ClusterRepository.cpp\<close>, \<open>SQLite.cpp\<close>) and the learning step
  (\<open>Testament.cpp\<close>). Parameters: \<open>pow\<close> of the C library, the random numbers \<open>rnd\<close> that follow
  a call of \<open>srand\<close>, and the calls of sqlite3. A pattern is a ublas vector of doubles; its
  arithmetic is component-wise on vectors of one size.
\<close>

subsection \<open>Patterns\<close>

type_synonym pattern = "cfloat list"

definition vec_add :: "pattern \<Rightarrow> pattern \<Rightarrow> pattern res" where
  "vec_add p q = (if length p = length q then Inr (map2 (fp_add F64) p q) else Inl OutOfBounds)"

definition vec_scale :: "cfloat \<Rightarrow> pattern \<Rightarrow> pattern" where
  "vec_scale a p = map (fp_mul F64 a) p"

definition vec_div :: "pattern \<Rightarrow> cfloat \<Rightarrow> pattern" where
  "vec_div p a = map (\<lambda>x. fp_div F64 x a) p"

subsection \<open>The classifier\<close>

record setting =
  cluster_size :: int
  dimension_num :: int
  learn_num :: int
  data_min :: cfloat
  data_max :: cfloat

text \<open>One random component: \<open>data_min + rand() % (int)(data_max - data_min) + (double)rand() / RAND_MAX\<close>.\<close>

definition RAND_MAX :: int where
  "RAND_MAX = 32767"

definition random_entry :: "(nat \<Rightarrow> int) \<Rightarrow> setting \<Rightarrow> nat \<Rightarrow> cfloat res" where
  "random_entry rnd st j =
     rbind (cmod (rnd (2 * j)) (fp_to_int (fp_sub F64 (data_max st) (data_min st)))) (\<lambda>m.
       Inr (fp_add F64 (fp_add F64 (data_min st) (fp_of_int F64 m))
         (fp_div F64 (fp_of_int F64 (rnd (2 * j + 1))) (fp_of_int F64 RAND_MAX))))"

text \<open>\<open>initialize\<close>: the centres of all clusters from fresh random numbers.\<close>

definition initialize_middle :: "(nat \<Rightarrow> int) \<Rightarrow> setting \<Rightarrow> pattern list res" where
  "initialize_middle rnd st = mapM (\<lambda>i. mapM (\<lambda>d. random_entry rnd st (i * nat (dimension_num st) + d))
     [0..<nat (dimension_num st)]) [0..<nat (cluster_size st)]"

definition dist_step :: "(cfloat \<Rightarrow> cfloat \<Rightarrow> cfloat) \<Rightarrow> pattern \<Rightarrow> pattern \<Rightarrow> cfloat \<Rightarrow> int \<Rightarrow> cfloat \<Rightarrow> cfloat res" where
  "dist_step pow p1 p2 ex i r = rbind (rdbuf p1 i) (\<lambda>a. rbind (rdbuf p2 i) (\<lambda>b.
     Inr (fp_add F64 r (pow (fp_sub F64 a b) ex))))"

definition getDistance :: "(cfloat \<Rightarrow> cfloat \<Rightarrow> cfloat) \<Rightarrow> setting \<Rightarrow> pattern \<Rightarrow> pattern \<Rightarrow> cfloat \<Rightarrow> cfloat res" where
  "getDistance pow st p1 p2 ex = foldM (dist_step pow p1 p2 ex) [0..dimension_num st - 1] (Fin 0)"

definition getMiddle :: "pattern list \<Rightarrow> int \<Rightarrow> pattern res" where
  "getMiddle middle num = rdbuf middle num"

text \<open>The virtual membership and weight are arguments: \<open>mem middle i p\<close> and \<open>weight p\<close>.\<close>

definition learn_pattern :: "(pattern list \<Rightarrow> int \<Rightarrow> pattern \<Rightarrow> cfloat res) \<Rightarrow> (pattern \<Rightarrow> cfloat) \<Rightarrow>
    pattern list \<Rightarrow> int \<Rightarrow> pattern \<Rightarrow> pattern \<times> cfloat \<Rightarrow> (pattern \<times> cfloat) res" where
  "learn_pattern mem weight middle i p acc =
     rbind (mem middle i p) (\<lambda>m. let mw = fp_mul F64 m (weight p) in
     rbind (vec_add (fst acc) (vec_scale mw p)) (\<lambda>rp. Inr (rp, fp_add F64 (snd acc) mw)))"

definition learn_cluster :: "(pattern list \<Rightarrow> int \<Rightarrow> pattern \<Rightarrow> cfloat res) \<Rightarrow> (pattern \<Rightarrow> cfloat) \<Rightarrow>
    setting \<Rightarrow> pattern list \<Rightarrow> int \<Rightarrow> pattern list \<Rightarrow> pattern list res" where
  "learn_cluster mem weight st ps i middle =
     rbind (foldM (learn_pattern mem weight middle i) ps (replicate (nat (dimension_num st)) (Fin 0), Fin 0)) (\<lambda>acc.
     if \<not> fp_eq (snd acc) (Fin 0) then wrbuf middle i (vec_div (fst acc) (snd acc)) else Inr middle)"

definition learn_round :: "(pattern list \<Rightarrow> int \<Rightarrow> pattern \<Rightarrow> cfloat res) \<Rightarrow> (pattern \<Rightarrow> cfloat) \<Rightarrow>
    setting \<Rightarrow> pattern list \<Rightarrow> int \<Rightarrow> pattern list \<Rightarrow> pattern list res" where
  "learn_round mem weight st ps count middle =
     foldM (learn_cluster mem weight st ps) [0..cluster_size st - 1] middle"

text \<open>\<open>classify\<close> starts from fresh random centres on every call.\<close>

definition classify :: "(nat \<Rightarrow> int) \<Rightarrow> (pattern list \<Rightarrow> int \<Rightarrow> pattern \<Rightarrow> cfloat res) \<Rightarrow>
    (pattern \<Rightarrow> cfloat) \<Rightarrow> setting \<Rightarrow> pattern list \<Rightarrow> pattern list res" where
  "classify rnd mem weight st ps = rbind (initialize_middle rnd st) (\<lambda>middle.
     foldM (learn_round mem weight st ps) [0..learn_num st - 1] middle)"

subsection \<open>K-means\<close>

definition DBL_MAX :: rat where
  "DBL_MAX = (2 - 2 powi (-52)) * 2 powi 1023"

definition two :: cfloat where
  "two = Fin 2"

definition min_step :: "(cfloat \<Rightarrow> cfloat \<Rightarrow> cfloat) \<Rightarrow> setting \<Rightarrow> pattern list \<Rightarrow> pattern \<Rightarrow> int \<Rightarrow> cfloat \<Rightarrow> cfloat res" where
  "min_step pow st middle p i mn = rbind (getMiddle middle i) (\<lambda>c.
     rbind (getDistance pow st p c two) (\<lambda>dis. Inr (if fp_lt dis mn then dis else mn)))"

definition kmeans_membership :: "(cfloat \<Rightarrow> cfloat \<Rightarrow> cfloat) \<Rightarrow> setting \<Rightarrow> pattern list \<Rightarrow> int \<Rightarrow> pattern \<Rightarrow> cfloat res" where
  "kmeans_membership pow st middle num p =
     rbind (foldM (min_step pow st middle p) [0..cluster_size st - 1] (Fin DBL_MAX)) (\<lambda>mn.
     rbind (getMiddle middle num) (\<lambda>c. rbind (getDistance pow st p c two) (\<lambda>dis.
       Inr (if fp_eq dis mn then Fin 1 else Fin 0))))"

definition kmeans_weight :: "pattern \<Rightarrow> cfloat" where
  "kmeans_weight p = Fin 1"

text \<open>The objective; the inner sum is never reset between patterns.\<close>

definition kmeans_objective :: "(cfloat \<Rightarrow> cfloat \<Rightarrow> cfloat) \<Rightarrow> setting \<Rightarrow> pattern list \<Rightarrow> pattern list \<Rightarrow> cfloat res" where
  "kmeans_objective pow st middle ps =
     rbind (foldM (\<lambda>p (j, r).
       rbind (foldM (\<lambda>i j. rbind (getMiddle middle i) (\<lambda>c. rbind (getDistance pow st p c two) (\<lambda>d.
         Inr (fp_add F64 j d)))) [0..cluster_size st - 1] j) (\<lambda>j. Inr (j, fp_add F64 r j)))
       ps (Fin 0, Fin 0)) (\<lambda>(j, r). Inr r)"

subsection \<open>Fuzzy c-means\<close>

text \<open>The member \<open>fuzzy\<close> is an int that no constructor sets: \<open>None\<close> until something does.\<close>

definition fuzzy_power :: "int option \<Rightarrow> cfloat res" where
  "fuzzy_power fuzzy = (case fuzzy of None \<Rightarrow> Inl Uninit
     | Some f \<Rightarrow> rbind (cdiv (-2) (s32 (f - 1))) (\<lambda>n. Inr (fp_of_int F64 n)))"

definition fuzzy_membership :: "(cfloat \<Rightarrow> cfloat \<Rightarrow> cfloat) \<Rightarrow> int option \<Rightarrow> setting \<Rightarrow> pattern list \<Rightarrow> int \<Rightarrow> pattern \<Rightarrow> cfloat res" where
  "fuzzy_membership pow fuzzy st middle num p =
     rbind (getMiddle middle num) (\<lambda>c. rbind (fuzzy_power fuzzy) (\<lambda>e.
     rbind (getDistance pow st p c e) (\<lambda>dis.
     rbind (foldM (\<lambda>i r. rbind (getMiddle middle i) (\<lambda>c. rbind (fuzzy_power fuzzy) (\<lambda>e.
         rbind (getDistance pow st p c e) (\<lambda>d. Inr (fp_add F64 r d)))))
       [0..cluster_size st - 1] (Fin 0)) (\<lambda>r.
     let r = fp_div F64 dis r in Inr (if fp_lt r (Fin 0) then Fin 0 else r)))))"

definition fuzzy_weight :: "pattern \<Rightarrow> cfloat" where
  "fuzzy_weight p = Fin 1"

subsection \<open>The queue of patterns\<close>

text \<open>
  A lock-free queue of doubles, used here as the first-in first-out list it promises to be.
  \<open>pull\<close> leaves the components it finds no value for as the new vector has them: unset.
\<close>

definition push :: "cfloat list \<Rightarrow> cfloat list \<Rightarrow> cfloat list" where
  "push data queue = fold (\<lambda>d q. q @ [d]) data queue"

fun pull_loop :: "nat \<Rightarrow> cfloat list \<Rightarrow> cfloat option list \<times> cfloat list" where
  "pull_loop 0 queue = ([], queue)"
| "pull_loop (Suc n) [] = (None # replicate n None, [])"
| "pull_loop (Suc n) (x # queue) = (case pull_loop n queue of (p, q) \<Rightarrow> (Some x # p, q))"

definition pull :: "int \<Rightarrow> cfloat list \<Rightarrow> cfloat option list \<times> cfloat list" where
  "pull dm queue = pull_loop (nat dm) queue"

lemma push_append: "push data queue = queue @ data"
  unfolding push_def by (induction data arbitrary: queue) auto

lemma pull_loop_enough:
  "n \<le> length q \<Longrightarrow> pull_loop n q = (map Some (take n q), drop n q)"
  by (induction n q rule: pull_loop.induct) auto

subsection \<open>The database\<close>

text \<open>A row of a result: the map from column names to texts.\<close>

type_synonym row = "(string \<times> string) list"

text \<open>\<open>sqlite3_exec\<close> gives its status, the rows it passed to the callback, and its message.\<close>

record 'w sqlite =
  sqlite3_open :: "string \<Rightarrow> 'w \<Rightarrow> int \<times> 'w"
  sqlite3_exec :: "string \<Rightarrow> 'w \<Rightarrow> (int \<times> (string \<times> string option) list list \<times> string) \<times> 'w"
  sqlite3_close :: "'w \<Rightarrow> int \<times> 'w"

text \<open>The static result and the world.\<close>

type_synonym 'w db = "row list \<times> 'w"

definition callback :: "(string \<times> string option) list \<Rightarrow> row list \<Rightarrow> row list" where
  "callback cols result = result @ [fold (\<lambda>(c, v) row. map_put c (case v of Some s \<Rightarrow> s | None \<Rightarrow> ''NULL'') row) cols []]"

definition open_db :: "'w sqlite \<Rightarrow> string \<Rightarrow> 'w db \<Rightarrow> unit res \<times> 'w db" where
  "open_db api name s = (case sqlite3_open api name (snd s) of (status, w) \<Rightarrow>
     if status \<noteq> 0 then (Inl (Thrown (''sqlite3 open failed '' @ [apostrophe] @ name @ [apostrophe])), fst s, w)
     else (Inr (), fst s, w))"

definition execute :: "'w sqlite \<Rightarrow> string \<Rightarrow> 'w db \<Rightarrow> row list res \<times> 'w db" where
  "execute api query s = (case sqlite3_exec api query (snd s) of ((status, rows, msg), w) \<Rightarrow>
     let result = fold callback rows [] in
     if status \<noteq> 0 then (Inl (Thrown (query @ [CHR 0x0A] @ msg)), result, w)
     else (Inr result, result, w))"

definition close_db :: "'w sqlite \<Rightarrow> 'w db \<Rightarrow> unit res \<times> 'w db" where
  "close_db api s = (case sqlite3_close api (snd s) of (status, w) \<Rightarrow>
     if status \<noteq> 0 then (Inl (Thrown ''sqlite3 close failed''), fst s, w) else (Inr (), fst s, w))"

definition start_transaction :: "'w sqlite \<Rightarrow> 'w db \<Rightarrow> row list res \<times> 'w db" where
  "start_transaction api = execute api ''BEGIN;''"

definition commit_transaction :: "'w sqlite \<Rightarrow> 'w db \<Rightarrow> row list res \<times> 'w db" where
  "commit_transaction api = execute api ''COMMIT;''"

definition rollback_transaction :: "'w sqlite \<Rightarrow> 'w db \<Rightarrow> row list res \<times> 'w db" where
  "rollback_transaction api = execute api ''ROLLBACK;''"

subsection \<open>The cluster repository\<close>

definition table_name :: "string \<Rightarrow> string" where
  "table_name data_type = data_type @ ''_cluster_repository''"

definition setup_query :: "string \<Rightarrow> string" where
  "setup_query ty = ''CREATE TABLE IF NOT EXISTS '' @ table_name ty @ '' ('' @
     ''id INTEGER PRIMARY KEY AUTOINCREMENT,'' @ ''label INTEGER DEFAULT 0,'' @
     ''feature REAL,'' @ ''priority INTEGER DEFAULT 0'' @ '');''"

definition setup_db :: "'w sqlite \<Rightarrow> string \<Rightarrow> 'w db \<Rightarrow> row list res \<times> 'w db" where
  "setup_db api ty = execute api (setup_query ty)"

definition select_query :: "string \<Rightarrow> cfloat \<Rightarrow> cfloat \<Rightarrow> string" where
  "select_query ty feature threshold = ''SELECT *,sum(priority) FROM '' @ table_name ty @ '' WHERE '' @
     ''abs(feature-('' @ g_str feature @ '')) < '' @ g_str threshold @
     '' GROUP BY label ORDER BY sum(priority) DESC LIMIT 3;''"

text \<open>\<open>row[key]\<close> of a map: the empty text for a missing key.\<close>

definition column :: "row \<Rightarrow> string \<Rightarrow> string" where
  "column row key = (case map_of row key of Some v \<Rightarrow> v | None \<Rightarrow> [])"

definition raise_query :: "string \<Rightarrow> row list \<Rightarrow> string res" where
  "raise_query ty result = (if result = [] then Inl OutOfBounds
     else Inr (''UPDATE '' @ table_name ty @ '' SET priority = priority + 1 WHERE '' @
       concat (map (\<lambda>row. ''id = '' @ column row ''id'' @ '' OR '') (butlast result)) @
       ''id = '' @ column (last result) ''id'' @ '';''))"

definition add_query :: "string \<Rightarrow> cfloat \<Rightarrow> int \<Rightarrow> string" where
  "add_query ty feature label = ''INSERT INTO '' @ table_name ty @ ''(label,feature) VALUES('' @
     (if label = -1 then ''ifnull((SELECT max(rowid) FROM '' @ table_name ty @ '')+1,0)'' else dec_str label) @
     '','' @ g_str feature @ '');''"

definition feature_of :: "pattern \<Rightarrow> cfloat" where
  "feature_of p = cosSimilarity (replicate (length p) (Fin 1)) p"

definition search :: "'w sqlite \<Rightarrow> string \<Rightarrow> pattern \<Rightarrow> cfloat \<Rightarrow> 'w db \<Rightarrow> row res \<times> 'w db" where
  "search api ty p threshold s = (case execute api (select_query ty (feature_of p) threshold) s of
     (Inl e, s) \<Rightarrow> (Inl e, s)
   | (Inr result, s) \<Rightarrow> (case result of [] \<Rightarrow> (Inl (Thrown ''not found''), s) | row # _ \<Rightarrow> (Inr row, s)))"

text \<open>\<open>converter >> id\<close> of a stream: without a number the uninitialised \<open>id\<close> stays as it is.\<close>

definition read_int :: "string \<Rightarrow> int res" where
  "read_int s = (case s of [] \<Rightarrow> Inl Uninit | c # t \<Rightarrow>
     let c' = (if (c = CHR ''-'' \<or> c = CHR ''+'') \<and> t \<noteq> [] then hd t else c) in
     if (48 :: nat) \<le> of_char c' \<and> (of_char c' :: nat) \<le> 57 then Inr (atoi s) else Inl Uninit)"

text \<open>The try block of \<open>commit\<close> for one pattern.\<close>

definition commit_try :: "'w sqlite \<Rightarrow> string \<Rightarrow> cfloat \<Rightarrow> pattern \<Rightarrow> 'w db \<Rightarrow> unit res \<times> 'w db" where
  "commit_try api ty threshold p s = (let feature = feature_of p in
     (case execute api (select_query ty feature threshold) s of
       (Inl e, s) \<Rightarrow> (Inl e, s)
     | (Inr result, s) \<Rightarrow>
       (case result of
         [] \<Rightarrow> (case execute api (add_query ty feature (-1)) s of (r, s) \<Rightarrow> (rbind r (\<lambda>_. Inr ()), s))
       | row # _ \<Rightarrow>
         (case rbind (read_int (column row ''label'')) (\<lambda>label. rbind (raise_query ty result) (\<lambda>q. Inr (label, q))) of
           Inl e \<Rightarrow> (Inl e, s)
         | Inr (label, q) \<Rightarrow>
           (case execute api q s of
             (Inl e, s) \<Rightarrow> (Inl e, s)
           | (Inr _, s) \<Rightarrow> (case execute api (add_query ty feature label) s of
               (r, s) \<Rightarrow> (rbind r (\<lambda>_. Inr ()), s)))))))"

text \<open>\<open>commit\<close>: a thrown exception ends its pattern only; other errors end the run.\<close>

fun commit :: "'w sqlite \<Rightarrow> string \<Rightarrow> cfloat \<Rightarrow> pattern list \<Rightarrow> 'w db \<Rightarrow> unit res \<times> 'w db" where
  "commit api ty threshold [] s = (Inr (), s)"
| "commit api ty threshold (p # ps) s = (case commit_try api ty threshold p s of
     (Inl e, s) \<Rightarrow> (case e of Thrown m \<Rightarrow> commit api ty threshold ps s | _ \<Rightarrow> (Inl e, s))
   | (Inr _, s) \<Rightarrow> commit api ty threshold ps s)"

text \<open>\<open>Testament::learn\<close>: ten patterns from the queue are learnt and committed; a component that
  was never set makes the arithmetic undefined.\<close>

fun pull_patterns :: "nat \<Rightarrow> int \<Rightarrow> cfloat list \<Rightarrow> cfloat option list list \<times> cfloat list" where
  "pull_patterns 0 dm queue = ([], queue)"
| "pull_patterns (Suc n) dm queue = (case pull dm queue of (p, queue) \<Rightarrow>
     (case pull_patterns n dm queue of (ps, queue) \<Rightarrow> (p # ps, queue)))"

definition all_set :: "cfloat option list \<Rightarrow> pattern res" where
  "all_set p = mapM (\<lambda>x. case x of Some v \<Rightarrow> Inr v | None \<Rightarrow> Inl Uninit) p"

definition learn :: "'w sqlite \<Rightarrow> (cfloat \<Rightarrow> cfloat \<Rightarrow> cfloat) \<Rightarrow> (nat \<Rightarrow> int) \<Rightarrow> setting \<Rightarrow> string \<Rightarrow> cfloat \<Rightarrow>
    cfloat list \<times> 'w db \<Rightarrow> unit res \<times> cfloat list \<times> 'w db" where
  "learn api pow rnd st ty threshold s = (case s of (queue, d) \<Rightarrow>
     (case pull_patterns 10 (dimension_num st) queue of (ps, queue) \<Rightarrow>
       (case rbind (mapM all_set ps) (classify rnd (kmeans_membership pow st) kmeans_weight st) of
         Inl e \<Rightarrow> (Inl e, queue, d)
       | Inr middle \<Rightarrow> (case commit api ty threshold middle d of (r, d) \<Rightarrow> (r, queue, d)))))"

subsection \<open>The label of a picture\<close>

text \<open>
  \<open>getLabelFromFeatureList\<close> of the program counts the labels of the rows the searches found
  (the rest threw and were skipped) and takes the first label of the largest count.
\<close>

definition count_label :: "string \<Rightarrow> (string \<times> int) list \<Rightarrow> (string \<times> int) list" where
  "count_label l m = map_put l ((case map_of m l of None \<Rightarrow> 0 | Some n \<Rightarrow> n) + 1) m"

definition best_step :: "string \<times> int \<Rightarrow> int \<times> string \<Rightarrow> int \<times> string" where
  "best_step p best = (if fst best < snd p then (snd p, fst p) else best)"

definition getLabel :: "row list \<Rightarrow> int res" where
  "getLabel rows = (let m = fold count_label (map (\<lambda>row. column row ''label'') (filter (\<lambda>row. row \<noteq> []) rows)) [] in
     if m = [] then Inl (Thrown ''label not found'')
     else read_int (snd (fold best_step m (0, []))))"

subsection \<open>Centres keep their shape\<close>

definition shaped :: "setting \<Rightarrow> pattern list \<Rightarrow> bool" where
  "shaped st ms \<longleftrightarrow> length ms = nat (cluster_size st) \<and>
     list_all (\<lambda>m. length m = nat (dimension_num st)) ms"

lemma mapM_ok: "(\<And>x. x \<in> set xs \<Longrightarrow> \<exists>y. f x = Inr y \<and> P y) \<Longrightarrow>
    \<exists>ys. mapM f xs = Inr ys \<and> length ys = length xs \<and> list_all P ys"
proof (induction xs)
  case (Cons x xs)
  obtain y where "f x = Inr y" "P y" using Cons.prems [of x] by auto
  moreover obtain ys where "mapM f xs = Inr ys" "length ys = length xs" "list_all P ys"
    using Cons.IH Cons.prems by auto
  ultimately show ?case by simp
qed simp

text \<open>The random range, a divisor, must not be zero.\<close>

definition has_range :: "setting \<Rightarrow> bool" where
  "has_range st \<longleftrightarrow> fp_to_int (fp_sub F64 (data_max st) (data_min st)) \<noteq> 0"

lemma initialize_shaped:
  assumes "has_range st"
  shows "\<exists>ms. initialize_middle rnd st = Inr ms \<and> shaped st ms"
proof -
  have e: "\<exists>y. random_entry rnd st j = Inr y" for j
    using assms by (simp add: random_entry_def cmod_def has_range_def)
  have inner: "\<exists>p. mapM (\<lambda>d. random_entry rnd st (i * nat (dimension_num st) + d)) [0..<nat (dimension_num st)] = Inr p \<and>
      length p = length [0..<nat (dimension_num st)] \<and> list_all (\<lambda>_. True) p" for i
    by (rule mapM_ok) (use e in simp)
  have "\<exists>ms. initialize_middle rnd st = Inr ms \<and> length ms = length [0..<nat (cluster_size st)] \<and>
      list_all (\<lambda>m. length m = nat (dimension_num st)) ms"
    unfolding initialize_middle_def
  proof (rule mapM_ok)
    fix i
    show "\<exists>p. mapM (\<lambda>d. random_entry rnd st (i * nat (dimension_num st) + d)) [0..<nat (dimension_num st)] = Inr p \<and>
        length p = nat (dimension_num st)"
      using inner [of i] by auto
  qed
  then show ?thesis by (simp add: shaped_def)
qed

lemma shaped_read:
  "shaped st ms \<Longrightarrow> 0 \<le> i \<Longrightarrow> i < cluster_size st \<Longrightarrow>
    \<exists>c. getMiddle ms i = Inr c \<and> length c = nat (dimension_num st) \<and> ms ! nat i = c"
  by (auto simp: shaped_def getMiddle_def list_all_length nat_less_iff)

lemma getDistance_ok:
  assumes "length p = nat (dimension_num st)" "length q = nat (dimension_num st)"
  shows "\<exists>d. getDistance pow st p q ex = Inr d"
  using foldM_invariant [of "\<lambda>_. True" "Fin 0" "[0..dimension_num st - 1]" "dist_step pow p q ex"] assms
  by (auto simp: getDistance_def dist_step_def)

lemma kmeans_ok:
  assumes "shaped st ms" "length p = nat (dimension_num st)" "0 \<le> i" "i < cluster_size st"
  shows "\<exists>m. kmeans_membership pow st ms i p = Inr m"
proof -
  have read: "\<exists>c d. getMiddle ms j = Inr c \<and> getDistance pow st p c two = Inr d"
    if j: "0 \<le> j" "j < cluster_size st" for j
  proof -
    obtain c where c: "getMiddle ms j = Inr c" "length c = nat (dimension_num st)"
      using shaped_read [OF assms(1) j] by blast
    from getDistance_ok [OF assms(2) c(2)] c(1) show ?thesis by blast
  qed
  have "\<exists>mn. foldM (min_step pow st ms p) [0..cluster_size st - 1] (Fin DBL_MAX) = Inr mn \<and> True"
  proof (rule foldM_invariant)
    fix j mn
    assume "j \<in> set [0..cluster_size st - 1]"
    then show "\<exists>mn'. min_step pow st ms p j mn = Inr mn' \<and> True"
      using read [of j] by (auto simp: min_step_def)
  qed simp
  then show ?thesis
    using read [OF assms(3,4)] by (auto simp: kmeans_membership_def)
qed

lemma learn_cluster_shaped:
  assumes mem: "\<And>ms i p. shaped st ms \<Longrightarrow> length p = nat (dimension_num st) \<Longrightarrow> 0 \<le> i \<Longrightarrow>
      i < cluster_size st \<Longrightarrow> \<exists>m. mem ms i p = Inr m"
    and ps: "list_all (\<lambda>p. length p = nat (dimension_num st)) ps"
    and ms: "shaped st ms" "0 \<le> i" "i < cluster_size st"
  shows "\<exists>ms'. learn_cluster mem weight st ps i ms = Inr ms' \<and> shaped st ms'"
proof -
  let ?P = "\<lambda>acc :: pattern \<times> cfloat. length (fst acc) = nat (dimension_num st)"
  have "\<exists>acc. foldM (learn_pattern mem weight ms i) ps (replicate (nat (dimension_num st)) (Fin 0), Fin 0) =
      Inr acc \<and> ?P acc"
  proof (rule foldM_invariant)
    fix p and acc :: "pattern \<times> cfloat"
    assume "p \<in> set ps" "?P acc"
    moreover from this obtain m where "mem ms i p = Inr m"
      using mem [OF ms(1) _ ms(2,3)] ps by (auto simp: list_all_iff)
    ultimately show "\<exists>acc'. learn_pattern mem weight ms i p acc = Inr acc' \<and> ?P acc'"
      using ps by (simp add: learn_pattern_def vec_add_def vec_scale_def Let_def list_all_iff)
  qed simp
  then obtain acc where acc: "foldM (learn_pattern mem weight ms i) ps
      (replicate (nat (dimension_num st)) (Fin 0), Fin 0) = Inr acc" "?P acc" by blast
  have "i < int (length ms)" using ms by (simp add: shaped_def)
  with acc ms show ?thesis
    by (auto simp: learn_cluster_def shaped_def vec_div_def list_all_length nth_list_update)
qed

lemma classify_shaped:
  assumes mem: "\<And>ms i p. shaped st ms \<Longrightarrow> length p = nat (dimension_num st) \<Longrightarrow> 0 \<le> i \<Longrightarrow>
      i < cluster_size st \<Longrightarrow> \<exists>m. mem ms i p = Inr m"
    and ps: "list_all (\<lambda>p. length p = nat (dimension_num st)) ps" and r: "has_range st"
  shows "\<exists>ms. classify rnd mem weight st ps = Inr ms \<and> shaped st ms"
proof -
  obtain ms0 where ms0: "initialize_middle rnd st = Inr ms0" "shaped st ms0"
    using initialize_shaped [OF r] by blast
  have "\<exists>ms. foldM (learn_round mem weight st ps) [0..learn_num st - 1] ms0 = Inr ms \<and> shaped st ms"
  proof (rule foldM_invariant)
    fix count ms
    assume "shaped st ms"
    then show "\<exists>ms'. learn_round mem weight st ps count ms = Inr ms' \<and> shaped st ms'"
      unfolding learn_round_def
      by (rule foldM_invariant) (use learn_cluster_shaped [OF mem ps] in auto)
  qed (rule ms0(2))
  with ms0(1) show ?thesis by (simp add: classify_def)
qed

text \<open>K-means learning always succeeds on patterns of the set dimension, when the data range is
  not empty: no vector is read or added outside its size, no division traps, and the result is
  one centre per cluster, each of the set dimension.\<close>

theorem kmeans_classify_shape:
  assumes "list_all (\<lambda>p. length p = nat (dimension_num st)) ps"
    and "fp_to_int (fp_sub F64 (data_max st) (data_min st)) \<noteq> 0"
  shows "\<exists>ms. classify rnd (kmeans_membership pow st) kmeans_weight st ps = Inr ms \<and>
    length ms = nat (cluster_size st) \<and> list_all (\<lambda>m. length m = nat (dimension_num st)) ms"
  using classify_shaped [OF kmeans_ok assms(1)] assms(2) by (auto simp: has_range_def shaped_def)

definition sample_setting :: setting where
  "sample_setting = \<lparr>cluster_size = 2, dimension_num = 1, learn_num = 3, data_min = Fin (-2), data_max = Fin 2\<rparr>"

lemma sample_range: "fp_to_int (fp_sub F64 (data_max sample_setting) (data_min sample_setting)) \<noteq> 0"
  using fp_of_int_Fin [of 4] fp_to_int_of_int [of 4]
  by (simp add: sample_setting_def fp_sub_def fp_of_int_def int32_def)

theorem kmeans_classify_shape_witness:
  "\<exists>ms. classify (\<lambda>_. 5) (kmeans_membership (\<lambda>x _. fp_sq x) sample_setting) kmeans_weight sample_setting [[Fin 1]] = Inr ms \<and>
    length ms = nat (cluster_size sample_setting) \<and>
    list_all (\<lambda>m. length m = nat (dimension_num sample_setting)) ms"
  by (rule kmeans_classify_shape [OF _ sample_range]) (simp add: sample_setting_def)

subsection \<open>Every pattern belongs to its nearest centres\<close>

lemma min_fold:
  assumes "\<And>j. j \<in> set js \<Longrightarrow> \<exists>c. getMiddle ms j = Inr c \<and> getDistance pow st p c two = Inr (Fin (d j))"
  shows "foldM (min_step pow st ms p) js (Fin a) = Inr (Fin (fold (\<lambda>j m. if d j < m then d j else m) js a))"
  using assms
proof (induction js arbitrary: a)
  case (Cons j js)
  from Cons.prems [of j] obtain c where c: "getMiddle ms j = Inr c"
    "getDistance pow st p c two = Inr (Fin (d j))" by auto
  have "min_step pow st ms p j (Fin a) = Inr (Fin (if d j < a then d j else a))"
    using c by (simp add: min_step_def)
  with Cons.IH Cons.prems show ?case by simp
qed simp

lemma fold_min:
  fixes d :: "int \<Rightarrow> rat"
  shows "fold (\<lambda>j m. if d j < m then d j else m) js a \<le> a \<and>
    (\<forall>j \<in> set js. fold (\<lambda>j m. if d j < m then d j else m) js a \<le> d j) \<and>
    (fold (\<lambda>j m. if d j < m then d j else m) js a = a \<or>
     (\<exists>j \<in> set js. fold (\<lambda>j m. if d j < m then d j else m) js a = d j))"
proof (induction js arbitrary: a)
  case (Cons j js)
  show ?case using Cons [of "if d j < a then d j else a"] by (auto split: if_splits)
qed simp

text \<open>C38: k-means membership: when the distances to all centres are finite, a pattern belongs (with
  degree 1) to exactly the centres nearest to it and to at least one, and to no other.\<close>

theorem kmeans_nearest:
  assumes "\<And>j. 0 \<le> j \<Longrightarrow> j < cluster_size st \<Longrightarrow>
      \<exists>c. getMiddle ms j = Inr c \<and> getDistance pow st p c two = Inr (Fin (d j)) \<and> d j < DBL_MAX"
    and "0 \<le> i" "i < cluster_size st"
  shows "kmeans_membership pow st ms i p =
      Inr (if \<forall>j. 0 \<le> j \<and> j < cluster_size st \<longrightarrow> d i \<le> d j then Fin 1 else Fin 0) \<and>
    (\<exists>n. 0 \<le> n \<and> n < cluster_size st \<and> kmeans_membership pow st ms n p = Inr (Fin 1))"
proof -
  define m where "m = fold (\<lambda>j m. if d j < m then d j else m) [0..cluster_size st - 1] DBL_MAX"
  have read: "\<And>j. j \<in> set [0..cluster_size st - 1] \<Longrightarrow>
      \<exists>c. getMiddle ms j = Inr c \<and> getDistance pow st p c two = Inr (Fin (d j))"
    using assms(1) by fastforce
  have f: "foldM (min_step pow st ms p) [0..cluster_size st - 1] (Fin DBL_MAX) = Inr (Fin m)"
    unfolding m_def by (rule min_fold) (rule read)
  have lo: "\<forall>j. 0 \<le> j \<and> j < cluster_size st \<longrightarrow> m \<le> d j"
    using fold_min [of d "[0..cluster_size st - 1]" DBL_MAX] by (simp add: m_def)
  have "m \<le> d i" using lo assms(2,3) by blast
  moreover have "d i < DBL_MAX" using assms(1) [OF assms(2,3)] by blast
  ultimately have "m \<noteq> DBL_MAX" by linarith
  then obtain n where n: "0 \<le> n" "n < cluster_size st" "m = d n"
    using fold_min [of d "[0..cluster_size st - 1]" DBL_MAX] by (auto simp: m_def)
  have mem: "kmeans_membership pow st ms k p = Inr (if d k = m then Fin 1 else Fin 0)"
    if k: "0 \<le> k" "k < cluster_size st" for k
    using f assms(1) [OF k] by (auto simp: kmeans_membership_def fp_eq_def)
  have "(d i = m) = (\<forall>j. 0 \<le> j \<and> j < cluster_size st \<longrightarrow> d i \<le> d j)"
    using lo n assms(2,3) by (auto intro: antisym)
  with mem [OF assms(2,3)] mem [OF n(1,2)] n show ?thesis by auto
qed

lemma sample_distance:
  "getDistance (\<lambda>x _. fp_sq x) sample_setting [Fin 0] [Fin 0] two = Inr (Fin 0)"
  "getDistance (\<lambda>x _. fp_sq x) sample_setting [Fin 0] [Fin 2] two = Inr (Fin 4)"
  using fp_round_int [of "-2" "-2"] fp_round_int [of 4 4] fp_round_int [of 0 0]
  by (simp_all add: getDistance_def sample_setting_def dist_step_def rdbuf_def fp_sub_def fp_sq_def)

theorem kmeans_nearest_witness:
  "kmeans_membership (\<lambda>x _. fp_sq x) sample_setting [[Fin 0], [Fin 2]] 1 [Fin 0] = Inr (Fin 0) \<and>
    (\<exists>n. 0 \<le> n \<and> n < cluster_size sample_setting \<and>
      kmeans_membership (\<lambda>x _. fp_sq x) sample_setting [[Fin 0], [Fin 2]] n [Fin 0] = Inr (Fin 1))"
proof -
  let ?d = "\<lambda>j :: int. if j = 0 then 0 else 4 :: rat"
  have big: "(4 :: rat) < DBL_MAX" by (simp add: DBL_MAX_def)
  have k: "cluster_size sample_setting = 2" by (simp add: sample_setting_def)
  have "\<exists>c. getMiddle [[Fin 0], [Fin 2]] j = Inr c \<and>
      getDistance (\<lambda>x _. fp_sq x) sample_setting [Fin 0] c two = Inr (Fin (?d j)) \<and> ?d j < DBL_MAX"
    if j: "0 \<le> j" "j < cluster_size sample_setting" for j
  proof -
    from j k have "j = 0 \<or> j = 1" by auto
    then show ?thesis using sample_distance big by (auto simp: getMiddle_def rdbuf_def)
  qed
  from kmeans_nearest [OF this, of 1] have
    "kmeans_membership (\<lambda>x _. fp_sq x) sample_setting [[Fin 0], [Fin 2]] 1 [Fin 0] =
      Inr (if \<forall>j. 0 \<le> j \<and> j < cluster_size sample_setting \<longrightarrow> ?d 1 \<le> ?d j then Fin 1 else Fin 0) \<and>
    (\<exists>n. 0 \<le> n \<and> n < cluster_size sample_setting \<and>
      kmeans_membership (\<lambda>x _. fp_sq x) sample_setting [[Fin 0], [Fin 2]] n [Fin 0] = Inr (Fin 1))"
    by (simp add: k)
  moreover have "\<not> (\<forall>j. 0 \<le> j \<and> j < cluster_size sample_setting \<longrightarrow> ?d 1 \<le> ?d j)"
    by (auto simp: k intro!: exI [of _ 0])
  ultimately show ?thesis by simp
qed

subsection \<open>The queue and the database\<close>

lemma pull_patterns_enough:
  "n * nat dm \<le> length q \<Longrightarrow> \<exists>ps. pull_patterns n dm q = (ps, drop (n * nat dm) q) \<and>
     concat ps = map Some (take (n * nat dm) q) \<and> list_all (\<lambda>p. length p = nat dm) ps"
proof (induction n arbitrary: q)
  case (Suc n)
  have p: "pull dm q = (map Some (take (nat dm) q), drop (nat dm) q)"
    using Suc.prems by (simp add: pull_def pull_loop_enough)
  obtain ps where ps: "pull_patterns n dm (drop (nat dm) q) = (ps, drop (n * nat dm) (drop (nat dm) q))"
    "concat ps = map Some (take (n * nat dm) (drop (nat dm) q))" "list_all (\<lambda>p. length p = nat dm) ps"
  proof -
    have "n * nat dm \<le> length (drop (nat dm) q)" using Suc.prems by simp
    from Suc.IH [OF this] that show ?thesis by blast
  qed
  have "length (take (nat dm) q) = nat dm" using Suc.prems by simp
  with p ps show ?case
    by (simp add: take_add add.commute flip: map_append)
qed simp

text \<open>What is pushed on the queue comes out again in patterns of the asked size, in order and
  without loss, as long as the queue holds enough values; only then is every component set.\<close>

theorem queue_chunks:
  assumes "n * nat dm \<le> length queue + length data"
  shows "\<exists>ps. pull_patterns n dm (push data queue) = (ps, drop (n * nat dm) (queue @ data)) \<and>
    concat ps = map Some (take (n * nat dm) (queue @ data)) \<and> list_all (\<lambda>p. length p = nat dm) ps"
  using pull_patterns_enough [of n dm "queue @ data"] assms by (simp add: push_append)

theorem queue_chunks_witness:
  "\<exists>ps. pull_patterns 2 1 (push [Fin 2, Fin 3] [Fin 1]) = (ps, [Fin 3]) \<and>
    concat ps = [Some (Fin 1), Some (Fin 2)] \<and> list_all (\<lambda>p. length p = 1) ps"
  using queue_chunks [of 2 1 "[Fin 1]" "[Fin 2, Fin 3]"] by simp

lemma execute_throws: "fst (execute api q s) = Inl e \<Longrightarrow> \<exists>m. e = Thrown m"
  by (auto simp: execute_def Let_def split: prod.splits if_splits)

lemma read_int_error: "read_int s = Inl e \<Longrightarrow> e = Uninit"
  by (auto simp: read_int_def Let_def split: list.splits if_splits)

lemma commit_try_errors:
  assumes "fst (commit_try api ty threshold p s) = Inl e"
  shows "(\<exists>m. e = Thrown m) \<or> e = Uninit"
proof -
  define f where "f = feature_of p"
  obtain r1 s1 where 1: "execute api (select_query ty f threshold) s = (r1, s1)" by (cases "execute api (select_query ty f threshold) s") auto
  show ?thesis
  proof (cases r1)
    case (Inl e1)
    then show ?thesis
      using 1 assms execute_throws [of api "select_query ty f threshold" s]
      by (auto simp: commit_try_def Let_def f_def)
  next
    case (Inr result)
    show ?thesis
    proof (cases result)
      case Nil
      obtain r2 s2 where 2: "execute api (add_query ty f (-1)) s1 = (r2, s2)" by (cases "execute api (add_query ty f (-1)) s1") auto
      then show ?thesis
        using 1 Inr Nil assms execute_throws [of api "add_query ty f (-1)" s1]
        by (cases r2) (auto simp: commit_try_def Let_def f_def)
    next
      case (Cons row rows)
      show ?thesis
      proof (cases "read_int (column row ''label'')")
        case (Inl e1)
        then show ?thesis
          using 1 Inr Cons assms read_int_error [OF Inl] by (simp add: commit_try_def Let_def f_def)
      next
        case label: (Inr label)
        obtain q where q: "raise_query ty result = Inr q" using Cons by (simp add: raise_query_def)
        obtain r2 s2 where 2: "execute api q s1 = (r2, s2)" by (cases "execute api q s1") auto
        obtain r3 s3 where 3: "execute api (add_query ty f label) s2 = (r3, s3)" by (cases "execute api (add_query ty f label) s2") auto
        show ?thesis
          using 1 2 3 q label Inr Cons assms execute_throws [of api q s1]
            execute_throws [of api "add_query ty f label" s2]
          by (cases r2; cases r3) (auto simp: commit_try_def Let_def f_def)
      qed
    qed
  qed
qed

text \<open>Committing patterns never throws and never reads outside a result: a failing statement
  only ends its own pattern. The one way to fail is a stored label that is not a number.\<close>

theorem commit_errors:
  assumes "fst (commit api ty threshold ps s) = Inl e"
  shows "e = Uninit"
  using assms
proof (induction ps arbitrary: s)
  case (Cons p ps)
  then show ?case
    using commit_try_errors [of api ty threshold p s]
    by (cases "commit_try api ty threshold p s") (auto split: sum.splits cerr.splits)
qed simp

text \<open>A database whose every answer is one row with a label that is no number.\<close>

definition odd_db :: "string list sqlite" where
  "odd_db = \<lparr>sqlite3_open = (\<lambda>_ w. (0, w)),
     sqlite3_exec = (\<lambda>q w. ((0, [[(''label'', Some ''x'')]], []), w @ [q])), sqlite3_close = (\<lambda>w. (0, w))\<rparr>"

theorem commit_errors_witness:
  "fst (commit odd_db ''image'' (Fin 1) [[]] ([], [])) = Inl Uninit \<and> Uninit = Uninit"
proof -
  have f: "fst (commit odd_db ''image'' (Fin 1) [[]] ([], [])) = Inl Uninit"
    by (simp add: commit_try_def odd_db_def execute_def callback_def column_def read_int_def Let_def)
  then have "Uninit = Uninit" by (rule commit_errors)
  with f show ?thesis by simp
qed

subsection \<open>The most frequent label\<close>

lemma fold_best:
  "(\<forall>p \<in> set m. snd p \<le> fst (fold best_step m b)) \<and> fst b \<le> fst (fold best_step m b) \<and>
    (fold best_step m b = b \<or> (snd (fold best_step m b), fst (fold best_step m b)) \<in> set m)"
proof (induction m arbitrary: b)
  case (Cons p m)
  show ?case using Cons [of "best_step p b"] by (auto simp: best_step_def split: if_splits)
qed simp

text \<open>The labels of the rows of all searches.\<close>

definition labels_of :: "row list \<Rightarrow> string list" where
  "labels_of rows = map (\<lambda>row. column row ''label'') (filter (\<lambda>row. row \<noteq> []) rows)"

text \<open>The label found for a picture is one that occurs among the rows of the searches, and none
  occurs more often; without a single row there is no label.\<close>

theorem getLabel_most_frequent:
  "if labels_of rows = [] then getLabel rows = Inl (Thrown ''label not found'')
    else \<exists>l. l \<in> set (labels_of rows) \<and> getLabel rows = read_int l \<and>
      list_all (\<lambda>k. count_list (labels_of rows) k \<le> count_list (labels_of rows) l) (labels_of rows)"
proof (cases "labels_of rows = []")
  case True
  then show ?thesis by (simp add: getLabel_def labels_of_def [symmetric])
next
  case False
  define ls where "ls = labels_of rows"
  note False = False [folded ls_def]
  define m where "m = fold count_label ls []"
  have m: "m = fold (\<lambda>k m. map_put k ((case map_of m k of None \<Rightarrow> 0 | Some n \<Rightarrow> n) + 1) m) ls []"
    by (simp add: m_def count_label_def [abs_def])
  have d: "distinct (map fst m)"
    unfolding m by (intro sorted_keys_distinct sc.ok_counts) simp
  have c: "map_of m k = (if k \<in> set ls then Some (int (count_list ls k)) else None)" for k
    unfolding m by (rule sc.look_counts) simp_all
  have entry: "(k, v) \<in> set m \<longleftrightarrow> k \<in> set ls \<and> v = int (count_list ls k)" for k v
    using c [of k] map_of_eq_Some_iff [OF d, of k v] by (auto split: if_splits)
  obtain x where "x \<in> set ls" using False by (cases ls) auto
  then have x: "(x, int (count_list ls x)) \<in> set m" using entry by simp
  then have ne: "m \<noteq> []" by auto
  define l where "l = snd (fold best_step m (0, []))"
  define n where "n = fst (fold best_step m (0, []))"
  note b = fold_best [of m "(0, [])"]
  have "0 < count_list ls x"
    using \<open>x \<in> set ls\<close> by (metis count_list_0_iff gr0I)
  then have "0 < n" using b x by (force simp: n_def)
  then have "(l, n) \<in> set m" using b by (auto simp: l_def n_def)
  then have l: "l \<in> set ls" "n = int (count_list ls l)" using entry by auto
  have "count_list ls k \<le> count_list ls l" if "k \<in> set ls" for k
    using b entry [of k "int (count_list ls k)"] that l(2) by (force simp: n_def)
  moreover have "getLabel rows = read_int l"
    using ne by (simp add: getLabel_def labels_of_def [symmetric] ls_def [symmetric] m_def [symmetric] l_def)
  ultimately show ?thesis using l(1) False by (auto simp: list_all_iff ls_def [symmetric])
qed

end
