(* ===== verification/ClusterApp.thy ===== *)
theory ClusterApp
  imports Clusters BiImage
begin

text \<open>
  The program of the clustering (\<open>Clustering/main.cpp\<close>, \<open>Converter.cpp\<close>): the features under
  the mouse, their markers, the label of a click, the window in which a description is typed,
  and one round of the learning thread. The features OpenCV finds, the texts Windows copies and
  the repository of descriptions, whose source is not in the repository, are parameters.
\<close>

record surf =
  surf_x :: cfloat
  surf_y :: cfloat
  surf_features :: "cfloat list"

subsection \<open>Conversions to patterns\<close>

definition convert_image :: "surf list \<Rightarrow> cfloat list" where
  "convert_image found = fold (\<lambda>s data. fold (\<lambda>v d. d @ [v]) (surf_features s) data) found []"

definition convert_floats :: "cfloat list \<Rightarrow> pattern" where
  "convert_floats data = map (\<lambda>i. data ! i) [0..<length data]"

definition convert_pattern :: "pattern \<Rightarrow> cfloat list" where
  "convert_pattern p = fold (\<lambda>v d. d @ [v]) p []"

subsection \<open>Features under the mouse\<close>

definition near_mouse :: "int \<Rightarrow> int \<Rightarrow> cfloat \<Rightarrow> bool" where
  "near_mouse m rng v \<longleftrightarrow> fp_le (fp_of_int F32 (s32 (m - rng sdiv 2))) v \<and>
     fp_le v (fp_of_int F32 (s32 (m + rng sdiv 2)))"

definition getInAreaFeaturePoint :: "int \<times> int \<Rightarrow> int \<Rightarrow> surf list \<Rightarrow> surf list" where
  "getInAreaFeaturePoint m rng found = fold (\<lambda>s r.
     if near_mouse (fst m) rng (surf_x s) then (if near_mouse (snd m) rng (surf_y s) then r @ [s] else r)
     else r) found []"

definition mark :: "cfloat \<Rightarrow> int \<Rightarrow> int" where
  "mark v i = fp_to_int (fp_add F32 v (fp_of_int F32 i))"

definition mark_feature :: "surf \<Rightarrow> bi_image \<Rightarrow> bi_image res" where
  "mark_feature s = foldM (\<lambda>(i, j). Put (mark (surf_x s) i) (mark (surf_y s) j) (PixelRGB 0 0 255))
     [(-1, -1), (0, -1), (1, -1), (-1, 0), (0, 0), (1, 0), (-1, 1), (0, 1), (1, 1)]"

definition displayFeaturePoint :: "surf list \<Rightarrow> bi_image \<Rightarrow> bi_image res" where
  "displayFeaturePoint = foldM mark_feature"

subsection \<open>The label of a click\<close>

text \<open>
  The searches of all features; one that throws is skipped. \<open>label\<close> is the member that the
  constructor leaves unset and an unsuccessful search keeps.
\<close>

fun label_rows :: "'w sqlite \<Rightarrow> string \<Rightarrow> surf list \<Rightarrow> 'w db \<Rightarrow> row list res \<times> 'w db" where
  "label_rows api ty [] db = (Inr [], db)"
| "label_rows api ty (s # found) db =
     (case search api ty (convert_floats (surf_features s)) (lit (5 / 1000)) db of
       (Inr row, db) \<Rightarrow> (case label_rows api ty found db of
           (Inr rows, db) \<Rightarrow> (Inr (row # rows), db)
         | (Inl e, db) \<Rightarrow> (Inl e, db))
     | (Inl (Thrown m), db) \<Rightarrow> label_rows api ty found db
     | (Inl e, db) \<Rightarrow> (Inl e, db))"

definition getLabelFromFeatureList :: "'w sqlite \<Rightarrow> string \<Rightarrow> surf list \<Rightarrow> 'w db \<Rightarrow> int res \<times> 'w db" where
  "getLabelFromFeatureList api ty found db = (case label_rows api ty found db of
     (Inr rows, db) \<Rightarrow> (getLabel rows, db)
   | (Inl e, db) \<Rightarrow> (Inl e, db))"

definition click_label :: "int res \<Rightarrow> int option \<Rightarrow> int option res" where
  "click_label found label = (case found of
     Inr l \<Rightarrow> Inr (Some l)
   | Inl (Thrown m) \<Rightarrow> Inr label
   | Inl e \<Rightarrow> Inl e)"

subsection \<open>Typing a description\<close>

text \<open>
  \<open>txt n\<close> is what \<open>GetWindowText\<close> writes when it is given the size \<open>n\<close>. The buffer is made by
  \<open>new char(255)\<close>: one character with the value 255.
\<close>

definition text_buffer :: string where
  "text_buffer = [CHR 0xFF]"

definition get_text :: "string \<Rightarrow> string \<Rightarrow> string res" where
  "get_text written data = foldM (\<lambda>(i, c) d. wrbuf d (int i) c) (enumerate 0 written) data"

definition c_string :: "string \<Rightarrow> string res" where
  "c_string data = (if CHR 0x00 \<in> set data then Inr (takeWhile (\<lambda>c. c \<noteq> CHR 0x00) data) else Inl OutOfBounds)"

definition typed_text :: "nat \<Rightarrow> (nat \<Rightarrow> string) \<Rightarrow> string res" where
  "typed_text len txt = rbind (get_text (txt len) text_buffer) c_string"

subsection \<open>One round of the learning thread\<close>

definition learn_thread_round :: "'w sqlite \<Rightarrow> (cfloat \<Rightarrow> cfloat \<Rightarrow> cfloat) \<Rightarrow> (nat \<Rightarrow> int) \<Rightarrow> setting \<Rightarrow>
    (bi_image \<Rightarrow> surf list) \<Rightarrow> bi_image res \<Rightarrow> cfloat list \<times> 'w db \<Rightarrow> unit res \<times> cfloat list \<times> 'w db" where
  "learn_thread_round api pow rnd st getSurf camera s = (case camera of
     Inr im \<Rightarrow> learn api pow rnd st ''image'' (lit (5 / 1000)) (push (convert_image (getSurf im)) (fst s), snd s)
   | Inl (Thrown m) \<Rightarrow> learn api pow rnd st ''image'' (lit (5 / 1000)) s
   | Inl e \<Rightarrow> (Inl e, s))"

subsection \<open>What they compute\<close>

lemma fold_snoc: "fold (\<lambda>v d. d @ [v]) xs d = d @ xs"
  by (induction xs arbitrary: d) auto

lemma convert_image_concat: "convert_image found = concat (map surf_features found)"
proof -
  have "fold (\<lambda>s data. data @ surf_features s) found d = d @ concat (map surf_features found)" for d
    by (induction found arbitrary: d) auto
  then show ?thesis by (simp add: convert_image_def fold_snoc)
qed

lemma convert_floats_id [simp]: "convert_floats data = data"
  by (simp add: convert_floats_def map_nth)

lemma convert_pattern_id [simp]: "convert_pattern p = p"
  by (simp add: convert_pattern_def fold_snoc)

lemma in_area_filter:
  "getInAreaFeaturePoint m rng found =
     filter (\<lambda>s. near_mouse (fst m) rng (surf_x s) \<and> near_mouse (snd m) rng (surf_y s)) found"
proof -
  have "fold (\<lambda>s r. if near_mouse (fst m) rng (surf_x s) then (if near_mouse (snd m) rng (surf_y s) then r @ [s] else r)
     else r) found r = r @ filter (\<lambda>s. near_mouse (fst m) rng (surf_x s) \<and> near_mouse (snd m) rng (surf_y s)) found" for r
    by (induction found arbitrary: r) auto
  then show ?thesis by (simp add: getInAreaFeaturePoint_def)
qed

subsection \<open>The markers stay in the picture\<close>

text \<open>A position in a picture of \<open>n\<close> cells, in float.\<close>

definition pos_in :: "int \<Rightarrow> cfloat \<Rightarrow> bool" where
  "pos_in n v \<longleftrightarrow> (\<exists>x. v = Fin x \<and> 0 \<le> x \<and> x < of_int n)"

lemma f32_between:
  assumes "of_int a \<le> x" "x \<le> of_int b" "\<bar>a\<bar> < 2 ^ 24" "\<bar>b\<bar> < 2 ^ 24"
  shows "\<exists>y. fp_round F32 x = Fin y \<and> of_int a \<le> y \<and> y \<le> of_int b"
proof -
  have b: "of_int a \<le> rnd_q F32 x" "rnd_q F32 x \<le> of_int b"
    using b32.r_between [OF assms] by simp_all
  have "(of_int \<bar>a\<bar> :: rat) < of_int (2 ^ 24)" "(of_int \<bar>b\<bar> :: rat) < of_int (2 ^ 24)"
    using assms(3,4) by (simp_all only: of_int_less_iff)
  with b have small: "\<bar>rnd_q F32 x\<bar> < 2 ^ 24" by simp
  have "\<not> (rnd_q F32 x \<noteq> 0 \<and> fmt_emax F32 < ilog2 \<bar>rnd_q F32 x\<bar>)"
  proof
    assume *: "rnd_q F32 x \<noteq> 0 \<and> fmt_emax F32 < ilog2 \<bar>rnd_q F32 x\<bar>"
    then have "(2 :: rat) powi 24 \<le> 2 powi (ilog2 \<bar>rnd_q F32 x\<bar>)"
      by (intro power_int_increasing) auto
    also have "\<dots> \<le> \<bar>rnd_q F32 x\<bar>"
      using * by (intro ilog2_bounds) auto
    finally show False using small by (simp add: power_int_def)
  qed
  then have "fp_round F32 x = Fin (rnd_q F32 x)"
    unfolding fp_round_def Let_def by (rule if_not_P)
  with b show ?thesis by blast
qed

lemma f32_int: "\<bar>a\<bar> < 2 ^ 24 \<Longrightarrow> fp_of_int F32 a = Fin (of_int a)"
  using f32_between [of a "of_int a" a] by (force simp: fp_of_int_def)

lemma mark_bounds:
  assumes "pos_in n v" "\<bar>i\<bar> \<le> 1" "n < 2 ^ 23"
  shows "- 1 \<le> mark v i"
proof -
  obtain x where x: "v = Fin x" "0 \<le> x" "x < of_int n" using assms(1) by (auto simp: pos_in_def)
  have n: "0 < n" using x(2,3) by (metis le_less_trans of_int_0_less_iff)
  have i: "(of_int (- 1) :: rat) \<le> of_int i" "(of_int i :: rat) \<le> of_int 1"
    using assms(2) by (simp_all only: of_int_le_iff)
  have "\<exists>y. fp_round F32 (x + of_int i) = Fin y \<and> of_int (- 1) \<le> y \<and> y \<le> of_int (n + 1)"
    using i x n assms(3) by (intro f32_between) auto
  then obtain y where y: "fp_round F32 (x + of_int i) = Fin y" "- 1 \<le> y" "y \<le> of_int (n + 1)" by auto
  have "fp_of_int F32 i = Fin (of_int i)" using assms(2) by (intro f32_int) simp
  then have "mark v i = fp_to_int (Fin y)" by (simp add: mark_def x(1) y(1))
  moreover have t: "- 1 \<le> rat_trunc y" using y(2) by (auto simp: floor_le_iff le_floor_iff)
  moreover have "rat_trunc y \<le> n + 1"
  proof (cases "0 \<le> y")
    case True
    then show ?thesis using y(3) by (simp add: floor_le_iff del: of_int_add)
  next
    case False
    then have "0 \<le> \<lfloor>- y\<rfloor>" by simp
    with False have "rat_trunc y \<le> 0" by (simp only: rat_trunc.simps if_False)
    with n show ?thesis by linarith
  qed
  moreover have "int32 (rat_trunc y)" using calculation(2,3) assms(3) n by (simp add: int32_def del: rat_trunc.simps)
  ultimately show ?thesis by (simp add: Let_def del: rat_trunc.simps)
qed

lemma Put_shape:
  assumes "wf_img im" "0 < width im" "0 < height im" "- width im \<le> x" "- height im \<le> y"
  shows "\<exists>t. Put x y p im = Inr t \<and> shape_of t = shape_of im \<and> wf_img t"
proof -
  have "Put x y p im = Inr (set_cell im (x mod width im, y mod height im) p)"
    using assms by (intro Put_torus) auto
  moreover have sh: "shape_of (set_cell im (x mod width im, y mod height im) p) = shape_of im"
    by (rule bi.shape_wr)
  ultimately show ?thesis using wf_shape [OF sh assms(1)] by blast
qed

text \<open>
  The markers of features found in the picture never leave it, even where the square around a
  feature crosses the border: the addition is rounded, the coordinate truncated, and what is
  left below zero by one wraps around.
\<close>

theorem markers_stay:
  assumes "wf_img im" "0 < width im" "0 < height im" "width im < 2 ^ 23" "height im < 2 ^ 23"
    and "list_all (\<lambda>s. pos_in (width im) (surf_x s) \<and> pos_in (height im) (surf_y s)) found"
  shows "\<exists>t. displayFeaturePoint found im = Inr t \<and> shape_of t = shape_of im \<and> wf_img t"
  unfolding displayFeaturePoint_def
proof (rule foldM_invariant)
  fix s t
  assume s: "s \<in> set found" and t: "shape_of t = shape_of im \<and> wf_img t"
  have pos: "pos_in (width im) (surf_x s)" "pos_in (height im) (surf_y s)"
    using assms(6) s by (auto simp: list_all_iff)
  have "\<exists>t'. mark_feature s t = Inr t' \<and> (shape_of t' = shape_of im \<and> wf_img t')"
    unfolding mark_feature_def
  proof (rule foldM_invariant)
    fix c t'
    assume c: "c \<in> set [(- 1 :: int, - 1), (0, - 1), (1, - 1), (- 1, 0), (0, 0), (1, 0), (- 1, 1), (0, 1), (1, 1 :: int)]"
      and t': "shape_of t' = shape_of im \<and> wf_img t'"
    obtain i j where ij: "c = (i, j)" by (cases c)
    have "- 1 \<le> mark (surf_x s) i" "- 1 \<le> mark (surf_y s) j"
      using c ij by (auto intro!: mark_bounds [OF pos(1)] mark_bounds [OF pos(2)] assms(4,5))
    then show "\<exists>t''. (case c of (i, j) \<Rightarrow> Put (mark (surf_x s) i) (mark (surf_y s) j) (PixelRGB 0 0 255)) t' = Inr t'' \<and>
        (shape_of t'' = shape_of im \<and> wf_img t'')"
      using Put_shape [of t' "mark (surf_x s) i" "mark (surf_y s) j" "PixelRGB 0 0 255"] t' assms(2,3)
      by (auto simp: ij shape_eq)
  qed (use t in simp)
  then show "\<exists>t'. mark_feature s t = Inr t' \<and> (shape_of t' = shape_of im \<and> wf_img t')" .
qed (use assms(1) in simp)

subsection \<open>The text that is typed\<close>

text \<open>
  What Windows writes for a text that is as long as the size it is given is the text without its
  last character, and a zero: a text of one character becomes empty, a longer one leaves the
  buffer.
\<close>

lemma typed_text_cases:
  assumes "\<And>n. 0 < n \<Longrightarrow> txt n = take (n - 1) typed @ [CHR 0x00]" "typed \<noteq> []"
  shows "typed_text (length typed) txt = (if length typed = 1 then Inr [] else Inl OutOfBounds)"
proof -
  consider c where "typed = [c]" | a b cs where "typed = a # b # cs"
    using assms(2) by (metis list.exhaust)
  then show ?thesis
  proof cases
    case 1
    then show ?thesis
      using assms(1) [of 1] by (simp add: typed_text_def get_text_def text_buffer_def c_string_def wrbuf_def)
  next
    case 2
    then obtain d ds where "txt (length typed) = a # d # ds"
      using assms(1) [of "length typed"] by (cases cs) auto
    with 2 show ?thesis by (simp add: typed_text_def get_text_def text_buffer_def wrbuf_def)
  qed
qed

text \<open>The first click on a picture without a known feature searches for a label that was never set.\<close>

lemma first_click_unset: "labels_of rows = [] \<Longrightarrow> click_label (getLabel rows) None = Inr None"
  by (simp add: getLabel_def labels_of_def click_label_def)

end
