(* ===== verification/Input.thy ===== *)
theory Input
  imports Prelude
begin

text \<open>
  Keyboard and stopwatch (\<open>KeyClass.cpp\<close>, \<open>TimeClass.cpp\<close>). The
  keyboard is a state machine polled once per frame: the arrays \<open>down\<close> and \<open>up\<close> are static,
  so all \<open>Key\<close> objects share them. What Windows answers (the key states, the clock) is an argument of the operation that asks.
\<close>

subsection \<open>Keys\<close>

text \<open>The static arrays, of 256 chars each.\<close>

record key_shared =
  down :: "int list"
  up :: "int list"

type_synonym key = "byte list"

text \<open>The constructor clears the object's key states and the shared arrays.\<close>

definition Key :: "key_shared \<Rightarrow> key \<times> key_shared" where
  "Key sh = (replicate 256 0, sh\<lparr>down := replicate 256 0, up := replicate 256 0\<rparr>)"

definition State :: "int \<Rightarrow> key \<Rightarrow> bool res" where
  "State key ks = (if key = 0 \<or> key = 255 then Inr False
     else rbind (rdbuf ks key) (\<lambda>b. Inr (and b 128 \<noteq> 0)))"

definition UpState :: "int \<Rightarrow> key_shared \<Rightarrow> bool res" where
  "UpState key sh = rbind (rdbuf (up sh) key) (\<lambda>v. Inr (v = 1))"

definition DownState :: "int \<Rightarrow> key_shared \<Rightarrow> bool res" where
  "DownState key sh = rbind (rdbuf (down sh) key) (\<lambda>v. Inr (v = 1))"

text \<open>One round of the loop of \<open>Update\<close>; \<open>ks\<close> is what \<open>GetKeyboardState\<close> stored.\<close>

definition poll_key :: "key \<Rightarrow> int \<Rightarrow> key_shared \<Rightarrow> key_shared res" where
  "poll_key ks i sh = rbind (State i ks) (\<lambda>pressed.
     rbind (rdbuf (down sh) i) (\<lambda>d. rbind (rdbuf (up sh) i) (\<lambda>u.
     if pressed
     then rbind (wrbuf (down sh) i (if d = 0 then 1 else if d = 1 then 2 else d)) (\<lambda>down'.
       rbind (wrbuf (up sh) i 0) (\<lambda>up'. Inr (sh\<lparr>down := down', up := up'\<rparr>)))
     else rbind (wrbuf (up sh) i (if u = 0 then 1 else if u = 1 then 2 else u)) (\<lambda>up'.
       rbind (wrbuf (down sh) i 0) (\<lambda>down'. Inr (sh\<lparr>down := down', up := up'\<rparr>))))))"

definition Update :: "key \<Rightarrow> key_shared \<Rightarrow> (key \<times> key_shared) res" where
  "Update ks sh = rbind (foldM (poll_key ks) [0..255] sh) (\<lambda>sh. Inr (ks, sh))"

subsection \<open>One poll\<close>

text \<open>The pure content of a poll of one key: whether it is held, and its two counters after.\<close>

definition held :: "key \<Rightarrow> int \<Rightarrow> bool" where
  "held ks i \<longleftrightarrow> i \<noteq> 0 \<and> i \<noteq> 255 \<and> and (ks ! nat i) 128 \<noteq> 0"

definition bump :: "int \<Rightarrow> int" where
  "bump v = (if v = 0 then 1 else if v = 1 then 2 else v)"

definition polled :: "key \<Rightarrow> int \<Rightarrow> int \<times> int \<Rightarrow> int \<times> int" where
  "polled ks i du = (if held ks i then (bump (fst du), 0) else (0, bump (snd du)))"


definition counters :: "key_shared \<Rightarrow> int \<Rightarrow> int \<times> int" where
  "counters sh i = (down sh ! nat i, up sh ! nat i)"

definition put_counters :: "key_shared \<Rightarrow> int \<Rightarrow> int \<times> int \<Rightarrow> key_shared" where
  "put_counters sh i du = sh\<lparr>down := (down sh)[nat i := fst du], up := (up sh)[nat i := snd du]\<rparr>"

definition sizes :: "key_shared \<Rightarrow> nat \<times> nat" where
  "sizes sh = (length (down sh), length (up sh))"

definition key_index :: "nat \<times> nat \<Rightarrow> int \<Rightarrow> bool" where
  "key_index n i \<longleftrightarrow> 0 \<le> i \<and> i < int (fst n) \<and> i < int (snd n)"

text \<open>The two arrays are a store of cells, so the poll is a sweep over the 256 keys.\<close>

interpretation keys: cell_store sizes key_index counters put_counters
  by unfold_locales
    (auto simp: sizes_def key_index_def counters_def put_counters_def nth_list_update)

lemma State_held: "length ks = 256 \<Longrightarrow> 0 \<le> i \<Longrightarrow> i < 256 \<Longrightarrow> State i ks = Inr (held ks i)"
  by (auto simp: State_def held_def)

lemma poll_key_put:
  assumes "length ks = 256" "sizes sh = (256, 256)" "0 \<le> i" "i < 256"
  shows "poll_key ks i sh = Inr (put_counters sh i (polled ks i (counters sh i)))"
  using assms
  by (simp add: poll_key_def State_held sizes_def put_counters_def polled_def counters_def bump_def)

lemma Update_polls:
  assumes "length ks = 256" "sizes sh = (256, 256)"
  shows "\<exists>sh'. Update ks sh = Inr (ks, sh') \<and> sizes sh' = (256, 256) \<and>
    (\<forall>i. 0 \<le> i \<and> i < 256 \<longrightarrow> counters sh' i = polled ks i (counters sh i))"
proof -
  have "\<exists>t. foldM (poll_key ks) [0..255] sh = Inr t \<and> sizes t = sizes sh \<and>
      (\<forall>y. key_index (sizes sh) y \<longrightarrow>
        counters t y = (if y \<in> set [0..255] then polled ks y (counters sh y) else counters sh y))"
  proof (rule keys.sweep)
    fix i t
    assume "i \<in> set [0..255]" "sizes t = sizes sh" "counters t i = counters sh i"
    then show "poll_key ks i t = Inr (put_counters t i (polled ks i (counters sh i)))"
      using poll_key_put [OF assms(1), of t i] assms(2) by simp
  qed (use assms(2) in \<open>auto simp: key_index_def\<close>)
  then obtain t where t: "foldM (poll_key ks) [0..255] sh = Inr t" "sizes t = sizes sh"
    "\<forall>y. key_index (sizes sh) y \<longrightarrow>
        counters t y = (if y \<in> set [0..255] then polled ks y (counters sh y) else counters sh y)"
    by blast
  then show ?thesis
    using assms(2) by (auto simp: Update_def key_index_def simp del: upto.simps)
qed

subsection \<open>The polls as a state machine\<close>

text \<open>
  \<open>key_run p sh\<close>: the shared arrays are \<open>sh\<close> after some polls of one \<open>Key\<close> object, the last of
  which saw the key states \<open>p\<close> (\<open>None\<close> before the first).
\<close>

inductive key_run :: "key option \<Rightarrow> key_shared \<Rightarrow> bool" where
  start: "key_run None (snd (Key sh))"
| poll: "key_run p sh \<Longrightarrow> length ks = 256 \<Longrightarrow> Update ks sh = Inr (ks, sh') \<Longrightarrow> key_run (Some ks) sh'"

text \<open>The invariant: which counter runs, and that it is 1 or 2.\<close>

fun key_inv :: "key option \<Rightarrow> key_shared \<Rightarrow> int \<Rightarrow> bool" where
  "key_inv None sh i = (counters sh i = (0, 0))"
| "key_inv (Some ks) sh i = (if held ks i then fst (counters sh i) \<in> {1, 2} \<and> snd (counters sh i) = 0
     else fst (counters sh i) = 0 \<and> snd (counters sh i) \<in> {1, 2})"

lemma key_run_inv:
  "key_run p sh \<Longrightarrow> sizes sh = (256, 256) \<and> (\<forall>i. 0 \<le> i \<and> i < 256 \<longrightarrow> key_inv p sh i)"
proof (induction rule: key_run.induct)
  case (start sh)
  have "replicate 256 (0 :: int) ! nat i = 0" if "0 \<le> i" "i < 256" for i
    using that by (intro nth_replicate) (simp add: nat_less_iff)
  then have "counters (snd (Key sh)) i = (0, 0)" if "0 \<le> i" "i < 256" for i
    using that by (simp add: Key_def counters_def)
  then show ?case by (auto simp: Key_def sizes_def)
next
  case (poll p sh ks sh')
  then have sh': "sizes sh' = (256, 256)"
    "\<And>i. 0 \<le> i \<Longrightarrow> i < 256 \<Longrightarrow> counters sh' i = polled ks i (counters sh i)"
    using Update_polls [of ks sh] by auto
  have "key_inv (Some ks) sh' i" if "0 \<le> i" "i < 256" for i
    using that sh'(2) [of i] poll.IH by (cases p) (auto simp: polled_def bump_def split: if_splits)
  with sh'(1) show ?case by blast
qed

lemma edge_bump:
  assumes "key_inv p sh i"
  shows "bump (fst (counters sh i)) = 1 \<longleftrightarrow> (case p of None \<Rightarrow> True | Some old \<Rightarrow> \<not> held old i)"
    and "bump (snd (counters sh i)) = 1 \<longleftrightarrow> (case p of None \<Rightarrow> True | Some old \<Rightarrow> held old i)"
  using assms by (cases p; auto simp: bump_def split: if_splits)+

text \<open>C36: the arrays record the moments of pressing and of releasing (\<open>KeyClass.cpp:3-4,39,43\<close>) from
  the second poll of a \<open>Key\<close> object on. After one poll or more, the next one succeeds, and after
  it, for each of the 256 keys: \<open>down\<close> is 1 exactly when the key is held now and was not at the
  poll before, 2 exactly when it is held now and was held at the poll before, however long, and 0
  when it is not held; \<open>up\<close> is 1 exactly when the key was held at the poll before and is not now,
  2 when it is held at neither, and 0 when it is held. The keys 0 and 255 count as never held.
  No other object polls in between.\<close>

theorem key_edges:
  assumes "key_run (Some old) sh" "length ks = 256" "0 \<le> i" "i < 256"
  shows "\<exists>sh'. Update ks sh = Inr (ks, sh') \<and> length (down sh') = 256 \<and> length (up sh') = 256 \<and>
    down sh' ! nat i = (if held ks i then if held old i then 2 else 1 else 0) \<and>
    up sh' ! nat i = (if held ks i then 0 else if held old i then 1 else 2)"
proof -
  from key_run_inv [OF assms(1)] assms(3,4) have inv: "sizes sh = (256, 256)" "key_inv (Some old) sh i"
    by auto
  obtain sh' where sh': "Update ks sh = Inr (ks, sh')" "sizes sh' = (256, 256)"
    "counters sh' i = polled ks i (counters sh i)"
    using Update_polls [OF assms(2) inv(1)] assms(3,4) by blast
  have "counters sh' i = (if held ks i then (if held old i then 2 else 1, 0)
      else (0, if held old i then 1 else 2))"
    using inv(2) unfolding sh'(3) polled_def bump_def by (cases "held ks i"; cases "held old i") auto
  with sh' show ?thesis by (simp add: counters_def sizes_def split: if_splits)
qed

theorem key_edges_witness:
  "\<exists>sh1 sh2. Update (replicate 256 0) (snd (Key \<lparr>down = [], up = []\<rparr>)) = Inr (replicate 256 0, sh1) \<and>
    Update (replicate 256 128) sh1 = Inr (replicate 256 128, sh2) \<and> down sh2 ! 65 = 1 \<and> up sh2 ! 65 = 0"
proof -
  have "sizes (snd (Key \<lparr>down = [], up = []\<rparr>)) = (256, 256)" by (simp add: Key_def sizes_def)
  then obtain sh1 where 1: "Update (replicate 256 0) (snd (Key \<lparr>down = [], up = []\<rparr>)) = Inr (replicate 256 0, sh1)"
    using Update_polls [of "replicate 256 0"] by auto
  have "key_run (Some (replicate 256 0)) sh1"
    using key_run.poll [OF key_run.start _ 1] by simp
  moreover have "held (replicate 256 128) 65" "\<not> held (replicate 256 0) 65" by (simp_all add: held_def)
  ultimately show ?thesis
    using 1 key_edges [of "replicate 256 0" sh1 "replicate 256 128" 65] by auto
qed

text \<open>The first poll differs: it marks every key that is not held as just released.\<close>

lemma first_poll_releases:
  assumes "length ks = 256" "0 \<le> i" "i < 256" "\<not> held ks i"
  shows "\<exists>sh'. Update ks (snd (Key sh)) = Inr (ks, sh') \<and> UpState i sh' = Inr True"
proof -
  note start = key_run_inv [OF key_run.start [of sh]]
  obtain sh' where sh': "Update ks (snd (Key sh)) = Inr (ks, sh')" "sizes sh' = (256, 256)"
    "counters sh' i = polled ks i (counters (snd (Key sh)) i)"
    using Update_polls [OF assms(1)] start assms(2,3) by blast
  then show ?thesis
    using start assms(2-4) by (auto simp: polled_def bump_def counters_def UpState_def sizes_def)
qed

text \<open>Two \<open>Key\<close> objects disturb each other: when both poll in one frame, the second poll of the
  same key states turns the edge of the first off again, so whoever asks after both polls never
  sees a key go down.\<close>

theorem second_key_misses:
  assumes "key_run p sh" "length ks = 256" "0 \<le> i" "i < 256"
  shows "\<exists>sh1 sh2. Update ks sh = Inr (ks, sh1) \<and> Update ks sh1 = Inr (ks, sh2) \<and>
    DownState i sh2 = Inr False \<and> UpState i sh2 = Inr False"
proof -
  have step: "\<exists>t. Update ks s = Inr (ks, t) \<and> key_run (Some ks) t \<and>
      counters t i = polled ks i (counters s i) \<and> sizes t = (256, 256) \<and> key_inv q s i"
    if "key_run q s" for q s
    using key_run_inv [OF that] Update_polls [OF assms(2), of s] key_run.poll [OF that assms(2)] assms(3,4)
    by blast
  obtain sh1 where 1: "Update ks sh = Inr (ks, sh1)" "key_run (Some ks) sh1"
    using step [OF assms(1)] by blast
  obtain sh2 where 2: "Update ks sh1 = Inr (ks, sh2)" "counters sh2 i = polled ks i (counters sh1 i)"
    "sizes sh2 = (256, 256)" "key_inv (Some ks) sh1 i"
    using step [OF 1(2)] by blast
  have "fst (counters sh2 i) \<noteq> 1 \<and> snd (counters sh2 i) \<noteq> 1"
    using 2(2) edge_bump [OF 2(4)] by (auto simp: polled_def)
  then show ?thesis
    using 1(1) 2 assms(3,4) by (auto simp: DownState_def UpState_def sizes_def counters_def)
qed

theorem second_key_misses_witness:
  "\<exists>sh1 sh2. Update (replicate 256 128) (snd (Key \<lparr>down = [], up = []\<rparr>)) = Inr (replicate 256 128, sh1) \<and>
    Update (replicate 256 128) sh1 = Inr (replicate 256 128, sh2) \<and>
    DownState 65 sh2 = Inr False \<and> UpState 65 sh2 = Inr False"
  using second_key_misses [OF key_run.start [of "\<lparr>down = [], up = []\<rparr>"], of "replicate 256 128" 65] by simp

subsection \<open>Time\<close>

text \<open>The clock counts milliseconds in a DWORD; \<open>now\<close> is what \<open>timeGetTime\<close> returns.\<close>

record time =
  t_start :: "32 word"
  t_end :: "32 word"

definition Start :: "32 word \<Rightarrow> time \<Rightarrow> time" where
  "Start now t = t\<lparr>t_start := now\<rparr>"

definition End_Time :: "32 word \<Rightarrow> time \<Rightarrow> 32 word \<times> time" where
  "End_Time now t = (now - t_start t, t\<lparr>t_end := now\<rparr>)"

text \<open>The stopwatch is right across the overflow of the clock, which comes every 49.7 days: what
  \<open>End\<close> returns is the number of milliseconds passed, as long as that is below \<open>2^32\<close>.\<close>

theorem elapsed_across_wrap:
  assumes "d < 2 ^ 32"
  shows "unat (fst (End_Time (now + word_of_nat d) (Start now t))) = d"
  using assms by (simp add: End_Time_def Start_def unat_of_nat)

theorem elapsed_across_wrap_witness:
  "unat (fst (End_Time (4294967295 + word_of_nat 6) (Start 4294967295 \<lparr>t_start = 0, t_end = 0\<rparr>))) = 6"
  by (rule elapsed_across_wrap) simp

end
