(* ===== verification/Windows.thy ===== *)
theory Windows
  imports Input
begin

text \<open>
  Windows, their objects, the mouse and the application loop (\<open>WindowClass.cpp\<close>,
  \<open>MouseClass.cpp\<close>, \<open>Application.cpp\<close>). Windows and objects live in a store by their address;
  a deleted window has no entry and using it is an error. The virtual methods of the objects
  and the Win32 calls the code makes are a log in their order; what Win32 answers is the
  parameter \<open>api\<close>.
\<close>

subsection \<open>The store\<close>

record window =
  w_id :: string
  w_title :: string
  w_style :: int
  w_width :: int
  w_height :: int
  w_obj :: "nat list"
  w_hWnd :: "nat option"

text \<open>What is done to the outside: an object's method, or a Win32 call on a window handle.\<close>

datatype gcall = InitializeObj nat | UpdateObj nat | DrawObj nat | DeleteObj nat
  | SetSize "nat option" "int \<times> int" | SetPos "nat option" int int | SetStyle "nat option" int
  | SetTitle "nat option" string | Show "nat option" bool | Paint "nat option" nat
  | Refresh "nat option" | DestroyWindow "nat option" | MessageBox string string | Main

text \<open>
  \<open>wins\<close> holds the allocated windows, \<open>parent\<close> is \<open>WindowObject::wnd\<close>, \<open>userdata\<close> the window
  pointer stored with a handle, \<open>quit\<close> whether \<open>PostQuitMessage\<close> was called.
\<close>

record gui =
  wins :: "nat \<rightharpoonup> window"
  parent :: "nat \<rightharpoonup> nat"
  userdata :: "nat \<rightharpoonup> nat"
  quit :: bool
  calls :: "gcall list"

record win32 =
  AdjustWindowRect :: "int \<Rightarrow> int \<times> int \<Rightarrow> int \<times> int"
  RegisterClassEx :: "string \<Rightarrow> int"
  CreateWindowEx :: "string \<Rightarrow> string \<Rightarrow> int \<Rightarrow> int \<times> int \<Rightarrow> nat option"
  IsWindowEnabled :: "nat \<Rightarrow> bool"
  DefWindowProc :: "nat \<Rightarrow> int \<Rightarrow> int"
  IsWindowVisible :: "nat \<Rightarrow> bool"
  GetActiveWindow :: "nat option"
  FindWindow :: "string \<Rightarrow> string \<Rightarrow> nat option"
  ScreenToClient :: "nat option \<Rightarrow> int \<times> int \<Rightarrow> int \<times> int"
  ClientToScreen :: "nat option \<Rightarrow> int \<times> int \<Rightarrow> int \<times> int"

definition win :: "nat \<Rightarrow> gui \<Rightarrow> window res" where
  "win w g = (case wins g w of None \<Rightarrow> Inl OutOfBounds | Some wd \<Rightarrow> Inr wd)"

definition put_win :: "nat \<Rightarrow> window \<Rightarrow> gui \<Rightarrow> gui" where
  "put_win w wd g = g\<lparr>wins := (wins g)(w \<mapsto> wd)\<rparr>"

definition call :: "gcall \<Rightarrow> gui \<Rightarrow> gui" where
  "call c g = g\<lparr>calls := calls g @ [c]\<rparr>"

subsection \<open>Attributes\<close>

definition setWidth_w :: "int \<Rightarrow> window \<Rightarrow> window" where
  "setWidth_w n wd = wd\<lparr>w_width := n\<rparr>"

definition setHeight_w :: "int \<Rightarrow> window \<Rightarrow> window" where
  "setHeight_w n wd = wd\<lparr>w_height := n\<rparr>"

definition getWidth_w :: "window \<Rightarrow> int" where
  "getWidth_w wd = w_width wd"

definition getHeight_w :: "window \<Rightarrow> int" where
  "getHeight_w wd = w_height wd"

definition setSize :: "win32 \<Rightarrow> nat \<Rightarrow> int \<Rightarrow> int \<Rightarrow> gui \<Rightarrow> gui res" where
  "setSize api w wd ht g = rbind (win w g) (\<lambda>x.
     let x = setHeight_w ht (setWidth_w wd x) in
     Inr (call (SetSize (w_hWnd x) (AdjustWindowRect api (w_style x) (wd, ht))) (put_win w x g)))"

definition setPos :: "nat \<Rightarrow> int \<Rightarrow> int \<Rightarrow> gui \<Rightarrow> gui res" where
  "setPos w x y g = rbind (win w g) (\<lambda>wd. Inr (call (SetPos (w_hWnd wd) x y) g))"

definition setStyle :: "nat \<Rightarrow> int \<Rightarrow> gui \<Rightarrow> gui res" where
  "setStyle w style g = rbind (win w g) (\<lambda>wd.
     Inr (call (SetStyle (w_hWnd wd) style) (put_win w (wd\<lparr>w_style := style\<rparr>) g)))"

definition setID :: "nat \<Rightarrow> string \<Rightarrow> gui \<Rightarrow> gui res" where
  "setID w s g = rbind (win w g) (\<lambda>wd. Inr (put_win w (wd\<lparr>w_id := s\<rparr>) g))"

definition getID :: "nat \<Rightarrow> gui \<Rightarrow> string res" where
  "getID w g = rbind (win w g) (\<lambda>wd. Inr (w_id wd))"

definition setTitle :: "nat \<Rightarrow> string \<Rightarrow> gui \<Rightarrow> gui res" where
  "setTitle w s g = rbind (win w g) (\<lambda>wd.
     Inr (call (SetTitle (w_hWnd wd) s) (put_win w (wd\<lparr>w_title := s\<rparr>) g)))"

definition getTitle :: "nat \<Rightarrow> gui \<Rightarrow> string res" where
  "getTitle w g = rbind (win w g) (\<lambda>wd. Inr (w_title wd))"

definition hide_w :: "nat \<Rightarrow> gui \<Rightarrow> gui res" where
  "hide_w w g = rbind (win w g) (\<lambda>wd. Inr (call (Refresh (w_hWnd wd)) (call (Show (w_hWnd wd) False) g)))"

definition show_w :: "nat \<Rightarrow> gui \<Rightarrow> gui res" where
  "show_w w g = rbind (win w g) (\<lambda>wd. Inr (call (Refresh (w_hWnd wd)) (call (Show (w_hWnd wd) True) g)))"

text \<open>
  A null handle is neither visible nor enabled; it is equal to the active window when no window
  of the thread is active.
\<close>

definition isVisible :: "win32 \<Rightarrow> nat \<Rightarrow> gui \<Rightarrow> bool res" where
  "isVisible api w g = rbind (win w g) (\<lambda>wd.
     Inr (case w_hWnd wd of None \<Rightarrow> False | Some h \<Rightarrow> IsWindowVisible api h))"

definition isActive :: "win32 \<Rightarrow> nat \<Rightarrow> gui \<Rightarrow> bool res" where
  "isActive api w g = rbind (win w g) (\<lambda>wd. Inr (GetActiveWindow api = w_hWnd wd))"

definition isDeleted :: "win32 \<Rightarrow> nat \<Rightarrow> gui \<Rightarrow> bool res" where
  "isDeleted api w g = rbind (win w g) (\<lambda>wd.
     Inr (case w_hWnd wd of None \<Rightarrow> True | Some h \<Rightarrow> \<not> IsWindowEnabled api h))"

subsection \<open>Objects of a window\<close>

text \<open>\<open>DeleteObject\<close> erases the end iterator of an empty list (an error), and does nothing else.\<close>

definition DeleteObject :: "nat \<Rightarrow> nat \<Rightarrow> gui \<Rightarrow> gui res" where
  "DeleteObject w obj g = rbind (win w g) (\<lambda>wd.
     if w_obj wd = [] then Inl OutOfBounds else Inr g)"

definition SetWindow :: "nat \<Rightarrow> nat \<Rightarrow> gui \<Rightarrow> gui res" where
  "SetWindow obj w g = (case parent g obj of
     None \<Rightarrow> Inr (g\<lparr>parent := (parent g)(obj \<mapsto> w)\<rparr>)
   | Some old \<Rightarrow> rbind (DeleteObject old obj g) (\<lambda>g. Inr (g\<lparr>parent := (parent g)(obj \<mapsto> w)\<rparr>)))"

definition ParentWindow :: "nat \<Rightarrow> gui \<Rightarrow> string res" where
  "ParentWindow obj g = (case parent g obj of None \<Rightarrow> Inl OutOfBounds | Some w \<Rightarrow> getID w g)"

definition AddObject :: "nat \<Rightarrow> nat \<Rightarrow> gui \<Rightarrow> gui res" where
  "AddObject w obj g = rbind (SetWindow obj w g) (\<lambda>g. rbind (win w g) (\<lambda>wd.
     Inr (call (InitializeObj obj) (put_win w (wd\<lparr>w_obj := w_obj wd @ [obj]\<rparr>) g))))"

definition Update_w :: "nat \<Rightarrow> gui \<Rightarrow> gui res" where
  "Update_w w g = rbind (win w g) (\<lambda>wd. Inr (fold (\<lambda>obj. call (UpdateObj obj)) (w_obj wd) g))"

definition Draw_w :: "nat \<Rightarrow> gui \<Rightarrow> gui res" where
  "Draw_w w g = rbind (win w g) (\<lambda>wd.
     let g = fold (\<lambda>obj. call (DrawObj obj)) (w_obj wd) g;
         g = (case w_hWnd wd of None \<Rightarrow> g | Some h \<Rightarrow> g\<lparr>userdata := (userdata g)(h \<mapsto> w)\<rparr>)
     in Inr (call (Refresh (w_hWnd wd)) g))"

definition Delete_w :: "nat \<Rightarrow> gui \<Rightarrow> gui res" where
  "Delete_w w g = rbind (win w g) (\<lambda>wd.
     let g = fold (\<lambda>obj. call (DeleteObj obj)) (w_obj wd) g;
         g = call (DestroyWindow (w_hWnd wd)) g
     in Inr (put_win w (wd\<lparr>w_hWnd := None\<rparr>) g))"

text \<open>\<open>delete window\<close>: the destructor runs \<open>Delete\<close>, then the memory is gone.\<close>

definition delete_window :: "nat \<Rightarrow> gui \<Rightarrow> gui res" where
  "delete_window w g = rbind (Delete_w w g) (\<lambda>g. Inr (g\<lparr>wins := (wins g)(w := None)\<rparr>))"

subsection \<open>Creating a window\<close>

definition InitApp :: "win32 \<Rightarrow> window \<Rightarrow> int" where
  "InitApp api wd = RegisterClassEx api (w_id wd)"

definition InitInstance :: "win32 \<Rightarrow> nat \<Rightarrow> gui \<Rightarrow> (bool \<times> gui) res" where
  "InitInstance api w g = rbind (win w g) (\<lambda>wd.
     let h = CreateWindowEx api (w_id wd) (w_title wd) (w_style wd)
           (AdjustWindowRect api (w_style wd) (getWidth_w wd, getHeight_w wd));
         g = put_win w (wd\<lparr>w_hWnd := h\<rparr>) g
     in Inr (case h of None \<Rightarrow> (False, g) | Some _ \<Rightarrow> (True, call (Show h True) g)))"

definition Initialize_w :: "win32 \<Rightarrow> nat \<Rightarrow> gui \<Rightarrow> (bool \<times> gui) res" where
  "Initialize_w api w g = rbind (win w g) (\<lambda>wd.
     if InitApp api wd = 0 then Inr (False, g)
     else rbind (InitInstance api w g) (\<lambda>(ok, g).
       if \<not> ok then Inr (False, g)
       else rbind (win w g) (\<lambda>wd.
         let g = (case w_hWnd wd of None \<Rightarrow> g | Some h \<Rightarrow> g\<lparr>userdata := (userdata g)(h \<mapsto> w)\<rparr>)
         in Inr (True, call (Refresh (w_hWnd wd)) g))))"

definition WS_OVERLAPPEDWINDOW :: int where
  "WS_OVERLAPPEDWINDOW = 13565952"

text \<open>The constructor, on a fresh address \<open>w\<close>; it drops the result of \<open>Initialize\<close>. A handle
  that was never assigned is modelled as null.\<close>

definition Window :: "win32 \<Rightarrow> nat \<Rightarrow> string \<Rightarrow> gui \<Rightarrow> gui res" where
  "Window api w s g = rbind (Initialize_w api w (put_win w
     \<lparr>w_id = s, w_title = [], w_style = WS_OVERLAPPEDWINDOW, w_width = 640, w_height = 480,
      w_obj = [], w_hWnd = None\<rparr> g)) (\<lambda>(ok, g). Inr g)"

subsection \<open>Messages\<close>

datatype wmsg = WM_CREATE | WM_PAINT | WM_SIZE int | WM_CLOSE | WM_COMMAND | WM_DESTROY | WM_Other int

text \<open>
  The window procedure on the handle \<open>h\<close>: its result and the new state. The window pointer
  is null while the handle has no user data. The parameter of \<open>WM_SIZE\<close> holds width and
  height in its two 16-bit halves.
\<close>

definition WndProc :: "win32 \<Rightarrow> nat \<Rightarrow> wmsg \<Rightarrow> gui \<Rightarrow> (int \<times> gui) res" where
  "WndProc api h msg g = (case msg of
     WM_PAINT \<Rightarrow> (case userdata g h of
         None \<Rightarrow> Inr (0, g)
       | Some w \<Rightarrow> rbind (win w g) (\<lambda>_. Inr (0, call (Paint (Some h) w) g)))
   | WM_SIZE lp \<Rightarrow> (case userdata g h of
         None \<Rightarrow> Inr (0, g)
       | Some w \<Rightarrow> rbind (win w g) (\<lambda>wd.
           Inr (0, put_win w (setHeight_w (and (drop_bit 16 lp) 65535) (setWidth_w (and lp 65535) wd)) g)))
   | WM_CLOSE \<Rightarrow> (case userdata g h of
         None \<Rightarrow> Inr (0, g)
       | Some w \<Rightarrow> rbind (delete_window w g) (\<lambda>g. Inr (0, g)))
   | WM_Other m \<Rightarrow> Inr (DefWindowProc api h m, g)
   | _ \<Rightarrow> Inr (0, g))"

subsection \<open>The mouse\<close>

text \<open>
  The position of the cursor on the screen is an argument where it is read and a result where
  it is set. The window is looked up by its identifier and title.
\<close>

record mouse =
  m_wnd :: nat
  m_pt :: "int \<times> int"

definition Mouse_Pos :: "win32 \<Rightarrow> int \<times> int \<Rightarrow> gui \<Rightarrow> mouse \<Rightarrow> ((int \<times> int) \<times> mouse) res" where
  "Mouse_Pos api cursor g m = rbind (getID (m_wnd m) g) (\<lambda>s. rbind (getTitle (m_wnd m) g) (\<lambda>t.
     let q = ScreenToClient api (FindWindow api s t) cursor in Inr (q, m\<lparr>m_pt := q\<rparr>)))"

definition Mouse_setPos :: "win32 \<Rightarrow> int \<Rightarrow> int \<Rightarrow> gui \<Rightarrow> mouse \<Rightarrow> ((int \<times> int) \<times> mouse) res" where
  "Mouse_setPos api x y g m = rbind (getID (m_wnd m) g) (\<lambda>s. rbind (getTitle (m_wnd m) g) (\<lambda>t.
     let q = ClientToScreen api (FindWindow api s t) (x, y) in Inr (q, m\<lparr>m_pt := q\<rparr>)))"

text \<open>\<open>pt\<close> is what \<open>Pos()\<close> returns: the cursor in the coordinates of the window's client area;
  \<open>btn\<close> the key state of a button. The second test of each condition tests x again.\<close>

datatype m_button = M_LEFT | M_RIGHT

definition Click :: "int \<times> int \<Rightarrow> (m_button \<Rightarrow> byte) \<Rightarrow> window \<Rightarrow> m_button \<Rightarrow> bool" where
  "Click pt btn wd button = (
     if button = M_LEFT \<and> fst pt \<ge> 0 \<and> fst pt < getWidth_w wd \<and> fst pt \<ge> 0 \<and> snd pt < getHeight_w wd
     then and (btn M_LEFT) 128 \<noteq> 0
     else if button = M_RIGHT \<and> fst pt \<ge> 0 \<and> fst pt < getWidth_w wd \<and> fst pt \<ge> 0 \<and> snd pt < getHeight_w wd
     then and (btn M_RIGHT) 128 \<noteq> 0
     else False)"

definition onLeftClick :: "(m_button \<Rightarrow> byte) \<Rightarrow> bool" where
  "onLeftClick btn \<longleftrightarrow> and (btn M_LEFT) 128 \<noteq> 0"

definition onRightClick :: "(m_button \<Rightarrow> byte) \<Rightarrow> bool" where
  "onRightClick btn \<longleftrightarrow> and (btn M_RIGHT) 128 \<noteq> 0"

subsection \<open>The application loop\<close>

text \<open>The application: the list of its windows and the store.\<close>

type_synonym app = "nat list \<times> gui"

definition createWindow :: "win32 \<Rightarrow> nat \<Rightarrow> string \<Rightarrow> app \<Rightarrow> app res" where
  "createWindow api w s a = rbind (Window api w s (snd a)) (\<lambda>g. Inr (fst a @ [w], g))"

definition exit_app :: "app \<Rightarrow> app" where
  "exit_app a = (fst a, (snd a)\<lparr>quit := True\<rparr>)"

text \<open>\<open>remove_if\<close> with \<open>isDeleted\<close>.\<close>

fun remove_deleted :: "win32 \<Rightarrow> nat list \<Rightarrow> gui \<Rightarrow> nat list res" where
  "remove_deleted api [] g = Inr []"
| "remove_deleted api (w # ws) g = rbind (isDeleted api w g) (\<lambda>d.
     rbind (remove_deleted api ws g) (\<lambda>r. Inr (if d then r else w # r)))"

text \<open>
  One round of the loop of \<open>winMain\<close>: at most one message, the removal of closed windows, the
  program's own \<open>main\<close> and an update and drawing of every window. \<open>Inl\<close> of the result is the
  end of the loop: the quit message, which Windows delivers when no other is waiting.
\<close>

definition app_round :: "win32 \<Rightarrow> (app \<Rightarrow> app res) \<Rightarrow> (nat \<times> wmsg) option \<Rightarrow> app \<Rightarrow> (app + app) res" where
  "app_round api main m a = (case a of (ws, g) \<Rightarrow>
     if m = None \<and> quit g then Inr (Inl a)
     else rbind (case m of None \<Rightarrow> Inr g | Some (h, msg) \<Rightarrow> rbind (WndProc api h msg g) (\<lambda>(_, g). Inr g)) (\<lambda>g.
       rbind (remove_deleted api ws g) (\<lambda>ws.
       let g = (if ws = [] then g\<lparr>quit := True\<rparr> else g) in
       rbind (main (ws, call Main g)) (\<lambda>(ws, g).
       rbind (foldM (\<lambda>w g. rbind (Update_w w g) (Draw_w w)) ws g) (\<lambda>g. Inr (Inr (ws, g)))))))"

subsection \<open>Lemmas\<close>

lemma win_put [simp]: "win w (put_win w wd g) = Inr wd"
  by (simp add: win_def put_win_def)

lemma win_put_other: "v \<noteq> w \<Longrightarrow> win v (put_win w wd g) = win v g"
  by (simp add: win_def put_win_def)

lemma win_call [simp]: "win w (call c g) = win w g"
  by (simp add: win_def call_def)

lemma win_fold_call [simp]: "win w (fold (\<lambda>x. call (f x)) xs g) = win w g"
  by (induction xs arbitrary: g) auto

lemma calls_fold: "calls (fold (\<lambda>x. call (f x)) xs g) = calls g @ map f xs"
  by (induction xs arbitrary: g) (auto simp: call_def)

lemma win_parent [simp]: "win w (g\<lparr>parent := p\<rparr>) = win w g"
  by (simp add: win_def)

text \<open>Adding an object to a second window leaves it in the first one too, so from then on both
  windows update, draw and finally delete it; only its parent changes.\<close>

theorem moved_object_in_both:
  assumes "win w1 g = Inr wd1" "win w2 g = Inr wd2" "w1 \<noteq> w2" "parent g obj = Some w1" "obj \<in> set (w_obj wd1)"
  shows "\<exists>g'. AddObject w2 obj g = Inr g' \<and> parent g' obj = Some w2 \<and>
    (\<exists>h1 h2. Draw_w w1 g' = Inr h1 \<and> Draw_w w2 g' = Inr h2 \<and>
      DrawObj obj \<in> set (drop (length (calls g')) (calls h1)) \<and>
      DrawObj obj \<in> set (drop (length (calls g')) (calls h2)))"
proof -
  have "w_obj wd1 \<noteq> []" using assms(5) by auto
  then have s: "SetWindow obj w2 g = Inr (g\<lparr>parent := (parent g)(obj \<mapsto> w2)\<rparr>)"
    using assms(1,4) by (simp add: SetWindow_def DeleteObject_def)
  define g' where "g' = call (InitializeObj obj) (put_win w2 (wd2\<lparr>w_obj := w_obj wd2 @ [obj]\<rparr>)
    (g\<lparr>parent := (parent g)(obj \<mapsto> w2)\<rparr>))"
  have a: "AddObject w2 obj g = Inr g'"
    using s assms(2) by (simp add: AddObject_def g'_def)
  have w: "win w1 g' = Inr wd1" "win w2 g' = Inr (wd2\<lparr>w_obj := w_obj wd2 @ [obj]\<rparr>)"
    using assms(1,3) by (simp_all add: g'_def win_put_other)
  have d: "\<exists>h. Draw_w v g' = Inr h \<and> DrawObj obj \<in> set (drop (length (calls g')) (calls h))"
    if "win v g' = Inr wd" "obj \<in> set (w_obj wd)" for v wd
    using that by (auto simp: Draw_w_def call_def [of "Refresh _"] Let_def calls_fold split: option.splits)
  have "parent g' obj = Some w2" by (simp add: g'_def call_def put_win_def)
  moreover obtain h1 where "Draw_w w1 g' = Inr h1"
    "DrawObj obj \<in> set (drop (length (calls g')) (calls h1))" using d [OF w(1) assms(5)] by blast
  moreover obtain h2 where "Draw_w w2 g' = Inr h2"
    "DrawObj obj \<in> set (drop (length (calls g')) (calls h2))" using d [OF w(2)] by auto
  ultimately show ?thesis using a by blast
qed

definition window_a :: window where
  "window_a = \<lparr>w_id = ''a'', w_title = [], w_style = 0, w_width = 9, w_height = 9,
     w_obj = [5], w_hWnd = Some 2\<rparr>"

definition two_windows :: gui where
  "two_windows = \<lparr>wins = [2 \<mapsto> window_a, 3 \<mapsto> window_a\<lparr>w_obj := [], w_hWnd := Some 3\<rparr>],
     parent = [5 \<mapsto> 2], userdata = [2 \<mapsto> 2, 3 \<mapsto> 3], quit = False, calls = []\<rparr>"

definition plain_win32 :: win32 where
  "plain_win32 = \<lparr>AdjustWindowRect = (\<lambda>_ r. r), RegisterClassEx = (\<lambda>_. 1),
     CreateWindowEx = (\<lambda>_ _ _ _. Some 4), IsWindowEnabled = (\<lambda>_. True), DefWindowProc = (\<lambda>_ _. 0),
     IsWindowVisible = (\<lambda>_. True), GetActiveWindow = Some 2, FindWindow = (\<lambda>_ _. Some 2),
     ScreenToClient = (\<lambda>_ p. p), ClientToScreen = (\<lambda>_ p. p)\<rparr>"

lemma two_windows:
  "win 2 two_windows = Inr window_a" "win 3 two_windows = Inr (window_a\<lparr>w_obj := [], w_hWnd := Some 3\<rparr>)"
  "parent two_windows 5 = Some 2" "userdata two_windows 2 = Some 2" "5 \<in> set (w_obj window_a)"
  by (simp_all add: two_windows_def win_def window_a_def)

theorem moved_object_in_both_witness:
  "\<exists>g'. AddObject 3 5 two_windows = Inr g' \<and> parent g' 5 = Some 3 \<and>
    (\<exists>h1 h2. Draw_w 2 g' = Inr h1 \<and> Draw_w 3 g' = Inr h2 \<and>
      DrawObj 5 \<in> set (drop (length (calls g')) (calls h1)) \<and>
      DrawObj 5 \<in> set (drop (length (calls g')) (calls h2)))"
  by (rule moved_object_in_both [OF two_windows(1,2) _ two_windows(3,5)]) simp

lemma delete_window_gone:
  "delete_window w g = Inr g' \<Longrightarrow> wins g' w = None"
  by (auto simp: delete_window_def rbind_eq_Inr)

lemma delete_window_total: "win w g = Inr wd \<Longrightarrow> \<exists>g'. delete_window w g = Inr g'"
  by (simp add: delete_window_def Delete_w_def Let_def)

lemma remove_deleted_gone:
  "w \<in> set ws \<Longrightarrow> wins g w = None \<Longrightarrow> remove_deleted api ws g = Inl OutOfBounds \<or>
    (\<exists>r. remove_deleted api ws g = Inl r)"
  by (induction ws) (auto simp: isDeleted_def win_def rbind_def split: sum.splits option.splits)

lemma remove_deleted_error: "remove_deleted api ws g = Inl e \<Longrightarrow> e = OutOfBounds"
  by (induction ws) (auto simp: isDeleted_def win_def rbind_def split: sum.splits option.splits)

text \<open>C37: closing a window of the application frees it while the application still holds its
  pointer: in the same round of the loop the search for closed windows reads the freed window.\<close>

theorem close_reads_freed:
  assumes "userdata g h = Some w" "win w g = Inr wd" "w \<in> set ws"
  shows "app_round api main (Some (h, WM_CLOSE)) (ws, g) = Inl OutOfBounds"
proof -
  obtain g' where g': "delete_window w g = Inr g'" using delete_window_total [OF assms(2)] by blast
  then have "wins g' w = None" by (rule delete_window_gone)
  then have "remove_deleted api ws g' = Inl OutOfBounds"
    using remove_deleted_gone [OF assms(3)] remove_deleted_error by metis
  with g' assms(1) show ?thesis by (simp add: app_round_def WndProc_def)
qed

theorem close_reads_freed_witness:
  "app_round plain_win32 Inr (Some (2, WM_CLOSE)) ([2, 3], two_windows) = Inl OutOfBounds"
  by (rule close_reads_freed [OF two_windows(4,1)]) simp

text \<open>\<open>WM_SIZE\<close> gives the window the width and the height that its parameter packs into two
  16-bit halves, and changes no other window.\<close>

theorem size_message:
  assumes "userdata g h = Some w" "win w g = Inr wd" "0 \<le> x" "x < 65536" "0 \<le> y" "y < 65536"
  shows "WndProc api h (WM_SIZE (x + y * 65536)) g =
    Inr (0, put_win w (wd\<lparr>w_width := x, w_height := y\<rparr>) g)"
proof -
  have "and (x + y * 65536) 65535 = x"
    using assms(3,4) take_bit_eq_mod [of 16 "x + y * 65536"]
    by (simp add: take_bit_eq_mask mask_eq_exp_minus_1)
  moreover have "and (drop_bit 16 (x + y * 65536)) 65535 = y"
    using assms(3-6) take_bit_eq_mod [of 16 y]
    by (simp add: drop_bit_eq_div take_bit_eq_mask mask_eq_exp_minus_1)
  ultimately show ?thesis
    using assms(1,2) by (simp add: WndProc_def setWidth_w_def setHeight_w_def)
qed

theorem size_message_witness:
  "WndProc plain_win32 2 (WM_SIZE (640 + 480 * 65536)) two_windows =
    Inr (0, put_win 2 (window_a\<lparr>w_width := 640, w_height := 480\<rparr>) two_windows)"
  by (rule size_message [OF two_windows(4,1)]) simp_all

subsection \<open>The cursor\<close>

text \<open>
  A cursor that is set through the mouse is read back through it, as long as Windows converts
  the coordinates of the window the other way round and back to where they were.
\<close>

theorem cursor_roundtrip:
  assumes "Mouse_setPos api x y g m = Inr (cursor, m')"
    and "\<And>h p. ScreenToClient api h (ClientToScreen api h p) = p"
  shows "\<exists>m''. Mouse_Pos api cursor g m' = Inr ((x, y), m'')"
  using assms by (auto simp: Mouse_setPos_def Mouse_Pos_def rbind_def Let_def split: sum.splits)

theorem cursor_roundtrip_witness: "\<exists>m. Mouse_Pos plain_win32 (7, 8) two_windows \<lparr>m_wnd = 2, m_pt = (7, 8)\<rparr> = Inr ((7, 8), m)"
proof -
  have "Mouse_setPos plain_win32 7 8 two_windows \<lparr>m_wnd = 2, m_pt = (0, 0)\<rparr> = Inr ((7, 8), \<lparr>m_wnd = 2, m_pt = (7, 8)\<rparr>)"
    by (simp add: Mouse_setPos_def getID_def getTitle_def two_windows plain_win32_def Let_def)
  from cursor_roundtrip [OF this] show ?thesis by (simp add: plain_win32_def)
qed

text \<open>A window that has been closed but not yet removed counts as active while no other is.\<close>

lemma closed_is_active:
  assumes "win w g = Inr wd" "w_hWnd wd = None" "GetActiveWindow api = None"
  shows "isActive api w g = Inr True"
  using assms by (simp add: isActive_def)

end
