(* ===== verification/ClusterWindow.thy ===== *)
theory ClusterWindow
  imports ClusterApp BrainWaves Windows
begin

text \<open>
  The two windows of the clustering program (\<open>main\<close>, \<open>window_main\<close> and \<open>input_window_main\<close> of
  \<open>Clustering/main.cpp\<close>): the picture of the camera with the square around the mouse and the
  features found in it, and the dialog for the description of an unknown label. What the camera
  delivers, the features OpenCV finds, the position of the mouse and the repository of
  descriptions, whose source is not in the repository, are arguments.
\<close>

subsection \<open>The program\<close>

record cluster_app =
  a_background :: bi_image
  a_label :: "int option"
  a_count :: int
  a_range :: int
  a_key :: key
  a_shared :: key_shared
  a_gui :: gui
  a_window :: nat
  a_input :: nat
  a_edit :: nat

definition mouse_square :: "int \<times> int \<Rightarrow> int \<Rightarrow> square res" where
  "mouse_square pt rng = Apex_rect (s32 (fst pt - rng sdiv 2)) (s32 (snd pt - rng sdiv 2)) rng rng
     (square_Color (PixelRGB 255 0 0) (replicate 4 Line0))"

text \<open>
  What is shown for a label: its description, or the dialog to type one. The result is what has
  been written into the title by then; \<open>title.clear()\<close> does not empty it.
\<close>

definition show_label :: "(int \<Rightarrow> string res) \<Rightarrow> cluster_app \<Rightarrow> (string \<times> cluster_app) res" where
  "show_label describe app = (case a_label app of None \<Rightarrow> Inl Uninit | Some l \<Rightarrow>
     (case describe l of
       Inr data \<Rightarrow> Inr ([], app\<lparr>a_gui := call (MessageBox data data) (a_gui app)\<rparr>)
     | Inl (Thrown m) \<Rightarrow> rbind (show_w (a_input app) (a_gui app)) (\<lambda>g.
         rbind (setTitle (a_input app) (dec_str l) (call (SetTitle (Some (a_edit app)) []) g)) (\<lambda>g.
         Inr (dec_str l, app\<lparr>a_gui := g\<rparr>)))
     | Inl e \<Rightarrow> Inl e))"

definition clicked :: "'w sqlite \<Rightarrow> (int \<Rightarrow> string res) \<Rightarrow> surf list \<Rightarrow> cluster_app \<times> 'w db \<Rightarrow>
    (string \<times> cluster_app \<times> 'w db) res" where
  "clicked api describe found = (\<lambda>(app, db). case getLabelFromFeatureList api ''image'' found db of (r, db) \<Rightarrow>
     rbind (click_label r (a_label app)) (\<lambda>l. rbind (show_label describe (app\<lparr>a_label := l\<rparr>)) (\<lambda>(s, app).
     Inr (s, app, db))))"

text \<open>The two pictures are those of the two calls of \<open>camera.Image()\<close>.\<close>

definition window_main :: "'w sqlite \<Rightarrow> (int \<Rightarrow> string res) \<Rightarrow> (bi_image \<Rightarrow> surf list) \<Rightarrow> int \<times> int \<Rightarrow>
    (m_button \<Rightarrow> byte) \<Rightarrow> bi_image res \<Rightarrow> bi_image res \<Rightarrow> cluster_app \<times> 'w db \<Rightarrow> (cluster_app \<times> 'w db) res" where
  "window_main api describe getSurf pt btn cam1 cam2 = (\<lambda>(app, db).
     rbind (mouse_square pt (a_range app)) (\<lambda>sq.
     rbind cam1 (\<lambda>im. rbind (Paste 0 0 im 100 (a_background app)) (\<lambda>bg. rbind (square_Draw sq bg) (\<lambda>bg.
     rbind cam2 (\<lambda>im2. let found = getInAreaFeaturePoint pt (a_range app) (getSurf im2) in
     rbind (win (a_window app) (a_gui app)) (\<lambda>wd.
     rbind (if Click pt btn wd M_LEFT then clicked api describe found (app, db) else Inr ([], app, db)) (\<lambda>(title, app, db).
     rbind (displayFeaturePoint found bg) (\<lambda>bg.
     case a_label app of None \<Rightarrow> Inl Uninit | Some l \<Rightarrow>
     rbind (setTitle (a_window app)
       (title @ ''label:['' @ dec_str l @ '']: count['' @ dec_str (a_count app) @ '']'') (a_gui app)) (\<lambda>g.
     Inr (app\<lparr>a_background := bg, a_gui := g\<rparr>, db)))))))))))"

definition label_set :: "int option \<Rightarrow> int res" where
  "label_set l = (case l of None \<Rightarrow> Inl Uninit | Some n \<Rightarrow> Inr n)"

definition VK_RETURN :: int where
  "VK_RETURN = 13"

text \<open>\<open>ks\<close> is the keyboard, \<open>len\<close> and \<open>txt\<close> what the edit control answers.\<close>

definition input_window_main :: "byte list \<Rightarrow> nat \<Rightarrow> (nat \<Rightarrow> string) \<Rightarrow> (int \<Rightarrow> string \<Rightarrow> 'v \<Rightarrow> unit res \<times> 'v) \<Rightarrow>
    cluster_app \<times> 'v \<Rightarrow> (cluster_app \<times> 'v) res" where
  "input_window_main ks len txt store = (\<lambda>(app, v).
     rbind (Update ks (a_shared app)) (\<lambda>(key, sh).
     let app = app\<lparr>a_key := key, a_shared := sh\<rparr> in
     rbind (State VK_RETURN key) (\<lambda>enter.
     if \<not> enter then Inr (app, v)
     else rbind (if len > 0
         then rbind (typed_text len txt) (\<lambda>str. rbind (label_set (a_label app)) (\<lambda>l. case store l str v of
             (Inr _, v) \<Rightarrow> Inr (app, v)
           | (Inl (Thrown m), v) \<Rightarrow> Inr (app\<lparr>a_gui := call (MessageBox m m) (a_gui app)\<rparr>, v)
           | (Inl e, v) \<Rightarrow> Inl e))
         else Inr (app, v)) (\<lambda>(app, v).
       rbind (hide_w (a_input app) (a_gui app)) (\<lambda>g. Inr (app\<lparr>a_gui := g\<rparr>, v))))))"

text \<open>
  One turn of the thread that learns in the background: a frame, the learning, and the count that
  the title shows.
\<close>

definition thread_round :: "'w sqlite \<Rightarrow> (cfloat \<Rightarrow> cfloat \<Rightarrow> cfloat) \<Rightarrow> (nat \<Rightarrow> int) \<Rightarrow> setting \<Rightarrow>
    (bi_image \<Rightarrow> surf list) \<Rightarrow> bi_image res \<Rightarrow> cluster_app \<times> cfloat list \<times> 'w db \<Rightarrow>
    (cluster_app \<times> cfloat list \<times> 'w db) res" where
  "thread_round api pow rnd st getSurf cam = (\<lambda>(app, s). case learn_thread_round api pow rnd st getSurf cam s of
     (Inr _, s) \<Rightarrow> Inr (app\<lparr>a_count := s32 (a_count app + 1)\<rparr>, s)
   | (Inl e, _) \<Rightarrow> Inl e)"

definition main_clustering :: "win32 \<Rightarrow> (cluster_app \<times> 'w db \<Rightarrow> (cluster_app \<times> 'w db) res) \<Rightarrow>
    (cluster_app \<times> 'w db \<Rightarrow> (cluster_app \<times> 'w db) res) \<Rightarrow> cluster_app \<times> 'w db \<Rightarrow> (cluster_app \<times> 'w db) res" where
  "main_clustering api wmain imain st =
     rbind (isActive api (a_window (fst st)) (a_gui (fst st))) (\<lambda>active.
     if active then wmain st
     else rbind (isActive api (a_input (fst st)) (a_gui (fst st))) (\<lambda>active.
       if active then imain st else Inr st))"

subsection \<open>Lines that leave the picture\<close>

lemma major_loop_keeps:
  assumes m: "\<bar>m\<bar> \<le> \<bar>M\<bar>" and small: "(\<bar>M\<bar> + 1) * (\<bar>m\<bar> + 1) < 2 ^ 31"
    and plot: "\<And>k d t. 0 \<le> k \<Longrightarrow> k \<le> \<bar>M\<bar> \<Longrightarrow> 0 \<le> d \<Longrightarrow> d \<le> \<bar>m\<bar> \<Longrightarrow> shape_of t = shape_of im \<Longrightarrow>
      \<exists>t'. plot k d t = Inr t' \<and> shape_of t' = shape_of im"
  shows "\<exists>t. major_loop M m plot im = Inr t \<and> shape_of t = shape_of im"
proof -
  let ?st = "\<lambda>k. (ideal M m k * M, k * m, ideal M m k)"
  let ?P = "\<lambda>k (st, t). st = ?st k \<and> shape_of t = shape_of im"
  let ?f = "\<lambda>k (st, im). rbind (plot k (snd (snd st)) im) (\<lambda>im. Inr (minor_step M m st, im))"
  have "\<exists>s. foldM ?f [0..\<bar>M\<bar>] (?st 0, im) = Inr s \<and> ?P (\<bar>M\<bar> + 1) s"
  proof (rule upto_loop)
    fix k s assume k: "0 \<le> k" "k \<le> \<bar>M\<bar>" and P: "?P k s"
    obtain t where s: "s = (?st k, t)" "shape_of t = shape_of im" using P by (cases s) auto
    obtain t' where "plot k (ideal M m k) t = Inr t'" "shape_of t' = shape_of im"
      using plot [OF k ideal_nonneg [OF k(1)] ideal_le [OF k] s(2)] by blast
    then show "\<exists>s'. ?f k s = Inr s' \<and> ?P (k + 1) s'"
      using minor_step_ideal [OF k m small] s by simp
  qed auto
  then show ?thesis by (auto simp: major_loop_def)
qed

text \<open>
  A line whose end points may lie outside, but not more than one extent to the left or above,
  and whose two lengths do not overflow the error terms.
\<close>

definition near_line :: "bi_image \<Rightarrow> line \<Rightarrow> bool" where
  "near_line im l \<longleftrightarrow> - width im \<le> px (pt0 l) \<and> - height im \<le> py (pt0 l) \<and>
     - width im \<le> px (pt1 l) \<and> - height im \<le> py (pt1 l) \<and>
     \<bar>px (pt0 l)\<bar> < 2 ^ 30 \<and> \<bar>py (pt0 l)\<bar> < 2 ^ 30 \<and> \<bar>px (pt1 l)\<bar> < 2 ^ 30 \<and> \<bar>py (pt1 l)\<bar> < 2 ^ 30 \<and>
     (\<bar>px (pt1 l) - px (pt0 l)\<bar> + 1) * (\<bar>py (pt1 l) - py (pt0 l)\<bar> + 1) < 2 ^ 31"

lemma line_Draw_near:
  assumes wf: "wf_img im" "0 < width im" "0 < height im" and l: "near_line im l"
  shows "\<exists>t. line_Draw l im = Inr t \<and> shape_of t = shape_of im"
proof -
  let ?x0 = "px (pt0 l)" and ?y0 = "py (pt0 l)"
  let ?W = "px (pt1 l) - ?x0" and ?H = "py (pt1 l) - ?y0"
  let ?plot = "\<lambda>dx dy. Put (if 0 \<le> ?W then s32 (?x0 + dx) else s32 (?x0 - dx))
    (if 0 \<le> ?H then s32 (?y0 + dy) else s32 (?y0 - dy)) (mcolor l)"
  have ext: "s32 ?W = ?W" "s32 ?H = ?H"
    using l by (intro s32_id int32_abs; auto simp: near_line_def)+
  have small: "(\<bar>?W\<bar> + 1) * (\<bar>?H\<bar> + 1) < 2 ^ 31" "(\<bar>?H\<bar> + 1) * (\<bar>?W\<bar> + 1) < 2 ^ 31"
    using l by (simp_all add: near_line_def mult.commute)
  have plot: "\<exists>t'. ?plot dx dy t = Inr t' \<and> shape_of t' = shape_of im"
    if "0 \<le> dx" "dx \<le> \<bar>?W\<bar>" "0 \<le> dy" "dy \<le> \<bar>?H\<bar>" "shape_of t = shape_of im" for dx dy t
  proof -
    define x where "x = (if 0 \<le> ?W then ?x0 + dx else ?x0 - dx)"
    define y where "y = (if 0 \<le> ?H then ?y0 + dy else ?y0 - dy)"
    have xy: "- width im \<le> x" "- height im \<le> y" "\<bar>x\<bar> < 2 ^ 30" "\<bar>y\<bar> < 2 ^ 30"
      using l that(1-4) by (auto simp: near_line_def x_def y_def split: if_splits)
    have "s32 x = x" "s32 y = y" using xy(3,4) by (intro s32_id int32_abs; simp)+
    then have eq: "?plot dx dy t = Put x y (mcolor l) t" by (auto simp: x_def y_def)
    have t: "wf_img t" "width t = width im" "height t = height im"
      using wf_shape [OF that(5) wf(1)] that(5) by (simp_all add: shape_eq)
    show ?thesis unfolding eq using Put_shape [OF t(1), of x y "mcolor l"] t(2,3) wf(2,3) xy(1,2) that(5) by auto
  qed
  have draw: "line_Draw l im = (if \<bar>?H\<bar> \<le> \<bar>?W\<bar> then major_loop ?W ?H ?plot im
    else major_loop ?H ?W (\<lambda>dy dx. ?plot dx dy) im)"
    by (simp only: line_Draw_def Let_def ext)
  show ?thesis
  proof (cases "\<bar>?H\<bar> \<le> \<bar>?W\<bar>")
    case True
    then show ?thesis unfolding draw if_P [OF True] by (rule major_loop_keeps [OF _ small(1) plot])
  next
    case False
    then have "\<bar>?W\<bar> \<le> \<bar>?H\<bar>" by simp
    then show ?thesis unfolding draw if_not_P [OF False] by (rule major_loop_keeps [OF _ small(2) plot])
  qed
qed

lemma square_Draw_near:
  assumes "wf_img im" "0 < width im" "0 < height im" "list_all (near_line im) sq"
  shows "\<exists>t. square_Draw sq im = Inr t \<and> shape_of t = shape_of im"
  unfolding square_Draw_def
proof (rule foldM_invariant)
  fix l t assume *: "l \<in> set sq" "shape_of t = shape_of im"
  then have "near_line t l" using assms(4) by (auto simp: list_all_iff near_line_def shape_eq)
  then show "\<exists>s'. line_Draw l t = Inr s' \<and> shape_of s' = shape_of im"
    using line_Draw_near [of t l] wf_shape [OF *(2) assms(1)] assms(2,3) *(2) by (auto simp: shape_eq)
qed simp

lemma mouse_square_lines:
  assumes "\<bar>fst pt\<bar> < 2 ^ 28" "\<bar>snd pt\<bar> < 2 ^ 28" "0 \<le> rng" "rng < 2 ^ 28"
  defines "x \<equiv> fst pt - rng sdiv 2" and "y \<equiv> snd pt - rng sdiv 2"
  shows "mouse_square pt rng = Inr (map (\<lambda>(a, b). \<lparr>pt0 = a, pt1 = b, mcolor = PixelRGB 255 0 0\<rparr>)
    [(Pos x y, Pos (x + rng) y), (Pos (x + rng) y, Pos (x + rng) (y + rng)),
     (Pos (x + rng) (y + rng), Pos x (y + rng)), (Pos x (y + rng), Pos x y)])"
proof -
  have half: "0 \<le> rng sdiv 2" "rng sdiv 2 \<le> rng"
    using assms(3) by (cases "rng = 0"; simp add: signed_divide_int_def sgn_if)+
  have "s32 (fst pt - rng sdiv 2) = x" "s32 (snd pt - rng sdiv 2) = y" "s32 (x + rng) = x + rng" "s32 (y + rng) = y + rng"
    unfolding x_def y_def using half assms(1-4) by (simp_all add: int32_abs)
  then show ?thesis
    by (simp add: mouse_square_def Apex_rect_def Let_def set_edge_def upd_line_def line_Start_def line_End_def
        square_Color_def line_Color_def Line0_def Pos_def eval_nat_numeral)
qed

lemma mouse_square_near:
  assumes "\<bar>fst pt\<bar> < 2 ^ 28" "\<bar>snd pt\<bar> < 2 ^ 28" "0 \<le> rng" "rng < 2 ^ 28"
    and "- width im \<le> fst pt - rng sdiv 2" "- height im \<le> snd pt - rng sdiv 2"
  shows "\<exists>sq. mouse_square pt rng = Inr sq \<and> list_all (near_line im) sq"
proof -
  have half: "0 \<le> rng sdiv 2" "rng sdiv 2 \<le> rng"
    using assms(3) by (cases "rng = 0"; simp add: signed_divide_int_def sgn_if)+
  have "(rng + 1) * (0 + 1) < 2 ^ 31" using assms(4) by simp
  then show ?thesis
    using assms half by (simp add: mouse_square_lines [OF assms(1-4)] near_line_def Pos_def) linarith
qed

subsection \<open>A frame of the picture window\<close>

definition frame_title :: "int \<Rightarrow> int \<Rightarrow> string" where
  "frame_title l n = ''label:['' @ dec_str l @ '']: count['' @ dec_str n @ '']''"

text \<open>
  C13: one round of the picture window without a click. The picture has at least one pixel and
  extents below \<open>2 ^ 23\<close>; both calls of the camera deliver a picture, the first one well formed
  and no larger than the picture of the window; the features found in the second one lie within
  the picture; the mouse and the range are below \<open>2 ^ 28\<close>, and the upper left corner of the square,
  which is the mouse minus half the range, is no farther left of or above the picture than its
  extents. Then the square, which may cross any border, and the markers of the features under it
  stay in the picture, whatever the camera's pixels are; the picture keeps its size, and the
  title names the label and the count. But the title reads the label also before any click has
  set it.
\<close>

theorem window_frame_safe:
  assumes "wf_img (a_background app)" "wf_img im" "width im \<le> width (a_background app)" "height im \<le> height (a_background app)"
    and "0 < width (a_background app)" "0 < height (a_background app)"
    and "list_all (\<lambda>s. pos_in (width (a_background app)) (surf_x s) \<and> pos_in (height (a_background app)) (surf_y s)) (getSurf im2)"
    and "width (a_background app) < 2 ^ 23" "height (a_background app) < 2 ^ 23"
    and "\<bar>fst pt\<bar> < 2 ^ 28" "\<bar>snd pt\<bar> < 2 ^ 28" "0 \<le> a_range app" "a_range app < 2 ^ 28"
    and "- width (a_background app) \<le> fst pt - a_range app sdiv 2" "- height (a_background app) \<le> snd pt - a_range app sdiv 2"
    and "win (a_window app) (a_gui app) = Inr wd" "\<not> Click pt btn wd M_LEFT"
  shows "case a_label app of
      None \<Rightarrow> window_main api describe getSurf pt btn (Inr im) (Inr im2) (app, db) = Inl Uninit
    | Some l \<Rightarrow> \<exists>bg g. window_main api describe getSurf pt btn (Inr im) (Inr im2) (app, db) =
          Inr (app\<lparr>a_background := bg, a_gui := g\<rparr>, db) \<and> wf_img bg \<and> shape_of bg = shape_of (a_background app) \<and>
        win (a_window app) g = Inr (wd\<lparr>w_title := frame_title l (a_count app)\<rparr>)"
proof -
  let ?bg = "a_background app" and ?found = "getInAreaFeaturePoint pt (a_range app) (getSurf im2)"
  obtain sq where sq: "mouse_square pt (a_range app) = Inr sq" "list_all (near_line ?bg) sq"
    using mouse_square_near [OF assms(10-15)] by blast
  obtain t where t: "Paste 0 0 im 100 ?bg = Inr t" "shape_of t = shape_of ?bg"
    using Paste_ok [OF assms(2,1,3,4)] by blast
  have tw: "wf_img t" by (rule wf_shape [OF t(2) assms(1)])
  have "list_all (near_line t) sq" using sq(2) t(2) by (auto simp: list_all_iff near_line_def shape_eq)
  then obtain u where u: "square_Draw sq t = Inr u" "shape_of u = shape_of ?bg"
    using square_Draw_near [OF tw] t(2) assms(5,6) by (auto simp: shape_eq)
  have uw: "wf_img u" by (rule wf_shape [OF u(2) assms(1)])
  have "list_all (\<lambda>s. pos_in (width u) (surf_x s) \<and> pos_in (height u) (surf_y s)) ?found"
    using assms(7) u(2) by (simp add: in_area_filter list_all_iff shape_eq)
  then obtain b where b: "displayFeaturePoint ?found u = Inr b" "shape_of b = shape_of ?bg" "wf_img b"
    using markers_stay [OF uw] u(2) assms(5,6,8,9) by (auto simp: shape_eq)
  have run: "window_main api describe getSurf pt btn (Inr im) (Inr im2) (app, db) = (case a_label app of None \<Rightarrow> Inl Uninit
    | Some l \<Rightarrow> rbind (setTitle (a_window app) (frame_title l (a_count app)) (a_gui app)) (\<lambda>g.
        Inr (app\<lparr>a_background := b, a_gui := g\<rparr>, db)))"
    using assms(16,17) by (simp add: window_main_def Let_def sq t u b frame_title_def split: option.split)
  have title: "\<exists>g. setTitle (a_window app) s (a_gui app) = Inr g \<and> win (a_window app) g = Inr (wd\<lparr>w_title := s\<rparr>)" for s
    by (simp add: setTitle_def assms(16))
  show ?thesis
  proof (cases "a_label app")
    case None
    then show ?thesis by (simp add: run)
  next
    case (Some l)
    obtain g where "setTitle (a_window app) (frame_title l (a_count app)) (a_gui app) = Inr g"
      "win (a_window app) g = Inr (wd\<lparr>w_title := frame_title l (a_count app)\<rparr>)" using title by blast
    then show ?thesis
      unfolding Some option.case by (intro exI [of _ b] exI [of _ g]) (simp add: run Some b(2,3))
  qed
qed

text \<open>A program whose picture has two columns and three rows, with the mouse in its corner.\<close>

definition sample_app :: cluster_app where
  "sample_app = \<lparr>a_background = sample_img, a_label = Some 4, a_count = 7, a_range = 2, a_key = [],
     a_shared = \<lparr>down = [], up = []\<rparr>, a_gui = two_windows, a_window = 2, a_input = 3, a_edit = 9\<rparr>"

lemma sample_app_sel [simp]:
  "a_background sample_app = sample_img" "a_label sample_app = Some 4" "a_count sample_app = 7" "a_range sample_app = 2"
  "a_gui sample_app = two_windows" "a_window sample_app = 2"
  by (simp_all add: sample_app_def)

theorem window_frame_safe_witness:
  "\<forall>api describe db. \<exists>bg g. window_main api describe (\<lambda>_. [\<lparr>surf_x = Fin 0, surf_y = Fin (1 / 2), surf_features = []\<rparr>])
     (0, 0) (\<lambda>_. 0) (Inr sample_img) (Inr sample_img) (sample_app, db) = Inr (sample_app\<lparr>a_background := bg, a_gui := g\<rparr>, db) \<and>
     win 2 g = Inr (window_a\<lparr>w_title := ''label:[4]: count[7]''\<rparr>)"
proof (intro allI)
  fix api :: "'a sqlite" and describe and db :: "'a db"
  let ?surf = "\<lambda>_ :: bi_image. [\<lparr>surf_x = Fin 0, surf_y = Fin (1 / 2), surf_features = []\<rparr>]"
  have title: "frame_title 4 7 = ''label:[4]: count[7]''" by code_simp
  have half: "(2 :: int) sdiv 2 = 1" by code_simp
  have still: "\<not> Click (0, 0) (\<lambda>_. 0) window_a M_LEFT" by (simp add: Click_def getWidth_w_def getHeight_w_def window_a_def)
  have "pos_in 3 (Fin (1 / 2))" unfolding pos_in_def by (rule exI [of _ "1 / 2"]) simp
  moreover have "pos_in 2 (Fin 0)" by (simp add: pos_in_def)
  ultimately have found: "list_all (\<lambda>s. pos_in (width (a_background sample_app)) (surf_x s) \<and>
      pos_in (height (a_background sample_app)) (surf_y s)) (?surf sample_img)" by simp
  have "case a_label sample_app of
      None \<Rightarrow> window_main api describe ?surf (0, 0) (\<lambda>_. 0) (Inr sample_img) (Inr sample_img) (sample_app, db) = Inl Uninit
    | Some l \<Rightarrow> \<exists>bg g. window_main api describe ?surf (0, 0) (\<lambda>_. 0) (Inr sample_img) (Inr sample_img) (sample_app, db) =
          Inr (sample_app\<lparr>a_background := bg, a_gui := g\<rparr>, db) \<and> wf_img bg \<and> shape_of bg = shape_of (a_background sample_app) \<and>
        win (a_window sample_app) g = Inr (window_a\<lparr>w_title := frame_title l (a_count sample_app)\<rparr>)"
    by (rule window_frame_safe [OF _ _ _ _ _ _ found]) (simp_all add: half still two_windows)
  then show "\<exists>bg g. window_main api describe ?surf (0, 0) (\<lambda>_. 0) (Inr sample_img) (Inr sample_img) (sample_app, db) =
      Inr (sample_app\<lparr>a_background := bg, a_gui := g\<rparr>, db) \<and> win 2 g = Inr (window_a\<lparr>w_title := ''label:[4]: count[7]''\<rparr>)"
    unfolding sample_app_sel option.case title by blast
qed

lemma Put_above:
  assumes "0 < width im" "0 < height im" "y < - height im" "\<not> height im dvd y"
  shows "Put x y p im = Inl OutOfBounds"
proof -
  let ?x = "(if x < 0 then width im + x else x) smod width im" and ?y = "(height im + y) smod height im"
  have "?x < width im" using assms(1) by (auto simp: signed_modulo_int_def sgn_if intro: le_less_trans [of _ 0])
  moreover have "?y = - ((- (height im + y)) mod height im)"
    using assms by (simp add: signed_modulo_int_def sgn_if)
  moreover have "\<not> height im dvd - (height im + y)"
    using assms(4) by (simp add: dvd_add_right_iff del: minus_add_distrib)
  then have "0 < (- (height im + y)) mod height im"
    using assms(2) by (simp add: dvd_eq_mod_eq_0 order.not_eq_order_implies_strict del: minus_add_distrib)
  ultimately have "?y \<le> - 1" "?x < width im" by simp_all
  then have "?y * width im \<le> - 1 * width im" using assms(1) by (intro mult_right_mono) simp_all
  with \<open>?x < width im\<close> have "?x + ?y * width im < 0" by linarith
  then have "wrbuf (mimage im) (?x + ?y * width im) p = Inl OutOfBounds" by (intro wrbuf_out) simp
  then show ?thesis using assms by (simp add: Put_def cell_index_def coord_def cmod_def)
qed

text \<open>
  With the mouse more than the height of the picture above it, which the code does not exclude,
  the first pixel of the square is written in front of the buffer.
\<close>

theorem mouse_far_above:
  assumes "Paste 0 0 im 100 (a_background app) = Inr bg" "wf_img bg" "0 < width bg" "0 < height bg"
    and "\<bar>fst pt\<bar> < 2 ^ 28" "\<bar>snd pt\<bar> < 2 ^ 28" "0 \<le> a_range app" "a_range app < 2 ^ 28"
    and "snd pt - a_range app sdiv 2 < - height bg" "\<not> height bg dvd snd pt - a_range app sdiv 2"
  shows "window_main api describe getSurf pt btn (Inr im) cam (app, db) = Inl OutOfBounds"
proof -
  let ?x = "fst pt - a_range app sdiv 2" and ?y = "snd pt - a_range app sdiv 2" and ?n = "a_range app"
  let ?first = "\<lparr>pt0 = Pos ?x ?y, pt1 = Pos (?x + ?n) ?y, mcolor = PixelRGB 255 0 0\<rparr>"
  have half: "0 \<le> ?n sdiv 2" "?n sdiv 2 \<le> ?n"
    using assms(7) by (cases "?n = 0"; simp add: signed_divide_int_def sgn_if)+
  then have s: "s32 ?x = ?x" "s32 ?y = ?y" "s32 ?n = ?n" using assms(5-8) by (simp_all add: int32_abs)
  note put = Put_above [OF assms(3,4,9,10)]
  have "[0..?n] = 0 # [1..?n]" using upto_rec1 [of 0 ?n] assms(7) by simp
  then have "line_Draw ?first bg = Inl OutOfBounds"
    using assms(7) by (simp add: line_Draw_def Pos_def s major_loop_def put)
  then show ?thesis
    using mouse_square_lines [OF assms(5-8)] assms(1) by (simp add: window_main_def square_Draw_def)
qed

subsection \<open>No description is ever saved\<close>

text \<open>
  C22: Whatever is typed as the description of an unknown label is lost. When the return key is
  down the dialog reads the text into a buffer of one character instead of 255, with the length
  of the text as the size, which does not count the terminating zero: a text of one character is
  committed as the empty string, and any longer one is written outside the buffer; an empty one
  only closes the dialog.
\<close>

theorem input_never_saved:
  assumes "\<And>n. 0 < n \<Longrightarrow> txt n = take (n - 1) typed @ [CHR 0x00]"
    and "Update ks (a_shared app) = Inr (ks, sh)" "State VK_RETURN ks = Inr True"
    and "a_label app = Some l" "win (a_input app) (a_gui app) = Inr wd"
  shows "\<exists>g. hide_w (a_input app) (a_gui app) = Inr g \<and>
    (case store l [] v of (r, v') \<Rightarrow>
      input_window_main ks (length typed) txt store (app, v) =
        (if typed = [] then Inr (app\<lparr>a_key := ks, a_shared := sh, a_gui := g\<rparr>, v)
         else if length typed = 1 then (case r of
             Inr _ \<Rightarrow> Inr (app\<lparr>a_key := ks, a_shared := sh, a_gui := g\<rparr>, v')
           | Inl (Thrown m) \<Rightarrow> rbind (hide_w (a_input app) (call (MessageBox m m) (a_gui app))) (\<lambda>g.
               Inr (app\<lparr>a_key := ks, a_shared := sh, a_gui := g\<rparr>, v'))
           | Inl e \<Rightarrow> Inl e)
         else Inl OutOfBounds))"
proof -
  obtain r v' where st: "store l [] v = (r, v')" by fastforce
  have "typed \<noteq> [] \<Longrightarrow> typed_text (length typed) txt = (if length typed = 1 then Inr [] else Inl OutOfBounds)"
    by (rule typed_text_cases [OF assms(1)])
  then show ?thesis
    using assms(2-5) st by (cases r) (auto simp: input_window_main_def label_set_def hide_w_def split: cerr.splits)
qed

theorem input_never_saved_witness:
  "\<exists>ks sh. input_window_main ks 3 (\<lambda>n. take (n - 1) ''cat'' @ [CHR 0x00]) (\<lambda>l s w. (Inr (), w @ [s]))
     (sample_app\<lparr>a_shared := sh\<rparr>, []) = Inl OutOfBounds"
proof -
  define ks :: "byte list" where "ks = (replicate 256 0)[13 := 128]"
  define sh where "sh = snd (Key \<lparr>down = [], up = []\<rparr>)"
  have l: "length ks = 256" by (simp add: ks_def)
  have sh: "length (down sh) = 256" "length (up sh) = 256" by (simp_all add: sh_def Key_def)
  have "\<exists>sh'. Update ks sh = Inr (ks, sh')"
    using Update_polls [OF l, of sh] sh by (auto simp: sizes_def)
  then obtain sh' where u: "Update ks sh = Inr (ks, sh')" ..
  have s: "State VK_RETURN ks = Inr True"
    by (simp add: State_def VK_RETURN_def ks_def)
  have "input_window_main ks 3 (\<lambda>n. take (n - 1) ''cat'' @ [CHR 0x00]) (\<lambda>l s w. (Inr (), w @ [s]))
     (sample_app\<lparr>a_shared := sh\<rparr>, []) = Inl OutOfBounds"
    using input_never_saved [of "\<lambda>n. take (n - 1) ''cat'' @ [CHR 0x00]" "''cat''" ks "sample_app\<lparr>a_shared := sh\<rparr>" sh' 4
      "window_a\<lparr>w_obj := [], w_hWnd := Some 3\<rparr>" "\<lambda>l s w. (Inr (), w @ [s])" "[]"] u s two_windows(2)
    by (simp add: sample_app_def eval_nat_numeral)
  then show ?thesis by blast
qed

end
