(* ===== verification/Sockets.thy ===== *)
theory Sockets
  imports Strings
begin

text \<open>
  Sockets and the network (\<open>SocketClass.cpp\<close>, \<open>NetworkClass.cpp\<close>, the Windows build). The
  calls of Winsock are the fields of the parameter \<open>api\<close>: each takes the state of the outside
  world and returns its result with the new one. A method runs on its socket and the world and
  keeps what it did to both when it throws.
\<close>

subsection \<open>The parameter\<close>

text \<open>
  \<open>gethostbyname\<close> and \<open>gethostbyaddr\<close> give the first address of the host entry, or \<open>None\<close> for
  NULL; \<open>recv\<close> gives its result and the bytes it wrote at the start of the buffer.
\<close>

record 'w winsock =
  WSAStartup :: "'w \<Rightarrow> int \<times> 'w"
  WSACleanup :: "'w \<Rightarrow> 'w"
  ws_socket :: "int \<Rightarrow> 'w \<Rightarrow> int \<times> 'w"
  gethostbyname :: "string \<Rightarrow> 'w \<Rightarrow> int option \<times> 'w"
  inet_addr :: "string \<Rightarrow> int"
  gethostbyaddr :: "int \<Rightarrow> 'w \<Rightarrow> int option \<times> 'w"
  ws_connect :: "int \<Rightarrow> int \<times> int \<Rightarrow> 'w \<Rightarrow> int \<times> 'w"
  ws_shutdown :: "int \<Rightarrow> int \<Rightarrow> 'w \<Rightarrow> int \<times> 'w"
  closesocket :: "int \<Rightarrow> 'w \<Rightarrow> 'w"
  ws_send :: "int \<Rightarrow> string \<Rightarrow> 'w \<Rightarrow> 'w"
  ws_recv :: "int \<Rightarrow> nat \<Rightarrow> 'w \<Rightarrow> (int \<times> string) \<times> 'w"
  ws_bind :: "int \<Rightarrow> int \<times> int \<Rightarrow> 'w \<Rightarrow> int \<times> 'w"
  ws_listen :: "int \<Rightarrow> 'w \<Rightarrow> int \<times> 'w"
  ws_accept :: "int \<Rightarrow> 'w \<Rightarrow> int \<times> 'w"

definition SOCKET_ERROR :: int where "SOCKET_ERROR = -1"
definition INVALID_SOCKET :: int where "INVALID_SOCKET = 4294967295"
definition SD_BOTH :: int where "SD_BOTH = 2"
definition SOCK_STREAM :: int where "SOCK_STREAM = 1"
definition SOCK_DGRAM :: int where "SOCK_DGRAM = 2"
definition INADDR_ANY :: int where "INADDR_ANY = 0"

text \<open>A message that ends in a line feed.\<close>

definition line :: "string \<Rightarrow> string" where
  "line s = s @ [CHR 0x0A]"

subsection \<open>Socket\<close>

text \<open>The address of a socket is its port and IP address; \<open>None\<close> where it is not yet set.\<close>

record socket =
  sock :: int
  sockadd :: "(int \<times> int) option"
  lpHost :: "int option"

definition Socket :: socket where
  "Socket = \<lparr>sock = 0, sockadd = None, lpHost = None\<rparr>"

definition Socket_copy :: "socket \<Rightarrow> socket" where
  "Socket_copy s = Socket\<lparr>sock := sock s\<rparr>"

definition Socket_assign :: "socket \<Rightarrow> int \<Rightarrow> socket" where
  "Socket_assign s fd = s\<lparr>sock := fd\<rparr>"

type_synonym 'w conn = "socket \<times> 'w"

definition htons :: "int \<Rightarrow> int" where
  "htons port = port mod 65536"

definition Search :: "'w winsock \<Rightarrow> string \<Rightarrow> ('w conn, unit) io" where
  "Search api server c = (case c of (s, w) \<Rightarrow>
     (case gethostbyname api server w of
       (Some a, w) \<Rightarrow> (Inr (), s\<lparr>lpHost := Some a\<rparr>, w)
     | (None, w) \<Rightarrow> (case gethostbyaddr api (inet_addr api server) w of
         (Some a, w) \<Rightarrow> (Inr (), s\<lparr>lpHost := Some a\<rparr>, w)
       | (None, w) \<Rightarrow> io_throw (line ''server not found'') (s\<lparr>lpHost := None\<rparr>, w))))"

definition Connect :: "'w winsock \<Rightarrow> string \<Rightarrow> int \<Rightarrow> ('w conn, unit) io" where
  "Connect api server port = io_bind (Search api server) (\<lambda>_ (s, w).
     (case lpHost s of
       None \<Rightarrow> (Inl Uninit, s, w)
     | Some a \<Rightarrow> (let s = s\<lparr>sockadd := Some (htons port, a)\<rparr> in
         (case ws_connect api (sock s) (htons port, a) w of (r, w) \<Rightarrow>
           if r \<noteq> 0 then io_throw ''connection failred'' (s, w) else (Inr (), s, w)))))"

text \<open>The second argument of \<open>shutdown\<close> is \<open>SD_BOTH != 0\<close>, that is 1; the result is tested by the if.\<close>

definition Shutdown :: "'w winsock \<Rightarrow> ('w conn, unit) io" where
  "Shutdown api c = (case c of (s, w) \<Rightarrow>
     (case ws_shutdown api (sock s) (if SD_BOTH \<noteq> 0 then 1 else 0) w of (r, w) \<Rightarrow>
       if r \<noteq> 0 then io_throw (line ''shutdown error'') (s, w) else (Inr (), s, w)))"

definition disConnect :: "'w winsock \<Rightarrow> ('w conn, unit) io" where
  "disConnect api = io_bind (Shutdown api) (\<lambda>_ (s, w). (Inr (), s, closesocket api (sock s) w))"

definition Send :: "'w winsock \<Rightarrow> string \<Rightarrow> ('w conn, unit) io" where
  "Send api data c = (case c of (s, w) \<Rightarrow> (Inr (), s, ws_send api (sock s) data w))"

text \<open>
  \<open>Recv\<close> clears a buffer of \<open>size\<close> bytes, receives into it and appends it as a C string: up
  to the first zero byte. A buffer without one is read past its end. The loop is bounded by
  fuel; each round takes one result of \<open>recv\<close>.
\<close>

definition c_string :: "string \<Rightarrow> string res" where
  "c_string buf = (if CHR 0x00 \<in> set buf then Inr (takeWhile (\<lambda>c. c \<noteq> CHR 0x00) buf)
     else Inl OutOfBounds)"

definition recv_buffer :: "nat \<Rightarrow> string \<Rightarrow> string" where
  "recv_buffer sz bytes = bytes @ replicate (sz - length bytes) (CHR 0x00)"

fun recv_loop :: "nat \<Rightarrow> 'w winsock \<Rightarrow> nat \<Rightarrow> bool \<Rightarrow> string \<Rightarrow> 'w conn \<Rightarrow> (string \<times> unit res) \<times> 'w conn" where
  "recv_loop 0 api sz all data c = ((data, Inl Hang), c)"
| "recv_loop (Suc n) api sz all data (s, w) = (case ws_recv api (sock s) sz w of
     ((r, bytes), w) \<Rightarrow>
       if r = SOCKET_ERROR then ((data, Inl (Thrown (line ''recieve error''))), (s, w))
       else (case c_string (recv_buffer sz bytes) of
         Inl e \<Rightarrow> ((data, Inl e), (s, w))
       | Inr piece \<Rightarrow>
           if r \<noteq> 0 \<and> all then recv_loop n api sz all (data @ piece) (s, w)
           else ((data @ piece, Inr ()), (s, w))))"

text \<open>The string argument is an output parameter: its value is returned with the outcome.\<close>

definition Recv :: "nat \<Rightarrow> 'w winsock \<Rightarrow> nat \<Rightarrow> bool \<Rightarrow> 'w conn \<Rightarrow> (string \<times> unit res) \<times> 'w conn" where
  "Recv fuel api sz all c = recv_loop fuel api sz all [] c"

definition Bind :: "'w winsock \<Rightarrow> int \<Rightarrow> ('w conn, unit) io" where
  "Bind api port c = (case c of (s, w) \<Rightarrow>
     (let s = s\<lparr>sockadd := Some (htons port, INADDR_ANY)\<rparr> in
      (case ws_bind api (sock s) (htons port, INADDR_ANY) w of (r, w) \<Rightarrow>
        if r = SOCKET_ERROR
        then io_bind (disConnect api) (\<lambda>_. io_throw (line ''bind error'')) (s, w)
        else (Inr (), s, w))))"

definition Listen :: "'w winsock \<Rightarrow> ('w conn, unit) io" where
  "Listen api c = (case c of (s, w) \<Rightarrow>
     (case ws_listen api (sock s) w of (r, w) \<Rightarrow>
       if r = SOCKET_ERROR then io_throw (line ''listen error'') (s, w) else (Inr (), s, w)))"

definition Accept :: "'w winsock \<Rightarrow> ('w conn, socket) io" where
  "Accept api c = (case c of (s, w) \<Rightarrow>
     (case ws_accept api (sock s) w of (fd, w) \<Rightarrow>
       if fd = INVALID_SOCKET
       then io_bind (disConnect api) (\<lambda>_. io_throw (line ''accept error'')) (s, w)
       else (Inr (Socket_copy (Socket\<lparr>sock := fd\<rparr>)), s, w)))"

subsection \<open>Network\<close>

definition OpenTCP :: "'w winsock \<Rightarrow> ('w, socket) io" where
  "OpenTCP api w = (case WSAStartup api w of (r, w) \<Rightarrow>
     if r \<noteq> 0 then io_throw (line ''WSAStartup error'') w
     else (case ws_socket api SOCK_STREAM w of (fd, w) \<Rightarrow> (Inr (Socket_copy (Socket_assign Socket fd)), w)))"

definition OpenUDP :: "'w winsock \<Rightarrow> ('w, socket) io" where
  "OpenUDP api w = (case WSAStartup api w of (r, w) \<Rightarrow>
     if r \<noteq> 0 then io_throw (line ''WSAStartup error'') w
     else (case ws_socket api SOCK_DGRAM w of (fd, w) \<Rightarrow> (Inr (Socket_copy (Socket_assign Socket fd)), w)))"

definition Network_Close :: "'w winsock \<Rightarrow> 'w \<Rightarrow> 'w" where
  "Network_Close api w = WSACleanup api w"

subsection \<open>What is received\<close>

text \<open>\<open>recv\<close> delivers these chunks, each of 1 to \<open>size\<close> bytes, and then the end of the stream.\<close>

fun delivers :: "'w winsock \<Rightarrow> int \<Rightarrow> nat \<Rightarrow> string list \<Rightarrow> 'w \<Rightarrow> bool" where
  "delivers api fd sz [] w \<longleftrightarrow> fst (ws_recv api fd sz w) = (0, [])"
| "delivers api fd sz (b # bs) w \<longleftrightarrow> fst (ws_recv api fd sz w) = (int (length b), b) \<and>
     b \<noteq> [] \<and> length b \<le> sz \<and> delivers api fd sz bs (snd (ws_recv api fd sz w))"

definition fits :: "nat \<Rightarrow> string \<Rightarrow> bool" where
  "fits sz b \<longleftrightarrow> length b < sz \<or> CHR 0x00 \<in> set b"

definition text_part :: "string \<Rightarrow> string" where
  "text_part b = takeWhile (\<lambda>c. c \<noteq> CHR 0x00) b"

lemma text_part_none: "CHR 0x00 \<notin> set b \<Longrightarrow> text_part b = b"
  unfolding text_part_def by (subst takeWhile_eq_all_conv) auto

lemma text_part_app: "CHR 0x00 \<notin> set b \<Longrightarrow> text_part (b @ CHR 0x00 # t) = b"
  by (induction b) (auto simp: text_part_def)

lemma text_part_in: "CHR 0x00 \<in> set b \<Longrightarrow> text_part (b @ t) = text_part b"
  by (simp add: text_part_def takeWhile_append1)

lemma c_string_buffer:
  assumes "length b \<le> sz"
  shows "c_string (recv_buffer sz b) = (if fits sz b then Inr (text_part b) else Inl OutOfBounds)"
proof (cases "CHR 0x00 \<in> set b")
  case True
  then show ?thesis
    using text_part_in [OF True, of "replicate (sz - length b) (CHR 0x00)"]
    by (simp add: c_string_def recv_buffer_def fits_def text_part_def)
next
  case False
  show ?thesis
  proof (cases "sz - length b")
    case 0
    with False assms show ?thesis by (simp add: c_string_def recv_buffer_def fits_def)
  next
    case (Suc k)
    then have "length b < sz" by simp
    with False Suc text_part_app [OF False, of "replicate k (CHR 0x00)"] text_part_none [OF False]
    show ?thesis by (simp add: c_string_def recv_buffer_def fits_def flip: text_part_def)
  qed
qed

lemma recv_step:
  assumes "fst (ws_recv api (sock s) sz w) = (int (length b), b)" "length b \<le> sz"
  shows "recv_loop (Suc n) api sz True data (s, w) =
    (let w' = snd (ws_recv api (sock s) sz w) in
     if \<not> fits sz b then ((data, Inl OutOfBounds), (s, w'))
     else if b \<noteq> [] then recv_loop n api sz True (data @ text_part b) (s, w')
     else ((data @ text_part b, Inr ()), (s, w')))"
  using assms c_string_buffer [OF assms(2)]
  by (cases "ws_recv api (sock s) sz w") (auto simp: SOCKET_ERROR_def Let_def)

lemma recv_loop_collects:
  assumes "delivers api (sock s) sz bs w" "length bs < n" "0 < sz"
  shows "fst (recv_loop n api sz True data (s, w)) =
    (if list_all (fits sz) bs then (data @ concat (map text_part bs), Inr ())
     else (data @ concat (map text_part (takeWhile (fits sz) bs)), Inl OutOfBounds))"
  using assms(1,2)
proof (induction bs arbitrary: n data w)
  case Nil
  then obtain m where "n = Suc m" by (cases n) auto
  with Nil assms(3) recv_step [of api s sz w "[]" m data] show ?case
    by (simp add: fits_def text_part_def Let_def)
next
  case (Cons b bs)
  then obtain m where n: "n = Suc m" "length bs < m" by (cases n) auto
  from Cons.prems have b: "fst (ws_recv api (sock s) sz w) = (int (length b), b)" "length b \<le> sz"
    "b \<noteq> []" "delivers api (sock s) sz bs (snd (ws_recv api (sock s) sz w))" by simp_all
  show ?case
    using b n recv_step [OF b(1,2), of m data] Cons.IH [OF b(4) n(2), of "data @ text_part b"]
    by (simp add: Let_def)
qed

text \<open>\<open>Recv\<close> of a whole stream ends after one round per chunk and one more, and returns
  each chunk up to its first zero byte; but when a chunk fills the buffer and has no zero byte,
  the missing terminator makes the append read past the buffer.\<close>

theorem Recv_collects:
  assumes "delivers api (sock s) sz bs w" "length bs < fuel" "0 < sz"
  shows "fst (Recv fuel api sz True (s, w)) =
    (if list_all (fits sz) bs then (concat (map text_part bs), Inr ())
     else (concat (map text_part (takeWhile (fits sz) bs)), Inl OutOfBounds))"
  using recv_loop_collects [OF assms, of "[]"] by (simp add: Recv_def)

text \<open>A network for concrete runs: its world is the list of chunks \<open>recv\<close> is to deliver and the
  log of the calls; binding and shutting down fail.\<close>

definition script_net :: "(string list \<times> string list) winsock" where
  "script_net = \<lparr>
     WSAStartup = (\<lambda>w. (0, w)), WSACleanup = (\<lambda>w. w), ws_socket = (\<lambda>_ w. (3, w)),
     gethostbyname = (\<lambda>h w. (if h = ''h'' then Some 7 else None, w)), inet_addr = (\<lambda>_. -1),
     gethostbyaddr = (\<lambda>_ w. (None, w)), ws_connect = (\<lambda>_ _ w. (0, w)),
     ws_shutdown = (\<lambda>_ _ w. (-1, w)), closesocket = (\<lambda>_ (i, l). (i, l @ [''close''])),
     ws_send = (\<lambda>_ d (i, l). (i, l @ [d])),
     ws_recv = (\<lambda>_ n (i, l). case i of [] \<Rightarrow> ((0, []), (i, l))
        | b # bs \<Rightarrow> ((int (length b), b), (bs, l))),
     ws_bind = (\<lambda>_ _ w. (-1, w)), ws_listen = (\<lambda>_ w. (0, w)), ws_accept = (\<lambda>_ w. (4, w))\<rparr>"

theorem Recv_collects_witness:
  "fst (Recv 3 script_net 3 True (Socket, ([''ab'', ''abc''], []))) = (''ab'', Inl OutOfBounds)"
  using Recv_collects [of script_net Socket 3 "[''ab'', ''abc'']" "([''ab'', ''abc''], [])" 3]
  by (simp add: script_net_def fits_def text_part_def)

text \<open>On an address that is taken, \<open>Bind\<close> shuts the socket down before it reports the error;
  where the shutdown of the unconnected socket fails as well, its message is thrown in place of
  the bind error and the socket stays open.\<close>

theorem Bind_error_lost:
  assumes "\<And>w. fst (ws_bind api (sock s) (htons port, INADDR_ANY) w) = SOCKET_ERROR"
    and "\<And>w. fst (ws_shutdown api (sock s) 1 w) \<noteq> 0"
  shows "fst (Bind api port (s, w)) = Inl (Thrown (line ''shutdown error'')) \<and>
    snd (snd (Bind api port (s, w))) =
      snd (ws_shutdown api (sock s) 1 (snd (ws_bind api (sock s) (htons port, INADDR_ANY) w)))"
proof -
  obtain w1 where b: "ws_bind api (sock s) (htons port, INADDR_ANY) w = (SOCKET_ERROR, w1)"
    using assms(1) [of w] by (cases "ws_bind api (sock s) (htons port, INADDR_ANY) w") auto
  obtain r w2 where "ws_shutdown api (sock s) 1 w1 = (r, w2)" "r \<noteq> 0"
    using assms(2) [of w1] by (cases "ws_shutdown api (sock s) 1 w1") auto
  with b show ?thesis
    by (simp add: Bind_def disConnect_def Shutdown_def SD_BOTH_def io_bind_def io_throw_def)
qed

theorem Bind_error_lost_witness:
  "fst (Bind script_net 80 (Socket, ([], []))) = Inl (Thrown (line ''shutdown error'')) \<and>
    snd (snd (Bind script_net 80 (Socket, ([], [])))) = ([], [])"
  using Bind_error_lost [of script_net Socket 80 "([], [])"]
  by (simp add: script_net_def SOCKET_ERROR_def)

end
