(* ===== verification/Http.thy ===== *)
theory Http
  imports Strings Sockets
begin

text \<open>
  The HTTP client (\<open>HttpClass.cpp\<close>): the parts of a URL, the resolution of a path against the
  path of the last request, and requests over a socket. \<open>h_base\<close> is \<open>base_path\<close>.
\<close>

subsection \<open>The state and its accessors\<close>

record http =
  h_header :: string
  h_host :: string
  h_path :: string
  h_port :: string
  h_base :: string

definition Http :: http where
  "Http = \<lparr>h_header = ''http://'', h_host = [], h_path = [], h_port = [], h_base = []\<rparr>"

definition getHeader :: "http \<Rightarrow> string" where
  "getHeader h = h_header h"

definition getHost :: "http \<Rightarrow> string" where
  "getHost h = h_host h"

definition getPath :: "http \<Rightarrow> string" where
  "getPath h = h_path h"

definition getPort :: "http \<Rightarrow> string" where
  "getPort h = h_port h"

definition getURL :: "http \<Rightarrow> string" where
  "getURL h = getHeader h @ getHost h @ getPath h"

subsection \<open>Setting the parts\<close>

definition strip_blanks :: "string \<Rightarrow> string res" where
  "strip_blanks s = EndStrip (FrontStrip s (CHR '' '')) (CHR '' '')"

definition setHost :: "string \<Rightarrow> http \<Rightarrow> http res" where
  "setHost host h = rbind (strip_blanks host) (\<lambda>host. Inr (h\<lparr>h_host := host, h_base := []\<rparr>))"

definition setPort :: "string \<Rightarrow> http \<Rightarrow> http res" where
  "setPort port h = rbind (strip_blanks port) (\<lambda>port. Inr (h\<lparr>h_port := port\<rparr>))"

text \<open>
  The loop of \<open>setPath\<close> over the rest of the path and the path built so far: a segment of two
  dots drops the last segment, an empty one ends the loop with a slash. The fuel is one more
  than the characters of the path.
\<close>

fun path_loop :: "nat \<Rightarrow> string \<Rightarrow> string \<Rightarrow> (string \<times> string) res" where
  "path_loop 0 path built = Inl Hang"
| "path_loop (Suc n) path built = (if path = [] then Inr (path, built) else
     (let list = FrontSplit (drop 1 path) (CHR ''/''); path = list ! 1 in
      if list ! 0 = ''..'' then path_loop n path (EndSplit built (CHR ''/'') ! 0)
      else if list ! 0 = [] then Inr (''/'', built)
      else path_loop n path (built @ ''/'' @ list ! 0)))"

definition setPath :: "string \<Rightarrow> http \<Rightarrow> http res" where
  "setPath path h = rbind (strip_blanks path) (\<lambda>path.
     rbind (Front path) (\<lambda>first.
     let (path, built) = (if first \<noteq> ''/'' then (''/'' @ path, h_base h) else (path, []))
     in rbind (path_loop (length path + 1) path built) (\<lambda>(path, built).
       Inr (h\<lparr>h_path := built @ path\<rparr>))))"

definition find_header :: "string \<Rightarrow> string \<times> nat option" where
  "find_header URL = (case find_str URL ''http://'' 0 of
     Some i \<Rightarrow> (''http://'', Some i)
   | None \<Rightarrow> (''https://'', find_str URL ''https://'' 0))"

text \<open>The host and path of a URL in which a header was found at index \<open>i\<close>, and the port.\<close>

definition set_absolute :: "string \<Rightarrow> nat \<Rightarrow> string \<Rightarrow> http \<Rightarrow> http res" where
  "set_absolute header i URL h = (let URL = drop (i + length header) URL in
     (case find_str URL ''/'' 0 of
       None \<Rightarrow> rbind (setHost URL h) (setPath ''/'')
     | Some k \<Rightarrow> rbind (setHost (take k URL) h) (setPath (drop k URL))))"

definition set_port_of_host :: "http \<Rightarrow> http res" where
  "set_port_of_host h = (case find_char (h_host h) (CHR '':'') of
     None \<Rightarrow> setPort ''80'' h
   | Some k \<Rightarrow> setPort (drop (k + 1) (h_host h)) h)"

definition setURL :: "string \<Rightarrow> http \<Rightarrow> http res" where
  "setURL URL h = (case find_header URL of (header, index) \<Rightarrow>
     (let h = h\<lparr>h_header := header\<rparr> in
      rbind (case index of Some i \<Rightarrow> set_absolute header i URL h | None \<Rightarrow> setPath URL h)
        set_port_of_host))"

subsection \<open>Requests\<close>

definition crlf :: string where
  "crlf = [CHR 0x0D, CHR 0x0A]"

definition GET :: "string \<Rightarrow> string \<Rightarrow> string" where
  "GET host path = ''GET '' @ path @ '' HTTP/1.0'' @ crlf @ crlf"

definition POST :: "string \<Rightarrow> string \<Rightarrow> string \<Rightarrow> string" where
  "POST host path data = (let len = String_num (Number_val (VLong (int (length data)))) in
     ''POST '' @ path @ '' HTTP/1.0'' @ crlf @
     ''Content-Type: application/x-www-form-urlencoded'' @ crlf @
     ''Content-Length:'' @ len @ crlf @ crlf @ data)"

definition HEAD :: "string \<Rightarrow> string \<Rightarrow> string" where
  "HEAD host path = ''HEAD '' @ path @ '' HTTP/1.0'' @ crlf @ crlf"

definition request_text :: "http \<Rightarrow> string \<Rightarrow> string \<Rightarrow> string" where
  "request_text h mth data = (
     if mth = ''GET'' then GET (getHost h) (getPath h)
     else if mth = ''POST'' then POST (getHost h) (getPath h) data
     else if mth = ''HEAD'' then HEAD (getHost h) (getPath h)
     else [])"

text \<open>The body of the try block: the response received so far, and how the block ended.\<close>

definition exchange :: "nat \<Rightarrow> 'w winsock \<Rightarrow> http \<Rightarrow> string \<Rightarrow> string \<Rightarrow> 'w conn \<Rightarrow>
    (string \<times> unit res) \<times> 'w conn" where
  "exchange fuel api h mth data c = (case c of (s, w) \<Rightarrow>
     (case OpenTCP api w of
       (Inl e, w) \<Rightarrow> (([], Inl e), (s, w))
     | (Inr s, w) \<Rightarrow>
       (case Connect api (getHost h) (atoi (h_port h)) (s, w) of
         (Inl e, c) \<Rightarrow> (([], Inl e), c)
       | (Inr _, c) \<Rightarrow>
         (case Send api (request_text h mth data) c of (_, c) \<Rightarrow>
         (case Recv fuel api 1024 True c of
           ((response, Inl e), c) \<Rightarrow> ((response, Inl e), c)
         | ((response, Inr _), c) \<Rightarrow>
           (case disConnect api c of
             (Inl e, c) \<Rightarrow> ((response, Inl e), c)
           | (Inr _, (s, w)) \<Rightarrow> ((response, Inr ()), (s, Network_Close api w))))))))"

text \<open>
  \<open>catch(char*)\<close> takes the messages the socket and the network throw, prints them and goes on
  to return the response. (Visual C++ lets a thrown string literal match \<open>char*\<close>.)
\<close>

definition Request :: "nat \<Rightarrow> 'w winsock \<Rightarrow> string \<Rightarrow> string \<Rightarrow> string \<Rightarrow> http \<times> 'w conn \<Rightarrow>
    string res \<times> http \<times> 'w conn" where
  "Request fuel api URL mth data st = (case st of (h, c) \<Rightarrow>
     (case setURL URL h of
       Inl e \<Rightarrow> (Inl e, h, c)
     | Inr h \<Rightarrow>
       (let h = h\<lparr>h_base := EndSplit (getPath h) (CHR ''/'') ! 0\<rparr> in
        (case exchange fuel api h mth data c of ((response, r), c) \<Rightarrow>
          ((case r of
              Inl (Thrown m) \<Rightarrow> Inr response
            | Inl e \<Rightarrow> Inl e
            | Inr _ \<Rightarrow> Inr response), h, c)))))"

subsection \<open>Nothing fails\<close>

lemma strip_blanks_total: "\<exists>t. strip_blanks s = Inr t"
proof -
  let ?f = "dropWhile (\<lambda>x. x = CHR '' '') s"
  have "?f = [] \<or> (\<exists>x \<in> set ?f. x \<noteq> CHR '' '')"
    using hd_dropWhile [of "\<lambda>x. x = CHR '' ''" s] hd_in_set [of ?f] by blast
  then show ?thesis
    using EndStrip_ok [of ?f "CHR '' ''"] by (simp add: strip_blanks_def FrontStrip_eq)
qed

lemma path_loop_total: "length path < n \<Longrightarrow> \<exists>p b. path_loop n path built = Inr (p, b)"
proof (induction n arbitrary: path built)
  case (Suc n)
  have "length (FrontSplit (drop 1 path) (CHR ''/'') ! 1) \<le> length (drop 1 path)"
    using length_dropWhile_le [of "\<lambda>x. x \<noteq> CHR ''/''" "drop 1 path"] by (simp add: FrontSplit_eq)
  with Suc.prems have "path = [] \<or> length (FrontSplit (drop 1 path) (CHR ''/'') ! 1) < n"
    by (cases path) auto
  with Suc.IH show ?case by (auto simp: Let_def)
qed simp

lemma setPath_total: "\<exists>p. setPath path h = Inr (h\<lparr>h_path := p\<rparr>)"
proof -
  obtain s where s: "strip_blanks path = Inr s" using strip_blanks_total by blast
  obtain q b where qb: "(if take 1 s \<noteq> ''/'' then (''/'' @ s, h_base h) else (s, [])) = (q, b)"
    by force
  obtain p b' where "path_loop (length q + 1) q b = Inr (p, b')"
    using path_loop_total [of q "length q + 1" b] by (auto simp del: path_loop.simps)
  with s qb have "setPath path h = Inr (h\<lparr>h_path := b' @ p\<rparr>)"
    by (simp add: setPath_def Front_eq Let_def del: path_loop.simps)
  then show ?thesis ..
qed

lemma setHost_total: "\<exists>s. setHost host h = Inr (h\<lparr>h_host := s, h_base := []\<rparr>)"
  using strip_blanks_total [of host] by (auto simp: setHost_def)

lemma setPort_total: "\<exists>s. setPort p h = Inr (h\<lparr>h_port := s\<rparr>)"
  using strip_blanks_total [of p] by (auto simp: setPort_def)

lemma set_port_of_host_total: "\<exists>p. set_port_of_host h = Inr (h\<lparr>h_port := p\<rparr>)"
  by (simp add: set_port_of_host_def setPort_total split: option.split)

lemma setHost_setPath_total:
  "\<exists>s p. rbind (setHost u h) (setPath v) = Inr (h\<lparr>h_host := s, h_base := [], h_path := p\<rparr>)"
proof -
  obtain s where "setHost u h = Inr (h\<lparr>h_host := s, h_base := []\<rparr>)" using setHost_total by blast
  then show ?thesis using setPath_total [of v "h\<lparr>h_host := s, h_base := []\<rparr>"] by auto
qed

lemma set_absolute_total:
  "\<exists>s p. set_absolute header i URL h = Inr (h\<lparr>h_host := s, h_base := [], h_path := p\<rparr>)"
  by (simp add: set_absolute_def Let_def setHost_setPath_total split: option.split)

lemma setURL_total: "\<exists>h'. setURL URL h = Inr h' \<and> h_header h' = fst (find_header URL)"
proof (cases "find_header URL")
  case (Pair header index)
  show ?thesis
  proof (cases index)
    case None
    obtain p where "setPath URL (h\<lparr>h_header := header\<rparr>) = Inr (h\<lparr>h_header := header, h_path := p\<rparr>)"
      using setPath_total by blast
    then show ?thesis
      using Pair None set_port_of_host_total [of "h\<lparr>h_header := header, h_path := p\<rparr>"]
      by (auto simp: setURL_def Let_def)
  next
    case (Some i)
    obtain s p where "set_absolute header i URL (h\<lparr>h_header := header\<rparr>) =
        Inr (h\<lparr>h_header := header, h_host := s, h_base := [], h_path := p\<rparr>)"
      using set_absolute_total by blast
    then show ?thesis
      using Pair Some set_port_of_host_total
        [of "h\<lparr>h_header := header, h_host := s, h_base := [], h_path := p\<rparr>"]
      by (auto simp: setURL_def Let_def)
  qed
qed

subsection \<open>Paths as lists of segments\<close>

text \<open>The specification: a text without its outer blanks, the segments between the slashes of a
  text, and what they come to from a list of segments. The first empty segment ends the path with
  a slash.\<close>

definition trimmed :: "string \<Rightarrow> string" where
  "trimmed s = rev (dropWhile (\<lambda>c. c = CHR '' '') (rev (dropWhile (\<lambda>c. c = CHR '' '') s)))"

definition joined :: "string list \<Rightarrow> string" where
  "joined segs = concat (map (\<lambda>s. CHR ''/'' # s) segs)"

fun resolve_seg :: "string list \<Rightarrow> string \<Rightarrow> string list" where
  "resolve_seg st s = (if s = ''..'' then butlast st else st @ [s])"

definition path_from :: "string list \<Rightarrow> string list \<Rightarrow> string" where
  "path_from base segs = joined (foldl resolve_seg base (takeWhile (\<lambda>s. s \<noteq> []) segs)) @
     (if [] \<in> set segs then ''/'' else [])"

definition no_slash :: "string \<Rightarrow> bool" where
  "no_slash s \<longleftrightarrow> CHR ''/'' \<notin> set s"

lemma strip_blanks_eq: "strip_blanks s = Inr (trimmed s)"
proof -
  let ?f = "dropWhile (\<lambda>x. x = CHR '' '') s"
  have "?f = [] \<or> (\<exists>x \<in> set ?f. x \<noteq> CHR '' '')"
    using hd_dropWhile [of "\<lambda>x. x = CHR '' ''" s] hd_in_set [of ?f] by blast
  then show ?thesis
    using EndStrip_ok [of ?f "CHR '' ''"] by (simp add: strip_blanks_def FrontStrip_eq trimmed_def)
qed

lemma trimmed_none: "CHR '' '' \<notin> set s \<Longrightarrow> trimmed s = s"
proof -
  have d: "CHR '' '' \<notin> set t \<Longrightarrow> dropWhile (\<lambda>x. x = CHR '' '') t = t" for t by (cases t) auto
  show "CHR '' '' \<notin> set s \<Longrightarrow> trimmed s = s" by (simp add: trimmed_def d)
qed

lemma trimmed_slash: "\<exists>t. trimmed (CHR ''/'' # s) = CHR ''/'' # t"
proof -
  have "\<exists>t. dropWhile (\<lambda>c. c = CHR '' '') (u @ ''/'') = rev t @ ''/''" for u
  proof (induction u)
    case (Cons a u)
    then show ?case by (auto intro: exI [of _ "rev (a # u)"])
  qed simp
  from this [of "rev s"] show ?thesis by (auto simp: trimmed_def)
qed

lemma joined_simps [simp]: "joined [] = []" "joined (s # segs) = CHR ''/'' # s @ joined segs"
  by (simp_all add: joined_def)

lemma joined_snoc: "joined (segs @ [s]) = joined segs @ CHR ''/'' # s"
  by (simp add: joined_def)

lemma segments_split:
  "segments (CHR ''/'') s = takeWhile (\<lambda>c. c \<noteq> CHR ''/'') s #
     (case dropWhile (\<lambda>c. c \<noteq> CHR ''/'') s of [] \<Rightarrow> [] | _ # r \<Rightarrow> segments (CHR ''/'') r)"
  by (induction s) auto

lemma before_last_joined:
  assumes "list_all no_slash st"
  shows "before_last (joined st) (CHR ''/'') = joined (butlast st)"
proof (cases st rule: rev_cases)
  case (snoc ys y)
  with assms have "CHR ''/'' \<notin> set y" by (simp add: no_slash_def)
  then show ?thesis by (simp add: snoc joined_snoc before_last_append)
qed simp

lemma resolve_no_slash: "list_all no_slash st \<Longrightarrow> no_slash s \<Longrightarrow> list_all no_slash (resolve_seg st s)"
  by (simp add: list_all_iff) (meson in_set_butlastD)

lemma path_from_simps:
  "path_from st ([] # ss) = joined st @ ''/''"
  "s \<noteq> [] \<Longrightarrow> path_from st (s # ss) = path_from (resolve_seg st s) ss"
  "path_from st [] = joined st"
  by (simp_all add: path_from_def)

text \<open>The loop, on a path that is empty or begins with a slash.\<close>

lemma path_loop_resolves:
  assumes "length path < n" "list_all no_slash st" "path = [] \<or> path = CHR ''/'' # q"
  shows "\<exists>p b. path_loop n path (joined st) = Inr (p, b) \<and>
    b @ p = (if path = [] then joined st else path_from st (segments (CHR ''/'') q))"
  using assms
proof (induction n arbitrary: path q st)
  case (Suc n)
  show ?case
  proof (cases "path = []")
    case False
    then have path: "path = CHR ''/'' # q" using Suc.prems(3) by simp
    let ?s = "takeWhile (\<lambda>x. x \<noteq> CHR ''/'') q" and ?r = "dropWhile (\<lambda>x. x \<noteq> CHR ''/'') q"
    have s: "no_slash ?s" by (auto simp: no_slash_def dest: set_takeWhileD)
    have r: "?r = [] \<or> ?r = CHR ''/'' # tl ?r"
      using hd_dropWhile [of "\<lambda>x. x \<noteq> CHR ''/''" q] by (cases ?r) auto
    have len: "length ?r < n"
      using Suc.prems(1) length_dropWhile_le [of "\<lambda>x. x \<noteq> CHR ''/''" q] by (simp add: path)
    show ?thesis
    proof (cases "?s = []")
      case True
      then show ?thesis
        using segments_split [of q] by (simp add: path FrontSplit_eq path_from_simps Let_def)
    next
      case False
      have "path_loop (Suc n) path (joined st) = path_loop n ?r (joined (resolve_seg st ?s))"
        using False before_last_joined [OF Suc.prems(2)]
        by (simp add: path FrontSplit_eq EndSplit_0 joined_snoc Let_def)
      moreover have "path_from st (segments (CHR ''/'') q) =
          (if ?r = [] then joined (resolve_seg st ?s) else path_from (resolve_seg st ?s) (segments (CHR ''/'') (tl ?r)))"
        using False segments_split [of q] by (cases ?r) (simp_all add: path_from_simps)
      ultimately show ?thesis
        using Suc.IH [OF len resolve_no_slash [OF Suc.prems(2) s] r] path by simp
    qed
  qed simp
qed simp

lemma setPath_resolves_base:
  assumes "h_base h = joined base" "list_all no_slash base"
  shows "setPath path h = Inr (h\<lparr>h_path :=
    (if take 1 (trimmed path) = ''/'' then path_from [] (segments (CHR ''/'') (drop 1 (trimmed path)))
     else path_from base (segments (CHR ''/'') (trimmed path)))\<rparr>)"
proof (cases "take 1 (trimmed path) = ''/''")
  case True
  then obtain q where q: "trimmed path = CHR ''/'' # q" by (cases "trimmed path") auto
  obtain p b where "path_loop (length (trimmed path) + 1) (trimmed path) [] = Inr (p, b)"
    "b @ p = path_from [] (segments (CHR ''/'') q)"
    using path_loop_resolves [of "trimmed path" "length (trimmed path) + 1" "[]" q] by (auto simp: q)
  then show ?thesis
    using True by (simp add: setPath_def strip_blanks_eq Front_eq q del: path_loop.simps)
next
  case False
  let ?p = "CHR ''/'' # trimmed path"
  obtain p b where "path_loop (length ?p + 1) ?p (joined base) = Inr (p, b)"
    "b @ p = path_from base (segments (CHR ''/'') (trimmed path))"
    using path_loop_resolves [OF _ assms(2), of ?p "length ?p + 1" "trimmed path"] by auto
  then show ?thesis
    using False by (simp add: setPath_def strip_blanks_eq Front_eq assms(1) del: path_loop.simps)
qed

text \<open>C30: \<open>setPath\<close> resolves any path the way its segments say. Without its outer blanks, a path that
  begins with a slash is taken from the root, any other from the base path, which is empty or
  begins with a slash: each segment between two slashes is appended, two dots drop the segment
  before them (and nothing at the root), and the first empty segment, as in \<open>a//b\<close> or at a
  slash in the end, ends the path with a slash, whatever follows. Nothing else of the object
  changes, and the loop ends.\<close>

theorem setPath_resolves:
  assumes "h_base h = joined base" "list_all no_slash base"
  shows "setPath path h = Inr (h\<lparr>h_path :=
    (if take 1 (trimmed path) = ''/'' then path_from [] (segments (CHR ''/'') (drop 1 (trimmed path)))
     else path_from base (segments (CHR ''/'') (trimmed path)))\<rparr>)"
  by (rule setPath_resolves_base [OF assms])

theorem setPath_resolves_witness:
  "setPath ''/a/../b/'' (Http\<lparr>h_base := ''/x''\<rparr>) =
      Inr (Http\<lparr>h_base := ''/x'', h_path := ''/b/''\<rparr>) \<and>
    setPath '' a/../b//c'' (Http\<lparr>h_base := ''/x''\<rparr>) =
      Inr (Http\<lparr>h_base := ''/x'', h_path := ''/x/b/''\<rparr>)"
  using setPath_resolves [of "Http\<lparr>h_base := ''/x''\<rparr>" "[''x'']"]
  by (simp add: no_slash_def trimmed_def path_from_def)

subsection \<open>Reading a URL\<close>

lemma find_str_prefix: "find_str (p @ t) p 0 = Some 0"
  by (simp add: find_str_def upt_rec)

lemma find_str_single: "find_str s [c] 0 = find_char s c"
proof (cases "s = []")
  case True
  then show ?thesis by (simp add: find_str_def)
next
  case False
  then have "Suc (length s - 1) = length s" by simp
  then have "find_str s [c] 0 = List.find (\<lambda>k. take 1 (drop k s) = [c]) [0..<length s]"
    by (simp add: find_str_def)
  also have "\<dots> = find_char s c"
    unfolding find_char_def by (rule find_cong) (auto simp: take_Suc hd_drop_conv_nth)
  finally show ?thesis .
qed

lemma find_char_append: "c \<notin> set s \<Longrightarrow> find_char (s @ c # t) c = Some (length s)"
  by (induction s) auto

lemma setPath_root:
  assumes "path = [] \<or> take 1 path = ''/''"
  shows "rbind (setHost host h) (setPath (if path = [] then ''/'' else path)) =
    Inr (h\<lparr>h_host := trimmed host, h_base := [], h_path := path_from [] (segments (CHR ''/'') (drop 1 (trimmed path)))\<rparr>)"
proof -
  let ?p = "if path = [] then ''/'' else path"
  have t: "take 1 (trimmed ?p) = ''/''" "drop 1 (trimmed ?p) = drop 1 (trimmed path)"
    using assms trimmed_slash [of "drop 1 path"] by (cases path; force simp: trimmed_def)+
  show ?thesis
    using setPath_resolves_base [of "h\<lparr>h_host := trimmed host, h_base := []\<rparr>" "[]" ?p] t
    by (simp add: setHost_def strip_blanks_eq)
qed

lemma set_absolute_parts:
  assumes "no_slash host" "path = [] \<or> take 1 path = ''/''"
  shows "set_absolute header 0 (header @ host @ path) h =
    Inr (h\<lparr>h_host := trimmed host, h_base := [], h_path := path_from [] (segments (CHR ''/'') (drop 1 (trimmed path)))\<rparr>)"
proof (cases path)
  case Nil
  have "find_char host (CHR ''/'') = None" using assms(1) by (simp add: no_slash_def)
  then show ?thesis
    using setPath_root [OF assms(2), of host h] by (simp add: set_absolute_def find_str_single Nil del: find_char_None)
next
  case (Cons c t)
  then have "find_str (host @ path) ''/'' 0 = Some (length host)"
    using assms by (simp add: find_str_single find_char_append no_slash_def)
  then show ?thesis
    using setPath_root [OF assms(2), of host h] by (simp add: set_absolute_def Cons)
qed

lemma set_port_of_host_eq:
  "set_port_of_host h = Inr (h\<lparr>h_port := (case find_char (h_host h) (CHR '':'') of
     None \<Rightarrow> ''80'' | Some k \<Rightarrow> trimmed (drop (k + 1) (h_host h)))\<rparr>)"
  by (cases "find_char (h_host h) (CHR '':'')")
    (simp_all add: set_port_of_host_def setPort_def strip_blanks_eq trimmed_none del: find_char_None)

lemma segments_joined:
  "list_all no_slash segs \<Longrightarrow> no_slash s \<Longrightarrow> segments (CHR ''/'') (s @ joined segs) = s # segs"
proof (induction segs arbitrary: s)
  case Nil
  then have tw: "takeWhile (\<lambda>c. c \<noteq> CHR ''/'') s = s" and dw: "dropWhile (\<lambda>c. c \<noteq> CHR ''/'') s = []"
    unfolding takeWhile_eq_all_conv dropWhile_eq_Nil_conv by (auto simp: no_slash_def)
  show ?case unfolding joined_simps append_Nil2 segments_split [of s] tw dw by simp
next
  case (Cons t segs)
  have "takeWhile (\<lambda>c. c \<noteq> CHR ''/'') (s @ joined (t # segs)) = s"
    "dropWhile (\<lambda>c. c \<noteq> CHR ''/'') (s @ joined (t # segs)) = joined (t # segs)"
    using Cons.prems(2) by (auto simp: no_slash_def)
  then show ?case using segments_split [of "s @ joined (t # segs)"] Cons by simp
qed

lemma resolve_plain: "''..'' \<notin> set segs \<Longrightarrow> foldl resolve_seg st segs = st @ segs"
  by (induction segs arbitrary: st) auto

text \<open>A path as it is written: a slash before each segment, none of which is empty, has a blank or
  is two dots; the last may be empty, for a slash in the end.\<close>

definition plain_path :: "string list \<Rightarrow> bool" where
  "plain_path segs \<longleftrightarrow> segs \<noteq> [] \<and>
     list_all (\<lambda>s. no_slash s \<and> CHR '' '' \<notin> set s \<and> s \<noteq> ''..'') segs \<and> [] \<notin> set (butlast segs)"

lemma plain_path_resolved:
  assumes "plain_path segs"
  shows "path_from [] (segments (CHR ''/'') (drop 1 (trimmed (joined segs)))) = joined segs"
proof -
  obtain s ss where segs: "segs = s # ss" using assms by (cases segs) (auto simp: plain_path_def)
  have "CHR '' '' \<notin> set (joined segs)"
    using assms by (auto simp: plain_path_def joined_def list_all_iff)
  then have t: "segments (CHR ''/'') (drop 1 (trimmed (joined segs))) = segs"
    using segments_joined [of ss s] assms by (auto simp: trimmed_none segs plain_path_def list_all_iff)
  have "segs = butlast segs @ [last segs]" by (simp add: segs)
  then obtain us u where snoc: "segs = us @ [u]" ..
  have "[] \<notin> set us" "''..'' \<notin> set segs" using assms by (auto simp: plain_path_def snoc list_all_iff)
  then have "takeWhile (\<lambda>s. s \<noteq> []) segs = (if u = [] then us else segs)"
    "[] \<in> set segs \<longleftrightarrow> u = []"
    by (auto simp: snoc takeWhile_append)
  then have "path_from [] segs = joined segs"
    using \<open>''..'' \<notin> set segs\<close> resolve_plain [of segs "[]"] resolve_plain [of us "[]"]
    by (cases "u = []") (simp_all add: path_from_def snoc joined_snoc del: resolve_seg.simps foldl_append)
  then show ?thesis unfolding t .
qed

text \<open>C31: a URL that begins with \<open>http://\<close>, or begins with \<open>https://\<close> and has no \<open>http://\<close> anywhere, is
  read into its parts. The header is the one it begins with; the host is the text up to the first
  slash without its outer blanks, a port after a colon included; the path is the rest, resolved
  from the root as \<open>setPath\<close> does, which is a slash when there is no rest; the port is what
  follows the first colon of the host, and 80 when there is none, for \<open>https://\<close> too. When the
  host has no blanks and the rest is plain, that is one or more segments after slashes, without
  blanks, not two dots and not empty except for the last one, \<open>getURL\<close> gives the URL back.\<close>

theorem setURL_roundtrip:
  assumes "no_slash host" "path = [] \<or> take 1 path = ''/''"
    and "header = ''http://'' \<or> header = ''https://'' \<and> find_str (header @ host @ path) ''http://'' 0 = None"
  shows "\<exists>h'. setURL (header @ host @ path) h = Inr h' \<and> getHeader h' = header \<and> getHost h' = trimmed host \<and>
    getPath h' = path_from [] (segments (CHR ''/'') (drop 1 (trimmed path))) \<and>
    getPort h' = (case find_char (trimmed host) (CHR '':'') of None \<Rightarrow> ''80''
      | Some k \<Rightarrow> trimmed (drop (k + 1) (trimmed host))) \<and>
    (\<forall>segs. CHR '' '' \<notin> set host \<and> path = joined segs \<and> plain_path segs \<longrightarrow>
      getURL h' = header @ host @ path)"
proof -
  let ?h = "h\<lparr>h_header := header, h_host := trimmed host, h_base := [],
    h_path := path_from [] (segments (CHR ''/'') (drop 1 (trimmed path)))\<rparr>"
  have "find_header (header @ host @ path) = (header, Some 0)"
  proof (cases "header = ''http://''")
    case True
    then show ?thesis using find_str_prefix [of header "host @ path"] by (simp add: find_header_def)
  next
    case False
    then have "header = ''https://''" "find_str (header @ host @ path) ''http://'' 0 = None" using assms(3) by auto
    then show ?thesis using find_str_prefix [of header "host @ path"] by (simp add: find_header_def)
  qed
  then have "setURL (header @ host @ path) h = set_port_of_host ?h"
    using set_absolute_parts [OF assms(1,2), of header "h\<lparr>h_header := header\<rparr>"]
    by (simp add: setURL_def Let_def)
  moreover have "getURL (?h\<lparr>h_port := p\<rparr>) = header @ host @ path"
    if "CHR '' '' \<notin> set host" "path = joined segs" "plain_path segs" for p segs
    using plain_path_resolved [OF that(3)] that(1,2)
    by (simp add: getURL_def getHeader_def getHost_def getPath_def trimmed_none)
  ultimately show ?thesis
    by (auto simp: set_port_of_host_eq getHeader_def getHost_def getPath_def getPort_def split: option.split simp del: find_char_None)
qed

theorem setURL_roundtrip_witness:
  "(\<exists>h'. setURL ''http://h:81/a/'' Http = Inr h' \<and> getURL h' = ''http://h:81/a/'' \<and>
    getHost h' = ''h:81'' \<and> getPath h' = ''/a/'' \<and> getPort h' = ''81'') \<and>
   (\<exists>h'. setURL ''https://h'' Http = Inr h' \<and> getPath h' = ''/'' \<and> getPort h' = ''80'')"
proof
  have path: "plain_path [''a'', []]" "joined [''a'', []] = ''/a/''" "CHR '' '' \<notin> set ''h:81''"
    by (simp_all add: plain_path_def no_slash_def)
  have "no_slash ''h:81''" "''/a/'' = [] \<or> take 1 ''/a/'' = ''/''" by (simp_all add: no_slash_def)
  from setURL_roundtrip [OF this disjI1 [OF refl], of Http] path
  obtain h' where h': "setURL (''http://'' @ ''h:81'' @ ''/a/'') Http = Inr h'"
    "getURL h' = ''http://'' @ ''h:81'' @ ''/a/''" "getHost h' = trimmed ''h:81''"
    "getPath h' = path_from [] (segments (CHR ''/'') (drop 1 (trimmed ''/a/'')))"
    "getPort h' = (case find_char (trimmed ''h:81'') (CHR '':'') of None \<Rightarrow> ''80''
      | Some k \<Rightarrow> trimmed (drop (k + 1) (trimmed ''h:81'')))"
    by metis
  then show "\<exists>h'. setURL ''http://h:81/a/'' Http = Inr h' \<and> getURL h' = ''http://h:81/a/'' \<and>
    getHost h' = ''h:81'' \<and> getPath h' = ''/a/'' \<and> getPort h' = ''81''"
    by (auto simp: trimmed_def path_from_def find_char_def upt_rec)
  have "no_slash ''h''" "find_str (''https://'' @ ''h'' @ []) ''http://'' 0 = None"
    by (simp_all add: no_slash_def find_str_def upt_rec)
  from setURL_roundtrip [OF this(1) disjI1 [OF refl] disjI2 [OF conjI [OF refl this(2)]], of Http]
  show "\<exists>h'. setURL ''https://h'' Http = Inr h' \<and> getPath h' = ''/'' \<and> getPort h' = ''80''"
    by (auto simp: trimmed_def path_from_def)
qed

text \<open>A URL with neither header is a path on the current host, but it leaves the header set to
  \<open>https://\<close>, so a page of an http site is from then on named with the other scheme.\<close>

theorem relative_becomes_https:
  assumes "find_str URL ''http://'' 0 = None" "find_str URL ''https://'' 0 = None"
  shows "\<exists>h'. setURL URL h = Inr h' \<and> getHeader h' = ''https://'' \<and> getHost h' = getHost h"
proof -
  let ?h = "h\<lparr>h_header := ''https://''\<rparr>"
  obtain p where "setPath URL ?h = Inr (?h\<lparr>h_path := p\<rparr>)" using setPath_total by blast
  then have "setURL URL h = set_port_of_host (?h\<lparr>h_path := p\<rparr>)"
    using assms by (simp add: setURL_def find_header_def Let_def)
  then show ?thesis
    using set_port_of_host_total [of "?h\<lparr>h_path := p\<rparr>"] by (auto simp: getHeader_def getHost_def)
qed

theorem relative_becomes_https_witness:
  "\<exists>h'. setURL ''b'' Http = Inr h' \<and> getHeader h' = ''https://'' \<and> getHost h' = getHost Http"
  by (rule relative_becomes_https) (simp_all add: find_str_def upt_rec)

subsection \<open>A request\<close>

lemma disConnect_throws_only: "fst (disConnect api c) = Inl e \<Longrightarrow> \<exists>m. e = Thrown m"
  by (cases c) (auto simp: disConnect_def Shutdown_def io_bind_def io_throw_def split: if_splits prod.splits)

text \<open>C32: a request with the method \<open>GET\<close> on a network that answers: the start-up works, the host of
  the URL is found, the connection to it at the port of the URL succeeds, and once the line
  \<open>GET path HTTP/1.0\<close> and an empty one are sent (no host header), \<open>recv\<close> delivers chunks of 1 to
  1024 bytes and then the end. When each chunk has fewer than 1024 bytes or a zero byte,
  \<open>Request\<close> returns the chunks, each up to its first zero byte, one after the other; that the
  shutdown of the socket may fail afterwards makes no difference. When some chunk has 1024 bytes
  and no zero, the first such one is read past the end of the buffer (\<open>SocketClass.cpp:67\<close>), and
  nothing is returned.\<close>

theorem Request_returns:
  assumes "setURL URL h = Inr h'" "WSAStartup api w = (0, w1)"
    and "ws_socket api SOCK_STREAM w1 = (fd, w2)" "gethostbyname api (getHost h') w2 = (Some a, w3)"
    and "ws_connect api fd (htons (atoi (getPort h')), a) w3 = (0, w4)"
    and "delivers api fd 1024 bs (ws_send api fd (''GET '' @ getPath h' @ '' HTTP/1.0'' @ [CHR 0x0D, CHR 0x0A, CHR 0x0D, CHR 0x0A]) w4)"
    and "length bs < fuel"
  shows "fst (Request fuel api URL ''GET'' [] (h, s, w)) =
    (if list_all (fits 1024) bs then Inr (concat (map text_part bs)) else Inl OutOfBounds)"
proof -
  define g where "g = h'\<lparr>h_base := EndSplit (getPath h') (CHR ''/'') ! 0\<rparr>"
  have g: "getHost g = getHost h'" "getPath g = getPath h'" "h_port g = getPort h'"
    by (simp_all add: g_def getHost_def getPath_def getPort_def)
  let ?s = "\<lparr>sock = fd, sockadd = Some (htons (atoi (getPort h')), a), lpHost = Some a\<rparr>"
  let ?w = "ws_send api fd (GET (getHost h') (getPath h')) w4"
  have c: "Connect api (getHost g) (atoi (h_port g)) (Socket_copy (Socket_assign Socket fd), w2) =
      (Inr (), ?s, w4)"
    using assms(4,5)
    by (simp add: Connect_def Search_def io_bind_def Socket_copy_def Socket_assign_def Socket_def
        g)
  have o: "OpenTCP api w = (Inr (Socket_copy (Socket_assign Socket fd)), w2)"
    using assms(2,3) by (simp add: OpenTCP_def)
  have d: "Send api (request_text g ''GET'' []) (?s, w4) = (Inr (), ?s, ?w)"
    by (simp add: Send_def request_text_def g)
  obtain r data where rd: "fst (recv_loop fuel api 1024 True [] (?s, ?w)) = (data, r)"
    by (cases "fst (recv_loop fuel api 1024 True [] (?s, ?w))")
  then have r: "if list_all (fits 1024) bs then data = concat (map text_part bs) \<and> r = Inr () else r = Inl OutOfBounds"
    using recv_loop_collects [of api ?s 1024 bs ?w fuel "[]"] assms(6,7) by (simp add: crlf_def GET_def split: if_splits)
  obtain c' where v: "Recv fuel api 1024 True (?s, ?w) = ((data, r), c')"
    unfolding Recv_def using rd by (cases "recv_loop fuel api 1024 True [] (?s, ?w)") auto
  obtain x c'' where x: "disConnect api c' = (x, c'')" by (cases "disConnect api c'") auto
  have "\<exists>q c'''. exchange fuel api g ''GET'' [] (s, w) = ((data, q), c''') \<and>
      (if list_all (fits 1024) bs then \<forall>e. q = Inl e \<longrightarrow> (\<exists>m. e = Thrown m) else q = Inl OutOfBounds)"
    using x disConnect_throws_only [of api c'] r
    by (cases x; cases c''; cases "list_all (fits 1024) bs") (auto simp: exchange_def o c d v)
  then obtain q c''' where e: "exchange fuel api g ''GET'' [] (s, w) = ((data, q), c''')"
    "if list_all (fits 1024) bs then \<forall>e. q = Inl e \<longrightarrow> (\<exists>m. e = Thrown m) else q = Inl OutOfBounds"
    by blast
  then show ?thesis
    using assms(1) r
    by (cases q; cases "list_all (fits 1024) bs") (auto simp: Request_def Let_def g_def [symmetric])
qed

lemma sample_URL: "\<exists>h'. setURL ''http://h/a'' Http = Inr h' \<and> getHost h' = ''h'' \<and> getPort h' = ''80''"
proof -
  have "find_header (''http://'' @ ''h'' @ ''/a'') = (''http://'', Some 0)"
    unfolding find_header_def find_str_prefix by simp
  then show ?thesis
    using set_absolute_parts [of "''h''" "''/a''" "''http://''" Http]
    by (simp add: setURL_def no_slash_def Http_def set_port_of_host_eq trimmed_none getHost_def getPort_def)
qed

theorem Request_returns_witness:
  "fst (Request 3 script_net ''http://h/a'' ''GET'' [] (Http, Socket, ([''ab'', ''c''], []))) = Inr ''abc'' \<and>
   fst (Request 3 script_net ''http://h/a'' ''GET'' [] (Http, Socket, ([replicate 1024 (CHR ''a'')], []))) = Inl OutOfBounds"
proof -
  obtain h' where h: "setURL ''http://h/a'' Http = Inr h'" "getHost h' = ''h''" "getPort h' = ''80''"
    using sample_URL by blast
  let ?full = "replicate 1024 (CHR ''a'')"
  have "fst (Request 3 script_net ''http://h/a'' ''GET'' [] (Http, Socket, ([''ab'', ''c''], []))) = Inr ''abc''"
    using Request_returns [OF h(1), of script_net "([''ab'', ''c''], [])" "([''ab'', ''c''], [])" 3
        "([''ab'', ''c''], [])" 7 "([''ab'', ''c''], [])" "([''ab'', ''c''], [])" "[''ab'', ''c'']" 3 Socket]
    by (simp add: h script_net_def fits_def text_part_def)
  moreover have "\<not> fits 1024 ?full" by (simp add: fits_def)
  then have "fst (Request 3 script_net ''http://h/a'' ''GET'' [] (Http, Socket, ([?full], []))) = Inl OutOfBounds"
    using Request_returns [OF h(1), of script_net "([?full], [])" "([?full], [])" 3
        "([?full], [])" 7 "([?full], [])" "([?full], [])" "[?full]" 3 Socket]
    by (simp add: h script_net_def)
  ultimately show ?thesis by blast
qed

end
