(* ===== verification/Crawler.thy ===== *)
theory Crawler
  imports Http Xml
begin

text \<open>
  The image crawler (\<open>Project/CrawlerClass/main.cpp\<close>): it asks a service for the next page,
  reads the page's images and links, and registers their URLs with the service. It composes the
  HTTP client, the document reader and the strings. The requests are a parameter \<open>request\<close> of
  the definitions, over the state of the HTTP object and the connection; the program's own is
  \<open>Request\<close>.
\<close>

subsection \<open>Loops of steps that may throw\<close>

fun io_each :: "('a \<Rightarrow> ('s, 'b) io) \<Rightarrow> 'a list \<Rightarrow> ('s, 'b list) io" where
  "io_each f [] = io_return []"
| "io_each f (x # xs) = io_bind (f x) (\<lambda>y. io_bind (io_each f xs) (\<lambda>ys. io_return (y # ys)))"

definition io_lift :: "'a res \<Rightarrow> ('s, 'a) io" where
  "io_lift r s = (r, s)"

subsection \<open>The program\<close>

type_synonym 'c request = "string \<Rightarrow> string \<Rightarrow> string \<Rightarrow> (http \<times> 'c, string) io"

definition get_next_api :: string where
  "get_next_api = ''http://test.dev-flet.net/~flet/image_crawler/api/imageGetNextURL.php''"

definition add_image_api :: string where
  "add_image_api = ''http://test.dev-flet.net/~flet/image_crawler/api/addImageURL.php''"

definition set_next_api :: string where
  "set_next_api = ''http://test.dev-flet.net/~flet/image_crawler/api/imageSetNextURL.php''"

definition is_absolute :: "string \<Rightarrow> bool" where
  "is_absolute url \<longleftrightarrow> find_str url ''http://'' 0 = Some 0 \<or> find_str url ''https://'' 0 = Some 0"

definition link_url :: "string \<Rightarrow> (http \<times> 'c, string) io" where
  "link_url url st = (if is_absolute url then (Inr url, st) else
     (case setPath url (fst st) of
       Inl e \<Rightarrow> (Inl e, st)
     | Inr h \<Rightarrow> (Inr (getURL h), (h, snd st))))"

text \<open>
  The extension of an image is compared with a list of known ones; what comes out, the first
  index that matches, is not used. The comparison reads the second part of \<open>EndSplit\<close>, which
  always has two.
\<close>

definition def_image :: "string list" where
  "def_image = [''png'', ''gif'', ''jpg'', ''jpeg'', ''jpe'', ''bmp'']"

definition known_image :: "string \<Rightarrow> nat option" where
  "known_image url = List.find (\<lambda>j. def_image ! j = EndSplit url (CHR ''.'') ! 1) [0..<length def_image]"

definition collect :: "string \<Rightarrow> tag list \<Rightarrow> (http \<times> 'c, string list) io" where
  "collect attr = io_each (\<lambda>t. io_bind (link_url (fst (getProperty t attr))) (\<lambda>url.
     let j = known_image url in io_lift (URLencode url)))"

definition register :: "'c request \<Rightarrow> string \<Rightarrow> string list \<Rightarrow> (http \<times> 'c, string list) io" where
  "register request api = io_each (\<lambda>url. request api ''POST'' (''url='' @ url))"

definition crawl_page :: "'c request \<Rightarrow> tag list \<Rightarrow> (http \<times> 'c, unit) io" where
  "crawl_page request html =
     io_bind (collect ''src'' (getElementsByTagName html ''img'')) (\<lambda>image_list.
     io_bind (collect ''href'' (getElementsByTagName html ''a'')) (\<lambda>link_list.
     io_bind (register request add_image_api image_list) (\<lambda>_.
     io_bind (register request set_next_api link_list) (\<lambda>_. io_return ()))))"

definition crawler :: "'c request \<Rightarrow> (http \<times> 'c, unit) io" where
  "crawler request =
     io_bind (request get_next_api ''GET'' []) (\<lambda>response.
     io_bind (io_lift (XML response)) (\<lambda>api_xml.
     io_bind (io_lift (rdbuf (getElementsByTagName api_xml ''api'') 0)) (\<lambda>api.
     let (st, api) = getProperty api ''status'' in
     if st = ''success'' then
       io_bind (request (fst (getProperty api ''url'')) ''GET'' []) (\<lambda>response.
       io_bind (io_lift (XML response)) (crawl_page request))
     else io_return ())))"

definition main_crawler :: "nat \<Rightarrow> 'w winsock \<Rightarrow> 'w conn \<Rightarrow> unit res \<times> http \<times> 'w conn" where
  "main_crawler fuel net c = crawler (Request fuel net) (Http, c)"

subsection \<open>What a link stands for\<close>

definition resolved :: "http \<Rightarrow> string \<Rightarrow> string" where
  "resolved h url = (if is_absolute url then url else
     (case setPath url h of Inr h' \<Rightarrow> getURL h' | Inl e \<Rightarrow> []))"

definition encoded :: "http \<Rightarrow> string \<Rightarrow> string" where
  "encoded h url = (case URLencode (resolved h url) of Inr t \<Rightarrow> t | Inl e \<Rightarrow> [])"

text \<open>\<open>setPath\<close> reads the directory of the last request only, not the path it set before.\<close>

lemma setPath_path: "setPath url (h\<lparr>h_path := p\<rparr>) = setPath url h"
  by (simp add: setPath_def cong: if_cong del: path_loop.simps)

lemma resolved_path: "resolved (h\<lparr>h_path := p\<rparr>) url = resolved h url"
  by (simp add: resolved_def setPath_path)

lemma link_url_ok: "\<exists>q. link_url url (h\<lparr>h_path := p\<rparr>, c) = (Inr (resolved h url), (h\<lparr>h_path := q\<rparr>, c))"
proof -
  obtain q where "setPath url h = Inr (h\<lparr>h_path := q\<rparr>)" using setPath_total by blast
  then show ?thesis by (cases "is_absolute url") (auto simp: link_url_def resolved_def setPath_path)
qed

lemma collect_ok:
  "\<exists>q. collect attr ts (h\<lparr>h_path := p\<rparr>, c) =
     (Inr (map (\<lambda>t. encoded h (fst (getProperty t attr))) ts), (h\<lparr>h_path := q\<rparr>, c))"
proof (induction ts arbitrary: p)
  case Nil
  then show ?case by (auto simp: collect_def io_return_def)
next
  case (Cons t ts)
  obtain q where q: "link_url (fst (getProperty t attr)) (h\<lparr>h_path := p\<rparr>, c) =
      (Inr (resolved h (fst (getProperty t attr))), (h\<lparr>h_path := q\<rparr>, c))"
    using link_url_ok [where h = h and p = p] by fast
  obtain q' where "collect attr ts (h\<lparr>h_path := q\<rparr>, c) =
      (Inr (map (\<lambda>t. encoded h (fst (getProperty t attr))) ts), (h\<lparr>h_path := q'\<rparr>, c))"
    using Cons.IH by blast
  with q show ?case
    by (auto simp: collect_def io_bind_def io_lift_def io_return_def encoded_def URLencode_eq)
qed

lemma getProperty_found:
  "fst (getProperty t k) \<noteq> [] \<Longrightarrow> snd (getProperty t k) = t"
  by (auto simp: getProperty_def map_get_def split: option.splits)

lemma encoded_decodes:
  assumes "\<forall>c \<in> set (resolved h url). 16 \<le> (of_char c :: nat)"
  shows "url_decode (encoded h url) = resolved h url"
proof -
  have "url_decode (concat (map url_char s)) = s" if "\<forall>c \<in> set s. 16 \<le> (of_char c :: nat)" for s
    using that by (induction s) (simp_all add: decode_url_char)
  with assms show ?thesis by (simp add: encoded_def URLencode_eq)
qed

text \<open>
  C23: When the service names a page and the page is delivered, the crawler registers exactly the
  page's images and then its links, one request each, in document order, encoded, and each link
  resolved against the page: the paths it resolves on the way, which overwrite the path of the
  HTTP object, do not influence the later ones. No step of it fails by itself.
\<close>

theorem crawler_registers:
  assumes "request get_next_api ''GET'' [] st = (Inr r1, st1)" and "XML r1 = Inr ts"
    and "getElementsByTagName ts ''api'' = api # apis" and "fst (getProperty api ''status'') = ''success''"
    and "request (fst (getProperty api ''url'')) ''GET'' [] st1 = (Inr r2, (h, c))" and "XML r2 = Inr html"
  shows "\<exists>p. crawler request st =
    io_bind (register request add_image_api
      (map (\<lambda>t. encoded h (fst (getProperty t ''src''))) (getElementsByTagName html ''img''))) (\<lambda>_.
    io_bind (register request set_next_api
      (map (\<lambda>t. encoded h (fst (getProperty t ''href''))) (getElementsByTagName html ''a''))) (\<lambda>_.
    io_return ())) (h\<lparr>h_path := p\<rparr>, c)"
proof -
  let ?img = "getElementsByTagName html ''img''" and ?a = "getElementsByTagName html ''a''"
  obtain q where q: "collect ''src'' ?img (h, c) =
      (Inr (map (\<lambda>t. encoded h (fst (getProperty t ''src''))) ?img), (h\<lparr>h_path := q\<rparr>, c))"
    using collect_ok [of "''src''" ?img "h_path h" h c] by auto
  obtain p where p: "collect ''href'' ?a (h\<lparr>h_path := q\<rparr>, c) =
      (Inr (map (\<lambda>t. encoded h (fst (getProperty t ''href''))) ?a), (h\<lparr>h_path := p\<rparr>, c))"
    using collect_ok [where h = h and p = q] by fast
  have "snd (getProperty api ''status'') = api" using assms(4) by (intro getProperty_found) simp
  then obtain "getProperty api ''status'' = (''success'', api)"
    using assms(4) by (cases "getProperty api ''status''") simp
  then have "crawler request st = crawl_page request html (h, c)"
    using assms by (simp add: crawler_def io_bind_def io_lift_def)
  also have "\<dots> = io_bind (register request add_image_api
      (map (\<lambda>t. encoded h (fst (getProperty t ''src''))) ?img)) (\<lambda>_. io_bind (register request set_next_api
      (map (\<lambda>t. encoded h (fst (getProperty t ''href''))) ?a)) (\<lambda>_. io_return ())) (h\<lparr>h_path := p\<rparr>, c)"
    unfolding crawl_page_def io_bind_def [of "collect _ _"] by (simp add: q p)
  finally show ?thesis by blast
qed

text \<open>A service and a page of canned answers: the requests made are the connection.\<close>

definition api_tag :: tag where
  "api_tag = \<lparr>tag_name = ''api'', tag_text = [], propertys = [(''status'', ''success''), (''url'', ''http://h/p/x'')]\<rparr>"

definition img_tag :: tag where
  "img_tag = \<lparr>tag_name = ''img'', tag_text = [], propertys = [(''src'', ''http://h/i'')]\<rparr>"

definition canned :: "(string \<times> string) list request" where
  "canned url mth data = (\<lambda>(h, log). (Inr (if url = get_next_api then Create api_tag
     else if mth = ''GET'' then Create img_tag else []), (h, log @ [(url, data)])))"

theorem crawler_registers_witness:
  "snd (snd (crawler canned (Http, []))) = [(get_next_api, []), (''http://h/p/x'', []),
     (add_image_api, ''url='' @ encoded Http ''http://h/i'')]"
proof -
  have x: "XML (Create api_tag) = Inr [api_tag]" "XML (Create img_tag) = Inr [img_tag]"
    by (rule XML_tag, simp add: api_tag_def img_tag_def wf_tag_def wf_property_def plain_def quote_def)+
  have u: "''http://h/p/x'' \<noteq> get_next_api" by (simp add: get_next_api_def)
  have p: "getProperty api_tag ''status'' = (''success'', api_tag)"
    "getProperty api_tag ''url'' = (''http://h/p/x'', api_tag)"
    "getProperty img_tag ''src'' = (''http://h/i'', img_tag)"
    by (simp_all add: getProperty_def map_get_def api_tag_def img_tag_def)
  have e: "getElementsByTagName [api_tag] ''api'' = [api_tag]" "getElementsByTagName [img_tag] ''img'' = [img_tag]"
    "getElementsByTagName [img_tag] ''a'' = []"
    by (simp_all add: getElements_filter api_tag_def img_tag_def)
  obtain q where "crawler canned (Http, []) =
    io_bind (register canned add_image_api [encoded Http ''http://h/i'']) (\<lambda>_.
    io_bind (register canned set_next_api []) (\<lambda>_. io_return ()))
      (Http\<lparr>h_path := q\<rparr>, [(get_next_api, []), (''http://h/p/x'', [])])"
    using crawler_registers [of canned "(Http, [])" "Create api_tag" "(Http, [(get_next_api, [])])"
        "[api_tag]" api_tag "[]" "Create img_tag" Http "[(get_next_api, []), (''http://h/p/x'', [])]" "[img_tag]"]
    by (auto simp: canned_def x u p e)
  then show ?thesis by (simp add: register_def io_bind_def io_return_def canned_def)
qed

text \<open>
  When the network cannot be started, the client prints the message and returns an empty
  response, the reader makes an empty document of it, and the crawler reads the first element
  of an empty vector.
\<close>

theorem crawler_offline:
  assumes "fst (WSAStartup net w) \<noteq> 0"
  shows "fst (main_crawler fuel net (s, w)) = Inl OutOfBounds"
proof -
  obtain n w' where w: "WSAStartup net w = (n, w')" "n \<noteq> 0" using assms by (cases "WSAStartup net w") auto
  obtain h where h: "setURL get_next_api Http = Inr h" using setURL_total by blast
  have "fst (Request fuel net get_next_api ''GET'' [] (Http, s, w)) = Inr []"
    using w by (simp add: Request_def h Let_def exchange_def OpenTCP_def io_throw_def)
  then obtain st where "Request fuel net get_next_api ''GET'' [] (Http, s, w) = (Inr [], st)"
    by (cases "Request fuel net get_next_api ''GET'' [] (Http, s, w)") auto
  moreover have "XML [] = Inr []"
    by (simp add: XML_def XML_Create_def Replace_subst FrontStrip_eq)
  ultimately show ?thesis
    by (simp add: main_crawler_def crawler_def io_bind_def io_lift_def getElements_filter rdbuf_def)
qed

theorem crawler_offline_witness:
  "fst (main_crawler 3 (script_net\<lparr>WSAStartup := \<lambda>w. (10091, w)\<rparr>) (Socket, ([], []))) = Inl OutOfBounds"
  by (rule crawler_offline) simp

end
