(* ===== verification/Graph.thy ===== *)
theory Graph
  imports CHeap CDouble
begin

text \<open>
  The feature graphs of \<open>graph.cpp\<close>: points, edges and features in blocks of three heaps that
  the graph structure points to. A function that takes a \<open>GRAPH*\<close> takes the structure and the
  memory and returns both.
\<close>

subsection \<open>Structures\<close>

record POINT =
  pt_x :: "int option"
  pt_y :: "int option"

record EDGE =
  ed_start :: "int option"
  ed_end :: "int option"

text \<open>\<open>name\<close> and \<open>rc\<close> are unset until something is stored into them.\<close>

record GRAPH =
  name_len :: int
  gname :: "string option"
  count :: int
  line_count :: int
  pt_list :: ptr
  edge_list :: ptr
  feature :: ptr
  g_rc :: "(int \<times> int \<times> int \<times> int) option"

record graph_mem =
  points :: "POINT cheap"
  edges :: "EDGE cheap"
  features :: "cfloat option cheap"

definition junk_pt :: POINT where
  "junk_pt = \<lparr>pt_x = None, pt_y = None\<rparr>"

definition pt :: "int \<Rightarrow> int \<Rightarrow> POINT" where
  "pt x y = \<lparr>pt_x = Some x, pt_y = Some y\<rparr>"

definition junk_edge :: EDGE where
  "junk_edge = \<lparr>ed_start = None, ed_end = None\<rparr>"

text \<open>The elements of \<open>malloc(size*n)\<close>, whose argument is a 32-bit unsigned number.\<close>

definition elems :: "int \<Rightarrow> int \<Rightarrow> nat" where
  "elems sz n = nat ((sz * n) mod 2 ^ 32 div sz)"

subsection \<open>Operations\<close>

definition InitGraph :: "GRAPH \<Rightarrow> GRAPH" where
  "InitGraph g = g\<lparr>line_count := 0, count := 0, name_len := 0, pt_list := NULL, edge_list := NULL,
     feature := NULL\<rparr>"

definition DeleteGraph :: "GRAPH \<Rightarrow> graph_mem \<Rightarrow> (GRAPH \<times> graph_mem) res" where
  "DeleteGraph g m =
     rbind (mem_free (pt_list g) (points m)) (\<lambda>ps. rbind (mem_free (edge_list g) (edges m)) (\<lambda>es.
     rbind (mem_free (feature g) (features m)) (\<lambda>fs.
     Inr (InitGraph g, m\<lparr>points := ps, edges := es, features := fs\<rparr>))))"

definition AddPixelGraph :: "GRAPH \<Rightarrow> POINT \<Rightarrow> graph_mem \<Rightarrow> (GRAPH \<times> graph_mem) res" where
  "AddPixelGraph g p m =
     (let n = s32 (count g + 1); (q, ps) = malloc (elems 8 n) junk_pt (points m) in
      rbind (if pt_list g \<noteq> NULL then rbind (peek (pt_list g) 0 ps) (\<lambda>v. poke q 0 v ps) else Inr ps) (\<lambda>ps.
      rbind (poke q (n - 1) p ps) (\<lambda>ps. rbind (mem_free (pt_list g) ps) (\<lambda>ps.
      Inr (g\<lparr>count := n, pt_list := q\<rparr>, m\<lparr>points := ps\<rparr>)))))"

definition AddLineGraph :: "GRAPH \<Rightarrow> int \<Rightarrow> int \<Rightarrow> graph_mem \<Rightarrow> (GRAPH \<times> graph_mem) res" where
  "AddLineGraph g s e m =
     (let n = s32 (line_count g + 1); (q, es) = malloc (elems 8 n) junk_edge (edges m) in
      rbind (peek (edge_list g) 0 es) (\<lambda>v. rbind (poke q 0 v es) (\<lambda>es.
      rbind (poke q (n - 1) \<lparr>ed_start = Some s, ed_end = Some e\<rparr> es) (\<lambda>es.
      rbind (mem_free (pt_list g) (points m)) (\<lambda>ps.
      Inr (g\<lparr>line_count := n, edge_list := q\<rparr>, m\<lparr>points := ps, edges := es\<rparr>))))))"

definition read_pt :: "ptr \<Rightarrow> int \<Rightarrow> POINT cheap \<Rightarrow> (int \<times> int) res" where
  "read_pt p i ps = rbind (peek p i ps) (\<lambda>v. rbind (fld (pt_x v)) (\<lambda>x. rbind (fld (pt_y v)) (\<lambda>y. Inr (x, y))))"

definition ChangeRateGraph :: "GRAPH \<Rightarrow> cfloat \<Rightarrow> GRAPH \<Rightarrow> POINT cheap \<Rightarrow> POINT cheap res" where
  "ChangeRateGraph g rate d = foldM (\<lambda>i ps.
     rbind (read_pt (pt_list d) i ps) (\<lambda>(x, y).
     poke (pt_list g) i (pt (fp_to_int (fp_mul F64 (fp_of_int F64 x) rate))
       (fp_to_int (fp_mul F64 (fp_of_int F64 y) rate))) ps)) [0..count g - 1]"

definition shift_points :: "GRAPH \<Rightarrow> int \<Rightarrow> int \<Rightarrow> POINT cheap \<Rightarrow> POINT cheap res" where
  "shift_points g dx dy = foldM (\<lambda>i ps.
     rbind (read_pt (pt_list g) i ps) (\<lambda>(x, y).
     poke (pt_list g) i (pt (s32 (x + dx)) (s32 (y + dy))) ps)) [0..count g - 1]"

text \<open>The point taken as the centre has the index 15.\<close>

definition MoveGraph :: "GRAPH \<Rightarrow> GRAPH \<Rightarrow> POINT cheap \<Rightarrow> POINT cheap res" where
  "MoveGraph g d ps =
     rbind (read_pt (pt_list d) 15 ps) (\<lambda>(dx, dy). rbind (read_pt (pt_list g) 15 ps) (\<lambda>(x, y).
     shift_points g (s32 (dx - x)) (s32 (dy - y)) ps))"

definition PointMoveGraph :: "GRAPH \<Rightarrow> int \<times> int \<Rightarrow> POINT cheap \<Rightarrow> POINT cheap res" where
  "PointMoveGraph g p ps =
     rbind (read_pt (pt_list g) 0 ps) (\<lambda>(x, y).
     shift_points g (s32 (fst p - x)) (s32 (snd p - y)) ps)"

definition CopyGraph :: "GRAPH \<Rightarrow> GRAPH \<Rightarrow> int \<Rightarrow> graph_mem \<Rightarrow> (GRAPH \<times> graph_mem) res" where
  "CopyGraph dst src feature_w m =
     rbind (DeleteGraph dst m) (\<lambda>(_, m).
     rbind (fld (gname src)) (\<lambda>name.
     let n = count src;
         (p, ps) = malloc (elems 8 n) junk_pt (points m);
         (e, es) = malloc (elems 8 (n * n)) junk_edge (edges m);
         (f, fs) = malloc (elems 8 (n * feature_w)) None (features m) in
     rbind (foldM (\<lambda>i (ps, fs).
         rbind (peek (pt_list src) i ps) (\<lambda>v. rbind (poke p i v ps) (\<lambda>ps.
         rbind (peek (feature src) i fs) (\<lambda>v. rbind (poke f i v fs) (\<lambda>fs. Inr (ps, fs))))))
       [0..n - 1] (ps, fs)) (\<lambda>(ps, fs).
     rbind (foldM (\<lambda>i es. rbind (peek (edge_list src) i es) (\<lambda>v. poke e i v es)) [0..line_count src - 1] es) (\<lambda>es.
     Inr (src\<lparr>gname := Some name, pt_list := p, edge_list := e, feature := f\<rparr>,
       m\<lparr>points := ps, edges := es, features := fs\<rparr>)))))"

text \<open>The four bounds, right, left, bottom and top; -1 stands for a bound not yet set.\<close>

definition grow_max :: "int \<Rightarrow> int \<Rightarrow> int" where
  "grow_max v b = (if b < v \<or> b = - 1 then v else b)"

definition grow_min :: "int \<Rightarrow> int \<Rightarrow> int" where
  "grow_min v b = (if v < b \<or> b = - 1 then v else b)"

definition GetGraphSize :: "GRAPH \<Rightarrow> POINT cheap \<Rightarrow> GRAPH res" where
  "GetGraphSize g ps =
     rbind (foldM (\<lambda>i (r, l, b, t).
         rbind (read_pt (pt_list g) i ps) (\<lambda>(x, y).
         Inr (grow_max x r, grow_min x l, grow_max y b, grow_min y t)))
       [0..count g - 1] (- 1, - 1, - 1, - 1)) (\<lambda>rc.
     Inr (g\<lparr>g_rc := Some rc\<rparr>))"

subsection \<open>Adding points\<close>

lemma elems_exact: "0 \<le> n \<Longrightarrow> n < 2 ^ 28 \<Longrightarrow> elems 8 n = nat n"
  by (simp add: elems_def)

lemma AddPixelGraph_first:
  assumes "pt_list g = NULL" "count g = 0"
  shows "\<exists>q ps. AddPixelGraph g p m = Inr (g\<lparr>count := 1, pt_list := q\<rparr>, m\<lparr>points := ps\<rparr>) \<and>
    q \<noteq> NULL \<and> block ps q = Some [p]"
proof -
  obtain q ps where q: "malloc 1 junk_pt (points m) = (q, ps)" "q \<noteq> NULL" "block ps = (block (points m))(q \<mapsto> replicate 1 junk_pt)"
    by (rule hp.newE)
  then obtain ps' where p: "poke q 0 p ps = Inr ps'" "block ps' = (block ps)(q \<mapsto> [p])"
    using hp.wr_live [of ps q "[junk_pt]" 0 p] by auto
  have "mem_free NULL ps' = Inr ps'" by (simp add: mem_free_def)
  then show ?thesis
    using assms q p by (intro exI [of _ q] exI [of _ ps'])
      (simp add: AddPixelGraph_def elems_exact int32_def Let_def)
qed

lemma AddPixelGraph_next:
  assumes "block (points m) (pt_list g) = Some xs" "int (length xs) = count g" "1 \<le> count g" "count g + 1 < 2 ^ 28"
  shows "\<exists>q ps. AddPixelGraph g p m = Inr (g\<lparr>count := count g + 1, pt_list := q\<rparr>, m\<lparr>points := ps\<rparr>) \<and>
    q \<noteq> NULL \<and> block ps q = Some (hd xs # replicate (length xs - 1) junk_pt @ [p])"
proof -
  let ?n = "count g + 1"
  have n: "s32 ?n = ?n" "elems 8 ?n = Suc (length xs)"
    using assms(2-4) by (simp_all add: int32_def elems_exact nat_add_distrib flip: assms(2))
  obtain q ps where q: "malloc (Suc (length xs)) junk_pt (points m) = (q, ps)" "q \<noteq> NULL" "block (points m) q = None"
    "block ps = (block (points m))(q \<mapsto> replicate (Suc (length xs)) junk_pt)" by (rule hp.newE)
  have idx: "0 \<le> ?n - 1" "?n - 1 < int (Suc (length xs))" "nat (?n - 1) = length xs"
    using assms(2,3) by simp_all
  have ne: "xs \<noteq> []" using assms(2,3) by auto
  have old: "pt_list g \<noteq> NULL" "pt_list g \<noteq> q" using assms(1) q(3) hp.live_not_null by auto
  have "peek (pt_list g) 0 ps = Inr (hd xs)"
    using assms(1-3) q(4) old by (subst hp.rd_live [of ps "pt_list g" xs]) (auto simp: hd_conv_nth [OF ne])
  moreover obtain ps1 where p1: "poke q 0 (hd xs) ps = Inr ps1" "block ps1 = (block ps)(q \<mapsto> hd xs # replicate (length xs) junk_pt)"
    using hp.wr_live [of ps q "replicate (Suc (length xs)) junk_pt" 0 "hd xs"] q(4) by auto
  moreover obtain ps2 where p2: "poke q (?n - 1) p ps1 = Inr ps2"
    "block ps2 = (block ps1)(q \<mapsto> (hd xs # replicate (length xs) junk_pt)[length xs := p])"
    using hp.wr_live [of ps1 q "hd xs # replicate (length xs) junk_pt" "?n - 1" p] p1(2) idx by auto
  moreover obtain ps3 where p3: "mem_free (pt_list g) ps2 = Inr ps3" "block ps3 = (block ps2)(pt_list g := None)"
    using hp.rel_live [of ps2 "pt_list g" xs] assms(1) p1(2) p2(2) q(4) old by auto
  ultimately have "AddPixelGraph g p m = Inr (g\<lparr>count := ?n, pt_list := q\<rparr>, m\<lparr>points := ps3\<rparr>)"
    using old q(1) by (simp add: AddPixelGraph_def n Let_def)
  moreover have "(hd xs # replicate (length xs) junk_pt)[length xs := p] = hd xs # replicate (length xs - 1) junk_pt @ [p]"
  proof -
    obtain k where "length xs = Suc k" using assms(2,3) by (cases "length xs") auto
    moreover have "replicate (Suc k) junk_pt = replicate k junk_pt @ [junk_pt]"
      by (simp add: replicate_append_same)
    ultimately show ?thesis
      using list_update_length [of "replicate k junk_pt" junk_pt "[]" p] by (simp del: replicate_Suc)
  qed
  ultimately show ?thesis
    using q(2) old p2(2) p3(2) by (intro exI [of _ q] exI [of _ ps3]) simp
qed

definition add_points :: "POINT list \<Rightarrow> GRAPH \<times> graph_mem \<Rightarrow> (GRAPH \<times> graph_mem) res" where
  "add_points = foldM (\<lambda>p (g, m). AddPixelGraph g p m)"

lemma add_points_block:
  assumes "pt_list g = NULL" "count g = 0" "ps \<noteq> []" "length ps < 2 ^ 28"
  shows "\<exists>g' m'. add_points ps (g, m) = Inr (g', m') \<and> count g' = int (length ps) \<and>
    block (points m') (pt_list g') =
      Some (if length ps = 1 then ps else hd ps # replicate (length ps - 2) junk_pt @ [last ps])"
  using assms(3,4)
proof (induction ps rule: rev_induct)
  case (snoc p ps)
  show ?case
  proof (cases "ps = []")
    case True
    then show ?thesis using AddPixelGraph_first [OF assms(1,2), of p m] by (auto simp: add_points_def)
  next
    case False
    let ?xs = "if length ps = 1 then ps else hd ps # replicate (length ps - 2) junk_pt @ [last ps]"
    obtain g1 m1 where g1: "add_points ps (g, m) = Inr (g1, m1)" "count g1 = int (length ps)"
      "block (points m1) (pt_list g1) = Some ?xs"
      using snoc False by auto
    have len: "1 \<le> length ps" using False by (cases ps) auto
    then have l: "length ?xs = length ps" "hd ?xs = hd ps" by auto
    obtain q qs where "AddPixelGraph g1 p m1 = Inr (g1\<lparr>count := count g1 + 1, pt_list := q\<rparr>, m1\<lparr>points := qs\<rparr>)"
      "block qs q = Some (hd ?xs # replicate (length ?xs - 1) junk_pt @ [p])"
      using AddPixelGraph_next [OF g1(3), of p] g1(2) l(1) len snoc.prems(2) by auto
    then show ?thesis
      unfolding l using g1(1,2) False len
      by (intro exI [of _ "g1\<lparr>count := count g1 + 1, pt_list := q\<rparr>"] exI [of _ "m1\<lparr>points := qs\<rparr>"])
        (simp add: add_points_def foldM_append)
  qed
qed simp

text \<open>
  \<open>AddPixelGraph\<close> carries over only the first point. After any number of additions to a
  fresh graph the graph has that many points, of which the first and the last are the ones
  added and all others are unset; from the third addition on, the size of the graph is read
  from unset points.
\<close>

theorem AddPixelGraph_loses:
  assumes "pt_list g = NULL" "count g = 0" "2 \<le> length ps" "length ps < 2 ^ 28"
  shows "\<exists>g' m'. add_points ps (g, m) = Inr (g', m') \<and> count g' = int (length ps) \<and>
    block (points m') (pt_list g') = Some (hd ps # replicate (length ps - 2) junk_pt @ [last ps]) \<and>
    (3 \<le> length ps \<and> hd ps = pt x y \<longrightarrow> GetGraphSize g' (points m') = Inl Uninit)"
proof -
  have ne: "ps \<noteq> []" and one: "length ps \<noteq> 1" using assms(3) by auto
  obtain g' m' where g': "add_points ps (g, m) = Inr (g', m')" "count g' = int (length ps)"
    "block (points m') (pt_list g') = Some (hd ps # replicate (length ps - 2) junk_pt @ [last ps])"
    using add_points_block [OF assms(1,2) ne assms(4), of m] unfolding if_not_P [OF one] by blast
  have "GetGraphSize g' (points m') = Inl Uninit" if three: "3 \<le> length ps" and first: "hd ps = pt x y"
  proof -
    obtain k where k: "length ps - 2 = Suc k" using three by (cases "length ps - 2") auto
    have "[0..count g' - 1] = 0 # 1 # [2..count g' - 1]"       using three ne upto_rec1 [of 0 "count g' - 1"] upto_rec1 [of 1 "count g' - 1"] g'(2) by simp
    moreover have "read_pt (pt_list g') 0 (points m') = Inr (x, y)" "read_pt (pt_list g') 1 (points m') = Inl Uninit"
      using first by (simp_all add: read_pt_def hp.rd_live [OF g'(3)] rdbuf_def k pt_def junk_pt_def)
    ultimately show ?thesis by (simp add: GetGraphSize_def)
  qed
  with g' show ?thesis by blast
qed

text \<open>A fresh graph in an empty memory.\<close>

definition new_graph :: GRAPH where
  "new_graph = \<lparr>name_len = 0, gname = None, count = 0, line_count = 0, pt_list = NULL, edge_list = NULL,
     feature = NULL, g_rc = None\<rparr>"

definition no_mem :: graph_mem where
  "no_mem = \<lparr>points = [], edges = [], features = []\<rparr>"

theorem AddPixelGraph_loses_witness:
  "\<exists>g m. add_points [pt 1 2, pt 3 4, pt 5 6] (new_graph, no_mem) = Inr (g, m) \<and>
     block (points m) (pt_list g) = Some [pt 1 2, junk_pt, pt 5 6] \<and> GetGraphSize g (points m) = Inl Uninit"
  using AddPixelGraph_loses [of new_graph "[pt 1 2, pt 3 4, pt 5 6]" no_mem 1 2]
  by (fastforce simp: new_graph_def)

subsection \<open>Adding lines\<close>

text \<open>
  \<open>AddLineGraph\<close> reads the first edge of a graph that has none through a null pointer, and
  on a graph with edges it releases the points instead of the old edges: the next point that
  is added, the next move and the deletion of the graph all touch the released block.
\<close>

theorem AddLineGraph_frees_points:
  assumes "0 \<le> line_count g" "line_count g + 1 < 2 ^ 28" "block (points m) (pt_list g) = Some xs"
  shows "(edge_list g = NULL \<longrightarrow> AddLineGraph g s e m = Inl NullDeref) \<and>
    (\<forall>v vs. block (edges m) (edge_list g) = Some (v # vs) \<longrightarrow>
      (\<exists>g' m'. AddLineGraph g s e m = Inr (g', m') \<and> DeleteGraph g' m' = Inl Freed \<and>
        (\<forall>p. AddPixelGraph g' p m' = Inl Freed) \<and> (\<forall>p. PointMoveGraph g' p (points m') = Inl Freed)))"
proof -
  let ?n = "line_count g + 1"
  have n: "s32 ?n = ?n" "elems 8 ?n = nat ?n" "0 \<le> ?n - 1" "?n - 1 < int (nat ?n)"
    using assms(1,2) by (simp_all add: int32_def elems_exact)
  obtain q es where q: "malloc (nat ?n) junk_edge (edges m) = (q, es)" "q \<noteq> NULL" "block (edges m) q = None"
    "block es = (block (edges m))(q \<mapsto> replicate (nat ?n) junk_edge)" by (rule hp.newE)
  have null: "AddLineGraph g s e m = Inl NullDeref" if "edge_list g = NULL"
    using that q(1,2,4) hp.rd_dead [of es NULL] by (simp add: AddLineGraph_def n block_NULL Let_def)
  have freed: "\<exists>g' m'. AddLineGraph g s e m = Inr (g', m') \<and> DeleteGraph g' m' = Inl Freed \<and>
      (\<forall>p. AddPixelGraph g' p m' = Inl Freed) \<and> (\<forall>p. PointMoveGraph g' p (points m') = Inl Freed)"
    if "block (edges m) (edge_list g) = Some (v # vs)" for v vs
  proof -
    have "edge_list g \<noteq> q" using that q(3) by auto
    then have "peek (edge_list g) 0 es = Inr v"
      using that q(4) by (subst hp.rd_live [of es "edge_list g" "v # vs"]) simp_all
    moreover obtain es1 where e1: "poke q 0 v es = Inr es1" "block es1 = (block es)(q \<mapsto> (replicate (nat ?n) junk_edge)[0 := v])"
      using hp.wr_live [of es q "replicate (nat ?n) junk_edge" 0 v] q(4) n(4) assms(1) by auto
    moreover obtain es2 where e2: "poke q (?n - 1) \<lparr>ed_start = Some s, ed_end = Some e\<rparr> es1 = Inr es2"
      using hp.wr_live [of es1 q "(replicate (nat ?n) junk_edge)[0 := v]" "?n - 1"] e1(2) n(3,4) by auto
    moreover obtain ps where ps: "mem_free (pt_list g) (points m) = Inr ps" "block ps = (block (points m))(pt_list g := None)"
      using hp.rel_live [OF assms(3)] by blast
    ultimately have "AddLineGraph g s e m =
        Inr (g\<lparr>line_count := ?n, edge_list := q\<rparr>, m\<lparr>points := ps, edges := es2\<rparr>)"
      using q(1) by (simp add: AddLineGraph_def n Let_def)
    moreover have p: "pt_list g \<noteq> NULL" "block ps (pt_list g) = None"
      using assms(3) ps(2) hp.live_not_null by auto
    have "mem_free (pt_list g) ps = Inl Freed" "peek (pt_list g) i ps = Inl Freed" for i
      using p by (simp_all add: hp.rel_dead hp.rd_dead)
    moreover have "peek (pt_list g) i ps' = Inl Freed" if "malloc k junk_pt ps = (r, ps')" "r \<noteq> pt_list g" for i k r ps'
      using that p malloc_block [OF that(1)] by (simp add: hp.rd_dead)
    moreover have "r \<noteq> pt_list g" if "malloc k junk_pt ps = (r, ps')" for k r ps'
      using that p(1) assms(3) ps unfolding malloc_def mem_free_def set_block_def block_def
      by (auto split: if_splits option.splits)
    ultimately show ?thesis
      using p(1) by (intro exI [of _ "g\<lparr>line_count := ?n, edge_list := q\<rparr>"] exI [of _ "m\<lparr>points := ps, edges := es2\<rparr>"])
        (auto simp: DeleteGraph_def AddPixelGraph_def PointMoveGraph_def read_pt_def Let_def split: prod.split)
  qed
  from null freed show ?thesis by blast
qed

definition line_graph :: GRAPH where
  "line_graph = new_graph\<lparr>count := 2, line_count := 1, pt_list := 1, edge_list := 1\<rparr>"

definition line_mem :: graph_mem where
  "line_mem = \<lparr>points = [Some [pt 1 2, pt 3 4]], edges = [Some [\<lparr>ed_start = Some 0, ed_end = Some 1\<rparr>]], features = []\<rparr>"

lemma line_blocks:
  "block (points line_mem) (Suc 0) = Some [pt 1 2, pt 3 4]"
  "block (edges line_mem) (Suc 0) = Some [\<lparr>ed_start = Some 0, ed_end = Some 1\<rparr>]"
  by (simp_all add: line_mem_def block_def NULL_def)

theorem AddLineGraph_frees_points_witness:
  "\<exists>g m. AddLineGraph line_graph 1 0 line_mem = Inr (g, m) \<and> DeleteGraph g m = Inl Freed"
  using AddLineGraph_frees_points [of line_graph line_mem "[pt 1 2, pt 3 4]" 1 0]
  by (fastforce simp: line_graph_def line_blocks)

subsection \<open>Moving and measuring\<close>

definition pts :: "(int \<times> int) list \<Rightarrow> POINT list" where
  "pts = map (\<lambda>(x, y). pt x y)"

lemma read_pts:
  "block ps p = Some (pts cs) \<Longrightarrow> 0 \<le> i \<Longrightarrow> i < int (length cs) \<Longrightarrow> read_pt p i ps = Inr (cs ! nat i)"
  by (cases "cs ! nat i") (simp add: read_pt_def hp.rd_live pts_def pt_def)

lemma shift_points_ok:
  assumes "block ps (pt_list g) = Some (pts cs)" "count g = int (length cs)"
  shows "\<exists>ps'. shift_points g dx dy ps = Inr ps' \<and>
    block ps' = (block ps)(pt_list g \<mapsto> pts (map (\<lambda>(x, y). (s32 (x + dx), s32 (y + dy))) cs))"
proof -
  let ?f = "\<lambda>i ps. rbind (read_pt (pt_list g) i ps) (\<lambda>(x, y).
     poke (pt_list g) i (pt (s32 (x + dx)) (s32 (y + dy))) ps)"
  let ?g = "\<lambda>i. pts (map (\<lambda>(x, y). (s32 (x + dx), s32 (y + dy))) cs) ! nat i"
  have "\<exists>t zs. foldM ?f [0..count g - 1] ps = Inr t \<and> block t = (block ps)(pt_list g \<mapsto> zs) \<and>
      length zs = length (pts cs) \<and> (\<forall>i \<in> set [0..count g - 1]. zs ! nat i = ?g i) \<and>
      (\<forall>k < length (pts cs). int k \<notin> (\<lambda>i. i) ` set [0..count g - 1] \<longrightarrow> zs ! k = pts cs ! k)"
  proof (rule hp.sweep [OF assms(1), where ix = "\<lambda>i. i"])
    fix i t zs
    assume i: "i \<in> set [0..count g - 1]" and t: "block t = (block ps)(pt_list g \<mapsto> zs)"
      "length zs = length (pts cs)" "zs ! nat i = pts cs ! nat i"
    have b: "0 \<le> i" "i < int (length cs)" using i assms(2) by simp_all
    obtain x y where c: "cs ! nat i = (x, y)" by force
    have "read_pt (pt_list g) i t = Inr (x, y)"
      using t b c by (simp add: read_pt_def hp.rd_live [of t _ zs] pts_def pt_def)
    then show "?f i t = poke (pt_list g) i (?g i) t" using b c by (simp add: pts_def)
  qed (use assms(2) in \<open>auto simp: pts_def\<close>)
  then obtain t zs where t: "shift_points g dx dy ps = Inr t" "block t = (block ps)(pt_list g \<mapsto> zs)"
    "length zs = length cs" "\<forall>i \<in> set [0..count g - 1]. zs ! nat i = ?g i"
    by (auto simp: shift_points_def pts_def)
  have "zs = pts (map (\<lambda>(x, y). (s32 (x + dx), s32 (y + dy))) cs)"
  proof (rule nth_equalityI)
    show "length zs = length (pts (map (\<lambda>(x, y). (s32 (x + dx), s32 (y + dy))) cs))" using t(3) by (simp add: pts_def)
    fix k assume "k < length zs"
    then show "zs ! k = pts (map (\<lambda>(x, y). (s32 (x + dx), s32 (y + dy))) cs) ! k"
      using bspec [OF t(4), of "int k"] t(3) assms(2) by simp
  qed
  with t show ?thesis by blast
qed

text \<open>
  \<open>PointMoveGraph\<close> translates the graph: the first point goes to the given one and every
  point by the same distance, in 32-bit arithmetic, so that the way back is never lost.
\<close>

theorem PointMoveGraph_translates:
  assumes "block ps (pt_list g) = Some (pts cs)" "count g = int (length cs)" "cs \<noteq> []"
  shows "\<exists>ps'. PointMoveGraph g (a, b) ps = Inr ps' \<and> block ps' = (block ps)(pt_list g \<mapsto>
    pts (map (\<lambda>(x, y). (s32 (x + (a - fst (hd cs))), s32 (y + (b - snd (hd cs))))) cs))"
proof -
  obtain x y where c: "hd cs = (x, y)" by force
  have "read_pt (pt_list g) 0 ps = Inr (x, y)"
    using read_pts [OF assms(1), of 0] assms(3) c by (simp add: hd_conv_nth)
  then show ?thesis
    using shift_points_ok [OF assms(1,2), of "s32 (a - x)" "s32 (b - y)"]
    by (simp add: PointMoveGraph_def c)
qed

theorem PointMoveGraph_translates_witness:
  "\<exists>ps. PointMoveGraph line_graph (10, 10) (points line_mem) = Inr ps \<and>
     block ps 1 = Some (pts [(10, 10), (12, 12)])"
  using PointMoveGraph_translates [of "points line_mem" line_graph "[(1, 2), (3, 4)]" 10 10]
  by (auto simp: line_graph_def line_blocks pts_def int32_def)

lemma size_grow_fold:
  assumes "xs \<noteq> []" "\<forall>x \<in> set xs. 0 \<le> x"
  shows "foldl (\<lambda>b v. grow_max v b) (- 1) xs = Max (set xs)" "foldl (\<lambda>b v. grow_min v b) (- 1) xs = Min (set xs)"
proof -
  have *: "foldl (\<lambda>b v. grow_max v b) c ys = Max (insert c (set ys)) \<and> foldl (\<lambda>b v. grow_min v b) c ys = Min (insert c (set ys))"
    if "0 \<le> c" "\<forall>x \<in> set ys. 0 \<le> x" for c ys
    using that
  proof (induction ys arbitrary: c)
    case (Cons y ys)
    have "grow_max y c = max c y" "grow_min y c = min c y" using Cons.prems by (auto simp: grow_max_def grow_min_def)
    then show ?case
      using Cons.IH [of "max c y"] Cons.IH [of "min c y"] Cons.prems
      by (cases "ys = []") (simp_all add: insert_commute [of c y] max.assoc min.assoc max.commute min.commute max.left_commute min.left_commute)
  qed simp
  obtain x ys where xs: "xs = x # ys" using assms(1) by (cases xs) auto
  have "grow_max x (- 1) = x" "grow_min x (- 1) = x" using assms(2) xs by (auto simp: grow_max_def grow_min_def)
  then show "foldl (\<lambda>b v. grow_max v b) (- 1) xs = Max (set xs)" "foldl (\<lambda>b v. grow_min v b) (- 1) xs = Min (set xs)"
    using * [of x ys] assms(2) xs by simp_all
qed

lemma size_fold:
  assumes "block ps (pt_list g) = Some (pts cs)" "count g = int (length cs)"
  shows "foldM (\<lambda>i (r, l, b, t). rbind (read_pt (pt_list g) i ps) (\<lambda>(x, y).
      Inr (grow_max x r, grow_min x l, grow_max y b, grow_min y t))) [0..count g - 1] (r, l, b, t) =
    Inr (foldl (\<lambda>b v. grow_max v b) r (map fst cs), foldl (\<lambda>b v. grow_min v b) l (map fst cs),
      foldl (\<lambda>b v. grow_max v b) b (map snd cs), foldl (\<lambda>b v. grow_min v b) t (map snd cs))"
proof -
  let ?g = "\<lambda>i (r, l, b, t). (grow_max (fst (cs ! nat i)) r, grow_min (fst (cs ! nat i)) l,
      grow_max (snd (cs ! nat i)) b, grow_min (snd (cs ! nat i)) t)"
  have "foldM (\<lambda>i (r, l, b, t). rbind (read_pt (pt_list g) i ps) (\<lambda>(x, y).
      Inr (grow_max x r, grow_min x l, grow_max y b, grow_min y t))) [0..count g - 1] (r, l, b, t) =
    foldM (\<lambda>i s. Inr (?g i s)) [0..count g - 1] (r, l, b, t)"
    by (rule foldM_cong_set) (auto simp: read_pts [OF assms(1)] assms(2) split: prod.split)
  also have "\<dots> = Inr (fold ?g [0..count g - 1] (r, l, b, t))" by (rule foldM_pure)
  also have "fold ?g [0..int n - 1] (r, l, b, t) =
      (foldl (\<lambda>b v. grow_max v b) r (map fst (take n cs)), foldl (\<lambda>b v. grow_min v b) l (map fst (take n cs)),
       foldl (\<lambda>b v. grow_max v b) b (map snd (take n cs)), foldl (\<lambda>b v. grow_min v b) t (map snd (take n cs)))"
    if "n \<le> length cs" for n
    using that
  proof (induction n)
    case (Suc n)
    have "[0..int (Suc n) - 1] = [0..int n - 1] @ [int n]" using upto_rec2 [of 0 "int n"] by simp
    then show ?case using Suc by (simp add: take_Suc_conv_app_nth)
  qed simp
  from this [of "length cs"] have "fold ?g [0..count g - 1] (r, l, b, t) =
      (foldl (\<lambda>b v. grow_max v b) r (map fst cs), foldl (\<lambda>b v. grow_min v b) l (map fst cs),
       foldl (\<lambda>b v. grow_max v b) b (map snd cs), foldl (\<lambda>b v. grow_min v b) t (map snd cs))"
    by (simp add: assms(2))
  finally show ?thesis .
qed

text \<open>
  \<open>GetGraphSize\<close> finds the bounding box of a graph whose coordinates are not negative (a
  coordinate -1 counts as no bound at all): the largest and smallest x, then the largest and
  smallest y.
\<close>

theorem GetGraphSize_box:
  assumes "block ps (pt_list g) = Some (pts cs)" "count g = int (length cs)" "cs \<noteq> []"
    and "\<forall>(x, y) \<in> set cs. 0 \<le> x \<and> 0 \<le> y"
  shows "\<exists>g'. GetGraphSize g ps = Inr g' \<and> g_rc g' =
    Some (Max (fst ` set cs), Min (fst ` set cs), Max (snd ` set cs), Min (snd ` set cs))"
proof -
  have "\<forall>x \<in> set (map fst cs). 0 \<le> x" "\<forall>y \<in> set (map snd cs). 0 \<le> y" using assms(4) by auto
  then show ?thesis
    using size_grow_fold [of "map fst cs"] size_grow_fold [of "map snd cs"] assms(3)
    by (simp add: GetGraphSize_def size_fold [OF assms(1,2)])
qed

theorem GetGraphSize_box_witness:
  "\<exists>g. GetGraphSize line_graph (points line_mem) = Inr g \<and> g_rc g = Some (3, 1, 4, 2)"
  using GetGraphSize_box [of "points line_mem" line_graph "[(1, 2), (3, 4)]"]
  by (auto simp: line_graph_def line_blocks pts_def)

subsection \<open>Copying\<close>

text \<open>A loop over two independent states.\<close>

lemma foldM_pair:
  "foldM f xs a = Inr a' \<Longrightarrow> foldM g xs b = Inr b' \<Longrightarrow>
     foldM (\<lambda>i (a, b). rbind (f i a) (\<lambda>a. rbind (g i b) (\<lambda>b. Inr (a, b)))) xs (a, b) = Inr (a', b')"
proof (induction xs arbitrary: a b)
  case (Cons x xs)
  then obtain a1 b1 where "f x a = Inr a1" "g x b = Inr b1" "foldM f xs a1 = Inr a'" "foldM g xs b1 = Inr b'"
    by (auto simp: rbind_eq_Inr)
  then show ?case using Cons.IH by simp
qed simp

text \<open>
  A copy has blocks of its own with the points and the edges of the source, but of the
  \<open>count * feature_w\<close> features it gets only the first \<open>count\<close>; the others stay unset.
\<close>

theorem CopyGraph_copies:
  assumes "DeleteGraph dst m = Inr (d, m1)" "gname src = Some name"
    and "block (points m1) (pt_list src) = Some xs" "block (edges m1) (edge_list src) = Some es"
    and "block (features m1) (feature src) = Some fs" "0 \<le> count src" "count src * count src < 2 ^ 28"
    and "count src = int (length xs)" "line_count src = int (length es)" "length es \<le> length xs * length xs"
    and "1 \<le> w" "count src * w < 2 ^ 28" "int (length fs) = count src * w"
  shows "\<exists>g m'. CopyGraph dst src w m = Inr (g, m') \<and> block (points m') (pt_list g) = Some xs \<and>
    (\<exists>es'. block (edges m') (edge_list g) = Some es' \<and> take (length es) es' = es) \<and>
    block (features m') (feature g) =
      Some (take (length xs) fs @ replicate (length fs - length xs) None) \<and>
    pt_list g \<noteq> pt_list src \<and> edge_list g \<noteq> edge_list src \<and> feature g \<noteq> feature src"
proof -
  let ?n = "count src"
  have n: "?n < 2 ^ 28"
  proof (cases "?n = 0")
    case False
    then have "?n * 1 \<le> ?n * ?n" using assms(6) by (intro mult_left_mono) auto
    then show ?thesis using assms(7) by simp
  qed simp
  have "0 \<le> ?n * w" "nat (?n * w) = length fs" using assms(6,11,13) by (simp, metis nat_int)
  then have el: "elems 8 ?n = length xs" "elems 8 (?n * ?n) = length xs * length xs" "elems 8 (?n * w) = length fs"
    using assms(6-8,12) n by (simp_all add: elems_exact nat_mult_distrib)
  obtain p ps0 where p: "malloc (length xs) junk_pt (points m1) = (p, ps0)" "block (points m1) p = None"
    "block ps0 = (block (points m1))(p \<mapsto> replicate (length xs) junk_pt)" by (rule hp.newE)
  obtain e es0 where e: "malloc (length xs * length xs) junk_edge (edges m1) = (e, es0)" "block (edges m1) e = None"
    "block es0 = (block (edges m1))(e \<mapsto> replicate (length xs * length xs) junk_edge)" by (rule hp.newE)
  obtain f fs0 where f: "malloc (length fs) None (features m1) = (f, fs0)" "block (features m1) f = None"
    "block fs0 = (block (features m1))(f \<mapsto> replicate (length fs) None)" by (rule hp.newE)
  have ne: "p \<noteq> pt_list src" "e \<noteq> edge_list src" "f \<noteq> feature src" using p(2) e(2) f(2) assms(3-5) by auto
  obtain ps1 where p1: "foldM (\<lambda>i h. rbind (peek (pt_list src) i h) (\<lambda>v. poke p i v h)) [0..?n - 1] ps0 = Inr ps1"
    "block ps1 = (block ps0)(p \<mapsto> xs)"
    using hp.copy_loop [of ps0 "pt_list src" xs p "replicate (length xs) junk_pt" ?n] p(3) ne(1) assms(3,6,8) by auto
  have w: "?n \<le> int (length fs)" using mult_left_mono [of 1 w ?n] assms(6,11,13) by simp
  then obtain fs1 where f1: "foldM (\<lambda>i h. rbind (peek (feature src) i h) (\<lambda>v. poke f i v h)) [0..?n - 1] fs0 = Inr fs1"
    "block fs1 = (block fs0)(f \<mapsto> take (length xs) fs @ replicate (length fs - length xs) None)"
    using hp.copy_loop [of fs0 "feature src" fs f "replicate (length fs) None" ?n] f(3) ne(3) assms(5,6,8) by auto
  have ll: "int (length es) \<le> int (length xs * length xs)" using assms(10) by (simp only: of_nat_le_iff)
  then obtain es1 where e1: "foldM (\<lambda>i h. rbind (peek (edge_list src) i h) (\<lambda>v. poke e i v h)) [0..line_count src - 1] es0 = Inr es1"
    "block es1 = (block es0)(e \<mapsto> es @ drop (length es) (replicate (length xs * length xs) junk_edge))"
    using hp.copy_loop [of es0 "edge_list src" es e "replicate (length xs * length xs) junk_edge" "line_count src"]
      e(3) ne(2) assms(4,9) by auto
  have "foldM (\<lambda>i (ps, fs). rbind (peek (pt_list src) i ps) (\<lambda>v. rbind (poke p i v ps) (\<lambda>ps.
      rbind (peek (feature src) i fs) (\<lambda>v. rbind (poke f i v fs) (\<lambda>fs. Inr (ps, fs)))))) [0..?n - 1] (ps0, fs0) =
    foldM (\<lambda>i (ps, fs). rbind (rbind (peek (pt_list src) i ps) (\<lambda>v. poke p i v ps)) (\<lambda>ps.
      rbind (rbind (peek (feature src) i fs) (\<lambda>v. poke f i v fs)) (\<lambda>fs. Inr (ps, fs)))) [0..?n - 1] (ps0, fs0)"
    by (simp only: rbind_assoc)
  also have "\<dots> = Inr (ps1, fs1)" by (rule foldM_pair [OF p1(1) f1(1)])
  finally have "CopyGraph dst src w m = Inr (src\<lparr>gname := Some name, pt_list := p, edge_list := e, feature := f\<rparr>,
      m1\<lparr>points := ps1, edges := es1, features := fs1\<rparr>)"
    using e1(1) by (simp add: CopyGraph_def assms(1,2) el p(1) e(1) f(1) Let_def del: of_nat_mult)
  then show ?thesis using p1(2) e1(2) f1(2) ne by simp
qed

definition full_graph :: GRAPH where
  "full_graph = line_graph\<lparr>gname := Some ''a'', feature := 1\<rparr>"

definition full_mem :: graph_mem where
  "full_mem = line_mem\<lparr>features := [Some (map Some [Fin 1, Fin 2, Fin 3, Fin 4])]\<rparr>"

theorem CopyGraph_copies_witness:
  "\<exists>g m. CopyGraph new_graph full_graph 2 full_mem = Inr (g, m) \<and>
     block (points m) (pt_list g) = Some [pt 1 2, pt 3 4] \<and>
     block (features m) (feature g) = Some [Some (Fin 1), Some (Fin 2), None, None]"
proof -
  have "DeleteGraph new_graph full_mem = Inr (InitGraph new_graph, full_mem)"
    by (simp add: DeleteGraph_def new_graph_def mem_free_def)
  moreover have "block (points full_mem) (Suc 0) = Some [pt 1 2, pt 3 4]"
    "block (edges full_mem) (Suc 0) = Some [\<lparr>ed_start = Some 0, ed_end = Some 1\<rparr>]"
    "block (features full_mem) (Suc 0) = Some [Some (Fin 1), Some (Fin 2), Some (Fin 3), Some (Fin 4)]"
    by (simp_all add: full_mem_def line_mem_def block_def NULL_def)
  ultimately show ?thesis
    using CopyGraph_copies [of new_graph full_mem "InitGraph new_graph" full_mem full_graph "''a''"
        "[pt 1 2, pt 3 4]" "[\<lparr>ed_start = Some 0, ed_end = Some 1\<rparr>]"
        "[Some (Fin 1), Some (Fin 2), Some (Fin 3), Some (Fin 4)]" 2]
    by (fastforce simp: full_graph_def line_graph_def new_graph_def numeral_2_eq_2)
qed

end
