(* ===== verification/LegacyImage.thy ===== *)
theory LegacyImage
  imports CHeap Bmp Matching
begin

text \<open>
  The older image library \<open>biImage.cpp\<close>: images are C structures whose header and pixels are
  \<open>malloc\<close>ed. A function that takes an \<open>IMAGE*\<close> takes the structure and returns it updated;
  the memory the structures point into is a state of two heaps, of pixels and of header
  bytes. Every field of a pixel may be unset, as it is after \<open>malloc\<close>.
\<close>

subsection \<open>Structures\<close>

record idata =
  rgbBlue :: "byte option"
  rgbGreen :: "byte option"
  rgbRed :: "byte option"
  rgbReserved :: "byte option"
  graylevel :: "byte option"
  dlabel :: "byte option"

record IMAGE =
  file_size :: int
  data_ofset :: int
  bwidth :: int
  bheight :: int
  bitCount :: int
  head_at :: ptr
  data_at :: ptr

record RECT_I =
  rc_top :: int
  rc_left :: int
  rc_right :: int
  rc_bottom :: int

record legacy_mem =
  pixels :: "idata cheap"
  hbytes :: "byte option cheap"

definition junk_data :: idata where
  "junk_data = \<lparr>rgbBlue = None, rgbGreen = None, rgbRed = None, rgbReserved = None,
     graylevel = None, dlabel = None\<rparr>"

definition zero_data :: idata where
  "zero_data = \<lparr>rgbBlue = Some 0, rgbGreen = Some 0, rgbRed = Some 0, rgbReserved = Some 0,
     graylevel = Some 0, dlabel = Some 0\<rparr>"

text \<open>
  \<open>sizeof(IMAGE_DATA)*width*height\<close> is a product of 32-bit unsigned numbers: the number of
  whole pixels (of 6 bytes) in a block of that size.
\<close>

definition u32 :: "int \<Rightarrow> int" where
  "u32 x = x mod 2 ^ 32"

definition cells :: "int \<Rightarrow> int \<Rightarrow> nat" where
  "cells w h = nat (u32 (6 * w * h) div 6)"

subsection \<open>Creation, release and copies\<close>

definition biInitImage :: IMAGE where
  "biInitImage = \<lparr>file_size = 0, data_ofset = 0, bwidth = 0, bheight = 0, bitCount = 0,
     head_at = NULL, data_at = NULL\<rparr>"

definition biCreateImage :: "int \<Rightarrow> int \<Rightarrow> int \<Rightarrow> legacy_mem \<Rightarrow> (IMAGE \<times> legacy_mem) res" where
  "biCreateImage w h bits m =
     (let hdr = file_header 54 @ info_header w h bits; (hp, hb) = malloc 54 None (hbytes m) in
      rbind (foldM (\<lambda>i. poke hp i (Some (hdr ! nat i))) [0..13] hb) (\<lambda>hb.
      rbind (foldM (\<lambda>i. poke hp (14 + i) (Some (hdr ! nat (14 + i)))) [0..39] hb) (\<lambda>hb.
      let (dp, ph) = malloc (cells w h) junk_data (pixels m) in
      rbind (fill dp (cells w h) zero_data ph) (\<lambda>ph.
      Inr (\<lparr>file_size = 0, data_ofset = 54, bwidth = w, bheight = h, bitCount = bits mod 2 ^ 16,
             head_at = hp, data_at = dp\<rparr>, m\<lparr>pixels := ph, hbytes := hb\<rparr>)))))"

definition biBreakImage :: "IMAGE \<Rightarrow> legacy_mem \<Rightarrow> (IMAGE \<times> legacy_mem) res" where
  "biBreakImage im m =
     rbind (mem_free (data_at im) (pixels m)) (\<lambda>ph.
     rbind (mem_free (head_at im) (hbytes m)) (\<lambda>hb.
     Inr (biInitImage, m\<lparr>pixels := ph, hbytes := hb\<rparr>)))"

definition fit_image :: "IMAGE \<Rightarrow> IMAGE \<Rightarrow> legacy_mem \<Rightarrow> (IMAGE \<times> legacy_mem) res" where
  "fit_image dst src m =
     (if bwidth dst < bwidth src \<or> bheight dst < bheight src \<or> data_at dst = NULL \<or> head_at dst = NULL
      then rbind (mem_free (data_at dst) (pixels m)) (\<lambda>ph. rbind (mem_free (head_at dst) (hbytes m)) (\<lambda>hb.
        let (dp, ph) = malloc (cells (bwidth src) (bheight src)) junk_data ph;
            (hp, hb) = malloc (nat (data_ofset src)) None hb in
        Inr (dst\<lparr>data_at := dp, head_at := hp\<rparr>, m\<lparr>pixels := ph, hbytes := hb\<rparr>)))
      else Inr (dst, m))"

definition copy_head :: "IMAGE \<Rightarrow> IMAGE \<Rightarrow> byte option cheap \<Rightarrow> byte option cheap res" where
  "copy_head dst src = foldM (\<lambda>i hb. rbind (peek (head_at src) i hb) (\<lambda>b. poke (head_at dst) i b hb))
     [0..data_ofset dst - 1]"

definition copy_data :: "IMAGE \<Rightarrow> IMAGE \<Rightarrow> idata cheap \<Rightarrow> idata cheap res" where
  "copy_data dst src = foldM (\<lambda>(i, j) ph.
       rbind (peek (data_at src) (u32 (i + j * bwidth src)) ph) (\<lambda>d.
       poke (data_at dst) (u32 (i + j * bwidth dst)) d ph))
     (raster (u32 (bwidth dst)) (u32 (bheight dst)))"

definition biCopyImage :: "IMAGE \<Rightarrow> IMAGE \<Rightarrow> legacy_mem \<Rightarrow> (IMAGE \<times> legacy_mem) res" where
  "biCopyImage dst src m =
     rbind (fit_image dst src m) (\<lambda>(dst, m).
     let dst = dst\<lparr>bwidth := bwidth src, bheight := bheight src, bitCount := bitCount src,
                    data_ofset := data_ofset src\<rparr> in
     rbind (copy_head dst src (hbytes m)) (\<lambda>hb.
     rbind (copy_data dst src (pixels m)) (\<lambda>ph.
     Inr (dst, m\<lparr>pixels := ph, hbytes := hb\<rparr>))))"

definition biReverseImage :: "IMAGE \<Rightarrow> legacy_mem \<Rightarrow> (IMAGE \<times> legacy_mem) res" where
  "biReverseImage im m =
     (let (q, ph) = malloc (cells (bwidth im) (bheight im)) junk_data (pixels m) in
      rbind (foldM (\<lambda>(i, j) ph.
          rbind (peek (data_at im) (i + ((bheight im - 1) - j) * bwidth im) ph) (\<lambda>d.
          poke q (i + j * bwidth im) d ph))
        (raster (bwidth im) (bheight im)) ph) (\<lambda>ph.
      rbind (mem_free (data_at im) ph) (\<lambda>ph.
      Inr (im\<lparr>data_at := q\<rparr>, m\<lparr>pixels := ph\<rparr>))))"

subsection \<open>Files\<close>

definition write_pixel :: "int \<Rightarrow> idata \<Rightarrow> byte list res" where
  "write_pixel bits d =
     rbind (fld (rgbBlue d)) (\<lambda>b. rbind (fld (rgbGreen d)) (\<lambda>g. rbind (fld (rgbRed d)) (\<lambda>r.
     if bits = 32 then rbind (fld (rgbReserved d)) (\<lambda>x. Inr [b, g, r, x]) else Inr [b, g, r])))"

definition biWriteImage ::
  "bool \<Rightarrow> IMAGE \<Rightarrow> legacy_mem \<Rightarrow> (int \<times> byte list \<times> IMAGE \<times> legacy_mem) res" where
  "biWriteImage opened im m =
     (if \<not> opened then Inr (-1, [], im, m)
      else rbind (mapM (\<lambda>i. rbind (peek (head_at im) i (hbytes m)) fld) [0..data_ofset im - 1]) (\<lambda>head.
        rbind (biReverseImage im m) (\<lambda>(im, m).
        rbind (mapM (\<lambda>i. rbind (peek (data_at im) i (pixels m)) (write_pixel (bitCount im)))
            [0..s32 (bwidth im * bheight im) - 1]) (\<lambda>bss.
        rbind (biReverseImage im m) (\<lambda>(im, m).
        Inr (0, head @ concat bss, im, m))))))"

text \<open>
  \<open>fread\<close> of a number at a position of the file: past the end the variable keeps the value
  given by \<open>biInitImage\<close>, and a number that is cut by the end is indeterminate.
\<close>

definition read_num :: "byte list \<Rightarrow> nat \<Rightarrow> nat \<Rightarrow> int res" where
  "read_num bs pos n = (if length bs \<le> pos then Inr 0 else read_le bs pos n)"

definition load_cell ::
  "int \<Rightarrow> ptr \<Rightarrow> int \<Rightarrow> idata cheap \<times> byte list \<Rightarrow> (idata cheap \<times> byte list) res" where
  "load_cell bits p i = (\<lambda>(ph, bs).
     rbind (peek p i ph) (\<lambda>d.
     let (b, bs) = fread1 (rgbBlue d) bs; (g, bs) = fread1 (rgbGreen d) bs;
         (r, bs) = fread1 (rgbRed d) bs;
         (x, bs) = (if bits = 32 then fread1 (rgbReserved d) bs else (rgbReserved d, bs)) in
     rbind (fld b) (\<lambda>bv. rbind (fld r) (\<lambda>rv. rbind (fld g) (\<lambda>gv.
     rbind (poke p i (d\<lparr>rgbBlue := b, rgbGreen := g, rgbRed := r, rgbReserved := x,
         graylevel := Some (word_of_int ((uint bv + uint rv + uint gv) div 3))\<rparr>) ph) (\<lambda>ph.
     Inr (ph, bs)))))))"

definition biLoadImage ::
  "byte list option \<Rightarrow> IMAGE \<Rightarrow> legacy_mem \<Rightarrow> (int \<times> IMAGE \<times> legacy_mem) res" where
  "biLoadImage file im m =
     rbind (biBreakImage im m) (\<lambda>(im, m).
     case file of None \<Rightarrow> Inr (-1, im, m)
     | Some bs \<Rightarrow>
       rbind (read_num bs 2 4) (\<lambda>fs. rbind (read_num bs 10 4) (\<lambda>off.
       rbind (read_num bs 18 4) (\<lambda>w. rbind (read_num bs 22 4) (\<lambda>h. rbind (read_num bs 28 2) (\<lambda>bits.
       let w = s32 w; h = s32 h; (hp, hb) = malloc (nat off) None (hbytes m) in
       rbind (foldM (\<lambda>i. poke hp i (Some (bs ! nat i))) [0..min off (int (length bs)) - 1] hb) (\<lambda>hb.
       let (dp, ph) = malloc (cells w h) junk_data (pixels m) in
       rbind (foldM (load_cell bits dp) [0..s32 (w * h) - 1] (ph, drop (nat off) bs)) (\<lambda>(ph, _).
       rbind (biReverseImage
           \<lparr>file_size = fs, data_ofset = off, bwidth = w, bheight = h, bitCount = bits,
            head_at = hp, data_at = dp\<rparr> (m\<lparr>pixels := ph, hbytes := hb\<rparr>)) (\<lambda>(im, m).
       Inr (0, im, m))))))))))"

subsection \<open>Cutting, pasting and OpenCV\<close>

text \<open>The index pairs of \<open>for(i = 0; i < w; i++) for(j = 0; j < h; j++)\<close>.\<close>

definition columns :: "int \<Rightarrow> int \<Rightarrow> (int \<times> int) list" where
  "columns w h = concat (map (\<lambda>i. map (\<lambda>j. (i, j)) [0..h - 1]) [0..w - 1])"

definition biCutImage :: "IMAGE \<Rightarrow> RECT_I \<Rightarrow> legacy_mem \<Rightarrow> (IMAGE \<times> legacy_mem) res" where
  "biCutImage im rc m =
     (let x = rc_left rc; y = rc_top rc; w = s32 (rc_right rc - rc_left rc);
          h = s32 (rc_bottom rc - rc_top rc) in
      rbind (biCreateImage w h 32 m) (\<lambda>(out, m).
      rbind (foldM (\<lambda>(i, j) ph.
          rbind (peek (data_at im) ((x + i) + (y + j) * bwidth im) ph) (\<lambda>d.
          poke (data_at out) (i + j * w) d ph)) (columns w h) (pixels m)) (\<lambda>ph.
      Inr (out, m\<lparr>pixels := ph\<rparr>))))"

definition biPasteImage :: "IMAGE \<Rightarrow> int \<Rightarrow> int \<Rightarrow> IMAGE \<Rightarrow> legacy_mem \<Rightarrow> legacy_mem res" where
  "biPasteImage base x y im m =
     rbind (foldM (\<lambda>(i, j) ph.
         if x + i < bwidth base \<and> y + j < bheight base
         then rbind (peek (data_at im) (i + j * bwidth im) ph) (\<lambda>d.
           poke (data_at base) ((x + i) + (y + j) * bwidth base) d ph)
         else Inr ph) (columns (bwidth im) (bheight im)) (pixels m)) (\<lambda>ph.
     Inr (m\<lparr>pixels := ph\<rparr>))"

text \<open>\<open>imageData\<close> of OpenCV is a \<open>char*\<close>: the channels that are added up are signed.\<close>

definition cv_cell_put :: "ipl_image \<Rightarrow> IMAGE \<Rightarrow> int \<times> int \<Rightarrow> idata cheap \<Rightarrow> idata cheap res" where
  "cv_cell_put cv im = (\<lambda>(x, y) ph.
     let p = x + (iheight cv - 1 - y) * iwidth cv; n = x * 3 + y * widthStep cv in
     rbind (rdbuf (imageData cv) n) (\<lambda>b. rbind (rdbuf (imageData cv) (n + 1)) (\<lambda>g.
     rbind (rdbuf (imageData cv) (n + 2)) (\<lambda>r. rbind (peek (data_at im) p ph) (\<lambda>d.
     poke (data_at im) p (d\<lparr>rgbBlue := Some b, rgbGreen := Some g, rgbRed := Some r,
       graylevel := Some (word_of_int ((sint b + sint g + sint r) sdiv 3))\<rparr>) ph)))))"

definition biChangeCvImage :: "int \<Rightarrow> ipl_image \<Rightarrow> IMAGE \<Rightarrow> legacy_mem \<Rightarrow> (IMAGE \<times> legacy_mem) res" where
  "biChangeCvImage depth_8u cv im m =
     rbind (if iwidth cv \<noteq> bwidth im \<or> iheight cv \<noteq> bheight im
       then rbind (biBreakImage im m) (\<lambda>(im, m). biCreateImage (iwidth cv) (iheight cv) 24 m)
       else Inr (im, m)) (\<lambda>(im, m).
     rbind (if depth cv = depth_8u \<and> nChannels cv = 3
       then foldM (cv_cell_put cv im) (raster (iwidth cv) (iheight cv)) (pixels m)
       else Inr (pixels m)) (\<lambda>ph.
     biReverseImage im (m\<lparr>pixels := ph\<rparr>)))"

subsection \<open>Images in memory\<close>

definition fits :: "int \<Rightarrow> int \<Rightarrow> bool" where
  "fits w h \<longleftrightarrow> 0 \<le> w \<and> w < 2 ^ 31 \<and> 0 \<le> h \<and> h < 2 ^ 31 \<and> 6 * w * h < 2 ^ 32"

definition live_data :: "legacy_mem \<Rightarrow> IMAGE \<Rightarrow> bool" where
  "live_data m im \<longleftrightarrow> fits (bwidth im) (bheight im) \<and>
     (\<exists>xs. block (pixels m) (data_at im) = Some xs \<and> bwidth im * bheight im \<le> int (length xs))"

definition live_head :: "legacy_mem \<Rightarrow> IMAGE \<Rightarrow> bool" where
  "live_head m im \<longleftrightarrow> 0 \<le> data_ofset im \<and>
     (\<exists>bs. block (hbytes m) (head_at im) = Some bs \<and> data_ofset im \<le> int (length bs))"

definition pixel_at :: "legacy_mem \<Rightarrow> IMAGE \<Rightarrow> int \<Rightarrow> int \<Rightarrow> idata" where
  "pixel_at m im x y = the (block (pixels m) (data_at im)) ! nat (x + y * bwidth im)"

definition in_image :: "IMAGE \<Rightarrow> int \<Rightarrow> int \<Rightarrow> bool" where
  "in_image im x y \<longleftrightarrow> 0 \<le> x \<and> x < bwidth im \<and> 0 \<le> y \<and> y < bheight im"

lemma fits_product: "fits w h \<Longrightarrow> 0 \<le> w * h \<and> w * h < 2 ^ 31"
  by (auto simp: fits_def) (simp add: mult.commute)

lemma cells_exact: "fits w h \<Longrightarrow> cells w h = nat (w * h)"
  using fits_product [of w h] by (simp add: fits_def cells_def u32_def ac_simps)

lemma s32_size: "fits w h \<Longrightarrow> s32 (w * h) = w * h"
  using fits_product [of w h] by (simp add: int32_def)

text \<open>The loop over the pixels of an image that writes each one once.\<close>

lemma image_sweep_rest:
  assumes "block ph q = Some ys" "0 \<le> w" "w * h \<le> int (length ys)"
    and "\<And>i j t zs. 0 \<le> i \<Longrightarrow> i < w \<Longrightarrow> 0 \<le> j \<Longrightarrow> j < h \<Longrightarrow> block t = (block ph)(q \<mapsto> zs) \<Longrightarrow>
      length zs = length ys \<Longrightarrow> zs ! nat (i + j * w) = ys ! nat (i + j * w) \<Longrightarrow>
      f (i, j) t = poke q (i + j * w) (g i j) t"
  shows "\<exists>t zs. foldM f (raster w h) ph = Inr t \<and> block t = (block ph)(q \<mapsto> zs) \<and>
    length zs = length ys \<and>
    (\<forall>i j. 0 \<le> i \<longrightarrow> i < w \<longrightarrow> 0 \<le> j \<longrightarrow> j < h \<longrightarrow> zs ! nat (i + j * w) = g i j) \<and>
    (\<forall>k < length ys. w * h \<le> int k \<longrightarrow> zs ! k = ys ! k)"
proof -
  let ?ix = "\<lambda>(i, j). i + j * w"
  have "distinct (map ?ix (raster w h))"
    using index_inj by (fastforce simp: distinct_map distinct_raster set_raster inj_on_def)
  moreover have "0 \<le> ?ix x \<and> ?ix x < int (length ys)" if "x \<in> set (raster w h)" for x
    using that index_less [of "fst x" w "snd x" h] assms(3) by (auto simp: set_raster)
  ultimately have "\<exists>t zs. foldM f (raster w h) ph = Inr t \<and> block t = (block ph)(q \<mapsto> zs) \<and>
      length zs = length ys \<and> (\<forall>x \<in> set (raster w h). zs ! nat (?ix x) = (case x of (i, j) \<Rightarrow> g i j)) \<and>
      (\<forall>k < length ys. int k \<notin> ?ix ` set (raster w h) \<longrightarrow> zs ! k = ys ! k)"
    by (rule hp.sweep [OF assms(1)]) (use assms(4) in \<open>auto simp: set_raster\<close>)
  then obtain t zs where t: "foldM f (raster w h) ph = Inr t" "block t = (block ph)(q \<mapsto> zs)" "length zs = length ys"
    "\<forall>x \<in> set (raster w h). zs ! nat (?ix x) = (case x of (i, j) \<Rightarrow> g i j)"
    "\<forall>k < length ys. int k \<notin> ?ix ` set (raster w h) \<longrightarrow> zs ! k = ys ! k"
    by (elim exE conjE) (rule that)
  have "zs ! nat (i + j * w) = g i j" if "0 \<le> i" "i < w" "0 \<le> j" "j < h" for i j
    using bspec [OF t(4), of "(i, j)"] that by (simp add: set_raster)
  moreover have "zs ! k = ys ! k" if "k < length ys" "w * h \<le> int k" for k
  proof (rule t(5) [rule_format, OF that(1)])
    show "int k \<notin> ?ix ` set (raster w h)"
      using index_less [of _ w _ h] that(2) by (fastforce simp: set_raster)
  qed
  ultimately show ?thesis using t(1-3) by blast
qed

lemma image_sweep:
  assumes "block ph q = Some ys" "0 \<le> w" "w * h \<le> int (length ys)"
    and "\<And>i j t zs. 0 \<le> i \<Longrightarrow> i < w \<Longrightarrow> 0 \<le> j \<Longrightarrow> j < h \<Longrightarrow> block t = (block ph)(q \<mapsto> zs) \<Longrightarrow>
      length zs = length ys \<Longrightarrow> zs ! nat (i + j * w) = ys ! nat (i + j * w) \<Longrightarrow>
      f (i, j) t = poke q (i + j * w) (g i j) t"
  shows "\<exists>t zs. foldM f (raster w h) ph = Inr t \<and> block t = (block ph)(q \<mapsto> zs) \<and>
    length zs = length ys \<and>
    (\<forall>i j. 0 \<le> i \<longrightarrow> i < w \<longrightarrow> 0 \<le> j \<longrightarrow> j < h \<longrightarrow> zs ! nat (i + j * w) = g i j)"
proof -
  have "\<exists>t zs. foldM f (raster w h) ph = Inr t \<and> block t = (block ph)(q \<mapsto> zs) \<and> length zs = length ys \<and>
    (\<forall>i j. 0 \<le> i \<longrightarrow> i < w \<longrightarrow> 0 \<le> j \<longrightarrow> j < h \<longrightarrow> zs ! nat (i + j * w) = g i j) \<and>
    (\<forall>k < length ys. w * h \<le> int k \<longrightarrow> zs ! k = ys ! k)"
    by (rule image_sweep_rest [OF assms(1-3)]) (rule assms(4))
  then show ?thesis by blast
qed

lemma biReverseImage_ok:
  assumes "fits (bwidth im) (bheight im)" "block (pixels m) (data_at im) = Some xs"
    "bwidth im * bheight im \<le> int (length xs)"
  shows "\<exists>q ph ys. biReverseImage im m = Inr (im\<lparr>data_at := q\<rparr>, m\<lparr>pixels := ph\<rparr>) \<and>
    q \<noteq> NULL \<and> block (pixels m) q = None \<and>
    block ph = (block (pixels m))(data_at im := None, q \<mapsto> ys) \<and>
    int (length ys) = bwidth im * bheight im \<and> (\<forall>i j. in_image im i j \<longrightarrow>
      ys ! nat (i + j * bwidth im) = xs ! nat (i + (bheight im - 1 - j) * bwidth im))"
proof -
  let ?w = "bwidth im" and ?h = "bheight im"
  obtain q ph where q: "malloc (cells ?w ?h) junk_data (pixels m) = (q, ph)" "q \<noteq> NULL"
    "block (pixels m) q = None" "block ph = (block (pixels m))(q \<mapsto> replicate (cells ?w ?h) junk_data)"
    by (rule hp.newE)
  have w: "0 \<le> ?w" and n: "int (cells ?w ?h) = ?w * ?h"
    using assms(1) fits_product [OF assms(1)] by (simp_all add: fits_def cells_exact [OF assms(1)])
  have qp: "q \<noteq> data_at im" using q(3) assms(2) by auto
  have "\<exists>t zs. foldM (\<lambda>(i, j) ph. rbind (peek (data_at im) (i + ((?h - 1) - j) * ?w) ph) (\<lambda>d.
        poke q (i + j * ?w) d ph)) (raster ?w ?h) ph = Inr t \<and> block t = (block ph)(q \<mapsto> zs) \<and>
      length zs = length (replicate (cells ?w ?h) junk_data) \<and>
      (\<forall>i j. 0 \<le> i \<longrightarrow> i < ?w \<longrightarrow> 0 \<le> j \<longrightarrow> j < ?h \<longrightarrow>
        zs ! nat (i + j * ?w) = xs ! nat (i + (?h - 1 - j) * ?w))"
  proof (rule image_sweep [OF _ w])
    fix i j t zs
    assume r: "0 \<le> i" "i < ?w" "0 \<le> j" "j < ?h" and t: "block t = (block ph)(q \<mapsto> zs)"
    have "block t (data_at im) = Some xs" using t qp q(4) assms(2) by simp
    moreover have "0 \<le> i + (?h - 1 - j) * ?w \<and> i + (?h - 1 - j) * ?w < int (length xs)"
      using index_less [of i ?w "?h - 1 - j" ?h] r assms(3) by simp
    ultimately show "(\<lambda>(i, j) ph. rbind (peek (data_at im) (i + ((?h - 1) - j) * ?w) ph) (\<lambda>d.
        poke q (i + j * ?w) d ph)) (i, j) t = poke q (i + j * ?w) (xs ! nat (i + (?h - 1 - j) * ?w)) t"
      by (simp add: hp.rd_live)
  qed (use q n in simp_all)
  then obtain t zs where t: "foldM (\<lambda>(i, j) ph. rbind (peek (data_at im) (i + ((?h - 1) - j) * ?w) ph) (\<lambda>d.
        poke q (i + j * ?w) d ph)) (raster ?w ?h) ph = Inr t" "block t = (block ph)(q \<mapsto> zs)"
      "length zs = cells ?w ?h"
      "\<forall>i j. 0 \<le> i \<longrightarrow> i < ?w \<longrightarrow> 0 \<le> j \<longrightarrow> j < ?h \<longrightarrow>
        zs ! nat (i + j * ?w) = xs ! nat (i + (?h - 1 - j) * ?w)" by auto
  have "block t (data_at im) = Some xs" using t(2) qp q(4) assms(2) by simp
  then obtain t' where t': "mem_free (data_at im) t = Inr t'" "block t' = (block t)(data_at im := None)"
    using hp.rel_live by blast
  have "block t' = (block (pixels m))(data_at im := None, q \<mapsto> zs)"
    using t'(2) t(2) q(4) qp by auto
  moreover have "biReverseImage im m = Inr (im\<lparr>data_at := q\<rparr>, m\<lparr>pixels := t'\<rparr>)"
    using q(1) t(1) t'(1) by (simp add: biReverseImage_def)
  ultimately show ?thesis
    using q(2,3) t(3,4) n by (intro exI [of _ q] exI [of _ t'] exI [of _ zs]) (simp add: in_image_def)
qed

text \<open>A fresh image has a header of its own and pixels of value 0.\<close>

definition header_of :: "int \<Rightarrow> int \<Rightarrow> int \<Rightarrow> byte list" where
  "header_of w h bits = file_header 54 @ info_header w h bits"

lemma header_of_length [simp]: "length (header_of w h bits) = 54"
  by (simp only: header_of_def header_length)

lemma poke_upto:
  assumes "block h p = Some ys" "0 \<le> k" "int (length vs) + k \<le> int (length ys)" "n = int (length vs) - 1"
  shows "\<exists>t zs. foldM (\<lambda>i. poke p (k + i) (vs ! nat i)) [0..n] h = Inr t \<and>
    block t = (block h)(p \<mapsto> zs) \<and> length zs = length ys \<and>
    (\<forall>i < length vs. zs ! (nat k + i) = vs ! i) \<and>
    (\<forall>i < length ys. i < nat k \<or> nat k + length vs \<le> i \<longrightarrow> zs ! i = ys ! i)"
proof -
  have "\<exists>t zs. foldM (\<lambda>i. poke p (k + i) (vs ! nat i)) [0..n] h = Inr t \<and>
      block t = (block h)(p \<mapsto> zs) \<and> length zs = length ys \<and>
      (\<forall>i \<in> set [0..n]. zs ! nat (k + i) = vs ! nat i) \<and>
      (\<forall>i < length ys. int i \<notin> (\<lambda>i. k + i) ` set [0..n] \<longrightarrow> zs ! i = ys ! i)"
    by (rule hp.sweep [OF assms(1)]) (use assms in \<open>auto simp: distinct_map\<close>)
  then obtain t zs where t: "foldM (\<lambda>i. poke p (k + i) (vs ! nat i)) [0..n] h = Inr t"
    "block t = (block h)(p \<mapsto> zs)" "length zs = length ys"
    "\<forall>i \<in> set [0..n]. zs ! nat (k + i) = vs ! nat i"
    "\<forall>i < length ys. int i \<notin> (\<lambda>i. k + i) ` set [0..n] \<longrightarrow> zs ! i = ys ! i" by blast
  have "zs ! (nat k + i) = vs ! i" if "i < length vs" for i
    using bspec [OF t(4), of "int i"] that assms(2,4) by (simp add: nat_add_distrib)
  moreover have "zs ! i = ys ! i" if "i < length ys" "i < nat k \<or> nat k + length vs \<le> i" for i
    using t(5) that assms(2,4) by (auto simp: image_iff)
  ultimately show ?thesis using t(1-3) by blast
qed

lemma nth_append_54:
  "length zs = (54 :: nat) \<Longrightarrow> length (us :: 'a list) = 14 \<Longrightarrow> length vs = 40 \<Longrightarrow>
     (\<forall>i < 14. zs ! i = us ! i) \<Longrightarrow> (\<forall>i < 40. zs ! (14 + i) = vs ! i) \<Longrightarrow> zs = us @ vs"
proof (rule nth_equalityI)
  assume *: "length zs = 54" "length us = 14" "length vs = 40" "\<forall>i < 14. zs ! i = us ! i"
    "\<forall>i < 40. zs ! (14 + i) = vs ! i"
  then show "length zs = length (us @ vs)" by simp
  fix i assume "i < length zs"
  with * show "zs ! i = (us @ vs) ! i"
    using spec [OF *(5), of "i - 14"] by (cases "i < 14") (simp_all add: nth_append)
qed

lemma biCreateImage_ok:
  assumes "fits w h"
  shows "\<exists>hp dp ph hb. biCreateImage w h bits m =
      Inr (\<lparr>file_size = 0, data_ofset = 54, bwidth = w, bheight = h, bitCount = bits mod 2 ^ 16,
             head_at = hp, data_at = dp\<rparr>, m\<lparr>pixels := ph, hbytes := hb\<rparr>) \<and>
    hp \<noteq> NULL \<and> dp \<noteq> NULL \<and> block (hbytes m) hp = None \<and> block (pixels m) dp = None \<and>
    block hb = (block (hbytes m))(hp \<mapsto> map Some (header_of w h bits)) \<and>
    block ph = (block (pixels m))(dp \<mapsto> replicate (nat (w * h)) zero_data)"
proof -
  let ?hdr = "header_of w h bits" and ?n = "nat (w * h)"
  obtain hp hb where hp: "malloc 54 None (hbytes m) = (hp, hb)" "hp \<noteq> NULL" "block (hbytes m) hp = None"
    "block hb = (block (hbytes m))(hp \<mapsto> replicate 54 None)" by (rule hp.newE)
  obtain dp ph where dp: "malloc ?n junk_data (pixels m) = (dp, ph)" "dp \<noteq> NULL"
    "block (pixels m) dp = None" "block ph = (block (pixels m))(dp \<mapsto> replicate ?n junk_data)"
    by (rule hp.newE)
  have b1: "block hb hp = Some (replicate 54 None)" by (simp add: hp(4))
  let ?us = "map Some (take 14 ?hdr)" and ?vs = "map Some (drop 14 ?hdr)"
  have us: "foldM (\<lambda>i. poke hp i (Some (?hdr ! nat i))) [0..13] h =
      foldM (\<lambda>i. poke hp (0 + i) (?us ! nat i)) [0..13] h" for h
    by (rule foldM_cong_set) (auto simp: nat_less_iff simp del: upto.simps)
  have vs: "foldM (\<lambda>i. poke hp (14 + i) (Some (?hdr ! nat (14 + i)))) [0..39] h =
      foldM (\<lambda>i. poke hp (14 + i) (?vs ! nat i)) [0..39] h" for h
    by (rule foldM_cong_set) (auto simp: nat_add_distrib nat_less_iff simp del: upto.simps)
  obtain t1 zs1 where t1: "foldM (\<lambda>i. poke hp (0 + i) (?us ! nat i)) [0..13] hb = Inr t1"
    "block t1 = (block hb)(hp \<mapsto> zs1)" "length zs1 = length (replicate 54 (None :: byte option))"
    "\<forall>i < length ?us. zs1 ! (nat 0 + i) = ?us ! i"
    using poke_upto [OF b1, of 0 ?us 13] by fastforce
  have "block t1 hp = Some zs1" by (simp add: t1)
  then obtain t2 zs2 where t2: "foldM (\<lambda>i. poke hp (14 + i) (?vs ! nat i)) [0..39] t1 = Inr t2"
    "block t2 = (block t1)(hp \<mapsto> zs2)" "length zs2 = length zs1"
    "\<forall>i < length ?vs. zs2 ! (nat 14 + i) = ?vs ! i"
    "\<forall>i < length zs1. i < nat 14 \<or> nat 14 + length ?vs \<le> i \<longrightarrow> zs2 ! i = zs1 ! i"
    using poke_upto [of t1 hp zs1 14 ?vs 39] t1(3) by fastforce
  have "zs2 = ?us @ ?vs"
    by (rule nth_append_54) (use t1(3,4) t2(3-5) in simp_all)
  then have zs2: "zs2 = map Some ?hdr" by (simp flip: map_append)
  obtain t3 where t3: "fill dp ?n zero_data ph = Inr t3" "block t3 = (block ph)(dp \<mapsto> replicate ?n zero_data)"
    using fill_live [of ph dp "replicate ?n junk_data" ?n zero_data] dp(4) by auto
  have "biCreateImage w h bits m =
      Inr (\<lparr>file_size = 0, data_ofset = 54, bwidth = w, bheight = h, bitCount = bits mod 2 ^ 16,
             head_at = hp, data_at = dp\<rparr>, m\<lparr>pixels := t3, hbytes := t2\<rparr>)"
    using t1(1) t2(1) t3(1) unfolding us [symmetric] vs [symmetric]
    by (simp add: biCreateImage_def hp(1) cells_exact [OF assms] dp(1) header_of_def Let_def del: upto.simps)
  then show ?thesis
    using hp(2-4) dp(2-4) t1(2) t2(2) t3(2) zs2 by auto
qed

subsection \<open>Copying\<close>

definition new_blocks :: "IMAGE \<Rightarrow> IMAGE \<Rightarrow> bool" where
  "new_blocks dst src \<longleftrightarrow> bwidth dst < bwidth src \<or> bheight dst < bheight src \<or>
     data_at dst = NULL \<or> head_at dst = NULL"

definition releasable :: "legacy_mem \<Rightarrow> IMAGE \<Rightarrow> bool" where
  "releasable m im \<longleftrightarrow> (data_at im = NULL \<or> block (pixels m) (data_at im) \<noteq> None) \<and>
     (head_at im = NULL \<or> block (hbytes m) (head_at im) \<noteq> None)"

lemma fit_image_ok:
  assumes src: "live_data m src" "live_head m src" and dst: "releasable m dst"
    and apart: "data_at dst \<noteq> data_at src" "head_at dst \<noteq> head_at src"
    and room: "new_blocks dst src \<or> live_data m dst \<and> live_head m dst \<and> data_ofset src \<le> data_ofset dst"
  shows "\<exists>r m' ys bs. fit_image dst src m = Inr (r, m') \<and>
    data_at r \<noteq> data_at src \<and> head_at r \<noteq> head_at src \<and>
    block (pixels m') (data_at src) = block (pixels m) (data_at src) \<and>
    block (hbytes m') (head_at src) = block (hbytes m) (head_at src) \<and>
    block (pixels m') (data_at r) = Some ys \<and> bwidth src * bheight src \<le> int (length ys) \<and>
    block (hbytes m') (head_at r) = Some bs \<and> data_ofset src \<le> int (length bs)"
proof (cases "new_blocks dst src")
  case True
  obtain ph where ph: "mem_free (data_at dst) (pixels m) = Inr ph" "block ph = (block (pixels m))(data_at dst := None)"
    using free_ok [of "data_at dst" "pixels m"] dst by (auto simp: releasable_def)
  obtain hb where hb: "mem_free (head_at dst) (hbytes m) = Inr hb" "block hb = (block (hbytes m))(head_at dst := None)"
    using free_ok [of "head_at dst" "hbytes m"] dst by (auto simp: releasable_def)
  let ?n = "cells (bwidth src) (bheight src)"
  obtain p h1 where p: "malloc ?n junk_data ph = (p, h1)" "block ph p = None" "block h1 = (block ph)(p \<mapsto> replicate ?n junk_data)"
    by (rule hp.newE)
  obtain q h2 where q: "malloc (nat (data_ofset src)) None hb = (q, h2)" "block hb q = None"
    "block h2 = (block hb)(q \<mapsto> replicate (nat (data_ofset src)) None)" by (rule hp.newE)
  have "fit_image dst src m = Inr (dst\<lparr>data_at := p, head_at := q\<rparr>, m\<lparr>pixels := h1, hbytes := h2\<rparr>)"
    using True by (simp add: fit_image_def new_blocks_def ph(1) hb(1) p(1) q(1))
  moreover have "p \<noteq> data_at src" using p(2) src(1) apart(1) by (auto simp: ph(2) live_data_def)
  moreover have "q \<noteq> head_at src" using q(2) src(2) apart(2) by (auto simp: hb(2) live_head_def)
  moreover have "int ?n = bwidth src * bheight src"
    using src(1) fits_product by (auto simp: live_data_def cells_exact)
  ultimately show ?thesis
    using apart src(2) by (fastforce simp: p(3) q(3) ph(2) hb(2) live_head_def)
next
  case False
  then have "fit_image dst src m = Inr (dst, m)" by (simp add: fit_image_def new_blocks_def)
  moreover obtain ys where ys: "block (pixels m) (data_at dst) = Some ys" "bwidth dst * bheight dst \<le> int (length ys)"
    using room False by (auto simp: live_data_def)
  moreover obtain bs where "block (hbytes m) (head_at dst) = Some bs" "data_ofset src \<le> int (length bs)"
    using room False by (auto simp: live_head_def)
  moreover have "bwidth src * bheight src \<le> bwidth dst * bheight dst"
    using False src(1) by (intro mult_mono) (auto simp: new_blocks_def live_data_def fits_def)
  ultimately show ?thesis using apart by fastforce
qed

lemma copy_data_ok:
  assumes "fits w h" "bwidth src = w" "bheight src = h" "bwidth dst = w" "bheight dst = h"
    and "block ph (data_at src) = Some xs" "w * h \<le> int (length xs)"
    and "block ph (data_at dst) = Some ys" "w * h \<le> int (length ys)" "data_at dst \<noteq> data_at src"
  shows "\<exists>t zs. copy_data dst src ph = Inr t \<and> block t = (block ph)(data_at dst \<mapsto> zs) \<and>
    length zs = length ys \<and> (\<forall>i j. 0 \<le> i \<longrightarrow> i < w \<longrightarrow> 0 \<le> j \<longrightarrow> j < h \<longrightarrow> zs ! nat (i + j * w) = xs ! nat (i + j * w))"
proof -
  have u: "u32 w = w" "u32 h = h" using assms(1) by (simp_all add: u32_def fits_def)
  have "\<exists>t zs. foldM (\<lambda>(i, j) ph. rbind (peek (data_at src) (u32 (i + j * w)) ph) (\<lambda>d.
        poke (data_at dst) (u32 (i + j * w)) d ph)) (raster w h) ph = Inr t \<and>
      block t = (block ph)(data_at dst \<mapsto> zs) \<and> length zs = length ys \<and>
      (\<forall>i j. 0 \<le> i \<longrightarrow> i < w \<longrightarrow> 0 \<le> j \<longrightarrow> j < h \<longrightarrow> zs ! nat (i + j * w) = xs ! nat (i + j * w))"
  proof (rule image_sweep [OF assms(8) _ assms(9)])
    fix i j t zs
    assume r: "0 \<le> i" "i < w" "0 \<le> j" "j < h" and t: "block t = (block ph)(data_at dst \<mapsto> zs)"
    have k: "0 \<le> i + j * w" "i + j * w < w * h" using index_less [of i w j h] r by simp_all
    then have "u32 (i + j * w) = i + j * w"
      using fits_product [OF assms(1)] by (simp add: u32_def)
    moreover have "block t (data_at src) = Some xs" using t assms(6,10) by simp
    ultimately show "(\<lambda>(i, j) ph. rbind (peek (data_at src) (u32 (i + j * w)) ph) (\<lambda>d.
        poke (data_at dst) (u32 (i + j * w)) d ph)) (i, j) t =
        poke (data_at dst) (i + j * w) (xs ! nat (i + j * w)) t"
      using k assms(7) by (simp add: hp.rd_live)
  qed (use assms(1) in \<open>simp add: fits_def\<close>)
  then show ?thesis by (auto simp: copy_data_def assms(2-5) u)
qed

lemma copy_head_ok:
  assumes "0 \<le> n" "data_ofset dst = n" "block hb (head_at src) = Some xs" "n \<le> int (length xs)"
    and "block hb (head_at dst) = Some ys" "n \<le> int (length ys)" "head_at dst \<noteq> head_at src"
  shows "\<exists>t. copy_head dst src hb = Inr t \<and>
    block t = (block hb)(head_at dst \<mapsto> take (nat n) xs @ drop (nat n) ys)"
  using hp.copy_loop [OF assms(3,5) assms(7) [symmetric] assms(1,4,6)]
  by (simp add: copy_head_def assms(2))

lemma biCopyImage_ok:
  assumes "live_data m src" "live_head m src" "releasable m dst"
    and "data_at dst \<noteq> data_at src" "head_at dst \<noteq> head_at src"
    and "new_blocks dst src \<or> live_data m dst \<and> live_head m dst \<and> data_ofset src \<le> data_ofset dst"
  shows "\<exists>r m'. biCopyImage dst src m = Inr (r, m') \<and>
    bwidth r = bwidth src \<and> bheight r = bheight src \<and> bitCount r = bitCount src \<and>
    (\<exists>ys. block (pixels m') (data_at r) = Some ys \<and> bwidth src * bheight src \<le> int (length ys)) \<and>
    block (hbytes m') (head_at r) \<noteq> None \<and> data_at r \<noteq> data_at src \<and> head_at r \<noteq> head_at src \<and>
    block (pixels m') (data_at src) = block (pixels m) (data_at src) \<and>
    block (hbytes m') (head_at src) = block (hbytes m) (head_at src) \<and>
    (\<forall>x y. in_image src x y \<longrightarrow> pixel_at m' r x y = pixel_at m src x y) \<and>
    (\<forall>i. 0 \<le> i \<longrightarrow> i < data_ofset src \<longrightarrow> the (block (hbytes m') (head_at r)) ! nat i =
       the (block (hbytes m) (head_at src)) ! nat i)"
proof -
  obtain xs where xs: "fits (bwidth src) (bheight src)" "block (pixels m) (data_at src) = Some xs"
    "bwidth src * bheight src \<le> int (length xs)" using assms(1) by (auto simp: live_data_def)
  obtain hs where hs: "0 \<le> data_ofset src" "block (hbytes m) (head_at src) = Some hs"
    "data_ofset src \<le> int (length hs)" using assms(2) by (auto simp: live_head_def)
  obtain r m1 ys bs where f: "fit_image dst src m = Inr (r, m1)" "data_at r \<noteq> data_at src" "head_at r \<noteq> head_at src"
    "block (pixels m1) (data_at src) = Some xs" "block (hbytes m1) (head_at src) = Some hs"
    "block (pixels m1) (data_at r) = Some ys" "bwidth src * bheight src \<le> int (length ys)"
    "block (hbytes m1) (head_at r) = Some bs" "data_ofset src \<le> int (length bs)"
    using fit_image_ok [OF assms] by (auto simp: xs(2) hs(2))
  let ?r = "r\<lparr>bwidth := bwidth src, bheight := bheight src, bitCount := bitCount src, data_ofset := data_ofset src\<rparr>"
  let ?us = "take (nat (data_ofset src)) hs @ drop (nat (data_ofset src)) bs"
  obtain hb where hb: "copy_head ?r src (hbytes m1) = Inr hb" "block hb = (block (hbytes m1))(head_at r \<mapsto> ?us)"
    using copy_head_ok [of "data_ofset src" ?r "hbytes m1" src hs bs] hs f by auto
  have us: "\<forall>i. 0 \<le> i \<longrightarrow> i < data_ofset src \<longrightarrow> ?us ! nat i = hs ! nat i"
    using hs(3) by (auto simp: nth_append nat_less_iff)
  obtain ph zs where ph: "copy_data ?r src (pixels m1) = Inr ph" "block ph = (block (pixels m1))(data_at r \<mapsto> zs)"
    "length zs = length ys" "\<forall>i j. 0 \<le> i \<longrightarrow> i < bwidth src \<longrightarrow> 0 \<le> j \<longrightarrow> j < bheight src \<longrightarrow>
       zs ! nat (i + j * bwidth src) = xs ! nat (i + j * bwidth src)"
    using copy_data_ok [OF xs(1), of src ?r "pixels m1" xs ys] xs f by auto
  have "biCopyImage dst src m = Inr (?r, m1\<lparr>pixels := ph, hbytes := hb\<rparr>)"
    by (simp add: biCopyImage_def f(1) hb(1) ph(1) Let_def)
  then show ?thesis
    using f hb(2) us ph(2-4) by (simp add: pixel_at_def in_image_def xs(2) hs(2))
qed

text \<open>A copy into an image without blocks adds two blocks to the memory and changes nothing else.\<close>

lemma biCopyImage_new:
  assumes "live_data m src" "live_head m src"
  shows "\<exists>r m' ys us. biCopyImage biInitImage src m = Inr (r, m') \<and> bwidth r = bwidth src \<and>
    data_at r \<noteq> NULL \<and> block (pixels m) (data_at r) = None \<and> block (pixels m') = (block (pixels m))(data_at r \<mapsto> ys) \<and>
    head_at r \<noteq> NULL \<and> block (hbytes m) (head_at r) = None \<and> block (hbytes m') = (block (hbytes m))(head_at r \<mapsto> us) \<and>
    bwidth src * bheight src \<le> int (length ys) \<and>
    (\<forall>x y. in_image src x y \<longrightarrow> ys ! nat (x + y * bwidth src) = pixel_at m src x y)"
proof -
  let ?w = "bwidth src" and ?h = "bheight src" and ?o = "nat (data_ofset src)"
  obtain xs where xs: "fits ?w ?h" "block (pixels m) (data_at src) = Some xs" "?w * ?h \<le> int (length xs)"
    using assms(1) by (auto simp: live_data_def)
  obtain hs where hs: "0 \<le> data_ofset src" "block (hbytes m) (head_at src) = Some hs" "data_ofset src \<le> int (length hs)"
    using assms(2) by (auto simp: live_head_def)
  obtain p h1 where p: "malloc (cells ?w ?h) junk_data (pixels m) = (p, h1)" "p \<noteq> NULL" "block (pixels m) p = None"
    "block h1 = (block (pixels m))(p \<mapsto> replicate (cells ?w ?h) junk_data)" by (rule hp.newE)
  obtain q h2 where q: "malloc ?o None (hbytes m) = (q, h2)" "q \<noteq> NULL" "block (hbytes m) q = None"
    "block h2 = (block (hbytes m))(q \<mapsto> replicate ?o None)" by (rule hp.newE)
  have ne: "p \<noteq> data_at src" "q \<noteq> head_at src" using p(3) q(3) xs(2) hs(2) by auto
  let ?r = "biInitImage\<lparr>data_at := p, head_at := q, bwidth := ?w, bheight := ?h, bitCount := bitCount src,
    data_ofset := data_ofset src\<rparr>"
  have fit: "fit_image biInitImage src m = Inr (biInitImage\<lparr>data_at := p, head_at := q\<rparr>, m\<lparr>pixels := h1, hbytes := h2\<rparr>)"
    by (simp add: fit_image_def biInitImage_def mem_free_def p(1) q(1))
  obtain hb us where hb: "copy_head ?r src h2 = Inr hb" "block hb = (block h2)(q \<mapsto> us)"
    using copy_head_ok [of "data_ofset src" ?r h2 src hs "replicate ?o None"] hs q(4) ne(2) by auto
  have len: "int (cells ?w ?h) = ?w * ?h" using fits_product [OF xs(1)] by (simp add: cells_exact [OF xs(1)])
  obtain ph zs where ph: "copy_data ?r src h1 = Inr ph" "block ph = (block h1)(p \<mapsto> zs)" "length zs = cells ?w ?h"
    "\<forall>i j. 0 \<le> i \<longrightarrow> i < ?w \<longrightarrow> 0 \<le> j \<longrightarrow> j < ?h \<longrightarrow> zs ! nat (i + j * ?w) = xs ! nat (i + j * ?w)"
    using copy_data_ok [OF xs(1), of src ?r h1 xs "replicate (cells ?w ?h) junk_data"] xs(2,3) p(4) ne(1) len by auto
  have "biCopyImage biInitImage src m = Inr (?r, m\<lparr>pixels := ph, hbytes := hb\<rparr>)"
    by (simp add: biCopyImage_def fit hb(1) ph(1) Let_def)
  moreover have "block ph = (block (pixels m))(p \<mapsto> zs)" "block hb = (block (hbytes m))(q \<mapsto> us)"
    by (simp_all add: ph(2) p(4) hb(2) q(4))
  ultimately show ?thesis
    using p(2,3) q(2,3) ph(3,4) len
    by (intro exI [of _ ?r] exI [of _ "m\<lparr>pixels := ph, hbytes := hb\<rparr>"] exI [of _ zs] exI [of _ us])
      (simp add: pixel_at_def in_image_def xs(2))
qed

text \<open>
  \<open>biCopyImage\<close> is a deep copy. The copy has the source's size, depth, header and pixels and
  shares neither block with it, and the source is untouched, whether the destination had to be
  allocated anew or was large enough. In the second case its header must be large enough too,
  which the code does not test.
\<close>

theorem biCopyImage_deep:
  assumes "live_data m src" "live_head m src" "releasable m dst"
    and "data_at dst \<noteq> data_at src" "head_at dst \<noteq> head_at src"
    and "new_blocks dst src \<or> live_data m dst \<and> live_head m dst \<and> data_ofset src \<le> data_ofset dst"
  shows "\<exists>r m'. biCopyImage dst src m = Inr (r, m') \<and>
    bwidth r = bwidth src \<and> bheight r = bheight src \<and> bitCount r = bitCount src \<and>
    data_at r \<noteq> data_at src \<and> head_at r \<noteq> head_at src \<and>
    block (pixels m') (data_at src) = block (pixels m) (data_at src) \<and>
    block (hbytes m') (head_at src) = block (hbytes m) (head_at src) \<and>
    (\<forall>x y. in_image src x y \<longrightarrow> pixel_at m' r x y = pixel_at m src x y) \<and>
    (\<forall>i. 0 \<le> i \<longrightarrow> i < data_ofset src \<longrightarrow> the (block (hbytes m') (head_at r)) ! nat i =
       the (block (hbytes m) (head_at src)) ! nat i)"
  using biCopyImage_ok [OF assms] by blast

text \<open>
  The test of \<open>biCopyImage\<close> looks only at the width and the height. A copy into an image
  that is large enough but has a shorter header buffer, such as that of \<open>biCreateImage\<close> (54
  bytes) when the source was loaded from a file with a palette, writes past the end of that
  buffer.
\<close>

theorem biCopyImage_overrun:
  assumes "\<not> new_blocks dst src" "head_at dst \<noteq> head_at src"
    and "block (hbytes m) (head_at src) = Some hs" "data_ofset src \<le> int (length hs)"
    and "block (hbytes m) (head_at dst) = Some bs" "int (length bs) < data_ofset src"
  shows "biCopyImage dst src m = Inl OutOfBounds"
proof -
  let ?k = "int (length bs)" and ?n = "data_ofset src"
  let ?d = "dst\<lparr>bwidth := bwidth src, bheight := bheight src, bitCount := bitCount src, data_ofset := ?n\<rparr>"
  obtain t zs where t: "copy_head (?d\<lparr>data_ofset := ?k\<rparr>) src (hbytes m) = Inr t"
    "block t = (block (hbytes m))(head_at dst \<mapsto> zs)" "length zs = length bs"
    using copy_head_ok [of ?k "?d\<lparr>data_ofset := ?k\<rparr>" "hbytes m" src hs bs] assms by force
  have split: "[0..?n - 1] = [0..?k - 1] @ ?k # [?k + 1..?n - 1]"
    using assms(6) upto_split3 [of 0 ?k "?n - 1"] by simp
  have "poke (head_at dst) ?k b t = Inl OutOfBounds" for b
    by (rule hp.wr_out [of t "head_at dst" zs]) (simp_all add: t(2,3))
  moreover have "peek (head_at src) ?k t = Inr (hs ! length bs)"
    using assms(2-4,6) by (simp add: hp.rd_live t(2))
  ultimately have "copy_head ?d src (hbytes m) = Inl OutOfBounds"
    using t(1) by (simp add: copy_head_def split foldM_append)
  then show ?thesis using assms(1) by (simp add: biCopyImage_def fit_image_def new_blocks_def Let_def)
qed

subsection \<open>Cutting and pasting\<close>

lemma fits_smaller:
  assumes "fits w h" "0 \<le> w'" "w' \<le> w" "0 \<le> h'" "h' \<le> h"
  shows "fits w' h'"
proof -
  have "w' * h' \<le> w * h" using assms by (intro mult_mono) simp_all
  moreover have "6 * (w * h) < 2 ^ 32" using assms(1) by (simp only: fits_def mult.assoc)
  ultimately have "6 * (w' * h') < 2 ^ 32" by linarith
  then show ?thesis using assms by (simp only: fits_def mult.assoc) simp
qed

lemma set_columns: "set (columns w h) = {(i, j). 0 \<le> i \<and> i < w \<and> 0 \<le> j \<and> j < h}"
  by (auto simp: columns_def)

lemma distinct_columns: "distinct (columns w h)"
proof -
  have "distinct (concat (map (\<lambda>i. map (\<lambda>j. (i, j)) js) is))" if "distinct is" "distinct js"
    for "is" js :: "int list"
    using that by (induction "is") (auto simp: distinct_map inj_on_def)
  then show ?thesis by (simp add: columns_def)
qed

text \<open>A loop over some of the cells of a window at \<open>(x, y)\<close> of an image of width \<open>w\<close>.\<close>

lemma window_sweep:
  assumes "block ph q = Some ys" "w * h \<le> int (length ys)" "distinct cs"
    and "\<And>i j. (i, j) \<in> set cs \<Longrightarrow> 0 \<le> x + i \<and> x + i < w \<and> 0 \<le> y + j \<and> y + j < h"
    and "\<And>i j t zs. (i, j) \<in> set cs \<Longrightarrow> block t = (block ph)(q \<mapsto> zs) \<Longrightarrow>
      f (i, j) t = poke q ((x + i) + (y + j) * w) (g i j) t"
  shows "\<exists>t zs. foldM f cs ph = Inr t \<and> block t = (block ph)(q \<mapsto> zs) \<and> length zs = length ys \<and>
    (\<forall>i j. 0 \<le> i \<longrightarrow> i < w \<longrightarrow> 0 \<le> j \<longrightarrow> j < h \<longrightarrow> zs ! nat (i + j * w) =
      (if (i - x, j - y) \<in> set cs then g (i - x) (j - y) else ys ! nat (i + j * w)))"
proof -
  let ?ix = "\<lambda>(i, j). (x + i) + (y + j) * w"
  have inj: "p = q" if "p \<in> set cs" "q \<in> set cs" "?ix p = ?ix q" for p q
  proof (cases p; cases q)
    fix a b c d assume pq: "p = (a, b)" "q = (c, d)"
    have "nat ((x + a) + (y + b) * w) = nat ((x + c) + (y + d) * w)" using that(3) by (simp add: pq)
    then show "p = q"
      using index_inj [of "x + a" w "y + b" "x + c" "y + d"] assms(4) [of a b] assms(4) [of c d] that(1,2)
      by (simp add: pq)
  qed
  then have "distinct (map ?ix cs)"
    unfolding distinct_map using assms(3) by (simp add: inj_on_def del: split_paired_All)
  moreover have "0 \<le> ?ix p \<and> ?ix p < int (length ys)" if "p \<in> set cs" for p
  proof (cases p)
    case (Pair a b)
    have "0 \<le> x + a" "x + a < w" "0 \<le> y + b" "y + b < h" using that assms(4) [of a b] by (simp_all add: Pair)
    from index_less [OF this] show ?thesis using assms(2) by (simp add: Pair)
  qed
  ultimately have "\<exists>t zs. foldM f cs ph = Inr t \<and> block t = (block ph)(q \<mapsto> zs) \<and>
      length zs = length ys \<and> (\<forall>p \<in> set cs. zs ! nat (?ix p) = (case p of (i, j) \<Rightarrow> g i j)) \<and>
      (\<forall>k < length ys. int k \<notin> ?ix ` set cs \<longrightarrow> zs ! k = ys ! k)"
    by (rule hp.sweep [OF assms(1)]) (use assms(5) in auto)
  then obtain t zs where t: "foldM f cs ph = Inr t" "block t = (block ph)(q \<mapsto> zs)" "length zs = length ys"
    "\<And>i j. (i, j) \<in> set cs \<Longrightarrow> zs ! nat ((x + i) + (y + j) * w) = g i j"
    "\<And>k. k < length ys \<Longrightarrow> int k \<notin> ?ix ` set cs \<Longrightarrow> zs ! k = ys ! k" by fastforce
  have "zs ! nat (i + j * w) = (if (i - x, j - y) \<in> set cs then g (i - x) (j - y) else ys ! nat (i + j * w))"
    if r: "0 \<le> i" "i < w" "0 \<le> j" "j < h" for i j
  proof (cases "(i - x, j - y) \<in> set cs")
    case True
    then show ?thesis using t(4) [OF True] by simp
  next
    case False
    have k: "0 \<le> i + j * w" "i + j * w < w * h" using index_less [OF r] by simp_all
    have "i + j * w \<notin> ?ix ` set cs"
    proof
      assume "i + j * w \<in> ?ix ` set cs"
      then obtain a b where ab: "(a, b) \<in> set cs" "i + j * w = (x + a) + (y + b) * w" by auto
      then have "nat (i + j * w) = nat ((x + a) + (y + b) * w)" by simp
      then have "i = x + a \<and> j = y + b"
        using index_inj [of i w j "x + a" "y + b"] r assms(4) [OF ab(1)] by simp
      with ab(1) False show False by auto
    qed
    then show ?thesis using t(5) [of "nat (i + j * w)"] k assms(2) False by simp
  qed
  then show ?thesis using t(1-3) by blast
qed

lemma biPasteImage_ok:
  assumes "live_data m base" "live_data m im" "data_at base \<noteq> data_at im" "0 \<le> x" "0 \<le> y"
  shows "\<exists>m' zs. biPasteImage base x y im m = Inr m' \<and>
    block (pixels m') = (block (pixels m))(data_at base \<mapsto> zs) \<and> hbytes m' = hbytes m \<and>
    live_data m' base \<and>
    (\<forall>i j. in_image base i j \<longrightarrow> pixel_at m' base i j =
      (if in_image im (i - x) (j - y) then pixel_at m im (i - x) (j - y) else pixel_at m base i j))"
proof -
  let ?w = "bwidth im" and ?h = "bheight im"
  let ?P = "\<lambda>(i, j). x + i < bwidth base \<and> y + j < bheight base"
  let ?cs = "filter ?P (columns ?w ?h)"
  let ?f = "\<lambda>(i, j) ph. rbind (peek (data_at im) (i + j * ?w) ph) (\<lambda>d.
      poke (data_at base) ((x + i) + (y + j) * bwidth base) d ph)"
  obtain ys where ys: "fits (bwidth base) (bheight base)" "block (pixels m) (data_at base) = Some ys"
    "bwidth base * bheight base \<le> int (length ys)" using assms(1) by (auto simp: live_data_def)
  obtain xs where xs: "block (pixels m) (data_at im) = Some xs" "?w * ?h \<le> int (length xs)"
    using assms(2) by (auto simp: live_data_def)
  have "\<exists>t zs. foldM ?f ?cs (pixels m) = Inr t \<and> block t = (block (pixels m))(data_at base \<mapsto> zs) \<and>
      length zs = length ys \<and> (\<forall>i j. 0 \<le> i \<longrightarrow> i < bwidth base \<longrightarrow> 0 \<le> j \<longrightarrow> j < bheight base \<longrightarrow>
        zs ! nat (i + j * bwidth base) = (if (i - x, j - y) \<in> set ?cs
          then xs ! nat ((i - x) + (j - y) * ?w) else ys ! nat (i + j * bwidth base)))"
  proof (rule window_sweep [OF ys(2,3)])
    show "distinct ?cs" by (simp add: distinct_columns)
  next
    fix i j assume "(i, j) \<in> set ?cs"
    then show "0 \<le> x + i \<and> x + i < bwidth base \<and> 0 \<le> y + j \<and> y + j < bheight base"
      using assms(4,5) by (simp add: set_columns)
  next
    fix i j t zs assume "(i, j) \<in> set ?cs" "block t = (block (pixels m))(data_at base \<mapsto> zs)"
    then show "?f (i, j) t = poke (data_at base) ((x + i) + (y + j) * bwidth base) (xs ! nat (i + j * ?w)) t"
      using index_less [of i ?w j ?h] xs assms(3) by (simp add: set_columns hp.rd_live)
  qed
  then obtain t zs where t: "foldM ?f ?cs (pixels m) = Inr t" "block t = (block (pixels m))(data_at base \<mapsto> zs)"
    "length zs = length ys" "\<forall>i j. 0 \<le> i \<longrightarrow> i < bwidth base \<longrightarrow> 0 \<le> j \<longrightarrow> j < bheight base \<longrightarrow>
        zs ! nat (i + j * bwidth base) = (if (i - x, j - y) \<in> set ?cs
          then xs ! nat ((i - x) + (j - y) * ?w) else ys ! nat (i + j * bwidth base))" by blast
  have "foldM (\<lambda>(i, j) ph. if x + i < bwidth base \<and> y + j < bheight base
      then rbind (peek (data_at im) (i + j * ?w) ph) (\<lambda>d.
        poke (data_at base) ((x + i) + (y + j) * bwidth base) d ph)
      else Inr ph) (columns ?w ?h) (pixels m) = foldM ?f ?cs (pixels m)"
    unfolding foldM_skip [of ?P ?f, symmetric] by (rule foldM_cong_set) (auto split: if_splits)
  then have "biPasteImage base x y im m = Inr (m\<lparr>pixels := t\<rparr>)"
    by (simp add: biPasteImage_def t(1))
  then show ?thesis
    using t(2-4) ys by (intro exI [of _ "m\<lparr>pixels := t\<rparr>"] exI [of _ zs])
      (auto simp: live_data_def pixel_at_def in_image_def xs(1) set_columns)
qed

lemma biCutImage_ok:
  assumes "live_data m im" and rc: "0 \<le> rc_left rc" "rc_left rc \<le> rc_right rc" "rc_right rc \<le> bwidth im"
    "0 \<le> rc_top rc" "rc_top rc \<le> rc_bottom rc" "rc_bottom rc \<le> bheight im"
  shows "\<exists>r m'. biCutImage im rc m = Inr (r, m') \<and> bwidth r = rc_right rc - rc_left rc \<and>
    bheight r = rc_bottom rc - rc_top rc \<and> live_data m' r \<and> data_at r \<noteq> data_at im \<and>
    (\<forall>i j. in_image r i j \<longrightarrow> pixel_at m' r i j = pixel_at m im (rc_left rc + i) (rc_top rc + j)) \<and>
    (\<forall>p. block (pixels m) p \<noteq> None \<longrightarrow> block (pixels m') p = block (pixels m) p)"
proof -
  let ?x = "rc_left rc" and ?y = "rc_top rc" and ?w = "rc_right rc - rc_left rc" and ?h = "rc_bottom rc - rc_top rc"
  obtain xs where xs: "fits (bwidth im) (bheight im)" "block (pixels m) (data_at im) = Some xs"
    "bwidth im * bheight im \<le> int (length xs)" using assms(1) by (auto simp: live_data_def)
  have small: "0 \<le> ?w" "?w \<le> bwidth im" "0 \<le> ?h" "?h \<le> bheight im" using rc by simp_all
  then have fit: "fits ?w ?h" by (rule fits_smaller [OF xs(1)])
  have s: "s32 ?w = ?w" "s32 ?h = ?h" using small xs(1) by (simp_all add: fits_def int32_def)
  obtain hp dp ph hb where c: "biCreateImage ?w ?h 32 m =
      Inr (\<lparr>file_size = 0, data_ofset = 54, bwidth = ?w, bheight = ?h, bitCount = 32 mod 2 ^ 16,
             head_at = hp, data_at = dp\<rparr>, m\<lparr>pixels := ph, hbytes := hb\<rparr>)"
    "block (pixels m) dp = None" "block ph = (block (pixels m))(dp \<mapsto> replicate (nat (?w * ?h)) zero_data)"
    using biCreateImage_ok [OF fit, of 32 m] by blast
  let ?f = "\<lambda>(i, j) ph. rbind (peek (data_at im) ((?x + i) + (?y + j) * bwidth im) ph) (\<lambda>d.
      poke dp (i + j * ?w) d ph)"
  have dp: "dp \<noteq> data_at im" using c(2) xs(2) by auto
  have "0 \<le> ?w * ?h" using small by simp
  then have "\<exists>t zs. foldM ?f (columns ?w ?h) ph = Inr t \<and> block t = (block ph)(dp \<mapsto> zs) \<and>
      length zs = length (replicate (nat (?w * ?h)) zero_data) \<and> (\<forall>i j. 0 \<le> i \<longrightarrow> i < ?w \<longrightarrow> 0 \<le> j \<longrightarrow> j < ?h \<longrightarrow>
        zs ! nat (i + j * ?w) = (if (i - 0, j - 0) \<in> set (columns ?w ?h)
          then xs ! nat ((?x + (i - 0)) + (?y + (j - 0)) * bwidth im) else replicate (nat (?w * ?h)) zero_data ! nat (i + j * ?w)))"
  proof (intro window_sweep [where x = 0 and y = 0])
    fix i j t zs assume *: "(i, j) \<in> set (columns ?w ?h)" and t: "block t = (block ph)(dp \<mapsto> zs)"
    have "block t (data_at im) = Some xs" using t c(3) dp xs(2) by simp
    moreover have "0 \<le> ?x + i" "?x + i < bwidth im" "0 \<le> ?y + j" "?y + j < bheight im"
      using * rc by (simp_all add: set_columns)
    note index_less [OF this]
    ultimately show "?f (i, j) t = poke dp ((0 + i) + (0 + j) * ?w) (xs ! nat ((?x + i) + (?y + j) * bwidth im)) t"
      using xs(3) by (simp add: hp.rd_live)
  qed (auto simp: set_columns distinct_columns c(3))
  then obtain t zs where t: "foldM ?f (columns ?w ?h) ph = Inr t" "block t = (block ph)(dp \<mapsto> zs)"
    "int (length zs) = ?w * ?h" "\<forall>i j. 0 \<le> i \<longrightarrow> i < ?w \<longrightarrow> 0 \<le> j \<longrightarrow> j < ?h \<longrightarrow>
        zs ! nat (i + j * ?w) = xs ! nat ((?x + i) + (?y + j) * bwidth im)"
    using small by (auto simp: set_columns)
  have "biCutImage im rc m = Inr (\<lparr>file_size = 0, data_ofset = 54, bwidth = ?w, bheight = ?h, bitCount = 32 mod 2 ^ 16,
             head_at = hp, data_at = dp\<rparr>, m\<lparr>pixels := t, hbytes := hb\<rparr>)"
    by (simp add: biCutImage_def s c(1) t(1) Let_def)
  moreover have "block t p = block (pixels m) p" if "block (pixels m) p \<noteq> None" for p
    using that c(2,3) t(2) by auto
  ultimately show ?thesis
    using fit t(2-4) dp xs(2) by (simp add: live_data_def pixel_at_def in_image_def)
qed

text \<open>
  An image pasted inside another and cut out again at the same place is the pasted image,
  in a block of its own; pasting changes no pixel of the base outside the window.
\<close>

theorem paste_cut:
  assumes "live_data m base" "live_data m im" "data_at base \<noteq> data_at im"
    and "0 \<le> x" "x + bwidth im \<le> bwidth base" "0 \<le> y" "y + bheight im \<le> bheight base"
  shows "\<exists>m' r m2. biPasteImage base x y im m = Inr m' \<and>
    (\<forall>i j. in_image base i j \<longrightarrow> \<not> in_image im (i - x) (j - y) \<longrightarrow> pixel_at m' base i j = pixel_at m base i j) \<and>
    biCutImage base \<lparr>rc_top = y, rc_left = x, rc_right = x + bwidth im, rc_bottom = y + bheight im\<rparr> m' = Inr (r, m2) \<and>
    bwidth r = bwidth im \<and> bheight r = bheight im \<and> data_at r \<noteq> data_at base \<and>
    (\<forall>i j. in_image im i j \<longrightarrow> pixel_at m2 r i j = pixel_at m im i j)"
proof -
  let ?rc = "\<lparr>rc_top = y, rc_left = x, rc_right = x + bwidth im, rc_bottom = y + bheight im\<rparr>"
  obtain m' where m': "biPasteImage base x y im m = Inr m'" "live_data m' base"
    "\<And>i j. in_image base i j \<Longrightarrow> pixel_at m' base i j =
      (if in_image im (i - x) (j - y) then pixel_at m im (i - x) (j - y) else pixel_at m base i j)"
    using biPasteImage_ok [OF assms(1-4,6)] by blast
  have dims: "0 \<le> bwidth im" "0 \<le> bheight im" using assms(2) by (simp_all add: live_data_def fits_def)
  obtain r m2 where r: "biCutImage base ?rc m' = Inr (r, m2)" "bwidth r = bwidth im" "bheight r = bheight im"
    "data_at r \<noteq> data_at base" "\<And>i j. in_image r i j \<Longrightarrow> pixel_at m2 r i j = pixel_at m' base (x + i) (y + j)"
    using biCutImage_ok [OF m'(2), of ?rc] assms(4-) dims by auto
  have "pixel_at m2 r i j = pixel_at m im i j" if "in_image im i j" for i j
  proof -
    have "in_image r i j" "in_image base (x + i) (y + j)"
      using that r(2,3) assms(4-) by (simp_all add: in_image_def)
    then show ?thesis using r(5) m'(3) [of "x + i" "y + j"] that by simp
  qed
  then show ?thesis using m' r by auto
qed

subsection \<open>Writing and loading\<close>

definition coloured :: "int \<Rightarrow> idata \<Rightarrow> bool" where
  "coloured bits d \<longleftrightarrow> rgbBlue d \<noteq> None \<and> rgbGreen d \<noteq> None \<and> rgbRed d \<noteq> None \<and>
     (bits = 32 \<longrightarrow> rgbReserved d \<noteq> None)"

definition pix_bytes :: "int \<Rightarrow> idata \<Rightarrow> byte list" where
  "pix_bytes bits d = [the (rgbBlue d), the (rgbGreen d), the (rgbRed d)] @
     (if bits = 32 then [the (rgbReserved d)] else [])"

definition gray_of :: "idata \<Rightarrow> byte" where
  "gray_of d = word_of_int ((uint (the (rgbBlue d)) + uint (the (rgbRed d)) + uint (the (rgbGreen d))) div 3)"

definition loaded :: "int \<Rightarrow> idata \<Rightarrow> idata" where
  "loaded bits d = \<lparr>rgbBlue = rgbBlue d, rgbGreen = rgbGreen d, rgbRed = rgbRed d,
     rgbReserved = (if bits = 32 then rgbReserved d else None), graylevel = Some (gray_of d), dlabel = None\<rparr>"

lemma write_pixel_ok: "coloured bits d \<Longrightarrow> write_pixel bits d = Inr (pix_bytes bits d)"
  by (auto simp: coloured_def write_pixel_def pix_bytes_def)

lemma load_cell_ok:
  assumes "block h p = Some zs" "0 \<le> i" "i < int (length zs)" "zs ! nat i = junk_data" "coloured bits d"
  shows "load_cell bits p i (h, pix_bytes bits d @ rest) =
    rbind (poke p i (loaded bits d) h) (\<lambda>h. Inr (h, rest))"
  using assms
  by (auto simp: load_cell_def pix_bytes_def loaded_def gray_of_def coloured_def junk_data_def fread1_def
      hp.rd_live Let_def)

lemma load_cells_ok:
  assumes "block h p = Some zs" "distinct is"
    and "\<And>i. i \<in> set is \<Longrightarrow> 0 \<le> i \<and> i < int (length zs) \<and> zs ! nat i = junk_data \<and> coloured bits (d i)"
  shows "\<exists>t us. foldM (load_cell bits p) is (h, concat (map (\<lambda>i. pix_bytes bits (d i)) is) @ rest) = Inr (t, rest) \<and>
    block t = (block h)(p \<mapsto> us) \<and> length us = length zs \<and> (\<forall>i \<in> set is. us ! nat i = loaded bits (d i)) \<and>
    (\<forall>k < length zs. int k \<notin> set is \<longrightarrow> us ! k = zs ! k)"
  using assms
proof (induction "is" arbitrary: h zs)
  case Nil
  have "block h = (block h)(p \<mapsto> zs)" using Nil.prems(1) by auto
  then show ?case by (intro exI [of _ h] exI [of _ zs]) simp
next
  case (Cons i js)
  let ?zs = "zs[nat i := loaded bits (d i)]"
  have i: "0 \<le> i" "i < int (length zs)" "zs ! nat i = junk_data" "coloured bits (d i)"
    using Cons.prems(3) by simp_all
  obtain h1 where h1: "poke p i (loaded bits (d i)) h = Inr h1" "block h1 = (block h)(p \<mapsto> ?zs)"
    using hp.wr_live [OF Cons.prems(1) i(1,2)] by blast
  have far: "nat j \<noteq> nat i" if "j \<in> set js" for j
    using that Cons.prems(2,3) i(1) by (auto simp: nat_eq_iff)
  have "\<exists>t us. foldM (load_cell bits p) js (h1, concat (map (\<lambda>i. pix_bytes bits (d i)) js) @ rest) = Inr (t, rest) \<and>
      block t = (block h1)(p \<mapsto> us) \<and> length us = length ?zs \<and> (\<forall>i \<in> set js. us ! nat i = loaded bits (d i)) \<and>
      (\<forall>k < length ?zs. int k \<notin> set js \<longrightarrow> us ! k = ?zs ! k)"
  proof (rule Cons.IH)
    fix j assume "j \<in> set js"
    with far [of j] Cons.prems(3) [of j]
    show "0 \<le> j \<and> j < int (length ?zs) \<and> ?zs ! nat j = junk_data \<and> coloured bits (d j)" by simp
  qed (use Cons.prems(2) h1 in simp_all)
  then obtain t us where t: "foldM (load_cell bits p) js (h1, concat (map (\<lambda>i. pix_bytes bits (d i)) js) @ rest) = Inr (t, rest)"
    "block t = (block h1)(p \<mapsto> us)" "length us = length zs" "\<And>j. j \<in> set js \<Longrightarrow> us ! nat j = loaded bits (d j)"
    "\<And>k. k < length zs \<Longrightarrow> int k \<notin> set js \<Longrightarrow> us ! k = ?zs ! k" by auto
  have "us ! nat i = loaded bits (d i)" using t(5) [of "nat i"] i Cons.prems(2) by simp
  moreover have "us ! k = zs ! k" if "k < length zs" "int k \<notin> set (i # js)" for k
    using t(5) [of k] that i by (auto simp: nth_list_update)
  moreover have "foldM (load_cell bits p) (i # js) (h, concat (map (\<lambda>i. pix_bytes bits (d i)) (i # js)) @ rest) = Inr (t, rest)"
    using t(1) by (simp add: load_cell_ok [OF Cons.prems(1) i] h1)
  ultimately show ?case
    using t h1(2) by (intro exI [of _ t] exI [of _ us]) auto
qed

lemma index_in_image:
  assumes "fits (bwidth im) (bheight im)" "0 \<le> k" "k < bwidth im * bheight im"
  shows "in_image im (k mod bwidth im) (k div bwidth im)"
proof -
  let ?w = "bwidth im" and ?h = "bheight im"
  have w: "0 < ?w" using assms by (auto simp: fits_def zero_less_mult_iff intro: ccontr)
  have "k div ?w * ?w \<le> k" using minus_mod_eq_div_mult [of k ?w] pos_mod_sign [OF w, of k] by linarith
  then have "?w * (k div ?w) < ?w * ?h" using assms(3) by (simp add: mult.commute)
  then have "k div ?w < ?h" using w by (simp add: mult_less_cancel_left_pos)
  then show ?thesis
    using w assms(2) by (simp add: in_image_def pos_imp_zdiv_nonneg_iff)
qed

lemma biWriteImage_ok:
  assumes fit: "fits (bwidth im) (bheight im)"
    and px: "block (pixels m) (data_at im) = Some xs" "bwidth im * bheight im \<le> int (length xs)"
    and hd: "block (hbytes m) (head_at im) = Some (map Some hs @ us)" "data_ofset im = int (length hs)"
    and col: "\<And>i j. in_image im i j \<Longrightarrow> coloured (bitCount im) (xs ! nat (i + j * bwidth im))"
  shows "\<exists>ys r m'. (\<forall>i j. in_image im i j \<longrightarrow>
      ys ! nat (i + j * bwidth im) = xs ! nat (i + (bheight im - 1 - j) * bwidth im)) \<and>
    biWriteImage True im m = Inr (0, hs @ concat (map (\<lambda>k. pix_bytes (bitCount im) (ys ! nat k))
      [0..bwidth im * bheight im - 1]), r, m') \<and>
    (\<forall>k. 0 \<le> k \<and> k < bwidth im * bheight im \<longrightarrow> coloured (bitCount im) (ys ! nat k)) \<and>
    (\<forall>i j. in_image im i j \<longrightarrow> pixel_at m' r i j = pixel_at m im i j) \<and>
    r = im\<lparr>data_at := data_at r\<rparr> \<and> hbytes m' = hbytes m \<and>
    (\<exists>zs. block (pixels m') = (block (pixels m))(data_at im := None, data_at r \<mapsto> zs))"
proof -
  let ?w = "bwidth im" and ?h = "bheight im"
  have "mapM (\<lambda>i. rbind (peek (head_at im) i (hbytes m)) fld) [0..data_ofset im - 1] =
      Inr (map (\<lambda>i. hs ! nat i) [0..data_ofset im - 1])"
    by (rule mapM_total) (auto simp: hp.rd_live [OF hd(1)] hd(2) nth_append nat_less_iff)
  also have "map (\<lambda>i. hs ! nat i) [0..data_ofset im - 1] = hs"
    by (rule nth_equalityI) (simp_all add: hd(2))
  finally have head: "mapM (\<lambda>i. rbind (peek (head_at im) i (hbytes m)) fld) [0..data_ofset im - 1] = Inr hs" .
  obtain q1 h1 ys where r1: "biReverseImage im m = Inr (im\<lparr>data_at := q1\<rparr>, m\<lparr>pixels := h1\<rparr>)"
    "block h1 = (block (pixels m))(data_at im := None, q1 \<mapsto> ys)" "int (length ys) = ?w * ?h"
    "\<forall>i j. in_image im i j \<longrightarrow> ys ! nat (i + j * ?w) = xs ! nat (i + (?h - 1 - j) * ?w)"
    "block (pixels m) q1 = None"
    using biReverseImage_ok [OF fit px] by blast
  let ?im1 = "im\<lparr>data_at := q1\<rparr>" and ?m1 = "m\<lparr>pixels := h1\<rparr>"
  have b1: "block (pixels ?m1) (data_at ?im1) = Some ys" by (simp add: r1(2))
  obtain q2 h2 zs where r2: "biReverseImage ?im1 ?m1 = Inr (?im1\<lparr>data_at := q2\<rparr>, ?m1\<lparr>pixels := h2\<rparr>)"
    "block h2 = (block h1)(q1 := None, q2 \<mapsto> zs)"
    "\<forall>i j. in_image im i j \<longrightarrow> zs ! nat (i + j * ?w) = ys ! nat (i + (?h - 1 - j) * ?w)"
    using biReverseImage_ok [OF _ b1] fit r1(3) by (auto simp: in_image_def)
  have flip: "in_image im i (?h - 1 - j)" if "in_image im i j" for i j
    using that by (simp add: in_image_def)
  have colk: "coloured (bitCount im) (ys ! nat k)" if k: "0 \<le> k" "k < ?w * ?h" for k
  proof -
    note in' = index_in_image [OF fit k]
    have "ys ! nat (k mod ?w + k div ?w * ?w) = xs ! nat (k mod ?w + (?h - 1 - k div ?w) * ?w)"
      using r1(4) in' by blast
    then show ?thesis using col [OF flip [OF in']] by simp
  qed
  have "mapM (\<lambda>i. rbind (peek q1 i h1) (write_pixel (bitCount im))) [0..?w * ?h - 1] =
      Inr (map (\<lambda>k. pix_bytes (bitCount im) (ys ! nat k)) [0..?w * ?h - 1])"
  proof (rule mapM_total)
    fix k assume "k \<in> set [0..?w * ?h - 1]"
    then have k: "0 \<le> k" "k < ?w * ?h" by simp_all
    have "peek q1 k h1 = Inr (ys ! nat k)" using b1 k r1(3) by (simp add: hp.rd_live)
    then show "rbind (peek q1 k h1) (write_pixel (bitCount im)) = Inr (pix_bytes (bitCount im) (ys ! nat k))"
      by (simp add: write_pixel_ok colk k)
  qed
  then have "biWriteImage True im m = Inr (0, hs @ concat (map (\<lambda>k. pix_bytes (bitCount im) (ys ! nat k))
      [0..?w * ?h - 1]), ?im1\<lparr>data_at := q2\<rparr>, ?m1\<lparr>pixels := h2\<rparr>)"
    by (simp add: biWriteImage_def head r1(1) r2(1) s32_size [OF fit])
  moreover have "zs ! nat (i + j * ?w) = xs ! nat (i + j * ?w)" if "in_image im i j" for i j
    using r2(3) that r1(4) flip [OF that] by simp
  moreover have "block h2 = (block (pixels m))(data_at im := None, q2 \<mapsto> zs)"
    using r1(5) by (auto simp: r2(2) r1(2))
  ultimately show ?thesis
    using r1(4) colk
    by (intro exI [of _ ys] exI [of _ "?im1\<lparr>data_at := q2\<rparr>"] exI [of _ "?m1\<lparr>pixels := h2\<rparr>"])
      (auto simp: pixel_at_def px(1))
qed

lemma biBreakImage_ok:
  assumes "releasable m im"
  shows "\<exists>ph hb. biBreakImage im m = Inr (biInitImage, m\<lparr>pixels := ph, hbytes := hb\<rparr>) \<and>
    block ph = (block (pixels m))(data_at im := None) \<and> block hb = (block (hbytes m))(head_at im := None)"
proof -
  obtain ph where ph: "mem_free (data_at im) (pixels m) = Inr ph" "block ph = (block (pixels m))(data_at im := None)"
    using free_ok [of "data_at im" "pixels m"] assms by (auto simp: releasable_def)
  obtain hb where hb: "mem_free (head_at im) (hbytes m) = Inr hb" "block hb = (block (hbytes m))(head_at im := None)"
    using free_ok [of "head_at im" "hbytes m"] assms by (auto simp: releasable_def)
  have "biBreakImage im m = Inr (biInitImage, m\<lparr>pixels := ph, hbytes := hb\<rparr>)"
    using ph(1) hb(1) by (simp add: biBreakImage_def)
  then show ?thesis using ph(2) hb(2) by blast
qed

lemma read_num_within: "p < length bs \<Longrightarrow> read_num bs p n = read_le bs p n"
  by (simp add: read_num_def)

lemma header_nums:
  "read_num (header_of w h bits @ c) 2 4 = Inr 0"
  "read_num (header_of w h bits @ c) 10 4 = Inr (54 mod 256 ^ 4)"
  "read_num (header_of w h bits @ c) 18 4 = Inr (w mod 256 ^ 4)"
  "read_num (header_of w h bits @ c) 22 4 = Inr (h mod 256 ^ 4)"
  "read_num (header_of w h bits @ c) 28 2 = Inr (bits mod 256 ^ 2)"
proof -
  have "read_le ([66, 77] @ le 4 0 @ (le 2 0 @ le 2 0 @ le 4 54 @ info_header w h bits @ c)) 2 4 = Inr (0 mod 256 ^ 4)"
    by (rule read_le_at) simp
  then have "read_le (header_of w h bits @ c) 2 4 = Inr 0"
    by (simp add: header_of_def file_header_def)
  then show "read_num (header_of w h bits @ c) 2 4 = Inr 0"
    by (subst read_num_within) simp_all
  show "read_num (header_of w h bits @ c) 10 4 = Inr (54 mod 256 ^ 4)"
    "read_num (header_of w h bits @ c) 18 4 = Inr (w mod 256 ^ 4)"
    "read_num (header_of w h bits @ c) 22 4 = Inr (h mod 256 ^ 4)"
    "read_num (header_of w h bits @ c) 28 2 = Inr (bits mod 256 ^ 2)"
    using header_reads [of 54 w h bits c]
    by (subst read_num_within, simp, simp only: header_of_def append_assoc)+
qed

lemma header_read:
  assumes "block hb hp = Some (replicate 54 None)"
  shows "\<exists>t us. foldM (\<lambda>i. poke hp i (Some ((header_of w h bits @ rest) ! nat i))) [0..53] hb = Inr t \<and>
    block t = (block hb)(hp \<mapsto> us)"
proof -
  have "foldM (\<lambda>i. poke hp i (Some ((header_of w h bits @ rest) ! nat i))) [0..53] hb =
      foldM (\<lambda>i. poke hp (0 + i) (map Some (header_of w h bits) ! nat i)) [0..53] hb"
    by (rule foldM_cong_set) (auto simp: nth_append nat_less_iff simp del: upto.simps)
  then show ?thesis
    using poke_upto [OF assms, of 0 "map Some (header_of w h bits)" 53] by auto
qed

lemma biLoadImage_ok:
  assumes dst: "releasable m dst" and fit: "fits w h" "0 < w" "0 < h" and bits: "0 \<le> bits" "bits < 2 ^ 16"
    and col: "\<And>k. 0 \<le> k \<Longrightarrow> k < w * h \<Longrightarrow> coloured bits (d k)"
  shows "\<exists>r m' zs. biLoadImage (Some (header_of w h bits @ concat (map (\<lambda>k. pix_bytes bits (d k)) [0..w * h - 1])))
      dst m = Inr (0, r, m') \<and> bwidth r = w \<and> bheight r = h \<and> bitCount r = bits \<and> data_ofset r = 54 \<and>
    (\<forall>i j. in_image r i j \<longrightarrow> pixel_at m' r i j = loaded bits (d (i + (h - 1 - j) * w))) \<and>
    block (pixels m') = (block (pixels m))(data_at dst := None, data_at r \<mapsto> zs) \<and>
    (\<exists>us. block (hbytes m') = (block (hbytes m))(head_at dst := None, head_at r \<mapsto> us))"
proof -
  let ?body = "concat (map (\<lambda>k. pix_bytes bits (d k)) [0..w * h - 1])"
  let ?file = "header_of w h bits @ ?body" and ?n = "nat (w * h)"
  obtain p0 b0 where b: "biBreakImage dst m = Inr (biInitImage, m\<lparr>pixels := p0, hbytes := b0\<rparr>)"
    and free: "block p0 = (block (pixels m))(data_at dst := None)" "block b0 = (block (hbytes m))(head_at dst := None)"
    using biBreakImage_ok [OF dst] by blast
  obtain hp hb where hp: "malloc 54 None b0 = (hp, hb)" "block hb = (block b0)(hp \<mapsto> replicate 54 None)"
    by (rule hp.newE)
  obtain dp ph where dp: "malloc ?n junk_data p0 = (dp, ph)" "block ph = (block p0)(dp \<mapsto> replicate ?n junk_data)"
    "block p0 dp = None"
    by (rule hp.newE)
  have len: "int (length ?file) = 54 + int (length ?body)" by simp
  obtain t1 hs where t1: "foldM (\<lambda>i. poke hp i (Some (?file ! nat i))) [0..53] hb = Inr t1"
    and hs: "block t1 = (block hb)(hp \<mapsto> hs)"
    using header_read [of hb hp w h bits ?body] hp(2) by auto
  have px: "block ph dp = Some (replicate ?n junk_data)" by (simp add: dp(2))
  have "\<exists>t us. foldM (load_cell bits dp) [0..w * h - 1] (ph, ?body @ []) = Inr (t, []) \<and>
      block t = (block ph)(dp \<mapsto> us) \<and> length us = length (replicate ?n junk_data) \<and>
      (\<forall>k \<in> set [0..w * h - 1]. us ! nat k = loaded bits (d k)) \<and>
      (\<forall>k < length (replicate ?n junk_data). int k \<notin> set [0..w * h - 1] \<longrightarrow> us ! k = replicate ?n junk_data ! k)"
    by (rule load_cells_ok [OF px]) (auto simp: nat_less_iff col)
  then obtain t us where t: "foldM (load_cell bits dp) [0..w * h - 1] (ph, ?body) = Inr (t, [])"
    "block t = (block ph)(dp \<mapsto> us)" "length us = ?n"
    "\<And>k. 0 \<le> k \<Longrightarrow> k < w * h \<Longrightarrow> us ! nat k = loaded bits (d k)"
    by auto
  let ?im = "\<lparr>file_size = 0, data_ofset = 54, bwidth = w, bheight = h, bitCount = bits,
    head_at = hp, data_at = dp\<rparr>" and ?m = "m\<lparr>pixels := t, hbytes := t1\<rparr>"
  have "block (pixels ?m) (data_at ?im) = Some us" by (simp add: t(2))
  moreover have "0 \<le> w * h" using fits_product [OF fit(1)] by simp
  ultimately obtain q qh ys where q: "biReverseImage ?im ?m = Inr (?im\<lparr>data_at := q\<rparr>, ?m\<lparr>pixels := qh\<rparr>)"
    "block qh = (block t)(dp := None, q \<mapsto> ys)"
    "\<forall>i j. in_image ?im i j \<longrightarrow> ys ! nat (i + j * w) = us ! nat (i + (h - 1 - j) * w)"
    using biReverseImage_ok [of ?im ?m us] fit(1) t(3) by auto
  have "w \<le> w * h" "h \<le> w * h" using fit(2,3) by simp_all
  then have "w < 2 ^ 31" "h < 2 ^ 31" using fits_product [OF fit(1)] by linarith+
  then have "int32 w" "int32 h" using fit(2,3) by (simp_all add: int32_def)
  then have s: "s32 (w mod 256 ^ 4) = w" "s32 (h mod 256 ^ 4) = h" "bits mod 256 ^ 2 = bits"
    using bits by (simp_all only: s32_le4) simp
  have mn: "min (54 mod 256 ^ 4) (int (length ?file)) - 1 = 53" using len by simp
  have dr: "drop 54 ?file = ?body" by simp
  have "biLoadImage (Some ?file) dst m = Inr (0, ?im\<lparr>data_at := q\<rparr>, ?m\<lparr>pixels := qh\<rparr>)"
    unfolding biLoadImage_def b
    apply (simp only: rbind_Inr prod.case option.case header_nums s Let_def mn)
    using q(1) by (simp add: hp(1) dp(1) cells_exact [OF fit(1)] s32_size [OF fit(1)] t1 t(1) dr del: upto.simps)
  moreover have "ys ! nat (i + j * w) = loaded bits (d (i + (h - 1 - j) * w))" if "in_image ?im i j" for i j
    using q(3) that t(4) [of "i + (h - 1 - j) * w"] index_less [of i w "h - 1 - j" h]
    by (simp add: in_image_def)
  moreover have "block qh = (block (pixels m))(data_at dst := None, q \<mapsto> ys)"
    using dp(3) by (auto simp: q(2) t(2) dp(2) free(1) fun_eq_iff split: if_splits)
  moreover have "block t1 = (block (hbytes m))(head_at dst := None, hp \<mapsto> hs)"
    by (simp add: hs hp(2) free(2))
  ultimately show ?thesis
    by (intro exI [of _ "?im\<lparr>data_at := q\<rparr>"] exI [of _ "?m\<lparr>pixels := qh\<rparr>"] exI [of _ ys] conjI exI [of _ hs])
      (simp_all add: pixel_at_def q(2) in_image_def)
qed

text \<open>
  C27: an image of 24 or 32 bits that has at least one pixel, all its colours set and the header
  \<open>biCreateImage\<close> gives it, and that \<open>biWriteImage\<close> writes and \<open>biLoadImage\<close> reads, into any image
  whose blocks can be released (each null or allocated) in any memory, comes back with its size, its
  depth and, pixel by pixel, its colours; the gray level is computed anew and the label is
  unset. Both keep the memory tidy. Writing leaves the image with the pixels it had in one new
  block: the old one and the one it was turned over in are free, and no other block and no
  header has changed. Loading frees the two blocks of the image it is given and adds the two of
  the picture. (Neither function pads the rows, so they only understand each other.)
\<close>

theorem legacy_roundtrip:
  assumes "live_data m im" "0 < bwidth im" "0 < bheight im" "bitCount im = 24 \<or> bitCount im = 32"
    and "block (hbytes m) (head_at im) =
      Some (map Some (header_of (bwidth im) (bheight im) (bitCount im)) @ us)" "data_ofset im = 54"
    and "\<And>x y. in_image im x y \<Longrightarrow> coloured (bitCount im) (pixel_at m im x y)"
    and "releasable m2 dst"
  shows "\<exists>bs im' m'. biWriteImage True im m = Inr (0, bs, im', m') \<and>
    (\<forall>x y. in_image im x y \<longrightarrow> pixel_at m' im' x y = pixel_at m im x y) \<and>
    im' = im\<lparr>data_at := data_at im'\<rparr> \<and> hbytes m' = hbytes m \<and>
    (\<exists>zs. block (pixels m') = (block (pixels m))(data_at im := None, data_at im' \<mapsto> zs)) \<and>
    (\<exists>r m3. biLoadImage (Some bs) dst m2 = Inr (0, r, m3) \<and>
      bwidth r = bwidth im \<and> bheight r = bheight im \<and> bitCount r = bitCount im \<and>
      (\<forall>x y. in_image im x y \<longrightarrow> pixel_at m3 r x y = loaded (bitCount im) (pixel_at m im x y)) \<and>
      (\<exists>zs. block (pixels m3) = (block (pixels m2))(data_at dst := None, data_at r \<mapsto> zs)) \<and>
      (\<exists>vs. block (hbytes m3) = (block (hbytes m2))(head_at dst := None, head_at r \<mapsto> vs)))"
proof -
  let ?w = "bwidth im" and ?h = "bheight im" and ?b = "bitCount im"
  obtain xs where fit: "fits ?w ?h" and xs: "block (pixels m) (data_at im) = Some xs" "?w * ?h \<le> int (length xs)"
    using assms(1) by (auto simp: live_data_def)
  have at: "pixel_at m im x y = xs ! nat (x + y * ?w)" for x y by (simp add: pixel_at_def xs)
  have off: "data_ofset im = int (length (header_of ?w ?h ?b))" using assms(6) by simp
  have col: "coloured ?b (xs ! nat (i + j * ?w))" if "in_image im i j" for i j
    using assms(7) [OF that] by (simp add: at)
  obtain ys im' m' where w: "\<And>i j. in_image im i j \<Longrightarrow>
      ys ! nat (i + j * ?w) = xs ! nat (i + (?h - 1 - j) * ?w)"
    "biWriteImage True im m = Inr (0, header_of ?w ?h ?b @ concat (map (\<lambda>k. pix_bytes ?b (ys ! nat k))
      [0..?w * ?h - 1]), im', m')"
    "\<And>k. 0 \<le> k \<Longrightarrow> k < ?w * ?h \<Longrightarrow> coloured ?b (ys ! nat k)"
    "\<forall>i j. in_image im i j \<longrightarrow> pixel_at m' im' i j = pixel_at m im i j"
    "im' = im\<lparr>data_at := data_at im'\<rparr>" "hbytes m' = hbytes m"
    "\<exists>zs. block (pixels m') = (block (pixels m))(data_at im := None, data_at im' \<mapsto> zs)"
    using biWriteImage_ok [OF fit xs assms(5) off col] by blast
  have "?b < 2 ^ 16" "0 \<le> ?b" using assms(4) by auto
  then obtain r m3 zs vs where r: "biLoadImage (Some (header_of ?w ?h ?b @ concat (map (\<lambda>k. pix_bytes ?b (ys ! nat k))
      [0..?w * ?h - 1]))) dst m2 = Inr (0, r, m3)" "bwidth r = ?w" "bheight r = ?h" "bitCount r = ?b"
    "\<forall>i j. in_image r i j \<longrightarrow> pixel_at m3 r i j = loaded ?b (ys ! nat (i + (?h - 1 - j) * ?w))"
    "block (pixels m3) = (block (pixels m2))(data_at dst := None, data_at r \<mapsto> zs)"
    "block (hbytes m3) = (block (hbytes m2))(head_at dst := None, head_at r \<mapsto> vs)"
    using biLoadImage_ok [OF assms(8) fit assms(2,3), of ?b "\<lambda>k. ys ! nat k", OF _ _ w(3)] by blast
  have "pixel_at m3 r i j = loaded ?b (pixel_at m im i j)" if "in_image im i j" for i j
  proof -
    have "in_image r i j" "in_image im i (?h - 1 - j)" using that r(2,3) by (simp_all add: in_image_def)
    then show ?thesis using r(5) w(1) [of i "?h - 1 - j"] by (simp add: at)
  qed
  then show ?thesis using w(2,4-7) r(1-4,6,7) by blast
qed

text \<open>A 3 by 2 image whose pixels are numbered.\<close>

definition num_data :: "int \<Rightarrow> idata" where
  "num_data k = zero_data\<lparr>rgbBlue := Some (word_of_int k), rgbGreen := Some 7\<rparr>"

definition num_mem :: legacy_mem where
  "num_mem = \<lparr>pixels = [Some (map num_data [0, 1, 2, 3, 4, 5])], hbytes = [Some (map Some (header_of 3 2 24))]\<rparr>"

definition num_img :: IMAGE where
  "num_img = \<lparr>file_size = 0, data_ofset = 54, bwidth = 3, bheight = 2, bitCount = 24, head_at = 1, data_at = 1\<rparr>"

lemma num_blocks:
  "block (pixels num_mem) (Suc 0) = Some (map num_data [0, 1, 2, 3, 4, 5])"
  "block (hbytes num_mem) (Suc 0) = Some (map Some (header_of 3 2 24))"
  by (simp_all add: num_mem_def block_def NULL_def)

lemma num_facts:
  "bwidth num_img = 3" "bheight num_img = 2" "bitCount num_img = 24" "data_ofset num_img = 54"
  "head_at num_img = 1" "data_at num_img = 1" "in_image num_img x y \<longleftrightarrow> x \<in> {0, 1, 2} \<and> y \<in> {0, 1}"
  by (auto simp: num_img_def in_image_def)

lemma num_pixel: "in_image num_img x y \<Longrightarrow> pixel_at num_mem num_img x y = num_data (x + 3 * y)"
  by (auto simp: pixel_at_def num_blocks num_facts simp del: list.map)

lemma num_live: "live_data num_mem num_img" "live_head num_mem num_img" "releasable num_mem num_img"
  by (simp_all add: live_data_def live_head_def releasable_def num_blocks num_facts fits_def)

theorem legacy_roundtrip_witness:
  "\<exists>bs im' m'. biWriteImage True num_img num_mem = Inr (0, bs, im', m') \<and>
     (\<exists>r m3. biLoadImage (Some bs) biInitImage num_mem = Inr (0, r, m3) \<and>
       pixel_at m3 r 1 1 = loaded 24 (num_data 4))"
proof -
  have "live_data num_mem num_img" "0 < bwidth num_img" "0 < bheight num_img"
    "bitCount num_img = 24 \<or> bitCount num_img = 32" "data_ofset num_img = 54"
    and hd: "block (hbytes num_mem) (head_at num_img) =
      Some (map Some (header_of (bwidth num_img) (bheight num_img) (bitCount num_img)) @ [])"
    by (simp_all add: num_live num_facts num_blocks)
  moreover have "coloured (bitCount num_img) (pixel_at num_mem num_img x y)" if "in_image num_img x y" for x y
    using that by (simp add: num_pixel num_facts(3) coloured_def num_data_def zero_data_def)
  moreover have "releasable num_mem biInitImage" by (simp add: releasable_def biInitImage_def)
  moreover have "in_image num_img 1 1" "pixel_at num_mem num_img 1 1 = num_data 4"
    using num_pixel [of 1 1] by (simp_all add: num_facts)
  ultimately show ?thesis
    using legacy_roundtrip [OF _ _ _ _ hd, of num_mem biInitImage] by (fastforce simp: num_facts(3))
qed

text \<open>The witnesses of the copies: a second, larger image with a header of one byte.\<close>

definition two_mem :: legacy_mem where
  "two_mem = num_mem\<lparr>pixels := pixels num_mem @ [Some (replicate 16 zero_data)], hbytes := hbytes num_mem @ [Some [None]]\<rparr>"

definition big_img :: IMAGE where
  "big_img = num_img\<lparr>data_ofset := 1, bwidth := 4, bheight := 4, head_at := 2, data_at := 2\<rparr>"

lemma two_blocks:
  "block (pixels two_mem) (Suc 0) = Some (map num_data [0, 1, 2, 3, 4, 5])"
  "block (hbytes two_mem) (Suc 0) = Some (map Some (header_of 3 2 24))"
  "block (pixels two_mem) 2 = Some (replicate 16 zero_data)" "block (hbytes two_mem) 2 = Some [None]"
  by (simp_all add: two_mem_def num_mem_def block_def NULL_def)

lemma two_live: "live_data two_mem num_img" "live_head two_mem num_img" "live_data two_mem big_img"
  by (simp_all add: live_data_def live_head_def two_blocks num_facts fits_def big_img_def)

theorem biCopyImage_deep_witness:
  "\<exists>r m'. biCopyImage biInitImage num_img num_mem = Inr (r, m') \<and> pixel_at m' r 2 1 = num_data 5 \<and>
     block (pixels m') 1 = block (pixels num_mem) 1"
proof -
  have "releasable num_mem biInitImage" "data_at biInitImage \<noteq> data_at num_img"
    "head_at biInitImage \<noteq> head_at num_img" "new_blocks biInitImage num_img"
    by (simp_all add: releasable_def biInitImage_def num_facts NULL_def new_blocks_def)
  moreover have "in_image num_img 2 1" "pixel_at num_mem num_img 2 1 = num_data 5"
    using num_pixel [of 2 1] by (simp_all add: num_facts)
  ultimately show ?thesis
    using biCopyImage_deep [OF num_live(1,2), of biInitImage] by (fastforce simp: num_facts)
qed

theorem biCopyImage_overrun_witness: "biCopyImage big_img num_img two_mem = Inl OutOfBounds"
  by (rule biCopyImage_overrun [where hs = "map Some (header_of 3 2 24)" and bs = "[None]"])
    (simp_all add: big_img_def num_facts new_blocks_def NULL_def two_blocks [simplified])

theorem paste_cut_witness:
  "\<exists>m' r m2. biPasteImage big_img 1 2 num_img two_mem = Inr m' \<and>
     biCutImage big_img \<lparr>rc_top = 2, rc_left = 1, rc_right = 4, rc_bottom = 4\<rparr> m' = Inr (r, m2) \<and>
     pixel_at m2 r 2 1 = num_data 5"
proof -
  have "in_image num_img 2 1" "pixel_at two_mem num_img 2 1 = num_data 5"
    by (simp_all add: num_facts pixel_at_def two_blocks)
  moreover have "data_at big_img \<noteq> data_at num_img" "1 + bwidth num_img \<le> bwidth big_img"
    "2 + bheight num_img \<le> bheight big_img" by (simp_all add: big_img_def num_facts)
  ultimately show ?thesis
    using paste_cut [OF two_live(3,1), of 1 2] by (fastforce simp: num_facts)
qed

end
