(* ===== verification/Wavelets.thy ===== *)
theory Wavelets
  imports LegacyImage
begin

text \<open>
  The Gabor wavelets (\<open>src/wavelet.cpp\<close>, \<open>src/WaveletClass.cpp\<close>, \<open>src/FeatureClass.cpp\<close>): the
  wavelet function, its convolution with an image of the older library, the class that keeps a
  sampled wavelet in \<open>malloc\<close>ed memory, and the features that are vectors of such objects.
  \<open>long double\<close> is the double of the compiler. Parameters are the functions of the C library
  and \<open>chan\<close>, the macros \<open>GRAY\<close>, \<open>R\<close>, \<open>Y\<close> and so on, which the repository does not define.
\<close>

subsection \<open>The wavelet function\<close>

record libm =
  m_cos :: "cfloat \<Rightarrow> cfloat"
  m_sin :: "cfloat \<Rightarrow> cfloat"
  m_exp :: "cfloat \<Rightarrow> cfloat"
  m_pow :: "cfloat \<Rightarrow> cfloat \<Rightarrow> cfloat"

record gw_arg =
  g_rad :: cfloat
  g_j :: cfloat
  g_a :: cfloat
  g_u :: cfloat
  g_sigma :: cfloat

record comp_num =
  Real :: cfloat
  Imaginary :: cfloat

definition PI :: cfloat where
  "PI = lit (31415926535897932384 / 10000000000000000000)"

abbreviation mul :: "cfloat \<Rightarrow> cfloat \<Rightarrow> cfloat" where
  "mul \<equiv> fp_mul F64"

abbreviation add :: "cfloat \<Rightarrow> cfloat \<Rightarrow> cfloat" where
  "add \<equiv> fp_add F64"

definition gw :: "libm \<Rightarrow> cfloat \<Rightarrow> cfloat \<Rightarrow> gw_arg \<Rightarrow> comp_num" where
  "gw M x y arg =
     (let t = mul (mul (mul (Fin 2) (g_a arg)) (g_j arg)) (g_sigma arg);
          pre3 = mul t t;
          pre2 = fp_div F64 (mul (g_u arg) (add (mul x (m_cos M (g_rad arg))) (mul y (m_sin M (g_rad arg)))))
            (mul (g_a arg) (g_j arg));
          pre = fp_div F64 (m_exp M (fp_div F64 (fp_neg (add (mul x x) (mul y y))) pre3))
            (mul (mul (mul (mul (mul (mul (Fin 4) PI) (g_a arg)) (g_a arg)) (g_j arg)) (g_j arg)) (g_sigma arg))
      in \<lparr>Real = mul pre (fp_sub F64 (m_cos M pre2)
              (m_exp M (mul (Fin (- 1)) (m_pow M (mul (g_u arg) (g_sigma arg)) (Fin 2))))),
          Imaginary = mul pre (m_sin M pre2)\<rparr>)"

subsection \<open>The convolution with an image\<close>

text \<open>
  The values of \<open>for(v = lo; v <= hi; v += step)\<close>, by fuel: with a step of zero or NaN the
  loop of the code does not end.
\<close>

fun float_loop :: "nat \<Rightarrow> cfloat \<Rightarrow> cfloat \<Rightarrow> cfloat \<Rightarrow> cfloat list res" where
  "float_loop 0 v step hi = Inl Hang"
| "float_loop (Suc n) v step hi = (if fp_le v hi
     then rbind (float_loop n (add v step) step hi) (\<lambda>vs. Inr (v # vs)) else Inr [])"

definition add_gray :: "byte \<Rightarrow> comp_num \<Rightarrow> comp_num \<Rightarrow> comp_num" where
  "add_gray g num acc =
     \<lparr>Real = add (Real acc) (mul (fp_of_int F64 (uint g)) (Real num)),
      Imaginary = add (Imaginary acc) (mul (fp_of_int F64 (uint g)) (Imaginary num))\<rparr>"

definition conv_cell :: "libm \<Rightarrow> IMAGE \<Rightarrow> int \<Rightarrow> gw_arg \<Rightarrow> idata cheap \<Rightarrow> cfloat \<times> cfloat \<Rightarrow> comp_num \<Rightarrow> comp_num res" where
  "conv_cell M im pos arg ph = (\<lambda>(i, j) acc.
     let my_pos = fp_to_int (add i (mul j (fp_of_int F64 (bwidth im)))) in
     if s32 (pos + my_pos) < 0 \<or> s32 (pos + my_pos) > s32 (bwidth im * bheight im) then Inr acc
     else rbind (peek (data_at im) (s32 (pos + my_pos)) ph) (\<lambda>d. rbind (fld (graylevel d)) (\<lambda>g.
       Inr (add_gray g (gw M i j arg) acc))))"

definition convolution :: "nat \<Rightarrow> libm \<Rightarrow> IMAGE \<Rightarrow> int \<Rightarrow> int \<Rightarrow> gw_arg \<Rightarrow> idata cheap \<Rightarrow> comp_num res" where
  "convolution fuel M im x y arg ph =
     (let w_size = mul (Fin 15) (g_j arg) in
      rbind (float_loop fuel (fp_neg w_size) (g_j arg) w_size) (\<lambda>vs.
      foldM (conv_cell M im (s32 (x + s32 (y * bwidth im))) arg ph)
        (concat (map (\<lambda>j. map (\<lambda>i. (i, j)) vs) vs)) \<lparr>Real = Fin 0, Imaginary = Fin 0\<rparr>))"

subsection \<open>The sampled wavelet\<close>

datatype color_type = MONO | RGB_R | RGB_G | RGB_B | YIQ_Y | YIQ_I | YIQ_Q

type_synonym waves = "comp_num option cheap"

text \<open>A local object has \<open>wave\<close> unset; the constructor sets it before it is used.\<close>

record wavelet =
  v_mx :: int
  v_my :: int
  v_num :: "comp_num option"
  v_arg :: gw_arg
  v_wsize :: int
  v_size :: cfloat
  v_wave :: "ptr option"
  v_sampling :: int
  v_type :: color_type

text \<open>\<open>n\<close> times \<open>v += step\<close>.\<close>

definition advance :: "cfloat \<Rightarrow> cfloat \<Rightarrow> nat \<Rightarrow> cfloat" where
  "advance v step n = ((\<lambda>v. add v step) ^^ n) v"

definition sample_cell :: "libm \<Rightarrow> wavelet \<Rightarrow> ptr \<Rightarrow> int \<times> int \<Rightarrow> waves \<Rightarrow> waves res" where
  "sample_cell M v p = (\<lambda>(k, l). poke p (k + l * v_sampling v)
     (Some (gw M (advance (fp_neg (v_size v)) (g_j (v_arg v)) (nat k))
       (advance (fp_neg (v_size v)) (g_j (v_arg v)) (nat l)) (v_arg v))))"

definition Create :: "libm \<Rightarrow> wavelet \<times> waves \<Rightarrow> (wavelet \<times> waves) res" where
  "Create M = (\<lambda>(v, h). let (p, h) = malloc (nat (v_sampling v * v_sampling v)) None h in
     rbind (foldM (sample_cell M v p) (raster (v_wsize v * 2 + 1) (v_wsize v * 2 + 1)) h) (\<lambda>h.
     Inr (v\<lparr>v_wave := Some p\<rparr>, h)))"

definition remake :: "libm \<Rightarrow> wavelet \<times> waves \<Rightarrow> (wavelet \<times> waves) res" where
  "remake M = (\<lambda>(v, h). rbind (fld (v_wave v)) (\<lambda>p. rbind (mem_free p h) (\<lambda>h. Create M (v, h))))"

definition Size :: "libm \<Rightarrow> cfloat \<Rightarrow> wavelet \<times> waves \<Rightarrow> (wavelet \<times> waves) res" where
  "Size M val = (\<lambda>(v, h). remake M (v\<lparr>v_arg := (v_arg v)\<lparr>g_j := val\<rparr>,
     v_size := mul (fp_of_int F64 (v_wsize v)) val, v_sampling := v_wsize v * 2 + 1\<rparr>, h))"

definition Angle :: "libm \<Rightarrow> int \<Rightarrow> wavelet \<times> waves \<Rightarrow> (wavelet \<times> waves) res" where
  "Angle M deg = (\<lambda>(v, h). remake M (v\<lparr>v_arg := (v_arg v)\<lparr>g_rad :=
     mul (fp_div F64 PI (Fin 180)) (fp_of_int F64 deg)\<rparr>, v_sampling := v_wsize v * 2 + 1\<rparr>, h))"

definition Pos :: "int \<Rightarrow> int \<Rightarrow> wavelet \<Rightarrow> wavelet" where
  "Pos x y v = v\<lparr>v_mx := x, v_my := y\<rparr>"

definition Type :: "color_type \<Rightarrow> wavelet \<Rightarrow> wavelet" where
  "Type t v = v\<lparr>v_type := t\<rparr>"

definition Get :: "wavelet \<Rightarrow> cfloat res" where
  "Get v = rbind (fld (v_num v)) (\<lambda>c. Inr (Real c))"

definition Delete :: "wavelet \<times> waves \<Rightarrow> (wavelet \<times> waves) res" where
  "Delete = (\<lambda>(v, h). rbind (fld (v_wave v)) (\<lambda>p. rbind (mem_free p h) (\<lambda>h. Inr (v, h))))"

text \<open>
  The constructor computes \<open>sampling\<close> from \<open>w_size\<close> before that is set; \<open>Size\<close> computes it
  again, so the value is never used and is 0 here.
\<close>

definition Wavelet :: "libm \<Rightarrow> waves \<Rightarrow> (wavelet \<times> waves) res" where
  "Wavelet M h = Size M (Fin 1) (\<lparr>v_mx = 0, v_my = 0, v_num = None,
     v_arg = \<lparr>g_rad = Fin 0, g_j = Fin 1, g_a = lit (25 / 10), g_u = PI, g_sigma = Fin 1\<rparr>,
     v_wsize = 15, v_size = Fin 0, v_wave = Some NULL, v_sampling = 0, v_type = MONO\<rparr>, h)"

text \<open>The copy constructor releases the \<open>wave\<close> of the new object, which nothing has set.\<close>

definition Wavelet_copy :: "libm \<Rightarrow> wavelet \<Rightarrow> waves \<Rightarrow> (wavelet \<times> waves) res" where
  "Wavelet_copy M v h = (let wave = (None :: ptr option) in
     rbind (fld wave) (\<lambda>p. rbind (mem_free p h) (\<lambda>h. Create M (v, h))))"

definition apply_cell :: "(color_type \<Rightarrow> pixel \<Rightarrow> cfloat) \<Rightarrow> wavelet \<Rightarrow> bi_image \<Rightarrow> waves \<Rightarrow>
    int \<times> int \<Rightarrow> comp_num \<Rightarrow> comp_num res" where
  "apply_cell chan v im h = (\<lambda>(i, j) num.
     if s32 (v_mx v + i) < 0 \<or> s32 (v_my v + j) < 0 \<or> s32 (v_mx v + i) \<ge> width im \<or> s32 (v_my v + j) \<ge> height im
     then Inr num
     else rbind (fld (v_wave v)) (\<lambda>p.
       rbind (peek p ((v_wsize v + i) + (v_wsize v + j) * v_sampling v) h) (\<lambda>c. rbind (fld c) (\<lambda>temp.
       rbind (BiImage.Get im (s32 (v_mx v + i)) (s32 (v_my v + j))) (\<lambda>q.
       Inr \<lparr>Real = add (Real num) (mul (chan (v_type v) q) (Real temp)),
         Imaginary = add (Imaginary num) (mul (chan (v_type v) q) (Imaginary temp))\<rparr>)))))"

definition wavelet_mul :: "(color_type \<Rightarrow> pixel \<Rightarrow> cfloat) \<Rightarrow> bi_image \<Rightarrow> wavelet \<times> waves \<Rightarrow> (cfloat \<times> wavelet) res" where
  "wavelet_mul chan im = (\<lambda>(v, h).
     rbind (foldM (apply_cell chan v im h)
       (concat (map (\<lambda>j. map (\<lambda>i. (i, j)) [- v_wsize v..v_wsize v]) [- v_wsize v..v_wsize v]))
       \<lparr>Real = Fin 0, Imaginary = Fin 0\<rparr>) (\<lambda>num. Inr (Real num, v\<lparr>v_num := Some num\<rparr>)))"

subsection \<open>Features\<close>

record feature =
  f_mx :: int
  f_my :: int
  f_num :: cfloat
  jet :: "wavelet list"
  f_size :: int

definition Feature :: feature where
  "Feature = \<lparr>f_mx = 0, f_my = 0, f_num = Fin 0, jet = [], f_size = 0\<rparr>"

definition Pos_f :: "int \<Rightarrow> int \<Rightarrow> feature \<Rightarrow> feature" where
  "Pos_f x y f = f\<lparr>f_mx := x, f_my := y, jet := map (Pos x y) (jet f)\<rparr>"

text \<open>
  \<open>size++\<close> counts up the parameter, which hides the member of that name. \<open>push_back\<close> copies the
  object into the vector.
\<close>

definition AddFeature :: "libm \<Rightarrow> cfloat \<Rightarrow> int \<Rightarrow> color_type \<Rightarrow> feature \<times> waves \<Rightarrow> (feature \<times> waves) res" where
  "AddFeature M sz deg t = (\<lambda>(f, h).
     rbind (Wavelet M h) (\<lambda>st. rbind (Size M sz st) (\<lambda>st. rbind (Angle M deg st) (\<lambda>(v, h).
     let v = Pos (f_mx f) (f_my f) (Type t v) in
     rbind (Wavelet_copy M v h) (\<lambda>(v, h). Inr (f\<lparr>jet := jet f @ [v]\<rparr>, h))))))"

definition Size_f :: "feature \<Rightarrow> int" where
  "Size_f f = f_size f"

definition feature_mul :: "(color_type \<Rightarrow> pixel \<Rightarrow> cfloat) \<Rightarrow> bi_image \<Rightarrow> feature \<times> waves \<Rightarrow> (cfloat \<times> feature) res" where
  "feature_mul chan im = (\<lambda>(f, h).
     rbind (foldM (\<lambda>v (num, vs). rbind (wavelet_mul chan im (v, h)) (\<lambda>(r, v). Inr (add num r, vs @ [v])))
       (jet f) (Fin 0, [])) (\<lambda>(num, vs).
     let num = fp_div F64 num (fp_of_int F64 (int (length (jet f))))
     in Inr (num, f\<lparr>f_num := num, jet := vs\<rparr>)))"

definition Delete_f :: "feature \<times> waves \<Rightarrow> (feature \<times> waves) res" where
  "Delete_f = (\<lambda>(f, h). rbind (foldM (\<lambda>v h. rbind (Delete (v, h)) (\<lambda>(v, h). Inr h)) (jet f) h)
     (\<lambda>h. Inr (f\<lparr>jet := []\<rparr>, h)))"

subsection \<open>The window of the convolution\<close>

lemma fp_int:
  "\<bar>n\<bar> < 2 ^ 53 \<Longrightarrow> fp_round F64 (of_int n) = Fin (of_int n)"
  by (rule fp_round_int) simp_all

lemma float_loop_ints:
  assumes "nat (b - a + 1) < n" "\<bar>a\<bar> \<le> 2 ^ 31" "\<bar>b\<bar> < 2 ^ 31"
  shows "float_loop n (Fin (of_int a)) (Fin 1) (Fin (of_int b)) = Inr (map (\<lambda>k. Fin (of_int k)) [a..b])"
  using assms
proof (induction n arbitrary: a)
  case (Suc n)
  have le: "fp_le (Fin (of_int a)) (Fin (of_int b)) \<longleftrightarrow> a \<le> b"
    by (auto simp: fp_le_def fp_eq_def)
  show ?case
  proof (cases "a \<le> b")
    case True
    have "add (Fin (of_int a)) (Fin 1) = Fin (of_int (a + 1))"
      using fp_int [of "a + 1"] Suc.prems by simp
    moreover have "float_loop n (Fin (of_int (a + 1))) (Fin 1) (Fin (of_int b)) =
        Inr (map (\<lambda>k. Fin (of_int k)) [a + 1..b])"
      using Suc.prems True by (intro Suc.IH) auto
    ultimately show ?thesis using True le by (simp add: upto_rec1)
  qed (simp add: le)
qed simp

text \<open>A cell of the window at integer offsets.\<close>

lemma conv_cell_int:
  assumes "0 < bwidth im" "0 < bheight im" "bwidth im * bheight im < 2 ^ 24"
    and "\<bar>i\<bar> \<le> 15" "\<bar>j\<bar> \<le> 15" "0 \<le> pos" "pos < 2 ^ 24"
  shows "conv_cell M im pos arg ph (Fin (of_int i), Fin (of_int j)) acc =
    (if pos + (i + j * bwidth im) < 0 \<or> pos + (i + j * bwidth im) > bwidth im * bheight im then Inr acc
     else rbind (peek (data_at im) (pos + (i + j * bwidth im)) ph) (\<lambda>d. rbind (fld (graylevel d)) (\<lambda>g.
       Inr (add_gray g (gw M (Fin (of_int i)) (Fin (of_int j)) arg) acc))))"
proof -
  let ?w = "bwidth im" and ?h = "bheight im"
  have "?w * 1 \<le> ?w * ?h" using assms(1,2) by (intro mult_left_mono) auto
  then have w: "?w < 2 ^ 24" using assms(3) by simp
  have "\<bar>j * ?w\<bar> = \<bar>j\<bar> * ?w" using assms(1) by (simp add: abs_mult)
  also have "\<dots> \<le> 15 * ?w" using assms(1,5) by (intro mult_right_mono) auto
  finally have jw: "\<bar>j * ?w\<bar> \<le> 15 * 2 ^ 24" using w by simp
  have f: "fp_of_int F64 ?w = Fin (of_int ?w)" using w assms(1) by (intro fp_of_int_Fin) simp
  have g: "mul (Fin (of_int j)) (Fin (of_int ?w)) = Fin (of_int (j * ?w))"
    using fp_int [of "j * ?w"] jw by simp
  have a: "add (Fin (of_int i)) (Fin (of_int (j * ?w))) = Fin (of_int (i + j * ?w))"
    using fp_int [of "i + j * ?w"] jw assms(4) by simp
  have "int32 (i + j * ?w)" using jw assms(4) by (intro int32_abs) simp
  then have m: "fp_to_int (add (Fin (of_int i)) (mul (Fin (of_int j)) (fp_of_int F64 ?w))) = i + j * ?w"
    unfolding f g a by (rule fp_to_int_of_int)
  have p: "s32 (pos + (i + j * ?w)) = pos + (i + j * ?w)"
    using jw assms(4,6,7) by (intro s32_id int32_abs) simp
  have s: "s32 (?w * ?h) = ?w * ?h"
  proof (intro s32_id int32_abs)
    have "0 < ?w * ?h" using assms(1,2) by simp
    then show "\<bar>?w * ?h\<bar> < 2 ^ 31" using assms(3) by simp
  qed
  show ?thesis unfolding conv_cell_def by (simp only: prod.case m Let_def p s)
qed

text \<open>The pairs of the two loops.\<close>

lemma window_pairs:
  "c \<in> set (concat (map (\<lambda>j. map (\<lambda>i. (i, j)) (map f [a..b])) (map f [a..b]))) \<longleftrightarrow>
     (\<exists>j \<in> {a..b}. \<exists>i \<in> {a..b}. c = (f i, f j))"
  by (simp add: image_iff)

text \<open>
  The test that keeps the window of the convolution in the image lets one index too many
  through. At every pixel in the lower left corner, at most 15 columns from the left edge and
  15 rows from the bottom, the convolution of scale one reads the pixel behind the last one.
\<close>

theorem convolution_reads_past:
  assumes "0 < bwidth im" "0 < bheight im" "bwidth im * bheight im < 2 ^ 24"
    and "block ph (data_at im) = Some xs" "int (length xs) = bwidth im * bheight im"
    and "list_all (\<lambda>d. graylevel d \<noteq> None) xs"
    and "0 \<le> x" "x < bwidth im" "x \<le> 15" "0 \<le> y" "y < bheight im" "bheight im - y \<le> 15"
    and "g_j arg = Fin 1" "31 < fuel"
  shows "convolution fuel M im x y arg ph = Inl OutOfBounds"
proof -
  let ?w = "bwidth im" and ?h = "bheight im"
  let ?pos = "x + y * ?w" and ?vs = "map (\<lambda>k. Fin (of_int k)) [- 15..15 :: int]"
  have pos: "0 \<le> ?pos" "?pos < ?w * ?h" using index_less [OF assms(7,8,10,11)] by simp_all
  have yw: "0 \<le> y * ?w" "y * ?w < 2 ^ 24" using pos(2) assms(1,3,7,10) by auto
  have s: "s32 (x + s32 (y * ?w)) = ?pos" using pos yw assms(3) by (simp add: int32_def)
  have "mul (Fin 15) (Fin 1) = Fin (of_int 15)" using fp_int [of 15] by simp
  then have loop: "float_loop fuel (fp_neg (mul (Fin 15) (g_j arg))) (g_j arg) (mul (Fin 15) (g_j arg)) = Inr ?vs"
    using float_loop_ints [of 15 "- 15" fuel] assms(13,14) by simp
  have cell: "(\<exists>t. conv_cell M im ?pos arg ph (Fin (of_int i), Fin (of_int j)) acc = Inr t) \<or>
      conv_cell M im ?pos arg ph (Fin (of_int i), Fin (of_int j)) acc = Inl OutOfBounds"
    if "\<bar>i\<bar> \<le> 15" "\<bar>j\<bar> \<le> 15" for i j acc
  proof -
    let ?k = "?pos + (i + j * ?w)"
    have "\<exists>g. graylevel (xs ! nat ?k) = Some g" if "0 \<le> ?k" "?k < int (length xs)"
      using assms(6) that by (auto simp: list_all_length nat_less_iff)
    then show ?thesis
      using conv_cell_int [OF assms(1-3) that pos(1)] pos(2) assms(3,4)
      by (cases "0 \<le> ?k \<and> ?k < int (length xs)") (auto simp: hp.rd_live rdbuf_def)
  qed
  have "foldM (conv_cell M im ?pos arg ph) (concat (map (\<lambda>j. map (\<lambda>i. (i, j)) ?vs) ?vs)) z = Inl OutOfBounds" for z
  proof (rule foldM_error [where P = "\<lambda>_. True"])
    fix c acc assume "c \<in> set (concat (map (\<lambda>j. map (\<lambda>i. (i, j)) ?vs) ?vs))"
    then obtain i j where "c = (Fin (of_int i), Fin (of_int j))" "- 15 \<le> i" "i \<le> 15" "- 15 \<le> j" "j \<le> 15"
      unfolding window_pairs atLeastAtMost_iff Bex_def by blast
    moreover from this have "\<bar>i\<bar> \<le> 15" "\<bar>j\<bar> \<le> 15" by (simp_all add: abs_le_iff)
    ultimately show "(\<exists>t. conv_cell M im ?pos arg ph c acc = Inr t \<and> True) \<or>
        conv_cell M im ?pos arg ph c acc = Inl OutOfBounds" using cell by auto
  next
    let ?c = "(Fin (of_int (- x)), Fin (of_int (?h - y)))"
    have k: "?pos + (- x + (?h - y) * ?w) = ?w * ?h" by (simp add: algebra_simps)
    have b: "\<bar>- x\<bar> \<le> 15" "\<bar>?h - y\<bar> \<le> 15" using assms(7,9,11,12) by auto
    have "conv_cell M im ?pos arg ph ?c acc = Inl OutOfBounds" for acc
      using conv_cell_int [OF assms(1-3) b pos(1)] pos(2) assms(1-5) unfolding k
      by (simp add: hp.rd_live rdbuf_def)
    moreover have "?c \<in> set (concat (map (\<lambda>j. map (\<lambda>i. (i, j)) ?vs) ?vs))"
      unfolding window_pairs using b
      by (intro bexI [of _ "- x"] bexI [of _ "?h - y"] refl) (unfold atLeastAtMost_iff, linarith+)
    ultimately show "\<exists>c \<in> set (concat (map (\<lambda>j. map (\<lambda>i. (i, j)) ?vs) ?vs)). \<forall>acc. True \<longrightarrow>
        conv_cell M im ?pos arg ph c acc = Inl OutOfBounds" by blast
  qed simp
  then show ?thesis unfolding convolution_def Let_def s loop rbind_Inr .
qed

definition sample_arg :: gw_arg where
  "sample_arg = \<lparr>g_rad = Fin 0, g_j = Fin 1, g_a = Fin 2, g_u = PI, g_sigma = Fin 1\<rparr>"

theorem convolution_reads_past_witness:
  "convolution 40 \<lparr>m_cos = \<lambda>x. x, m_sin = \<lambda>x. x, m_exp = \<lambda>x. x, m_pow = \<lambda>x y. x\<rparr>
     \<lparr>file_size = 0, data_ofset = 54, bwidth = 2, bheight = 1, bitCount = 24, head_at = NULL, data_at = 1\<rparr>
     1 0 sample_arg [Some [zero_data, zero_data]] = Inl OutOfBounds"
  by (rule convolution_reads_past [where xs = "[zero_data, zero_data]"])
    (simp_all add: sample_arg_def zero_data_def block_def NULL_def)

subsection \<open>The sampled wavelet is complete\<close>

definition sampled :: "wavelet \<Rightarrow> bool" where
  "sampled v \<longleftrightarrow> v_wsize v = 15 \<and> v_sampling v = 31"

definition full :: "waves \<Rightarrow> ptr \<Rightarrow> bool" where
  "full h p \<longleftrightarrow> (\<exists>cs. block h p = Some cs \<and> length cs = 961 \<and> list_all (\<lambda>c. c \<noteq> None) cs)"

lemma wave_Create_ok:
  assumes "sampled v"
  shows "\<exists>p h'. Create M (v, h) = Inr (v\<lparr>v_wave := Some p\<rparr>, h') \<and> p \<noteq> NULL \<and> full h' p \<and>
    (\<forall>q. q \<noteq> p \<longrightarrow> block h' q = block h q)"
proof -
  obtain p h1 where p: "malloc 961 (None :: comp_num option) h = (p, h1)" "p \<noteq> NULL"
    "block h1 = (block h)(p \<mapsto> replicate 961 None)" by (rule hp.newE)
  let ?xs = "raster 31 31" and ?ix = "\<lambda>(k, l). k + l * 31 :: int"
  have "\<exists>t zs. foldM (sample_cell M v p) ?xs h1 = Inr t \<and> block t = (block h1)(p \<mapsto> zs) \<and> length zs = 961 \<and>
    (\<forall>c \<in> set ?xs. zs ! nat (?ix c) = Some (gw M (advance (fp_neg (v_size v)) (g_j (v_arg v)) (nat (fst c)))
       (advance (fp_neg (v_size v)) (g_j (v_arg v)) (nat (snd c))) (v_arg v)))"
  proof -
    have d: "distinct (map ?ix ?xs)"
    proof -
      have "inj_on ?ix (set ?xs)"
      proof (rule inj_onI)
        fix a b assume a: "a \<in> set ?xs" and b: "b \<in> set ?xs" and eq: "?ix a = ?ix b"
        obtain k l k' l' where c: "a = (k, l)" "b = (k', l')" by (cases a, cases b)
        have "0 \<le> k" "k < 31" "0 \<le> l" "0 \<le> k'" "k' < 31" "0 \<le> l'"
          using a b unfolding c set_raster by simp_all
        then show "a = b" using index_inj [of k 31 l k' l'] eq by (simp add: c)
      qed
      then show ?thesis by (simp add: distinct_map distinct_raster)
    qed
    have b1: "block h1 p = Some (replicate 961 None)" by (simp add: p(3))
    let ?g = "\<lambda>c. Some (gw M (advance (fp_neg (v_size v)) (g_j (v_arg v)) (nat (fst c)))
      (advance (fp_neg (v_size v)) (g_j (v_arg v)) (nat (snd c))) (v_arg v))"
    have "\<exists>t zs. foldM (sample_cell M v p) ?xs h1 = Inr t \<and> block t = (block h1)(p \<mapsto> zs) \<and>
        length zs = length (replicate 961 (None :: comp_num option)) \<and>
        (\<forall>c \<in> set ?xs. zs ! nat (?ix c) = ?g c) \<and>
        (\<forall>k < length (replicate 961 (None :: comp_num option)). int k \<notin> ?ix ` set ?xs \<longrightarrow>
          zs ! k = replicate 961 None ! k)"
      by (rule hp.sweep [OF b1 d]) (use assms in \<open>auto simp: set_raster sample_cell_def sampled_def\<close>)
    then show ?thesis unfolding length_replicate by blast
  qed
  then obtain t zs where t: "foldM (sample_cell M v p) ?xs h1 = Inr t" "block t = (block h1)(p \<mapsto> zs)"
    "length zs = 961" "\<And>c. c \<in> set ?xs \<Longrightarrow> zs ! nat (?ix c) \<noteq> None"
    by fastforce
  have "zs ! k \<noteq> None" if "k < 961" for k
  proof -
    have "(int k mod 31, int k div 31) \<in> set ?xs" using that by (auto simp: set_raster)
    from t(4) [OF this] show ?thesis by simp
  qed
  then have "full t p" using t(2,3) by (simp add: full_def list_all_length)
  then show ?thesis
    using assms p t(1,2) by (auto simp: Create_def sampled_def)
qed

lemma remake_ok:
  assumes "sampled v" "v_wave v = Some p" "p = NULL \<or> full h p"
  shows "\<exists>q h'. remake M (v, h) = Inr (v\<lparr>v_wave := Some q\<rparr>, h') \<and> full h' q"
proof -
  obtain h1 where "mem_free p h = Inr h1"
    using assms(3) hp.rel_live [of h p] by (cases "p = NULL") (auto simp: full_def mem_free_def)
  then show ?thesis using wave_Create_ok [OF assms(1), of M h1] assms(2) by (auto simp: remake_def)
qed

lemma Wavelet_ok: "\<exists>v h'. Wavelet M h = Inr (v, h') \<and> sampled v \<and> (\<exists>p. v_wave v = Some p \<and> full h' p)"
proof -
  let ?v = "\<lparr>v_mx = 0, v_my = 0, v_num = None,
     v_arg = \<lparr>g_rad = Fin 0, g_j = Fin 1, g_a = lit (25 / 10), g_u = PI, g_sigma = Fin 1\<rparr>,
     v_wsize = 15, v_size = mul (fp_of_int F64 15) (Fin 1), v_wave = Some NULL, v_sampling = 31, v_type = MONO\<rparr>"
  obtain q h' where "remake M (?v, h) = Inr (?v\<lparr>v_wave := Some q\<rparr>, h')" "full h' q"
    using remake_ok [of ?v NULL h M] by (auto simp: sampled_def)
  then show ?thesis by (auto simp: Wavelet_def Size_def sampled_def)
qed

lemma wave_Size_ok:
  assumes "sampled v" "v_wave v = Some p" "full h p"
  shows "\<exists>v' h'. Size M z (v, h) = Inr (v', h') \<and> sampled v' \<and> (\<exists>p. v_wave v' = Some p \<and> full h' p)"
proof -
  let ?v = "v\<lparr>v_arg := (v_arg v)\<lparr>g_j := z\<rparr>, v_size := mul (fp_of_int F64 (v_wsize v)) z, v_sampling := v_wsize v * 2 + 1\<rparr>"
  have "sampled ?v" using assms(1) by (simp add: sampled_def)
  with remake_ok [of ?v p h M] assms show ?thesis by (auto simp: Size_def sampled_def)
qed

lemma Angle_ok:
  assumes "sampled v" "v_wave v = Some p" "full h p"
  shows "\<exists>v' h'. Angle M a (v, h) = Inr (v', h') \<and> sampled v' \<and> (\<exists>p. v_wave v' = Some p \<and> full h' p)"
proof -
  let ?v = "v\<lparr>v_arg := (v_arg v)\<lparr>g_rad := mul (fp_div F64 PI (Fin 180)) (fp_of_int F64 a)\<rparr>, v_sampling := v_wsize v * 2 + 1\<rparr>"
  have "sampled ?v" using assms(1) by (simp add: sampled_def)
  with remake_ok [of ?v p h M] assms show ?thesis by (auto simp: Angle_def sampled_def)
qed

text \<open>
  C25: A wavelet can be made, scaled and turned, and multiplied with any image at any position:
  neither the samples nor the image is read outside, also where the window crosses the border.
  But no wavelet can be added to a feature, because the vector copies it and the copy
  constructor releases a pointer of the new object that nothing has set.
\<close>

theorem wavelet_usable_not_copied:
  assumes "wf_img im" "int32 (width im + 15)" "int32 (height im + 15)" "int32 x" "int32 y"
  shows "\<exists>v h1. rbind (Wavelet M h) (\<lambda>st. rbind (Size M z st) (Angle M a)) = Inr (v, h1) \<and>
    (\<exists>r v'. wavelet_mul chan im (Pos x y (Type t v), h1) = Inr (r, v')) \<and>
    AddFeature M z a t (f, h) = Inl Uninit"
proof -
  obtain v1 g1 p1 where 1: "Wavelet M h = Inr (v1, g1)" "sampled v1" "v_wave v1 = Some p1" "full g1 p1"
    using Wavelet_ok by blast
  obtain v2 g2 p2 where 2: "Size M z (v1, g1) = Inr (v2, g2)" "sampled v2" "v_wave v2 = Some p2" "full g2 p2"
    using wave_Size_ok [OF 1(2-4)] by blast
  obtain v h1 p where v: "Angle M a (v2, g2) = Inr (v, h1)" "sampled v" "v_wave v = Some p" "full h1 p"
    using Angle_ok [OF 2(2-4)] by blast
  obtain cs where cs: "block h1 p = Some cs" "length cs = 961" "\<And>k. k < 961 \<Longrightarrow> cs ! k \<noteq> None"
    using v(4) by (auto simp: full_def list_all_length)
  let ?v = "Pos x y (Type t v)"
  have "\<exists>num. foldM (apply_cell chan ?v im h1)
      (concat (map (\<lambda>j. map (\<lambda>i. (i, j)) [- 15..15]) [- 15..15])) \<lparr>Real = Fin 0, Imaginary = Fin 0\<rparr> = Inr num \<and> True"
  proof (rule foldM_invariant)
    fix c :: "int \<times> int" and num
    assume "c \<in> set (concat (map (\<lambda>j. map (\<lambda>i. (i, j)) [- 15..15]) [- 15..15]))"
    then obtain i j where c: "c = (i, j)" "- 15 \<le> i" "i \<le> 15" "- 15 \<le> j" "j \<le> 15" by auto
    let ?k = "(15 + i) + (15 + j) * 31"
    have k: "0 \<le> ?k" "?k < 961" using c(2-5) by simp_all
    obtain w where "cs ! nat ?k = Some w" using cs(3) [of "nat ?k"] k by (auto simp: nat_less_iff)
    then have rd: "peek p ?k h1 = Inr (Some w)" using cs(1,2) k by (simp add: hp.rd_live)
    have "\<exists>q. BiImage.Get im (s32 (x + i)) (s32 (y + j)) = Inr q"
      if "\<not> (s32 (x + i) < 0 \<or> s32 (y + j) < 0 \<or> s32 (x + i) \<ge> width im \<or> s32 (y + j) \<ge> height im)"
      using Get_shown [OF assms(1), of "s32 (x + i)" "s32 (y + j)"] that by (simp add: inside_def not_le not_less)
    then show "\<exists>num'. apply_cell chan ?v im h1 c num = Inr num' \<and> True"
      using v(2,3) rd by (auto simp: apply_cell_def c(1) Pos_def Type_def sampled_def)
  qed simp
  then have "\<exists>r v'. wavelet_mul chan im (?v, h1) = Inr (r, v')"
    using v(2) by (auto simp: wavelet_mul_def sampled_def Pos_def Type_def)
  moreover have "AddFeature M z a t (f, h) = Inl Uninit"
    by (simp add: AddFeature_def 1(1) 2(1) v(1) Let_def Wavelet_copy_def)
  moreover have "rbind (Wavelet M h) (\<lambda>st. rbind (Size M z st) (Angle M a)) = Inr (v, h1)"
    by (simp add: 1(1) 2(1) v(1))
  ultimately show ?thesis by blast
qed

theorem wavelet_usable_not_copied_witness:
  "\<forall>M. AddFeature M (Fin 1) 45 MONO (Feature, []) = Inl Uninit"
proof
  fix M
  show "AddFeature M (Fin 1) 45 MONO (Feature, []) = Inl Uninit"
    using wavelet_usable_not_copied [of sample_img 0 0 M "[]" "Fin 1" 45 "\<lambda>_ _. Fin 0" MONO Feature]
    by (auto simp: int32_def)
qed

text \<open>The feature of an image without a wavelet is zero divided by zero.\<close>

lemma empty_feature_nan: "jet f = [] \<Longrightarrow> feature_mul chan im (f, h) = Inr (NaN, f\<lparr>f_num := NaN, jet := []\<rparr>)"
  by (simp add: feature_mul_def fp_of_int_Fin [of 0, simplified])

end
