(* ===== verification/GraphClass.thy ===== *)
theory GraphClass
  imports Graph Wavelets
begin

text \<open>
  The graph class (\<open>src/GraphClass.cpp\<close>): a graph of the older library together with a feature
  that is evaluated at each of its points. The class keeps no memory of its own: points live in
  the heaps of \<open>Graph\<close>, wavelets in the heap of \<open>Wavelets\<close>.
\<close>

subsection \<open>The class\<close>

record graph_class =
  mgraph :: GRAPH
  mfeature :: feature
  gc_num :: "cfloat option"

text \<open>The members of a graph structure that \<open>InitGraph\<close> does not set stay unset.\<close>

definition raw_graph :: GRAPH where
  "raw_graph = \<lparr>name_len = 0, gname = None, count = 0, line_count = 0, pt_list = NULL, edge_list = NULL,
     feature = NULL, g_rc = None\<rparr>"

definition Graph0 :: graph_class where
  "Graph0 = \<lparr>mgraph = InitGraph raw_graph, mfeature = Feature, gc_num = None\<rparr>"

text \<open>
  The copy constructor passes its own graph to \<open>CopyGraph\<close>, which releases it first; nothing has
  set it. The size of the feature is that of the new object.
\<close>

definition Graph_copy :: "graph_class \<Rightarrow> graph_mem \<Rightarrow> (graph_class \<times> graph_mem) res" where
  "Graph_copy src m = (let own = (None :: GRAPH option) in
     rbind (fld own) (\<lambda>dst. rbind (CopyGraph dst (mgraph src) (Size_f Feature) m) (\<lambda>(g, m).
     Inr (Graph0\<lparr>mgraph := g\<rparr>, m))))"

definition Graph_delete :: "graph_class \<Rightarrow> graph_mem \<Rightarrow> graph_mem res" where
  "Graph_delete c m = rbind (DeleteGraph (mgraph c) m) (\<lambda>(_, m). Inr m)"

text \<open>The parameter is a copy of the argument, and the assignment copies its wavelets once more.\<close>

definition copy_jet :: "libm \<Rightarrow> feature \<times> waves \<Rightarrow> (feature \<times> waves) res" where
  "copy_jet M = (\<lambda>(f, h). rbind (foldM (\<lambda>v (vs, h). rbind (Wavelet_copy M v h) (\<lambda>(v, h). Inr (vs @ [v], h)))
     (jet f) ([], h)) (\<lambda>(vs, h). Inr (f\<lparr>jet := vs\<rparr>, h)))"

definition SetFeature :: "libm \<Rightarrow> feature \<Rightarrow> graph_class \<times> waves \<Rightarrow> (graph_class \<times> waves) res" where
  "SetFeature M f = (\<lambda>(c, h). rbind (copy_jet M (f, h)) (\<lambda>st. rbind (copy_jet M st) (\<lambda>(f, h).
     Inr (c\<lparr>mfeature := f\<rparr>, h))))"

definition AddPixel :: "int \<Rightarrow> int \<Rightarrow> graph_class \<times> graph_mem \<Rightarrow> (graph_class \<times> graph_mem) res" where
  "AddPixel x y = (\<lambda>(c, m). rbind (AddPixelGraph (mgraph c) (pt x y) m) (\<lambda>(g, m). Inr (c\<lparr>mgraph := g\<rparr>, m)))"

definition Size_g :: "cfloat \<Rightarrow> graph_class \<times> graph_mem \<Rightarrow> (graph_class \<times> graph_mem) res" where
  "Size_g r = (\<lambda>(c, m). rbind (ChangeRateGraph (mgraph c) r (mgraph c) (points m)) (\<lambda>ps. Inr (c, m\<lparr>points := ps\<rparr>)))"

definition Move_g :: "int \<Rightarrow> int \<Rightarrow> graph_class \<times> graph_mem \<Rightarrow> (graph_class \<times> graph_mem) res" where
  "Move_g x y = (\<lambda>(c, m). rbind (PointMoveGraph (mgraph c) (x, y) (points m)) (\<lambda>ps. Inr (c, m\<lparr>points := ps\<rparr>)))"

definition mul_point :: "(color_type \<Rightarrow> pixel \<Rightarrow> cfloat) \<Rightarrow> bi_image \<Rightarrow> GRAPH \<Rightarrow> POINT cheap \<Rightarrow> waves \<Rightarrow> int \<Rightarrow>
    cfloat \<times> feature \<Rightarrow> (cfloat \<times> feature) res" where
  "mul_point chan im g ps h i = (\<lambda>(num, f). rbind (read_pt (pt_list g) i ps) (\<lambda>(x, y).
     rbind (feature_mul chan im (Pos_f x y f, h)) (\<lambda>(v, f). Inr (add num v, f))))"

definition graph_mul :: "(color_type \<Rightarrow> pixel \<Rightarrow> cfloat) \<Rightarrow> bi_image \<Rightarrow> POINT cheap \<Rightarrow> waves \<Rightarrow> graph_class \<Rightarrow>
    (cfloat \<times> graph_class) res" where
  "graph_mul chan im ps h c = rbind (foldM (mul_point chan im (mgraph c) ps h) [0..count (mgraph c) - 1]
     (Fin 0, mfeature c)) (\<lambda>(num, f). Inr (num, c\<lparr>mfeature := f, gc_num := Some num\<rparr>))"

definition Clear_g :: "graph_class \<times> graph_mem \<Rightarrow> (graph_class \<times> graph_mem) res" where
  "Clear_g = (\<lambda>(c, m). rbind (DeleteGraph (mgraph c) m) (\<lambda>(g, m). Inr (c\<lparr>mgraph := g\<rparr>, m)))"

subsection \<open>Features of a graph\<close>

text \<open>Neither a feature with a wavelet nor a graph can be copied.\<close>

lemma SetFeature_needs_empty: "SetFeature M f (c, h) = (if jet f = [] then Inr (c\<lparr>mfeature := f\<rparr>, h) else Inl Uninit)"
  by (cases "jet f") (auto simp: SetFeature_def copy_jet_def Wavelet_copy_def)

lemma Graph_copy_fails: "Graph_copy src m = Inl Uninit"
  by (simp add: Graph_copy_def)

lemma mul_points_nan:
  assumes "block ps (pt_list g) = Some (pts xys)" "n \<le> length xys" "jet f = []"
  shows "\<exists>f'. foldM (mul_point chan im g ps h) [0..int n - 1] (Fin 0, f) = Inr (if n = 0 then Fin 0 else NaN, f') \<and> jet f' = []"
  using assms(2)
proof (induction n)
  case (Suc n)
  then obtain f' where f': "foldM (mul_point chan im g ps h) [0..int n - 1] (Fin 0, f) = Inr (if n = 0 then Fin 0 else NaN, f')"
    "jet f' = []" by auto
  obtain x y where xy: "xys ! n = (x, y)" by fastforce
  have "read_pt (pt_list g) (int n) ps = Inr (x, y)"
    using read_pts [OF assms(1), of "int n"] Suc.prems xy by simp
  moreover have "jet (Pos_f x y f') = []" using f'(2) by (simp add: Pos_f_def)
  ultimately have "\<exists>f''. mul_point chan im g ps h (int n) (if n = 0 then Fin 0 else NaN, f') = Inr (NaN, f'') \<and> jet f'' = []"
    by (simp add: mul_point_def empty_feature_nan)
  moreover have "[0..int (Suc n) - 1] = [0..int n - 1] @ [int n]" using upto_rec2 [of 0 "int n"] by simp
  ultimately show ?case using f'(1) by (auto simp: foldM_append)
qed (use assms(3) in simp)

text \<open>
  The product of a graph and an image is never a number that depends on the image. The
  only features the class accepts are those without a wavelet, and with one of these every
  graph with a point gives NaN, one without points zero.
\<close>

theorem graph_product_blind:
  assumes "block ps (pt_list (mgraph c)) = Some (pts xys)" "count (mgraph c) = int (length xys)"
    and "SetFeature M f (c, h) = Inr (c', h')"
  shows "\<exists>c''. graph_mul chan im ps h' c' = Inr (if xys = [] then Fin 0 else NaN, c'')"
proof -
  have f: "jet f = []" "c' = c\<lparr>mfeature := f\<rparr>" using assms(3) by (auto simp: SetFeature_needs_empty split: if_splits)
  then show ?thesis
    using mul_points_nan [OF assms(1) _ f(1), of "length xys" chan im h'] assms(2) by (auto simp: graph_mul_def)
qed

theorem graph_product_blind_witness:
  "\<forall>M. \<exists>c. SetFeature M Feature (Graph0\<lparr>mgraph := raw_graph\<lparr>count := 1, pt_list := 1\<rparr>\<rparr>, []) = Inr (c, []) \<and>
     (\<exists>c'. graph_mul (\<lambda>_ _. Fin 1) sample_img [Some [pt 3 4]] [] c = Inr (NaN, c'))"
proof
  fix M
  let ?c = "Graph0\<lparr>mgraph := raw_graph\<lparr>count := 1, pt_list := 1\<rparr>\<rparr>"
  have s: "SetFeature M Feature (?c, []) = Inr (?c\<lparr>mfeature := Feature\<rparr>, [])"
    by (simp add: SetFeature_needs_empty Feature_def)
  have "block [Some [pt 3 4]] (pt_list (mgraph ?c)) = Some (pts [(3, 4)])" "count (mgraph ?c) = int (length [(3 :: int, 4 :: int)])"
    by (simp_all add: block_def NULL_def pts_def)
  from graph_product_blind [OF this s, of "\<lambda>_ _. Fin 1" sample_img] s
  show "\<exists>c. SetFeature M Feature (?c, []) = Inr (c, []) \<and>
     (\<exists>c'. graph_mul (\<lambda>_ _. Fin 1) sample_img [Some [pt 3 4]] [] c = Inr (NaN, c'))" by auto
qed

subsection \<open>Graphs of three points\<close>

text \<open>
  A graph that has been given three points can neither be scaled nor moved nor multiplied: the
  second point is unset.
\<close>

theorem three_points_unset:
  "\<exists>c m. rbind (AddPixel x1 y1 (Graph0, no_mem)) (\<lambda>st. rbind (AddPixel x2 y2 st) (AddPixel x3 y3)) = Inr (c, m) \<and>
     Size_g r (c, m) = Inl Uninit \<and> Move_g x y (c, m) = Inl Uninit \<and>
     graph_mul chan im (points m) h c = Inl Uninit"
proof -
  let ?g = "InitGraph raw_graph"
  have "\<exists>g' m'. add_points [pt x1 y1, pt x2 y2, pt x3 y3] (?g, no_mem) = Inr (g', m') \<and> count g' = 3 \<and>
      block (points m') (pt_list g') = Some [pt x1 y1, junk_pt, pt x3 y3]"
    using add_points_block [of ?g "[pt x1 y1, pt x2 y2, pt x3 y3]" no_mem] by (simp add: InitGraph_def)
  then obtain g' m' where g': "add_points [pt x1 y1, pt x2 y2, pt x3 y3] (?g, no_mem) = Inr (g', m')" "count g' = 3"
    "block (points m') (pt_list g') = Some [pt x1 y1, junk_pt, pt x3 y3]" by blast
  let ?c = "Graph0\<lparr>mgraph := g'\<rparr>"
  have "rbind (AddPixel x1 y1 (Graph0, no_mem)) (\<lambda>st. rbind (AddPixel x2 y2 st) (AddPixel x3 y3)) = Inr (?c, m')"
    using g'(1) by (auto simp: add_points_def AddPixel_def Graph0_def rbind_def split: sum.splits)
  moreover have rd: "read_pt (pt_list g') 0 ps = Inr (u, v)" "read_pt (pt_list g') 1 ps = Inl Uninit"
    if "block ps (pt_list g') = Some [pt u v, junk_pt, q]" for ps u v q
    using that by (simp_all add: read_pt_def hp.rd_live rdbuf_def pt_def junk_pt_def)
  have up: "[0..count g' - 1] = [0, 1, 2]" by (simp add: g'(2) upto.simps)
  have step: "rbind (poke (pt_list g') 0 (pt u v) (points m')) K = Inl Uninit"
    if "\<And>ps. read_pt (pt_list g') 1 ps = Inl Uninit \<Longrightarrow> K ps = Inl Uninit" for u v and K :: "POINT cheap \<Rightarrow> POINT cheap res"
  proof -
    obtain ps where "poke (pt_list g') 0 (pt u v) (points m') = Inr ps" "block ps (pt_list g') = Some [pt u v, junk_pt, pt x3 y3]"
      using hp.wr_live [OF g'(3), of 0 "pt u v"] by auto
    then show ?thesis using that [OF rd(2)] by simp
  qed
  have "ChangeRateGraph g' r g' (points m') = Inl Uninit"
    by (simp add: ChangeRateGraph_def up rd [OF g'(3)] rbind_assoc step)
  moreover have "shift_points g' dx dy (points m') = Inl Uninit" for dx dy
    by (simp add: shift_points_def up rd [OF g'(3)] rbind_assoc step)
  moreover have "graph_mul chan im (points m') h ?c = Inl Uninit"
    by (simp add: graph_mul_def Graph0_def up mul_point_def rd [OF g'(3)] empty_feature_nan Pos_f_def Feature_def)
  ultimately show ?thesis
    by (intro exI [of _ ?c] exI [of _ m']) (simp add: Size_g_def Move_g_def PointMoveGraph_def rd [OF g'(3)])
qed

end
