(* ===== verification/GraphFile.thy ===== *)
theory GraphFile
  imports Graph Wavelets
begin

text \<open>
  The files of the feature graphs (\<open>SaveGraphFile\<close> and \<open>LoadGraphFile\<close> of \<open>graph.cpp\<close>): the name,
  the points, the edges, and for each point the convolutions of the image with the wavelets of
  all scales and angles of a setting. \<open>dbl\<close> and \<open>undbl\<close> stand for the eight bytes in which the
  compiler keeps a \<open>long double\<close>.
\<close>

subsection \<open>The setting\<close>

record graph_set =
  j_start :: cfloat
  j_end :: cfloat
  j_plus :: cfloat
  rad_start :: cfloat
  rad_end :: cfloat
  rad_plus :: cfloat

definition angles :: "graph_set \<Rightarrow> int" where
  "angles st = fp_to_int (fp_div F64 (fp_sub F64 (rad_end st) (rad_start st)) (rad_plus st))"

definition scales :: "graph_set \<Rightarrow> int" where
  "scales st = fp_to_int (fp_div F64 (fp_sub F64 (j_end st) (j_start st)) (j_plus st))"

text \<open>The features of one point: the writer truncates both factors, the reader only the product.\<close>

definition save_width :: "graph_set \<Rightarrow> int" where
  "save_width st = s32 (scales st * angles st)"

definition load_width :: "graph_set \<Rightarrow> int" where
  "load_width st = fp_to_int (mul (fp_div F64 (fp_sub F64 (j_end st) (j_start st)) (j_plus st))
     (fp_of_int F64 (angles st)))"

definition arg_at :: "graph_set \<Rightarrow> gw_arg \<Rightarrow> int \<Rightarrow> int \<Rightarrow> gw_arg" where
  "arg_at st arg k l = arg\<lparr>g_j := advance (j_start st) (j_plus st) (nat k),
     g_rad := advance (rad_start st) (rad_plus st) (nat l)\<rparr>"

subsection \<open>Writing\<close>

definition c_strlen :: "byte list \<Rightarrow> int res" where
  "c_strlen s = (if list_ex (\<lambda>c. c = 0) s then Inr (int (length (takeWhile (\<lambda>c. c \<noteq> 0) s))) else Inl OutOfBounds)"

definition put_point :: "POINT \<Rightarrow> byte list res" where
  "put_point v = rbind (fld (pt_x v)) (\<lambda>x. rbind (fld (pt_y v)) (\<lambda>y. Inr (le 4 x @ le 4 y)))"

definition put_edge :: "EDGE \<Rightarrow> byte list res" where
  "put_edge v = rbind (fld (ed_start v)) (\<lambda>s. rbind (fld (ed_end v)) (\<lambda>e. Inr (le 4 s @ le 4 e)))"

definition put_feature :: "(cfloat \<Rightarrow> byte list) \<Rightarrow> cfloat option \<Rightarrow> byte list res" where
  "put_feature dbl v = rbind (fld v) (\<lambda>x. Inr (dbl x))"

text \<open>\<open>fwrite(p+start, size, n, fp)\<close>; the number of elements is unsigned.\<close>

definition fwrite_items :: "('a \<Rightarrow> byte list res) \<Rightarrow> ptr \<Rightarrow> int \<Rightarrow> int \<Rightarrow> 'a cheap \<Rightarrow> byte list res" where
  "fwrite_items put p start n h =
     rbind (mapM (\<lambda>i. rbind (peek p (start + i) h) put) [0..u32 n - 1]) (\<lambda>bss. Inr (concat bss))"

definition store_feature ::
  "nat \<Rightarrow> libm \<Rightarrow> graph_set \<Rightarrow> gw_arg \<Rightarrow> IMAGE \<Rightarrow> idata cheap \<Rightarrow> GRAPH \<Rightarrow> POINT cheap \<Rightarrow> int \<Rightarrow> int \<times> int \<Rightarrow>
   cfloat option cheap \<Rightarrow> cfloat option cheap res" where
  "store_feature fuel M st arg im ph g ps i = (\<lambda>(k, l) fs.
     rbind (read_pt (pt_list g) i ps) (\<lambda>(x, y).
     rbind (convolution fuel M im x y (arg_at st arg k l) ph) (\<lambda>num.
     poke (feature g) (s32 (i * save_width st + k * angles st + l)) (Some (Real num)) fs)))"

definition SaveGraphFile ::
  "nat \<Rightarrow> libm \<Rightarrow> (cfloat \<Rightarrow> byte list) \<Rightarrow> bool \<Rightarrow> graph_set \<Rightarrow> gw_arg \<Rightarrow> IMAGE \<Rightarrow> byte list \<Rightarrow> GRAPH \<Rightarrow>
   idata cheap \<Rightarrow> graph_mem \<Rightarrow> (byte list \<times> graph_mem) res" where
  "SaveGraphFile fuel M dbl opened st arg im name g ph m =
     (if \<not> opened then Inl (Thrown ''exit'')
      else rbind (c_strlen name) (\<lambda>n.
        rbind (fwrite_items put_point (pt_list g) 0 (count g) (points m)) (\<lambda>pbs.
        rbind (fwrite_items put_edge (edge_list g) 0 (line_count g) (edges m)) (\<lambda>ebs.
        rbind (foldM (\<lambda>i. foldM (store_feature fuel M st arg im ph g (points m) i)
            (columns (scales st) (angles st))) [0..count g - 1] (features m)) (\<lambda>fs.
        rbind (mapM (\<lambda>i. fwrite_items (put_feature dbl) (feature g) (i * save_width st) (save_width st) fs)
            [0..count g - 1]) (\<lambda>fbs.
        Inr (le 4 n @ take (nat n) name @ le 4 (count g) @ le 4 (line_count g) @ pbs @ ebs @ concat fbs,
          m\<lparr>features := fs\<rparr>)))))))"

subsection \<open>Reading\<close>

text \<open>
  \<open>fread\<close> of an int: at the end of the file the variable keeps its value, and a number that is
  cut by the end is indeterminate.
\<close>

definition fread_int :: "int \<Rightarrow> byte list \<Rightarrow> (int \<times> byte list) res" where
  "fread_int old bs = (if bs = [] then Inr (old, []) else if length bs < 4 then Inl Uninit
     else Inr (s32 (un_le (take 4 bs)), drop 4 bs))"

definition get_point :: "byte list \<Rightarrow> POINT" where
  "get_point b = (if length b < 8 then junk_pt else pt (s32 (un_le (take 4 b))) (s32 (un_le (drop 4 b))))"

definition get_edge :: "byte list \<Rightarrow> EDGE" where
  "get_edge b = (if length b < 8 then junk_edge
     else \<lparr>ed_start = Some (s32 (un_le (take 4 b))), ed_end = Some (s32 (un_le (drop 4 b)))\<rparr>)"

definition get_feature :: "(byte list \<Rightarrow> cfloat) \<Rightarrow> byte list \<Rightarrow> cfloat option" where
  "get_feature undbl b = (if length b < 8 then None else Some (undbl b))"

text \<open>\<open>fread(p, 8, n, fp)\<close>: a last element that is cut by the end of the file is indeterminate.\<close>

definition fread_items :: "(byte list \<Rightarrow> 'a) \<Rightarrow> ptr \<Rightarrow> int \<Rightarrow> 'a cheap \<Rightarrow> byte list \<Rightarrow> ('a cheap \<times> byte list) res" where
  "fread_items get p n h bs =
     rbind (foldM (\<lambda>i. poke p i (get (take 8 (drop (8 * nat i) bs))))
       [0..min (u32 n) ((int (length bs) + 7) div 8) - 1] h) (\<lambda>h. Inr (h, drop (8 * nat (u32 n)) bs))"

text \<open>The bytes of the name go to the buffer of the caller.\<close>

definition fread_name :: "int \<Rightarrow> byte option list \<Rightarrow> byte list \<Rightarrow> (byte option list \<times> byte list) res" where
  "fread_name n buf bs = (let got = take (nat (u32 n)) bs in
     if length buf < length got then Inl OutOfBounds
     else Inr (map Some got @ drop (length got) buf, drop (length got) bs))"

text \<open>
  \<open>graph->name[n] = 0\<close> cuts the name the graph has had before; an unset name is a string only
  when its first character is the zero.
\<close>

definition end_name :: "int \<Rightarrow> string option \<Rightarrow> string option res" where
  "end_name n nm = (if n < 0 \<or> 256 \<le> n then Inl OutOfBounds
     else Inr (if n = 0 then Some [] else map_option (take (nat n)) nm))"

definition LoadGraphFile ::
  "(byte list \<Rightarrow> cfloat) \<Rightarrow> byte list option \<Rightarrow> graph_set \<Rightarrow> byte option list \<Rightarrow> GRAPH \<Rightarrow> graph_mem \<Rightarrow>
   (GRAPH \<times> byte option list \<times> graph_mem) res" where
  "LoadGraphFile undbl file st buf g m =
     (case file of None \<Rightarrow> Inl (Thrown ''exit'')
     | Some bs \<Rightarrow>
       rbind (DeleteGraph g m) (\<lambda>(g, m).
       let g = InitGraph g in
       rbind (fread_int (name_len g) bs) (\<lambda>(n, bs).
       rbind (fread_name n buf bs) (\<lambda>(buf, bs).
       rbind (end_name n (gname g)) (\<lambda>nm.
       rbind (fread_int (count g) bs) (\<lambda>(c, bs).
       let (p, ps) = malloc (elems 8 c) junk_pt (points m);
           (e, es) = malloc (elems 8 (c * c)) junk_edge (edges m);
           (f, fs) = malloc (elems 8 (c * load_width st)) None (features m) in
       rbind (fread_int (line_count g) bs) (\<lambda>(lc, bs).
       rbind (fread_items get_point p c ps bs) (\<lambda>(ps, bs).
       rbind (fread_items get_edge e lc es bs) (\<lambda>(es, bs).
       rbind (fread_items (get_feature undbl) f (s32 (c * load_width st)) fs bs) (\<lambda>(fs, bs).
       Inr (g\<lparr>name_len := n, gname := nm, count := c, line_count := lc, pt_list := p, edge_list := e,
           feature := f\<rparr>, buf, m\<lparr>points := ps, edges := es, features := fs\<rparr>)))))))))))"

subsection \<open>The order of the features in a file\<close>

lemma columns_index:
  assumes "0 \<le> w" "0 \<le> h"
  shows "map (\<lambda>(k, l). k * h + l) (columns w h) = [0..w * h - 1]"
proof -
  have "columns w h = map (\<lambda>(l, k). (k, l)) (raster h w)"
    by (simp add: columns_def raster_def map_concat comp_def)
  then show ?thesis
    using raster_index [OF assms(2,1)] by (simp add: comp_def split_def algebra_simps)
qed

lemma rows_index:
  assumes "0 \<le> w" "0 \<le> n"
  shows "concat (map (\<lambda>i. map (\<lambda>c. i * w + c) [0..w - 1]) [0..n - 1]) = [0..n * w - 1]"
  using raster_index [OF assms] by (simp add: raster_def map_concat comp_def algebra_simps)

subsection \<open>Items of eight bytes\<close>

text \<open>The first elements of a block; a graph without edges may have no block for them.\<close>

definition holds :: "'a cheap \<Rightarrow> ptr \<Rightarrow> 'a list \<Rightarrow> bool" where
  "holds h p xs \<longleftrightarrow> xs = [] \<or> (\<exists>r. block h p = Some (xs @ r))"

lemma holds_peek: "holds h p xs \<Longrightarrow> i < length xs \<Longrightarrow> peek p (int i) h = Inr (xs ! i)"
  by (auto simp: holds_def hp.rd_live rdbuf_def nth_append)

text \<open>A loop that fills a block from the front.\<close>

lemma fill_in_order:
  assumes "block h q = Some (ps @ ys)" "length xs \<le> length ys"
    and "map ix xs = [int (length ps)..int (length ps) + int (length xs) - 1]"
    and "\<And>x t. x \<in> set xs \<Longrightarrow> f x t = poke q (ix x) (g x) t"
  shows "\<exists>t. foldM f xs h = Inr t \<and> block t = (block h)(q \<mapsto> ps @ map g xs @ drop (length xs) ys)"
  using assms
proof (induction xs arbitrary: h ps ys)
  case Nil
  have "block h = (block h)(q \<mapsto> ps @ ys)" using Nil.prems(1) by auto
  then show ?case by simp
next
  case (Cons x xs)
  obtain y ys' where ys: "ys = y # ys'" using Cons.prems(2) by (cases ys) auto
  have up: "[int (length ps)..int (length ps) + int (length (x # xs)) - 1] =
      int (length ps) # [int (length ps) + 1..int (length ps) + int (length (x # xs)) - 1]"
    by (rule upto_rec1) simp
  then have ix: "ix x = int (length ps)"
    and rest: "map ix xs = [int (length (ps @ [g x]))..int (length (ps @ [g x])) + int (length xs) - 1]"
    using Cons.prems(3) by (simp_all add: algebra_simps)
  from hp.wr_live [OF Cons.prems(1), of "ix x" "g x"]
  obtain h1 where h1: "f x h = Inr h1" "block h1 = (block h)(q \<mapsto> (ps @ [g x]) @ ys')"
    using Cons.prems(4) [of x h] by (auto simp: ix ys)
  have "\<exists>t. foldM f xs h1 = Inr t \<and>
      block t = (block h1)(q \<mapsto> (ps @ [g x]) @ map g xs @ drop (length xs) ys')"
    using Cons.prems(2,4) h1 rest by (intro Cons.IH) (simp_all add: ys)
  then show ?case using h1 by (auto simp: ys)
qed

locale file_item =
  fixes ok :: "'a \<Rightarrow> bool" and put :: "'a \<Rightarrow> byte list res" and get :: "byte list \<Rightarrow> 'a"
  assumes law: "ok x \<Longrightarrow> rbind (put x) (\<lambda>bs. Inr (length bs, get bs)) = Inr (8, x)"
begin

lemma item: "ok x \<Longrightarrow> \<exists>bs. put x = Inr bs \<and> length bs = 8 \<and> get bs = x"
  using law [of x] by (auto simp: rbind_def split: sum.splits)

text \<open>The byte strings of a list of items.\<close>

definition coded :: "'a list \<Rightarrow> byte list list \<Rightarrow> bool" where
  "coded xs bss \<longleftrightarrow> list_all2 (\<lambda>x bs. length bs = 8 \<and> get bs = x) xs bss"

lemma coded_length: "coded xs bss \<Longrightarrow> length bss = length xs \<and> length (concat bss) = 8 * length xs"
proof -
  have "list_all2 (\<lambda>x bs. length bs = 8 \<and> get bs = x) xs bss \<Longrightarrow> length (concat bss) = 8 * length xs"
    by (induction rule: list_all2_induct) simp_all
  then show "coded xs bss \<Longrightarrow> length bss = length xs \<and> length (concat bss) = 8 * length xs"
    by (auto simp: coded_def dest: list_all2_lengthD)
qed

lemma written:
  assumes "holds h p xs" "list_all ok xs"
  shows "\<exists>bss. mapM (\<lambda>i. rbind (peek p i h) put) [0..int (length xs) - 1] = Inr bss \<and> coded xs bss"
proof -
  obtain enc where enc: "\<And>x. ok x \<Longrightarrow> put x = Inr (enc x) \<and> length (enc x) = 8 \<and> get (enc x) = x"
    using item by metis
  have "mapM (\<lambda>i. rbind (peek p i h) put) [0..int (length xs) - 1] =
      Inr (map (\<lambda>i. enc (xs ! nat i)) [0..int (length xs) - 1])"
  proof (rule mapM_total)
    fix i assume "i \<in> set [0..int (length xs) - 1]"
    then have "nat i < length xs" "i = int (nat i)" by auto
    then show "rbind (peek p i h) put = Inr (enc (xs ! nat i))"
      using holds_peek [OF assms(1), of "nat i"] enc assms(2) by (simp add: list_all_length)
  qed
  moreover have "map (\<lambda>i. enc (xs ! nat i)) [0..int (length xs) - 1] = map enc xs"
    by (rule nth_equalityI) simp_all
  moreover have "coded xs (map enc xs)"
    using assms(2) enc by (auto simp: coded_def list_all2_conv_all_nth list_all_length)
  ultimately show ?thesis by simp
qed

lemma written_rows:
  assumes "holds h p xs" "list_all ok xs" "0 \<le> n" "0 \<le> w" "w < 2 ^ 32" "int (length xs) = n * w"
  shows "\<exists>rows bss. mapM (\<lambda>i. fwrite_items put p (i * w) w h) [0..n - 1] = Inr rows \<and>
    concat rows = concat bss \<and> coded xs bss"
proof -
  let ?F = "\<lambda>i. rbind (peek p i h) put"
  let ?rows = "map (\<lambda>i. map (\<lambda>c. i * w + c) [0..w - 1]) [0..n - 1]"
  have "concat ?rows = [0..int (length xs) - 1]" using rows_index [OF assms(4,3)] assms(6) by simp
  with written [OF assms(1,2)] obtain bss where bss: "mapM ?F (concat ?rows) = Inr bss" "coded xs bss" by auto
  from bss(1) obtain bsss where bsss: "mapM (mapM ?F) ?rows = Inr bsss" "concat bsss = bss"
    by (auto simp: mapM_concat rbind_def split: sum.splits)
  have "fwrite_items put p (i * w) w h = rbind (mapM ?F (map (\<lambda>c. i * w + c) [0..w - 1])) (\<lambda>b. Inr (concat b))" for i
    using assms(4,5) by (simp add: fwrite_items_def u32_def mapM_map)
  then have "mapM (\<lambda>i. fwrite_items put p (i * w) w h) [0..n - 1] = rbind (mapM (mapM ?F) ?rows) (\<lambda>b. Inr (map concat b))"
    by (simp add: mapM_post mapM_map)
  moreover have "concat (map concat bsss) = concat (concat bsss)" by (induction bsss) simp_all
  ultimately show ?thesis using bsss bss(2) by auto
qed

lemma written_items:
  assumes "holds h p xs" "list_all ok xs" "int (length xs) < 2 ^ 32"
  shows "\<exists>bss. fwrite_items put p 0 (int (length xs)) h = Inr (concat bss) \<and> coded xs bss"
  using written [OF assms(1,2)] assms(3) by (auto simp: fwrite_items_def u32_def)

lemma chunk: "coded xs bss \<Longrightarrow> i < length xs \<Longrightarrow> get (take 8 (drop (8 * i) (concat bss @ r))) = xs ! i"
  unfolding coded_def
proof (induction arbitrary: i rule: list_all2_induct)
  case (Cons x xs b bss)
  then show ?case by (cases i) simp_all
qed simp

lemma read_back:
  assumes "coded xs bss" "block h p = Some ys" "length xs \<le> length ys" "int (length xs) < 2 ^ 32"
  shows "\<exists>h'. fread_items get p (int (length xs)) h (concat bss @ r) = Inr (h', r) \<and>
    block h' = (block h)(p \<mapsto> xs @ drop (length xs) ys)"
proof -
  let ?bs = "concat bss @ r"
  have len: "length (concat bss) = 8 * length xs" using coded_length [OF assms(1)] by simp
  have n: "u32 (int (length xs)) = int (length xs)" using assms(4) by (simp add: u32_def)
  have "8 * int (length xs) div 8 \<le> (int (length ?bs) + 7) div 8"
    using len by (intro zdiv_mono1) simp_all
  then have m: "min (int (length xs)) ((int (length ?bs) + 7) div 8) = int (length xs)" by simp
  have "\<exists>t. foldM (\<lambda>i. poke p i (get (take 8 (drop (8 * nat i) ?bs)))) [0..int (length xs) - 1] h = Inr t \<and>
      block t = (block h)(p \<mapsto> [] @ map (\<lambda>i. get (take 8 (drop (8 * nat i) ?bs))) [0..int (length xs) - 1] @
        drop (length [0..int (length xs) - 1]) ys)"
    by (rule fill_in_order [where ix = "\<lambda>i. i"]) (use assms(2,3) in simp_all)
  moreover have "map (\<lambda>i. get (take 8 (drop (8 * nat i) ?bs))) [0..int (length xs) - 1] = xs"
    by (rule nth_equalityI) (simp_all add: chunk [OF assms(1)] del: take_append drop_append)
  ultimately show ?thesis using len by (auto simp: fread_items_def n m)
qed

end

text \<open>The three kinds of items in a file.\<close>

definition point_ok :: "POINT \<Rightarrow> bool" where
  "point_ok v \<longleftrightarrow> (case (pt_x v, pt_y v) of (Some x, Some y) \<Rightarrow> int32 x \<and> int32 y | _ \<Rightarrow> False)"

definition edge_ok :: "EDGE \<Rightarrow> bool" where
  "edge_ok v \<longleftrightarrow> (case (ed_start v, ed_end v) of (Some s, Some e) \<Rightarrow> int32 s \<and> int32 e | _ \<Rightarrow> False)"

definition number_ok :: "(cfloat \<Rightarrow> byte list) \<Rightarrow> (byte list \<Rightarrow> cfloat) \<Rightarrow> cfloat \<Rightarrow> bool" where
  "number_ok dbl undbl v \<longleftrightarrow> length (dbl v) = 8 \<and> undbl (dbl v) = v"

definition feature_ok :: "(cfloat \<Rightarrow> byte list) \<Rightarrow> (byte list \<Rightarrow> cfloat) \<Rightarrow> cfloat option \<Rightarrow> bool" where
  "feature_ok dbl undbl v \<longleftrightarrow> (case v of None \<Rightarrow> False | Some x \<Rightarrow> number_ok dbl undbl x)"

lemma s32_stored: "int32 x \<Longrightarrow> s32 (x mod 4294967296) = x"
  using s32_le4 [of x] by simp

interpretation point_item: file_item point_ok put_point get_point
  by unfold_locales (auto simp: point_ok_def put_point_def get_point_def pt_def un_le_le s32_stored
      intro!: POINT.equality split: option.splits)

interpretation edge_item: file_item edge_ok put_edge get_edge
  by unfold_locales (auto simp: edge_ok_def put_edge_def get_edge_def un_le_le s32_stored
      intro!: EDGE.equality split: option.splits)

interpretation feature_item: file_item "feature_ok dbl undbl" "put_feature dbl" "get_feature undbl" for dbl undbl
  by unfold_locales (auto simp: feature_ok_def number_ok_def put_feature_def get_feature_def split: option.splits)

subsection \<open>The features of all points\<close>

text \<open>What is computed, apart from where it is stored: point by point, scale by scale, angle by angle.\<close>

definition features_of ::
  "nat \<Rightarrow> libm \<Rightarrow> graph_set \<Rightarrow> gw_arg \<Rightarrow> IMAGE \<Rightarrow> idata cheap \<Rightarrow> (int \<times> int) list \<Rightarrow> cfloat list res" where
  "features_of fuel M st arg im ph xys =
     mapM (\<lambda>((x, y), (k, l)). rbind (convolution fuel M im x y (arg_at st arg k l) ph) (\<lambda>num. Inr (Real num)))
       (concat (map (\<lambda>p. map (Pair p) (columns (scales st) (angles st))) xys))"

lemma feature_index:
  assumes "0 \<le> js" "0 \<le> rs" "0 \<le> n"
  shows "map (\<lambda>(i, k, l). i * (js * rs) + k * rs + l)
      (concat (map (\<lambda>i. map (Pair i) (columns js rs)) [0..n - 1])) = [0..n * (js * rs) - 1]"
proof -
  have "map (\<lambda>(k, l). i * (js * rs) + k * rs + l) (columns js rs) = map (\<lambda>c. i * (js * rs) + c) [0..js * rs - 1]" for i
    unfolding columns_index [OF assms(1,2), symmetric] by (simp add: comp_def split_def algebra_simps)
  then show ?thesis
    using rows_index [of "js * rs" n] assms by (simp add: map_concat comp_def)
qed

lemma read_pt_holds: "holds ps p (pts xys) \<Longrightarrow> i < length xys \<Longrightarrow> read_pt p (int i) ps = Inr (xys ! i)"
  using holds_peek [of ps p "pts xys" i] by (simp add: read_pt_def pts_def pt_def split: prod.split)

lemma features_flat:
  "features_of fuel M st arg im ph xys = mapM (\<lambda>(i, k, l). case xys ! nat i of (x, y) \<Rightarrow>
       rbind (convolution fuel M im x y (arg_at st arg k l) ph) (\<lambda>num. Inr (Real num)))
     (concat (map (\<lambda>i. map (Pair i) (columns (scales st) (angles st))) [0..int (length xys) - 1]))"
proof -
  have "map (\<lambda>i. xys ! nat i) [0..int (length xys) - 1] = xys"
    by (rule nth_equalityI) simp_all
  note shown = this
  have "map (\<lambda>p. map (Pair p) cols) (map (\<lambda>i. xys ! nat i) [0..int (length xys) - 1]) =
      map (\<lambda>i. map (Pair (xys ! nat i)) cols) [0..int (length xys) - 1]" for cols :: "(int \<times> int) list"
    by (simp add: comp_def)
  from this [unfolded shown] have "concat (map (\<lambda>p. map (Pair p) cols) xys) =
      map (\<lambda>(i, c). (xys ! nat i, c)) (concat (map (\<lambda>i. map (Pair i) cols) [0..int (length xys) - 1]))"
    for cols :: "(int \<times> int) list"
    by (simp add: map_concat comp_def)
  then show ?thesis by (simp add: features_of_def mapM_map split_def)
qed

lemma all2_projr: "list_all2 (\<lambda>e v. f e = Inr v) xs vs \<Longrightarrow> map (\<lambda>e. Some (projr (f e))) xs = map Some vs"
  by (induction rule: list_all2_induct) simp_all

lemma all2_member: "list_all2 P xs ys \<Longrightarrow> x \<in> set xs \<Longrightarrow> \<exists>y. P x y"
  by (induction rule: list_all2_induct) auto

lemma store_features:
  assumes "holds ps (pt_list g) (pts xys)" "count g = int (length xys)"
    and "0 \<le> scales st" "0 \<le> angles st" "int32 (scales st * angles st)" "count g * save_width st < 2 ^ 28"
    and "features_of fuel M st arg im ph xys = Inr vs"
    and "holds fs (feature g) ys" "int (length ys) = count g * save_width st"
  shows "\<exists>fs'. foldM (\<lambda>i. foldM (store_feature fuel M st arg im ph g ps i)
      (columns (scales st) (angles st))) [0..count g - 1] fs = Inr fs' \<and>
    holds fs' (feature g) (map Some vs) \<and> int (length vs) = count g * save_width st"
proof -
  let ?w = "save_width st" and ?n = "count g"
  let ?L = "concat (map (\<lambda>i. map (Pair i) (columns (scales st) (angles st))) [0..?n - 1])"
  let ?conv = "\<lambda>(i, k, l). case xys ! nat i of (x, y) \<Rightarrow>
       rbind (convolution fuel M im x y (arg_at st arg k l) ph) (\<lambda>num. Inr (Real num))"
  let ?v = "\<lambda>e. Some (projr (?conv e))"
  let ?ix = "\<lambda>(i, k, l). s32 (i * ?w + k * angles st + l)"
  let ?S = "\<lambda>(i, kl). store_feature fuel M st arg im ph g ps i kl"
  have w: "?w = scales st * angles st" using assms(5) by (simp add: save_width_def)
  have index: "map (\<lambda>(i, k, l). i * ?w + k * angles st + l) ?L = [0..?n * ?w - 1]"
    unfolding w by (rule feature_index) (use assms in simp_all)
  have "int32 e" if "e \<in> set [0..?n * ?w - 1]" for e
    using that assms(6) by (simp add: int32_def)
  then have "map s32 (map (\<lambda>(i, k, l). i * ?w + k * angles st + l) ?L) = [0..?n * ?w - 1]"
    unfolding index by (intro map_idI) simp
  then have ix: "map ?ix ?L = [0..?n * ?w - 1]"
    by (simp only: list.map_comp comp_def split_def)
  have all: "list_all2 (\<lambda>e v. ?conv e = Inr v) ?L vs"
    using assms(7) by (auto simp: features_flat assms(2) intro!: mapM_Inr)
  then have len: "length ?L = length vs" "int (length vs) = ?n * ?w"
    using arg_cong [OF index, of length] assms(2-4) by (auto simp: list_all2_lengthD w)
  have vs: "map ?v ?L = map Some vs" using all by (rule all2_projr)
  have step: "?S e t = poke (feature g) (?ix e) (?v e) t" if "e \<in> set ?L" for e t
  proof -
    have "\<exists>v. ?conv e = Inr v" using all2_member [OF all that] .
    obtain i k l where e: "e = (i, k, l)" by (cases e) auto
    from \<open>\<exists>v. ?conv e = Inr v\<close> obtain v where "?conv e = Inr v" ..
    moreover have "0 \<le> i" "nat i < length xys" using that assms(2) by (auto simp: e)
    ultimately show ?thesis
      using read_pt_holds [OF assms(1), of "nat i"]
      by (auto simp: e store_feature_def rbind_def split: prod.splits sum.splits)
  qed
  have flat: "foldM (\<lambda>i. foldM (store_feature fuel M st arg im ph g ps i)
      (columns (scales st) (angles st))) [0..?n - 1] fs = foldM ?S ?L fs"
    by (rule foldM_nested)
  show ?thesis
  proof (cases "vs = []")
    case True
    have "?L = []" using len(1) unfolding True by (simp only: list.size length_0_conv)
    then have "foldM ?S ?L fs = Inr fs" by (simp only: foldM.simps)
    then show ?thesis unfolding flat using True len(2) by (simp add: holds_def)
  next
    case False
    then obtain r where "block fs (feature g) = Some ([] @ (ys @ r))"
      using assms(8,9) len by (auto simp: holds_def)
    then have "\<exists>t. foldM ?S ?L fs = Inr t \<and>
        block t = (block fs)(feature g \<mapsto> [] @ map ?v ?L @ drop (length ?L) (ys @ r))"
      by (rule fill_in_order [where ix = ?ix]) (use len ix step assms(9) in simp_all)
    then show ?thesis unfolding vs flat using len(2) by (auto simp: holds_def)
  qed
qed

text \<open>A loop that stores computed values stops with the first error of the computation.\<close>

lemma fill_error:
  assumes "mapM f xs = Inl e" "P h"
    and "\<And>x t. x \<in> set xs \<Longrightarrow> P t \<Longrightarrow> (case f x of Inl e \<Rightarrow> F x t = Inl e | Inr _ \<Rightarrow> \<exists>t'. F x t = Inr t' \<and> P t')"
  shows "foldM F xs h = Inl e"
  using assms
proof (induction xs arbitrary: h)
  case (Cons x xs)
  show ?case
  proof (cases "f x")
    case (Inl e')
    then show ?thesis using Cons.prems(1) Cons.prems(3) [of x h] Cons.prems(2) by simp
  next
    case (Inr v)
    then obtain h' where h': "F x h = Inr h'" "P h'" using Cons.prems(3) [of x h] Cons.prems(2) by auto
    have "mapM f xs = Inl e" using Cons.prems(1) Inr by (simp add: rbind_def split: sum.splits)
    then show ?thesis using Cons.IH [OF _ h'(2)] Cons.prems(3) h'(1) by simp
  qed
qed simp

lemma store_features_error:
  assumes "holds ps (pt_list g) (pts xys)" "count g = int (length xys)"
    and "0 \<le> scales st" "0 \<le> angles st" "int32 (scales st * angles st)" "count g * save_width st < 2 ^ 28"
    and "features_of fuel M st arg im ph xys = Inl e"
    and "holds fs (feature g) ys" "int (length ys) = count g * save_width st"
  shows "foldM (\<lambda>i. foldM (store_feature fuel M st arg im ph g ps i)
      (columns (scales st) (angles st))) [0..count g - 1] fs = Inl e"
proof -
  let ?w = "save_width st" and ?n = "count g"
  let ?L = "concat (map (\<lambda>i. map (Pair i) (columns (scales st) (angles st))) [0..?n - 1])"
  let ?conv = "\<lambda>(i, k, l). case xys ! nat i of (x, y) \<Rightarrow>
       rbind (convolution fuel M im x y (arg_at st arg k l) ph) (\<lambda>num. Inr (Real num))"
  let ?S = "\<lambda>(i, kl). store_feature fuel M st arg im ph g ps i kl"
  let ?P = "\<lambda>t :: cfloat option cheap. \<exists>zs. block t (feature g) = Some zs \<and> ?n * ?w \<le> int (length zs)"
  have w: "?w = scales st * angles st" using assms(5) by (simp add: save_width_def)
  have index: "map (\<lambda>(i, k, l). i * ?w + k * angles st + l) ?L = [0..?n * ?w - 1]"
    unfolding w by (rule feature_index) (use assms in simp_all)
  have err: "mapM ?conv ?L = Inl e" using assms(2,7) by (simp add: features_flat)
  have "?L \<noteq> []"
  proof
    assume none: "?L = []"
    have "mapM ?conv ?L = Inr []" by (simp only: none mapM.simps)
    then show False using err by simp
  qed
  then have "ys \<noteq> []" using arg_cong [OF index, of length] assms(9) by auto
  then have start: "?P fs" using assms(8,9) by (auto simp: holds_def)
  have "foldM ?S ?L fs = Inl e"
  proof (rule fill_error [where f = ?conv and P = ?P, OF err start])
    fix c t assume c: "c \<in> set ?L" and t: "?P t"
    obtain i k l where ikl: "c = (i, k, l)" by (cases c) auto
    have i: "0 \<le> i" "nat i < length xys" using c assms(2) by (auto simp: ikl)
    have "i * ?w + k * angles st + l \<in> set (map (\<lambda>(i, k, l). i * ?w + k * angles st + l) ?L)"
      using c unfolding ikl by force
    then have ix: "0 \<le> i * ?w + k * angles st + l" "i * ?w + k * angles st + l < ?n * ?w"
      unfolding index by auto
    then have s: "s32 (i * ?w + k * angles st + l) = i * ?w + k * angles st + l"
      using assms(6) by (simp add: int32_def)
    obtain zs where zs: "block t (feature g) = Some zs" "?n * ?w \<le> int (length zs)" using t by blast
    have "\<exists>t'. poke (feature g) (i * ?w + k * angles st + l) v t = Inr t' \<and> ?P t'" for v
      using hp.wr_live [OF zs(1), of "i * ?w + k * angles st + l" v] zs(2) ix by auto
    then show "case ?conv c of Inl e \<Rightarrow> ?S c t = Inl e | Inr _ \<Rightarrow> \<exists>t'. ?S c t = Inr t' \<and> ?P t'"
      using read_pt_holds [OF assms(1) i(2)] i(1)
      by (auto simp: ikl store_feature_def s rbind_def split: prod.splits sum.splits)
  qed
  then show ?thesis by (simp only: foldM_nested)
qed

subsection \<open>Writing and reading back\<close>

definition edges_of :: "(int \<times> int) list \<Rightarrow> EDGE list" where
  "edges_of = map (\<lambda>(s, e). \<lparr>ed_start = Some s, ed_end = Some e\<rparr>)"

definition int32_pairs :: "(int \<times> int) list \<Rightarrow> bool" where
  "int32_pairs = list_all (\<lambda>(x, y). int32 x \<and> int32 y)"

lemma points_ok: "int32_pairs xys \<Longrightarrow> list_all point_ok (pts xys)"
  by (auto simp: int32_pairs_def pts_def list_all_iff point_ok_def pt_def)

lemma edges_ok: "int32_pairs ses \<Longrightarrow> list_all edge_ok (edges_of ses)"
  by (auto simp: int32_pairs_def edges_of_def list_all_iff edge_ok_def)

lemma features_ok: "list_all (number_ok dbl undbl) vs \<Longrightarrow> list_all (feature_ok dbl undbl) (map Some vs)"
  by (auto simp: list_all_iff feature_ok_def)

lemma length_items [simp]: "length (pts xys) = length xys" "length (edges_of ses) = length ses"
  by (simp_all add: pts_def edges_of_def)

text \<open>The bytes of a file, with the byte strings of its items.\<close>

definition file_of :: "byte list \<Rightarrow> int \<Rightarrow> int \<Rightarrow> byte list list \<Rightarrow> byte list list \<Rightarrow> byte list list \<Rightarrow> byte list" where
  "file_of nm c lc pb eb fb =
     le 4 (int (length nm)) @ nm @ le 4 c @ le 4 lc @ concat pb @ concat eb @ concat fb"

lemma strlen_terminated: "0 \<notin> set nm \<Longrightarrow> c_strlen (nm @ 0 # r) = Inr (int (length nm))"
proof -
  assume "0 \<notin> set nm"
  then have "takeWhile (\<lambda>c. c \<noteq> 0) (nm @ 0 # r) = nm"
    by (subst takeWhile_append2) auto
  then show ?thesis by (simp add: c_strlen_def)
qed

lemma SaveGraphFile_ok:
  assumes "holds (points m) (pt_list g) (pts xys)" "count g = int (length xys)" "int32_pairs xys"
    and "holds (edges m) (edge_list g) (edges_of ses)" "line_count g = int (length ses)" "int32_pairs ses"
    and "holds (features m) (feature g) ys" "int (length ys) = count g * save_width st"
    and "0 \<le> scales st" "0 \<le> angles st" "int32 (scales st * angles st)" "count g * save_width st < 2 ^ 28"
    and "count g < 2 ^ 31" "line_count g < 2 ^ 31" "0 \<notin> set nm"
    and "features_of fuel M st arg im ph xys = Inr vs" "list_all (number_ok dbl undbl) vs"
  shows "\<exists>m' pb eb fb. SaveGraphFile fuel M dbl True st arg im (nm @ 0 # r) g ph m =
      Inr (file_of nm (count g) (line_count g) pb eb fb, m') \<and>
    m' = m\<lparr>features := features m'\<rparr> \<and>
    holds (features m') (feature g) (map Some vs) \<and> int (length vs) = count g * save_width st \<and>
    file_item.coded get_point (pts xys) pb \<and> file_item.coded get_edge (edges_of ses) eb \<and>
    file_item.coded (get_feature undbl) (map Some vs) fb"
proof -
  obtain pb where pb: "fwrite_items put_point (pt_list g) 0 (count g) (points m) = Inr (concat pb)"
    "point_item.coded (pts xys) pb"
    using point_item.written_items [OF assms(1) points_ok [OF assms(3)]] assms(2,13) by auto
  obtain eb where eb: "fwrite_items put_edge (edge_list g) 0 (line_count g) (edges m) = Inr (concat eb)"
    "edge_item.coded (edges_of ses) eb"
    using edge_item.written_items [OF assms(4) edges_ok [OF assms(6)]] assms(5,14) by auto
  obtain fs where fs: "foldM (\<lambda>i. foldM (store_feature fuel M st arg im ph g (points m) i)
      (columns (scales st) (angles st))) [0..count g - 1] (features m) = Inr fs"
    "holds fs (feature g) (map Some vs)" "int (length vs) = count g * save_width st"
    using store_features [OF assms(1,2,9-12,16,7,8)] by blast
  have w: "0 \<le> save_width st" "save_width st < 2 ^ 32"
    using assms(9-11) by (simp_all add: save_width_def int32_def)
  obtain rows fb where fb: "mapM (\<lambda>i. fwrite_items (put_feature dbl) (feature g) (i * save_width st) (save_width st) fs)
      [0..count g - 1] = Inr rows" "concat rows = concat fb" "feature_item.coded undbl (map Some vs) fb"
    using feature_item.written_rows [OF fs(2) features_ok [OF assms(17)] _ w, of "count g"] fs(3) assms(2) by auto
  show ?thesis
    using pb eb fs fb by (intro exI [of _ "m\<lparr>features := fs\<rparr>"] exI [of _ pb] exI [of _ eb] exI [of _ fb])
      (simp add: SaveGraphFile_def strlen_terminated [OF assms(15)] file_of_def)
qed

lemma SaveGraphFile_error:
  assumes "holds (points m) (pt_list g) (pts xys)" "count g = int (length xys)" "int32_pairs xys"
    and "holds (edges m) (edge_list g) (edges_of ses)" "line_count g = int (length ses)" "int32_pairs ses"
    and "holds (features m) (feature g) ys" "int (length ys) = count g * save_width st"
    and "0 \<le> scales st" "0 \<le> angles st" "int32 (scales st * angles st)" "count g * save_width st < 2 ^ 28"
    and "count g < 2 ^ 31" "line_count g < 2 ^ 31" "0 \<notin> set nm"
    and "features_of fuel M st arg im ph xys = Inl e"
  shows "SaveGraphFile fuel M dbl True st arg im (nm @ 0 # r) g ph m = Inl e"
proof -
  obtain pb where "fwrite_items put_point (pt_list g) 0 (count g) (points m) = Inr (concat pb)"
    using point_item.written_items [OF assms(1) points_ok [OF assms(3)]] assms(2,13) by auto
  moreover obtain eb where "fwrite_items put_edge (edge_list g) 0 (line_count g) (edges m) = Inr (concat eb)"
    using edge_item.written_items [OF assms(4) edges_ok [OF assms(6)]] assms(5,14) by auto
  ultimately show ?thesis
    using store_features_error [OF assms(1,2,9-12,16,7,8)]
    by (simp add: SaveGraphFile_def strlen_terminated [OF assms(15)])
qed

lemma fread_int_le: "int32 x \<Longrightarrow> fread_int old (le 4 x @ r) = Inr (x, r)"
proof -
  assume "int32 x"
  moreover have "le 4 x \<noteq> []" using length_le [of 4 x] by (metis list.size(3) zero_neq_numeral)
  ultimately show ?thesis by (simp add: fread_int_def un_le_le s32_stored)
qed

lemma fread_name_all:
  "int (length nm) < 2 ^ 32 \<Longrightarrow> length nm \<le> length buf \<Longrightarrow>
     fread_name (int (length nm)) buf (nm @ r) = Inr (map Some nm @ drop (length nm) buf, r)"
  by (simp add: fread_name_def u32_def)

lemma LoadGraphFile_ok:
  assumes "DeleteGraph g m = Inr (g', m')" "length nm \<le> length buf" "length nm < 256"
    and "c = int (length xys)" "c < 2 ^ 14" "lc = int (length ses)" "lc \<le> c * c"
    and "0 \<le> load_width st" "int (length vs) = c * load_width st" "c * load_width st < 2 ^ 28"
    and "file_item.coded get_point (pts xys) pb" "file_item.coded get_edge (edges_of ses) eb"
    and "file_item.coded (get_feature undbl) (map Some vs) fb"
  shows "\<exists>l t. LoadGraphFile undbl (Some (file_of nm c lc pb eb fb)) st buf g m =
      Inr (l, map Some nm @ drop (length nm) buf, t) \<and>
    name_len l = int (length nm) \<and> count l = c \<and> line_count l = lc \<and>
    holds (points t) (pt_list l) (pts xys) \<and> holds (edges t) (edge_list l) (edges_of ses) \<and>
    holds (features t) (feature l) (map Some vs)"
proof -
  let ?i = "InitGraph g'" and ?w = "load_width st"
  have "c * c < 2 ^ 14 * 2 ^ 14" using assms(4,5) by (intro mult_strict_mono) auto
  then have sizes: "int32 (int (length nm))" "int32 c" "int32 lc" "lc < 2 ^ 28" "c * c < 2 ^ 28"
    "int32 (c * ?w)" "0 \<le> c" "0 \<le> c * ?w"
    using assms(3-10) by (simp_all add: int32_def)
  have name: "fread_name (int (length nm)) buf (nm @ r) = Inr (map Some nm @ drop (length nm) buf, r)" for r
    by (rule fread_name_all) (use assms(2,3) in simp_all)
  obtain nm' where nm': "end_name (int (length nm)) (gname ?i) = Inr nm'"
    using assms(3) by (simp add: end_name_def)
  obtain p ps where p: "malloc (elems 8 c) junk_pt (points m') = (p, ps)" by fastforce
  obtain e es where e: "malloc (elems 8 (c * c)) junk_edge (edges m') = (e, es)" by fastforce
  obtain f fs where f: "malloc (elems 8 (c * ?w)) None (features m') = (f, fs)" by fastforce
  have n: "elems 8 c = length xys" "length ses \<le> elems 8 (c * c)" "elems 8 (c * ?w) = length vs"
    using elems_exact [of c] elems_exact [of "c * c"] elems_exact [of "c * ?w"] sizes assms(4-10)
    by (simp_all add: nat_le_iff flip: assms(9))
  obtain ps' where ps': "fread_items get_point p c ps (concat pb @ concat eb @ concat fb) = Inr (ps', concat eb @ concat fb)"
    "holds ps' p (pts xys)"
    using point_item.read_back [OF assms(11), of ps p] malloc_block [OF p] n(1) sizes assms(4,5)
    by (fastforce simp: holds_def)
  obtain es' where es': "fread_items get_edge e lc es (concat eb @ concat fb) = Inr (es', concat fb)"
    "holds es' e (edges_of ses)"
    using edge_item.read_back [OF assms(12), of es e] malloc_block [OF e] n(2) sizes assms(6)
    by (fastforce simp: holds_def)
  obtain fs' where fs': "fread_items (get_feature undbl) f (c * ?w) fs (concat fb) = Inr (fs', [])"
    "holds fs' f (map Some vs)"
    using feature_item.read_back [OF assms(13), of fs f _ "[]"] malloc_block [OF f] n(3) sizes assms(9,10)
    by (fastforce simp: holds_def)
  show ?thesis
    by (simp add: LoadGraphFile_def Let_def assms(1) file_of_def fread_int_le name sizes nm' p e f ps' es' fs')
qed

text \<open>
  C15: What \<open>SaveGraphFile\<close> writes, \<open>LoadGraphFile\<close> reads. Let a graph have n points and at most
  n * n edges, all numbers set and 32 bits wide, n less than 2 ^ 14, room for the features of
  the setting, fewer than 2 ^ 28 of them, and let the setting have whole numbers of steps, so that
  writer and reader count the same features for a point. The file opens, and the name given has
  less than 256 bytes before its zero. If a convolution fails, which it does when it reads the
  pixel behind the last of the image (\<open>wavelet.cpp:33\<close>) or its loop does not end, writing stops
  with the error of the first one that fails, points in order, scales, then angles. If none
  fails, and the eight bytes of each computed number read back as the number, writing succeeds,
  and loading the file into any graph that can be released, with a buffer that has room for the
  name, succeeds and gives the same points, the same edges and exactly the convolutions' real
  parts, in their order. The name goes into the buffer of the caller, without a zero behind it;
  of the name in the graph only the length.
\<close>

theorem graph_file_roundtrip:
  assumes "holds (points m) (pt_list g) (pts xys)" "count g = int (length xys)" "int32_pairs xys"
    and "holds (edges m) (edge_list g) (edges_of ses)" "line_count g = int (length ses)" "int32_pairs ses"
    and "holds (features m) (feature g) ys" "int (length ys) = count g * save_width st"
    and "0 \<le> scales st" "0 \<le> angles st" "int32 (scales st * angles st)" "load_width st = save_width st"
    and "count g < 2 ^ 14" "line_count g \<le> count g * count g" "count g * save_width st < 2 ^ 28"
    and "0 \<notin> set nm" "length nm < 256" "length nm \<le> length buf" "DeleteGraph old h = Inr (old', h')"
  shows "case features_of fuel M st arg im ph xys of
      Inl e \<Rightarrow> SaveGraphFile fuel M dbl True st arg im (nm @ 0 # r) g ph m = Inl e
    | Inr vs \<Rightarrow> list_all (number_ok dbl undbl) vs \<longrightarrow>
      (\<exists>bs m' l t. SaveGraphFile fuel M dbl True st arg im (nm @ 0 # r) g ph m = Inr (bs, m') \<and>
        LoadGraphFile undbl (Some bs) st buf old h = Inr (l, map Some nm @ drop (length nm) buf, t) \<and>
        name_len l = int (length nm) \<and> count l = count g \<and> line_count l = line_count g \<and>
        holds (points t) (pt_list l) (pts xys) \<and> holds (edges t) (edge_list l) (edges_of ses) \<and>
        holds (features t) (feature l) (map Some vs))"
proof -
  have "count g * count g < 2 ^ 14 * 2 ^ 14" using assms(2,13) by (intro mult_strict_mono) auto
  then have small: "count g < 2 ^ 31" "line_count g < 2 ^ 31" using assms(13,14) by simp_all
  have w: "0 \<le> load_width st" using assms(9-12) by (simp add: save_width_def)
  show ?thesis
  proof (cases "features_of fuel M st arg im ph xys")
    case (Inl e)
    then show ?thesis using SaveGraphFile_error [OF assms(1-11,15) small assms(16)] by simp
  next
    case (Inr vs)
    have "\<exists>bs m' l t. SaveGraphFile fuel M dbl True st arg im (nm @ 0 # r) g ph m = Inr (bs, m') \<and>
      LoadGraphFile undbl (Some bs) st buf old h = Inr (l, map Some nm @ drop (length nm) buf, t) \<and>
      name_len l = int (length nm) \<and> count l = count g \<and> line_count l = line_count g \<and>
      holds (points t) (pt_list l) (pts xys) \<and> holds (edges t) (edge_list l) (edges_of ses) \<and>
      holds (features t) (feature l) (map Some vs)" if ok: "list_all (number_ok dbl undbl) vs"
    proof -
      obtain m' pb eb fb where
        save: "SaveGraphFile fuel M dbl True st arg im (nm @ 0 # r) g ph m =
          Inr (file_of nm (count g) (line_count g) pb eb fb, m')"
        and "int (length vs) = count g * save_width st" "file_item.coded get_point (pts xys) pb"
          "file_item.coded get_edge (edges_of ses) eb" "file_item.coded (get_feature undbl) (map Some vs) fb"
        using SaveGraphFile_ok [OF assms(1-11,15) small assms(16) Inr ok] by blast
      from LoadGraphFile_ok [OF assms(19,18,17,2,13,5,14) w _ _ this(3-5)] this(2)
      show ?thesis using save assms(12,15) by simp
    qed
    then show ?thesis using Inr by simp
  qed
qed

text \<open>
  A graph of one point without edges over an image of one pixel, which the window of the
  convolution at that point does not meet.
\<close>

definition one_graph :: GRAPH where
  "one_graph = \<lparr>name_len = 0, gname = None, count = 1, line_count = 0, pt_list = 1, edge_list = NULL,
     feature = 1, g_rc = None\<rparr>"

definition one_mem :: graph_mem where
  "one_mem = \<lparr>points = [Some [pt 100 0]], edges = [], features = [Some [None]]\<rparr>"

definition one_set :: graph_set where
  "one_set = \<lparr>j_start = Fin 1, j_end = Fin 2, j_plus = Fin 1, rad_start = Fin 0, rad_end = Fin 1, rad_plus = Fin 1\<rparr>"

definition one_pixel :: IMAGE where
  "one_pixel = \<lparr>file_size = 0, data_ofset = 0, bwidth = 1, bheight = 1, bitCount = 32, head_at = NULL, data_at = NULL\<rparr>"

lemma one_pixel_sel [simp]: "bwidth one_pixel = 1" "bheight one_pixel = 1"
  by (simp_all add: one_pixel_def)

lemma far_convolution:
  assumes "g_j arg = Fin 1" "31 < fuel"
  shows "convolution fuel M one_pixel 100 0 arg ph = Inr \<lparr>Real = Fin 0, Imaginary = Fin 0\<rparr>"
proof -
  let ?vs = "map (\<lambda>k. Fin (of_int k)) [- 15..15 :: int]" and ?z = "\<lparr>Real = Fin 0, Imaginary = Fin 0\<rparr>"
  have "mul (Fin 15) (Fin 1) = Fin (of_int 15)" using fp_int [of 15] by simp
  then have loop: "float_loop fuel (fp_neg (mul (Fin 15) (g_j arg))) (g_j arg) (mul (Fin 15) (g_j arg)) = Inr ?vs"
    using float_loop_ints [of 15 "- 15" fuel] assms by simp
  have "\<exists>s. foldM (conv_cell M one_pixel 100 arg ph) (concat (map (\<lambda>j. map (\<lambda>i. (i, j)) ?vs) ?vs)) ?z = Inr s \<and> s = ?z"
  proof (rule foldM_invariant [where P = "\<lambda>s. s = ?z"])
    fix c acc assume "c \<in> set (concat (map (\<lambda>j. map (\<lambda>i. (i, j)) ?vs) ?vs))" "acc = ?z"
    then obtain i j where "c = (Fin (of_int i), Fin (of_int j))" "\<bar>i\<bar> \<le> 15" "\<bar>j\<bar> \<le> 15"
      unfolding window_pairs by (auto simp: abs_le_iff)
    then show "\<exists>s'. conv_cell M one_pixel 100 arg ph c acc = Inr s' \<and> s' = ?z"
      using conv_cell_int [of one_pixel i j 100 M arg ph acc] \<open>acc = ?z\<close>
      by (auto simp: abs_le_iff)
  qed simp
  then have cells: "foldM (conv_cell M one_pixel 100 arg ph) (concat (map (\<lambda>j. map (\<lambda>i. (i, j)) ?vs) ?vs)) ?z = Inr ?z"
    by blast
  have s: "s32 (100 + s32 (0 * bwidth one_pixel)) = 100" by (simp add: int32_def)
  show ?thesis by (simp only: convolution_def Let_def loop s rbind_Inr cells)
qed

lemma one_set_sizes: "scales one_set = 1" "angles one_set = 1" "save_width one_set = 1" "load_width one_set = 1"
  using fp_int [of 1] fp_int [of 0] fp_int [of 2] fp_to_int_of_int [of 1]
  by (simp_all add: save_width_def load_width_def scales_def angles_def one_set_def fp_sub_def fp_of_int_def int32_def)

lemma one_set_start: "j_start one_set = Fin 1"
  by (simp add: one_set_def)

definition two_pixels :: IMAGE where
  "two_pixels = \<lparr>file_size = 0, data_ofset = 54, bwidth = 2, bheight = 1, bitCount = 24, head_at = NULL, data_at = 1\<rparr>"

lemma two_pixels_past:
  "g_j arg = Fin 1 \<Longrightarrow> convolution 32 M two_pixels 1 0 arg [Some [zero_data, zero_data]] = Inl OutOfBounds"
  by (rule convolution_reads_past [where xs = "[zero_data, zero_data]"])
    (simp_all add: two_pixels_def zero_data_def block_def NULL_def)

lemma one_set_features:
  "features_of 32 M one_set arg one_pixel [] [(100, 0)] = Inr [Fin 0]"
  "features_of 32 M one_set arg two_pixels [Some [zero_data, zero_data]] [(1, 0)] = Inl OutOfBounds"
  by (simp_all add: features_of_def columns_def one_set_sizes far_convolution two_pixels_past
    arg_at_def advance_def one_set_start)

lemma one_graph_holds:
  "holds [Some [pt x y]] (pt_list one_graph) (pts [(x, y)])" "holds es (edge_list one_graph) (edges_of [])"
  "holds [Some [None]] (feature one_graph) [None]"
  "holds [Some [pt x y]] (pt_list one_graph) [pt x y]" "pts [(x, y)] = [pt x y]"
  "count one_graph = 1" "line_count one_graph = 0"
  by (simp_all add: holds_def one_graph_def block_def NULL_def pts_def edges_of_def)

lemma one_mem_sel: "points one_mem = [Some [pt 100 0]]" "edges one_mem = []" "features one_mem = [Some [None]]"
  by (simp_all add: one_mem_def)

lemma one_graph_delete: "\<exists>o' h'. DeleteGraph one_graph one_mem = Inr (o', h')"
  by (simp add: DeleteGraph_def one_graph_def one_mem_def mem_free_def block_def NULL_def)

theorem graph_file_roundtrip_witness:
  "\<forall>M arg. (\<exists>bs m' l t. SaveGraphFile 32 M (\<lambda>_. replicate 8 0) True one_set arg one_pixel [65, 0] one_graph [] one_mem =
      Inr (bs, m') \<and>
    LoadGraphFile (\<lambda>_. Fin 0) (Some bs) one_set [None] one_graph one_mem = Inr (l, [Some 65], t) \<and>
    count l = 1 \<and> holds (points t) (pt_list l) [pt 100 0] \<and> holds (features t) (feature l) [Some (Fin 0)]) \<and>
    SaveGraphFile 32 M (\<lambda>_. replicate 8 0) True one_set arg two_pixels [65, 0] one_graph [Some [zero_data, zero_data]]
      (one_mem\<lparr>points := [Some [pt 1 0]]\<rparr>) = Inl OutOfBounds"
proof (intro allI conjI)
  fix M arg
  note sizes = one_graph_holds one_mem_sel int32_pairs_def one_set_sizes number_ok_def int32_def
  obtain o' h' where d: "DeleteGraph one_graph one_mem = Inr (o', h')" using one_graph_delete by blast
  from graph_file_roundtrip [where xys = "[(100, 0)]" and ses = "[]" and ys = "[None]" and g = one_graph and m = one_mem
      and st = one_set and nm = "[65]" and r = "[]" and buf = "[None]" and fuel = 32 and M = M and arg = arg
      and im = one_pixel and ph = "[]" and dbl = "\<lambda>_. replicate 8 0" and undbl = "\<lambda>_. Fin 0", OF _ _ _ _ _ _ _ _ _ _ _ _ _ _ _ _ _ _ d]
  show "\<exists>bs m' l t. SaveGraphFile 32 M (\<lambda>_. replicate 8 0) True one_set arg one_pixel [65, 0] one_graph [] one_mem =
      Inr (bs, m') \<and>
    LoadGraphFile (\<lambda>_. Fin 0) (Some bs) one_set [None] one_graph one_mem = Inr (l, [Some 65], t) \<and>
    count l = 1 \<and> holds (points t) (pt_list l) [pt 100 0] \<and> holds (features t) (feature l) [Some (Fin 0)]"
    by (simp add: sizes one_set_features) blast
  from graph_file_roundtrip [where xys = "[(1, 0)]" and ses = "[]" and ys = "[None]" and g = one_graph
      and m = "one_mem\<lparr>points := [Some [pt 1 0]]\<rparr>"
      and st = one_set and nm = "[65]" and r = "[]" and buf = "[None]" and fuel = 32 and M = M and arg = arg
      and im = two_pixels and ph = "[Some [zero_data, zero_data]]" and dbl = "\<lambda>_. replicate 8 0", OF _ _ _ _ _ _ _ _ _ _ _ _ _ _ _ _ _ _ d]
  show "SaveGraphFile 32 M (\<lambda>_. replicate 8 0) True one_set arg two_pixels [65, 0] one_graph [Some [zero_data, zero_data]]
      (one_mem\<lparr>points := [Some [pt 1 0]]\<rparr>) = Inl OutOfBounds"
    by (simp add: sizes one_set_features)
qed

text \<open>
  Where a range does not hold a whole number of steps, writer and reader count differently: with
  one and a half scales and two angles the writer stores two features for each point, and the
  reader expects three.
\<close>

lemma widths_differ:
  assumes "j_start st = Fin 0" "j_end st = Fin 3" "j_plus st = Fin 2"
    and "rad_start st = Fin 0" "rad_end st = Fin 2" "rad_plus st = Fin 1"
  shows "save_width st = 2 \<and> load_width st = 3"
proof -
  have half: "fp_round F64 (3 / 2) = Fin (3 / 2)" by code_simp
  have "angles st = 2" using assms fp_int [of 2] fp_to_int_of_int [of 2] by (simp add: angles_def fp_sub_def int32_def)
  moreover have "\<lfloor>3 / 2 :: rat\<rfloor> = 1" by (rule floor_unique) simp_all
  then have "scales st = 1" using assms fp_int [of 3] half by (simp add: scales_def fp_sub_def int32_def)
  moreover have "load_width st = 3"
    using assms fp_int [of 3] fp_int [of 2] half \<open>angles st = 2\<close> fp_to_int_of_int [of 3] by (simp add: load_width_def fp_sub_def fp_of_int_def int32_def)
  ultimately show ?thesis by (simp add: save_width_def int32_def)
qed

end
