(* ===== verification/GuiObjects.thy ===== *)
theory GuiObjects
  imports BiImage Geometry Windows
begin

text \<open>
  The objects a window draws (\<open>gui/ImageClass.cpp\<close>, \<open>gui/TextClass.cpp\<close>, \<open>src/ImageButton.cpp\<close>):
  an image whose pixels are copied into the memory of a Windows bitmap, a text with its font,
  and a button made of an image. The bitmap memory that \<open>CreateDIBSection\<close> gives for a width
  and a height, and the font handles, are parameters.
\<close>

subsection \<open>Images in a window\<close>

record quad =
  rgbBlue :: byte
  rgbGreen :: byte
  rgbRed :: byte
  rgbReserved :: byte

record gimage =
  pic :: bi_image
  bits :: "quad list option"
  imx :: int
  imy :: int

definition setPos_i :: "int \<Rightarrow> int \<Rightarrow> gimage \<Rightarrow> gimage" where
  "setPos_i x y g = g\<lparr>imx := x, imy := y\<rparr>"

definition Image0 :: gimage where
  "Image0 = \<lparr>pic = init, bits = None, imx = 0, imy = 0\<rparr>"

definition Image2 :: "int \<Rightarrow> int \<Rightarrow> gimage res" where
  "Image2 w h = rbind (Create w h) (\<lambda>im. Inr (Image0\<lparr>pic := im\<rparr>))"

definition Initialize_i :: "(int \<Rightarrow> int \<Rightarrow> quad list) \<Rightarrow> gimage \<Rightarrow> gimage" where
  "Initialize_i createDIB g = g\<lparr>bits := Some (createDIB (width (pic g)) (height (pic g)))\<rparr>"

definition quad_of :: "pixel \<Rightarrow> quad" where
  "quad_of p = \<lparr>rgbBlue = blue p, rgbGreen = green p, rgbRed = red p, rgbReserved = 0\<rparr>"

definition blit_index :: "int \<Rightarrow> int \<Rightarrow> int \<times> int \<Rightarrow> int" where
  "blit_index w h = (\<lambda>(i, j). i + (h - 1 - j) * w)"

definition blit_cell :: "bi_image \<Rightarrow> int \<times> int \<Rightarrow> quad list \<Rightarrow> quad list res" where
  "blit_cell im c b = rbind (rdbuf (mimage im) (fst c + snd c * width im)) (\<lambda>p.
     wrbuf b (blit_index (width im) (height im) c) (quad_of p))"

definition Update_i :: "gimage \<Rightarrow> gimage res" where
  "Update_i g = (case bits g of
     None \<Rightarrow> Inl Uninit
   | Some b \<Rightarrow> rbind (foldM (blit_cell (pic g)) (raster (width (pic g)) (height (pic g))) b)
       (\<lambda>b. Inr (g\<lparr>bits := Some b\<rparr>)))"

subsection \<open>Texts\<close>

text \<open>\<open>lfFaceName\<close> of a LOGFONT has 32 characters.\<close>

record logfont =
  lfWidth :: int
  lfHeight :: int
  lfFaceName :: string

record gtext =
  logfont :: logfont
  tcolor :: "byte \<times> byte \<times> byte"
  hFont :: "nat option"
  ttext :: string
  tarea :: area

definition Text :: gtext where
  "Text = \<lparr>logfont = \<lparr>lfWidth = 0, lfHeight = 0, lfFaceName = replicate 32 (CHR 0x00)\<rparr>, tcolor = (0, 0, 0),
     hFont = None, ttext = [], tarea = area_Size 0 0 (area_Pos 0 0 Area0)\<rparr>"

definition make_font :: "(logfont \<Rightarrow> nat) \<Rightarrow> gtext \<Rightarrow> gtext" where
  "make_font create t = t\<lparr>hFont := Some (create (logfont t))\<rparr>"

definition Set_t :: "string \<Rightarrow> gtext \<Rightarrow> gtext" where
  "Set_t s t = t\<lparr>ttext := s\<rparr>"

definition Color_t :: "byte \<Rightarrow> byte \<Rightarrow> byte \<Rightarrow> gtext \<Rightarrow> gtext" where
  "Color_t r g b t = t\<lparr>tcolor := (r, g, b)\<rparr>"

definition Pos_t :: "int \<Rightarrow> int \<Rightarrow> gtext \<Rightarrow> gtext" where
  "Pos_t x y t = t\<lparr>tarea := area_Pos x y (tarea t)\<rparr>"

definition Size_t :: "(logfont \<Rightarrow> nat) \<Rightarrow> int \<Rightarrow> int \<Rightarrow> gtext \<Rightarrow> gtext" where
  "Size_t create w h t = make_font create (t\<lparr>logfont := (logfont t)\<lparr>lfWidth := w, lfHeight := h\<rparr>\<rparr>)"

definition AreaSize :: "int \<Rightarrow> int \<Rightarrow> gtext \<Rightarrow> gtext" where
  "AreaSize w h t = t\<lparr>tarea := area_Size w h (tarea t)\<rparr>"

text \<open>\<open>strcpy\<close> writes the characters of the name and a zero.\<close>

definition strcpy :: "string \<Rightarrow> string \<Rightarrow> string res" where
  "strcpy dest src = foldM (\<lambda>(i, c) d. wrbuf d (int i) c) (enumerate 0 (src @ [CHR 0x00])) dest"

definition Font :: "(logfont \<Rightarrow> nat) \<Rightarrow> string \<Rightarrow> gtext \<Rightarrow> gtext res" where
  "Font create fontname t = rbind (strcpy (lfFaceName (logfont t)) fontname) (\<lambda>name.
     Inr (make_font create (t\<lparr>logfont := (logfont t)\<lparr>lfFaceName := name\<rparr>\<rparr>)))"

subsection \<open>Buttons\<close>

record button =
  barea :: area
  bimage :: gimage

definition setPos_b :: "int \<Rightarrow> int \<Rightarrow> button \<Rightarrow> button" where
  "setPos_b x y b = b\<lparr>barea := area_Pos x y (barea b)\<rparr>"

definition setImage_b :: "gimage \<Rightarrow> button \<Rightarrow> button" where
  "setImage_b img b = (let im = setPos_i (mx (barea b)) (my (barea b)) img in
     b\<lparr>bimage := im, barea := area_Size (width (pic im)) (height (pic im)) (barea b)\<rparr>)"

definition isOnMouse :: "int \<times> int \<Rightarrow> button \<Rightarrow> bool" where
  "isOnMouse pt b \<longleftrightarrow> HitCheck (barea b) (fst pt) (snd pt)"

definition isClick :: "int \<times> int \<Rightarrow> (m_button \<Rightarrow> byte) \<Rightarrow> window \<Rightarrow> m_button \<Rightarrow> button \<Rightarrow> bool" where
  "isClick pt btn wd which b \<longleftrightarrow> isOnMouse pt b \<and> Click pt btn wd which"

subsection \<open>Drawing\<close>

text \<open>
  The GDI calls of \<open>Draw\<close> and \<open>Delete\<close>, in their order; they draw into the context of the window
  an object belongs to.
\<close>

datatype gdi = SetTextColor "byte \<times> byte \<times> byte" | SelectFont nat | TextOut int int string
  | BitBlt int int int int | DeleteFont nat | DeleteBitmap | DeleteDC

definition drawn_in :: "nat \<Rightarrow> gui \<Rightarrow> gdi list \<Rightarrow> gdi list res" where
  "drawn_in obj g cs = (case parent g obj of None \<Rightarrow> Inl NullDeref | Some w \<Rightarrow> rbind (win w g) (\<lambda>_. Inr cs))"

definition Draw_t :: "nat \<Rightarrow> gui \<Rightarrow> gtext \<Rightarrow> gdi list res" where
  "Draw_t obj g t = (case hFont t of None \<Rightarrow> Inl Uninit
     | Some f \<Rightarrow> drawn_in obj g [SetTextColor (tcolor t), SelectFont f, TextOut (mx (tarea t)) (my (tarea t)) (ttext t)])"

definition Delete_t :: "gtext \<Rightarrow> gdi list res" where
  "Delete_t t = (case hFont t of None \<Rightarrow> Inl Uninit | Some f \<Rightarrow> Inr [DeleteFont f])"

definition Draw_i :: "nat \<Rightarrow> gui \<Rightarrow> gimage \<Rightarrow> gdi list res" where
  "Draw_i obj g i = drawn_in obj g [BitBlt (imx i) (imy i) (width (pic i)) (height (pic i))]"

definition Delete_i :: "gimage \<Rightarrow> gdi list" where
  "Delete_i i = [DeleteBitmap, DeleteDC]"

text \<open>A button passes these on to its image, which belongs to the same window.\<close>

definition Initialize_b :: "(int \<Rightarrow> int \<Rightarrow> quad list) \<Rightarrow> button \<Rightarrow> button" where
  "Initialize_b createDIB b = b\<lparr>bimage := Initialize_i createDIB (bimage b)\<rparr>"

definition Update_b :: "button \<Rightarrow> button res" where
  "Update_b b = rbind (Update_i (bimage b)) (\<lambda>i. Inr (b\<lparr>bimage := i\<rparr>))"

definition Draw_b :: "nat \<Rightarrow> gui \<Rightarrow> button \<Rightarrow> gdi list res" where
  "Draw_b obj g b = Draw_i obj g (bimage b)"

definition Delete_b :: "button \<Rightarrow> gdi list" where
  "Delete_b b = Delete_i (bimage b)"

text \<open>An object that was never added to a window has no context to draw into.\<close>

lemma drawn_nowhere: "parent g obj = None \<Longrightarrow> Draw_i obj g i = Inl NullDeref \<and>
    (hFont t = Some f \<longrightarrow> Draw_t obj g t = Inl NullDeref)"
  by (simp add: Draw_i_def Draw_t_def drawn_in_def)

text \<open>
  \<open>Size\<close> and \<open>Font\<close> replace the font without deleting it: of all the fonts of a text only the
  last one is deleted with it.
\<close>

lemma one_font_deleted: "Delete_t (Size_t create w2 h2 (Size_t create w1 h1 t)) =
    Inr [DeleteFont (create ((logfont t)\<lparr>lfWidth := w2, lfHeight := h2\<rparr>))]"
  by (simp add: Delete_t_def Size_t_def make_font_def)

subsection \<open>What a window shows of an image\<close>

text \<open>A list as a store of cells, for the bitmap memory.\<close>

interpretation dib: cell_store length "\<lambda>n k. k < n" "(!)" "\<lambda>xs k v. xs[k := v]"
  by unfold_locales (simp_all add: nth_list_update)

lemma wrbuf_nat: "k < length b \<Longrightarrow> wrbuf b (int k) v = Inr (b[k := v])"
  by simp

lemma blit_in:
  assumes "0 \<le> i" "i < w" "0 \<le> j" "j < (h :: int)"
  shows "0 \<le> blit_index w h (i, j) \<and> blit_index w h (i, j) < w * h"
  using index_less [of i w "h - 1 - j" h] assms by (simp add: blit_index_def)

text \<open>The cell whose pixel goes to the index \<open>k\<close> of the bitmap.\<close>

definition blit_source :: "int \<Rightarrow> int \<Rightarrow> int \<Rightarrow> int \<times> int" where
  "blit_source w h k = (k mod w, h - 1 - k div w)"

lemma blit_source_index:
  "0 \<le> i \<Longrightarrow> i < w \<Longrightarrow> blit_source w h (blit_index w h (i, j)) = (i, j)"
  by (simp add: blit_source_def blit_index_def)

lemma distinct_blit:
  assumes "0 \<le> w" "0 \<le> h"
  shows "distinct (map (\<lambda>c. nat (blit_index w h c)) (raster w h))"
proof -
  have "inj_on (\<lambda>c. nat (blit_index w h c)) (set (raster w h))"
  proof (rule inj_onI)
    fix a b assume a: "a \<in> set (raster w h)" and b: "b \<in> set (raster w h)"
      and eq: "nat (blit_index w h a) = nat (blit_index w h b)"
    obtain i j k l where c: "a = (i, j)" "b = (k, l)" by (cases a, cases b)
    have r: "0 \<le> i" "i < w" "0 \<le> j" "j < h" "0 \<le> k" "k < w" "0 \<le> l" "l < h"
      using a b c by (auto simp: set_raster)
    have "blit_index w h a = blit_index w h b"
      using eq blit_in [OF r(1-4)] blit_in [OF r(5-8)] by (simp only: c eq_nat_nat_iff)
    then have "blit_source w h (blit_index w h a) = blit_source w h (blit_index w h b)" by (rule arg_cong)
    then show "a = b"
      unfolding c blit_source_index [OF r(1,2)] blit_source_index [OF r(5,6)] .
  qed
  then show ?thesis by (simp add: distinct_map distinct_raster)
qed

lemma blit_all:
  assumes "wf_img im" "width im * height im \<le> int (length b)"
  shows "\<exists>t. foldM (blit_cell im) (raster (width im) (height im)) b = Inr t \<and> length t = length b \<and>
    (\<forall>x y. inside im x y \<longrightarrow> t ! nat (blit_index (width im) (height im) (x, y)) = quad_of (cell im (x, y))) \<and>
    (\<forall>k < length b. width im * height im \<le> int k \<longrightarrow> t ! k = b ! k)"
proof -
  let ?w = "width im" and ?h = "height im"
  let ?ix = "\<lambda>c. nat (blit_index ?w ?h c)"
  let ?src = "\<lambda>k. blit_source ?w ?h (int k)"
  have dims: "0 \<le> ?w" "0 \<le> ?h" using assms(1) by (simp_all add: wf_img_def)
  have pos: "0 \<le> blit_index ?w ?h c \<and> blit_index ?w ?h c < ?w * ?h" "?src (?ix c) = c"
    if "c \<in> set (raster ?w ?h)" for c
  proof -
    obtain i j where c: "c = (i, j)" by (cases c)
    then have "0 \<le> i" "i < ?w" "0 \<le> j" "j < ?h" using that by (simp_all add: set_raster)
    with c show "0 \<le> blit_index ?w ?h c \<and> blit_index ?w ?h c < ?w * ?h" "?src (?ix c) = c"
      using blit_in [of i ?w j ?h] blit_source_index [of i ?w ?h j] by simp_all
  qed
  have "\<exists>t. foldM (\<lambda>k. blit_cell im (?src k)) (map ?ix (raster ?w ?h)) b = Inr t \<and> length t = length b \<and>
    (\<forall>k. k < length b \<longrightarrow> t ! k = (if k \<in> set (map ?ix (raster ?w ?h))
      then quad_of (cell im (?src k)) else b ! k))"
  proof (rule dib.sweep [OF distinct_blit [OF dims]])
    fix k assume k: "k \<in> set (map ?ix (raster ?w ?h))"
    then obtain c where c: "c \<in> set (raster ?w ?h)" "k = ?ix c" by auto
    then show "k < length b" using pos(1) [OF c(1)] assms(2) by (simp add: nat_less_iff)
    fix t :: "quad list" assume "length t = length b"
    then have "wrbuf t (blit_index ?w ?h c) v = Inr (t[k := v])" for v :: quad
      using pos(1) [OF c(1)] assms(2) c(2) by simp
    moreover obtain i j where ij: "c = (i, j)" by (cases c)
    then have "inside im i j" using c(1) by (simp add: set_raster_inside)
    with ij have "rdbuf (mimage im) (fst c + snd c * ?w) = Inr (cell im c)" using raw_read [OF assms(1)] by simp
    ultimately show "blit_cell im (?src k) t = Inr (t[k := quad_of (cell im (?src k))])"
      using pos(2) [OF c(1)] c(2) by (simp add: blit_cell_def)
  qed
  then obtain t where t: "foldM (\<lambda>k. blit_cell im (?src k)) (map ?ix (raster ?w ?h)) b = Inr t" "length t = length b"
    "\<And>k. k < length b \<Longrightarrow> t ! k = (if k \<in> set (map ?ix (raster ?w ?h)) then quad_of (cell im (?src k)) else b ! k)"
    by blast
  have "foldM (blit_cell im) (raster ?w ?h) b = foldM (\<lambda>k. blit_cell im (?src k)) (map ?ix (raster ?w ?h)) b"
    unfolding foldM_map by (rule foldM_cong_set) (simp only: pos(2))
  moreover have "t ! ?ix (x, y) = quad_of (cell im (x, y))" if "inside im x y" for x y
  proof -
    have c: "(x, y) \<in> set (raster ?w ?h)" using that by (simp add: set_raster_inside)
    then show ?thesis using t(3) [of "?ix (x, y)"] pos [OF c] assms(2) by auto
  qed
  moreover have "t ! k = b ! k" if "k < length b" "?w * ?h \<le> int k" for k
    using t(3) [OF that(1)] pos(1) that(2) by fastforce
  ultimately show ?thesis using t(1,2) by auto
qed

text \<open>
  C28: \<open>Update\<close> copies the picture upside down, as the bitmaps of Windows want it: when the
  bitmap has room for the picture, the quad of each pixel goes to its column in the row counted
  from below, and what lies behind the picture in the bitmap is untouched.
\<close>

theorem Update_flips:
  assumes "wf_img (pic g)" "bits g = Some b" "width (pic g) * height (pic g) \<le> int (length b)"
  shows "\<exists>t. Update_i g = Inr (g\<lparr>bits := Some t\<rparr>) \<and> length t = length b \<and>
    (\<forall>x y. inside (pic g) x y \<longrightarrow>
      t ! nat (x + (height (pic g) - 1 - y) * width (pic g)) = quad_of (cell (pic g) (x, y))) \<and>
    (\<forall>k < length b. width (pic g) * height (pic g) \<le> int k \<longrightarrow> t ! k = b ! k)"
  using blit_all [OF assms(1,3)] assms(2) by (auto simp: Update_i_def blit_index_def)

theorem Update_flips_witness:
  "\<exists>t. Update_i (Image0\<lparr>pic := sample_img, bits := Some (replicate 12 (quad_of Pixel0))\<rparr>) =
     Inr (Image0\<lparr>pic := sample_img, bits := Some t\<rparr>) \<and> t ! 1 = quad_of (cell sample_img (1, height sample_img - 1))"
proof -
  let ?g = "Image0\<lparr>pic := sample_img, bits := Some (replicate 12 (quad_of Pixel0))\<rparr>"
  have "wf_img sample_img" "inside sample_img 1 (height sample_img - 1)" "width sample_img * height sample_img \<le> 12"
    by (simp_all add: inside_def)
  then show ?thesis
    using Update_flips [of ?g "replicate 12 (quad_of Pixel0)"] by force
qed

text \<open>
  The bitmap is made once, for the size of that moment. A picture that has grown since is
  copied past its end: there is no bounds check but the one against the picture's own size.
\<close>

lemma blit_row0:
  assumes "foldM (blit_cell im) cs b = Inr t" "c \<in> set cs"
  shows "blit_index (width im) (height im) c < int (length b)"
  using assms
proof (induction cs arbitrary: b)
  case (Cons d cs)
  obtain b' where b': "blit_cell im d b = Inr b'" "foldM (blit_cell im) cs b' = Inr t"
    using Cons.prems(1) by (auto simp: rbind_eq_Inr)
  have "length b' = length b" "blit_index (width im) (height im) d < int (length b)"
    using b'(1) by (auto simp: blit_cell_def rbind_eq_Inr wrbuf_def split: if_splits)
  then show ?case using Cons.IH [OF b'(2)] Cons.prems(2) by auto
qed simp

theorem Update_overruns:
  assumes "wf_img (pic g)" "0 < width (pic g)" "0 < height (pic g)"
    and "bits g = Some b" "int (length b) < width (pic g) * height (pic g)"
  shows "Update_i g = Inl OutOfBounds"
proof -
  let ?im = "pic g"
  let ?loop = "foldM (blit_cell ?im) (raster (width ?im) (height ?im))"
  have c: "(width ?im - 1, 0) \<in> set (raster (width ?im) (height ?im))" using assms(2,3) by (simp add: set_raster)
  have "blit_index (width ?im) (height ?im) (width ?im - 1, 0) = width ?im * height ?im - 1"
    by (simp add: blit_index_def algebra_simps)
  then have "?loop b \<noteq> Inr t" for t using blit_row0 [OF _ c, of ?im b t] assms(5) by auto
  moreover have "e = OutOfBounds" if "?loop b = Inl e" for e
  proof -
    have "foldM (blit_cell ?im) cs b' = Inl e \<Longrightarrow> set cs \<subseteq> set (raster (width ?im) (height ?im)) \<Longrightarrow> e = OutOfBounds" for cs b'
    proof (induction cs arbitrary: b')
      case (Cons d cs)
      have "inside ?im (fst d) (snd d)" using Cons.prems(2) by (cases d) (auto simp: set_raster_inside)
      then have "blit_cell ?im d b' = wrbuf b' (blit_index (width ?im) (height ?im) d) (quad_of (cell ?im d))"
        using raw_read [OF assms(1)] by (simp add: blit_cell_def)
      then show ?case using Cons by (auto simp: wrbuf_def split: if_splits)
    qed simp
    then show ?thesis using that by blast
  qed
  ultimately show ?thesis using assms(4) by (cases "?loop b") (auto simp: Update_i_def)
qed

theorem Update_overruns_witness:
  "Update_i (Image0\<lparr>pic := sample_img, bits := Some [quad_of Pixel0]\<rparr>) = Inl OutOfBounds"
  by (rule Update_overruns [where b = "[quad_of Pixel0]"]) simp_all

subsection \<open>Fonts and buttons\<close>

text \<open>A font name of 32 characters or more is copied past the end of the 32 of \<open>lfFaceName\<close>.\<close>

lemma writes_past:
  "length (d :: 'a list) < k + length xs \<Longrightarrow> k \<le> length d \<Longrightarrow>
     foldM (\<lambda>(i, c) d. wrbuf d (int i) c) (enumerate k xs) d = Inl OutOfBounds"
proof (induction xs arbitrary: k d)
  case (Cons x xs)
  show ?case
  proof (cases "k < length d")
    case True
    then show ?thesis using Cons.IH [of "d[k := x]" "Suc k"] Cons.prems by simp
  qed (simp add: wrbuf_def)
qed simp

theorem long_font_name:
  assumes "32 \<le> length fontname" "length (lfFaceName (logfont t)) = 32"
  shows "Font create fontname t = Inl OutOfBounds"
  using writes_past [of "lfFaceName (logfont t)" 0 "fontname @ [CHR 0x00]"] assms
  by (simp add: Font_def strcpy_def)

theorem long_font_name_witness: "Font (\<lambda>_. 1) (replicate 40 (CHR ''a'')) Text = Inl OutOfBounds"
  by (rule long_font_name) (simp_all add: Text_def)

text \<open>A button that is moved after its image was set is hit where its image is not.\<close>

lemma moved_button:
  "imx (bimage (setPos_b x y (setImage_b img (setPos_b u v b)))) = u \<and>
   mx (barea (setPos_b x y (setImage_b img (setPos_b u v b)))) = x"
  by (simp add: setPos_b_def setImage_b_def setPos_i_def area_Pos_def area_Size_def Let_def)

end
