(* ===== verification/Labeling.thy ===== *)
theory Labeling
  imports Filters
begin

text \<open>
  \<open>ImageUtil::Labeling\<close> and what works on its labels: two raster passes that give each white
  pixel the least label around it and record in a lookup table which labels met, the
  resolution of the table to its roots, and the extraction of objects by label and by size.
\<close>

subsection \<open>The lookup table\<close>

definition min_calc :: "int list \<Rightarrow> int" where
  "min_calc p = foldl (\<lambda>m v. if v \<noteq> 0 then (if v < m then v else m) else m) 65535 p"

text \<open>
  \<open>Lookup_update\<close> follows the table until an entry that is its own. The fuel is one more than
  the entries: a walk that long has met an entry twice and never ends.
\<close>

fun lookup_walk :: "nat \<Rightarrow> int \<Rightarrow> int list \<Rightarrow> int res" where
  "lookup_walk 0 i label = Inl Hang"
| "lookup_walk (Suc n) i label =
     rbind (rdbuf label i) (\<lambda>l. if i = l then Inr l else lookup_walk n l label)"

definition Lookup_update :: "int \<Rightarrow> int list \<Rightarrow> int res" where
  "Lookup_update i label = lookup_walk (Suc (length label)) i label"

subsection \<open>Labeling\<close>

text \<open>The state: \<open>Lookup_table\<close>, \<open>label_list\<close> and \<open>label_count\<close>.\<close>

type_synonym lab = "int list \<times> int list \<times> int"

definition neighbours :: "int \<Rightarrow> int \<Rightarrow> int \<Rightarrow> int list \<Rightarrow> int list res" where
  "neighbours W w h lbl =
     mapM (\<lambda>i. rdbuf lbl ((w + i mod 3 - 1) + (h + i div 3 - 1) * W)) [0, 1, 2, 3, 5, 6, 7, 8]"

text \<open>The labels around that are not the least one are recorded as its equals.\<close>

definition record_min :: "int \<Rightarrow> int list \<Rightarrow> int list \<Rightarrow> int list res" where
  "record_min m = foldM (\<lambda>v tab.
     if v \<noteq> m \<and> v \<noteq> 0
     then rbind (rdbuf tab v) (\<lambda>old. if m \<le> old then wrbuf tab v m else Inr tab)
     else Inr tab)"

definition label_pixel :: "bi_image \<Rightarrow> int \<Rightarrow> int \<Rightarrow> lab \<Rightarrow> lab res" where
  "label_pixel im w h = (\<lambda>(tab, lbl, cnt).
     rbind (Get im w h) (\<lambda>p.
       if Lightness p = 255
       then rbind (neighbours (width im) w h lbl) (\<lambda>ns.
         if length (filter (\<lambda>v. v = 0) ns) = 8
         then rbind (wrbuf lbl (w + h * width im) cnt) (\<lambda>lbl. Inr (tab, lbl, cnt + 1))
         else let m = min_calc ns in
           rbind (record_min m ns tab) (\<lambda>tab.
           rbind (wrbuf lbl (w + h * width im) m) (\<lambda>lbl. Inr (tab, lbl, cnt))))
       else Inr (tab, lbl, cnt)))"

definition resolve :: "int \<Rightarrow> int list \<Rightarrow> int list res" where
  "resolve cnt = foldM (\<lambda>h tab.
     rbind (rdbuf tab h) (\<lambda>v.
       if h \<noteq> v then rbind (Lookup_update h tab) (\<lambda>r. wrbuf tab h r) else Inr tab)) [0..cnt - 1]"

definition relabel :: "int \<Rightarrow> int \<Rightarrow> int list \<Rightarrow> int list \<Rightarrow> int list res" where
  "relabel W H tab = foldM (\<lambda>(w, h) lbl.
     rbind (rdbuf lbl (w + h * W)) (\<lambda>v.
       if v \<noteq> 0 then rbind (rdbuf tab v) (\<lambda>r. wrbuf lbl (w + h * W) r) else Inr lbl)) (raster W H)"

definition label_pass :: "bi_image \<Rightarrow> lab \<Rightarrow> lab res" where
  "label_pass im s =
     rbind (foldM (\<lambda>(w, h). label_pixel im w h) (interior im) s) (\<lambda>(tab, lbl, cnt).
     rbind (resolve cnt tab) (\<lambda>tab.
     rbind (relabel (width im) (height im) tab lbl) (\<lambda>lbl. Inr (tab, lbl, cnt))))"

text \<open>The final labels number the roots in the order of the table.\<close>

definition number_roots :: "int \<Rightarrow> int list \<Rightarrow> int list \<times> int \<Rightarrow> (int list \<times> int) res" where
  "number_roots cnt tab = foldM (\<lambda>h (sub, i).
     rbind (rdbuf tab h) (\<lambda>r. rbind (rdbuf sub r) (\<lambda>v.
       if v = - 1 then rbind (wrbuf sub r i) (\<lambda>sub. Inr (sub, i + 1)) else Inr (sub, i)))) [0..cnt - 1]"

definition final_table :: "int \<Rightarrow> int list \<Rightarrow> int list \<Rightarrow> int list res" where
  "final_table cnt sub = foldM (\<lambda>h tab.
     rbind (rdbuf tab h) (\<lambda>r. rbind (rdbuf sub r) (\<lambda>v. wrbuf tab h v))) [0..cnt - 1]"

definition write_labels :: "int list \<Rightarrow> int list \<Rightarrow> bi_image \<Rightarrow> bi_image res" where
  "write_labels tab lbl im =
     for_each im (\<lambda>w h im.
       rbind (rdbuf lbl (w + h * width im)) (\<lambda>v.
         if v \<noteq> 0
         then rbind (Get im w h) (\<lambda>p. rbind (rdbuf tab v) (\<lambda>l. Put w h (setLabel l p) im))
         else Inr im)) im"

text \<open>
  Not represented: in the end the code gives two of its three tables, which come from \<open>new[]\<close>, to
  \<open>free\<close>, and does not release the third (\<open>ImageUtilClass.cpp:1128-1129\<close>); the tables are values
  here.
\<close>

definition Labeling :: "bi_image \<Rightarrow> (int \<times> bi_image) res" where
  "Labeling im =
     (let size = s32 (width im * height im) in
      if size < 0 then Inl BadAlloc
      else rbind (foldM (\<lambda>_. label_pass im) [0..1] ([0..size - 1], replicate (nat size) 0, 1))
        (\<lambda>(tab, lbl, cnt).
      rbind (number_roots cnt tab (replicate (nat size) (- 1), 0)) (\<lambda>(sub, label).
      rbind (final_table cnt sub tab) (\<lambda>tab.
      rbind (write_labels tab lbl im) (\<lambda>im. Inr (label, im))))))"

subsection \<open>Objects\<close>

definition SamplingObject :: "bi_image \<Rightarrow> int \<Rightarrow> (int \<times> bi_image) res" where
  "SamplingObject im label =
     for_each im (\<lambda>i j (count, im).
       rbind (Get im i j) (\<lambda>p.
         if plabel p = label
         then rbind (Put i j (setLightness 255 p) im) (\<lambda>im. Inr (count + 1, im))
         else rbind (Put i j (setLightness 0 p) im) (\<lambda>im. Inr (count, im)))) (0, im)"

text \<open>\<open>area_map\<close> holds the sizes by label, its entries visited in the order of the labels.\<close>

definition area_map :: "bi_image \<Rightarrow> (int \<Rightarrow> int option) res" where
  "area_map im =
     for_each im (\<lambda>i j m.
       rbind (Get im i j) (\<lambda>p. let l = plabel p in
         Inr (if l \<noteq> 0 then m(l \<mapsto> (case m l of None \<Rightarrow> 0 | Some n \<Rightarrow> n) + 1) else m))) Map.empty"

definition labels_of :: "bi_image \<Rightarrow> int list" where
  "labels_of im = sorted_list_of_set (set (map plabel (mimage im)))"

definition largest :: "(int \<Rightarrow> int option) \<Rightarrow> int list \<Rightarrow> int \<times> int option" where
  "largest m ls =
     foldl (\<lambda>(mx, best) l. case m l of
        Some n \<Rightarrow> if mx < n then (n, Some l) else (mx, best)
      | None \<Rightarrow> (mx, best)) (0, None) ls"

definition SamplingLargeObject :: "bi_image \<Rightarrow> (int \<times> bi_image) res" where
  "SamplingLargeObject im =
     rbind (area_map im) (\<lambda>m.
     case snd (largest m (labels_of im)) of
       None \<Rightarrow> Inl Uninit
     | Some l \<Rightarrow> rbind (SamplingObject im l) (\<lambda>(_, im). Inr (l, im)))"

subsection \<open>Tables whose entries never increase\<close>

text \<open>
  The invariant of the lookup table: no entry is larger than its index, and only entry zero is
  zero. Then every walk goes down and ends at a root.
\<close>

definition down :: "int list \<Rightarrow> bool" where
  "down tab \<longleftrightarrow> (\<forall>i. 0 \<le> i \<longrightarrow> i < int (length tab) \<longrightarrow>
     0 \<le> tab ! nat i \<and> tab ! nat i \<le> i \<and> (0 < i \<longrightarrow> 0 < tab ! nat i))"

lemma down_entry:
  "down tab \<Longrightarrow> 0 \<le> i \<Longrightarrow> i < int (length tab) \<Longrightarrow>
     0 \<le> tab ! nat i \<and> tab ! nat i \<le> i \<and> (0 < i \<longrightarrow> 0 < tab ! nat i)"
  by (simp add: down_def)

lemma down_write:
  assumes "down tab" "0 \<le> v" "v \<le> i" "0 < i \<longrightarrow> 0 < v" "i < int (length tab)"
  shows "down (tab[nat i := v])"
  using assms by (auto simp: down_def nth_list_update)

lemma down_upto: "down [0..n - 1]"
  by (auto simp: down_def)

lemma lookup_walk_root:
  assumes e: "\<And>i. 0 \<le> i \<Longrightarrow> i < int (length tab) \<Longrightarrow> 0 \<le> tab ! nat i \<and> tab ! nat i \<le> i"
  shows "0 \<le> i \<Longrightarrow> i < int (length tab) \<Longrightarrow> nat i < n \<Longrightarrow>
    \<exists>r. lookup_walk n i tab = Inr r \<and> 0 \<le> r \<and> r \<le> i \<and> tab ! nat r = r \<and> (down tab \<and> 0 < i \<longrightarrow> 0 < r)"
proof (induction n arbitrary: i)
  case (Suc n)
  note ei = e [OF Suc.prems(1,2)]
  show ?case
  proof (cases "tab ! nat i = i")
    case True
    then show ?thesis using Suc.prems by simp
  next
    case False
    then have lt: "tab ! nat i < i" using ei by simp
    have "\<exists>r. lookup_walk n (tab ! nat i) tab = Inr r \<and> 0 \<le> r \<and> r \<le> tab ! nat i \<and>
      tab ! nat r = r \<and> (down tab \<and> 0 < tab ! nat i \<longrightarrow> 0 < r)"
      using ei lt Suc.prems by (intro Suc.IH) auto
    moreover have "down tab \<and> 0 < i \<Longrightarrow> 0 < tab ! nat i"
      using down_entry [of tab i] Suc.prems by simp
    ultimately show ?thesis
      using False Suc.prems ei lt by auto
  qed
qed simp

lemma Lookup_update_ok:
  "down tab \<Longrightarrow> 0 \<le> i \<Longrightarrow> i < int (length tab) \<Longrightarrow>
     \<exists>r. Lookup_update i tab = Inr r \<and> 0 \<le> r \<and> r \<le> i \<and> (0 < i \<longrightarrow> 0 < r) \<and> tab ! nat r = r"
  unfolding Lookup_update_def
  using lookup_walk_root [of tab i "Suc (length tab)"] down_entry [of tab] by force

text \<open>
  The recursion of \<open>Lookup_update\<close> ends on every table whose entries are at most their
  indices, and returns a root no larger than where it started.
\<close>

theorem Lookup_update_root:
  assumes "\<forall>i. 0 \<le> i \<and> i < int (length tab) \<longrightarrow> 0 \<le> tab ! nat i \<and> tab ! nat i \<le> i"
    and "0 \<le> i" and "i < int (length tab)"
  shows "\<exists>r. Lookup_update i tab = Inr r \<and> 0 \<le> r \<and> r \<le> i \<and> tab ! nat r = r"
  unfolding Lookup_update_def
  using lookup_walk_root [of tab i "Suc (length tab)"] assms by force

theorem Lookup_update_root_witness: "\<exists>r. Lookup_update 3 [0, 1, 1, 2] = Inr r \<and> [0, 1, 1, 2] ! nat r = r"
proof -
  have "\<forall>i. 0 \<le> i \<and> i < int (length [0, 1, 1, 2 :: int]) \<longrightarrow>
    0 \<le> [0, 1, 1, 2 :: int] ! nat i \<and> [0, 1, 1, 2] ! nat i \<le> i"
  proof (intro allI impI)
    fix i :: int assume "0 \<le> i \<and> i < int (length [0, 1, 1, 2 :: int])"
    then have "i = 0 \<or> i = 1 \<or> i = 2 \<or> i = 3" by auto
    then show "0 \<le> [0, 1, 1, 2 :: int] ! nat i \<and> [0, 1, 1, 2] ! nat i \<le> i" by auto
  qed
  from Lookup_update_root [OF this, of 3] show ?thesis by auto
qed

subsection \<open>One pixel\<close>

text \<open>The least label around is positive, and at most each label that is not zero.\<close>

lemma min_calc_fold:
  assumes "0 < (m :: int)"
  shows "let r = foldl (\<lambda>m v. if v \<noteq> 0 then (if v < m then v else m) else m) m p in
    (\<forall>v \<in> set p. 0 \<le> v) \<longrightarrow> 0 < r \<and> r \<le> m \<and> (\<forall>v \<in> set p. v \<noteq> 0 \<longrightarrow> r \<le> v) \<and> (r = m \<or> r \<in> set p)"
  using assms
proof (induction p arbitrary: m)
  case (Cons v p)
  let ?m = "if v \<noteq> 0 then (if v < m then v else m) else m"
  show ?case
  proof (cases "0 < ?m")
    case True
    from Cons.IH [OF True] show ?thesis by (auto simp: Let_def split: if_splits)
  next
    case False
    then show ?thesis using Cons.prems by (auto split: if_splits)
  qed
qed simp

lemma min_calc_ok:
  assumes "\<forall>v \<in> set p. 0 \<le> v"
  shows "0 < min_calc p" and "\<forall>v \<in> set p. v \<noteq> 0 \<longrightarrow> min_calc p \<le> v"
    and "min_calc p = 65535 \<or> min_calc p \<in> set p"
  using min_calc_fold [of 65535 p] assms by (auto simp: min_calc_def Let_def)

lemma mapM_rdbuf:
  "(\<And>x. x \<in> set xs \<Longrightarrow> 0 \<le> f x \<and> f x < int (length m)) \<Longrightarrow>
     mapM (\<lambda>x. rdbuf m (f x)) xs = Inr (map (\<lambda>x. m ! nat (f x)) xs)"
  by (rule mapM_total) simp

definition around :: "int \<Rightarrow> int \<Rightarrow> int \<Rightarrow> int list" where
  "around W w h = map (\<lambda>i. (w + i mod 3 - 1) + (h + i div 3 - 1) * W) [0, 1, 2, 3, 5, 6, 7, 8]"

lemma neighbours_ok:
  assumes "wf_img im" and "(w, h) \<in> set (interior im)" and "int (length lbl) = width im * height im"
  shows "neighbours (width im) w h lbl = Inr (map (\<lambda>n. lbl ! nat n) (around (width im) w h))"
    and "\<forall>n \<in> set (around (width im) w h). 0 \<le> n \<and> n < int (length lbl)"
    and "w + 1 + h * width im \<in> set (around (width im) w h)"
proof -
  have rng: "0 \<le> (w + i mod 3 - 1) + (h + i div 3 - 1) * width im \<and>
    (w + i mod 3 - 1) + (h + i div 3 - 1) * width im < int (length lbl)"
    if "i \<in> set [0, 1, 2, 3, 5, 6, 7, 8]" for i
  proof -
    have "0 \<le> i mod 3" "i mod 3 \<le> 2" "0 \<le> i div 3" "i div 3 \<le> 2" using that by auto
    then show ?thesis
      using assms(2) index_less [of "w + i mod 3 - 1" "width im" "h + i div 3 - 1" "height im"]
      by (auto simp: set_interior assms(3))
  qed
  show "\<forall>n \<in> set (around (width im) w h). 0 \<le> n \<and> n < int (length lbl)"
    unfolding around_def set_map by (intro ballI) (elim imageE, simp only: rng)
  show "neighbours (width im) w h lbl = Inr (map (\<lambda>n. lbl ! nat n) (around (width im) w h))"
    unfolding neighbours_def around_def map_map o_def by (rule mapM_rdbuf) (rule rng)
  show "w + 1 + h * width im \<in> set (around (width im) w h)"
    by (simp add: around_def algebra_simps)
qed

lemma record_min_ok:
  assumes "down tab" and "0 < m"
    and "\<forall>v \<in> set ns. 0 \<le> v \<and> v < int (length tab) \<and> (v \<noteq> 0 \<longrightarrow> m \<le> v)"
  shows "\<exists>t. record_min m ns tab = Inr t \<and> down t \<and> length t = length tab"
  using assms(1,3) unfolding record_min_def
proof (induction ns arbitrary: tab)
  case (Cons v ns)
  let ?f = "\<lambda>v tab. if v \<noteq> m \<and> v \<noteq> 0
    then rbind (rdbuf tab v) (\<lambda>old. if m \<le> old then wrbuf tab v m else Inr tab) else Inr tab"
  let ?t = "if v \<noteq> m \<and> v \<noteq> 0 \<and> m \<le> tab ! nat v then tab[nat v := m] else tab"
  have "down ?t"
    using Cons.prems assms(2) by (auto intro: down_write)
  then have "\<exists>t. foldM ?f ns ?t = Inr t \<and> down t \<and> length t = length ?t"
    using Cons.prems(2) by (intro Cons.IH) auto
  moreover have "?f v tab = Inr ?t"
    using Cons.prems(2) by auto
  ultimately show ?case by (auto simp only: foldM.simps rbind_Inr length_list_update split: if_splits)
qed simp

lemma inside_index_range:
  "inside im x y \<Longrightarrow> 0 \<le> x + y * width im \<and> x + y * width im < width im * height im"
  using index_less [of x "width im" y "height im"] by (simp add: inside_def)

text \<open>
  The state of the two passes: a table that goes down, and labels below the counter.
\<close>

definition lab_inv :: "bi_image \<Rightarrow> lab \<Rightarrow> bool" where
  "lab_inv im = (\<lambda>(tab, lbl, cnt).
     int (length tab) = width im * height im \<and> int (length lbl) = width im * height im \<and>
     down tab \<and> 1 \<le> cnt \<and> (\<forall>n. 0 \<le> n \<longrightarrow> n < int (length lbl) \<longrightarrow> 0 \<le> lbl ! nat n \<and> lbl ! nat n < cnt))"

lemma lab_inv_write:
  assumes "lab_inv im (tab, lbl, cnt)" and "down tab'" and "length tab' = length tab"
    and "0 \<le> v" and "v < cnt'" and "cnt \<le> cnt'"
  shows "lab_inv im (tab', lbl[nat n := v], cnt')"
proof -
  have "0 \<le> lbl[nat n := v] ! nat k \<and> lbl[nat n := v] ! nat k < cnt'"
    if "0 \<le> k" "k < int (length lbl)" for k
  proof -
    have "0 \<le> lbl ! nat k \<and> lbl ! nat k < cnt"
      using assms(1) that by (simp add: lab_inv_def)
    moreover have "nat k < length lbl" using that by simp
    ultimately show ?thesis
      using assms(4-6) by (cases "nat n = nat k") simp_all
  qed
  with assms show ?thesis by (simp add: lab_inv_def)
qed

definition white_at :: "bi_image \<Rightarrow> int \<times> int \<Rightarrow> bool" where
  "white_at im x \<longleftrightarrow> Lightness (shown im (fst x) (snd x)) = 255"

definition idx :: "bi_image \<Rightarrow> int \<times> int \<Rightarrow> int" where
  "idx im x = fst x + snd x * width im"

text \<open>A white pixel without a labelled neighbour gets a new label, any other the least label around it.\<close>

lemma label_pixel_new:
  assumes wf: "wf_img im" and int: "(w, h) \<in> set (interior im)"
    and inv: "lab_inv im (tab, lbl, cnt)" and True: "Lightness (shown im w h) = 255"
    and all: "\<forall>v \<in> set (map (\<lambda>n. lbl ! nat n) (around (width im) w h)). v = 0"
  shows "label_pixel im w h (tab, lbl, cnt) = Inr (tab, lbl[nat (w + h * width im) := cnt], cnt + 1) \<and>
    lab_inv im (tab, lbl[nat (w + h * width im) := cnt], cnt + 1) \<and> lbl ! nat (w + h * width im + 1) = 0"
proof -
  note i = inv [unfolded lab_inv_def prod.case]
  have len: "int (length lbl) = width im * height im" using i by simp
  note nb = neighbours_ok [OF wf int len]
  have idx: "0 \<le> w + h * width im" "w + h * width im < int (length lbl)"
    using inside_index_range [OF interior_inside [OF int]] len by simp_all
  let ?ns = "map (\<lambda>n. lbl ! nat n) (around (width im) w h)"
  have "length (filter (\<lambda>v. v = 0) ?ns) = 8"
    using all by (simp only: filter_True) (simp add: around_def)
  then have "label_pixel im w h (tab, lbl, cnt) = Inr (tab, lbl[nat (w + h * width im) := cnt], cnt + 1)"
    using True idx nb(1) by (simp add: label_pixel_def Get_shown [OF wf interior_inside [OF int]] del: set_map)
  moreover have "lab_inv im (tab, lbl[nat (w + h * width im) := cnt], cnt + 1)"
    using i by (intro lab_inv_write [OF inv]) simp_all
  moreover have "lbl ! nat (w + h * width im + 1) = 0"
    using all nb(3) by (auto simp: algebra_simps)
  ultimately show ?thesis by blast
qed

lemma label_pixel_least:
  assumes wf: "wf_img im" and int: "(w, h) \<in> set (interior im)"
    and inv: "lab_inv im (tab, lbl, cnt)" and True: "Lightness (shown im w h) = 255"
    and cnt: "cnt \<le> width im * height im"
    and v: "v \<in> set (map (\<lambda>n. lbl ! nat n) (around (width im) w h))" "v \<noteq> 0"
  shows "\<exists>t u. label_pixel im w h (tab, lbl, cnt) = Inr (t, lbl[nat (w + h * width im) := u], cnt) \<and>
    lab_inv im (t, lbl[nat (w + h * width im) := u], cnt) \<and> 0 < u"
proof -
  note i = inv [unfolded lab_inv_def prod.case]
  have len: "int (length lbl) = width im * height im" using i by simp
  note nb = neighbours_ok [OF wf int len]
  have idx: "0 \<le> w + h * width im" "w + h * width im < int (length lbl)"
    using inside_index_range [OF interior_inside [OF int]] len by simp_all
  let ?ns = "map (\<lambda>n. lbl ! nat n) (around (width im) w h)"
  let ?m = "min_calc ?ns"
  have ns: "0 \<le> v \<and> v < cnt" if "v \<in> set ?ns" for v
    using that nb(2) i by auto
  have "length (filter (\<lambda>v. v = 0) ?ns) < length ?ns" using v by (rule length_filter_less)
  then have nall: "length (filter (\<lambda>v. v = 0) ?ns) \<noteq> 8" by (simp add: around_def)
  have nn: "\<forall>v \<in> set ?ns. 0 \<le> v" using ns by blast
  note m = min_calc_ok [OF nn]
  have "?m \<le> v" using m(2) v by blast
  then have "?m < cnt" using ns [OF v(1)] by simp
  have "\<exists>t. record_min ?m ?ns tab = Inr t \<and> down t \<and> length t = length tab"
  proof (rule record_min_ok)
    show "\<forall>v \<in> set ?ns. 0 \<le> v \<and> v < int (length tab) \<and> (v \<noteq> 0 \<longrightarrow> ?m \<le> v)"
      using ns m(2) i cnt by fastforce
  qed (use i m(1) in simp_all)
  then obtain t where t: "record_min ?m ?ns tab = Inr t" "down t" "length t = length tab" by blast
  have "label_pixel im w h (tab, lbl, cnt) = Inr (t, lbl[nat (w + h * width im) := ?m], cnt)"
    using True idx nb(1) nall t(1)
    by (simp add: label_pixel_def Get_shown [OF wf interior_inside [OF int]] Let_def)
  moreover have "lab_inv im (t, lbl[nat (w + h * width im) := ?m], cnt)"
    using m(1) \<open>?m < cnt\<close> by (intro lab_inv_write [OF inv t(2,3)]) simp_all
  ultimately show ?thesis using m(1) by blast
qed

lemma label_pixel_cases:
  assumes wf: "wf_img im" and int: "(w, h) \<in> set (interior im)"
    and inv: "lab_inv im (tab, lbl, cnt)" and cnt: "cnt \<le> width im * height im"
  shows "\<exists>tab' lbl' cnt'. label_pixel im w h (tab, lbl, cnt) = Inr (tab', lbl', cnt') \<and>
    lab_inv im (tab', lbl', cnt') \<and>
    (if white_at im (w, h)
     then \<exists>v. lbl' = lbl[nat (idx im (w, h)) := v] \<and> 0 < v \<and>
       (cnt' = cnt \<or> cnt' = cnt + 1 \<and> lbl ! nat (idx im (w, h) + 1) = 0)
     else lbl' = lbl \<and> cnt' = cnt)"
proof (cases "white_at im (w, h)")
  case False
  then show ?thesis
    using inv by (simp add: white_at_def label_pixel_def Get_shown [OF wf interior_inside [OF int]])
next
  case white: True
  then have True: "Lightness (shown im w h) = 255" by (simp add: white_at_def)
  have "0 < cnt" using inv by (simp add: lab_inv_def)
  show ?thesis
  proof (cases "\<forall>v \<in> set (map (\<lambda>n. lbl ! nat n) (around (width im) w h)). v = 0")
    case all: True
    show ?thesis
      using label_pixel_new [OF wf int inv True all] \<open>0 < cnt\<close>
      by (simp only: white if_True idx_def fst_conv snd_conv) blast
  next
    case False
    then obtain v where "v \<in> set (map (\<lambda>n. lbl ! nat n) (around (width im) w h))" "v \<noteq> 0" by blast
    from label_pixel_least [OF wf int inv True cnt this] show ?thesis
      by (simp only: white if_True idx_def fst_conv snd_conv) blast
  qed
qed

subsection \<open>The passes\<close>

definition zeros :: "int list \<Rightarrow> int set" where
  "zeros lbl = {n. 0 \<le> n \<and> n < int (length lbl) \<and> lbl ! nat n = 0}"

lemma finite_zeros [simp]: "finite (zeros lbl)"
  by (rule finite_subset [of _ "{0..<int (length lbl)}"]) (auto simp: zeros_def)

lemma zeros_write:
  assumes "0 < v" and "0 \<le> n" "n < int (length lbl)"
  shows "zeros (lbl[nat n := v]) = zeros lbl - {n}"
  using assms by (auto simp: zeros_def nth_list_update)

lemma idx_eq:
  "x \<in> set (interior im) \<Longrightarrow> y \<in> set (interior im) \<Longrightarrow> idx im x = idx im y \<longleftrightarrow> x = y"
proof -
  assume *: "x \<in> set (interior im)" "y \<in> set (interior im)"
  obtain a b c d where xy: "x = (a, b)" "y = (c, d)" by (cases x, cases y) auto
  have "inside im a b" "inside im c d" using * xy interior_inside by simp_all
  then show ?thesis
    using index_inj [of a "width im" b c d] by (auto simp: idx_def xy inside_def)
qed

lemma idx_pos: "x \<in> set (interior im) \<Longrightarrow> 0 < idx im x"
proof -
  assume x: "x \<in> set (interior im)"
  obtain a b where ab: "x = (a, b)" by force
  then have "0 < a" "0 \<le> b * width im" using x by (simp_all add: set_interior)
  then show ?thesis by (simp add: idx_def ab)
qed

lemma idx_range:
  "x \<in> set (interior im) \<Longrightarrow> 0 \<le> idx im x \<and> idx im x < width im * height im"
proof -
  assume x: "x \<in> set (interior im)"
  obtain a b where ab: "x = (a, b)" by force
  then have "inside im a b" using x interior_inside by simp
  then show ?thesis using inside_index_range by (simp add: idx_def ab)
qed

text \<open>The indices of the white pixels off the border: the cells that get a label.\<close>

definition to_label :: "bi_image \<Rightarrow> int \<Rightarrow> bool" where
  "to_label im n \<longleftrightarrow> (\<exists>x \<in> set (interior im). white_at im x \<and> idx im x = n)"

definition only_to_label :: "bi_image \<Rightarrow> int set \<Rightarrow> bool" where
  "only_to_label im Z \<longleftrightarrow> (\<forall>n. 0 \<le> n \<longrightarrow> n < width im * height im \<longrightarrow> n \<notin> Z \<longrightarrow> to_label im n)"

text \<open>
  The first pass: the labels given so far are at most the cells labelled, the pixels not yet
  visited have none, and the white ones visited have one.
\<close>

definition pass1 :: "bi_image \<Rightarrow> (int \<times> int) set \<Rightarrow> lab \<Rightarrow> bool" where
  "pass1 im done = (\<lambda>(tab, lbl, cnt). lab_inv im (tab, lbl, cnt) \<and> 0 \<in> zeros lbl \<and>
     cnt - 1 + int (card (zeros lbl)) \<le> width im * height im \<and> only_to_label im (zeros lbl) \<and>
     (\<forall>x \<in> set (interior im). (x \<notin> done \<longrightarrow> idx im x \<in> zeros lbl) \<and>
        (x \<in> done \<longrightarrow> white_at im x \<longrightarrow> idx im x \<notin> zeros lbl)))"

text \<open>
  The second pass: no cell changes between labelled and not, and the labels given since are at
  most the visited pixels whose right neighbour has none.
\<close>

definition pass2 :: "bi_image \<Rightarrow> int set \<Rightarrow> (int \<times> int) set \<Rightarrow> lab \<Rightarrow> bool" where
  "pass2 im Z done = (\<lambda>(tab, lbl, cnt). lab_inv im (tab, lbl, cnt) \<and> zeros lbl = Z \<and> 0 \<in> Z \<and>
     cnt - 1 + int (card Z) \<le> width im * height im + int (card {x \<in> done. idx im x + 1 \<in> Z}) \<and>
     only_to_label im Z \<and> (\<forall>x \<in> set (interior im). white_at im x \<longrightarrow> idx im x \<notin> Z))"

lemma card_zeros_pos: "0 \<in> zeros lbl \<Longrightarrow> 1 \<le> int (card (zeros lbl))"
  using card_gt_0_iff [of "zeros lbl"] by force

lemma pass1_step:
  assumes wf: "wf_img im" and x: "x \<in> set (interior im)" "x \<notin> done" and P: "pass1 im done s"
  shows "\<exists>s'. (case x of (w, h) \<Rightarrow> label_pixel im w h) s = Inr s' \<and> pass1 im (insert x done) s'"
proof -
  obtain w h where wh: "x = (w, h)" by force
  obtain tab lbl cnt where s: "s = (tab, lbl, cnt)" by (cases s)
  note p = P [unfolded s pass1_def prod.case]
  have inv: "lab_inv im (tab, lbl, cnt)" and z0: "0 \<in> zeros lbl" using p by simp_all
  have "cnt \<le> width im * height im" using p card_zeros_pos [OF z0] by linarith
  from label_pixel_cases [OF wf x(1) [unfolded wh] inv this] obtain tab' lbl' cnt' where
    r: "label_pixel im w h (tab, lbl, cnt) = Inr (tab', lbl', cnt')" "lab_inv im (tab', lbl', cnt')"
    and c: "if white_at im x
     then \<exists>v. lbl' = lbl[nat (idx im x) := v] \<and> 0 < v \<and>
       (cnt' = cnt \<or> cnt' = cnt + 1 \<and> lbl ! nat (idx im x + 1) = 0)
     else lbl' = lbl \<and> cnt' = cnt"
    unfolding wh by blast
  have "pass1 im (insert x done) (tab', lbl', cnt')"
  proof (cases "white_at im x")
    case False
    with c p r(2) x show ?thesis by (auto simp: pass1_def)
  next
    case True
    then obtain v where v: "lbl' = lbl[nat (idx im x) := v]" "0 < v" "cnt' \<le> cnt + 1" using c by auto
    have len: "int (length lbl) = width im * height im" using inv by (simp add: lab_inv_def)
    have rng: "0 \<le> idx im x" "idx im x < int (length lbl)" using idx_range [OF x(1)] len by simp_all
    have z: "zeros lbl' = zeros lbl - {idx im x}" using zeros_write [OF v(2) rng] v(1) by simp
    have xin: "idx im x \<in> zeros lbl" using p x by simp
    have "Suc (card (zeros lbl')) = card (zeros lbl)"
      unfolding z by (rule card_Suc_Diff1 [OF finite_zeros xin])
    then have "cnt' - 1 + int (card (zeros lbl')) \<le> width im * height im" using p v(3) by linarith
    moreover have "0 \<in> zeros lbl'" using z z0 idx_pos [OF x(1)] by auto
    moreover have "(y \<notin> insert x done \<longrightarrow> idx im y \<in> zeros lbl') \<and>
      (y \<in> insert x done \<longrightarrow> white_at im y \<longrightarrow> idx im y \<notin> zeros lbl')" if "y \<in> set (interior im)" for y
      using p that z idx_eq [OF x(1) that] by auto
    moreover have "only_to_label im (zeros lbl')"
      using p z True x(1) by (auto simp: only_to_label_def to_label_def)
    ultimately show ?thesis using r(2) by (simp add: pass1_def)
  qed
  with r(1) show ?thesis by (auto simp: s wh)
qed

lemma card_right: "card {x \<in> done. idx im x + 1 \<in> Z} \<le> card (Z - {0})"
  if "done \<subseteq> set (interior im)" "finite Z"
proof (rule card_inj_on_le [where f = "\<lambda>x. idx im x + 1"])
  show "inj_on (\<lambda>x. idx im x + 1) {x \<in> done. idx im x + 1 \<in> Z}"
  proof (rule inj_onI)
    fix x y assume *: "x \<in> {x \<in> done. idx im x + 1 \<in> Z}" "y \<in> {x \<in> done. idx im x + 1 \<in> Z}"
      "idx im x + 1 = idx im y + 1"
    then have "x \<in> set (interior im)" "y \<in> set (interior im)" using that(1) by auto
    from idx_eq [OF this] * show "x = y" by simp
  qed
  show "(\<lambda>x. idx im x + 1) ` {x \<in> done. idx im x + 1 \<in> Z} \<subseteq> Z - {0}"
  proof
    fix n assume "n \<in> (\<lambda>x. idx im x + 1) ` {x \<in> done. idx im x + 1 \<in> Z}"
    then obtain x where x: "x \<in> done" "n = idx im x + 1" "n \<in> Z" by auto
    then have "0 < idx im x" using that(1) by (auto intro: idx_pos)
    with x show "n \<in> Z - {0}" by simp
  qed
qed (use that(2) in simp)

lemma pass2_cnt:
  assumes "pass2 im Z done (tab, lbl, cnt)" and "done \<subseteq> set (interior im)"
  shows "cnt \<le> width im * height im"
proof -
  note p = assms(1) [unfolded pass2_def prod.case]
  have fin: "finite Z" using p finite_zeros by metis
  have "int (card (Z - {0})) = int (card Z) - 1"
    using p fin card_gt_0_iff [of Z] by (subst card_Diff_singleton) auto
  then show ?thesis using p card_right [OF assms(2) fin] by linarith
qed

lemma pass2_step:
  assumes wf: "wf_img im" and x: "x \<in> set (interior im)" "x \<notin> done" and P: "pass2 im Z done s"
    and sub: "done \<subseteq> set (interior im)"
  shows "\<exists>s'. (case x of (w, h) \<Rightarrow> label_pixel im w h) s = Inr s' \<and> pass2 im Z (insert x done) s'"
proof -
  obtain w h where wh: "x = (w, h)" by force
  obtain tab lbl cnt where s: "s = (tab, lbl, cnt)" by (cases s)
  note p = P [unfolded s pass2_def prod.case]
  have inv: "lab_inv im (tab, lbl, cnt)" using p by simp
  have cnt: "cnt \<le> width im * height im" using pass2_cnt [OF P [unfolded s] sub] .
  have len: "int (length lbl) = width im * height im" using inv by (simp add: lab_inv_def)
  from label_pixel_cases [OF wf x(1) [unfolded wh] inv cnt] obtain tab' lbl' cnt' where
    r: "label_pixel im w h (tab, lbl, cnt) = Inr (tab', lbl', cnt')" "lab_inv im (tab', lbl', cnt')"
    and c: "if white_at im x
     then \<exists>v. lbl' = lbl[nat (idx im x) := v] \<and> 0 < v \<and>
       (cnt' = cnt \<or> cnt' = cnt + 1 \<and> lbl ! nat (idx im x + 1) = 0)
     else lbl' = lbl \<and> cnt' = cnt"
    unfolding wh by blast
  let ?A = "{y \<in> done. idx im y + 1 \<in> Z}" and ?B = "{y \<in> insert x done. idx im y + 1 \<in> Z}"
  have fin: "finite ?A" by (rule finite_subset [of _ "set (interior im)"]) (use sub in auto)
  have AB: "?B = (if idx im x + 1 \<in> Z then insert x ?A else ?A)" by auto
  have le: "card ?A \<le> card ?B"
    unfolding AB using fin x(2) by (simp add: card_insert_if)
  have "pass2 im Z (insert x done) (tab', lbl', cnt')"
  proof (cases "white_at im x")
    case False
    with c p r(2) le show ?thesis by (auto simp: pass2_def)
  next
    case True
    then obtain v where v: "lbl' = lbl[nat (idx im x) := v]" "0 < v"
      "cnt' = cnt \<or> cnt' = cnt + 1 \<and> lbl ! nat (idx im x + 1) = 0" using c by auto
    have rng: "0 \<le> idx im x" "idx im x < int (length lbl)" using idx_range [OF x(1)] len by simp_all
    have z: "zeros lbl' = Z"
      using zeros_write [OF v(2) rng] v(1) p True x(1) by auto
    have "int (card ?A) + (cnt' - cnt) \<le> int (card ?B)"
      using v(3)
    proof
      assume new: "cnt' = cnt + 1 \<and> lbl ! nat (idx im x + 1) = 0"
      have "idx im x + 1 < int (length lbl)"
      proof -
        have "inside im (w + 1) h" using x(1) by (auto simp: wh set_interior inside_def)
        then show ?thesis
          using inside_index_range len by (force simp: idx_def wh ac_simps)
      qed
      then have "idx im x + 1 \<in> zeros lbl" using new rng by (simp add: zeros_def)
      then have "?B = insert x ?A" using p AB by simp
      then show ?thesis using fin x(2) new by simp
    qed (use le in simp)
    then show ?thesis using p r(2) z by (simp add: pass2_def)
  qed
  with r(1) show ?thesis by (auto simp: s wh)
qed

lemma pass_fold:
  assumes step: "\<And>x done s. x \<in> set (interior im) \<Longrightarrow> x \<notin> done \<Longrightarrow> done \<subseteq> set (interior im) \<Longrightarrow> P done s \<Longrightarrow>
      \<exists>s'. f x s = Inr s' \<and> P (insert x done) s'"
  shows "distinct xs \<Longrightarrow> set xs \<subseteq> set (interior im) \<Longrightarrow> done \<subseteq> set (interior im) \<Longrightarrow>
    set xs \<inter> done = {} \<Longrightarrow> P done s \<Longrightarrow> \<exists>s'. foldM f xs s = Inr s' \<and> P (done \<union> set xs) s'"
proof (induction xs arbitrary: "done" s)
  case (Cons x xs)
  obtain s1 where s1: "f x s = Inr s1" "P (insert x done) s1"
    using step [of x "done" s] Cons.prems by auto
  have "\<exists>s'. foldM f xs s1 = Inr s' \<and> P (insert x done \<union> set xs) s'"
    using Cons.prems s1(2) by (intro Cons.IH) auto
  then show ?case using s1(1) by simp
qed simp

text \<open>Resolving keeps the table going down; relabelling keeps which cells have a label.\<close>

lemma resolve_ok:
  assumes "down tab" and "cnt \<le> int (length tab)"
  shows "\<exists>t. resolve cnt tab = Inr t \<and> down t \<and> length t = length tab"
  unfolding resolve_def
proof (rule foldM_invariant)
  fix h s assume h: "h \<in> set [0..cnt - 1]" and s: "down s \<and> length s = length tab"
  have rng: "0 \<le> h" "h < int (length s)" using h s assms(2) by auto
  obtain r where r: "Lookup_update h s = Inr r" "0 \<le> r" "r \<le> h" "0 < h \<longrightarrow> 0 < r"
    using Lookup_update_ok [of s h] rng s by auto
  have "down (s[nat h := r])"
    using s r rng by (intro down_write) simp_all
  with r s rng show "\<exists>s'. rbind (rdbuf s h) (\<lambda>v. if h \<noteq> v then rbind (Lookup_update h s) (wrbuf s h)
      else Inr s) = Inr s' \<and> down s' \<and> length s' = length tab"
    by simp
qed (use assms in simp)

lemma relabel_ok:
  assumes inv: "lab_inv im (tab, lbl, cnt)" and cnt: "cnt \<le> width im * height im"
  shows "\<exists>l. relabel (width im) (height im) tab lbl = Inr l \<and> lab_inv im (tab, l, cnt) \<and> zeros l = zeros lbl"
  unfolding relabel_def
proof (rule foldM_invariant)
  fix x l assume x: "x \<in> set (raster (width im) (height im))"
    and l: "lab_inv im (tab, l, cnt) \<and> zeros l = zeros lbl"
  obtain a b where ab: "x = (a, b)" by force
  let ?n = "a + b * width im"
  have ins: "inside im a b" using x by (simp only: ab set_raster_inside)
  have tab: "down tab" "int (length tab) = width im * height im" using inv by (simp_all add: lab_inv_def)
  have len: "int (length l) = width im * height im" using l by (simp add: lab_inv_def)
  have rng: "0 \<le> ?n" "?n < int (length l)" using inside_index_range [OF ins] len by simp_all
  have v: "0 \<le> l ! nat ?n" "l ! nat ?n < cnt" using l rng by (simp_all add: lab_inv_def)
  show "\<exists>s'. (case x of (w, h) \<Rightarrow> \<lambda>lbl. rbind (rdbuf lbl (w + h * width im)) (\<lambda>v. if v \<noteq> 0
      then rbind (rdbuf tab v) (wrbuf lbl (w + h * width im)) else Inr lbl)) l = Inr s' \<and>
    lab_inv im (tab, s', cnt) \<and> zeros s' = zeros lbl"
  proof (cases "l ! nat ?n = 0")
    case True
    then show ?thesis using l rng by (simp add: ab)
  next
    case False
    have r: "l ! nat ?n < int (length tab)" using v cnt tab(2) by simp
    note e = down_entry [OF tab(1) v(1) r]
    have "lab_inv im (tab, l[nat ?n := tab ! nat (l ! nat ?n)], cnt)"
      using l e v tab(1) by (intro lab_inv_write [of im tab l cnt]) auto
    moreover have "zeros (l[nat ?n := tab ! nat (l ! nat ?n)]) = zeros l"
      using zeros_write [OF _ rng, of "tab ! nat (l ! nat ?n)"] e v False by (auto simp: zeros_def)
    ultimately show ?thesis using l rng r v False by (simp add: ab)
  qed
qed (use inv in simp)

text \<open>After the first pass every white interior pixel has a label.\<close>

definition passed :: "bi_image \<Rightarrow> lab \<Rightarrow> bool" where
  "passed im = (\<lambda>(tab, lbl, cnt). lab_inv im (tab, lbl, cnt) \<and> cnt \<le> width im * height im \<and>
     (\<forall>n. 0 \<le> n \<longrightarrow> n < width im * height im \<longrightarrow> n \<in> zeros lbl \<longleftrightarrow> \<not> to_label im n))"

lemma label_pass_1:
  assumes wf: "wf_img im" and s: "pass1 im {} s"
  shows "\<exists>s'. label_pass im s = Inr s' \<and> pass2 im (zeros (fst (snd s'))) {} s'"
proof -
  have "\<exists>s'. foldM (\<lambda>(w, h). label_pixel im w h) (interior im) s = Inr s' \<and>
    pass1 im ({} \<union> set (interior im)) s'"
  proof (rule pass_fold [where P = "pass1 im"])
    fix x "done" u
    assume "x \<in> set (interior im)" "x \<notin> done" "done \<subseteq> set (interior im)" "pass1 im done u"
    then show "\<exists>s'. (case x of (w, h) \<Rightarrow> label_pixel im w h) u = Inr s' \<and> pass1 im (insert x done) s'"
      by (intro pass1_step [OF wf])
  qed (use s in \<open>simp_all add: distinct_interior\<close>)
  then obtain tab lbl cnt where 1: "foldM (\<lambda>(w, h). label_pixel im w h) (interior im) s = Inr (tab, lbl, cnt)"
    "pass1 im (set (interior im)) (tab, lbl, cnt)"
    by auto
  note p = 1(2) [unfolded pass1_def prod.case]
  have inv: "lab_inv im (tab, lbl, cnt)" using p by simp
  have cnt: "cnt \<le> width im * height im" using p card_zeros_pos [of lbl] by linarith
  obtain t where t: "resolve cnt tab = Inr t" "down t" "length t = length tab"
    using resolve_ok [of tab cnt] inv cnt by (auto simp: lab_inv_def)
  have inv': "lab_inv im (t, lbl, cnt)" using inv t by (simp add: lab_inv_def)
  obtain l where l: "relabel (width im) (height im) t lbl = Inr l" "lab_inv im (t, l, cnt)"
    "zeros l = zeros lbl"
    using relabel_ok [OF inv' cnt] by blast
  have "pass2 im (zeros l) {} (t, l, cnt)"
    using p l by (auto simp: pass2_def)
  with 1(1) t(1) l(1) show ?thesis by (simp add: label_pass_def)
qed

lemma label_pass_2:
  assumes wf: "wf_img im" and s: "pass2 im Z {} s"
  shows "\<exists>s'. label_pass im s = Inr s' \<and> passed im s'"
proof -
  have "\<exists>s'. foldM (\<lambda>(w, h). label_pixel im w h) (interior im) s = Inr s' \<and>
    pass2 im Z ({} \<union> set (interior im)) s'"
  proof (rule pass_fold [where P = "pass2 im Z"])
    fix x "done" u
    assume "x \<in> set (interior im)" "x \<notin> done" "done \<subseteq> set (interior im)" "pass2 im Z done u"
    then show "\<exists>s'. (case x of (w, h) \<Rightarrow> label_pixel im w h) u = Inr s' \<and> pass2 im Z (insert x done) s'"
      by (intro pass2_step [OF wf])
  qed (use s in \<open>simp_all add: distinct_interior\<close>)
  then obtain tab lbl cnt where 1: "foldM (\<lambda>(w, h). label_pixel im w h) (interior im) s = Inr (tab, lbl, cnt)"
    "pass2 im Z (set (interior im)) (tab, lbl, cnt)"
    by auto
  have inv: "lab_inv im (tab, lbl, cnt)" and
    z: "\<forall>n. 0 \<le> n \<longrightarrow> n < width im * height im \<longrightarrow> n \<in> zeros lbl \<longleftrightarrow> \<not> to_label im n"
    using 1(2) by (auto simp: pass2_def only_to_label_def to_label_def)
  have cnt: "cnt \<le> width im * height im" by (rule pass2_cnt [OF 1(2) order_refl])
  obtain t where t: "resolve cnt tab = Inr t" "down t" "length t = length tab"
    using resolve_ok [of tab cnt] inv cnt by (auto simp: lab_inv_def)
  have inv': "lab_inv im (t, lbl, cnt)" using inv t by (simp add: lab_inv_def)
  obtain l where l: "relabel (width im) (height im) t lbl = Inr l" "lab_inv im (t, l, cnt)"
    "zeros l = zeros lbl"
    using relabel_ok [OF inv' cnt] by blast
  with 1(1) t(1) z cnt show ?thesis by (simp add: label_pass_def passed_def)
qed

subsection \<open>The final labels\<close>

lemma number_roots_ok:
  assumes "down tab" and "1 \<le> cnt" and "cnt \<le> int (length tab)"
  shows "\<exists>sub n. number_roots cnt tab (replicate (length tab) (- 1), 0) = Inr (sub, n) \<and>
    length sub = length tab \<and> 1 \<le> n \<and>
    (\<forall>h. 0 \<le> h \<longrightarrow> h < cnt \<longrightarrow> 0 \<le> sub ! nat (tab ! nat h) \<and> sub ! nat (tab ! nat h) < n \<and>
       (0 < h \<longrightarrow> 1 \<le> sub ! nat (tab ! nat h)))"
proof -
  let ?P = "\<lambda>k (sub, i). length sub = length tab \<and> (0 < k \<longrightarrow> 1 \<le> i) \<and>
    (k = 0 \<longrightarrow> i = 0 \<and> sub = replicate (length tab) (- 1)) \<and>
    (\<forall>j < length tab. sub ! j = - 1 \<or> 0 \<le> sub ! j \<and> sub ! j < i \<and> (0 < j \<longrightarrow> 1 \<le> sub ! j)) \<and>
    (\<forall>h. 0 \<le> h \<longrightarrow> h < k \<longrightarrow> sub ! nat (tab ! nat h) \<noteq> - 1)"
  have "\<exists>s. number_roots cnt tab (replicate (length tab) (- 1), 0) = Inr s \<and> ?P ((cnt - 1) + 1) s"
    unfolding number_roots_def
  proof (rule upto_loop)
    fix k and s :: "int list \<times> int" assume k: "0 \<le> k" "k \<le> cnt - 1" and P: "?P k s"
    obtain sub i where s: "s = (sub, i)" by force
    note p = P [unfolded s prod.case]
    have rng: "0 \<le> k" "k < int (length tab)" using k assms(3) by simp_all
    note e = down_entry [OF assms(1) rng]
    let ?r = "tab ! nat k"
    have r: "0 \<le> ?r" "?r < int (length sub)" using e rng p by simp_all
    have upto: "(h :: int) < k + 1 \<longleftrightarrow> h < k \<or> h = k" for h by auto
    show "\<exists>s'. (case s of (sub, i) \<Rightarrow> rbind (rdbuf tab k) (\<lambda>r. rbind (rdbuf sub r) (\<lambda>v.
        if v = - 1 then rbind (wrbuf sub r i) (\<lambda>sub. Inr (sub, i + 1)) else Inr (sub, i)))) = Inr s' \<and> ?P (k + 1) s'"
    proof (cases "sub ! nat ?r = - 1")
      case True
      have i: "0 \<le> i" "0 < k \<longrightarrow> 1 \<le> i" using p k(1) by (cases "k = 0"; simp)+
      have rk: "0 < ?r \<longrightarrow> 1 \<le> i" using i(2) e by auto
      have "?P (k + 1) (sub[nat ?r := i], i + 1)"
        using p k(1) i rk r by (auto simp: nth_list_update upto)
      then show ?thesis using True r rng s by (simp del: One_nat_def)
    next
      case False
      then have "k \<noteq> 0" using p r by auto
      then have "?P (k + 1) (sub, i)" using p False k(1) by (auto simp: upto)
      then show ?thesis using False r rng s by simp
    qed
  qed (use assms in auto)
  then obtain sub n where sn: "number_roots cnt tab (replicate (length tab) (- 1), 0) = Inr (sub, n)"
    "?P ((cnt - 1) + 1) (sub, n)"
    by force
  have "0 \<le> sub ! nat (tab ! nat h) \<and> sub ! nat (tab ! nat h) < n \<and> (0 < h \<longrightarrow> 1 \<le> sub ! nat (tab ! nat h))"
    if h: "0 \<le> h" "h < cnt" for h
  proof -
    have "h < int (length tab)" using h assms(3) by simp
    note e = down_entry [OF assms(1) h(1) this]
    then have "nat (tab ! nat h) < length tab" "0 < h \<longrightarrow> 0 < nat (tab ! nat h)"
      using h assms(3) by auto
    with sn(2) h show ?thesis by fastforce
  qed
  with sn assms(2) show ?thesis by auto
qed

lemma final_table_ok:
  assumes "down tab" and "cnt \<le> int (length tab)" and "length sub = length tab"
  shows "\<exists>t. final_table cnt sub tab = Inr t \<and> length t = length tab \<and>
    (\<forall>h. 0 \<le> h \<longrightarrow> h < cnt \<longrightarrow> t ! nat h = sub ! nat (tab ! nat h))"
proof (cases "0 \<le> cnt")
  case True
  let ?P = "\<lambda>k t. length t = length tab \<and> (\<forall>h. 0 \<le> h \<longrightarrow> h < k \<longrightarrow> t ! nat h = sub ! nat (tab ! nat h)) \<and>
    (\<forall>h. k \<le> h \<longrightarrow> h < int (length tab) \<longrightarrow> t ! nat h = tab ! nat h)"
  have "\<exists>t. final_table cnt sub tab = Inr t \<and> ?P ((cnt - 1) + 1) t"
    unfolding final_table_def
  proof (rule upto_loop)
    fix k t assume k: "0 \<le> k" "k \<le> cnt - 1" and P: "?P k t"
    have rng: "0 \<le> k" "k < int (length tab)" using k assms(2) by simp_all
    note e = down_entry [OF assms(1) rng]
    have "t ! nat k = tab ! nat k" using P rng by simp
    then have "rbind (rdbuf t k) (\<lambda>r. rbind (rdbuf sub r) (wrbuf t k)) = Inr (t[nat k := sub ! nat (tab ! nat k)])"
      using P rng e assms(3) by simp
    moreover have "?P (k + 1) (t[nat k := sub ! nat (tab ! nat k)])"
    proof (intro conjI allI impI)
      fix h assume h: "0 \<le> h" "h < k + 1"
      show "t[nat k := sub ! nat (tab ! nat k)] ! nat h = sub ! nat (tab ! nat h)"
        using P rng h by (cases "h = k") auto
    next
      fix h assume h: "k + 1 \<le> h" "h < int (length tab)"
      have "nat h \<noteq> nat k" using h rng by auto
      then show "t[nat k := sub ! nat (tab ! nat k)] ! nat h = tab ! nat h"
        using P h by simp
    qed (use P in simp)
    ultimately show "\<exists>s'. rbind (rdbuf t k) (\<lambda>r. rbind (rdbuf sub r) (wrbuf t k)) = Inr s' \<and> ?P (k + 1) s'"
      by blast
  qed (use True in auto)
  then show ?thesis by auto
qed (simp add: final_table_def)

lemma set_cell_same:
  "wf_img t \<Longrightarrow> inside t x y \<Longrightarrow> set_cell t (x, y) (cell t (x, y)) = t"
  by (simp add: set_cell_def cell_def)

lemma write_labels_ok:
  assumes wf: "wf_img im" and len: "int (length lbl) = width im * height im"
    and rng: "\<forall>n. 0 \<le> n \<longrightarrow> n < int (length lbl) \<longrightarrow> 0 \<le> lbl ! nat n \<and> lbl ! nat n < int (length tab)"
  shows "\<exists>t. write_labels tab lbl im = Inr t \<and> shape_of t = shape_of im \<and>
    (\<forall>x y. inside im x y \<longrightarrow> cell t (x, y) =
       (if lbl ! nat (x + y * width im) = 0 then cell im (x, y)
        else setLabel (tab ! nat (lbl ! nat (x + y * width im))) (shown im x y)))"
proof -
  have "\<exists>t. write_labels tab lbl im = Inr t \<and> shape_of t = shape_of im \<and> wf_img t \<and>
    (\<forall>x y. inside im x y \<longrightarrow> cell t (x, y) =
       (if lbl ! nat (x + y * width im) = 0 then cell im (x, y)
        else setLabel (tab ! nat (lbl ! nat (x + y * width im))) (shown im x y)))"
    unfolding write_labels_def
  proof (rule for_each_sweep [OF wf refl refl])
    fix x y t
    assume *: "inside im x y" "shape_of t = shape_of im" "wf_img t" "cell t (x, y) = cell im (x, y)"
    have ins: "inside t x y" using *(1) by (simp only: inside_shape [OF *(2)])
    have w: "width t = width im" using *(2) by (simp add: shape_eq)
    have sh: "shown t x y = shown im x y" using *(2,4) by (simp add: shown_def shape_eq)
    have n: "0 \<le> x + y * width im" "x + y * width im < int (length lbl)"
      using inside_index_range [OF *(1)] len by simp_all
    have v: "0 \<le> lbl ! nat (x + y * width im)" "lbl ! nat (x + y * width im) < int (length tab)"
      using rng n by simp_all
    show "rbind (rdbuf lbl (x + y * width t)) (\<lambda>v. if v \<noteq> 0
        then rbind (Get t x y) (\<lambda>p. rbind (rdbuf tab v) (\<lambda>l. Put x y (setLabel l p) t))
        else Inr t) = Inr (set_cell t (x, y)
          (if lbl ! nat (x + y * width im) = 0 then cell im (x, y)
           else setLabel (tab ! nat (lbl ! nat (x + y * width im))) (shown im x y)))"
    proof (cases "lbl ! nat (x + y * width im) = 0")
      case True
      then show ?thesis
        using n w set_cell_same [OF *(3) ins] *(4) by simp
    next
      case False
      then show ?thesis
        using n w v sh ins *(3) by (simp add: Get_shown Put_in)
    qed
  qed
  then show ?thesis by blast
qed

lemma to_label_iff:
  assumes xy: "inside im x y"
  shows "to_label im (x + y * width im) \<longleftrightarrow> (x, y) \<in> set (interior im) \<and> Lightness (shown im x y) = 255"
proof
  assume "to_label im (x + y * width im)"
  then obtain a b where ab: "(a, b) \<in> set (interior im)" "white_at im (a, b)" "idx im (a, b) = (x + y * width im)"
    by (auto simp: to_label_def)
  then have "a = x \<and> b = y"
    using index_inj [of a "width im" b x y] interior_inside [OF ab(1)] xy
    by (auto simp: idx_def inside_def)
  with ab show "(x, y) \<in> set (interior im) \<and> Lightness (shown im x y) = 255"
    by (simp add: white_at_def)
next
  assume "(x, y) \<in> set (interior im) \<and> Lightness (shown im x y) = 255"
  then show "to_label im (x + y * width im)"
    by (auto simp: to_label_def white_at_def idx_def intro!: bexI [of _ "(x, y)"])
qed

lemma Labeling_ok:
  assumes "wf_img im" and "0 < width im" and "0 < height im"
  shows "\<exists>n t. Labeling im = Inr (n, t) \<and> 1 \<le> n \<and> shape_of t = shape_of im \<and>
    (\<forall>x y. inside im x y \<longrightarrow>
       (if (x, y) \<in> set (interior im) \<and> Lightness (shown im x y) = 255
        then \<exists>l. 1 \<le> l \<and> l < n \<and> cell t (x, y) = setLabel l (shown im x y)
        else cell t (x, y) = cell im (x, y)))"
proof -
  let ?N = "width im * height im"
  have N: "0 < ?N" "s32 ?N = ?N" using assms by (simp_all add: wf_img_def)
  let ?s0 = "([0..?N - 1], replicate (nat ?N) 0, 1 :: int)"
  have z0: "zeros (replicate (nat ?N) 0) = {0..<?N}"
    using N(1) by (auto simp: zeros_def nat_less_iff)
  have "pass1 im {} ?s0"
    using N(1) idx_range [of _ im]
    by (auto simp: pass1_def lab_inv_def down_upto z0 only_to_label_def nat_less_iff)
  then obtain s1 where s1: "label_pass im ?s0 = Inr s1" "pass2 im (zeros (fst (snd s1))) {} s1"
    using label_pass_1 [OF assms(1)] by blast
  obtain tab lbl cnt where s2: "label_pass im s1 = Inr (tab, lbl, cnt)" "passed im (tab, lbl, cnt)"
    using label_pass_2 [OF assms(1) s1(2)] by auto
  note p = s2(2) [unfolded passed_def lab_inv_def prod.case]
  have passes: "foldM (\<lambda>_. label_pass im) [0..1] ?s0 = Inr (tab, lbl, cnt)"
    using s1(1) s2(1) by (simp add: upto_rec1)
  have cnt: "1 \<le> cnt" "cnt \<le> int (length tab)" and down: "down tab" using p by simp_all
  have "int (length tab) = ?N" using p by simp
  then have nat: "nat ?N = length tab" by (simp only: nat_int flip: nat_int)
  obtain sub n where sub: "number_roots cnt tab (replicate (length tab) (- 1), 0) = Inr (sub, n)"
    "length sub = length tab" "1 \<le> n"
    "\<forall>h. 0 \<le> h \<longrightarrow> h < cnt \<longrightarrow> 0 \<le> sub ! nat (tab ! nat h) \<and> sub ! nat (tab ! nat h) < n \<and>
       (0 < h \<longrightarrow> 1 \<le> sub ! nat (tab ! nat h))"
    using number_roots_ok [OF down cnt] by blast
  obtain tf where tf: "final_table cnt sub tab = Inr tf" "length tf = length tab"
    "\<forall>h. 0 \<le> h \<longrightarrow> h < cnt \<longrightarrow> tf ! nat h = sub ! nat (tab ! nat h)"
    using final_table_ok [OF down cnt(2) sub(2)] by blast
  obtain t where t: "write_labels tf lbl im = Inr t" "shape_of t = shape_of im"
    "\<forall>x y. inside im x y \<longrightarrow> cell t (x, y) =
       (if lbl ! nat (x + y * width im) = 0 then cell im (x, y)
        else setLabel (tf ! nat (lbl ! nat (x + y * width im))) (shown im x y))"
    using write_labels_ok [OF assms(1), of lbl tf] p tf(2) cnt(2) by fastforce
  have "Labeling im = Inr (n, t)"
    using N passes sub(1) tf(1) t(1) by (simp add: Labeling_def Let_def nat del: upto.simps)
  moreover have "if (x, y) \<in> set (interior im) \<and> Lightness (shown im x y) = 255
      then \<exists>l. 1 \<le> l \<and> l < n \<and> cell t (x, y) = setLabel l (shown im x y)
      else cell t (x, y) = cell im (x, y)" if xy: "inside im x y" for x y
  proof -
    let ?k = "x + y * width im"
    have k: "0 \<le> ?k" "?k < ?N" using inside_index_range [OF xy] by simp_all
    have v: "0 \<le> lbl ! nat ?k" "lbl ! nat ?k < cnt" using p k by simp_all
    note to_label_iff [OF xy]
    moreover have "?k \<in> zeros lbl \<longleftrightarrow> \<not> to_label im ?k" using p k by simp
    moreover have "?k \<in> zeros lbl \<longleftrightarrow> lbl ! nat ?k = 0" using p k by (simp add: zeros_def)
    ultimately have iff: "(x, y) \<in> set (interior im) \<and> Lightness (shown im x y) = 255 \<longleftrightarrow> lbl ! nat ?k \<noteq> 0"
      by blast
    show ?thesis
    proof (cases "lbl ! nat ?k = 0")
      case False
      have "1 \<le> tf ! nat (lbl ! nat ?k)" "tf ! nat (lbl ! nat ?k) < n"
        using sub(4) tf(3) v False by simp_all
      then show ?thesis using t(3) xy False iff by auto
    qed (use t(3) xy iff in auto)
  qed
  ultimately show ?thesis using sub(3) t(2) by blast
qed

text \<open>
  C1: labelling succeeds on every image with pixels: no table is read or written outside its
  bounds, the counter never passes the table (a label given in the second pass is paid for by
  the unlabelled cell on its right), and the recursion always ends. Exactly the white pixels
  off the border get a label, between 1 and the number returned; all other cells stay.
\<close>

theorem Labeling_total:
  assumes "wf_img im" and "0 < width im" and "0 < height im"
  shows "\<exists>n t. Labeling im = Inr (n, t) \<and> 1 \<le> n \<and> shape_of t = shape_of im \<and>
    (\<forall>x y. inside im x y \<longrightarrow>
       (if (x, y) \<in> set (interior im) \<and> Lightness (shown im x y) = 255
        then \<exists>l. 1 \<le> l \<and> l < n \<and> cell t (x, y) = setLabel l (shown im x y)
        else cell t (x, y) = cell im (x, y)))"
  using assms by (rule Labeling_ok)

definition dot_img :: bi_image where
  "dot_img = \<lparr>mimage = replicate 4 (PixelL 0) @ [PixelL 255] @ replicate 4 (PixelL 0),
     clearColor = Pixel0, width = 3, height = 3\<rparr>"

lemma dot_img_facts:
  "wf_img dot_img" "0 < width dot_img" "0 < height dot_img"
  "inside dot_img 1 1" "inside dot_img 0 0" "(1, 1) \<in> set (interior dot_img)"
  "(0, 0) \<notin> set (interior dot_img)" "shown dot_img 1 1 = PixelL 255" "cell dot_img (0, 0) = PixelL 0"
  by (simp_all add: dot_img_def wf_img_def int32_def inside_def set_interior shown_def cell_def view_def
      pix_eq_Pixel0 nth_append)

theorem Labeling_total_witness:
  "\<exists>n t. Labeling dot_img = Inr (n, t) \<and> 1 \<le> plabel (cell t (1, 1)) \<and> plabel (cell t (0, 0)) = 0"
proof -
  obtain n t where t: "Labeling dot_img = Inr (n, t)" and c: "\<And>x y. inside dot_img x y \<Longrightarrow>
     (if (x, y) \<in> set (interior dot_img) \<and> Lightness (shown dot_img x y) = 255
      then \<exists>l. 1 \<le> l \<and> l < n \<and> cell t (x, y) = setLabel l (shown dot_img x y)
      else cell t (x, y) = cell dot_img (x, y))"
    using Labeling_total [OF dot_img_facts(1-3)] by blast
  show ?thesis
    using t c [OF dot_img_facts(4)] c [OF dot_img_facts(5)] dot_img_facts(6-9) by (auto simp: setLabel_def)
qed

end
