(* ===== verification/LegacyFilters.thy ===== *)
theory LegacyFilters
  imports LegacyImage Labeling PixelColor
begin

text \<open>
  The older image functions \<open>lib.cpp\<close>, over the images of \<open>LegacyImage\<close>. What a function
  changes are the pixels of its images, so most of them map the pixel heap to the pixel heap.
\<close>

subsection \<open>Pixels of an image\<close>

definition gray_at :: "IMAGE \<Rightarrow> int \<Rightarrow> idata cheap \<Rightarrow> byte res" where
  "gray_at im i ph = rbind (peek (data_at im) i ph) (\<lambda>d. fld (graylevel d))"

definition label_at :: "IMAGE \<Rightarrow> int \<Rightarrow> idata cheap \<Rightarrow> byte res" where
  "label_at im i ph = rbind (peek (data_at im) i ph) (\<lambda>d. fld (dlabel d))"

text \<open>Assignments to fields of \<open>*(image_data+i)\<close>.\<close>

definition upd_at :: "IMAGE \<Rightarrow> int \<Rightarrow> (idata \<Rightarrow> idata) \<Rightarrow> idata cheap \<Rightarrow> idata cheap res" where
  "upd_at im i f ph = rbind (peek (data_at im) i ph) (\<lambda>d. poke (data_at im) i (f d) ph)"

definition set_all :: "byte \<Rightarrow> idata \<Rightarrow> idata" where
  "set_all v d = d\<lparr>rgbBlue := Some v, rgbGreen := Some v, rgbRed := Some v, graylevel := Some v\<rparr>"

definition set_frame :: "byte \<Rightarrow> idata \<Rightarrow> idata" where
  "set_frame v d = d\<lparr>rgbBlue := Some 255, rgbRed := Some 255, rgbGreen := Some 0, graylevel := Some v\<rparr>"

definition size_of :: "IMAGE \<Rightarrow> int" where
  "size_of im = s32 (bwidth im * bheight im)"

subsection \<open>Dilation and erosion\<close>

text \<open>
  The neighbours inside the image that have a gray level; as in the newer filters the offset
  (1, 1) is left out and the pixel itself is not.
\<close>

definition near_count :: "byte \<Rightarrow> IMAGE \<Rightarrow> int \<Rightarrow> int \<Rightarrow> idata cheap \<Rightarrow> int res" where
  "near_count v im i j ph = foldM (\<lambda>(k, l) cnt.
     if i + l < 0 \<or> j + k < 0 \<or> bwidth im \<le> i + l \<or> bheight im \<le> j + k then Inr cnt
     else if k \<noteq> 1 \<or> l \<noteq> 1
     then rbind (gray_at im ((i + l) + (j + k) * bwidth im) ph) (\<lambda>g. Inr (if g = v then cnt + 1 else cnt))
     else Inr cnt) (Morphology.win 1) 0"

definition copy_pixel :: "IMAGE \<Rightarrow> IMAGE \<Rightarrow> int \<Rightarrow> idata cheap \<Rightarrow> idata cheap res" where
  "copy_pixel input output n ph =
     rbind (peek (data_at input) n ph) (\<lambda>d. poke (data_at output) n d ph)"

definition spread :: "byte \<Rightarrow> IMAGE \<Rightarrow> IMAGE \<Rightarrow> idata cheap \<Rightarrow> idata cheap res" where
  "spread v input output = foldM (\<lambda>(i, j) ph.
     let n = i + j * bwidth input in
     rbind (gray_at input n ph) (\<lambda>g.
     if g = v then copy_pixel input output n ph
     else rbind (near_count v input i j ph) (\<lambda>cnt.
       if cnt \<noteq> 0 then upd_at output n (set_all v) ph else copy_pixel input output n ph)))
     (raster (bwidth input) (bheight input))"

definition expand :: "IMAGE \<Rightarrow> IMAGE \<Rightarrow> idata cheap \<Rightarrow> idata cheap res" where
  "expand = spread 255"

definition shrink :: "IMAGE \<Rightarrow> IMAGE \<Rightarrow> idata cheap \<Rightarrow> idata cheap res" where
  "shrink = spread 0"

subsection \<open>Sobel filter\<close>

definition gradient_num :: "IMAGE \<Rightarrow> IMAGE \<Rightarrow> int \<Rightarrow> idata cheap \<Rightarrow> int \<times> int \<Rightarrow> int res" where
  "gradient_num out im i ph = (\<lambda>(k, j).
     let w = bwidth im; h = bheight im; pos = i + j + k * w in
     if pos sdiv w = 0 \<or> h - 1 \<le> pos sdiv w \<or> pos smod w = 0 \<or> (pos - (w - 1)) smod w = 0
     then Inr 0
     else rbind (gray_at out (i + j + k * w) ph) (\<lambda>g. Inr (uint g)))"

definition sobelfilter :: "IMAGE \<Rightarrow> legacy_mem \<Rightarrow> legacy_mem res" where
  "sobelfilter im m =
     rbind (biCopyImage biInitImage im m) (\<lambda>(out, m).
     rbind (foldM (\<lambda>i ph.
         rbind (mapM (gradient_num out im i ph) (Morphology.win 1)) (\<lambda>num.
         upd_at im i (set_all (word_of_int (sobel_gray num))) ph)) [0..size_of im - 1] (pixels m)) (\<lambda>ph.
     rbind (biBreakImage out (m\<lparr>pixels := ph\<rparr>)) (\<lambda>(_, m). Inr m)))"

subsection \<open>Histogram and binarisation\<close>


definition limit_to :: "int \<Rightarrow> int \<Rightarrow> int \<Rightarrow> int" where
  "limit_to num hi lo = (if hi < num then hi else if num < lo then lo else num)"

definition MakeHistogram :: "IMAGE \<Rightarrow> idata cheap \<Rightarrow> int list res" where
  "MakeHistogram im ph = foldM (\<lambda>i hist.
     rbind (gray_at im i ph) (\<lambda>g. Inr (hist[unat g := hist ! unat g + 1]))) [0..size_of im - 1] (replicate 256 0)"



subsection \<open>Search and frames\<close>

definition empty_rect :: "IMAGE \<Rightarrow> RECT_I" where
  "empty_rect im = \<lparr>rc_top = -1, rc_left = bwidth im, rc_right = -1, rc_bottom = -1\<rparr>"

definition rect_step :: "int \<Rightarrow> int \<Rightarrow> RECT_I \<Rightarrow> RECT_I" where
  "rect_step i j rc =
     (let rc = (if rc_top rc = -1 then rc\<lparr>rc_top := i\<rparr> else rc);
          rc = (if j \<le> rc_left rc then rc\<lparr>rc_left := j\<rparr> else rc);
          rc = (if rc_right rc \<le> j then rc\<lparr>rc_right := j\<rparr> else rc) in
      if rc_bottom rc \<le> i then rc\<lparr>rc_bottom := i\<rparr> else rc)"

definition inner :: "IMAGE \<Rightarrow> (int \<times> int) list" where
  "inner im = concat (map (\<lambda>i. map (\<lambda>j. (j, i)) [1..bwidth im - 2]) [1..bheight im - 2])"

definition search :: "IMAGE \<Rightarrow> int \<Rightarrow> idata cheap \<Rightarrow> RECT_I res" where
  "search im num ph = foldM (\<lambda>(j, i) rc.
     rbind (gray_at im (j + i * bwidth im) ph) (\<lambda>g.
     Inr (if uint g = num then rect_step i j rc else rc))) (inner im) (empty_rect im)"

definition image_search :: "IMAGE \<Rightarrow> idata cheap \<Rightarrow> RECT_I res" where
  "image_search im ph = foldM (\<lambda>(j, i) rc.
     rbind (peek (data_at im) (j + i * bwidth im) ph) (\<lambda>d. rbind (fld (rgbGreen d)) (\<lambda>g.
     Inr (if g = 255 then rect_step i j rc else rc)))) (inner im) (empty_rect im)"

text \<open>The parameter \<open>graylevel\<close> is stored into an \<open>unsigned char\<close>.\<close>

definition draw_frame :: "RECT_I \<Rightarrow> IMAGE \<Rightarrow> int \<Rightarrow> idata cheap \<Rightarrow> idata cheap res" where
  "draw_frame rc im g ph =
     (let x = rc_left rc; y = rc_top rc; w = s32 (rc_right rc - rc_left rc); h = s32 (rc_bottom rc - rc_top rc);
          mark = (\<lambda>n. upd_at im n (set_frame (word_of_int g))) in
      rbind (foldM (\<lambda>(i, j) ph.
          rbind (mark (x + j + i * bwidth im) ph) (\<lambda>ph. mark (x - j + w + i * bwidth im) ph))
        (concat (map (\<lambda>i. map (\<lambda>j. (i, j)) [0..4]) [y..y + h])) ph) (\<lambda>ph.
      foldM (\<lambda>(i, j) ph.
          rbind (mark (i + (y + j) * bwidth im) ph) (\<lambda>ph. mark (i + (y + h - j) * bwidth im) ph))
        (concat (map (\<lambda>i. map (\<lambda>j. (i, j)) [0..4]) [x..x + w])) ph))"

subsection \<open>Colours and contrast\<close>

definition fld3 :: "idata \<Rightarrow> (byte \<times> byte \<times> byte) res" where
  "fld3 d = rbind (fld (rgbRed d)) (\<lambda>r. rbind (fld (rgbGreen d)) (\<lambda>g. rbind (fld (rgbBlue d)) (\<lambda>b.
     Inr (r, g, b))))"

definition inclined :: "cfloat \<Rightarrow> byte \<Rightarrow> byte" where
  "inclined q c = word_of_int (limit_to (fp_to_int (fp_mul F64 (fp_of_int F64 (uint c)) q)) 255 0)"

definition incline :: "IMAGE \<Rightarrow> IMAGE \<Rightarrow> cfloat \<Rightarrow> cfloat \<Rightarrow> cfloat \<Rightarrow> idata cheap \<Rightarrow> idata cheap res" where
  "incline im out qr qg qb = foldM (\<lambda>i ph.
     rbind (peek (data_at out) i ph) (\<lambda>d. rbind (fld3 d) (\<lambda>(r, g, b).
     let r = inclined qr r; g = inclined qg g; b = inclined qb b in
     poke (data_at out) i (d\<lparr>rgbRed := Some r, rgbGreen := Some g, rgbBlue := Some b,
       graylevel := Some (word_of_int ((uint r + uint g + uint b) div 3))\<rparr>) ph))) [0..size_of im - 1]"

text \<open>The three components are cut to an \<open>unsigned char\<close> before they are compared.\<close>

definition yiq_of :: "byte \<times> byte \<times> byte \<Rightarrow> int \<times> int \<times> int" where
  "yiq_of = (\<lambda>(r, g, b). let p = PixelRGB r g b in
     (uint (fp_to_byte (mixed (299 / 1000) (587 / 1000) (114 / 1000) p)),
      uint (fp_to_byte (mixed_minus (596 / 1000) (274 / 1000) (322 / 1000) p)),
      uint (fp_to_byte (mixed_minus (211 / 1000) (522 / 1000) (311 / 1000) p))))"

definition in_range :: "int \<Rightarrow> int \<Rightarrow> int \<Rightarrow> bool" where
  "in_range low high v \<longleftrightarrow> low \<le> v \<and> v \<le> high"

definition ChangeYIQ ::
  "IMAGE \<Rightarrow> IMAGE \<Rightarrow> int \<Rightarrow> int \<Rightarrow> int \<Rightarrow> int \<Rightarrow> int \<Rightarrow> int \<Rightarrow> idata cheap \<Rightarrow> idata cheap res" where
  "ChangeYIQ im out ylow yhigh ilow ihigh qlow qhigh = foldM (\<lambda>n ph.
     rbind (peek (data_at im) n ph) (\<lambda>d. rbind (fld3 d) (\<lambda>rgb.
     case yiq_of rgb of (y, i, q) \<Rightarrow>
       upd_at out n (set_all (if in_range ylow yhigh y \<and> (in_range ilow ihigh i \<or> ilow = ihigh) \<and>
         (in_range qlow qhigh q \<or> qlow = qhigh) then 255 else 0)) ph))) [0..size_of im - 1]"

definition contrast_cell :: "int \<Rightarrow> int \<Rightarrow> byte \<Rightarrow> idata \<Rightarrow> idata res" where
  "contrast_cell a b g d =
     (if uint g < a then Inr (set_all 0 d)
      else if uint g \<le> b
      then rbind (fld (graylevel d)) (\<lambda>l. rbind (fld3 d) (\<lambda>(cr, cg, cb).
        let l = word_of_int (stretched a b (uint l));
            q = fp_to_byte (fp_div F64 (fp_of_int F64 (uint l)) (fp_of_int F64 (uint g))) in
        Inr (d\<lparr>graylevel := Some l, rgbRed := Some (cr * q), rgbGreen := Some (cg * q), rgbBlue := Some (cb * q)\<rparr>)))
      else Inr (set_all 255 d))"

definition ChangeContrast :: "IMAGE \<Rightarrow> IMAGE \<Rightarrow> legacy_mem \<Rightarrow> (IMAGE \<times> legacy_mem) res" where
  "ChangeContrast im out m =
     rbind (MakeHistogram im (pixels m)) (\<lambda>hist.
     let a = (case first_class hist [0..255] of Some a \<Rightarrow> a | None \<Rightarrow> 0);
         b = (case first_class hist (rev [0..255]) of Some b \<Rightarrow> b | None \<Rightarrow> 255) in
     rbind (biCopyImage out im m) (\<lambda>(out, m).
     rbind (foldM (\<lambda>i ph. rbind (gray_at im i ph) (\<lambda>g.
         rbind (peek (data_at out) i ph) (\<lambda>d. rbind (contrast_cell a b g d) (\<lambda>d.
         poke (data_at out) i d ph)))) [0..size_of im - 1] (pixels m)) (\<lambda>ph.
     Inr (out, m\<lparr>pixels := ph\<rparr>))))"

subsection \<open>Labels\<close>

text \<open>The label of a pixel is an \<open>unsigned char\<close>, and the least label starts from 1000.\<close>

definition min_label :: "int list \<Rightarrow> int" where
  "min_label p = foldl (\<lambda>m v. if v \<noteq> 0 then (if v < m then v else m) else m) 1000 p"

definition label_cell :: "IMAGE \<Rightarrow> int \<times> int \<Rightarrow> idata cheap \<times> int list \<times> int \<Rightarrow>
    (idata cheap \<times> int list \<times> int) res" where
  "label_cell im = (\<lambda>(w, h) (ph, tab, cnt).
     let n = w + h * bwidth im in
     rbind (gray_at im n ph) (\<lambda>g.
     if g = 255
     then rbind (mapM (\<lambda>i. rbind (label_at im ((w + i mod 3 - 1) + (h + i div 3 - 1) * bwidth im) ph)
            (\<lambda>l. Inr (uint l))) [0, 1, 2, 3, 5, 6, 7, 8]) (\<lambda>ns.
       if length (filter (\<lambda>v. v = 0) ns) = 8
       then rbind (upd_at im n (\<lambda>d. d\<lparr>dlabel := Some (word_of_int cnt)\<rparr>) ph) (\<lambda>ph. Inr (ph, tab, cnt + 1))
       else rbind (record_min (min_label ns) ns tab) (\<lambda>tab.
         rbind (upd_at im n (\<lambda>d. d\<lparr>dlabel := Some (word_of_int (min_label ns))\<rparr>) ph) (\<lambda>ph.
         Inr (ph, tab, cnt))))
     else Inr (ph, tab, cnt)))"

definition relabel_image :: "IMAGE \<Rightarrow> int list \<Rightarrow> idata cheap \<Rightarrow> idata cheap res" where
  "relabel_image im tab = foldM (\<lambda>(w, h) ph.
     rbind (label_at im (w + h * bwidth im) ph) (\<lambda>l.
     if l \<noteq> 0 then rbind (rdbuf tab (uint l)) (\<lambda>v.
       upd_at im (w + h * bwidth im) (\<lambda>d. d\<lparr>dlabel := Some (word_of_int v)\<rparr>) ph)
     else Inr ph)) (raster (bwidth im) (bheight im))"

definition label_round :: "IMAGE \<Rightarrow> idata cheap \<times> int list \<times> int \<Rightarrow> (idata cheap \<times> int list \<times> int) res" where
  "label_round im s =
     rbind (foldM (label_cell im) (inner im) s) (\<lambda>(ph, tab, cnt).
     rbind (resolve cnt tab) (\<lambda>tab. rbind (relabel_image im tab ph) (\<lambda>ph. Inr (ph, tab, cnt))))"

definition legacy_label :: "IMAGE \<Rightarrow> idata cheap \<Rightarrow> (int \<times> idata cheap) res" where
  "legacy_label im ph =
     (let size = size_of im in
      rbind (foldM (\<lambda>i. upd_at im i (\<lambda>d. d\<lparr>dlabel := Some 0\<rparr>)) [0..size - 1] ph) (\<lambda>ph.
      rbind (foldM (\<lambda>_. label_round im) [0..1] (ph, [0..size - 1], 1)) (\<lambda>(ph, tab, cnt).
      rbind (number_roots cnt tab (replicate (nat size) (- 1), 0)) (\<lambda>(sub, label).
      rbind (final_table cnt sub tab) (\<lambda>tab.
      rbind (relabel_image im tab ph) (\<lambda>ph. Inr (label, ph)))))))"

definition color_put :: "IMAGE \<Rightarrow> int \<Rightarrow> idata cheap \<Rightarrow> (int \<times> RECT_I \<times> idata cheap) res" where
  "color_put im l ph =
     rbind (foldM (\<lambda>(i, j) (area, rc, ph).
         rbind (label_at im (i + j * bwidth im) ph) (\<lambda>v.
         if uint v = l
         then rbind (upd_at im (i + j * bwidth im) (set_all 255) ph) (\<lambda>ph.
           Inr (area + 1, rect_step j i rc, ph))
         else rbind (upd_at im (i + j * bwidth im) (set_all 0) ph) (\<lambda>ph. Inr (area, rc, ph))))
       (raster (bwidth im) (bheight im)) (0, empty_rect im, ph)) (\<lambda>(area, rc, ph).
     Inr (area, if area = 0 then \<lparr>rc_top = 0, rc_left = 0, rc_right = 0, rc_bottom = 0\<rparr> else rc, ph))"

subsection \<open>Diagrams\<close>

definition diagram_height :: "byte \<Rightarrow> int" where
  "diagram_height g = fp_to_int (fp_mul F64 (fp_div F64 (fp_of_int F64 (uint g)) (fp_of_int F64 255)) (fp_of_int F64 100))"

definition MakeDiagram :: "IMAGE \<Rightarrow> int \<Rightarrow> int \<Rightarrow> int \<Rightarrow> int \<Rightarrow> int \<Rightarrow> bool \<Rightarrow> legacy_mem \<Rightarrow>
    (IMAGE \<times> legacy_mem \<times> byte list) res" where
  "MakeDiagram im x y w h roll opened m =
     rbind (if roll = 1 then biCreateImage 120 (s32 (h * w)) 24 m else biCreateImage (s32 (h * w)) 120 24 m) (\<lambda>(diagram, m).
     rbind (foldM (\<lambda>(i, j) ph.
         rbind (gray_at im (if roll = 1 then i + x + (j + y) * bwidth im else i + x + (y + h - j) * bwidth im) ph) (\<lambda>g.
         foldM (\<lambda>k. upd_at diagram (if roll = 1 then k + (i + j) * 120 else k * h + (i + j)) (set_all 0))
           [0..diagram_height g - 1] ph)) (raster w h) (pixels m)) (\<lambda>ph.
     rbind (biWriteImage opened diagram (m\<lparr>pixels := ph\<rparr>)) (\<lambda>(_, bs, diagram, m). Inr (diagram, m, bs))))"

definition bar_height :: "int \<Rightarrow> int \<Rightarrow> int" where
  "bar_height n pixelnum = fp_to_int (fp_mul F64 (fp_div F64 (fp_of_int F64 n) (fp_of_int F64 pixelnum)) (fp_of_int F64 256))"

definition SaveHistogramImage :: "int list \<Rightarrow> int \<Rightarrow> bool \<Rightarrow> legacy_mem \<Rightarrow> (legacy_mem \<times> byte list) res" where
  "SaveHistogramImage hist pixelnum opened m =
     rbind (biCreateImage 256 256 32 m) (\<lambda>(out, m).
     rbind (foldM (\<lambda>i ph. foldM (\<lambda>j.
         upd_at out (i + j * 256) (set_frame 170)) [0..bar_height (hist ! nat i) pixelnum - 1] ph)
       [0..255] (pixels m)) (\<lambda>ph.
     rbind (biWriteImage opened out (m\<lparr>pixels := ph\<rparr>)) (\<lambda>(_, bs, _, m). Inr (m, bs))))"

subsection \<open>Images of the two libraries side by side\<close>










subsection \<open>The gradient\<close>

definition level_at :: "legacy_mem \<Rightarrow> IMAGE \<Rightarrow> int \<Rightarrow> int \<Rightarrow> int" where
  "level_at m im x y =
     (if 0 < x \<and> x < bwidth im - 1 \<and> 0 < y \<and> y < bheight im - 1
      then uint (the (graylevel (pixel_at m im x y))) else 0)"

lemma smod_mult: "(a * w) smod w = (0 :: int)"
  by (simp add: signed_modulo_int_def abs_mult)

lemma sdiv_nonneg: "0 \<le> a \<Longrightarrow> 0 < w \<Longrightarrow> a sdiv w = a div (w :: int)"
  by (auto simp: signed_divide_int_def sgn_if)

lemma smod_nonneg: "0 \<le> a \<Longrightarrow> 0 < w \<Longrightarrow> a smod w = a mod (w :: int)"
  by (auto simp: signed_modulo_int_def sgn_if)

text \<open>
  The tests of the filter on the position alone: they hold exactly for the neighbours that lie
  on the border of the image or outside it.
\<close>

lemma border_test:
  assumes "0 < w" "0 < h" "- 1 \<le> c" "c \<le> w" "- 1 \<le> d" "d \<le> h"
  shows "(c + d * w) sdiv w = 0 \<or> h - 1 \<le> (c + d * w) sdiv w \<or> (c + d * w) smod w = 0 \<or>
      (c + d * w - (w - 1)) smod w = 0 \<longleftrightarrow> \<not> (0 < c \<and> c < w - 1 \<and> 0 < d \<and> d < (h :: int) - 1)"
proof -
  consider (l) "c = - 1" | (r) "c = w" | (d) "0 \<le> c" "c < w" "d = - 1"
    | (m) "0 \<le> c" "c < w" "d = 0" | (p) "0 \<le> c" "c < w" "1 \<le> d" using assms by linarith
  then show ?thesis
  proof cases
    case l
    have "c + d * w - (w - 1) = (d - 1) * w" by (simp add: l algebra_simps)
    then show ?thesis using l smod_mult by simp
  next
    case r
    have "c + d * w = (d + 1) * w" by (simp add: r algebra_simps)
    then show ?thesis using r smod_mult [of "d + 1" w] by simp
  next
    case d
    show ?thesis
    proof (cases "c = 0")
      case True
      then show ?thesis using d smod_mult [of "- 1" w] by simp
    next
      case False
      then have "(c + d * w) sdiv w = 0" using d by (simp add: signed_divide_int_def)
      then show ?thesis using d by simp
    qed
  next
    case m
    then have "(c + d * w) sdiv w = 0" by (simp add: sdiv_nonneg)
    then show ?thesis using m by simp
  next
    case p
    have e: "c + d * w - (w - 1) = (c + 1) + (d - 1) * w" by (simp add: algebra_simps)
    have "0 \<le> d * w" "0 \<le> (d - 1) * w" using p assms(1) by simp_all
    then have s: "(c + d * w) sdiv w = d" "(c + d * w) smod w = c" "(c + d * w - (w - 1)) smod w = (c + 1) mod w"
      using p assms(1) unfolding e by (simp_all add: sdiv_nonneg smod_nonneg)
    have "(c + 1) mod w = 0 \<longleftrightarrow> c = w - 1"
      using p by (cases "c + 1 = w") auto
    then show ?thesis using s p assms by auto
  qed
qed

lemma gradient_num_ok:
  assumes "block t (data_at out) = Some ys" "bwidth im * bheight im \<le> int (length ys)"
    and in': "in_image im x y" and "(k, l) \<in> set (Morphology.win 1)"
    and "\<And>a b. in_image im a b \<Longrightarrow> ys ! nat (a + b * bwidth im) = pixel_at m im a b \<and> graylevel (pixel_at m im a b) \<noteq> None"
  shows "gradient_num out im (x + y * bwidth im) t (k, l) = Inr (level_at m im (x + l) (y + k))"
proof -
  let ?w = "bwidth im" and ?h = "bheight im" and ?c = "x + l" and ?d = "y + k"
  have kl: "- 1 \<le> k" "k \<le> 1" "- 1 \<le> l" "l \<le> 1" using assms(4) by (auto simp: Morphology.win_def)
  have pos: "x + y * ?w + l + k * ?w = ?c + ?d * ?w" by (simp add: algebra_simps)
  have test: "(?c + ?d * ?w) sdiv ?w = 0 \<or> ?h - 1 \<le> (?c + ?d * ?w) sdiv ?w \<or> (?c + ?d * ?w) smod ?w = 0 \<or>
      (?c + ?d * ?w - (?w - 1)) smod ?w = 0 \<longleftrightarrow> \<not> (0 < ?c \<and> ?c < ?w - 1 \<and> 0 < ?d \<and> ?d < ?h - 1)"
    using in' kl by (intro border_test) (auto simp: in_image_def)
  show ?thesis
  proof (cases "0 < ?c \<and> ?c < ?w - 1 \<and> 0 < ?d \<and> ?d < ?h - 1")
    case True
    then have c: "in_image im ?c ?d" by (simp add: in_image_def)
    have "0 \<le> ?c + ?d * ?w" "?c + ?d * ?w < ?w * ?h" using index_less [of ?c ?w ?d ?h] True by simp_all
    then have "gray_at out (?c + ?d * ?w) t = Inr (the (graylevel (pixel_at m im ?c ?d)))"
      using assms(1,2) assms(5) [OF c] by (auto simp: gray_at_def hp.rd_live)
    then show ?thesis
      using test True by (simp add: gradient_num_def Let_def pos level_at_def)
  next
    case False
    then show ?thesis using test unfolding gradient_num_def Let_def prod.case pos by (auto simp: level_at_def)
  qed
qed

lemma image_loop:
  "fits (bwidth im) (bheight im) \<Longrightarrow> foldM f [0..size_of im - 1] s =
     foldM (\<lambda>(i, j). f (i + j * bwidth im)) (raster (bwidth im) (bheight im)) s"
  using raster_index [of "bwidth im" "bheight im", symmetric]
  by (simp add: size_of_def s32_size foldM_map fits_def split_def)

text \<open>The loop, which reads the copy \<open>r\<close> and writes the image.\<close>

lemma gradient_loop:
  assumes "fits (bwidth im) (bheight im)" "block (pixels m) (data_at im) = Some xs" "bwidth im * bheight im \<le> int (length xs)"
    and "block h (data_at im) = Some xs" "block h (data_at r) = Some ys" "data_at r \<noteq> data_at im"
    and "bwidth im * bheight im \<le> int (length ys)"
    and "\<And>x y. in_image im x y \<Longrightarrow> ys ! nat (x + y * bwidth im) = pixel_at m im x y"
    and "\<And>x y. in_image im x y \<Longrightarrow> graylevel (pixel_at m im x y) \<noteq> None"
  shows "\<exists>t zs. foldM (\<lambda>i ph. rbind (mapM (gradient_num r im i ph) (Morphology.win 1)) (\<lambda>num.
        upd_at im i (set_all (word_of_int (sobel_gray num))) ph)) [0..size_of im - 1] h = Inr t \<and>
      block t = (block h)(data_at im \<mapsto> zs) \<and> length zs = length xs \<and>
      (\<forall>i j. in_image im i j \<longrightarrow> zs ! nat (i + j * bwidth im) =
        set_all (word_of_int (sobel_gray (map (\<lambda>(k, l). level_at m im (i + l) (j + k)) (Morphology.win 1))))
          (pixel_at m im i j))"
proof -
  let ?w = "bwidth im" and ?h = "bheight im"
  let ?g = "\<lambda>x y. set_all (word_of_int (sobel_gray (map (\<lambda>(k, l). level_at m im (x + l) (y + k)) (Morphology.win 1))))
      (pixel_at m im x y)"
  let ?f = "\<lambda>i ph. rbind (mapM (gradient_num r im i ph) (Morphology.win 1)) (\<lambda>num.
      upd_at im i (set_all (word_of_int (sobel_gray num))) ph)"
  have "\<exists>t zs. foldM (\<lambda>(i, j). ?f (i + j * ?w)) (raster ?w ?h) h = Inr t \<and>
      block t = (block h)(data_at im \<mapsto> zs) \<and> length zs = length xs \<and>
      (\<forall>i j. 0 \<le> i \<longrightarrow> i < ?w \<longrightarrow> 0 \<le> j \<longrightarrow> j < ?h \<longrightarrow> zs ! nat (i + j * ?w) = ?g i j)"
  proof (rule image_sweep [OF assms(4) _ assms(3)])
    fix i j t zs
    assume r: "0 \<le> i" "i < ?w" "0 \<le> j" "j < ?h" and t: "block t = (block h)(data_at im \<mapsto> zs)"
      "length zs = length xs" "zs ! nat (i + j * ?w) = xs ! nat (i + j * ?w)"
    have in': "in_image im i j" using r by (simp add: in_image_def)
    have "block t (data_at r) = Some ys" using t(1) assms(5,6) by simp
    then have "mapM (gradient_num r im (i + j * ?w) t) (Morphology.win 1) =
        Inr (map (\<lambda>(k, l). level_at m im (i + l) (j + k)) (Morphology.win 1))"
      using assms(7,8,9) in' by (intro mapM_total) (auto intro!: gradient_num_ok)
    moreover have "peek (data_at im) (i + j * ?w) t = Inr (pixel_at m im i j)"
      using t index_less [OF r] assms(2,3) by (simp add: hp.rd_live pixel_at_def)
    ultimately show "(\<lambda>(i, j). ?f (i + j * ?w)) (i, j) t = poke (data_at im) (i + j * ?w) (?g i j) t"
      by (simp add: upd_at_def)
  qed (use assms(1) in \<open>simp add: fits_def\<close>)
  then show ?thesis by (auto simp: image_loop [OF assms(1)] in_image_def)
qed

text \<open>
  C26: the Sobel filter of the older library reads nothing outside its buffers, although it
  tests only positions and no coordinates. In an image in memory that has its header and a gray
  level in each of its pixels, every pixel becomes the saturated gradient of the
  gray levels around it in the image before the call, where the border and what lies beyond it
  count as 0. The copy it works from is released: the blocks of the memory are those before the
  call, and only the pixels of the image have changed.
\<close>

theorem sobelfilter_gradient:
  assumes "live_data m im" "live_head m im"
    and "\<And>x y. in_image im x y \<Longrightarrow> graylevel (pixel_at m im x y) \<noteq> None"
  shows "\<exists>m' zs. sobelfilter im m = Inr m' \<and> live_data m' im \<and>
    block (pixels m') = (block (pixels m))(data_at im \<mapsto> zs) \<and> block (hbytes m') = block (hbytes m) \<and>
    (\<forall>x y. in_image im x y \<longrightarrow> pixel_at m' im x y =
      set_all (word_of_int (sobel_gray (map (\<lambda>(k, l). level_at m im (x + l) (y + k)) (Morphology.win 1))))
        (pixel_at m im x y))"
proof -
  let ?w = "bwidth im" and ?h = "bheight im"
  obtain xs where xs: "fits ?w ?h" "block (pixels m) (data_at im) = Some xs" "?w * ?h \<le> int (length xs)"
    using assms(1) by (auto simp: live_data_def)
  obtain r m1 ys us where c: "biCopyImage biInitImage im m = Inr (r, m1)" "bwidth r = ?w"
    "block (pixels m) (data_at r) = None" "block (pixels m1) = (block (pixels m))(data_at r \<mapsto> ys)"
    "block (hbytes m) (head_at r) = None" "block (hbytes m1) = (block (hbytes m))(head_at r \<mapsto> us)"
    "?w * ?h \<le> int (length ys)" "\<And>x y. in_image im x y \<Longrightarrow> ys ! nat (x + y * ?w) = pixel_at m im x y"
    using biCopyImage_new [OF assms(1,2)] by blast
  have ne: "data_at r \<noteq> data_at im" using c(3) xs(2) by auto
  have m1: "block (pixels m1) (data_at im) = Some xs" "block (pixels m1) (data_at r) = Some ys"
    using ne xs(2) by (simp_all add: c(4))
  let ?g = "\<lambda>x y. set_all (word_of_int (sobel_gray (map (\<lambda>(k, l). level_at m im (x + l) (y + k)) (Morphology.win 1))))
      (pixel_at m im x y)"
  let ?f = "\<lambda>i ph. rbind (mapM (gradient_num r im i ph) (Morphology.win 1)) (\<lambda>num.
      upd_at im i (set_all (word_of_int (sobel_gray num))) ph)"
  obtain t zs where t: "foldM ?f [0..size_of im - 1] (pixels m1) = Inr t"
    "block t = (block (pixels m1))(data_at im \<mapsto> zs)" "length zs = length xs"
    "\<And>i j. in_image im i j \<Longrightarrow> zs ! nat (i + j * ?w) = ?g i j"
    using gradient_loop [OF xs m1 ne c(7,8) assms(3)] by blast
  have "releasable (m1\<lparr>pixels := t\<rparr>) r" using ne by (simp add: releasable_def t(2) c(4,6))
  then obtain ph hb where b: "biBreakImage r (m1\<lparr>pixels := t\<rparr>) = Inr (biInitImage, m1\<lparr>pixels := ph, hbytes := hb\<rparr>)"
    "block ph = (block t)(data_at r := None)" "block hb = (block (hbytes m1))(head_at r := None)"
    using biBreakImage_ok [of "m1\<lparr>pixels := t\<rparr>" r] by auto
  have "sobelfilter im m = Inr (m1\<lparr>pixels := ph, hbytes := hb\<rparr>)"
    by (simp only: sobelfilter_def c(1) rbind_Inr prod.case t(1) b(1))
  moreover have ph: "block ph = (block (pixels m))(data_at im \<mapsto> zs)"
    using ne c(3) by (auto simp: b(2) t(2) c(4))
  moreover have "block hb = block (hbytes m)" using c(5) by (auto simp: b(3) c(6))
  ultimately show ?thesis
    using xs(1,3) t(3,4) by (intro exI [of _ "m1\<lparr>pixels := ph, hbytes := hb\<rparr>"] exI [of _ zs])
      (simp add: live_data_def pixel_at_def)
qed

text \<open>A 3 by 3 image of one gray level.\<close>

definition nine_mem :: legacy_mem where
  "nine_mem = num_mem\<lparr>pixels := [Some (replicate 9 (set_all 9 zero_data))]\<rparr>"

definition nine_img :: IMAGE where
  "nine_img = num_img\<lparr>bheight := 3\<rparr>"

lemma nine_live: "live_data nine_mem nine_img" "live_head nine_mem nine_img"
  by (simp_all add: nine_mem_def num_mem_def nine_img_def num_img_def live_data_def live_head_def block_def
      NULL_def fits_def)

lemma nine_pixel: "in_image nine_img x y \<Longrightarrow> pixel_at nine_mem nine_img x y = set_all 9 zero_data"
proof -
  assume xy: "in_image nine_img x y"
  then have "nat (x + y * 3) < 9"
    by (auto simp: in_image_def nine_img_def num_img_def)
  then show ?thesis
    by (simp add: nine_mem_def num_mem_def nine_img_def num_img_def pixel_at_def block_def NULL_def)
qed

theorem sobelfilter_gradient_witness:
  "\<exists>m'. sobelfilter nine_img nine_mem = Inr m' \<and> pixel_at m' nine_img 0 1 = set_all 18 (set_all 9 zero_data)"
proof -
  have g: "graylevel (pixel_at nine_mem nine_img x y) \<noteq> None" if "in_image nine_img x y" for x y
    using nine_pixel [OF that] by (simp add: set_all_def)
  have "level_at nine_mem nine_img x y = (if x = 1 \<and> y = 1 then 9 else 0)" for x y
    using nine_pixel [of 1 1]
    by (simp add: level_at_def nine_img_def num_facts in_image_def set_all_def)
  then have "word_of_int (sobel_gray (map (\<lambda>(k, l). level_at nine_mem nine_img (0 + l) (1 + k)) (Morphology.win 1))) = (18 :: byte)"
    by (simp add: sobel_gray_def Morphology.win_def upto.simps)
  moreover have "in_image nine_img 0 1" by (simp add: in_image_def nine_img_def num_facts)
  ultimately show ?thesis
    using sobelfilter_gradient [OF nine_live g] nine_pixel [of 0 1] by metis
qed



subsection \<open>Bounding boxes\<close>

text \<open>\<open>rc\<close> is the least rectangle around the points \<open>(x, y)\<close> of a set, or still empty.\<close>

definition box :: "IMAGE \<Rightarrow> (int \<times> int) set \<Rightarrow> RECT_I \<Rightarrow> bool" where
  "box im S rc \<longleftrightarrow> (if S = {} then rc = empty_rect im
     else (\<forall>(x, y) \<in> S. rc_left rc \<le> x \<and> x \<le> rc_right rc \<and> rc_top rc \<le> y \<and> y \<le> rc_bottom rc) \<and>
       rc_left rc \<in> fst ` S \<and> rc_right rc \<in> fst ` S \<and> rc_top rc \<in> snd ` S \<and> rc_bottom rc \<in> snd ` S)"

lemma rect_step_box:
  assumes "box im S rc" "0 \<le> x" "x < bwidth im" "0 \<le> y" "\<And>a b. (a, b) \<in> S \<Longrightarrow> 0 \<le> b \<and> b \<le> y"
  shows "box im (insert (x, y) S) (rect_step y x rc)"
proof (cases "S = {}")
  case True
  then show ?thesis using assms(1-4) by (simp add: box_def rect_step_def empty_rect_def)
next
  case False
  then have b: "\<And>a b. (a, b) \<in> S \<Longrightarrow> rc_left rc \<le> a \<and> a \<le> rc_right rc \<and> rc_top rc \<le> b \<and> b \<le> rc_bottom rc"
    "rc_left rc \<in> fst ` S" "rc_right rc \<in> fst ` S" "rc_top rc \<in> snd ` S" "rc_bottom rc \<in> snd ` S"
    using assms(1) by (auto simp: box_def)
  have row: "0 \<le> rc_top rc" "rc_top rc \<le> y" "rc_bottom rc \<le> y" using b(4,5) assms(5) by auto
  have "rect_step y x rc = rc\<lparr>rc_left := min (rc_left rc) x, rc_right := max (rc_right rc) x, rc_bottom := y\<rparr>"
    using row by (cases rc) (auto simp: rect_step_def Let_def)
  moreover have "min (rc_left rc) x \<in> fst ` insert (x, y) S" "max (rc_right rc) x \<in> fst ` insert (x, y) S"
    using b(2,3) by (simp_all add: min_def max_def)
  moreover have "rc_top rc \<in> snd ` insert (x, y) S" "y \<in> snd ` insert (x, y) S" using b(4) by simp_all
  moreover have "min (rc_left rc) x \<le> a \<and> a \<le> max (rc_right rc) x \<and> rc_top rc \<le> c \<and> c \<le> y"
    if "(a, c) \<in> insert (x, y) S" for a c
  proof (cases "(a, c) \<in> S")
    case True
    then show ?thesis using b(1) [OF True] assms(5) [OF True] by (simp add: min_le_iff_disj le_max_iff_disj)
  next
    case False
    then show ?thesis using that row by simp
  qed
  ultimately show ?thesis unfolding box_def by auto
qed

lemma sorted_rows: "sorted is \<Longrightarrow> sorted (map snd (concat (map (\<lambda>i. map (\<lambda>j. (j, i)) js) is)))"
  by (induction "is") (auto simp: sorted_append comp_def map_replicate_const)

lemma set_inner: "set (inner im) = {(x, y). 0 < x \<and> x < bwidth im - 1 \<and> 0 < y \<and> y < bheight im - 1}"
  by (auto simp: inner_def image_iff)

lemma box_loop:
  assumes "sorted (map snd xs)" "set xs \<subseteq> {(x, y). 0 \<le> x \<and> x < bwidth im \<and> 0 \<le> y}"
    and "\<And>x y rc. (x, y) \<in> set xs \<Longrightarrow> f (x, y) rc = Inr (if P x y then rect_step y x rc else rc)"
  shows "\<exists>rc. foldM f xs (empty_rect im) = Inr rc \<and> box im {(x, y) \<in> set xs. P x y} rc"
  using assms
proof (induction xs rule: rev_induct)
  case Nil
  then show ?case by (simp add: box_def)
next
  case (snoc p xs)
  obtain x y where p: "p = (x, y)" by force
  have "\<exists>rc. foldM f xs (empty_rect im) = Inr rc \<and> box im {(x, y) \<in> set xs. P x y} rc"
    by (rule snoc.IH) (use snoc.prems in \<open>auto simp: sorted_append\<close>)
  then obtain rc where rc: "foldM f xs (empty_rect im) = Inr rc" "box im {(x, y) \<in> set xs. P x y} rc" by blast
  have "{(a, b) \<in> set (xs @ [p]). P a b} =
      (if P x y then insert (x, y) {(a, b) \<in> set xs. P a b} else {(a, b) \<in> set xs. P a b})"
    by (auto simp: p)
  moreover have "box im (insert (x, y) {(a, b) \<in> set xs. P a b}) (rect_step y x rc)"
    by (rule rect_step_box [OF rc(2)]) (use snoc.prems(1,2) in \<open>fastforce simp: sorted_append p\<close>)+
  ultimately show ?case
    using rc snoc.prems(3) [of x y] by (simp add: foldM_append p)
qed

text \<open>
  \<open>search\<close> finds the least rectangle around the pixels of a gray level, those on the border
  of the image left aside, and reads no pixel outside the image; without such a pixel the
  rectangle is the empty one it starts from.
\<close>

theorem search_box:
  assumes "live_data m im" "\<And>x y. in_image im x y \<Longrightarrow> graylevel (pixel_at m im x y) = Some (g x y)"
  shows "\<exists>rc. search im num (pixels m) = Inr rc \<and>
    box im {(x, y). 0 < x \<and> x < bwidth im - 1 \<and> 0 < y \<and> y < bheight im - 1 \<and> uint (g x y) = num} rc"
proof -
  have "gray_at im (x + y * bwidth im) (pixels m) = Inr (g x y)" if "in_image im x y" for x y
    using assms(1) assms(2) [OF that] that index_less [of x "bwidth im" y "bheight im"]
    by (auto simp: gray_at_def live_data_def in_image_def pixel_at_def hp.rd_live)
  then have "\<exists>rc. foldM (\<lambda>(j, i) rc. rbind (gray_at im (j + i * bwidth im) (pixels m)) (\<lambda>g.
      Inr (if uint g = num then rect_step i j rc else rc))) (inner im) (empty_rect im) = Inr rc \<and>
      box im {(x, y) \<in> set (inner im). uint (g x y) = num} rc"
    by (intro box_loop) (auto simp: set_inner in_image_def, simp add: inner_def sorted_rows)
  then show ?thesis
    unfolding search_def set_inner by (simp add: conj_assoc)
qed

theorem search_box_witness:
  "\<exists>rc. search nine_img 9 (pixels nine_mem) = Inr rc \<and> rc_left rc = 1 \<and> rc_right rc = 1 \<and>
     rc_top rc = 1 \<and> rc_bottom rc = 1"
proof -
  have g: "graylevel (pixel_at nine_mem nine_img x y) = Some 9" if "in_image nine_img x y" for x y
    using nine_pixel [OF that] by (simp add: set_all_def)
  have "{(x, y). 0 < x \<and> x < bwidth nine_img - 1 \<and> 0 < y \<and> y < bheight nine_img - 1} = {(1 :: int, 1 :: int)}"
    by (auto simp: nine_img_def num_facts)
  then show ?thesis
    using search_box [OF nine_live(1), of "\<lambda>_ _. 9" 9] g by (auto simp: box_def)
qed

end
