(* ===== verification/Histogram.thy ===== *)
theory Histogram
  imports LegacyFilters Strings
begin

text \<open>
  The histogram as a text file (\<open>SaveHistogram\<close> of \<open>lib.cpp\<close>): each count in four columns at
  least, a comma behind it and a line feed behind each tenth. The file is the text written to
  the stream; a file that cannot be opened is not tested for.
\<close>

subsection \<open>Writing\<close>

text \<open>\<open>%4d\<close>.\<close>

definition pad4 :: "int \<Rightarrow> string" where
  "pad4 n = replicate (4 - length (dec_str n)) (CHR '' '') @ dec_str n"

definition hist_entry :: "int \<Rightarrow> int \<Rightarrow> string" where
  "hist_entry i n = pad4 n @ '','' @ (if (i + 1) smod 10 = 0 then [CHR 0x0A] else [])"

definition SaveHistogram :: "bool \<Rightarrow> int list \<Rightarrow> string res" where
  "SaveHistogram opened hist = (if \<not> opened then Inl NullDeref else
     rbind (mapM (\<lambda>i. rbind (rdbuf hist i) (\<lambda>n. Inr (hist_entry i n))) [0..255]) (\<lambda>texts.
     Inr (concat texts)))"

subsection \<open>Reading back\<close>

lemma digits_no_comma: "CHR '','' \<notin> set (digits 10 n)"
proof (induction n rule: less_induct)
  case (less n)
  have d: "digit k \<noteq> CHR '',''" if "k < 10" for k
  proof
    assume "digit k = CHR '',''"
    then have "(of_char (digit k) :: nat) = 44" by simp
    with that show False by (simp add: digit_def)
  qed
  show ?case
  proof (cases "n < 10")
    case True
    then show ?thesis by (subst digits.simps) (use d [of n] in simp)
  next
    case False
    then show ?thesis using less [of "n div 10"] d [of "n mod 10"] by (subst digits.simps) auto
  qed
qed

lemma pad4_no_comma: "CHR '','' \<notin> set (pad4 n)"
  by (simp add: pad4_def dec_str_def digits_no_comma)

lemma segments_first: "d \<notin> set s \<Longrightarrow> segments d (s @ d # t) = s # segments d t"
  by (induction s) auto

lemma atoi_blanks: "list_all (\<lambda>c. (of_char c :: nat) \<in> {9, 10, 11, 12, 13, 32}) ws \<Longrightarrow> atoi (ws @ s) = atoi s"
proof -
  assume "list_all (\<lambda>c. (of_char c :: nat) \<in> {9, 10, 11, 12, 13, 32}) ws"
  then have "dropWhile (\<lambda>c. (of_char c :: nat) \<in> {9, 10, 11, 12, 13, 32}) (ws @ s) =
      dropWhile (\<lambda>c. (of_char c :: nat) \<in> {9, 10, 11, 12, 13, 32}) s"
    by (intro dropWhile_append2) (simp add: list_all_iff)
  then show ?thesis by (simp only: atoi_def)
qed

lemma entries_read:
  assumes "list_all (\<lambda>(i, n). int32 n) ps" "ws = [] \<or> ws = [CHR 0x0A]"
  shows "map atoi (butlast (segments (CHR '','') (ws @ concat (map (\<lambda>(i, n). hist_entry i n) ps)))) = map snd ps"
  using assms
proof (induction ps arbitrary: ws)
  case Nil
  then show ?case by auto
next
  case (Cons p ps)
  obtain i n where p: "p = (i, n)" by (cases p)
  define nl where "nl = (if (i + 1) smod 10 = 0 then [CHR 0x0A] else [])"
  have "CHR '','' \<notin> set (ws @ pad4 n)" using Cons.prems(2) pad4_no_comma by auto
  then have "segments (CHR '','') (ws @ concat (map (\<lambda>(i, n). hist_entry i n) (p # ps))) =
      (ws @ pad4 n) # segments (CHR '','') (nl @ concat (map (\<lambda>(i, n). hist_entry i n) ps))"
    using segments_first [of "CHR '',''" "ws @ pad4 n"] by (simp add: p hist_entry_def nl_def)
  moreover have "atoi (ws @ pad4 n) = n"
    using atoi_blanks [of "ws @ replicate (4 - length (dec_str n)) (CHR '' '')" "dec_str n"] Cons.prems atoi_dec [of n]
    by (auto simp: p pad4_def list_all_iff)
  ultimately show ?case using Cons.IH [of nl] Cons.prems(1) by (simp add: p nl_def)
qed

text \<open>
  The file holds the histogram: the numbers between its commas, read as decimals with the
  blanks and line feeds before them skipped, are the 256 counts in order, however many digits
  they have.
\<close>

theorem histogram_roundtrip:
  assumes "length hist = 256" "list_all int32 hist"
  shows "\<exists>s. SaveHistogram True hist = Inr s \<and> map atoi (butlast (segments (CHR '','') s)) = hist"
proof -
  let ?ps = "map (\<lambda>i. (i, hist ! nat i)) [0..255]"
  have "mapM (\<lambda>i. rbind (rdbuf hist i) (\<lambda>n. Inr (hist_entry i n))) [0..255] =
      Inr (map (\<lambda>i. hist_entry i (hist ! nat i)) [0..255])"
    using assms(1) by (intro mapM_total) simp
  moreover have "map snd ?ps = hist"
    by (rule nth_equalityI) (simp_all add: assms(1) del: upto.simps upto_rec_numeral)
  moreover have "list_all (\<lambda>(i, n). int32 n) ?ps"
    using assms by (simp add: list_all_iff nat_less_iff del: upto.simps upto_rec_numeral)
  ultimately show ?thesis
    using entries_read [of ?ps "[]"]
    by (simp add: SaveHistogram_def comp_def del: upto.simps upto_rec_numeral)
qed

theorem histogram_roundtrip_witness:
  "\<exists>s. SaveHistogram True (replicate 256 123456) = Inr s \<and>
     map atoi (butlast (segments (CHR '','') s)) = replicate 256 123456"
  using histogram_roundtrip [of "replicate 256 123456"] by (simp add: int32_def list_all_iff)

end
