(* ===== verification/ImageStore.thy ===== *)
theory ImageStore
  imports BiImage CHeap
begin

text \<open>
  The storage behind \<open>image_util/biImageClass\<close>: image objects whose buffers live on a heap of
  pixels, so that copies made by the copy constructor share a buffer and the destructor
  releases one where \<open>flag\<close> says so. \<open>BiImage\<close> has the same operations on values; here it is
  shown when a value is what an object holds, and where it is not.

  The copy constructor reads the \<open>flag\<close> of the object it makes, which is unset: its content is
  the argument \<open>junk\<close>. Whether a local object that a function returns is copied out and then
  destroyed, or is itself the result, is the compiler's choice: the argument \<open>elide\<close>.
\<close>

type_synonym pixels = "pixel cheap"

record image_obj =
  o_buf :: ptr
  o_flag :: bool
  o_clear :: pixel
  o_width :: int
  o_height :: int

definition init_o :: image_obj where
  "init_o = \<lparr>o_buf = NULL, o_flag = False, o_clear = Pixel0, o_width = 0, o_height = 0\<rparr>"

definition Create_o :: "int \<Rightarrow> int \<Rightarrow> pixels \<Rightarrow> (image_obj \<times> pixels) res" where
  "Create_o w h m = (let n = s32 (w * h) in
     if n < 0 then Inl BadAlloc
     else case malloc (nat n) Pixel0 m of (p, m) \<Rightarrow> Inr (init_o\<lparr>o_buf := p, o_width := w, o_height := h\<rparr>, m))"

definition biImage_o :: "int \<Rightarrow> int \<Rightarrow> pixels \<Rightarrow> (image_obj \<times> pixels) res" where
  "biImage_o w h m = Create_o w h m"

definition Delete_o :: "image_obj \<Rightarrow> pixels \<Rightarrow> (image_obj \<times> pixels) res" where
  "Delete_o a m = rbind (mem_free (o_buf a) m) (\<lambda>m. Inr (init_o, m))"

definition copy_o :: "bool \<Rightarrow> image_obj \<Rightarrow> image_obj" where
  "copy_o junk a = \<lparr>o_buf = o_buf a, o_flag = (if junk then False else junk), o_clear = o_clear a,
     o_width = o_width a, o_height = o_height a\<rparr>"

definition destroy_o :: "image_obj \<Rightarrow> pixels \<Rightarrow> pixels res" where
  "destroy_o a m = (if o_flag a then rbind (Delete_o a m) (\<lambda>(_, m). Inr m) else Inr m)"

definition Put_o :: "int \<Rightarrow> int \<Rightarrow> pixel \<Rightarrow> image_obj \<Rightarrow> pixels \<Rightarrow> pixels res" where
  "Put_o x y p a m = rbind (coord x (o_width a)) (\<lambda>x. rbind (coord y (o_height a)) (\<lambda>y.
     poke (o_buf a) (x + y * o_width a) p m))"

definition Get_o :: "image_obj \<Rightarrow> int \<Rightarrow> int \<Rightarrow> pixels \<Rightarrow> pixel res" where
  "Get_o a x y m = rbind (coord x (o_width a)) (\<lambda>x. rbind (coord y (o_height a)) (\<lambda>y.
     rbind (peek (o_buf a) (x + y * o_width a) m) (\<lambda>p.
     Inr (if pix_eq (o_clear a) p then Pixel0 else p))))"

text \<open>\<open>operator=(const biImage&)\<close>: the buffer is replaced when it is too small either way.\<close>

definition assign_o :: "image_obj \<Rightarrow> image_obj \<Rightarrow> pixels \<Rightarrow> (image_obj \<times> pixels) res" where
  "assign_o d a m =
     rbind (if o_width d < o_width a \<or> o_height d < o_height a \<or> o_buf d = NULL
            then rbind (Delete_o d m) (\<lambda>(_, m). Create_o (o_width a) (o_height a) m)
            else Inr (d\<lparr>o_width := o_width a, o_height := o_height a\<rparr>, m)) (\<lambda>(d, m).
     let d = d\<lparr>o_clear := o_clear a\<rparr> in
     rbind (foldM (\<lambda>(i, j) m. rbind (peek (o_buf a) (i + j * o_width a) m)
         (\<lambda>p. poke (o_buf d) (i + j * o_width d) p m)) (raster (o_width d) (o_height d)) m) (\<lambda>m. Inr (d, m)))"

definition return_o :: "bool \<Rightarrow> bool \<Rightarrow> image_obj \<Rightarrow> pixels \<Rightarrow> (image_obj \<times> pixels) res" where
  "return_o elide junk a m = (if elide then Inr (a, m) else rbind (destroy_o a m) (\<lambda>m. Inr (copy_o junk a, m)))"

definition Cut_o :: "bool \<Rightarrow> bool \<Rightarrow> image_obj \<Rightarrow> int \<Rightarrow> int \<Rightarrow> int \<Rightarrow> int \<Rightarrow> pixels \<Rightarrow> (image_obj \<times> pixels) res" where
  "Cut_o elide junk a x y w h m = rbind (biImage_o w h m) (\<lambda>(ret, m).
     rbind (foldM (\<lambda>(i, j) m. rbind (Get_o a (x + i) (y + j) m) (\<lambda>p. Put_o i j p ret m))
       (raster (o_width ret) (o_height ret)) m) (\<lambda>m.
     return_o elide junk (ret\<lparr>o_flag := True\<rparr>) m))"

text \<open>The compound operators, and the binary ones that are made of them.\<close>

definition op_image_o :: "(pixel \<Rightarrow> pixel \<Rightarrow> pixel res) \<Rightarrow> image_obj \<Rightarrow> image_obj \<Rightarrow> pixels \<Rightarrow> pixels res" where
  "op_image_o f b a = foldM (\<lambda>(i, j) m. rbind (peek (o_buf a) (i + j * o_width a) m) (\<lambda>p.
     rbind (peek (o_buf b) (i + j * o_width b) m) (\<lambda>q. rbind (f p q) (\<lambda>r.
     poke (o_buf a) (i + j * o_width a) r m)))) (raster (o_width a) (o_height a))"

definition binary_o :: "bool \<Rightarrow> bool \<Rightarrow> (pixel \<Rightarrow> pixel \<Rightarrow> pixel res) \<Rightarrow> image_obj \<Rightarrow> image_obj \<Rightarrow> pixels \<Rightarrow>
    (image_obj \<times> pixels) res" where
  "binary_o elide junk f a b m = rbind (assign_o (init_o\<lparr>o_flag := True\<rparr>) a m) (\<lambda>(temp, m).
     rbind (op_image_o f b temp m) (\<lambda>m. return_o elide junk temp m))"

text \<open>\<open>d = e\<close> where \<open>e\<close> makes a temporary object, which is destroyed at the end of the statement.\<close>

definition assign_temp :: "image_obj \<Rightarrow> (pixels \<Rightarrow> (image_obj \<times> pixels) res) \<Rightarrow> pixels \<Rightarrow> (image_obj \<times> pixels) res" where
  "assign_temp d e m = rbind (e m) (\<lambda>(t, m). rbind (assign_o d t m) (\<lambda>(d, m).
     rbind (destroy_o t m) (\<lambda>m. Inr (d, m))))"

subsection \<open>What an object holds\<close>

definition held_o :: "image_obj \<Rightarrow> pixels \<Rightarrow> bi_image option" where
  "held_o a m = map_option (\<lambda>xs. \<lparr>mimage = xs, clearColor = o_clear a, width = o_width a, height = o_height a\<rparr>)
     (if o_buf a = NULL then Some [] else block m (o_buf a))"

lemma held_NULL: "held_o a m = Some v \<Longrightarrow> o_buf a = NULL \<Longrightarrow> mimage v = []"
  by (auto simp: held_o_def)

lemma held_block: "held_o a m = Some v \<Longrightarrow> o_buf a \<noteq> NULL \<Longrightarrow> block m (o_buf a) = Some (mimage v)"
  by (auto simp: held_o_def)

lemma held_shape: "held_o a m = Some v \<Longrightarrow> width v = o_width a \<and> height v = o_height a \<and> clearColor v = o_clear a"
  by (auto simp: held_o_def)

lemma held_same: "held_o a m = Some v \<Longrightarrow> block n (o_buf a) = block m (o_buf a) \<Longrightarrow> held_o a n = Some v"
  by (cases "o_buf a = NULL") (simp_all add: held_o_def)

lemma set_same: "block m p = Some xs \<Longrightarrow> set_block p (Some xs) m = m"
  unfolding block_def set_block_def by (metis list_update_id option.distinct(1))

lemma set_twice: "set_block p b (set_block p c m) = set_block p b m"
  by (simp add: set_block_def)

text \<open>The copying loop of an object is that of the value it holds.\<close>

lemma copy_sim:
  assumes "block m p = Some xs" "block m q = Some ys" "p \<noteq> q"
  shows "foldM (\<lambda>(i, j) m. rbind (peek q (i + j * w) m) (\<lambda>v. poke p (i + j * u) v m)) ks m =
    rbind (foldM (\<lambda>(i, j) xs. rbind (rdbuf ys (i + j * w)) (\<lambda>v. wrbuf xs (i + j * u) v)) ks xs)
      (\<lambda>xs. Inr (set_block p (Some xs) m))"
  using assms
proof (induction ks arbitrary: m xs)
  case Nil
  then show ?case by (simp add: set_same)
next
  case (Cons k ks)
  obtain i j where k: "k = (i, j)" by (cases k)
  have p: "p \<noteq> NULL" using Cons.prems(1) by (auto simp: block_NULL)
  have rd: "peek q (i + j * w) m = rdbuf ys (i + j * w)" by (rule hp.rd_live [OF Cons.prems(2)])
  have wr: "poke p n v m = rbind (wrbuf xs n v) (\<lambda>xs. Inr (set_block p (Some xs) m))" for n v
    using Cons.prems(1) p by (simp add: poke_def cells_of_def)
  have step: "foldM (\<lambda>(i, j) m. rbind (peek q (i + j * w) m) (\<lambda>v. poke p (i + j * u) v m)) ks (set_block p (Some zs) m) =
    rbind (foldM (\<lambda>(i, j) xs. rbind (rdbuf ys (i + j * w)) (\<lambda>v. wrbuf xs (i + j * u) v)) ks zs)
      (\<lambda>xs. Inr (set_block p (Some xs) m))" for zs
    using Cons.IH [of "set_block p (Some zs) m" zs] Cons.prems by (simp add: block_set set_twice)
  show ?case by (simp add: k rd wr step rbind_assoc)
qed

lemma for_each_buffer:
  "foldM (\<lambda>(i, j) t. rbind (rdbuf ys (i + j * w)) (\<lambda>p.
     rbind (wrbuf (mimage t) (i + j * width t) p) (\<lambda>m. Inr (t\<lparr>mimage := m\<rparr>)))) ks t =
   rbind (foldM (\<lambda>(i, j) xs. rbind (rdbuf ys (i + j * w)) (\<lambda>v. wrbuf xs (i + j * width t) v)) ks (mimage t))
     (\<lambda>xs. Inr (t\<lparr>mimage := xs\<rparr>))"
proof (induction ks arbitrary: t)
  case (Cons k ks)
  obtain i j where k: "k = (i, j)" by (cases k)
  show ?case by (simp add: k rbind_assoc Cons.IH)
qed simp

subsection \<open>Assignment\<close>

lemma raster_empty: "0 \<le> w \<Longrightarrow> 0 \<le> h \<Longrightarrow> w * h \<le> 0 \<Longrightarrow> raster w h = []"
proof -
  assume "0 \<le> w" "0 \<le> h" "w * h \<le> 0"
  then have "w = 0 \<or> h = 0" using mult_pos_pos [of w h] by linarith
  then have "set (raster w h) = {}" by (auto simp: set_raster)
  then show ?thesis by simp
qed

lemma wf_area: "wf_img a \<Longrightarrow> s32 (width a * height a) = width a * height a \<and> \<not> width a * height a < 0"
  using mult_nonneg_nonneg [of "width a" "height a"] by (simp only: wf_img_def s32_id not_less)

abbreviation value_room :: "bi_image \<Rightarrow> bi_image \<Rightarrow> bi_image res" where
  "value_room d a \<equiv> (if width d < width a \<or> height d < height a \<or> mimage d = []
     then Create (width a) (height a) else Inr (d\<lparr>width := width a, height := height a\<rparr>))"

abbreviation object_room :: "image_obj \<Rightarrow> image_obj \<Rightarrow> pixels \<Rightarrow> (image_obj \<times> pixels) res" where
  "object_room d a m \<equiv> (if o_width d < o_width a \<or> o_height d < o_height a \<or> o_buf d = NULL
     then rbind (Delete_o d m) (\<lambda>(_, m). Create_o (o_width a) (o_height a) m)
     else Inr (d\<lparr>o_width := o_width a, o_height := o_height a\<rparr>, m))"

text \<open>
  Only the block of the receiver changes, and if the buffer is replaced the old one is gone.
\<close>

definition only_changes :: "ptr \<Rightarrow> ptr \<Rightarrow> pixels \<Rightarrow> pixels \<Rightarrow> bool" where
  "only_changes p q m m' \<longleftrightarrow> q \<noteq> NULL \<and> (\<forall>r. r \<noteq> p \<and> r \<noteq> q \<longrightarrow> block m' r = block m r) \<and>
     (q = p \<or> block m q = None \<and> block m' p = None)"

lemma free_length: "mem_free p m = Inr n \<Longrightarrow> length n = length m"
  by (auto simp: mem_free_def set_block_def split: if_splits option.splits)

lemma room_new:
  assumes "held_o d m = Some vd" "0 \<le> w" "0 \<le> h" "int32 (w * h)"
  shows "\<exists>e n. rbind (Delete_o d m) (\<lambda>(_, m). Create_o w h m) = Inr (e, n) \<and>
    block n (o_buf e) = Some (replicate (nat (w * h)) Pixel0) \<and> o_width e = w \<and> o_height e = h \<and>
    \<not> o_flag e \<and> only_changes (o_buf d) (o_buf e) m n \<and> length m < o_buf e"
proof -
  have n: "s32 (w * h) = w * h" "\<not> w * h < 0" using assms(2-4) mult_nonneg_nonneg [of w h] by (simp_all only: s32_id not_less)
  have "o_buf d = NULL \<or> block m (o_buf d) \<noteq> None" using assms(1) by (auto simp: held_o_def)
  then obtain m1 where m1: "mem_free (o_buf d) m = Inr m1" "block m1 = (block m)(o_buf d := None)"
    using free_ok by blast
  obtain q m2 where q: "malloc (nat (w * h)) Pixel0 m1 = (q, m2)" by fastforce
  note b = malloc_block [OF q]
  have "q = Suc (length m)" using q free_length [OF m1(1)] by (auto simp: malloc_def)
  then have fresh: "block m q = None" by (simp add: block_def)
  show ?thesis
    using b fresh m1 \<open>q = Suc (length m)\<close> by (auto simp: Delete_o_def Create_o_def n q init_o_def only_changes_def)
qed

lemma room_sim:
  assumes "held_o d m = Some vd" "held_o a m = Some va" "wf_img vd" "wf_img va"
  shows "\<exists>e n v. object_room d a m = Inr (e, n) \<and> value_room vd va = Inr v \<and>
    block n (o_buf e) = Some (mimage v) \<and> o_width e = width va \<and> o_height e = height va \<and>
    width v = width va \<and> height v = height va \<and> (o_flag e \<longrightarrow> o_flag d) \<and> only_changes (o_buf d) (o_buf e) m n"
proof (cases "o_width d < o_width a \<or> o_height d < o_height a \<or> o_buf d = NULL")
  case True
  have "Create (width va) (height va) =
      Inr (init\<lparr>width := width va, height := height va, mimage := replicate (nat (width va * height va)) Pixel0\<rparr>)"
    using wf_area [OF assms(4)] by (simp add: Create_def)
  moreover have "width vd < width va \<or> height vd < height va \<or> mimage vd = []"
    using True held_shape [OF assms(1)] held_shape [OF assms(2)] held_NULL [OF assms(1)] by auto
  ultimately show ?thesis
    using True room_new [OF assms(1), of "o_width a" "o_height a"] held_shape [OF assms(2)] assms(4)
    by (fastforce simp: wf_img_def)
next
  case False
  have shp: "width va \<le> width vd" "height va \<le> height vd"
    using False held_shape [OF assms(1)] held_shape [OF assms(2)] by auto
  have b: "block m (o_buf d) = Some (mimage vd)" using False held_block [OF assms(1)] by simp
  have oc: "only_changes (o_buf d) (o_buf d) m m" using False by (simp add: only_changes_def)
  have "\<exists>v. value_room vd va = Inr v \<and> mimage v = mimage vd \<and> width v = width va \<and> height v = height va"
  proof (cases "mimage vd = []")
    case True
    have "width va * height va \<le> width vd * height vd" using shp assms(3,4) by (intro mult_mono) (auto simp: wf_img_def)
    also have "\<dots> \<le> 0" using True assms(3) by (simp add: wf_img_def)
    finally have "width va * height va = 0" using wf_area [OF assms(4)] by linarith
    then show ?thesis using True by (auto simp: Create_def)
  qed (use shp in simp)
  then show ?thesis using False b oc held_shape [OF assms(2)] by auto
qed

lemma assign_held:
  assumes "held_o d m = Some vd" "held_o a m = Some va" "wf_img vd" "wf_img va" "o_buf d \<noteq> o_buf a \<or> o_buf a = NULL"
  shows "\<exists>e n v. assign_o d a m = Inr (e, n) \<and> assign vd va = Inr v \<and> wf_img v \<and> held_o e n = Some v \<and>
    (o_flag e \<longrightarrow> o_flag d) \<and> only_changes (o_buf d) (o_buf e) m n"
proof -
  obtain e n v where r: "object_room d a m = Inr (e, n)" "value_room vd va = Inr v"
    "block n (o_buf e) = Some (mimage v)" "o_width e = width va" "o_height e = height va"
    "width v = width va" "height v = height va" "o_flag e \<longrightarrow> o_flag d" "only_changes (o_buf d) (o_buf e) m n"
    using room_sim [OF assms(1-4)] by blast
  let ?c = "clearColor va" and ?ks = "raster (width va) (height va)"
  let ?run = "foldM (\<lambda>(i, j) xs. rbind (rdbuf (mimage va) (i + j * width va)) (\<lambda>v. wrbuf xs (i + j * width va) v)) ?ks (mimage v)"
  note sa = held_shape [OF assms(2)]
  obtain u where u: "assign vd va = Inr u" "wf_img u" using assign_ok [OF assms(3,4)] by blast
  have val: "assign vd va = rbind ?run (\<lambda>xs. Inr (v\<lparr>clearColor := ?c, mimage := xs\<rparr>))"
    using for_each_buffer [of "mimage va" "width va" ?ks "v\<lparr>clearColor := ?c\<rparr>"]
    by (simp add: assign_def r(2,6,7) for_each_def Let_def)
  then obtain xs where xs: "?run = Inr xs" "u = v\<lparr>clearColor := ?c, mimage := xs\<rparr>"
    using u(1) by (cases ?run) auto
  have loop: "foldM (\<lambda>(i, j) m. rbind (peek (o_buf a) (i + j * width va) m)
      (\<lambda>p. poke (o_buf e) (i + j * width va) p m)) ?ks n = Inr (set_block (o_buf e) (Some xs) n)"
  proof (cases "o_buf a = NULL")
    case True
    then have "?ks = []" using held_NULL [OF assms(2)] assms(4) by (intro raster_empty) (auto simp: wf_img_def)
    then show ?thesis using xs(1) set_same [OF r(3)] by simp
  next
    case False
    then have a: "block m (o_buf a) = Some (mimage va)" "o_buf d \<noteq> o_buf a" using held_block [OF assms(2)] assms(5) by auto
    then have "o_buf e \<noteq> o_buf a" using r(9) by (auto simp: only_changes_def)
    with a have "o_buf e \<noteq> o_buf a" "block n (o_buf a) = Some (mimage va)" using r(9) by (auto simp: only_changes_def)
    then show ?thesis using copy_sim [OF r(3)] xs(1) by simp
  qed
  let ?e = "e\<lparr>o_clear := ?c\<rparr>" and ?n = "set_block (o_buf e) (Some xs) n"
  have "assign_o d a m = Inr (?e, ?n)"
    using r(1) loop sa by (simp add: assign_o_def r(4,5))
  moreover have "held_o ?e ?n = Some u"
    using r(3,4,5,6,7,9) by (simp add: held_o_def xs(2) block_set only_changes_def)
  moreover have "only_changes (o_buf d) (o_buf ?e) m ?n"
    using r(3,9) by (auto simp: only_changes_def block_set)
  ultimately show ?thesis using u r(8) by (intro exI [of _ ?e] exI [of _ ?n] exI [of _ u]) simp
qed

text \<open>Several objects, none of which shares its buffer, and the values they hold.\<close>

definition separate :: "image_obj list \<Rightarrow> pixels \<Rightarrow> bi_image list \<Rightarrow> bool" where
  "separate as m vs \<longleftrightarrow> list_all2 (\<lambda>a v. held_o a m = Some v \<and> wf_img v) as vs \<and>
     (\<forall>i < length as. \<forall>k < length as. i \<noteq> k \<longrightarrow> o_buf (as ! i) \<noteq> o_buf (as ! k) \<or> o_buf (as ! k) = NULL)"

definition assign_at :: "nat \<times> nat \<Rightarrow> image_obj list \<times> pixels \<Rightarrow> (image_obj list \<times> pixels) res" where
  "assign_at = (\<lambda>(i, k) (as, m). rbind (assign_o (as ! i) (as ! k) m) (\<lambda>(e, m). Inr (as[i := e], m)))"

definition value_at :: "nat \<times> nat \<Rightarrow> bi_image list \<Rightarrow> bi_image list res" where
  "value_at = (\<lambda>(i, k) vs. rbind (assign (vs ! i) (vs ! k)) (\<lambda>v. Inr (vs[i := v])))"

lemma held_frame:
  assumes "held_o b m = Some v" "only_changes p q m n" "o_buf b \<noteq> p \<or> o_buf b = NULL"
  shows "held_o b n = Some v \<and> (o_buf b \<noteq> q \<or> o_buf b = NULL)"
proof (cases "o_buf b = NULL")
  case False
  then have "block m (o_buf b) \<noteq> None" using assms(1) by (auto simp: held_o_def)
  then have "o_buf b \<noteq> q" using assms(2,3) False by (auto simp: only_changes_def)
  then show ?thesis using assms False by (simp add: held_o_def only_changes_def)
qed (use assms in \<open>simp add: held_o_def\<close>)

lemma separate_step:
  assumes "separate as m vs" "i < length as" "k < length as" "i \<noteq> k"
  shows "\<exists>bs n us. assign_at (i, k) (as, m) = Inr (bs, n) \<and> value_at (i, k) vs = Inr us \<and>
    separate bs n us \<and> length bs = length as"
proof -
  have len: "length vs = length as" and h: "\<And>j. j < length as \<Longrightarrow> held_o (as ! j) m = Some (vs ! j) \<and> wf_img (vs ! j)"
    and sep: "\<And>j l. j < length as \<Longrightarrow> l < length as \<Longrightarrow> j \<noteq> l \<Longrightarrow> o_buf (as ! j) \<noteq> o_buf (as ! l) \<or> o_buf (as ! l) = NULL"
    using assms(1) by (auto simp: separate_def list_all2_conv_all_nth)
  obtain e n v where e: "assign_o (as ! i) (as ! k) m = Inr (e, n)" "assign (vs ! i) (vs ! k) = Inr v" "wf_img v"
    "held_o e n = Some v" "only_changes (o_buf (as ! i)) (o_buf e) m n"
    using assign_held [of "as ! i" m "vs ! i" "as ! k" "vs ! k"] h sep assms(2-4) by blast
  have other: "held_o (as ! j) n = Some (vs ! j) \<and> (o_buf (as ! j) \<noteq> o_buf e \<or> o_buf (as ! j) = NULL)"
    if "j < length as" "j \<noteq> i" for j
  proof (rule held_frame [OF conjunct1 [OF h [OF that(1)]] e(5)])
    show "o_buf (as ! j) \<noteq> o_buf (as ! i) \<or> o_buf (as ! j) = NULL"
      using sep [of i j] that assms(2) by auto
  qed
  have "o_buf e \<noteq> NULL" using e(5) by (simp add: only_changes_def)
  then have "o_buf (as[i := e] ! j) \<noteq> o_buf (as[i := e] ! l) \<or> o_buf (as[i := e] ! l) = NULL"
    if "j < length as" "l < length as" "j \<noteq> l" for j l
    using that other [of j] other [of l] sep [of j l] by (cases "j = i"; cases "l = i") auto
  moreover have "held_o (as[i := e] ! j) n = Some (vs[i := v] ! j) \<and> wf_img (vs[i := v] ! j)" if "j < length as" for j
    using that other [of j] h [of j] e(3,4) len by (cases "j = i") auto
  ultimately have "separate (as[i := e]) n (vs[i := v])"
    using len by (simp add: separate_def list_all2_conv_all_nth)
  then show ?thesis using e(1,2) by (simp add: assign_at_def value_at_def)
qed

text \<open>
  C16: while no two objects share a buffer, assignments between them do what the value model says:
  every sequence of them succeeds on the heap, ends with objects that hold exactly the values
  computed without a heap, and again no two of them share a buffer.
\<close>

theorem assignments_refine:
  assumes "separate as m vs" "list_all (\<lambda>(i, k). i < length as \<and> k < length as \<and> i \<noteq> k) ks"
  shows "\<exists>bs n us. foldM assign_at ks (as, m) = Inr (bs, n) \<and> foldM value_at ks vs = Inr us \<and> separate bs n us"
  using assms
proof (induction ks arbitrary: as m vs)
  case (Cons k ks)
  obtain i j where k: "k = (i, j)" by (cases k)
  obtain bs n us where "assign_at (i, j) (as, m) = Inr (bs, n)" "value_at (i, j) vs = Inr us"
    "separate bs n us" "length bs = length as"
    using separate_step [of as m vs i j] Cons.prems k by auto
  then show ?case using Cons.IH [of bs n us] Cons.prems(2) k by simp
qed auto

text \<open>Two images of their own, and one without a buffer.\<close>

theorem assignments_refine_witness:
  "\<exists>bs n us. foldM assign_at [(2, 1), (0, 2)]
      ([\<lparr>o_buf = 1, o_flag = False, o_clear = Pixel0, o_width = 1, o_height = 1\<rparr>,
        \<lparr>o_buf = 2, o_flag = False, o_clear = Pixel0, o_width = 2, o_height = 3\<rparr>, init_o],
       [Some [PixelL 7], Some (mimage sample_img)]) = Inr (bs, n) \<and>
     foldM value_at [(2, 1), (0, 2)] [\<lparr>mimage = [PixelL 7], clearColor = Pixel0, width = 1, height = 1\<rparr>, sample_img, init] =
       Inr us \<and> separate bs n us"
proof (rule assignments_refine)
  let ?as = "[\<lparr>o_buf = 1, o_flag = False, o_clear = Pixel0, o_width = 1, o_height = 1\<rparr>,
    \<lparr>o_buf = 2, o_flag = False, o_clear = Pixel0, o_width = 2, o_height = 3\<rparr>, init_o]"
  show "separate ?as [Some [PixelL 7], Some (mimage sample_img)]
      [\<lparr>mimage = [PixelL 7], clearColor = Pixel0, width = 1, height = 1\<rparr>, sample_img, init]"
    by (auto simp: separate_def held_o_def init_o_def block_def NULL_def sample_img_def init_def wf_img_def int32_def
        less_Suc_eq)
qed simp

subsection \<open>Temporary objects\<close>

text \<open>A copy never owns the buffer, so its destruction does nothing, whatever \<open>flag\<close> was.\<close>

lemma copy_o_sel [simp]:
  "o_flag (copy_o junk a) = False" "o_buf (copy_o junk a) = o_buf a" "o_width (copy_o junk a) = o_width a"
  "o_height (copy_o junk a) = o_height a" "held_o (copy_o junk a) = held_o a"
  by (simp_all add: copy_o_def held_o_def fun_eq_iff)

lemma destroy_copy: "destroy_o (copy_o junk a) m = Inr m"
  by (simp add: destroy_o_def)

lemma Get_held: "held_o a m = Some v \<Longrightarrow> o_buf a \<noteq> NULL \<Longrightarrow> Get_o a x y m = Get v x y"
  using hp.rd_live [of m "o_buf a"] held_block [of a m v] held_shape [of a m v]
  by (simp add: Get_o_def Get_def cell_index_def rbind_assoc)

lemma Put_held:
  "held_o a m = Some v \<Longrightarrow> o_buf a \<noteq> NULL \<Longrightarrow>
     Put_o x y p a m = rbind (Put x y p v) (\<lambda>v. Inr (set_block (o_buf a) (Some (mimage v)) m))"
  using held_block [of a m v] held_shape [of a m v]
  by (simp add: Put_o_def Put_def cell_index_def rbind_assoc poke_def cells_of_def)

lemma Put_fields: "Put x y p v = Inr u \<Longrightarrow> u = v\<lparr>mimage := mimage u\<rparr>"
  by (auto simp: Put_def rbind_eq_Inr)

lemma cut_sim:
  assumes "held_o r m = Some t" "held_o a m = Some v" "o_buf r \<noteq> o_buf a" "o_buf r \<noteq> NULL" "o_buf a \<noteq> NULL"
  shows "foldM (\<lambda>(i, j) m. rbind (Get_o a (x + i) (y + j) m) (\<lambda>p. Put_o i j p r m)) ks m =
    rbind (foldM (\<lambda>(i, j) t. rbind (Get v (x + i) (y + j)) (\<lambda>p. Put i j p t)) ks t)
      (\<lambda>t. Inr (set_block (o_buf r) (Some (mimage t)) m))"
  using assms
proof (induction ks arbitrary: m t)
  case Nil
  show ?case using set_same [OF held_block [OF Nil.prems(1,4)]] by simp
next
  case (Cons k ks)
  obtain i j where k: "k = (i, j)" by (cases k)
  have b: "block m (o_buf r) = Some (mimage t)" using held_block Cons.prems(1,4) by blast
  have step: "foldM (\<lambda>(i, j) m. rbind (Get_o a (x + i) (y + j) m) (\<lambda>p. Put_o i j p r m)) ks
      (set_block (o_buf r) (Some (mimage u)) m) =
    rbind (foldM (\<lambda>(i, j) t. rbind (Get v (x + i) (y + j)) (\<lambda>p. Put i j p t)) ks u)
      (\<lambda>t. Inr (set_block (o_buf r) (Some (mimage t)) m))" if "Put i j p t = Inr u" for p u
  proof -
    have "held_o r (set_block (o_buf r) (Some (mimage u)) m) = Some u"
      using Put_fields [OF that] held_shape [OF Cons.prems(1)] Cons.prems(4) b
      by (simp add: held_o_def block_set) (metis bi_image.surjective bi_image.update_convs(1) old.unit.exhaust)
    moreover have "held_o a (set_block (o_buf r) (Some (mimage u)) m) = Some v"
      using Cons.prems b by (simp add: held_o_def block_set)
    ultimately show ?thesis using Cons.IH Cons.prems(3-5) by (simp add: set_twice)
  qed
  show ?case
    using step by (simp add: k Get_held [OF Cons.prems(2,5)] Put_held [OF Cons.prems(1,4)] rbind_assoc cong: rbind_cong)
qed

text \<open>A part of an image, which may cross its borders and goes on at the opposite side.\<close>

lemma Cut_cells:
  assumes "wf_img v" "0 < width v" "0 < height v" "- width v \<le> x" "- height v \<le> y" "0 \<le> w" "0 \<le> h" "int32 (w * h)"
  shows "\<exists>c. BiImage.Cut v x y w h = Inr c \<and> wf_img c \<and> width c = w \<and> height c = h \<and>
    (\<forall>i j. inside c i j \<longrightarrow> cell c (i, j) = shown v ((x + i) mod width v) ((y + j) mod height v))"
proof -
  obtain d where d: "Create w h = Inr d" "wf_img d" "width d = w" "height d = h" using Create_ok [OF assms(6-8)] by blast
  let ?body = "\<lambda>i j t. rbind (Get v (x + i) (y + j)) (\<lambda>p. Put i j p t)"
  have "\<exists>t. for_each d ?body d = Inr t \<and> shape_of t = shape_of d \<and> wf_img t \<and>
    (\<forall>i j. inside d i j \<longrightarrow> cell t (i, j) = shown v ((x + i) mod width v) ((y + j) mod height v))"
  proof (rule for_each_sweep [OF d(2) refl refl])
    fix i j t assume ij: "inside d i j" "shape_of t = shape_of d" "wf_img t"
    have "Get v (x + i) (y + j) = Inr (shown v ((x + i) mod width v) ((y + j) mod height v))"
      using ij(1) assms(4,5) by (intro Get_torus [OF assms(1-3)]) (auto simp: inside_def)
    moreover have "inside t i j" using ij(1) by (simp only: inside_shape [OF ij(2)])
    ultimately show "?body i j t = Inr (set_cell t (i, j) (shown v ((x + i) mod width v) ((y + j) mod height v)))"
      using Put_in [OF ij(3)] by simp
  qed
  then show ?thesis using d by (auto simp: Cut_def shape_eq inside_def)
qed

lemma Cut_o_run:
  assumes "held_o a m = Some v" "o_buf a \<noteq> NULL" "BiImage.Cut v x y w h = Inr c"
  shows "\<exists>r n. (\<forall>elide. Cut_o elide junk a x y w h m = return_o elide junk (r\<lparr>o_flag := True\<rparr>) n) \<and> held_o r n = Some c \<and>
    o_buf r \<noteq> NULL \<and> block m (o_buf r) = None \<and> (\<forall>p. p \<noteq> o_buf r \<longrightarrow> block n p = block m p)"
proof -
  let ?k = "s32 (w * h)"
  have k: "\<not> ?k < 0" using assms(3) by (auto simp: Cut_def Create_def split: if_splits)
  let ?d = "init\<lparr>width := w, height := h, mimage := replicate (nat ?k) Pixel0\<rparr>"
  obtain q m1 where q: "malloc (nat ?k) Pixel0 m = (q, m1)" by fastforce
  note b = malloc_block [OF q]
  let ?r = "init_o\<lparr>o_buf := q, o_width := w, o_height := h\<rparr>"
  have r: "held_o ?r m1 = Some ?d" using b by (simp add: held_o_def init_o_def init_def)
  have ne: "q \<noteq> o_buf a" using b held_block [OF assms(1,2)] by auto
  then have a: "held_o a m1 = Some v" using b assms(1,2) by (simp add: held_o_def)
  have val: "foldM (\<lambda>(i, j) t. rbind (Get v (x + i) (y + j)) (\<lambda>p. Put i j p t)) (raster w h) ?d = Inr c"
    using assms(3) k by (simp add: Cut_def Create_def for_each_def)
  have c: "c = ?d\<lparr>mimage := mimage c\<rparr>"
  proof (rule foldM_keeps [where P = "\<lambda>t. t = ?d\<lparr>mimage := mimage t\<rparr>", OF val])
    fix ij t u
    assume "t = ?d\<lparr>mimage := mimage t\<rparr>" "(case ij of (i, j) \<Rightarrow> \<lambda>t. rbind (Get v (x + i) (y + j)) (\<lambda>p. Put i j p t)) t = Inr u"
    then show "u = ?d\<lparr>mimage := mimage u\<rparr>"
      using Put_fields [of "fst ij" "snd ij" _ t u] by (cases t; cases u) (auto simp: rbind_eq_Inr split: prod.splits)
  qed simp
  let ?n = "set_block q (Some (mimage c)) m1"
  have "Cut_o elide junk a x y w h m = return_o elide junk (?r\<lparr>o_flag := True\<rparr>) ?n" for elide
    using cut_sim [OF r a _ _ assms(2), of x y "raster w h"] ne b k q val
    by (simp add: Cut_o_def biImage_o_def Create_o_def init_o_def)
  moreover have "held_o ?r ?n = Some c"
    using b c by (subst c) (simp add: held_o_def init_o_def init_def block_set)
  ultimately show ?thesis using b by (intro exI [of _ ?r] exI [of _ ?n]) (simp add: init_o_def block_set)
qed

text \<open>An assignment from an image whose buffer has been released fails, as soon as it has a pixel.\<close>

lemma raster_first: "0 < w \<Longrightarrow> 0 < h \<Longrightarrow> \<exists>ks. raster w h = (0, 0) # ks"
  by (simp add: raster_def upto_rec1)

lemma assign_dangling:
  assumes "held_o d m = Some vd" "block m (o_buf a) = None \<or> o_buf a = o_buf d \<and> o_width d < o_width a"
    "o_buf a \<noteq> NULL" "o_buf a \<le> length m" "0 < o_width a" "0 < o_height a" "int32 (o_width a * o_height a)"
  shows "assign_o d a m = Inl Freed"
proof -
  have "\<exists>e n. object_room d a m = Inr (e, n) \<and> o_width e = o_width a \<and> o_height e = o_height a \<and> block n (o_buf a) = None"
  proof (cases "o_width d < o_width a \<or> o_height d < o_height a \<or> o_buf d = NULL")
    case True
    obtain e n where e: "rbind (Delete_o d m) (\<lambda>(_, m). Create_o (o_width a) (o_height a) m) = Inr (e, n)"
      "o_width e = o_width a" "o_height e = o_height a" "only_changes (o_buf d) (o_buf e) m n" "length m < o_buf e"
      using room_new [OF assms(1), of "o_width a" "o_height a"] assms(5-7) by auto
    have "o_buf e \<noteq> o_buf a" using e(5) assms(4) by auto
    then have "block n (o_buf a) = None"
      using e(4,5) assms(2,4) held_block [OF assms(1)] by (cases "o_buf a = o_buf d") (auto simp: only_changes_def)
    then show ?thesis using True e by auto
  qed (use assms(2) in auto)
  then obtain e n where e: "object_room d a m = Inr (e, n)" "o_width e = o_width a" "o_height e = o_height a"
    "block n (o_buf a) = None" by blast
  obtain ks where ks: "raster (o_width a) (o_height a) = (0, 0) # ks" using raster_first assms(5,6) by blast
  have "peek (o_buf a) 0 n = Inl Freed" using hp.rd_dead [OF e(4)] assms(3) by simp
  then show ?thesis using e(1-3) by (simp add: assign_o_def ks)
qed

lemma block_bound: "block m p \<noteq> None \<Longrightarrow> p \<noteq> NULL \<and> p \<le> length m"
  by (auto simp: block_def split: if_splits)

lemma temp_release:
  assumes "block m r = None" "r \<noteq> NULL" "\<And>p. p \<noteq> r \<Longrightarrow> block n1 p = block m p" "block n1 r = Some xs"
    "only_changes p q n1 n2" "p \<noteq> r"
  shows "\<exists>n. mem_free r n2 = Inr n \<and> only_changes p q m n \<and> block n q = block n2 q"
proof -
  have q: "q \<noteq> r" using assms(4,5,6) by (auto simp: only_changes_def)
  then have "block n2 r = Some xs" using assms(4,5,6) by (simp add: only_changes_def)
  then obtain n where n: "mem_free r n2 = Inr n" "block n = (block n2)(r := None)" using hp.rel_live by blast
  have "only_changes p q m n"
    using assms(1,3,5,6) q by (auto simp: only_changes_def n(2))
  then show ?thesis using n q by simp
qed

text \<open>
  Two objects that share a buffer: what one deletes the other can no longer read, and when one
  has been made smaller, an assignment of the other to it releases the buffer it reads.
\<close>

lemma shared_delete: "Delete_o a m = Inr (z, n) \<Longrightarrow> o_buf a \<noteq> NULL \<Longrightarrow> peek (o_buf (copy_o junk a)) i n = Inl Freed"
  using hp.released_dead by (fastforce simp: Delete_o_def rbind_eq_Inr)

lemma shared_growth:
  assumes "held_o d m = Some vd" "o_buf a = o_buf d" "o_buf d \<noteq> NULL" "o_width d < o_width a"
    "0 < o_width a" "0 < o_height a" "int32 (o_width a * o_height a)"
  shows "assign_o d a m = Inl Freed"
  using assms block_bound [of m "o_buf d"] held_block [OF assms(1,3)]
  by (intro assign_dangling [OF assms(1)]) auto

text \<open>
  C18: \<open>d = a.Cut(x, y, w, h)\<close>, for two objects with different buffers, \<open>a\<close> with pixels, a corner no
  further to the left or above than one extent of \<open>a\<close>, and a positive size whose product is an int. If the compiler makes the local image of \<open>Cut\<close> the result itself,
  \<open>d\<close> holds the part of \<open>a\<close> (beyond its borders, that of the opposite side), and no block but that of \<open>d\<close> has changed
  afterwards: the temporary image is released at the end of the statement. If it copies the
  result out, the local image is released before its copy is read, and the statement fails.
\<close>

theorem cut_lifetime:
  assumes "held_o d m = Some vd" "wf_img vd" "held_o a m = Some va" "wf_img va" "o_buf d \<noteq> o_buf a"
    "0 < width va" "0 < height va" "- width va \<le> x" "- height va \<le> y" "0 < w" "0 < h" "w * h < 2 ^ 31"
  shows "(\<exists>e n v. assign_temp d (Cut_o True junk a x y w h) m = Inr (e, n) \<and> held_o e n = Some v \<and>
      wf_img v \<and> width v = w \<and> height v = h \<and> only_changes (o_buf d) (o_buf e) m n \<and>
      (\<forall>i j. inside v i j \<longrightarrow> cell v (i, j) = shown va ((x + i) mod width va) ((y + j) mod height va))) \<and>
    assign_temp d (Cut_o False junk a x y w h) m = Inl Freed"
proof -
  have small: "int32 (w * h)" using assms(10-12) by (simp add: int32_def) (smt (verit) mult_pos_pos)
  have "0 < width va * height va" using assms(6,7) by (rule mult_pos_pos)
  also have "\<dots> \<le> int (length (mimage va))" using assms(4) by (simp add: wf_img_def)
  finally have nz: "o_buf a \<noteq> NULL" using held_NULL [OF assms(3)] by auto
  obtain c where c: "BiImage.Cut va x y w h = Inr c" "wf_img c" "width c = w" "height c = h"
    "\<And>i j. inside c i j \<Longrightarrow> cell c (i, j) = shown va ((x + i) mod width va) ((y + j) mod height va)"
    using Cut_cells [OF assms(4,6-9), of w h] assms(10,11) small by auto
  obtain r n1 where r: "\<And>elide. Cut_o elide junk a x y w h m = return_o elide junk (r\<lparr>o_flag := True\<rparr>) n1"
    "held_o r n1 = Some c" "o_buf r \<noteq> NULL" "block m (o_buf r) = None" "\<And>p. p \<noteq> o_buf r \<Longrightarrow> block n1 p = block m p"
    using Cut_o_run [OF assms(3) nz c(1), of junk] by blast
  let ?t = "r\<lparr>o_flag := True\<rparr>"
  have "o_buf d \<noteq> o_buf r" using assms(1) r(3,4) by (auto simp: held_o_def)
  then have d: "o_buf d \<noteq> o_buf r \<and> held_o d n1 = Some vd"
    using held_same [OF assms(1)] r(5) by simp
  have t: "held_o ?t n1 = Some c" "o_buf ?t = o_buf r" "block n1 (o_buf r) = Some (mimage c)"
    using r(2,3) held_block [OF r(2,3)] by (auto simp: held_o_def)
  have "o_buf d \<noteq> o_buf ?t \<or> o_buf ?t = NULL" using d by simp
  from assign_held [OF conjunct2 [OF d] t(1) assms(2) c(2) this]
  obtain e n2 v where e: "assign_o d ?t n1 = Inr (e, n2)" "assign vd c = Inr v" "held_o e n2 = Some v"
    "only_changes (o_buf d) (o_buf e) n1 n2" by blast
  note v = assign_ok [OF assms(2) c(2)] e(2)
  obtain n where n: "mem_free (o_buf r) n2 = Inr n" "only_changes (o_buf d) (o_buf e) m n"
    "block n (o_buf e) = block n2 (o_buf e)"
    using temp_release [OF r(4,3,5) t(3) e(4)] d by blast
  have "assign_temp d (Cut_o True junk a x y w h) m = Inr (e, n)"
    using n(1) by (simp add: assign_temp_def r(1) return_o_def e(1) destroy_o_def Delete_o_def)
  moreover have "held_o e n = Some v" using e(3,4) n(3) by (simp add: held_o_def only_changes_def)
  moreover obtain n3 where n3: "mem_free (o_buf r) n1 = Inr n3" "block n3 = (block n1)(o_buf r := None)"
    using hp.rel_live [OF t(3)] by blast
  have "assign_o d (copy_o junk ?t) n3 = Inl Freed"
  proof (rule assign_dangling)
    show "held_o d n3 = Some vd" using held_same [OF conjunct2 [OF d]] d n3(2) by simp
    show "o_buf (copy_o junk ?t) \<le> length n3"
      using block_bound [of n1 "o_buf r"] t(3) free_length [OF n3(1)] by simp
  qed (use n3(2) r(3) held_shape [OF r(2)] c(3,4) assms(10,11) small in simp_all)
  then have "assign_temp d (Cut_o False junk a x y w h) m = Inl Freed"
    by (simp add: assign_temp_def r(1) return_o_def destroy_o_def Delete_o_def n3(1))
  ultimately show ?thesis using n(2) v c(3-5) by (auto simp: inside_def)
qed

text \<open>The part of a sample image around its corner, and an image that has no buffer yet.\<close>

theorem cut_lifetime_witness:
  "let a = \<lparr>o_buf = 1, o_flag = False, o_clear = Pixel0, o_width = 2, o_height = 3\<rparr>; m = [Some (mimage sample_img)] in
   (\<exists>e n v. assign_temp init_o (Cut_o True False a (- 1) (- 1) 2 2) m = Inr (e, n) \<and> held_o e n = Some v \<and>
     cell v (0, 0) = PixelL 255 \<and> cell v (1, 1) = PixelL 0) \<and>
   assign_temp init_o (Cut_o False False a (- 1) (- 1) 2 2) m = Inl Freed"
proof -
  let ?a = "\<lparr>o_buf = 1, o_flag = False, o_clear = Pixel0, o_width = 2, o_height = 3\<rparr>" and ?m = "[Some (mimage sample_img)]"
  have a: "held_o init_o ?m = Some init" "held_o ?a ?m = Some sample_img" "o_buf init_o \<noteq> o_buf ?a"
    by (simp_all add: held_o_def init_o_def init_def block_def NULL_def sample_img_def)
  from cut_lifetime [OF a(1) wf_init a(2) wf_sample_img a(3), of "- 1" "- 1" 2 2 False]
  show ?thesis by (auto simp: inside_def shown_def view_def sample_img_cell pix_eq_Pixel0)
qed

subsection \<open>Blocks that nothing releases\<close>

definition live :: "pixels \<Rightarrow> nat" where
  "live m = card (dom (block m))"

lemma finite_blocks: "finite (dom (block m))"
  by (rule finite_subset [of _ "{..length m}"]) (auto simp: block_def split: if_splits)

lemma live_poke: "poke p i v m = Inr n \<Longrightarrow> live n = live m"
proof -
  assume a: "poke p i v m = Inr n"
  then obtain xs ys where b: "block m p = Some xs" "n = set_block p (Some ys) m"
    by (auto simp: poke_def cells_of_def rbind_eq_Inr split: if_splits option.splits)
  then show ?thesis by (simp add: live_def block_set insert_absorb domI)
qed

lemma live_new: "Create_o w h m = Inr (e, n) \<Longrightarrow> live n = live m + 1"
proof -
  assume "Create_o w h m = Inr (e, n)"
  then have "\<exists>q. block m q = None \<and> (\<exists>xs. block n = (block m)(q \<mapsto> xs))"
    using malloc_block by (fastforce simp: Create_o_def Let_def split: if_splits prod.splits)
  then show ?thesis using finite_blocks [of m] by (auto simp: live_def domIff)
qed

lemma live_free: "mem_free p m = Inr n \<Longrightarrow> live m \<le> live n + 1"
proof -
  assume a: "mem_free p m = Inr n"
  show ?thesis
  proof (cases "block m p")
    case None
    then show ?thesis using a hp.rel_dead [OF None] by (simp split: if_splits)
  next
    case (Some xs)
    then have "block n = (block m)(p := None)" using a hp.rel_live [OF Some] by auto
    then show ?thesis using finite_blocks [of m] Some by (simp add: live_def card_Diff_singleton domI)
  qed
qed

lemma live_assign:
  assumes "assign_o d a m = Inr (e, n)"
  shows "live m \<le> live n \<and> (o_buf d = NULL \<longrightarrow> live n = live m + 1 \<and> \<not> o_flag e)"
proof -
  let ?f = "\<lambda>u. \<lambda>(i, j) m. rbind (peek (o_buf a) (i + j * o_width a) m) (\<lambda>p. poke (o_buf u) (i + j * o_width u) p m)"
  obtain u m1 where u: "object_room d a m = Inr (u, m1)" "foldM (?f u) (raster (o_width u) (o_height u)) m1 = Inr n"
    "e = u\<lparr>o_clear := o_clear a\<rparr>"
    using assms by (auto simp: assign_o_def Let_def rbind_eq_Inr)
  have "live n = live m1"
    by (rule foldM_keeps [where P = "\<lambda>k. live k = live m1", OF u(2)]) (auto simp: rbind_eq_Inr live_poke)
  moreover have "live m \<le> live m1 \<and> (o_buf d = NULL \<longrightarrow> live m1 = live m + 1 \<and> \<not> o_flag u)"
  proof (cases "o_width d < o_width a \<or> o_height d < o_height a \<or> o_buf d = NULL")
    case True
    then obtain k where k: "mem_free (o_buf d) m = Inr k" "Create_o (o_width a) (o_height a) k = Inr (u, m1)"
      using u(1) by (auto simp: Delete_o_def rbind_eq_Inr)
    have "o_buf d = NULL \<Longrightarrow> k = m" using k(1) by (simp add: mem_free_def)
    moreover have "\<not> o_flag u" using k(2) by (auto simp: Create_o_def init_o_def Let_def split: if_splits prod.splits)
    ultimately show ?thesis using live_free [OF k(1)] live_new [OF k(2)] by auto
  qed (use u(1) in simp)
  ultimately show ?thesis by (simp add: u(3))
qed

lemma statement_leaks:
  assumes "assign_temp d (binary_o elide junk f a b) m = Inr (e, n)"
  shows "live m + 1 \<le> live n"
proof -
  obtain t k k1 k2 where t: "assign_o (init_o\<lparr>o_flag := True\<rparr>) a m = Inr (t, k)" "op_image_o f b t k = Inr k1"
    and rest: "rbind (return_o elide junk t k1) (\<lambda>(t, m). rbind (assign_o d t m) (\<lambda>(d, m).
      rbind (destroy_o t m) (\<lambda>m. Inr (d, m)))) = Inr (e, n)"
    using assms by (auto simp: assign_temp_def binary_o_def rbind_eq_Inr)
  have l: "live k = live m + 1" "\<not> o_flag t" using live_assign [OF t(1)] by (simp_all add: init_o_def)
  have "live k1 = live k"
    by (rule foldM_keeps [where P = "\<lambda>j. live j = live k", OF t(2) [unfolded op_image_o_def]])
      (auto simp: rbind_eq_Inr live_poke)
  moreover have "\<exists>s. assign_o d s k1 = Inr (e, n)"
    using rest l(2) by (auto simp: return_o_def destroy_o_def rbind_eq_Inr split: if_splits)
  ultimately show ?thesis using live_assign l(1) by fastforce
qed

text \<open>
  C34: \<open>d = a op b\<close> with a binary operator on images loses one buffer at each execution: the mark
  that the operator sets on its local image is cleared again by the assignment to it, so
  nothing ever releases that image, whatever the compiler does with it.
\<close>

theorem operators_leak:
  assumes "foldM (\<lambda>_ (d, m). assign_temp d (binary_o elide junk f a b) m) [0..<k] (d, m) = Inr (e, n)"
  shows "live m + k \<le> live n"
  using assms
proof (induction k arbitrary: e n)
  case (Suc k)
  then obtain d' m' where "foldM (\<lambda>_ (d, m). assign_temp d (binary_o elide junk f a b) m) [0..<k] (d, m) = Inr (d', m')"
    "assign_temp d' (binary_o elide junk f a b) m' = Inr (e, n)"
    by (auto simp: foldM_append rbind_eq_Inr)
  then show ?case using Suc.IH statement_leaks by fastforce
qed simp

theorem operators_leak_witness:
  "\<exists>e n. foldM (\<lambda>_ (d, m). assign_temp d (binary_o False False (\<lambda>p q. Inr p)
       \<lparr>o_buf = 1, o_flag = False, o_clear = Pixel0, o_width = 1, o_height = 1\<rparr>
       \<lparr>o_buf = 1, o_flag = False, o_clear = Pixel0, o_width = 1, o_height = 1\<rparr>) m) [0..<3] (init_o, [Some [PixelL 7]]) = Inr (e, n) \<and>
     4 \<le> live n"
proof -
  let ?a = "\<lparr>o_buf = 1, o_flag = False, o_clear = Pixel0, o_width = 1, o_height = 1\<rparr>"
  let ?f = "\<lambda>_ (d, m). assign_temp d (binary_o False False (\<lambda>p q. Inr p) ?a ?a) m"
  have "case foldM ?f [0..<3] (init_o, [Some [PixelL 7]]) of Inl _ \<Rightarrow> False | Inr _ \<Rightarrow> True" by code_simp
  then obtain e n where run: "foldM ?f [0..<3] (init_o, [Some [PixelL 7]]) = Inr (e, n)"
    by (auto split: sum.splits)
  have "dom (block [Some [PixelL 7]]) = {1}" by (auto simp: block_def NULL_def split: if_splits)
  then have "live [Some [PixelL 7]] = 1" by (simp add: live_def)
  then show ?thesis using operators_leak [OF run] run by auto
qed

end
