(* ===== verification/Objects.thy ===== *)
theory Objects
  imports Labeling OrderedMap
begin

text \<open>
  The objects of a labelled image (\<open>ImageUtil::SamplingObject\<close> and \<open>SamplingLargeObject\<close>,
  whose definitions stand in the labelling theory): what the two extractions leave of the
  image, and which object the second one takes.
\<close>

subsection \<open>Loops that rewrite each pixel and keep an account\<close>

lemma for_each_own_acc:
  assumes wf: "wf_img im"
    and body: "\<And>x y c t p. inside im x y \<Longrightarrow> Get t x y = Inr p \<Longrightarrow>
      f x y (c, t) = rbind (Put x y (g x y p) t) (\<lambda>t. Inr (h x y p c, t))"
  shows "\<exists>t. for_each im f (c, im) =
      Inr (fold (\<lambda>(x, y). h x y (shown im x y)) (raster (width im) (height im)) c, t) \<and>
    shape_of t = shape_of im \<and> wf_img t \<and>
    (\<forall>x y. inside im x y \<longrightarrow> cell t (x, y) = g x y (shown im x y))"
proof -
  let ?xs = "raster (width im) (height im)"
  let ?h = "\<lambda>(x, y). h x y (shown im x y)" and ?g = "\<lambda>(x, y). g x y (shown im x y)"
  have "\<exists>t. foldM (\<lambda>(i, j). f i j) ?xs (c, im) = Inr (fold ?h ?xs c, t) \<and> shape_of t = shape_of im \<and>
    (\<forall>y. ok_shape (shape_of im) y \<longrightarrow> cell t y = (if y \<in> set ?xs then ?g y else cell im y))"
  proof (rule bi.sweep_acc)
    show "distinct ?xs" by (rule distinct_raster)
  next
    fix x assume *: "x \<in> set ?xs"
    obtain a b where "x = (a, b)" by (cases x)
    with * wf show "ok_shape (shape_of im) x"
      by (simp add: set_raster_inside ok_shape_inside)
  next
    fix x e t
    assume *: "x \<in> set ?xs" "shape_of t = shape_of im" "cell t x = cell im x"
    obtain a b where x: "x = (a, b)" by (cases x)
    have ins: "inside im a b" using *(1) x by (simp add: set_raster_inside)
    then have ins': "inside t a b" by (simp only: inside_shape [OF *(2)])
    have wft: "wf_img t" by (rule wf_shape [OF *(2) wf])
    have "shown t a b = shown im a b" using *(2,3) x by (simp add: shown_def shape_eq)
    then have "Get t a b = Inr (shown im a b)" using wft ins' by (simp add: Get_shown)
    from body [OF ins this, of e] show "(case x of (i, j) \<Rightarrow> f i j) (e, t) = Inr (?h x e, set_cell t x (?g x))"
      using wft ins' x by (simp add: Put_in)
  qed
  then show ?thesis
    using wf by (force simp: for_each_def ok_shape_inside set_raster_inside wf_shape)
qed

subsection \<open>One object\<close>

text \<open>The cells the image shows with a label.\<close>

definition with_label :: "bi_image \<Rightarrow> int \<Rightarrow> (int \<times> int) set" where
  "with_label im l = {(x, y). inside im x y \<and> plabel (shown im x y) = l}"

lemma finite_with_label [simp]: "finite (with_label im l)"
proof (rule finite_subset)
  show "with_label im l \<subseteq> {0..<width im} \<times> {0..<height im}"
    by (auto simp: with_label_def inside_def)
qed simp

lemma filter_raster_card:
  "int (length (filter P (raster (width im) (height im)))) =
     int (card {(x, y). inside im x y \<and> P (x, y)})"
proof -
  have "length (filter P (raster (width im) (height im))) =
      card (set (filter P (raster (width im) (height im))))"
    by (rule distinct_card [symmetric]) (simp add: distinct_raster)
  also have "set (filter P (raster (width im) (height im))) = {(x, y). inside im x y \<and> P (x, y)}"
    by (auto simp: set_raster_inside)
  finally show ?thesis by simp
qed

lemma SamplingObject_ok:
  assumes wf: "wf_img im"
  shows "\<exists>t. SamplingObject im l = Inr (int (card (with_label im l)), t) \<and>
    shape_of t = shape_of im \<and> wf_img t \<and> (\<forall>x y. inside im x y \<longrightarrow>
      cell t (x, y) = setLightness (if plabel (shown im x y) = l then 255 else 0) (shown im x y))"
proof -
  have "\<exists>t. for_each im (\<lambda>i j (count, im). rbind (Get im i j) (\<lambda>p. if plabel p = l
      then rbind (Put i j (setLightness 255 p) im) (\<lambda>im. Inr (count + 1, im))
      else rbind (Put i j (setLightness 0 p) im) (\<lambda>im. Inr (count, im)))) (0 :: int, im) =
    Inr (fold (\<lambda>(x, y) n. if plabel (shown im x y) = l then n + 1 else n)
      (raster (width im) (height im)) 0, t) \<and>
    shape_of t = shape_of im \<and> wf_img t \<and> (\<forall>x y. inside im x y \<longrightarrow>
      cell t (x, y) = setLightness (if plabel (shown im x y) = l then 255 else 0) (shown im x y))"
    by (rule for_each_own_acc [OF wf, where h = "\<lambda>x y p n. if plabel p = l then n + 1 else n"
          and g = "\<lambda>x y p. setLightness (if plabel p = l then 255 else 0) p"]) simp
  moreover have count: "fold (\<lambda>(x, y) n. if plabel (shown im x y) = l then n + 1 else n)
      (raster (width im) (height im)) 0 = int (card (with_label im l))"
    using fold_count [of "\<lambda>(x, y). plabel (shown im x y) = l" "raster (width im) (height im)" 0]
      filter_raster_card [of "\<lambda>(x, y). plabel (shown im x y) = l" im]
    by (simp add: with_label_def case_prod_unfold)
  ultimately show ?thesis unfolding SamplingObject_def count by blast
qed

subsection \<open>The sizes by label\<close>

text \<open>The loop skips the label 0, so it counts the other labels.\<close>

lemma fold_skip:
  "fold (\<lambda>l m. if l \<noteq> (0 :: int) then f l m else m) ls m = fold f (filter (\<lambda>l. l \<noteq> 0) ls) m"
  by (induction ls arbitrary: m) simp_all

lemma count_list_filter: "P l \<Longrightarrow> count_list (filter P ls) l = count_list ls l"
  by (induction ls) auto

lemma fold_count_label:
  "fold (\<lambda>l m. if l \<noteq> (0 :: int) then m(l \<mapsto> (case m l of None \<Rightarrow> 0 | Some n \<Rightarrow> n) + 1) else m) ls Map.empty l =
     (if l \<noteq> 0 \<and> l \<in> set ls then Some (int (count_list ls l)) else None)"
  unfolding fold_skip [where f = "\<lambda>l m. m(l \<mapsto> (case m l of None \<Rightarrow> 0 :: int | Some n \<Rightarrow> n) + 1)"]
    fc.look_counts [of Map.empty "filter (\<lambda>l. l \<noteq> 0) ls" l, OF TrueI refl]
  by (auto simp: count_list_filter [of "\<lambda>l. l \<noteq> 0" l ls])

lemma area_map_cells:
  assumes wf: "wf_img im"
  shows "\<exists>m. area_map im = Inr m \<and> (\<forall>l. m l =
    (if l \<noteq> 0 \<and> with_label im l \<noteq> {} then Some (int (card (with_label im l))) else None))"
proof -
  let ?xs = "raster (width im) (height im)"
  let ?ls = "map (\<lambda>(x, y). plabel (shown im x y)) ?xs"
  let ?c = "\<lambda>l m. if l \<noteq> 0 then m(l \<mapsto> (case m l of None \<Rightarrow> 0 | Some n \<Rightarrow> n) + 1) else m"
  have "area_map im = Inr (fold (\<lambda>(x, y). ?c (plabel (shown im x y))) ?xs Map.empty)"
    unfolding area_map_def
    by (rule for_each_read) (simp add: Get_shown [OF wf] Let_def)
  also have "fold (\<lambda>(x, y). ?c (plabel (shown im x y))) ?xs Map.empty = fold ?c ?ls Map.empty"
    by (simp add: fold_map case_prod_unfold comp_def)
  finally have "area_map im = Inr (fold ?c ?ls Map.empty)" .
  moreover have "l \<in> set ?ls \<longleftrightarrow> with_label im l \<noteq> {}" for l
  proof -
    have "set ?xs = {(x, y). inside im x y}" by (auto simp: set_raster_inside)
    then show ?thesis by (force simp: with_label_def)
  qed
  moreover have "count_list ?ls l = card (with_label im l)" for l
  proof -
    have "count_list ?ls l = length (filter (\<lambda>(x, y). plabel (shown im x y) = l) ?xs)"
      by (simp add: count_list_eq_length_filter filter_map comp_def case_prod_unfold eq_commute)
    then show ?thesis
      using filter_raster_card [of "\<lambda>(x, y). plabel (shown im x y) = l" im]
      by (simp add: with_label_def)
  qed
  ultimately show ?thesis by (auto simp: fold_count_label)
qed

lemma largest_first:
  assumes "sorted_wrt (<) ls" and "\<And>l n. m l = Some n \<Longrightarrow> 0 < n"
  shows "case largest m ls of (big, None) \<Rightarrow> big = 0 \<and> (\<forall>l \<in> set ls. m l = None)
    | (big, Some b) \<Rightarrow> b \<in> set ls \<and> m b = Some big \<and>
        (\<forall>l \<in> set ls. \<forall>n. m l = Some n \<longrightarrow> n \<le> big \<and> (n = big \<longrightarrow> b \<le> l))"
  using assms(1)
proof (induction ls rule: rev_induct)
  case (snoc l ls)
  have last: "largest m (ls @ [l]) = (case largest m ls of (big, best) \<Rightarrow> (case m l of
      Some n \<Rightarrow> if big < n then (n, Some l) else (big, best) | None \<Rightarrow> (big, best)))"
    by (simp add: largest_def split: prod.split)
  have less: "\<forall>k \<in> set ls. k < l" using snoc.prems by (simp add: sorted_wrt_append)
  obtain big best where b: "largest m ls = (big, best)" by (cases "largest m ls")
  have IH: "case (big, best) of (big, None) \<Rightarrow> big = 0 \<and> (\<forall>l \<in> set ls. m l = None)
    | (big, Some b) \<Rightarrow> b \<in> set ls \<and> m b = Some big \<and>
        (\<forall>l \<in> set ls. \<forall>n. m l = Some n \<longrightarrow> n \<le> big \<and> (n = big \<longrightarrow> b \<le> l))"
    using snoc b by (simp add: sorted_wrt_append)
  show ?case
  proof (cases "m l")
    case None
    then show ?thesis using IH b last by (cases best) auto
  next
    case (Some n)
    then show ?thesis
      using IH b last less assms(2) [OF Some] by (cases best) (auto simp: order.strict_implies_order)
  qed
qed (simp add: largest_def)

lemma plabel_shown_cell: "plabel (shown im x y) \<noteq> 0 \<Longrightarrow> shown im x y = cell im (x, y)"
  by (auto simp: shown_def view_def initialize_def)

lemma labels_of_inside:
  assumes "wf_img im" "l \<noteq> 0" "with_label im l \<noteq> {}"
  shows "l \<in> set (labels_of im)"
proof -
  obtain x y where xy: "inside im x y" "plabel (shown im x y) = l"
    using assms(3) by (auto simp: with_label_def)
  then have "plabel (cell im (x, y)) = l"
    using assms(2) plabel_shown_cell [of im x y] by simp
  moreover have "cell im (x, y) \<in> set (mimage im)"
    using inside_length [OF assms(1) xy(1)] by (simp add: cell_def nat_less_iff)
  ultimately show ?thesis by (auto simp: labels_of_def)
qed

lemma SamplingLargeObject_ok:
  assumes wf: "wf_img im"
  shows "if \<forall>l. l \<noteq> 0 \<longrightarrow> with_label im l = {} then SamplingLargeObject im = Inl Uninit
    else \<exists>l t. SamplingLargeObject im = Inr (l, t) \<and> l \<noteq> 0 \<and> with_label im l \<noteq> {} \<and>
      (\<forall>k. k \<noteq> 0 \<longrightarrow> card (with_label im k) \<le> card (with_label im l) \<and>
         (card (with_label im k) = card (with_label im l) \<longrightarrow> l \<le> k)) \<and>
      shape_of t = shape_of im \<and> wf_img t \<and> (\<forall>x y. inside im x y \<longrightarrow>
        cell t (x, y) = setLightness (if plabel (shown im x y) = l then 255 else 0) (shown im x y))"
proof -
  obtain m where m: "area_map im = Inr m" "\<And>l. m l =
      (if l \<noteq> 0 \<and> with_label im l \<noteq> {} then Some (int (card (with_label im l))) else None)"
    using area_map_cells [OF wf] by blast
  have "sorted_wrt (<) (labels_of im)" by (simp add: labels_of_def)
  moreover have "0 < n" if "m l = Some n" for l n
    using that m(2) [of l] by (auto split: if_splits simp: card_gt_0_iff)
  ultimately have first: "case largest m (labels_of im) of
      (big, None) \<Rightarrow> big = 0 \<and> (\<forall>l \<in> set (labels_of im). m l = None)
    | (big, Some b) \<Rightarrow> b \<in> set (labels_of im) \<and> m b = Some big \<and>
        (\<forall>l \<in> set (labels_of im). \<forall>n. m l = Some n \<longrightarrow> n \<le> big \<and> (n = big \<longrightarrow> b \<le> l))"
    by (rule largest_first)
  obtain big best where lg: "largest m (labels_of im) = (big, best)"
    by (cases "largest m (labels_of im)")
  have known: "m l = None" if "l \<notin> set (labels_of im)" for l
    using that labels_of_inside [OF wf, of l] m(2) [of l] by auto
  show ?thesis
  proof (cases best)
    case None
    then have "m l = None" for l using first lg known [of l] by auto
    then have "\<forall>l. l \<noteq> 0 \<longrightarrow> with_label im l = {}" using m(2) by (metis option.distinct(1))
    then show ?thesis using m(1) lg None by (simp add: SamplingLargeObject_def)
  next
    case (Some l)
    with first lg have l: "m l = Some big"
      "\<And>k n. k \<in> set (labels_of im) \<Longrightarrow> m k = Some n \<Longrightarrow> n \<le> big \<and> (n = big \<longrightarrow> l \<le> k)" by auto
    have own: "l \<noteq> 0" "with_label im l \<noteq> {}" "big = int (card (with_label im l))"
      using l(1) m(2) [of l] by (auto split: if_splits)
    have "card (with_label im k) \<le> card (with_label im l) \<and>
      (card (with_label im k) = card (with_label im l) \<longrightarrow> l \<le> k)" if "k \<noteq> 0" for k
    proof (cases "with_label im k = {}")
      case True
      have "card (with_label im l) \<noteq> 0" using own(2) by simp
      with True show ?thesis by simp
    next
      case False
      with that m(2) have "m k = Some (int (card (with_label im k)))" by simp
      then show ?thesis using l(2) [of k] known [of k] own(3) by fastforce
    qed
    moreover obtain t where "SamplingObject im l = Inr (int (card (with_label im l)), t)"
      "shape_of t = shape_of im" "wf_img t" "\<forall>x y. inside im x y \<longrightarrow>
        cell t (x, y) = setLightness (if plabel (shown im x y) = l then 255 else 0) (shown im x y)"
      using SamplingObject_ok [OF wf] by blast
    ultimately show ?thesis
      using own m(1) lg Some by (auto simp: SamplingLargeObject_def)
  qed
qed

text \<open>C21: extracting the largest object of a labelled image takes the object with the most
  pixels, the first label among equals, makes exactly its pixels white and all others black,
  and keeps the labels; the value returned is that label. On an image without any label the
  source uses an object number that was never set.\<close>

theorem SamplingLargeObject_largest:
  assumes "wf_img im"
  shows "if \<forall>l. l \<noteq> 0 \<longrightarrow> with_label im l = {} then SamplingLargeObject im = Inl Uninit
    else \<exists>l t. SamplingLargeObject im = Inr (l, t) \<and> l \<noteq> 0 \<and> with_label im l \<noteq> {} \<and>
      (\<forall>k. k \<noteq> 0 \<longrightarrow> card (with_label im k) \<le> card (with_label im l) \<and>
         (card (with_label im k) = card (with_label im l) \<longrightarrow> l \<le> k)) \<and>
      shape_of t = shape_of im \<and> wf_img t \<and> (\<forall>x y. inside im x y \<longrightarrow>
        cell t (x, y) = setLightness (if plabel (shown im x y) = l then 255 else 0) (shown im x y))"
  using assms by (rule SamplingLargeObject_ok)

definition two_objects :: bi_image where
  "two_objects = \<lparr>mimage = map (\<lambda>l. setLabel l (PixelL 255)) [1, 2, 2, 0], clearColor = Pixel0,
     width = 4, height = 1\<rparr>"

theorem SamplingLargeObject_largest_witness:
  "\<exists>l t. SamplingLargeObject two_objects = Inr (l, t) \<and>
    (\<forall>k. k \<noteq> 0 \<longrightarrow> card (with_label two_objects k) \<le> card (with_label two_objects l))"
proof -
  have "(0, 0) \<in> with_label two_objects 1"
    by (simp add: with_label_def two_objects_def inside_def shown_def cell_def view_def pix_eq_def
        setLabel_def initialize_def)
  then have ne: "\<not> (\<forall>l. l \<noteq> 0 \<longrightarrow> with_label two_objects l = {})" by (metis empty_iff zero_neq_one)
  have wf: "wf_img two_objects" by (simp add: wf_img_def two_objects_def int32_def)
  show ?thesis
    using SamplingLargeObject_largest [OF wf, unfolded if_not_P [OF ne]] by blast
qed

end
