(* ===== verification/Scene.thy ===== *)
theory Scene
  imports Prelude
begin

text \<open>
  The scene template (\<open>include/SceneClass.h\<close>): four function pointers that are set together and
  called one by one. \<open>'d\<close> is the template's type, passed by value; what a function changes is the
  state \<open>'w\<close>. A pointer that was never set is unset.
\<close>

type_synonym ('d, 'w) handler = "'d \<Rightarrow> 'w \<Rightarrow> 'w res"

record ('d, 'w) scene =
  m_init :: "('d, 'w) handler option"
  m_update :: "('d, 'w) handler option"
  m_draw :: "('d, 'w) handler option"
  m_delete :: "('d, 'w) handler option"

definition run_handler :: "('d, 'w) handler option \<Rightarrow> 'd \<Rightarrow> 'w \<Rightarrow> 'w res" where
  "run_handler f d w = (case f of None \<Rightarrow> Inl Uninit | Some f \<Rightarrow> f d w)"

definition Scene_Set :: "('d, 'w) handler \<Rightarrow> ('d, 'w) handler \<Rightarrow> ('d, 'w) handler \<Rightarrow> ('d, 'w) handler \<Rightarrow>
    ('d, 'w) scene \<Rightarrow> ('d, 'w) scene" where
  "Scene_Set i u r e s = s\<lparr>m_init := Some i, m_update := Some u, m_draw := Some r, m_delete := Some e\<rparr>"

definition Scene_Init :: "('d, 'w) scene \<Rightarrow> 'd \<Rightarrow> 'w \<Rightarrow> 'w res" where
  "Scene_Init s = run_handler (m_init s)"

definition Scene_Update :: "('d, 'w) scene \<Rightarrow> 'd \<Rightarrow> 'w \<Rightarrow> 'w res" where
  "Scene_Update s = run_handler (m_update s)"

definition Scene_Draw :: "('d, 'w) scene \<Rightarrow> 'd \<Rightarrow> 'w \<Rightarrow> 'w res" where
  "Scene_Draw s = run_handler (m_draw s)"

definition Scene_Delete :: "('d, 'w) scene \<Rightarrow> 'd \<Rightarrow> 'w \<Rightarrow> 'w res" where
  "Scene_Delete s = run_handler (m_delete s)"

text \<open>After the last \<open>Set\<close> the phases run in any number of rounds exactly its functions.\<close>

theorem scene_runs:
  "rbind (Scene_Init (Scene_Set i u r e s) d w) (\<lambda>w.
     rbind (foldM (\<lambda>_ w. rbind (Scene_Update (Scene_Set i u r e s) d w) (Scene_Draw (Scene_Set i u r e s) d)) xs w)
       (Scene_Delete (Scene_Set i u r e s) d)) =
   rbind (i d w) (\<lambda>w. rbind (foldM (\<lambda>_ w. rbind (u d w) (r d)) xs w) (e d))"
  by (simp add: Scene_Init_def Scene_Update_def Scene_Draw_def Scene_Delete_def Scene_Set_def run_handler_def cong: rbind_cong)

end
