(* ===== verification/Script.thy ===== *)
theory Script
  imports Prelude
begin

text \<open>
  The word splitter (\<open>src/ScriptClass.cpp\<close>), which splits again whenever a delimiter or the
  string is set, and overwrites the delimiters it has cut at with zero characters.
\<close>

record script =
  s_input :: string
  delimiter :: "char list"
  result :: "string list"

definition substr :: "string \<Rightarrow> int \<Rightarrow> int \<Rightarrow> string res" where
  "substr s pos n = (if int (length s) < pos then Inl OutOfRange
     else Inr (if n < 0 then drop (nat pos) s else take (nat n) (drop (nat pos) s)))"

definition at_char :: "string \<Rightarrow> int \<Rightarrow> char res" where
  "at_char s i = (if 0 \<le> i \<and> i < int (length s) then Inr (s ! nat i) else Inl OutOfRange)"

text \<open>The body of the inner loop, at index \<open>i\<close> and for one delimiter; \<open>num\<close> is where the word begins.\<close>

definition delim_step :: "int \<Rightarrow> char \<Rightarrow> string \<times> int \<times> string list \<Rightarrow> (string \<times> int \<times> string list) res" where
  "delim_step i d = (\<lambda>(inp, num, words). rbind (at_char inp i) (\<lambda>c.
     if c = d \<and> i \<noteq> num
     then (let inp = inp[nat i := CHR 0x00] in
       rbind (substr inp num (i - num)) (\<lambda>w. Inr (inp, i + 1, words @ [w])))
     else Inr (inp, num, words)))"

definition last_word :: "string \<times> int \<times> string list \<Rightarrow> (string \<times> string list) res" where
  "last_word = (\<lambda>(inp, num, words). let i = int (length inp) in
     if i \<noteq> num then rbind (substr inp num (i - num)) (\<lambda>w. Inr (inp, words @ [w]))
     else Inr (inp, words))"

definition Split :: "script \<Rightarrow> script res" where
  "Split s = rbind (foldM (\<lambda>i. foldM (delim_step i) (delimiter s)) [0..int (length (s_input s)) - 1]
       (s_input s, 0, [])) (\<lambda>st. rbind (last_word st) (\<lambda>(inp, words).
     Inr (s\<lparr>s_input := inp, result := words\<rparr>)))"

definition Script0 :: script where
  "Script0 = \<lparr>s_input = [], delimiter = [], result = []\<rparr>"

definition Script :: "string \<Rightarrow> script res" where
  "Script delims = Split (Script0\<lparr>delimiter := delims\<rparr>)"

definition Delimiter :: "char \<Rightarrow> script \<Rightarrow> script res" where
  "Delimiter word s = Split (s\<lparr>delimiter := delimiter s @ [word]\<rparr>)"

definition String :: "string \<Rightarrow> script \<Rightarrow> script res" where
  "String str s = Split (s\<lparr>s_input := str\<rparr>)"

definition Size :: "script \<Rightarrow> int" where
  "Size s = s32 (int (length (result s)))"

definition Get :: "script \<Rightarrow> int \<Rightarrow> string res" where
  "Get s num = (if 0 \<le> num \<and> num < int (length (result s)) then Inr (result s ! nat num) else Inl OutOfRange)"

subsection \<open>What is cut\<close>

text \<open>
  The words, read from the left with the word begun so far, and the string that is left: a
  delimiter ends a word that has been begun and is overwritten; otherwise it begins one.
\<close>

fun cut :: "char list \<Rightarrow> string \<Rightarrow> string \<Rightarrow> string list \<times> string" where
  "cut D w [] = (if w = [] then [] else [w], w)"
| "cut D w (c # s) = (if c \<in> set D \<and> w \<noteq> []
     then (let (ws, r) = cut D [] s in (w # ws, w @ CHR 0x00 # r))
     else cut D (w @ [c]) s)"

lemma delim_none:
  assumes "0 \<le> i" "i < int (length inp)" "inp ! nat i \<notin> set D \<or> i = num"
  shows "foldM (delim_step i) D (inp, num, ws) = Inr (inp, num, ws)"
  using assms by (induction D) (auto simp: delim_step_def at_char_def)

text \<open>A cut leaves a zero character, so the delimiters that follow in the list find nothing more.\<close>

lemma delim_cut:
  assumes "0 \<le> num" "num < i" "i < int (length inp)" "inp ! nat i \<in> set D" "CHR 0x00 \<notin> set D"
  shows "foldM (delim_step i) D (inp, num, ws) =
    Inr (inp[nat i := CHR 0x00], i + 1, ws @ [take (nat (i - num)) (drop (nat num) inp)])"
  using assms(4,5)
proof (induction D)
  case (Cons d D)
  have at: "at_char inp i = Inr (inp ! nat i)" using assms(1-3) by (simp add: at_char_def)
  show ?case
  proof (cases "inp ! nat i = d")
    case True
    have "take (nat (i - num)) (drop (nat num) (inp[nat i := CHR 0x00])) = take (nat (i - num)) (drop (nat num) inp)"
      using assms(1-3) by (simp add: drop_update_swap nat_diff_distrib)
    then have "delim_step i d (inp, num, ws) =
        Inr (inp[nat i := CHR 0x00], i + 1, ws @ [take (nat (i - num)) (drop (nat num) inp)])"
      using assms(1-3) True by (simp add: delim_step_def at substr_def Let_def)
    moreover have "inp[nat i := CHR 0x00] ! nat i = CHR 0x00" using assms(1-3) by simp
    ultimately show ?thesis
      using Cons.prems assms(1-3) by (simp add: delim_none)
  next
    case False
    then show ?thesis using Cons at by (simp add: delim_step_def)
  qed
qed simp

lemma split_loop:
  assumes "CHR 0x00 \<notin> set D" "num = int (length pre)" "i = num + int (length w)" "n = i + int (length s)"
  shows "rbind (foldM (\<lambda>i. foldM (delim_step i) D) [i..n - 1] (pre @ w @ s, num, ws)) last_word =
    Inr (pre @ snd (cut D w s), ws @ fst (cut D w s))"
  using assms(2-4)
proof (induction s arbitrary: pre w num i ws)
  case Nil
  then show ?case by (auto simp: last_word_def substr_def)
next
  case (Cons c s)
  let ?loop = "foldM (\<lambda>i. foldM (delim_step i) D)"
  have up: "?loop [i..n - 1] st = rbind (foldM (delim_step i) D st) (?loop [i + 1..n - 1])" for st
    using Cons.prems by (subst upto_rec1) auto
  have idx: "nat i = length pre + length w" "0 \<le> i" "i < int (length (pre @ w @ c # s))"
    using Cons.prems by auto
  have c: "(pre @ w @ c # s) ! nat i = c" by (simp add: idx(1) nth_append)
  show ?case
  proof (cases "c \<in> set D \<and> w \<noteq> []")
    case True
    have "foldM (delim_step i) D (pre @ w @ c # s, num, ws) =
        Inr ((pre @ w @ [CHR 0x00]) @ [] @ s, i + 1, ws @ [w])"
      using delim_cut [of num i "pre @ w @ c # s" D ws] True Cons.prems idx c assms(1)
      by (simp add: list_update_append nat_diff_distrib)
    then show ?thesis
      using Cons.IH [of "i + 1" "pre @ w @ [CHR 0x00]" "i + 1" "[]" "ws @ [w]"] Cons.prems True
      unfolding up by (simp add: Let_def case_prod_beta')
  next
    case False
    have "foldM (delim_step i) D (pre @ w @ c # s, num, ws) = Inr (pre @ (w @ [c]) @ s, num, ws)"
      using delim_none [of i "pre @ w @ c # s" D num ws] False Cons.prems idx c by auto
    then show ?thesis
      using Cons.IH [of num pre "i + 1" "w @ [c]" ws] Cons.prems False
      unfolding up by auto
  qed
qed

lemma Split_cut:
  assumes "CHR 0x00 \<notin> set (delimiter s)"
  shows "Split s = Inr (s\<lparr>s_input := snd (cut (delimiter s) [] (s_input s)),
    result := fst (cut (delimiter s) [] (s_input s))\<rparr>)"
  using split_loop [OF assms, of 0 "[]" 0 "[]" "int (length (s_input s))" "s_input s" "[]"]
  by (auto simp: Split_def rbind_eq_Inr)

subsection \<open>The words\<close>

text \<open>A word is a first character of any kind and the characters up to the next delimiter.\<close>

function split_words :: "char list \<Rightarrow> string \<Rightarrow> string list" where
  "split_words D [] = []"
| "split_words D (c # s) = (c # takeWhile (\<lambda>x. x \<notin> set D) s) #
     split_words D (drop 1 (dropWhile (\<lambda>x. x \<notin> set D) s))"
  by pat_completeness auto
termination
  by (relation "measure (\<lambda>(D, s). length s)")
    (auto simp: less_Suc_eq_le intro: le_trans [OF diff_le_self length_dropWhile_le])

lemma cut_words:
  "fst (cut D w s) = (if w = [] then split_words D s
     else (w @ takeWhile (\<lambda>x. x \<notin> set D) s) # split_words D (drop 1 (dropWhile (\<lambda>x. x \<notin> set D) s)))"
  by (induction D w s rule: cut.induct) (auto simp: Let_def split: prod.splits)

lemma cut_rest:
  "length (snd (cut D w s)) = length (w @ s) \<and> list_all2 (\<lambda>a b. b = a \<or> a \<in> set D \<and> b = CHR 0x00) (w @ s) (snd (cut D w s))"
proof (induction D w s rule: cut.induct)
  case (2 D w c s)
  have refl: "list_all2 (\<lambda>a b. b = a \<or> a \<in> set D \<and> b = CHR 0x00) w w"
    by (simp add: list_all2_conv_all_nth)
  show ?case
    using 2 refl by (auto simp: Let_def split: prod.splits intro: list_all2_appendI)
qed (simp add: list_all2_conv_all_nth)

text \<open>
  Splitting never fails and gives the words of the string: a word is one character of any
  kind, even a delimiter, and what follows it up to the next delimiter, so delimiters at the
  beginning or in a row are not dropped but begin the next word. The string itself is left
  with zero characters where it was cut and unchanged elsewhere.
\<close>

theorem Split_words_of:
  assumes "CHR 0x00 \<notin> set (delimiter s)"
  shows "\<exists>t. Split s = Inr t \<and> result t = split_words (delimiter s) (s_input s) \<and> delimiter t = delimiter s \<and>
    list_all2 (\<lambda>a b. b = a \<or> a \<in> set (delimiter s) \<and> b = CHR 0x00) (s_input s) (s_input t)"
  using Split_cut [OF assms] cut_words [of "delimiter s" "[]" "s_input s"]
    cut_rest [of "delimiter s" "[]" "s_input s"] by simp

theorem Split_words_of_witness:
  "\<exists>t. Split (Script0\<lparr>delimiter := '','', s_input := '',,a,b''\<rparr>) = Inr t \<and> result t = ['','', ''a'', ''b'']"
  using Split_words_of [of "Script0\<lparr>delimiter := '','', s_input := '',,a,b''\<rparr>"] by auto

text \<open>
  Setting another delimiter splits the string again, but the places cut before are zero
  characters by then, and the words they ended are joined again.
\<close>

theorem Delimiter_joins:
  assumes "u \<noteq> []" "v \<noteq> []" "set (u @ v) \<inter> {c, d, CHR 0x00} = {}" "c \<noteq> CHR 0x00" "d \<noteq> CHR 0x00"
  shows "rbind (String (u @ c # v) (Script0\<lparr>delimiter := [c]\<rparr>)) (\<lambda>s. Inr (result s)) = Inr [u, v] \<and>
    rbind (rbind (String (u @ c # v) (Script0\<lparr>delimiter := [c]\<rparr>)) (Delimiter d)) (\<lambda>s. Inr (result s)) =
      Inr [u @ CHR 0x00 # v]"
proof -
  have plain: "cut D w (x @ y) = cut D (w @ x) y" if "set x \<inter> set D = {}" for D w x y
    using that by (induction x arbitrary: w) auto
  have "cut [c] [] (u @ c # v) = ([u, v], u @ CHR 0x00 # v)"
    using plain [of u "[c]" "[]" "c # v"] plain [of v "[c]" "[]" "[]"] assms by auto
  moreover have "cut [c, d] [] (u @ CHR 0x00 # v) = ([u @ CHR 0x00 # v], u @ CHR 0x00 # v)"
    using plain [of "u @ CHR 0x00 # v" "[c, d]" "[]" "[]"] assms by auto
  ultimately show ?thesis
    using assms by (simp add: String_def Delimiter_def Script0_def Split_cut)
qed

theorem Delimiter_joins_witness:
  "rbind (rbind (String ''a,b'' (Script0\<lparr>delimiter := '',''\<rparr>)) (Delimiter (CHR '' ''))) (\<lambda>s. Inr (result s)) =
    Inr [''a'' @ CHR 0x00 # ''b'']"
  using Delimiter_joins [of "''a''" "''b''" "CHR '',''" "CHR '' ''"] by simp

end
