(* ===== verification/SensorBar.thy ===== *)
theory SensorBar
  imports Objects Matching
begin

text \<open>
  The hand detection of the sensor bar program (\<open>SensorBarLogicClass.cpp\<close>), the largest user
  of the image library: a colour range extracts the skin, morphology, labelling and the
  extraction of the largest object give the hand, thinning its end points, and the opened
  hand the palm. \<open>getMatchRate\<close> compares two features by their cosine.
\<close>

subsection \<open>Features\<close>

record feature =
  bulr :: cfloat
  f_area :: cfloat
  point_num :: int

definition feat_mul :: "feature \<Rightarrow> feature \<Rightarrow> feature" where
  "feat_mul this f =
     \<lparr>bulr = fp_mul F64 (bulr this) (bulr f), f_area = fp_mul F64 (f_area this) (f_area f),
      point_num = s32 (point_num this * point_num f)\<rparr>"

definition feat_sum :: "feature \<Rightarrow> cfloat" where
  "feat_sum f = fp_add F64 (fp_add F64 (bulr f) (f_area f)) (fp_of_int F64 (point_num f))"

definition getMatchRate :: "feature \<Rightarrow> feature \<Rightarrow> cfloat" where
  "getMatchRate this f =
     fp_div F64 (feat_sum (feat_mul this f))
       (fp_mul F64 (fp_sqrt (feat_sum (feat_mul this this))) (fp_sqrt (feat_sum (feat_mul f f))))"

subsection \<open>Skin\<close>

definition Range :: "bi_image \<Rightarrow> bi_image res" where
  "Range im =
     rbind (HRange 25 210 False im) (\<lambda>im.
     rbind (SRange 3 55 True im) (\<lambda>im.
     rbind (VRange 30 210 True im) (\<lambda>im.
     rbind (Binarize 1 im) (\<lambda>(_, im). Inr im))))"

subsection \<open>The hand\<close>

text \<open>
  The class \<open>Hand\<close>. The field \<open>area\<close> gets what \<open>SamplingLargeObject\<close> returns, the label of
  the object. \<open>SamplingHand\<close> also changes the image it is given.
\<close>

record hand =
  palm_center_point :: point
  finger_point_list :: "point list"
  hand_area :: int

definition add_fingers :: "point list \<Rightarrow> int \<Rightarrow> int \<Rightarrow> point list \<Rightarrow> point list" where
  "add_fingers pts x y fingers =
     foldl (\<lambda>fs p. if px p = x \<and> py p = y then fs @ [Pos x y] else fs) fingers pts"

definition palm_center :: "area \<Rightarrow> point" where
  "palm_center a = Pos (s32 (mx a + mwidth a sdiv 2)) (s32 (my a + mheight a sdiv 2))"

definition SamplingHand :: "bi_image \<Rightarrow> (hand \<times> bi_image) res" where
  "SamplingHand im =
     rbind (AntiNoise 1 im) (\<lambda>im.
     rbind (Labeling im) (\<lambda>(_, im).
     rbind (SamplingLargeObject im) (\<lambda>(id, im).
     rbind (assign init im) (\<lambda>temp.
     rbind (AntiNoise 5 temp) (\<lambda>temp.
     rbind (Thinning im) (\<lambda>(_, im).
     rbind (getNodeList im 1) (\<lambda>pts.
     rbind (Scope temp) (\<lambda>area.
     rbind (for_each temp (\<lambda>x y fingers.
       rbind (Get temp x y) (\<lambda>p.
         if pix_neq p (PixelI 0) then Inr fingers else Inr (add_fingers pts x y fingers))) []) (\<lambda>fingers.
     Inr (\<lparr>palm_center_point = palm_center area, finger_point_list = fingers, hand_area = id\<rparr>, im))))))))))"

definition getCenterPoint :: "point list \<Rightarrow> point res" where
  "getCenterPoint pts =
     (let c = foldl (\<lambda>c p. Pos (s32 (px p + px c)) (s32 (py p + py c))) (Pos 0 0) pts in
      if length pts \<noteq> 0 then pt_divi c (s32 (int (length pts))) else Inr c)"

subsection \<open>Drawing\<close>

text \<open>\<open>1.0 / Work_Image_Percent\<close> is 2, converted to the int the operator takes.\<close>

definition put_block :: "point \<Rightarrow> pixel \<Rightarrow> bi_image \<Rightarrow> bi_image res" where
  "put_block p c =
     foldM (\<lambda>j. Put (s32 (px p + j mod 3 - 1)) (s32 (py p + j div 3 - 1)) c) [0..8]"

definition draw_finger :: "point \<Rightarrow> line \<times> bi_image \<Rightarrow> (line \<times> bi_image) res" where
  "draw_finger p = (\<lambda>(line, out).
     let p = pt_mul_assign 2 p; line = line_End (px p) (py p) line in
     rbind (line_Draw line out) (\<lambda>out.
     rbind (put_block p (PixelRGB 0 0 255) out) (\<lambda>out. Inr (line, out))))"

definition DrawPointList :: "bi_image \<Rightarrow> hand \<Rightarrow> bi_image \<Rightarrow> bi_image res" where
  "DrawPointList im hand out =
     (let c = pt_mul_assign 2 (palm_center_point hand);
          line = line_Start (px c) (py c) (line_Color (PixelRGB 0 255 0) Line0) in
     rbind (foldM draw_finger (finger_point_list hand) (line, out)) (\<lambda>(_, out).
     put_block c (PixelRGB 255 0 0) out))"

text \<open>
  One frame of the program: the camera's picture goes to the background, half its size to
  the work image (\<open>WIDTH * Work_Image_Percent\<close> is 160, \<open>HEIGHT * Work_Image_Percent\<close> 120), and
  the hand found there is drawn on the background. The title of the window is left out.
\<close>

definition WindowUpdate :: "bi_image \<Rightarrow> bi_image \<Rightarrow> bi_image \<Rightarrow> (bi_image \<times> bi_image) res" where
  "WindowUpdate camera background temp =
     rbind (assign background camera) (\<lambda>background.
     rbind (assign temp background) (\<lambda>temp.
     rbind (Size 160 120 temp) (\<lambda>temp.
     rbind (Range temp) (\<lambda>temp.
     rbind (SamplingHand temp) (\<lambda>(hand, temp).
     rbind (DrawPointList temp hand background) (\<lambda>background.
     Inr (background, temp)))))))"

subsection \<open>Skin is white, everything else black\<close>

lemma keep_range_cells:
  assumes wf: "wf_img im"
  shows "\<exists>t. keep_range f low high b im = Inr t \<and> shape_of t = shape_of im \<and> wf_img t \<and>
    (\<forall>x y. inside im x y \<longrightarrow> cell t (x, y) =
       (if (low \<le> f (shown im x y) \<and> f (shown im x y) \<le> high) = b then cell im (x, y) else PixelL 0))"
  unfolding keep_range_def
proof (rule for_each_sweep [OF wf refl refl])
  fix x y t
  assume *: "inside im x y" "shape_of t = shape_of im" "wf_img t" "cell t (x, y) = cell im (x, y)"
  have ins: "inside t x y" using *(1) by (simp only: inside_shape [OF *(2)])
  have "shown t x y = shown im x y" using *(2,4) by (simp add: shown_def shape_eq)
  then show "rbind (Get t x y) (\<lambda>p. if \<not> ((low \<le> f p \<and> f p \<le> high) = b) then Put x y (PixelI 0) t
      else Inr t) = Inr (set_cell t (x, y)
        (if (low \<le> f (shown im x y) \<and> f (shown im x y) \<le> high) = b then cell im (x, y) else PixelL 0))"
    using ins *(3,4) set_cell_same [OF *(3) ins] by (simp add: Get_shown Put_in PixelI_byte)
qed

text \<open>What the four steps keep: the hue range is left out, saturation and value are kept.\<close>

definition skin :: "pixel \<Rightarrow> bool" where
  "skin p \<longleftrightarrow> \<not> (25 \<le> Pixel_H p \<and> Pixel_H p \<le> 210) \<and>
     3 \<le> uint (Pixel_S p) \<and> uint (Pixel_S p) \<le> 55 \<and> 30 \<le> uint (Pixel_V p) \<and> uint (Pixel_V p) \<le> 100 \<and>
     1 \<le> uint (Lightness p)"

definition dark :: "pixel \<Rightarrow> bool" where
  "dark p \<longleftrightarrow> red p = 0 \<and> green p = 0 \<and> blue p = 0"

lemma dark_no_skin: "dark p \<Longrightarrow> Pixel_S p = 0 \<and> Pixel_V p = 0"
proof -
  assume d: "dark p"
  have u: "unit_channel 0 = Fin 0" by code_simp
  then have "max_unit p = Fin 0" using d by (simp add: max_unit_def dark_def fp_lt.simps)
  moreover have "fp_to_byte (fp_mul F64 (Fin 0) (fp_of_int F64 100)) = 0" by code_simp
  ultimately show ?thesis by (simp add: Pixel_S_def Pixel_V_def Let_def fp_eq_def)
qed

lemma dark_shown: "cell im (x, y) = PixelL 0 \<Longrightarrow> dark (shown im x y)"
  by (auto simp: dark_def shown_def view_def initialize_def)

lemma shown_same:
  "shape_of t = shape_of im \<Longrightarrow> cell t (x, y) = cell im (x, y) \<Longrightarrow> shown t x y = shown im x y"
  by (simp add: shown_def shape_eq)

text \<open>A further range on an image whose rejected pixels are black already.\<close>

lemma keep_range_after:
  assumes t: "shape_of t = shape_of im" "wf_img t"
    and cells: "\<forall>x y. inside im x y \<longrightarrow> cell t (x, y) = (if P x y then cell im (x, y) else PixelL 0)"
    and f: "\<And>p. dark p \<Longrightarrow> f p = 0" and low: "0 < low"
  shows "\<exists>u. keep_range f low high True t = Inr u \<and> shape_of u = shape_of im \<and> wf_img u \<and>
    (\<forall>x y. inside im x y \<longrightarrow> cell u (x, y) =
       (if P x y \<and> low \<le> f (shown im x y) \<and> f (shown im x y) \<le> high then cell im (x, y) else PixelL 0))"
proof -
  obtain u where u: "keep_range f low high True t = Inr u" "shape_of u = shape_of t" "wf_img u"
    "\<forall>x y. inside t x y \<longrightarrow> cell u (x, y) =
       (if (low \<le> f (shown t x y) \<and> f (shown t x y) \<le> high) = True then cell t (x, y) else PixelL 0)"
    using keep_range_cells [OF t(2)] by blast
  have "cell u (x, y) = (if P x y \<and> low \<le> f (shown im x y) \<and> f (shown im x y) \<le> high
      then cell im (x, y) else PixelL 0)" if xy: "inside im x y" for x y
  proof (cases "P x y")
    case True
    with cells xy have "cell t (x, y) = cell im (x, y)" by simp
    with True u(4) xy show ?thesis
      using shown_same [OF t(1)] inside_shape [OF t(1)] by simp
  next
    case False
    with cells xy have c: "cell t (x, y) = PixelL 0" by simp
    with dark_shown have "f (shown t x y) = 0" by (intro f)
    with False c low u(4) xy show ?thesis using inside_shape [OF t(1)] by simp
  qed
  with u(1-3) t(1) show ?thesis by (intro exI [of _ u]) simp
qed

lemma Range_ok:
  assumes wf: "wf_img im"
  shows "\<exists>t. Range im = Inr t \<and> shape_of t = shape_of im \<and> wf_img t \<and>
    (\<forall>x y. inside im x y \<longrightarrow> cell t (x, y) = (if skin (shown im x y) then PixelL 255 else PixelL 0))"
proof -
  let ?H = "\<lambda>x y. \<not> (25 \<le> Pixel_H (shown im x y) \<and> Pixel_H (shown im x y) \<le> 210)"
  let ?S = "\<lambda>x y. ?H x y \<and> 3 \<le> uint (Pixel_S (shown im x y)) \<and> uint (Pixel_S (shown im x y)) \<le> 55"
  let ?V = "\<lambda>x y. ?S x y \<and> 30 \<le> uint (Pixel_V (shown im x y)) \<and> uint (Pixel_V (shown im x y)) \<le> 100"
  obtain a where a: "keep_range Pixel_H 25 210 False im = Inr a" "shape_of a = shape_of im" "wf_img a"
    "\<forall>x y. inside im x y \<longrightarrow> cell a (x, y) = (if ?H x y then cell im (x, y) else PixelL 0)"
    using keep_range_cells [OF wf, of Pixel_H 25 210 False] by auto
  obtain b where b: "keep_range (\<lambda>p. uint (Pixel_S p)) 3 55 True a = Inr b" "shape_of b = shape_of im" "wf_img b"
    "\<forall>x y. inside im x y \<longrightarrow> cell b (x, y) = (if ?S x y then cell im (x, y) else PixelL 0)"
    using keep_range_after [OF a(2-4), of "\<lambda>p. uint (Pixel_S p)" 3 55] dark_no_skin by auto
  obtain c where c: "keep_range (\<lambda>p. uint (Pixel_V p)) 30 100 True b = Inr c" "shape_of c = shape_of im" "wf_img c"
    "\<forall>x y. inside im x y \<longrightarrow> cell c (x, y) = (if ?V x y then cell im (x, y) else PixelL 0)"
    using keep_range_after [OF b(2-4), of "\<lambda>p. uint (Pixel_V p)" 30 100] dark_no_skin by auto
  obtain t where t: "Binarize 1 c = Inr (0, t)" "shape_of t = shape_of c" "wf_img t"
    "\<forall>x y. inside c x y \<longrightarrow> cell t (x, y) = binary_at 1 (shown c x y)"
    using Binarize_cells [OF c(3), of 1] by auto
  have "cell t (x, y) = (if skin (shown im x y) then PixelL 255 else PixelL 0)" if xy: "inside im x y" for x y
  proof (cases "?V x y")
    case True
    with c(4) xy have "cell c (x, y) = cell im (x, y)" by simp
    then show ?thesis
      using True t(4) xy shown_same [OF c(2)] inside_shape [OF c(2)] by (simp add: binary_at_def skin_def)
  next
    case False
    have "cell c (x, y) = PixelL 0" by (simp only: c(4) [rule_format, OF xy] if_not_P [OF False])
    then have "dark (shown c x y)" by (rule dark_shown)
    then have "uint (Lightness (shown c x y)) = 0" by (simp add: dark_def Lightness_def)
    moreover have "\<not> skin (shown im x y)" using False unfolding skin_def by blast
    ultimately show ?thesis using t(4) xy inside_shape [OF c(2)] by (simp add: binary_at_def)
  qed
  moreover have "Range im = Inr t"
    using a(1) b(1) c(1) t(1) by (simp add: Range_def HRange_def SRange_def VRange_def limit_def)
  ultimately show ?thesis using t(2,3) c(2) by auto
qed

text \<open>The skin extraction makes exactly the skin-coloured pixels white and all others black.
  Skin is a hue outside 25 to 210 degrees, a saturation of 3 to 55 and a value of at least 30;
  the upper bound of 80 the source declares for the value is not applied (the call passes
  the upper bound of the hue, which the limit to 100 makes no bound at all).\<close>

theorem Range_skin:
  assumes "wf_img im"
  shows "\<exists>t. Range im = Inr t \<and> shape_of t = shape_of im \<and>
    (\<forall>x y. inside im x y \<longrightarrow> cell t (x, y) = (if skin (shown im x y) then PixelL 255 else PixelL 0))"
  using Range_ok [OF assms] by blast

lemma unit_channels: "unit_channel 0 = Fin 0" "unit_channel 255 = Fin 1"
  "unit_channel 204 = Fin (3602879701896397 / 4503599627370496)"
  by code_simp+

lemma sample_tones:
  "Pixel_S (PixelRGB 255 204 204) = 19" "Pixel_V (PixelRGB 255 204 204) = 100"
  "Pixel_S (PixelRGB 0 0 255) = 100" "Pixel_H (PixelRGB 255 204 204) = 0"
proof -
  let ?p = "PixelRGB 255 204 204" and ?q = "PixelRGB 0 0 255"
  have "max_unit ?p = Fin 1" "min_unit ?p = Fin (3602879701896397 / 4503599627370496)"
    "max_unit ?q = Fin 1" "min_unit ?q = Fin 0"
    by (simp_all add: max_unit_def min_unit_def unit_channels)
  moreover have
    "fp_to_byte (fp_mul F64 (fp_div F64 (fp_sub F64 (Fin 1) (Fin (3602879701896397 / 4503599627370496))) (Fin 1))
       (fp_of_int F64 100)) = 19"
    "fp_to_byte (fp_mul F64 (Fin 1) (fp_of_int F64 100)) = 100"
    "fp_to_byte (fp_mul F64 (fp_div F64 (fp_sub F64 (Fin 1) (Fin 0)) (Fin 1)) (fp_of_int F64 100)) = 100"
    by code_simp+
  ultimately show "Pixel_S ?p = 19" "Pixel_V ?p = 100" "Pixel_S ?q = 100"
    by (simp_all add: Pixel_S_def Pixel_V_def Let_def fp_eq_def)
  show "Pixel_H ?p = 0" by code_simp
qed

text \<open>A light skin tone and a blue.\<close>

definition skin_img :: bi_image where
  "skin_img = \<lparr>mimage = [PixelRGB 255 204 204, PixelRGB 0 0 255], clearColor = Pixel0, width = 2, height = 1\<rparr>"

theorem Range_skin_witness:
  "\<exists>t. Range skin_img = Inr t \<and> cell t (0, 0) = PixelL 255 \<and> cell t (1, 0) = PixelL 0"
proof -
  have wf: "wf_img skin_img" by (simp add: wf_img_def skin_img_def int32_def)
  have sh: "shown skin_img 0 0 = PixelRGB 255 204 204" "shown skin_img 1 0 = PixelRGB 0 0 255"
    by (simp_all add: skin_img_def shown_def cell_def view_def pix_eq_Pixel0 PixelRGB_def setRed_def setGreen_def
      setBlue_def pix_eq_def)
  have "Lightness (PixelRGB 255 204 204) = 221" by code_simp
  then have s: "skin (shown skin_img 0 0)" "\<not> skin (shown skin_img 1 0)"
    by (simp_all add: sh skin_def sample_tones)
  show ?thesis
    using Range_skin [OF wf] s by (auto simp: skin_img_def inside_def)
qed
subsection \<open>Hand detection stays inside the picture\<close>

lemma times_keeps:
  assumes "P im" and "\<And>im. P im \<Longrightarrow> \<exists>t. f im = Inr t \<and> P t"
  shows "\<exists>t. times n f im = Inr t \<and> P t"
  unfolding times_def by (rule foldM_invariant [of P]) (use assms in auto)

text \<open>A well-formed image of a given size.\<close>

definition sized :: "int \<Rightarrow> int \<Rightarrow> bi_image \<Rightarrow> bool" where
  "sized w h im \<longleftrightarrow> wf_img im \<and> width im = w \<and> height im = h"

lemma AntiNoise_sized:
  assumes "sized w h im"
  shows "\<exists>t. AntiNoise n im = Inr t \<and> sized w h t"
proof -
  have step: "\<exists>t. Shrink im = Inr t \<and> sized w h t" "\<exists>t. Expand im = Inr t \<and> sized w h t"
    if "sized w h im" for im
    using that Shrink_cells [of im] Expand_cells [of im] by (auto simp: sized_def)
  obtain s where s: "times (s32 n) Shrink im = Inr s" "sized w h s"
    using times_keeps [where f = Shrink and P = "sized w h", OF assms step(1)] by blast
  obtain t where "times (s32 n) Expand s = Inr t" "sized w h t"
    using times_keeps [where f = Expand and P = "sized w h", OF s(2) step(2)] by blast
  with s(1) show ?thesis by (simp add: AntiNoise_def Opening_def)
qed

definition unlabelled :: "bi_image \<Rightarrow> bool" where
  "unlabelled im \<longleftrightarrow> (\<forall>x y. inside im x y \<longrightarrow> plabel (cell im (x, y)) = 0)"

lemma spread_unlabelled:
  assumes "unlabelled im" "inside im x y"
  shows "plabel (spread keep level im x y) = 0"
  using assms by (auto simp: spread_def unlabelled_def shown_def view_def initialize_def)

lemma AntiNoise_1:
  assumes "sized w h im" "unlabelled im"
  shows "\<exists>t. AntiNoise 1 im = Inr t \<and> sized w h t \<and> unlabelled t \<and> clearColor t = Pixel0"
proof -
  have ins: "inside t x y = inside im x y" if "width t = width im" "height t = height im" for t x y
    using that by (simp add: inside_def)
  obtain s where s: "Shrink im = Inr s" "sized w h s" "unlabelled s"
    using Shrink_cells [of im] assms(1) spread_unlabelled [OF assms(2)]
    by (auto simp: sized_def unlabelled_def inside_def)
  obtain t where "Expand s = Inr t" "sized w h t" "unlabelled t" "clearColor t = Pixel0"
    using Expand_cells [of s] s(2) spread_unlabelled [OF s(3)]
    by (auto simp: sized_def unlabelled_def inside_def)
  moreover have "[0..s32 1 - 1] = [0]" by (simp add: int32_def upto_rec1)
  ultimately show ?thesis using s(1) by (simp add: AntiNoise_def Opening_def times_def)
qed

lemma getNodeList_inside:
  assumes "sized w h im" "0 < w" "0 < h"
  shows "\<exists>pts. getNodeList im n = Inr pts \<and> list_all (\<lambda>p. inside im (px p) (py p)) pts"
proof -
  have wf: "wf_img im" using assms(1) by (simp add: sized_def)
  have conn: "\<exists>k. getConnectedNum im x y = Inr k" if xy: "inside im x y" for x y
  proof -
    have "Get im (x + i) (y + j) = Inr (shown im ((x + i) mod width im) ((y + j) mod height im))"
      if "(j, i) \<in> set (win 1)" for i j
      using that xy assms by (intro Get_torus) (auto simp: set_win sized_def inside_def)
    then have "\<exists>k. foldM (\<lambda>(j, i) count. if i = 0 \<and> j = 0 then Inr count
        else rbind (Get im (x + i) (y + j)) (\<lambda>p.
          if pix_eq p (PixelI 0) then Inr count else Inr (count + 1))) (win 1) (0 :: int) = Inr k \<and> True"
      by (intro foldM_invariant) auto
    then show ?thesis by (simp add: getConnectedNum_def)
  qed
  show ?thesis unfolding getNodeList_def for_each_def
  proof (rule foldM_invariant)
    fix q and pts :: "point list"
    assume *: "q \<in> set (raster (width im) (height im))" "list_all (\<lambda>p. inside im (px p) (py p)) pts"
    obtain x y where q: "q = (x, y)" by (cases q)
    have xy: "inside im x y" using *(1) q by (simp add: set_raster_inside)
    obtain k where "getConnectedNum im x y = Inr k" using conn [OF xy] by blast
    then show "\<exists>s'. (case q of (i, j) \<Rightarrow> \<lambda>pts. rbind (Get im i j) (\<lambda>p.
        if pix_eq p (PixelI 0) then Inr pts else rbind (getConnectedNum im i j) (\<lambda>m.
          if m = n then Inr (pts @ [Pos i j]) else Inr pts))) pts = Inr s' \<and>
      list_all (\<lambda>p. inside im (px p) (py p)) s'"
      using q *(2) xy Get_shown [OF wf xy] by (simp add: Pos_def)
  qed simp
qed

text \<open>The two ends of the white pixels on one axis, after some of them: none yet, or in order.\<close>

definition ends :: "int \<Rightarrow> int \<Rightarrow> int \<Rightarrow> bool" where
  "ends n lo hi \<longleftrightarrow> lo = n \<and> hi = 0 \<or> 0 \<le> lo \<and> lo \<le> hi \<and> hi < n"

lemma ends_step:
  assumes "ends n lo hi" "0 \<le> i" "i < n"
  shows "ends n (if i < lo then i else lo) (if hi < i then i else hi)"
  using assms by (auto simp: ends_def)

lemma ends_middle:
  assumes "ends n lo hi" "2 \<le> n" "n < 2 ^ 31"
  shows "0 \<le> s32 (lo + s32 (hi - lo) sdiv 2)" "s32 (lo + s32 (hi - lo) sdiv 2) < n"
proof -
  have d: "s32 (hi - lo) = hi - lo" using assms by (intro s32_id) (auto simp: ends_def int32_def)
  have half: "(hi - lo) sdiv 2 = (if lo \<le> hi then (hi - lo) div 2 else - ((lo - hi) div 2))"
    by (auto simp: signed_divide_int_def sgn_if)
  have "0 \<le> lo + (hi - lo) sdiv 2 \<and> lo + (hi - lo) sdiv 2 < n"
    using assms unfolding half ends_def by auto
  then show "0 \<le> s32 (lo + s32 (hi - lo) sdiv 2)" "s32 (lo + s32 (hi - lo) sdiv 2) < n"
    using assms(3) unfolding d by (simp_all add: int32_def)
qed

lemma Scope_ends:
  assumes "wf_img im"
  shows "\<exists>l r t b. Scope im = Inr \<lparr>mx = l, my = t, mwidth = s32 (r - l), mheight = s32 (b - t)\<rparr> \<and>
    ends (width im) l r \<and> ends (height im) t b"
proof -
  let ?P = "\<lambda>(t, b, l, r). ends (width im) l r \<and> ends (height im) t b"
  have "\<exists>s. for_each im (\<lambda>i j (top, bottom, left, right). rbind (Get im i j) (\<lambda>p.
      if pix_eq p (PixelI 255)
      then Inr (if j < top then j else top, if bottom < j then j else bottom,
                if i < left then i else left, if right < i then i else right)
      else Inr (top, bottom, left, right))) (height im, 0, width im, 0) = Inr s \<and> ?P s"
    unfolding for_each_def
  proof (rule foldM_invariant)
    show "?P (height im, 0, width im, 0)" by (simp add: ends_def)
  next
    fix q s assume *: "q \<in> set (raster (width im) (height im))" "?P s"
    obtain x y where q: "q = (x, y)" by (cases q)
    obtain t b l r where s: "s = (t, b, l, r)" by (cases s) auto
    have xy: "inside im x y" using *(1) q by (simp add: set_raster_inside)
    then show "\<exists>s'. (case q of (i, j) \<Rightarrow> \<lambda>(top, bottom, left, right). rbind (Get im i j) (\<lambda>p.
        if pix_eq p (PixelI 255)
        then Inr (if j < top then j else top, if bottom < j then j else bottom,
                  if i < left then i else left, if right < i then i else right)
        else Inr (top, bottom, left, right))) s = Inr s' \<and> ?P s'"
      using *(2) q s ends_step [of "width im" l r x] ends_step [of "height im" t b y]
      by (simp add: Get_shown [OF assms] inside_def)
  qed
  then obtain s where "for_each im (\<lambda>i j (top, bottom, left, right). rbind (Get im i j) (\<lambda>p.
      if pix_eq p (PixelI 255)
      then Inr (if j < top then j else top, if bottom < j then j else bottom,
                if i < left then i else left, if right < i then i else right)
      else Inr (top, bottom, left, right))) (height im, 0, width im, 0) = Inr s" "?P s"
    by blast
  moreover obtain t b l r where "s = (t, b, l, r)" by (cases s) auto
  ultimately have loop: "for_each im (\<lambda>i j (top, bottom, left, right). rbind (Get im i j) (\<lambda>p.
      if pix_eq p (PixelI 255)
      then Inr (if j < top then j else top, if bottom < j then j else bottom,
                if i < left then i else left, if right < i then i else right)
      else Inr (top, bottom, left, right))) (height im, 0, width im, 0) = Inr (t, b, l, r)"
    "?P (t, b, l, r)"
    by simp_all
  have "Scope im = Inr \<lparr>mx = l, my = t, mwidth = s32 (r - l), mheight = s32 (b - t)\<rparr>"
    unfolding Scope_def loop(1) by (simp add: area_Size_def area_Pos_def Area0_def)
  with loop(2) show ?thesis by blast
qed

lemma add_fingers_inside:
  "list_all (\<lambda>p. inside im (px p) (py p)) fs \<Longrightarrow> inside im x y \<Longrightarrow>
    list_all (\<lambda>p. inside im (px p) (py p)) (add_fingers pts x y fs)"
  by (induction pts arbitrary: fs) (auto simp: add_fingers_def Pos_def)

lemma fingers_inside:
  assumes "wf_img temp"
  shows "\<exists>fs. for_each temp (\<lambda>x y fingers. rbind (Get temp x y) (\<lambda>p.
      if pix_neq p (PixelI 0) then Inr fingers else Inr (add_fingers pts x y fingers))) [] = Inr fs \<and>
    list_all (\<lambda>p. inside temp (px p) (py p)) fs"
  unfolding for_each_def
proof (rule foldM_invariant)
  fix q and fs :: "point list"
  assume *: "q \<in> set (raster (width temp) (height temp))" "list_all (\<lambda>p. inside temp (px p) (py p)) fs"
  obtain x y where q: "q = (x, y)" by (cases q)
  have xy: "inside temp x y" using *(1) q by (simp add: set_raster_inside)
  then show "\<exists>s'. (case q of (i, j) \<Rightarrow> \<lambda>fingers. rbind (Get temp i j) (\<lambda>p.
      if pix_neq p (PixelI 0) then Inr fingers else Inr (add_fingers pts i j fingers))) fs = Inr s' \<and>
    list_all (\<lambda>p. inside temp (px p) (py p)) s'"
    using q *(2) add_fingers_inside [OF *(2) xy] by (simp add: Get_shown [OF assms])
qed simp

text \<open>What labelling finds: a label somewhere exactly when a pixel off the border is white.\<close>

definition has_object :: "bi_image \<Rightarrow> bool" where
  "has_object im \<longleftrightarrow> (\<exists>(x, y) \<in> set (interior im). Lightness (shown im x y) = 255)"

lemma Labeling_labels:
  assumes "sized w h im" "0 < w" "0 < h" "unlabelled im" "clearColor im = Pixel0"
  shows "\<exists>n t. Labeling im = Inr (n, t) \<and> sized w h t \<and>
    ((\<exists>l. l \<noteq> 0 \<and> with_label t l \<noteq> {}) \<longleftrightarrow> has_object im)"
proof -
  obtain n t where t: "Labeling im = Inr (n, t)" "shape_of t = shape_of im"
    and c: "\<And>x y. inside im x y \<Longrightarrow> (if (x, y) \<in> set (interior im) \<and> Lightness (shown im x y) = 255
        then \<exists>l. 1 \<le> l \<and> l < n \<and> cell t (x, y) = setLabel l (shown im x y)
        else cell t (x, y) = cell im (x, y))"
    using Labeling_ok [of im] assms(1-3) by (auto simp: sized_def)
  have lab: "plabel (shown t x y) \<noteq> 0 \<longleftrightarrow> (x, y) \<in> set (interior im) \<and> Lightness (shown im x y) = 255"
    if xy: "inside im x y" for x y
  proof (cases "(x, y) \<in> set (interior im) \<and> Lightness (shown im x y) = 255")
    case True
    then obtain l where "1 \<le> l" "cell t (x, y) = setLabel l (shown im x y)"
      using c [OF xy] by auto
    then have "shown t x y = setLabel l (shown im x y)" "l \<noteq> 0"
      using t(2) assms(5) by (simp_all add: shown_def view_def shape_eq pix_eq_def setLabel_def initialize_def)
    with True show ?thesis by (simp add: setLabel_def)
  next
    case False
    with c [OF xy] have "cell t (x, y) = cell im (x, y)" by (simp only: if_False)
    moreover have "plabel (cell im (x, y)) = 0" using assms(4) xy by (simp add: unlabelled_def)
    ultimately have "plabel (shown t x y) = 0" using plabel_shown_cell [of t x y] by force
    with False show ?thesis by blast
  qed
  have "(\<exists>l. l \<noteq> 0 \<and> with_label t l \<noteq> {}) \<longleftrightarrow> has_object im"
    using lab inside_shape [OF t(2)] interior_inside [of _ _ im]
    by (fastforce simp: with_label_def has_object_def)
  moreover have "sized w h t"
    using assms(1) t(2) wf_shape [OF t(2)] by (simp add: sized_def shape_eq)
  ultimately show ?thesis using t(1) by blast
qed

lemma SamplingHand_object:
  assumes "sized w h im" "0 < w" "0 < h" "AntiNoise 1 im = Inr an" "has_object an" "sized w h an"
    and "Labeling an = Inr (n, t1)" "sized w h t1" "\<exists>l. l \<noteq> 0 \<and> with_label t1 l \<noteq> {}"
  shows "\<exists>hand t. SamplingHand im = Inr (hand, t) \<and> sized w h t \<and>
    inside im (px (palm_center_point hand)) (py (palm_center_point hand)) \<and>
    list_all (\<lambda>p. inside im (px p) (py p)) (finger_point_list hand)"
proof -
  have wf1: "wf_img t1" using assms(8) by (simp add: sized_def)
  have "\<not> (\<forall>l. l \<noteq> 0 \<longrightarrow> with_label t1 l = {})" using assms(9) by blast
  from SamplingLargeObject_ok [OF wf1, unfolded if_not_P [OF this]] obtain l t2 where
    t2: "SamplingLargeObject t1 = Inr (l, t2)" "shape_of t2 = shape_of t1" "wf_img t2" by blast
  have s2: "sized w h t2" using t2(2,3) assms(8) by (simp add: sized_def shape_eq)
  obtain temp0 where p0: "assign init t2 = Inr temp0" "sized w h temp0"
    using assign_ok [OF wf_init t2(3)] s2 by (auto simp: sized_def)
  obtain temp where p: "AntiNoise 5 temp0 = Inr temp" "sized w h temp"
    using AntiNoise_sized [OF p0(2)] by blast
  obtain k t3 where t3: "Thinning t2 = Inr (k, t3)" "sized w h t3"
    using Thinning_ok [OF t2(3)] s2 by (auto simp: sized_def)
  obtain pts where pts: "getNodeList t3 1 = Inr pts"
    using getNodeList_inside [OF t3(2) assms(2,3)] by blast
  have wfp: "wf_img temp" using p(2) by (simp add: sized_def)
  obtain lo r up b where a: "Scope temp = Inr \<lparr>mx = lo, my = up, mwidth = s32 (r - lo), mheight = s32 (b - up)\<rparr>"
    "ends (width temp) lo r" "ends (height temp) up b"
    using Scope_ends [OF wfp] by blast
  obtain fs where fs: "for_each temp (\<lambda>x y fingers. rbind (Get temp x y) (\<lambda>p.
      if pix_neq p (PixelI 0) then Inr fingers else Inr (add_fingers pts x y fingers))) [] = Inr fs"
    "list_all (\<lambda>p. inside temp (px p) (py p)) fs"
    using fingers_inside [OF wfp] by blast
  let ?palm = "palm_center \<lparr>mx = lo, my = up, mwidth = s32 (r - lo), mheight = s32 (b - up)\<rparr>"
  have "2 \<le> width temp" "2 \<le> height temp"
    using assms(5,6) p(2) by (auto simp: has_object_def set_interior sized_def)
  moreover have "width temp < 2 ^ 31" "height temp < 2 ^ 31"
    using int32_extent [OF wfp] p(2) assms(2,3) by (simp_all add: sized_def)
  ultimately have "inside temp (px ?palm) (py ?palm)"
    using ends_middle [OF a(2)] ends_middle [OF a(3)] by (simp add: palm_center_def Pos_def inside_def)
  moreover have "SamplingHand im = Inr (\<lparr>palm_center_point = ?palm, finger_point_list = fs, hand_area = l\<rparr>, t3)"
    unfolding SamplingHand_def
    by (simp only: assms(4,7) t2(1) p0(1) p(1) t3(1) pts a(1) fs(1) rbind_Inr prod.case)
  moreover have "inside temp x y = inside im x y" for x y
    using assms(1) p(2) by (simp add: inside_def sized_def)
  ultimately show ?thesis using t3(2) fs(2) by auto
qed

lemma SamplingHand_ok:
  assumes "sized w h im" "0 < w" "0 < h" "unlabelled im"
  shows "\<exists>an. AntiNoise 1 im = Inr an \<and>
    (if has_object an
     then \<exists>hand t. SamplingHand im = Inr (hand, t) \<and> sized w h t \<and>
       inside im (px (palm_center_point hand)) (py (palm_center_point hand)) \<and>
       list_all (\<lambda>p. inside im (px p) (py p)) (finger_point_list hand)
     else SamplingHand im = Inl Uninit)"
proof -
  obtain an where an: "AntiNoise 1 im = Inr an" "sized w h an" "unlabelled an" "clearColor an = Pixel0"
    using AntiNoise_1 [OF assms(1,4)] by blast
  obtain n t1 where t1: "Labeling an = Inr (n, t1)" "sized w h t1"
    "(\<exists>l. l \<noteq> 0 \<and> with_label t1 l \<noteq> {}) \<longleftrightarrow> has_object an"
    using Labeling_labels [OF an(2) assms(2,3) an(3,4)] by blast
  have wf1: "wf_img t1" using t1(2) by (simp add: sized_def)
  show ?thesis
  proof (cases "has_object an")
    case False
    then have "\<forall>l. l \<noteq> 0 \<longrightarrow> with_label t1 l = {}" using t1(3) by blast
    then have "SamplingLargeObject t1 = Inl Uninit"
      using SamplingLargeObject_ok [OF wf1] by simp
    then show ?thesis using False an(1) t1(1) by (simp add: SamplingHand_def)
  next
    case True
    then show ?thesis
      using SamplingHand_object [OF assms(1-3) an(1) True an(2) t1(1,2)] t1(3) an(1) by simp
  qed
qed

text \<open>Hand detection on an image without labels reads nothing outside it. When the image has a
  white pixel off the border once the noise is removed, it ends with a hand whose palm centre
  and fingers lie inside the picture; otherwise the source goes on with an object number
  that was never set.\<close>

theorem SamplingHand_safe:
  assumes "wf_img im" "0 < width im" "0 < height im" "list_all (\<lambda>p. plabel p = 0) (mimage im)"
  shows "\<exists>an. AntiNoise 1 im = Inr an \<and>
    (if has_object an
     then \<exists>hand t. SamplingHand im = Inr (hand, t) \<and> width t = width im \<and> height t = height im \<and>
       inside im (px (palm_center_point hand)) (py (palm_center_point hand)) \<and>
       list_all (\<lambda>p. inside im (px p) (py p)) (finger_point_list hand)
     else SamplingHand im = Inl Uninit)"
proof -
  have "unlabelled im"
    using assms(4) inside_length [OF assms(1)] by (auto simp: unlabelled_def list_all_length cell_def nat_less_iff)
  moreover have "sized (width im) (height im) im" using assms(1) by (simp add: sized_def)
  ultimately show ?thesis
    using SamplingHand_ok [of "width im" "height im" im] assms(2,3) by (fastforce simp: sized_def)
qed

text \<open>A white square, which the noise removal leaves as it is.\<close>

definition white_img :: bi_image where
  "white_img = \<lparr>mimage = replicate 9 (PixelL 255), clearColor = Pixel0, width = 3, height = 3\<rparr>"

theorem SamplingHand_safe_witness:
  "\<exists>hand t. SamplingHand white_img = Inr (hand, t) \<and> width t = 3 \<and>
     inside white_img (px (palm_center_point hand)) (py (palm_center_point hand))"
proof -
  have a: "AntiNoise 1 white_img = Inr white_img" by code_simp
  have h: "has_object white_img" by code_simp
  have "wf_img white_img" "0 < width white_img" "0 < height white_img" "width white_img = 3"
    "list_all (\<lambda>p. plabel p = 0) (mimage white_img)"
    by (simp_all add: white_img_def wf_img_def int32_def list_all_iff)
  then show ?thesis
    using SamplingHand_safe [of white_img] h unfolding a by auto
qed

subsection \<open>Drawing\<close>

lemma put_block_ok:
  assumes "wf_img out" "inside out (px p) (py p)"
  shows "\<exists>t. put_block p c out = Inr t \<and> shape_of t = shape_of out"
  unfolding put_block_def
proof (rule foldM_invariant)
  fix j t assume *: "j \<in> set [0..8]" "shape_of t = shape_of out"
  have pos: "0 < width out" "0 < height out" using assms(2) by (auto simp: inside_def)
  note lt = int32_extent [OF assms(1) pos]
  have j: "0 \<le> j mod 3" "j mod 3 \<le> 2" "0 \<le> j div 3" "j div 3 \<le> 2" using *(1) by auto
  have s: "s32 (px p + j mod 3 - 1) = px p + j mod 3 - 1" "s32 (py p + j div 3 - 1) = py p + j div 3 - 1"
    using lt assms(2) j by (auto intro!: s32_id simp: int32_def inside_def)
  have dims: "width t = width out" "height t = height out" using *(2) by (simp_all add: shape_eq)
  have "Put (px p + j mod 3 - 1) (py p + j div 3 - 1) c t =
      Inr (set_cell t ((px p + j mod 3 - 1) mod width t, (py p + j div 3 - 1) mod height t) c)"
    using wf_shape [OF *(2) assms(1)] pos dims assms(2) j by (intro Put_torus) (auto simp: inside_def)
  then show "\<exists>s'. Put (s32 (px p + j mod 3 - 1)) (s32 (py p + j div 3 - 1)) c t = Inr s' \<and>
      shape_of s' = shape_of out"
    unfolding s using *(2) by (simp add: bi.shape_wr)
qed simp

text \<open>A point of the small picture, doubled, lies in the large one.\<close>

definition doubled_in :: "bi_image \<Rightarrow> point \<Rightarrow> bool" where
  "doubled_in out p \<longleftrightarrow> inside out (2 * px p) (2 * py p)"

lemma doubled_pos:
  assumes "wf_img out" "doubled_in out p"
  shows "pt_mul_assign 2 p = Pos (2 * px p) (2 * py p)"
proof -
  have "0 < width out" "0 < height out" using assms(2) by (auto simp: doubled_in_def inside_def)
  note int32_extent [OF assms(1) this]
  then show ?thesis
    using assms(2) by (simp add: pt_mul_assign_def pt_muli_def doubled_in_def inside_def int32_def mult.commute)
qed

lemma draw_finger_ok:
  assumes wf: "wf_img im" and c: "inside im (px (pt0 l)) (py (pt0 l))" and p: "doubled_in im p"
  shows "\<exists>l' t. draw_finger p (l, im) = Inr (l', t) \<and> pt0 l' = pt0 l \<and> shape_of t = shape_of im"
proof -
  let ?p = "Pos (2 * px p) (2 * py p)" and ?l = "line_End (2 * px p) (2 * py p) l"
  have "inside im (px (pt0 ?l)) (py (pt0 ?l))" "inside im (px (pt1 ?l)) (py (pt1 ?l))"
    using c p by (simp_all add: line_End_def Pos_def doubled_in_def)
  from line_Draw_ok [OF wf this] obtain t where t: "line_Draw ?l im = Inr t" "shape_of t = shape_of im"
    by blast
  have "inside t (px ?p) (py ?p)" using p by (simp add: inside_shape [OF t(2)] doubled_in_def Pos_def)
  from put_block_ok [OF wf_shape [OF t(2) wf] this] obtain u where
    "put_block ?p (PixelRGB 0 0 255) t = Inr u" "shape_of u = shape_of t" by blast
  then show ?thesis
    using t by (simp add: draw_finger_def Let_def doubled_pos [OF wf p] line_End_def Pos_def)
qed

lemma DrawPointList_ok:
  assumes wf: "wf_img out" and c: "doubled_in out (palm_center_point hand)"
    and fs: "list_all (doubled_in out) (finger_point_list hand)"
  shows "\<exists>t. DrawPointList im hand out = Inr t \<and> shape_of t = shape_of out"
proof -
  let ?c = "Pos (2 * px (palm_center_point hand)) (2 * py (palm_center_point hand))"
  let ?l = "line_Start (px ?c) (py ?c) (line_Color (PixelRGB 0 255 0) Line0)"
  let ?P = "\<lambda>(l :: line, t :: bi_image). pt0 l = ?c \<and> shape_of t = shape_of out"
  have "\<exists>s. foldM draw_finger (finger_point_list hand) (?l, out) = Inr s \<and> ?P s"
  proof (rule foldM_invariant)
    show "?P (?l, out)" by (simp add: line_Start_def Pos_def)
  next
    fix p s assume *: "p \<in> set (finger_point_list hand)" "?P s"
    obtain l t where s: "s = (l, t)" by (cases s)
    have sh: "shape_of t = shape_of out" and l: "pt0 l = ?c" using *(2) s by simp_all
    have "doubled_in t p" "inside t (px (pt0 l)) (py (pt0 l))"
      using fs *(1) c l by (auto simp: list_all_iff doubled_in_def inside_shape [OF sh] Pos_def)
    from draw_finger_ok [OF wf_shape [OF sh wf] this(2,1)] show "\<exists>s'. draw_finger p s = Inr s' \<and> ?P s'"
      using sh l s by auto
  qed
  then obtain l t where t: "foldM draw_finger (finger_point_list hand) (?l, out) = Inr (l, t)"
    "shape_of t = shape_of out" by auto
  have "inside t (px ?c) (py ?c)" using c by (simp add: inside_shape [OF t(2)] doubled_in_def Pos_def)
  from put_block_ok [OF wf_shape [OF t(2) wf] this] show ?thesis
    using t by (auto simp: DrawPointList_def Let_def doubled_pos [OF wf c])
qed

text \<open>After the skin extraction no pixel has a label.\<close>

lemma Range_unlabelled:
  assumes "sized w h im"
  shows "\<exists>t. Range im = Inr t \<and> sized w h t \<and> unlabelled t"
proof -
  obtain t where t: "Range im = Inr t" "shape_of t = shape_of im" "wf_img t"
    "\<forall>x y. inside im x y \<longrightarrow> cell t (x, y) = (if skin (shown im x y) then PixelL 255 else PixelL 0)"
    using Range_ok [of im] assms by (auto simp: sized_def)
  have "unlabelled t" using t(4) by (simp add: unlabelled_def inside_shape [OF t(2)])
  then show ?thesis using t assms by (auto simp: sized_def shape_eq)
qed

lemma WindowUpdate_ok:
  assumes cam: "sized 320 240 camera" and wf: "wf_img background" "wf_img temp"
  shows "\<exists>small an. rbind (assign background camera) (\<lambda>b. rbind (assign temp b)
      (\<lambda>t. rbind (Size 160 120 t) Range)) = Inr small \<and> sized 160 120 small \<and> AntiNoise 1 small = Inr an \<and>
    (if has_object an
     then \<exists>out t. WindowUpdate camera background temp = Inr (out, t) \<and> sized 320 240 out \<and> sized 160 120 t
     else WindowUpdate camera background temp = Inl Uninit)"
proof -
  obtain b where b: "assign background camera = Inr b" "sized 320 240 b"
    using assign_ok [OF wf(1), of camera] cam by (auto simp: sized_def)
  obtain t where t: "assign temp b = Inr t" "sized 320 240 t"
    using assign_ok [OF wf(2), of b] b(2) by (auto simp: sized_def)
  obtain u where u: "Size 160 120 t = Inr u" "sized 160 120 u"
    using Size_ok [of t 160 120] t(2) by (auto simp: sized_def)
  obtain v where v: "Range u = Inr v" "sized 160 120 v" "unlabelled v"
    using Range_unlabelled [OF u(2)] by blast
  obtain an where an: "AntiNoise 1 v = Inr an"
    "if has_object an
     then \<exists>hand t. SamplingHand v = Inr (hand, t) \<and> sized 160 120 t \<and>
       inside v (px (palm_center_point hand)) (py (palm_center_point hand)) \<and>
       list_all (\<lambda>p. inside v (px p) (py p)) (finger_point_list hand)
     else SamplingHand v = Inl Uninit"
    using SamplingHand_ok [OF v(2) _ _ v(3)] by auto
  have dbl: "doubled_in b p" if "inside v (px p) (py p)" for p
    using that v(2) b(2) by (auto simp: doubled_in_def inside_def sized_def)
  have "if has_object an
     then \<exists>out t. WindowUpdate camera background temp = Inr (out, t) \<and> sized 320 240 out \<and> sized 160 120 t
     else WindowUpdate camera background temp = Inl Uninit"
  proof (cases "has_object an")
    case True
    then obtain hand t' where h: "SamplingHand v = Inr (hand, t')" "sized 160 120 t'"
      "doubled_in b (palm_center_point hand)" "list_all (doubled_in b) (finger_point_list hand)"
      using an(2) dbl by (auto simp: list_all_iff)
    have wfb: "wf_img b" using b(2) by (simp add: sized_def)
    obtain out where o: "DrawPointList t' hand b = Inr out" "shape_of out = shape_of b"
      using DrawPointList_ok [OF wfb h(3,4)] by blast
    then have "sized 320 240 out" using b(2) wf_shape [OF o(2)] by (simp add: sized_def shape_eq)
    then show ?thesis
      using True h(2) by (simp add: WindowUpdate_def b(1) t(1) u(1) v(1) h(1) o(1))
  next
    case False
    then show ?thesis using an(2) by (simp add: WindowUpdate_def b(1) t(1) u(1) v(1))
  qed
  then show ?thesis using b(1) t(1) u(1) v(1,2) an(1) by auto
qed

end
