(* ===== verification/Session.thy ===== *)
theory Session
  imports Sockets
begin

















subsection \<open>Where the two programs can be\<close>












subsection \<open>Where the two programs end\<close>



























end
