(* ===== verification/Sound.thy ===== *)
theory Sound
  imports OrderedMap "HOL-Library.Word"
begin

text \<open>
  Sounds (\<open>src/SoundClass.cpp\<close>): each object plays a device of the Windows media interface, and a
  static map, shared by all objects, gives the device a file has been opened on. The media
  interface is a parameter over its own state.
\<close>

record 'w mci =
  mci_open :: "string \<Rightarrow> 'w \<Rightarrow> nat option \<times> 'w"
  mci_play :: "nat \<Rightarrow> 'w \<Rightarrow> 'w"
  mci_stop :: "nat \<Rightarrow> 'w \<Rightarrow> 'w"
  mci_pause :: "nat \<Rightarrow> 'w \<Rightarrow> 'w"
  mci_resume :: "nat \<Rightarrow> 'w \<Rightarrow> 'w"
  mci_close :: "nat \<Rightarrow> 'w \<Rightarrow> 'w"
  mci_position :: "nat \<Rightarrow> 'w \<Rightarrow> 32 word \<times> 'w"
  mci_seek :: "nat \<Rightarrow> 32 word \<Rightarrow> 'w \<Rightarrow> 'w"
  wave_volume :: "nat \<Rightarrow> 32 word \<Rightarrow> 'w \<Rightarrow> 'w"

record sound =
  device :: "nat option"
  ms :: "32 word"

type_synonym 'w media = "(string \<times> nat) list \<times> 'w"

definition Sound :: sound where
  "Sound = \<lparr>device = None, ms = 0\<rparr>"

text \<open>Where the file cannot be opened the program ends, which is the message \<open>exit\<close> here.\<close>

definition Open :: "'w mci \<Rightarrow> string \<Rightarrow> sound \<times> 'w media \<Rightarrow> (sound \<times> 'w media) res" where
  "Open api name = (\<lambda>(s, open_list, w). (case map_of open_list name of
     None \<Rightarrow> (case mci_open api name w of
         (None, w) \<Rightarrow> Inl (Thrown ''exit'')
       | (Some d, w) \<Rightarrow> Inr (s\<lparr>device := Some d\<rparr>, map_put name d open_list, w))
   | Some d \<Rightarrow> Inr (s\<lparr>device := Some d\<rparr>, open_list, w)))"

definition command :: "(nat \<Rightarrow> 'w \<Rightarrow> 'w) \<Rightarrow> sound \<times> 'w media \<Rightarrow> (sound \<times> 'w media) res" where
  "command send = (\<lambda>(s, open_list, w). (case device s of
     None \<Rightarrow> Inl Uninit | Some d \<Rightarrow> Inr (s, open_list, send d w)))"

definition Play :: "'w mci \<Rightarrow> sound \<times> 'w media \<Rightarrow> (sound \<times> 'w media) res" where
  "Play api = command (mci_play api)"

definition Stop :: "'w mci \<Rightarrow> sound \<times> 'w media \<Rightarrow> (sound \<times> 'w media) res" where
  "Stop api = command (mci_stop api)"

definition Pause :: "'w mci \<Rightarrow> sound \<times> 'w media \<Rightarrow> (sound \<times> 'w media) res" where
  "Pause api = command (mci_pause api)"

definition Resume :: "'w mci \<Rightarrow> sound \<times> 'w media \<Rightarrow> (sound \<times> 'w media) res" where
  "Resume api = command (mci_resume api)"

text \<open>The target is an unsigned number of milliseconds: going back before the start wraps around.\<close>

definition Seek :: "'w mci \<Rightarrow> int \<Rightarrow> sound \<times> 'w media \<Rightarrow> (sound \<times> 'w media) res" where
  "Seek api num = (\<lambda>(s, open_list, w). (case device s of
     None \<Rightarrow> Inl Uninit
   | Some d \<Rightarrow> (case mci_position api d w of (now, w) \<Rightarrow>
       let t = now + word_of_int num in Inr (s\<lparr>ms := t\<rparr>, open_list, mci_seek api d t w))))"

definition MAKELONG :: "16 word \<Rightarrow> 16 word \<Rightarrow> 32 word" where
  "MAKELONG lo hi = or (ucast lo) (push_bit 16 (ucast hi))"

definition Volume :: "'w mci \<Rightarrow> 16 word \<Rightarrow> 16 word \<Rightarrow> sound \<times> 'w media \<Rightarrow> (sound \<times> 'w media) res" where
  "Volume api left right = command (\<lambda>d. wave_volume api d (MAKELONG left right))"

definition Close :: "'w mci \<Rightarrow> sound \<times> 'w media \<Rightarrow> sound \<times> 'w media" where
  "Close api = (\<lambda>(s, open_list, w). (s, [], fold (\<lambda>p w. mci_close api (snd p) w) open_list w))"

subsection \<open>Sharing of devices\<close>

text \<open>A file that one object has opened is not opened again for another: both get its device.\<close>

lemma Open_shares:
  assumes "Open api name (a, ol, w) = Inr (a', ol', w')" "sorted_keys ol"
  shows "Open api name (b, ol', w') = Inr (b\<lparr>device := device a'\<rparr>, ol', w') \<and> sorted_keys ol'"
proof (cases "map_of ol name")
  case None
  then obtain d where d: "mci_open api name w = (Some d, w')" "a' = a\<lparr>device := Some d\<rparr>" "ol' = map_put name d ol"
    using assms(1) by (auto simp: Open_def split: option.splits prod.splits)
  then show ?thesis using sm.look_put [OF assms(2)] sm.ok_put [OF assms(2)] by (simp add: Open_def)
qed (use assms in \<open>auto simp: Open_def\<close>)

text \<open>
  \<open>Close\<close> closes the files of all objects. One that goes on plays a closed device, and one that
  opens its file again opens it anew.
\<close>

lemma Close_closes_all:
  "Close api (a, ol, w) = (a, [], fold (mci_close api) (map snd ol) w)"
proof -
  have "fold (\<lambda>p w. mci_close api (snd p) w) ol w = fold (mci_close api) (map snd ol) w"
    by (induction ol arbitrary: w) auto
  then show ?thesis by (simp add: Close_def)
qed

lemma Play_after_Close:
  assumes "device b = Some d"
  shows "Play api (b, snd (Close api (a, ol, w))) =
    Inr (b, [], mci_play api d (fold (mci_close api) (map snd ol) w))"
  using assms by (simp add: Close_closes_all Play_def command_def)

text \<open>Seeking back further than the position wraps around to a position of weeks.\<close>

lemma Seek_wraps:
  assumes "mci_position api d w = (now, w')" "device s = Some d" "uint now < n" "n < 2 ^ 31"
  shows "\<exists>t. Seek api (- n) (s, ol, w) = Inr (s\<lparr>ms := t\<rparr>, ol, mci_seek api d t w') \<and> 2 ^ 31 < uint t"
proof -
  let ?t = "now + word_of_int (- n)"
  have "?t = word_of_int (uint now - n)" by simp
  then have "uint ?t = (uint now - n) mod 2 ^ 32"
    by (simp only: uint_word_of_int) (simp add: take_bit_eq_mod)
  also have "\<dots> = uint now - n + 2 ^ 32"
  proof -
    have wrap: "(u - n) mod 2 ^ 32 = u - n + 2 ^ 32" if "0 \<le> u" "u < n" for u :: int
    proof -
      have "(u - n) mod 2 ^ 32 = (u - n + 2 ^ 32) mod 2 ^ 32" by (rule mod_add_self2 [symmetric])
      also have "\<dots> = u - n + 2 ^ 32" by (rule mod_pos_pos_trivial) (use that assms(4) in simp_all)
      finally show ?thesis .
    qed
    show ?thesis by (rule wrap) (use assms(3) in simp_all)
  qed
  finally have e: "uint ?t = uint now - n + 2 ^ 32" .
  have big: "2 ^ 31 < u - n + 2 ^ 32" if "0 \<le> u" for u :: int using that assms(4) by simp
  have "2 ^ 31 < uint ?t" unfolding e by (rule big) simp
  then show ?thesis using assms(1,2) by (auto simp: Seek_def Let_def)
qed

subsection \<open>The program\<close>

text \<open>
  One turn of the endless loop of the program (\<open>Project/SoundClass/main.cpp\<close>), which counts
  frames in a \<open>long\<close> and acts at certain ones.
\<close>

definition sound_frame :: "'w mci \<Rightarrow> int \<times> sound \<times> 'w media \<Rightarrow> (int \<times> sound \<times> 'w media) res" where
  "sound_frame api = (\<lambda>(fram, st). let fram = s32 (fram + 1) in
     rbind (if fram = 100000 then rbind (Stop api st) (\<lambda>st. rbind (Seek api 9000 st) (Play api)) else Inr st) (\<lambda>st.
     rbind (if fram = 120000 then Pause api st else Inr st) (\<lambda>st.
     rbind (if fram = 200000 then Resume api st else Inr st) (\<lambda>st.
     rbind (if fram = 250000 then rbind (Stop api st) (\<lambda>st. rbind (Seek api (- 9000) st) (\<lambda>st.
       rbind (Volume api 10 10 st) (Play api))) else Inr st) (\<lambda>st.
     let st = (if fram = 500000 then Close api st else st) in Inr (fram, st))))))"

definition sound_frames :: "'w mci \<Rightarrow> nat \<Rightarrow> int \<times> sound \<times> 'w media \<Rightarrow> (int \<times> sound \<times> 'w media) res" where
  "sound_frames api n = foldM (\<lambda>_. sound_frame api) [0..<n]"

definition main_sound :: "'w mci \<Rightarrow> nat \<Rightarrow> 'w media \<Rightarrow> (int \<times> sound \<times> 'w media) res" where
  "main_sound api n m = rbind (Open api ''001.wav'' (Sound, m)) (\<lambda>st. rbind (Play api st) (\<lambda>st.
     sound_frames api n (0, st)))"

lemma sound_frames_0: "sound_frames api 0 s = Inr s"
  by (simp add: sound_frames_def)

lemma sound_frames_Suc: "sound_frames api (Suc n) s = rbind (sound_frames api n s) (sound_frame api)"
  by (cases "foldM (\<lambda>_. sound_frame api) [0..<n] s")
    (simp_all add: sound_frames_def foldM_append rbind_def split: sum.split)

lemma sound_frames_add: "sound_frames api (m + n) s = rbind (sound_frames api m s) (sound_frames api n)"
proof (induction n)
  case 0
  then show ?case by (cases "sound_frames api m s") (simp_all add: sound_frames_0)
next
  case (Suc n)
  then show ?case by (cases "sound_frames api m s") (simp_all add: sound_frames_Suc)
qed

text \<open>Frames between two actions only count.\<close>

abbreviation acts_at :: "int set" where
  "acts_at \<equiv> {100000, 120000, 200000, 250000, 500000}"

lemma sound_frame_idle:
  assumes "0 \<le> f" "f + 1 < 2 ^ 31" "f + 1 \<notin> acts_at"
  shows "sound_frame api (f, st) = Inr (f + 1, st)"
  using assms by (simp add: sound_frame_def s32_id int32_def)

lemma sound_idle:
  assumes "0 \<le> f" "f + int n < 2 ^ 31" "\<forall>e \<in> acts_at. e \<le> f \<or> f + int n < e"
  shows "sound_frames api n (f, st) = Inr (f + int n, st)"
  using assms
proof (induction n)
  case (Suc n)
  have "sound_frames api n (f, st) = Inr (f + int n, st)" using Suc.prems by (intro Suc.IH) auto
  moreover have "sound_frame api (f + int n, st) = Inr (f + int n + 1, st)"
    by (rule sound_frame_idle) (use Suc.prems in auto)
  ultimately show ?case by (simp add: sound_frames_Suc)
qed (simp add: sound_frames_0)

lemma sound_leg:
  assumes "sound_frames api m s = rbind r (\<lambda>st. Inr (int m, st))"
    "m < n" "n < 2 ^ 31" "\<forall>e \<in> acts_at. e \<le> int m \<or> int n \<le> e"
  shows "sound_frames api n s = rbind r (\<lambda>st. sound_frame api (int n - 1, st))"
proof -
  obtain k where k: "n = m + Suc k" using assms(2) less_imp_Suc_add by fastforce
  have "sound_frames api (Suc k) (int m, st) = sound_frame api (int n - 1, st)" for st
    unfolding sound_frames_Suc by (subst sound_idle) (use assms(3,4) k in auto)
  then show ?thesis unfolding k sound_frames_add assms(1) by (cases r) (simp_all add: k)
qed

text \<open>
  C14: From frame 500000 until the counter overflows, whatever the device answers, the program
  has sent exactly this, in this order: it has opened and played the file, restarted it nine
  seconds on, paused and resumed it, restarted it nine seconds back at another volume, and
  closed it; all other frames only count. If any of these fails, so does the program.
\<close>

theorem sound_schedule:
  assumes "500000 \<le> n" "n < 2 ^ 31"
  shows "main_sound api n m = rbind (Open api ''001.wav'' (Sound, m)) (\<lambda>st. rbind (Play api st) (\<lambda>st.
     rbind (Stop api st) (\<lambda>st. rbind (Seek api 9000 st) (\<lambda>st. rbind (Play api st) (\<lambda>st.
     rbind (Pause api st) (\<lambda>st. rbind (Resume api st) (\<lambda>st.
     rbind (Stop api st) (\<lambda>st. rbind (Seek api (- 9000) st) (\<lambda>st. rbind (Volume api 10 10 st) (\<lambda>st.
     rbind (Play api st) (\<lambda>st. Inr (int n, Close api st))))))))))))"
proof -
  note leg = sound_leg [where api = api]
  have "sound_frames api n (0, st) = rbind (Stop api st) (\<lambda>st. rbind (Seek api 9000 st) (\<lambda>st.
     rbind (Play api st) (\<lambda>st. rbind (Pause api st) (\<lambda>st. rbind (Resume api st) (\<lambda>st.
     rbind (Stop api st) (\<lambda>st. rbind (Seek api (- 9000) st) (\<lambda>st. rbind (Volume api 10 10 st) (\<lambda>st.
     rbind (Play api st) (\<lambda>st. Inr (int n, Close api st))))))))))" for st
  proof -
    let ?r1 = "rbind (Stop api st) (\<lambda>st. rbind (Seek api 9000 st) (Play api))"
    let ?r2 = "rbind ?r1 (Pause api)"
    let ?r3 = "rbind ?r2 (Resume api)"
    let ?r4 = "rbind ?r3 (\<lambda>st. rbind (Stop api st) (\<lambda>st. rbind (Seek api (- 9000) st) (\<lambda>st.
       rbind (Volume api 10 10 st) (Play api))))"
    let ?r5 = "rbind ?r4 (\<lambda>st. Inr (Close api st))"
    have 0: "sound_frames api 0 (0, st) = rbind (Inr st) (\<lambda>st. Inr (int 0, st))" by (simp add: sound_frames_0)
    have 1: "sound_frames api 100000 (0, st) = rbind ?r1 (\<lambda>st. Inr (int 100000, st))"
      using leg [OF 0, of 100000] by (simp add: sound_frame_def s32_id int32_def rbind_assoc)
    have 2: "sound_frames api 120000 (0, st) = rbind ?r2 (\<lambda>st. Inr (int 120000, st))"
      using leg [OF 1, of 120000] by (simp add: sound_frame_def s32_id int32_def rbind_assoc)
    have 3: "sound_frames api 200000 (0, st) = rbind ?r3 (\<lambda>st. Inr (int 200000, st))"
      using leg [OF 2, of 200000] by (simp add: sound_frame_def s32_id int32_def rbind_assoc)
    have 4: "sound_frames api 250000 (0, st) = rbind ?r4 (\<lambda>st. Inr (int 250000, st))"
      using leg [OF 3, of 250000] by (simp add: sound_frame_def s32_id int32_def rbind_assoc)
    have 5: "sound_frames api 500000 (0, st) = rbind ?r5 (\<lambda>st. Inr (int 500000, st))"
      using leg [OF 4, of 500000] by (simp add: sound_frame_def s32_id int32_def rbind_assoc)
    have 6: "sound_frames api n (0, st) = rbind ?r5 (\<lambda>st. Inr (int n, st))"
    proof (cases "n = 500000")
      case False
      then have l: "500000 < n" using assms(1) by simp
      have "sound_frame api (int n - 1, st) = Inr (int n, st)" for st
        using sound_frame_idle [of "int n - 1"] l assms(2) by simp
      then show ?thesis using leg [OF 5 l assms(2)] l by simp
    qed (use 5 in simp)
    show ?thesis unfolding 6 by (simp add: rbind_assoc)
  qed
  then show ?thesis by (simp add: main_sound_def)
qed

text \<open>A device that keeps a log of what it is sent.\<close>

definition log_mci :: "(string \<times> int) list mci" where
  "log_mci = \<lparr>mci_open = (\<lambda>name w. (Some 1, w @ [(name, 1)])), mci_play = (\<lambda>_ w. w @ [(''play'', 0)]),
     mci_stop = (\<lambda>_ w. w @ [(''stop'', 0)]), mci_pause = (\<lambda>_ w. w @ [(''pause'', 0)]),
     mci_resume = (\<lambda>_ w. w @ [(''resume'', 0)]), mci_close = (\<lambda>d w. w @ [(''close'', int d)]),
     mci_position = (\<lambda>_ w. (1000, w)), mci_seek = (\<lambda>_ t w. w @ [(''seek'', uint t)]),
     wave_volume = (\<lambda>_ v w. w @ [(''volume'', uint v)])\<rparr>"

theorem sound_schedule_witness:
  "main_sound log_mci 500000 ([], []) = Inr (500000, \<lparr>device = Some 1, ms = - 8000\<rparr>, [],
     [(''001.wav'', 1), (''play'', 0), (''stop'', 0), (''seek'', 10000), (''play'', 0), (''pause'', 0),
      (''resume'', 0), (''stop'', 0), (''seek'', 4294959296), (''volume'', 655370), (''play'', 0), (''close'', 1)])"
  by (subst sound_schedule) (simp_all add: log_mci_def Open_def Sound_def Play_def Stop_def Seek_def
    Pause_def Resume_def Volume_def command_def Close_def MAKELONG_def)

end
