(* ===== verification/Surf.thy ===== *)
theory Surf
  imports ClusterApp Matching
begin

text \<open>
  The features of an image (\<open>ImageUtil::getSurf\<close>): the image is copied into one of OpenCV, whose
  SURF gives the key points and one list with the descriptors of all of them behind each other,
  which the code cuts into the descriptor of each point. OpenCV's allocation, its conversion to
  gray levels and SURF itself are parameters, as is the length of a descriptor.
\<close>

type_synonym cv_surf = "ipl_image \<Rightarrow> (cfloat \<times> cfloat) list \<times> cfloat list"

definition vec_at :: "'a list \<Rightarrow> nat \<Rightarrow> 'a res" where
  "vec_at xs i = (if i < length xs then Inr (xs ! i) else Inl OutOfRange)"

definition surf_of :: "nat \<Rightarrow> (cfloat \<times> cfloat) list \<Rightarrow> cfloat list \<Rightarrow> nat \<Rightarrow> surf res" where
  "surf_of dims kp_vec desc_vec i = rbind (vec_at kp_vec i) (\<lambda>(x, y).
     rbind (foldM (\<lambda>j fs. rbind (vec_at desc_vec (i * dims + j)) (\<lambda>d. Inr (fs @ [d]))) [0..<dims] [])
       (\<lambda>fs. Inr \<lparr>surf_x = x, surf_y = y, surf_features = fs\<rparr>))"

definition getSurf :: "cv_surf \<Rightarrow> nat \<Rightarrow> (int \<Rightarrow> int \<Rightarrow> ipl_image) \<Rightarrow> bi_image \<Rightarrow> surf list res" where
  "getSurf calc_surf dims create im = rbind (toCvImage create im) (\<lambda>cv.
     case calc_surf cv of (kp_vec, desc_vec) \<Rightarrow>
       foldM (\<lambda>i result. rbind (surf_of dims kp_vec desc_vec i) (\<lambda>s. Inr (result @ [s]))) [0..<length kp_vec] [])"

lemma collect: "foldM (\<lambda>x r. rbind (f x) (\<lambda>y. Inr (r @ [y]))) xs r = rbind (mapM f xs) (\<lambda>ys. Inr (r @ ys))"
  by (induction xs arbitrary: r) (simp_all add: rbind_assoc)

lemma descriptor:
  assumes "i * n + n \<le> length ds"
  shows "mapM (\<lambda>j. vec_at ds (i * n + j)) [0..<n] = Inr (take n (drop (i * n) ds))"
proof -
  have "mapM (\<lambda>j. vec_at ds (i * n + j)) [0..<n] = Inr (map (\<lambda>j. ds ! (i * n + j)) [0..<n])"
    using assms by (intro mapM_total) (simp add: vec_at_def)
  also have "map (\<lambda>j. ds ! (i * n + j)) [0..<n] = take n (drop (i * n) ds)"
    using assms by (intro nth_equalityI) simp_all
  finally show ?thesis .
qed

text \<open>
  With a descriptor for each key point, the features together are the list of descriptors, so
  that the pattern made from an image is what SURF computed, cut off nowhere.
\<close>

lemma surf_of_slice:
  assumes "i < length kp" "length ds = length kp * n"
  shows "surf_of n kp ds i =
    Inr \<lparr>surf_x = fst (kp ! i), surf_y = snd (kp ! i), surf_features = take n (drop (i * n) ds)\<rparr>"
proof -
  have "(i + 1) * n \<le> length ds" unfolding assms(2) by (rule mult_le_mono1) (use assms(1) in simp)
  then show ?thesis
    using descriptor [of i n ds] assms(1) by (simp add: surf_of_def vec_at_def collect split: prod.split)
qed

lemma slices: "k * n \<le> length ds \<Longrightarrow> concat (map (\<lambda>i. take n (drop (i * n) ds)) [0..<k]) = take (k * n) ds"
proof (induction k)
  case (Suc k)
  have "take (k * n + n) ds = take (k * n) ds @ take n (drop (k * n) ds)" by (rule take_add)
  then show ?case using Suc by (simp add: add.commute)
qed simp

lemma pull_slices:
  "k * n \<le> length q \<Longrightarrow>
     pull_patterns k (int n) q = (map (\<lambda>i. map Some (take n (drop (i * n) q))) [0..<k], drop (k * n) q)"
proof (induction k arbitrary: q)
  case (Suc k)
  have "pull_patterns k (int n) (drop n q) =
      (map (\<lambda>i. map Some (take n (drop (i * n) (drop n q)))) [0..<k], drop (k * n) (drop n q))"
    using Suc.prems by (intro Suc.IH) simp
  moreover have "pull (int n) q = (map Some (take n q), drop n q)"
    using Suc.prems by (simp add: pull_def pull_loop_enough)
  ultimately show ?case by (simp add: map_upt_Suc add.commute del: upt_Suc)
qed simp

lemma getSurf_found:
  assumes "toCvImage create im = Inr cv" and "calc_surf cv = (kp, ds)" and "length ds = length kp * n"
  shows "\<exists>found. getSurf calc_surf n create im = Inr found \<and> map (\<lambda>s. (surf_x s, surf_y s)) found = kp \<and>
    concat (map surf_features found) = ds \<and> list_all (\<lambda>s. length (surf_features s) = n) found \<and>
    pull_patterns (length found) (int n) (push (convert_image found) []) = (map (\<lambda>s. map Some (surf_features s)) found, [])"
proof -
  let ?s = "\<lambda>i. \<lparr>surf_x = fst (kp ! i), surf_y = snd (kp ! i), surf_features = take n (drop (i * n) ds)\<rparr>"
  let ?found = "map ?s [0..<length kp]"
  have "mapM (surf_of n kp ds) [0..<length kp] = Inr ?found"
    using assms(3) by (intro mapM_total) (simp add: surf_of_slice)
  then have "getSurf calc_surf n create im = Inr ?found"
    by (simp add: getSurf_def assms(1,2) collect)
  moreover have "concat (map surf_features ?found) = ds"
    using slices [of "length kp" n ds] assms(3) by (simp add: comp_def)
  moreover have "convert_image ?found = ds"
    using slices [of "length kp" n ds] assms(3) by (simp add: convert_image_concat comp_def)
  then have "pull_patterns (length ?found) (int n) (push (convert_image ?found) []) = (map (\<lambda>s. map Some (surf_features s)) ?found, [])"
    using pull_slices [of "length kp" n ds] assms(3) by (simp add: push_append comp_def)
  moreover have "map (\<lambda>s. (surf_x s, surf_y s)) ?found = kp" by (intro nth_equalityI) simp_all
  moreover have "n \<le> length ds - i * n" if "i < length kp" for i
  proof -
    have "(i + 1) * n \<le> length ds" unfolding assms(3) by (rule mult_le_mono1) (use that in simp)
    then show ?thesis by simp
  qed
  then have "list_all (\<lambda>s. length (surf_features s) = n) ?found" by (simp add: list_all_iff)
  ultimately show ?thesis by blast
qed

text \<open>
  C17: the way of a picture to the classifier. For an image with pixels, an allocator that gives
  three 8-bit channels with rows long enough, and a SURF that, whatever image it is given, returns
  for each key point one descriptor of the length it announces: the image is copied without an
  access outside either buffer into an OpenCV image of its size, whose bytes at \<open>3 * x\<close> in row
  \<open>y\<close> are the blue, green and red that pixel \<open>(x, y)\<close> shows; what SURF says of this image comes
  back as one feature for each key point, in their order, with the descriptors cut at the right
  places, so that together they are SURF's list; and converted to one row of numbers, put on the
  empty queue and taken off again in patterns of the descriptor's length, they arrive as one
  pattern for each key point, which is its descriptor with every component set, and nothing is
  left over. Dropping the colours (\<open>cvtColor\<close>) is a part of the SURF of the model.
\<close>

theorem picture_to_patterns:
  assumes "cv_created depth_8u create" and "wf_img im" and "0 < width im" and "0 < height im"
    and "\<And>cv. length (snd (calc_surf cv)) = length (fst (calc_surf cv)) * n"
  shows "\<exists>cv found. iwidth cv = width im \<and> iheight cv = height im \<and> depth cv = depth_8u \<and> nChannels cv = 3 \<and>
    (\<forall>x y. inside im x y \<longrightarrow>
      imageData cv ! nat (x * 3 + y * widthStep cv) = blue (shown im x y) \<and>
      imageData cv ! nat (x * 3 + 1 + y * widthStep cv) = green (shown im x y) \<and>
      imageData cv ! nat (x * 3 + 2 + y * widthStep cv) = red (shown im x y)) \<and>
    getSurf calc_surf n create im = Inr found \<and>
    map (\<lambda>s. (surf_x s, surf_y s)) found = fst (calc_surf cv) \<and>
    concat (map surf_features found) = snd (calc_surf cv) \<and> list_all (\<lambda>s. length (surf_features s) = n) found \<and>
    pull_patterns (length found) (int n) (push (convert_image found) []) =
      (map (\<lambda>s. map Some (surf_features s)) found, [])"
proof -
  obtain cv where cv: "toCvImage create im = Inr cv" "depth cv = depth_8u" "nChannels cv = 3"
    "iwidth cv = width im" "iheight cv = height im"
    "\<forall>x y. inside im x y \<longrightarrow> cv_ok (cv_shape cv) (x, y) \<and> cv_cell cv (x, y) = rgb_of (shown im x y)"
    using toCvImage_ok [OF assms(1-4)] by blast
  obtain kp ds where surf: "calc_surf cv = (kp, ds)" by (cases "calc_surf cv")
  have len: "length ds = length kp * n" using assms(5) [of cv] by (simp add: surf)
  obtain found where found: "getSurf calc_surf n create im = Inr found" "map (\<lambda>s. (surf_x s, surf_y s)) found = kp"
    "concat (map surf_features found) = ds" "list_all (\<lambda>s. length (surf_features s) = n) found"
    "pull_patterns (length found) (int n) (push (convert_image found) []) = (map (\<lambda>s. map Some (surf_features s)) found, [])"
    using getSurf_found [where calc_surf = calc_surf, OF cv(1) surf len] by blast
  have "imageData cv ! nat (x * 3 + y * widthStep cv) = blue (shown im x y) \<and>
      imageData cv ! nat (x * 3 + 1 + y * widthStep cv) = green (shown im x y) \<and>
      imageData cv ! nat (x * 3 + 2 + y * widthStep cv) = red (shown im x y)" if "inside im x y" for x y
    using cv(6) that by (simp add: cv_cell_def cv_index_def rgb_of_def)
  with cv(2-5) found show ?thesis by (intro exI [of _ cv] exI [of _ found]) (simp add: surf)
qed

text \<open>A SURF that describes two pixels of the image it is given.\<close>

definition two_bytes :: cv_surf where
  "two_bytes cv = ([(Fin 0, Fin 0)], [Fin (of_int (uint (imageData cv ! 0))),
     Fin (of_int (uint (imageData cv ! nat (1 * 3 + 2 * widthStep cv))))])"

theorem picture_to_patterns_witness:
  "\<exists>found v. getSurf two_bytes 2
     (\<lambda>w h. \<lparr>depth = 8, nChannels = 3, iwidth = w, iheight = h, widthStep = 3 * w + 2,
        imageData = replicate (nat ((3 * w + 2) * h)) 0\<rparr>) sample_img = Inr found \<and>
     concat (map surf_features found) = [v, Fin 255] \<and>
     pull_patterns (length found) 2 (push (convert_image found) []) = (map (\<lambda>s. map Some (surf_features s)) found, [])"
proof -
  let ?create = "\<lambda>w h. \<lparr>depth = 8, nChannels = 3, iwidth = w, iheight = h, widthStep = 3 * w + 2,
    imageData = replicate (nat ((3 * w + 2) * h)) (0 :: byte)\<rparr>"
  have "cv_created 8 ?create" by (auto simp: cv_created_def)
  from picture_to_patterns [OF this wf_sample_img, of two_bytes 2]
  obtain cv found where f: "\<forall>x y. inside sample_img x y \<longrightarrow>
      imageData cv ! nat (x * 3 + y * widthStep cv) = blue (shown sample_img x y) \<and>
      imageData cv ! nat (x * 3 + 1 + y * widthStep cv) = green (shown sample_img x y) \<and>
      imageData cv ! nat (x * 3 + 2 + y * widthStep cv) = red (shown sample_img x y)"
    "getSurf two_bytes 2 ?create sample_img = Inr found" "concat (map surf_features found) = snd (two_bytes cv)"
    "pull_patterns (length found) 2 (push (convert_image found) []) = (map (\<lambda>s. map Some (surf_features s)) found, [])"
    by (auto simp: two_bytes_def)
  have "inside sample_img 1 2" by (simp add: inside_def)
  moreover have "shown sample_img 1 2 = PixelL 255"
    by (simp add: shown_def sample_img_cell view_def pix_eq_Pixel0)
  ultimately have "imageData cv ! nat (1 * 3 + 2 * widthStep cv) = 255" using f(1) [rule_format, of 1 2] by (simp add: pixel_simps)
  then show ?thesis using f(2-4) by (simp add: two_bytes_def)
qed

end
