(* ===== verification/Tracker.thy ===== *)
theory Tracker
  imports Filters
begin

text \<open>
  The corner detectors of the camera program (\<open>Project/CameraClass/main2.cpp\<close>): the contrast of
  a pixel with the square around it, and the two detectors built on white pixels and on the
  contrast. A corner is a pair of coordinates; \<open>SIZE\<close> is 1.
\<close>

definition SIZE :: int where
  "SIZE = 1"

text \<open>The offsets of a square, the first coordinate in the inner loop.\<close>

definition offsets :: "int \<Rightarrow> (int \<times> int) list" where
  "offsets n = concat (map (\<lambda>j. map (\<lambda>i. (i, j)) [- n..n]) [- n..n])"

definition beyond :: "bi_image \<Rightarrow> int \<Rightarrow> int \<Rightarrow> bool" where
  "beyond im x y \<longleftrightarrow> x < 0 \<or> x \<ge> width im \<or> y < 0 \<or> y \<ge> height im"

definition add_contrast :: "bi_image \<Rightarrow> int \<Rightarrow> int \<Rightarrow> int \<times> int \<Rightarrow> int \<Rightarrow> int res" where
  "add_contrast im x y = (\<lambda>(i, j) count. if beyond im (x + i) (y + j) then Inr count else
     rbind (Get im x y) (\<lambda>p. rbind (Get im (x + i) (y + j)) (\<lambda>q.
     Inr (s32 (count + \<bar>uint (Lightness p) - uint (Lightness q)\<bar>)))))"

definition getFeature :: "bi_image \<Rightarrow> int \<Rightarrow> int \<Rightarrow> int \<Rightarrow> int res" where
  "getFeature im x y n = foldM (add_contrast im x y) (offsets n) 0"

text \<open>The first detector visits the square column by column, here as the pairs \<open>(l, k)\<close>.\<close>

definition white_corner :: "bi_image \<Rightarrow> int \<Rightarrow> int \<Rightarrow> int res" where
  "white_corner im i j = rbind (Get im i j) (\<lambda>p. let ope = uint (Lightness p) in
     if ope = 255
     then foldM (\<lambda>(l, k) count. if beyond im (i + k) (j + l) then Inr count else
         rbind (Get im (i + k) (j + l)) (\<lambda>q.
         Inr (if ope \<noteq> uint (Lightness q) \<and> k \<noteq> 0 \<and> l \<noteq> 0 then count + 1 else count))) (offsets SIZE) 0
     else Inr 0)"

definition CornerDetector :: "bi_image \<Rightarrow> (int \<times> int) list \<Rightarrow> (int \<times> int) list res" where
  "CornerDetector im = for_each im (\<lambda>i j corner. rbind (white_corner im i j) (\<lambda>count.
     Inr (if count \<ge> 1 then corner @ [(i, j)] else corner)))"

definition near_pos :: "int \<Rightarrow> int \<Rightarrow> bool" where
  "near_pos pos count \<longleftrightarrow> (let w = 10 in pos - w div 2 < count \<and> count < pos + w div 2)"

definition CornerDetector_pos :: "int \<Rightarrow> bi_image \<Rightarrow> (int \<times> int) list \<Rightarrow> (int \<times> int) list res" where
  "CornerDetector_pos pos im = for_each im (\<lambda>i j corner. rbind (getFeature im i j SIZE) (\<lambda>count.
     Inr (if near_pos pos count then corner @ [(i, j)] else corner)))"

text \<open>The inner loop runs from \<open>x + size\<close> to \<open>x + size\<close>, so it sums the right column only.\<close>

definition getCornerFeature :: "bi_image \<Rightarrow> int \<Rightarrow> int \<Rightarrow> int \<Rightarrow> int \<Rightarrow> int res" where
  "getCornerFeature im x y n pos = (
     if x - n < 0 \<or> x + n \<ge> width im \<or> y - n < 0 \<or> y + n \<ge> height im then Inr 0
     else foldM (\<lambda>(i, j) feature. rbind (getFeature im i j SIZE) (\<lambda>count.
       if near_pos pos count then rbind (Get im i j) (\<lambda>p.
         Inr (s32 (feature + (uint (red p) + uint (green p) + uint (blue p)))))
       else Inr feature)) (concat (map (\<lambda>j. map (\<lambda>i. (i, j)) [x + n..x + n]) [y - n..y + n])) 0)"

subsection \<open>The contrast\<close>

lemma set_offsets: "(i, j) \<in> set (offsets n) \<longleftrightarrow> - n \<le> i \<and> i \<le> n \<and> - n \<le> j \<and> j \<le> n"
  by (force simp: offsets_def)

lemma length_offsets: "0 \<le> n \<Longrightarrow> int (length (offsets n)) = (2 * n + 1) * (2 * n + 1)"
  by (simp add: offsets_def length_concat comp_def sum_list_triv)

lemma not_beyond: "beyond im x y \<longleftrightarrow> \<not> inside im x y"
  by (auto simp: beyond_def inside_def)

definition light :: "bi_image \<Rightarrow> int \<Rightarrow> int \<Rightarrow> int" where
  "light im x y = uint (Lightness (shown im x y))"

lemma light_bounds: "0 \<le> light im x y" "light im x y \<le> 255"
  using uint_range_size [of "Lightness (shown im x y)"] by (simp_all add: light_def)

lemma add_contrast_eq:
  assumes "wf_img im" "inside im x y"
  shows "add_contrast im x y (i, j) n = Inr (if inside im (x + i) (y + j)
    then s32 (n + \<bar>light im x y - light im (x + i) (y + j)\<bar>) else n)"
  using assms by (simp add: add_contrast_def not_beyond Get_shown light_def)

lemma contrast_sum:
  assumes "wf_img im" "inside im x y" "0 \<le> n" "n + 255 * int (length xs) < 2 ^ 31"
  shows "\<exists>m. foldM (add_contrast im x y) xs n = Inr m \<and> n \<le> m \<and> m \<le> n + 255 * int (length xs) \<and>
    (m = n \<longleftrightarrow> (\<forall>(i, j) \<in> set xs. inside im (x + i) (y + j) \<longrightarrow> light im (x + i) (y + j) = light im x y))"
  using assms(3,4)
proof (induction xs arbitrary: n)
  case (Cons c xs)
  obtain i j where c: "c = (i, j)" by (cases c)
  let ?d = "if inside im (x + i) (y + j) then \<bar>light im x y - light im (x + i) (y + j)\<bar> else 0"
  have d: "0 \<le> ?d" "?d \<le> 255"
    using light_bounds [of im x y] light_bounds [of im "x + i" "y + j"] by auto
  have "int32 (n + ?d)" using Cons.prems d by (auto simp: int32_def)
  then have step: "add_contrast im x y c n = Inr (n + ?d)"
    by (auto simp: c add_contrast_eq [OF assms(1,2)])
  obtain m where m: "foldM (add_contrast im x y) xs (n + ?d) = Inr m" "n + ?d \<le> m"
    "m \<le> n + ?d + 255 * int (length xs)"
    "m = n + ?d \<longleftrightarrow> (\<forall>(i, j) \<in> set xs. inside im (x + i) (y + j) \<longrightarrow> light im (x + i) (y + j) = light im x y)"
    using Cons.IH [of "n + ?d"] Cons.prems d by auto
  have "m = n \<longleftrightarrow> ?d = 0 \<and> m = n + ?d" using m(2) d(1) by linarith
  moreover have "?d = 0 \<longleftrightarrow> (inside im (x + i) (y + j) \<longrightarrow> light im (x + i) (y + j) = light im x y)"
    by auto
  ultimately have "m = n \<longleftrightarrow>
      (\<forall>(i, j) \<in> set (c # xs). inside im (x + i) (y + j) \<longrightarrow> light im (x + i) (y + j) = light im x y)"
    using m(4) by (simp add: c)
  moreover have "n \<le> m" "m \<le> n + 255 * int (length (c # xs))" using m(2,3) d by simp_all
  ultimately show ?case using step m(1) by simp
qed simp

text \<open>The squares whose sum an int can hold.\<close>

definition small_square :: "int \<Rightarrow> bool" where
  "small_square n \<longleftrightarrow> 0 \<le> n \<and> 255 * ((2 * n + 1) * (2 * n + 1)) < 2 ^ 31"

text \<open>
  C33: For a pixel of the image and a square whose size n is not negative and small enough that
  255 * (2 n + 1) * (2 n + 1) is an int (the program uses 1), the contrast of the pixel is between zero and 255 for each pixel of the square, as the
  comment says, without an overflow and without reading outside the image even at its border;
  and it is zero exactly when the square, as far as it lies in the image, has one lightness.
\<close>

theorem getFeature_bounds:
  assumes "wf_img im" "inside im x y" "small_square n"
  shows "\<exists>m. getFeature im x y n = Inr m \<and> 0 \<le> m \<and> m \<le> 255 * ((2 * n + 1) * (2 * n + 1)) \<and>
    (m = 0 \<longleftrightarrow> list_all (\<lambda>(i, j). inside im (x + i) (y + j) \<longrightarrow> light im (x + i) (y + j) = light im x y)
      (offsets n))"
  using contrast_sum [OF assms(1,2), of 0 "offsets n"] assms(3)
  by (auto simp: getFeature_def small_square_def length_offsets list_all_iff)

theorem getFeature_bounds_witness:
  "\<exists>m. getFeature sample_img 0 0 1 = Inr m \<and> 0 \<le> m \<and> m \<le> 2295"
  using getFeature_bounds [of sample_img 0 0 1] by (auto simp: small_square_def inside_def)

subsection \<open>The corners\<close>

lemma fold_collect: "fold (\<lambda>x c. if P x then c @ [x] else c) xs c = c @ filter P xs"
  by (induction xs arbitrary: c) auto

lemma for_each_collect:
  assumes "\<And>x y c. inside im x y \<Longrightarrow> f x y c = Inr (if P x y then c @ [(x, y)] else c)"
  shows "for_each im f c = Inr (c @ filter (\<lambda>(x, y). P x y) (raster (width im) (height im)))"
  using for_each_read [of im f "\<lambda>x y c. if P x y then c @ [(x, y)] else c" c] assms
    fold_collect [of "\<lambda>(x, y). P x y" "raster (width im) (height im)" c]
  by (simp add: case_prod_unfold cong: if_cong)

definition white_at :: "bi_image \<Rightarrow> int \<Rightarrow> int \<Rightarrow> bool" where
  "white_at im x y \<longleftrightarrow> light im x y = 255"

text \<open>White, with a diagonal neighbour in the image that is not.\<close>

definition diagonal_corner :: "bi_image \<Rightarrow> int \<times> int \<Rightarrow> bool" where
  "diagonal_corner im = (\<lambda>(x, y). white_at im x y \<and>
     list_ex (\<lambda>(k, l). inside im (x + k) (y + l) \<and> \<not> white_at im (x + k) (y + l))
       [(-1, -1), (-1, 1), (1, -1), (1, 1)])"

lemma offsets_1: "offsets 1 = [(-1, -1), (0, -1), (1, -1), (-1, 0), (0, 0), (1, 0), (-1, 1), (0, 1), (1, 1)]"
  by (simp add: offsets_def upto.simps)

lemma white_corner_eq:
  assumes "wf_img im" "inside im i j"
  shows "\<exists>n. white_corner im i j = Inr n \<and> (n \<ge> 1 \<longleftrightarrow> diagonal_corner im (i, j))"
proof -
  let ?P = "\<lambda>(l, k). inside im (i + k) (j + l) \<and> k \<noteq> 0 \<and> l \<noteq> 0 \<and> \<not> white_at im (i + k) (j + l)"
  show ?thesis
  proof (cases "white_at im i j")
    case True
    have "white_corner im i j = foldM (\<lambda>(l, k) count. if beyond im (i + k) (j + l) then Inr count else
         rbind (Get im (i + k) (j + l)) (\<lambda>q.
         Inr (if 255 \<noteq> uint (Lightness q) \<and> k \<noteq> 0 \<and> l \<noteq> 0
           then count + 1 else count))) (offsets 1) 0"
      using True assms by (simp add: white_corner_def Get_shown white_at_def light_def SIZE_def)
    also have "\<dots> = Inr (0 + int (length (filter ?P (offsets 1))))"
      using True assms(1)
      by (intro foldM_count) (auto simp: not_beyond Get_shown white_at_def light_def split: if_splits)
    finally have "white_corner im i j = Inr (int (length (filter ?P (offsets 1))))" by simp
    moreover have "int (length (filter ?P (offsets 1))) \<ge> 1 \<longleftrightarrow> filter ?P (offsets 1) \<noteq> []"
      by (cases "filter ?P (offsets 1)") auto
    moreover have "filter ?P (offsets 1) \<noteq> [] \<longleftrightarrow> diagonal_corner im (i, j)"
      using True by (auto simp: filter_empty_conv offsets_1 diagonal_corner_def)
    ultimately show ?thesis by blast
  next
    case False
    then show ?thesis
      using assms by (auto simp: white_corner_def Get_shown white_at_def light_def diagonal_corner_def)
  qed
qed

text \<open>
  The first detector appends, in raster order, exactly the white pixels that have a
  diagonal neighbour inside the image which is not white: the condition meant to leave out the
  pixel itself leaves out its four direct neighbours too.
\<close>

theorem CornerDetector_diagonal:
  assumes "wf_img im"
  shows "CornerDetector im found =
    Inr (found @ filter (diagonal_corner im) (raster (width im) (height im)))"
proof -
  have "CornerDetector im found =
      Inr (found @ filter (\<lambda>(x, y). diagonal_corner im (x, y)) (raster (width im) (height im)))"
    unfolding CornerDetector_def
  proof (rule for_each_collect)
    fix x y c assume "inside im x y"
    then obtain n where "white_corner im x y = Inr n" "n \<ge> 1 \<longleftrightarrow> diagonal_corner im (x, y)"
      using white_corner_eq [OF assms] by blast
    then show "rbind (white_corner im x y) (\<lambda>count. Inr (if count \<ge> 1 then c @ [(x, y)] else c)) =
        Inr (if diagonal_corner im (x, y) then c @ [(x, y)] else c)" by simp
  qed
  then show ?thesis by simp
qed

text \<open>An image of one black line through white: the pixels beside the line are no corners, the
  pixels around its end are.\<close>

definition line_img :: bi_image where
  "line_img = \<lparr>mimage = [PixelL 255, PixelL 0, PixelL 255, PixelL 255, PixelL 255, PixelL 255],
     clearColor = Pixel0, width = 3, height = 2\<rparr>"

theorem CornerDetector_diagonal_witness:
  "CornerDetector line_img [] = Inr [(0, 1), (2, 1)]"
proof -
  have "wf_img line_img" by (simp add: line_img_def wf_img_def int32_def)
  from CornerDetector_diagonal [OF this, of "[]"] show ?thesis
    by (simp add: line_img_def raster_def upto.simps diagonal_corner_def white_at_def light_def shown_def
        view_def cell_def inside_def pix_eq_Pixel0)
qed

text \<open>The second detector finds the pixels whose contrast is less than five off the wanted one.\<close>

lemma CornerDetector_pos_near:
  assumes "wf_img im"
  shows "\<exists>P. CornerDetector_pos pos im found =
      Inr (found @ filter (\<lambda>(x, y). P x y) (raster (width im) (height im))) \<and>
    (\<forall>x y. inside im x y \<longrightarrow> (\<exists>m. getFeature im x y SIZE = Inr m \<and> (P x y \<longleftrightarrow> \<bar>m - pos\<bar> < 5)))"
proof (intro exI conjI)
  let ?P = "\<lambda>x y. \<exists>m. getFeature im x y SIZE = Inr m \<and> near_pos pos m"
  have ok: "\<exists>m. getFeature im x y SIZE = Inr m" if "inside im x y" for x y
    using contrast_sum [OF assms that, of 0 "offsets 1"]
    by (auto simp: getFeature_def SIZE_def offsets_1)
  show "CornerDetector_pos pos im found = Inr (found @ filter (\<lambda>(x, y). ?P x y) (raster (width im) (height im)))"
    unfolding CornerDetector_pos_def
  proof (rule for_each_collect)
    fix x y c assume "inside im x y"
    with ok obtain m where "getFeature im x y SIZE = Inr m" by blast
    then show "rbind (getFeature im x y SIZE) (\<lambda>count. Inr (if near_pos pos count then c @ [(x, y)] else c)) =
        Inr (if ?P x y then c @ [(x, y)] else c)" by simp
  qed
  show "\<forall>x y. inside im x y \<longrightarrow> (\<exists>m. getFeature im x y SIZE = Inr m \<and> (?P x y \<longleftrightarrow> \<bar>m - pos\<bar> < 5))"
    using ok by (fastforce simp: near_pos_def)
qed

end
