(* ===== verification/Spec2Isabelle.thy ===== *)
theory Spec2Isabelle
  imports BiImage Bmp BrainWaves Camera CDouble CHeap ClusterApp ClusterWindow Clusters Crawler Filters Geometry Graph
    GraphClass GraphFile GuiObjects Histogram Http ImageStore Input Labeling LegacyFilters LegacyImage Matching MathClass Morphology Number Objects OrderedMap Pixel PixelColor Prelude
    Scene Script SensorBar Session Sockets Sound Strings Surf Tracker Wavelets Windows Xml
begin

text \<open>
  A verification library of LeftFelt, a collection of C++ class libraries and the programs on
  top of them. The code modelled is the program's own C++ under \<open>src/cpp\<close>: the class libraries
  \<open>base\<close>, \<open>image_util\<close> and \<open>gui\<close> (\<open>src/cpp/lib/LeftFelt/LeftFelt\<close>), the SQLite wrapper
  (\<open>src/cpp/lib/SQLite3\<close>), the device classes and the older C library (\<open>src/cpp/src\<close>) and the programs
  that compose them (\<open>src/cpp/Project\<close>: hand detection, brain wave monitor, clustering, crawler,
  corner tracker, sound player).

  \<^bold>\<open>How the code is modelled.\<close> A class is a record, a method a function on it, its result a sum
  whose left side is the error (\<open>cerr\<close> of \<open>Prelude\<close>: an exception with its message, a read or
  write outside a buffer, an uninitialised read, a null or freed pointer, a division by zero, a
  negative allocation, or fuel that ran out). Buffers are lists behind checked accesses (\<open>rdbuf\<close>, \<open>wrbuf\<close>), bytes are
  \<open>8 word\<close>, ints are integers wrapped by \<open>s32\<close> where the code computes them, divisions truncate.
  Floats and doubles are rationals with infinities and NaN under round-to-nearest-even
  (\<open>CDouble\<close>). \<open>std::map\<close> is an association list in key order (\<open>OrderedMap\<close>). A method whose effects
  survive a throw returns the error beside the state (\<open>io\<close> of \<open>Prelude\<close>). What the code calls and
  the repository does not hold is a parameter: Winsock (\<open>Sockets.winsock\<close>), Win32 (\<open>Windows\<close>), the
  ThinkGear driver (\<open>BrainWaves.driver\<close>), sqlite3 and \<open>rand\<close> (\<open>Clusters\<close>), OpenCV's allocator
  (\<open>Matching\<close>), MCI (\<open>Sound\<close>), the frames a camera delivers (\<open>Camera\<close>), and the C library's
  trigonometry, \<open>exp\<close>, \<open>log\<close> and \<open>pow\<close>. Where two threads share data (\<open>Camera\<close>) the model is a
  step relation whose steps are single writes, so that every interleaving is a run of it.

  \<^bold>\<open>The parts, from the bottom up.\<close>
  \<^item> \<open>Prelude\<close>: errors, the sequencing \<open>rbind\<close>, counted loops \<open>foldM\<close> with their invariant rule,
    buffers, 32-bit arithmetic, and the interface \<open>cell_store\<close> of everything that is read and
    written by cells, whose law of a sweep (each cell visited once and rewritten from its own
    old value, with or without an account) proves the image loops. It is interpreted on images
    (\<open>BiImage\<close>), on OpenCV images (\<open>Matching\<close>), on the key counters (\<open>Input\<close>) and on the bitmap of
    a window (\<open>GuiObjects\<close>).
  \<^item> \<open>OrderedMap\<close>: \<open>std::map\<close>, and the interfaces \<open>keyed_store\<close> and \<open>counter_store\<close> that give the
    contents after loops that insert or count; used by tags, labels, objects and readings.
  \<^item> \<open>CDouble\<close>: rounding, the interface \<open>rounding\<close> (monotone and exact on small integers,
    interpreted on both formats) and the operations and conversions of floats.
  \<^item> \<open>CHeap\<close>: the blocks of \<open>malloc\<close> and \<open>free\<close> behind pointers, with the interface \<open>block_memory\<close> of
    reads, writes and releases of a block, interpreted on the heap; used by the older library,
    the graphs, the wavelets, and the image and the captures of a camera.
  \<^item> \<open>MathClass\<close>, \<open>Number\<close>, \<open>Strings\<close>, \<open>Xml\<close>, \<open>Sockets\<close>, \<open>Http\<close>: the base library
    (\<open>MathClass.h\<close>, \<open>NumberOperatorClass.h\<close>, \<open>NumberClass.cpp\<close>, \<open>StringClass.cpp\<close>, \<open>TagClass.cpp\<close>,
    \<open>XMLClass.cpp\<close>, \<open>SocketClass.cpp\<close>, \<open>NetworkClass.cpp\<close>, \<open>HttpClass.cpp\<close>). Strings convert from
    numbers; tags split and strip strings; HTTP requests run over sockets. \<open>Session\<close>: the client and
    the server that try the sockets out (\<open>NetworkClass/main.cpp\<close>, \<open>Server/main.cpp\<close>), as a step
    relation of two processes and the streams between them.
  \<^item> \<open>Pixel\<close>, \<open>PixelColor\<close>, \<open>BiImage\<close>, \<open>Filters\<close>, \<open>Morphology\<close>, \<open>Labeling\<close>, \<open>Objects\<close>, \<open>Matching\<close>,
    \<open>Bmp\<close>: the image library (\<open>PixelClass\<close>, \<open>biImageClass\<close>, \<open>ImageUtilClass\<close>), on images as values.
    \<open>ImageStore\<close>: the same image class with its buffers on a heap, which refines the values as long
    as no two objects share a buffer, and shows what copies, temporary objects and the destructor
    do to those that do. \<open>Surf\<close>: the features OpenCV finds (\<open>ImageUtil::getSurf\<close>), on their way to
    the classifier.
  \<^item> \<open>Geometry\<close>, \<open>Input\<close>, \<open>Windows\<close>: points, areas, lines and squares; keys and stopwatch; windows,
    their objects, the window procedure and the application loop. Windows and objects live at
    addresses of a store, so that freeing a window another object still names is an error.
  \<^item> \<open>SensorBar\<close>: hand detection (\<open>SensorBarLogicClass.cpp\<close> and the frame of its program), over the
    filters, morphology, labelling, objects, thinning, end points and lines.
  \<^item> \<open>BrainWaves\<close>: the headset (\<open>ThinkGearClass.cpp\<close>) and the brain wave monitor, over strings,
    squares and images.
  \<^item> \<open>Clusters\<close>, \<open>ClusterApp\<close>, \<open>ClusterWindow\<close>: classifiers, pattern queue, database wrapper and cluster
    repository; the program around them (\<open>Clustering/main.cpp\<close>, \<open>Converter.cpp\<close>): the features under
    the mouse and their label; a frame of its picture window, which composes the mouse, squares,
    images, windows and the database, the label dialog, and a round of the learning thread.
  \<^item> \<open>GuiObjects\<close>: images, texts and image buttons in a window (\<open>gui/ImageClass.cpp\<close>,
    \<open>gui/TextClass.cpp\<close>, \<open>ImageButton.cpp\<close>).
  \<^item> \<open>Camera\<close>: the capture threads and the program that share one image (\<open>CameraClass.cpp\<close>);
    \<open>Tracker\<close>: the corners and contrasts of the camera program (\<open>CameraClass/main2.cpp\<close>).
  \<^item> \<open>Crawler\<close>: the image crawler (\<open>CrawlerClass/main.cpp\<close>), over HTTP, URL resolution and XML.
  \<^item> \<open>LegacyImage\<close>, \<open>LegacyFilters\<close>, \<open>Graph\<close>: the older library in C (\<open>biImage.cpp\<close>, \<open>lib.cpp\<close>,
    \<open>graph.cpp\<close>), over \<open>CHeap\<close>; its threshold search is related to that of \<open>Filters\<close>.
    \<open>Histogram\<close>: the text of a histogram (\<open>SaveHistogram\<close> of \<open>lib.cpp\<close>).
  \<^item> \<open>Wavelets\<close>: Gabor wavelets and features (\<open>wavelet.cpp\<close>, \<open>WaveletClass.cpp\<close>, \<open>FeatureClass.cpp\<close>);
    \<open>Sound\<close> (\<open>SoundClass.cpp\<close> and the frames of \<open>SoundClass/main.cpp\<close>); \<open>Script\<close>
    (\<open>ScriptClass.cpp\<close>); \<open>Scene\<close> (\<open>SceneClass.h\<close>).
  \<^item> \<open>GraphFile\<close>, \<open>GraphClass\<close>: the binary files of graphs (\<open>SaveGraphFile\<close>, \<open>LoadGraphFile\<close> of
    \<open>graph.cpp\<close>), whose records satisfy the interface \<open>file_item\<close> (what is written is read back, and
    takes eight bytes), interpreted on points, edges and features; graphs joined with features
    (\<open>GraphClass.cpp\<close>).

  \<^bold>\<open>What the lemmas show.\<close> For each loop over an image, what every cell holds afterwards and
  that no access leaves the buffer (the \<open>_cells\<close> and \<open>_ok\<close> lemmas); for each search or growing
  loop, that it ends; for the readers and writers, that one undoes the other; for the state
  machines (keys, windows, capture threads), an invariant of the reachable states, what every
  fair run comes to, or the error they run into. The properties C1 to C40 stand with their components; those that span components
  stand below.

  \<^bold>\<open>Fuel.\<close> Loops without an obvious measure run on fuel and give \<open>Hang\<close> when it runs out; the
  claims show that they do not. \<open>Thinning\<close> gets one pass more than the image has pixels (each
  pass but the last blackens one); \<open>grow\<close> one turn more than the pixels (each is put on the stack
  once); \<open>lookup_walk\<close> one step more than the table has entries (entries decrease);
  \<open>Replace_loop\<close>, \<open>prop_loop\<close> and \<open>path_loop\<close> one round more than the characters. With an empty search
  string \<open>Replace\<close> does hang, as the code does. \<open>Recv\<close> gets its fuel as an argument, since a peer
  may send for ever, and so does the loop over a floating-point variable in \<open>convolution\<close>
  (\<open>float_loop\<close>), whose step may be zero.

  \<^bold>\<open>Not modelled.\<close> The constructors that set windows up (\<open>CreateWindow\<close> and its class, the set-up of
  the application classes), which call the operating system without a decision; the older camera
  program \<open>CameraClass/main.cpp\<close> and the tracking loop of \<open>main2.cpp\<close>, which use macros and methods the
  repository no longer has; the other mains that call each class once; vendored C and C++ (boost,
  sqlite3, the balance board driver) and everything outside \<open>src/cpp\<close> (PHP and JavaScript services
  with vendored node.js). The release of the tables of
  \<open>Labeling\<close>, which are values here. Outside \<open>ImageStore\<close>, images, strings and maps behind pointers are modelled by value. The learning thread of the clustering program is modelled round by
  round, not interleaved with the window's events.
\<close>

section \<open>Properties that span components\<close>

text \<open>
  C10: one frame of the hand detection, from the camera's picture of 320 by 240 to the drawn
  hand, stays inside all its images: scaling, skin extraction, noise removal, labelling,
  thinning, the search of the end points and the lines drawn at double scale. It ends with the
  picture of the camera's size drawn on, when the skin extracted from the halved picture still
  has a white pixel off the border after \<open>AntiNoise\<close> with size 1; otherwise, also when the noise
  removal has taken the only skin away, it uses the object number that was never set.
\<close>

theorem hand_frame_safe:
  assumes "wf_img camera" "width camera = 320" "height camera = 240" "wf_img background" "wf_img temp"
  shows "\<exists>small an. rbind (assign background camera) (\<lambda>b. rbind (assign temp b)
      (\<lambda>t. rbind (BiImage.Size 160 120 t) Range)) = Inr small \<and> AntiNoise 1 small = Inr an \<and>
    (if has_object an
     then \<exists>out t. WindowUpdate camera background temp = Inr (out, t) \<and>
       wf_img out \<and> width out = 320 \<and> height out = 240 \<and> width t = 160 \<and> height t = 120
     else WindowUpdate camera background temp = Inl Uninit)"
  using WindowUpdate_ok [of camera background temp] assms by (fastforce simp: sized_def)

theorem hand_frame_safe_witness:
  "\<exists>small an. rbind (assign init (init\<lparr>width := 320, height := 240, mimage := replicate 76800 (PixelL 0)\<rparr>))
      (\<lambda>b. rbind (assign init b) (\<lambda>t. rbind (BiImage.Size 160 120 t) Range)) = Inr small \<and> AntiNoise 1 small = Inr an"
proof -
  let ?im = "init\<lparr>width := 320, height := 240, mimage := replicate 76800 (PixelL 0)\<rparr>"
  have "wf_img ?im" "width ?im = 320" "height ?im = 240" by (simp_all add: wf_img_def int32_def)
  from hand_frame_safe [OF this wf_init wf_init] show ?thesis by blast
qed

end
